(* ===== verification/Sniper_Prelude.thy ===== *)
theory Sniper_Prelude
  imports Complex_Main "HOL-Library.Word" "HOL-Library.Monad_Syntax"
begin

section \<open>Shared vocabulary of the development\<close>

text \<open>
  Machine integers, arrays with checked indices, loops whose body may have no defined
  behaviour, ordered maps (\<^verbatim>\<open>std::map\<close>), and the total-correctness predicate
  \<open>runs\<close> with its rules.

  A C++ operation that can index an array out of range, run into a failed \<^verbatim>\<open>assert\<close> or a
  \<^verbatim>\<open>LOG_ASSERT_ERROR\<close> is modelled by a function into \<open>'a option\<close>: \<open>None\<close> says that the
  source gives the run no continuation (undefined behaviour or an abort), \<open>Some x\<close> that
  it returns \<open>x\<close>. The option monad and its \<open>do\<close> notation sequence such operations.
\<close>

unbundle bit_operations_syntax

type_synonym u8 = "8 word"
type_synonym u32 = "32 word"
type_synonym u64 = "64 word"

named_theorems runs_simps \<open>rewriting rules for the total-correctness predicate\<close>
named_theorems runs_intros \<open>introduction rules for the total-correctness predicate\<close>

subsection \<open>Total correctness of operations in the option monad\<close>

text \<open>
  \<open>runs m Q\<close>: the operation \<open>m\<close> returns (no undefined access, no failed assertion) and its
  result satisfies \<open>Q\<close>. It is a weakest precondition for the option monad.
\<close>

definition runs :: "'a option \<Rightarrow> ('a \<Rightarrow> bool) \<Rightarrow> bool" where
  "runs m Q \<longleftrightarrow> (case m of None \<Rightarrow> False | Some x \<Rightarrow> Q x)"

lemma runs_None [simp, runs_simps]: "\<not> runs None Q"
  by (simp add: runs_def)

lemma runs_Some [simp, runs_simps]: "runs (Some x) Q \<longleftrightarrow> Q x"
  by (simp add: runs_def)

lemma runs_bind [runs_simps]: "runs (m \<bind> f) Q \<longleftrightarrow> runs m (\<lambda>x. runs (f x) Q)"
  by (cases m) auto

lemma runs_iff: "runs m Q \<longleftrightarrow> (\<exists>x. m = Some x \<and> Q x)"
  by (cases m) auto

lemma runsI: "m = Some x \<Longrightarrow> Q x \<Longrightarrow> runs m Q"
  by simp

lemma runsD: "runs m Q \<Longrightarrow> m = Some x \<Longrightarrow> Q x"
  by simp

lemma runsE:
  assumes "runs m Q" obtains x where "m = Some x" "Q x"
  using assms by (auto simp: runs_iff)

lemma runs_mono: "runs m P \<Longrightarrow> (\<And>x. P x \<Longrightarrow> Q x) \<Longrightarrow> runs m Q"
  by (auto simp: runs_iff)

lemma runs_if [runs_simps]:
  "runs (if b then m else n) Q \<longleftrightarrow> (b \<longrightarrow> runs m Q) \<and> (\<not> b \<longrightarrow> runs n Q)"
  by simp

lemma runs_conj: "runs m P \<Longrightarrow> runs m Q \<Longrightarrow> runs m (\<lambda>x. P x \<and> Q x)"
  by (auto simp: runs_iff)

lemma runs_Let [runs_simps]: "runs (let x = e in m x) Q \<longleftrightarrow> (let x = e in runs (m x) Q)"
  by simp

text \<open>Partial correctness, for facts that hold of a result whatever was needed to reach it.\<close>

definition ensures :: "'a option \<Rightarrow> ('a \<Rightarrow> bool) \<Rightarrow> bool" where
  "ensures m Q \<longleftrightarrow> (\<forall>x. m = Some x \<longrightarrow> Q x)"

lemma ensures_simps [simp]: "ensures None Q" "ensures (Some x) Q \<longleftrightarrow> Q x"
  by (simp_all add: ensures_def)

lemma ensures_bind: "ensures (m \<bind> f) Q \<longleftrightarrow> ensures m (\<lambda>x. ensures (f x) Q)"
  by (cases m) auto

lemma ensures_mono: "ensures m P \<Longrightarrow> (\<And>x. P x \<Longrightarrow> Q x) \<Longrightarrow> ensures m Q"
  by (simp add: ensures_def)

lemma ensures_any: "(\<And>x. Q x) \<Longrightarrow> ensures m Q"
  by (simp add: ensures_def)

lemma runs_ensures: "runs m P \<Longrightarrow> ensures m Q \<Longrightarrow> runs m (\<lambda>x. P x \<and> Q x)"
  by (auto simp: runs_iff ensures_def)

lemma ensures_of_runs: "runs m P \<Longrightarrow> ensures m P"
  by (cases m) simp_all

lemma ensures_bindI: "ensures m P \<Longrightarrow> (\<And>x. P x \<Longrightarrow> ensures (f x) Q) \<Longrightarrow> ensures (m \<bind> f) Q"
  by (cases m) auto

lemma ensures_bind_pair:
  "ensures m (\<lambda>(x, y). P x y) \<Longrightarrow> (\<And>x y. P x y \<Longrightarrow> ensures (f x y) Q) \<Longrightarrow> ensures (m \<bind> (\<lambda>(x, y). f x y)) Q"
  by (cases m) auto

lemma ensures_skip:
  "(\<And>x. ensures (f x) Q) \<Longrightarrow> ensures (m \<bind> f) Q"
  "(\<And>x y. ensures (g x y) Q) \<Longrightarrow> ensures (m' \<bind> (\<lambda>(x, y). g x y)) Q"
  "(\<And>x y z. ensures (h x y z) Q) \<Longrightarrow> ensures (m'' \<bind> (\<lambda>(x, y, z). h x y z)) Q"
  "(\<And>x y z. ensures (h x y z) Q) \<Longrightarrow> ensures (case p of (x, y, z) \<Rightarrow> h x y z) Q"
  by (auto simp: ensures_def split: bind_splits prod.splits)

subsection \<open>Arrays and vectors\<close>

text \<open>\<^verbatim>\<open>a[i]\<close> read and \<^verbatim>\<open>a[i] = v\<close>, undefined when the index is out of range.\<close>

definition fetch :: "'a list \<Rightarrow> u32 \<Rightarrow> 'a option" where
  "fetch xs i = (if unat i < length xs then Some (xs ! unat i) else None)"

definition store :: "'a list \<Rightarrow> u32 \<Rightarrow> 'a \<Rightarrow> 'a list option" where
  "store xs i v = (if unat i < length xs then Some (xs[unat i := v]) else None)"

text \<open>The same for a signed \<^verbatim>\<open>int\<close> index.\<close>

definition ifetch :: "'a list \<Rightarrow> int \<Rightarrow> 'a option" where
  "ifetch xs i = (if 0 \<le> i \<and> nat i < length xs then Some (xs ! nat i) else None)"

definition istore :: "'a list \<Rightarrow> int \<Rightarrow> 'a \<Rightarrow> 'a list option" where
  "istore xs i v = (if 0 \<le> i \<and> nat i < length xs then Some (xs[nat i := v]) else None)"

text \<open>An \<^verbatim>\<open>assert\<close>: the run ends when the condition is false.\<close>

definition guard :: "bool \<Rightarrow> unit option" where
  "guard b = (if b then Some () else None)"

lemma runs_fetch [runs_simps]:
  "runs (fetch xs i) Q \<longleftrightarrow> unat i < length xs \<and> Q (xs ! unat i)"
  by (simp add: fetch_def)

lemma runs_store [runs_simps]:
  "runs (store xs i v) Q \<longleftrightarrow> unat i < length xs \<and> Q (xs[unat i := v])"
  by (simp add: store_def)

lemma runs_ifetch [runs_simps]:
  "runs (ifetch xs i) Q \<longleftrightarrow> 0 \<le> i \<and> nat i < length xs \<and> Q (xs ! nat i)"
  by (auto simp: ifetch_def)

lemma runs_istore [runs_simps]:
  "runs (istore xs i v) Q \<longleftrightarrow> 0 \<le> i \<and> nat i < length xs \<and> Q (xs[nat i := v])"
  by (auto simp: istore_def)

lemma runs_guard [runs_simps]: "runs (guard b) Q \<longleftrightarrow> b \<and> Q ()"
  by (simp add: guard_def)

lemma ensures_guard [simp]: "ensures (guard b) Q \<longleftrightarrow> (b \<longrightarrow> Q ())"
  by (auto simp: ensures_def guard_def)

lemma fetch_eq_Some: "fetch xs i = Some x \<longleftrightarrow> unat i < length xs \<and> x = xs ! unat i"
  by (auto simp: fetch_def)

lemma store_eq_Some: "store xs i v = Some ys \<longleftrightarrow> unat i < length xs \<and> ys = xs[unat i := v]"
  by (auto simp: store_def)

lemma fetch_in: "unat i < length xs \<Longrightarrow> fetch xs i = Some (xs ! unat i)"
  by (simp add: fetch_def)

lemma store_in: "unat i < length xs \<Longrightarrow> store xs i v = Some (xs[unat i := v])"
  by (simp add: store_def)

subsection \<open>Shifts and masks\<close>

text \<open>
  \<^verbatim>\<open>x >> n\<close> and \<^verbatim>\<open>x << n\<close> on \<^verbatim>\<open>UInt32\<close>, undefined for \<open>n \<ge> 32\<close>, and \<^verbatim>\<open>x & ((1UL << n) - 1)\<close>, which is
  computed with 64 bits and undefined for \<open>n \<ge> 64\<close>.
\<close>

definition shr32 :: "u32 \<Rightarrow> u32 \<Rightarrow> u32 option" where
  "shr32 x n = (if unat n < 32 then Some (drop_bit (unat n) x) else None)"

definition shl32 :: "u32 \<Rightarrow> u32 \<Rightarrow> u32 option" where
  "shl32 x n = (if unat n < 32 then Some (push_bit (unat n) x) else None)"

definition low_bits :: "u32 \<Rightarrow> u32 \<Rightarrow> u32 option" where
  "low_bits x n = (if unat n < 64 then Some (ucast ((ucast x :: u64) AND (push_bit (unat n) 1 - 1))) else None)"

lemma low_bits_eq: "low_bits x n = (if unat n < 64 then Some (take_bit (unat n) x) else None)"
proof -
  have "(push_bit k 1 - 1 :: u64) = mask k" for k
    by (simp add: mask_eq_exp_minus_1)
  moreover have "ucast ((ucast x :: u64) AND mask k) = take_bit k x" for k
    by (rule bit_word_eqI) (auto simp: bit_and_iff bit_take_bit_iff bit_mask_iff bit_ucast_iff)
  ultimately show ?thesis by (simp add: low_bits_def)
qed

subsection \<open>Loops\<close>

text \<open>
  A loop over a list of iteration values with a body that may fail; the values that the
  variable of \<^verbatim>\<open>for (UInt32 i = a; i < b; i++)\<close> takes are \<open>u32_range a b\<close>.
\<close>

primrec foldM :: "('a \<Rightarrow> 's \<Rightarrow> 's option) \<Rightarrow> 'a list \<Rightarrow> 's \<Rightarrow> 's option" where
  "foldM f [] s = Some s"
| "foldM f (x # xs) s = f x s \<bind> foldM f xs"

definition u32_range :: "u32 \<Rightarrow> u32 \<Rightarrow> u32 list" where
  "u32_range a b = map word_of_nat [unat a..<unat b]"

lemma foldM_append: "foldM f (xs @ ys) s = foldM f xs s \<bind> foldM f ys"
  by (induction xs arbitrary: s) (auto split: bind_splits)

lemma map_unat_u32_range: "map unat (u32_range a b) = [unat a..<unat b]"
proof -
  have "n mod 2 ^ 32 = n" if "n < unat b" for n
    using that unsigned_less[of b, where ?'a=nat] by (intro mod_less) simp
  then show ?thesis
    by (auto simp: u32_range_def unsigned_of_nat take_bit_eq_mod intro!: map_idI)
qed

lemma set_u32_range: "set (u32_range a b) = {w. unat a \<le> unat w \<and> unat w < unat b}"
proof -
  have "unat ` set (u32_range a b) = {unat a..<unat b}"
    using arg_cong[OF map_unat_u32_range, of set] by simp
  then show ?thesis
    by (auto simp: set_eq_iff image_iff) (metis word_unat_eq_iff)+
qed

lemma length_u32_range [simp]: "length (u32_range a b) = unat b - unat a"
  by (simp add: u32_range_def)

text \<open>Total correctness of a loop: the body keeps the invariant.\<close>

lemma foldM_runs:
  assumes "I s" and "\<And>x s. x \<in> set xs \<Longrightarrow> I s \<Longrightarrow> runs (f x s) I"
  shows "runs (foldM f xs s) I"
  using assms
proof (induction xs arbitrary: s)
  case (Cons x xs)
  from Cons.prems have "runs (f x s) I" by simp
  then show ?case
    by (auto simp: runs_bind elim!: runs_mono intro!: Cons.IH Cons.prems(2))
qed simp

text \<open>
  A loop invariant that may talk about the iterations done so far, for loops over
  \<open>[0..<n]\<close> (as \<open>unat\<close> values of the loop variable).
\<close>

lemma foldM_u32_range_runs:
  assumes "I 0 s"
    and "\<And>i s. unat i < unat n \<Longrightarrow> I (unat i) s \<Longrightarrow> runs (f i s) (I (Suc (unat i)))"
  shows "runs (foldM f (u32_range 0 n) s) (I (unat n))"
proof -
  have small: "unat (word_of_nat k :: u32) = k" if "k \<le> unat n" for k
  proof -
    have "k < 2 ^ 32" using that unsigned_less[of n, where ?'a=nat] by simp
    then show ?thesis by (simp add: unsigned_of_nat take_bit_eq_mod)
  qed
  have "runs (foldM f (map word_of_nat [0..<k]) s) (I k)" if "k \<le> unat n" for k
    using that
  proof (induction k)
    case 0
    with assms(1) show ?case by simp
  next
    case (Suc k)
    then have "runs (foldM f (map word_of_nat [0..<k]) s) (I k)" by simp
    moreover have "runs (f (word_of_nat k) s') (I (Suc k))" if "I k s'" for s'
      using assms(2)[of "word_of_nat k" s'] small[of k] Suc.prems that by simp
    ultimately show ?case
      by (auto simp: foldM_append runs_bind elim!: runs_mono)
  qed
  from this[of "unat n"] show ?thesis by (simp add: u32_range_def)
qed

text \<open>A nested loop is a loop over pairs; an invariant may talk about the set of values handled so far.\<close>

lemma foldM_map: "foldM f (map h xs) s = foldM (f \<circ> h) xs s"
  by (induction xs arbitrary: s) (auto split: bind_splits)

lemma foldM_product: "foldM (\<lambda>x. foldM (g x) ys) xs s = foldM (\<lambda>(x, y). g x y) (List.product xs ys) s"
proof (induction xs arbitrary: s)
  case (Cons x xs)
  have "foldM (\<lambda>(x, y). g x y) (map (Pair x) ys) s = foldM (g x) ys s"
    by (simp add: foldM_map comp_def)
  then show ?case by (cases "foldM (g x) ys s") (auto simp: foldM_append Cons.IH)
qed simp

lemma foldM_seen_runs:
  assumes "I {} s" and "\<And>x seen s. x \<in> set xs \<Longrightarrow> I seen s \<Longrightarrow> runs (f x s) (I (insert x seen))"
  shows "runs (foldM f xs s) (I (set xs))"
proof -
  have "runs (foldM f xs s) (I (seen \<union> set xs))" if "I seen s" for seen
    using that assms(2)
  proof (induction xs arbitrary: seen s)
    case (Cons x xs)
    have "runs (f x s) (I (insert x seen))" using Cons.prems by simp
    then show ?case
      using Cons.IH[of "insert x seen"] Cons.prems(2) by (auto simp: runs_bind elim!: runs_mono)
  qed simp
  from this[OF assms(1)] show ?thesis by simp
qed

lemma foldM_upt_runs:
  assumes "I 0 s" and "\<And>i s. i < n \<Longrightarrow> I i s \<Longrightarrow> runs (f i s) (I (Suc i))"
  shows "runs (foldM f [0..<n] s) (I n)"
  using assms(2)
proof (induction n)
  case 0
  show ?case using assms(1) by simp
next
  case (Suc n)
  then have "runs (foldM f [0..<n] s) (I n)" by simp
  then show ?case using Suc.prems[of n] by (auto simp: foldM_append runs_bind elim!: runs_mono)
qed

lemma foldM_ensures:
  assumes "I s" and "\<And>x s. x \<in> set xs \<Longrightarrow> I s \<Longrightarrow> ensures (f x s) I"
  shows "ensures (foldM f xs s) I"
  using assms
proof (induction xs arbitrary: s)
  case (Cons x xs)
  show ?case unfolding foldM.simps ensures_bind
    by (rule ensures_mono[OF Cons.prems(2)[OF list.set_intros(1) Cons.prems(1)]]) (use Cons in auto)
qed simp

subsection \<open>Ordered maps\<close>

text \<open>
  A \<^verbatim>\<open>std::map\<close> is an association list with ascending keys: \<open>omap_put\<close> is
  \<^verbatim>\<open>m[k] = v\<close>, \<open>omap_insert\<close> is \<^verbatim>\<open>m.insert({k, v})\<close> (which keeps an entry that is
  already there), \<open>omap_erase\<close> is \<^verbatim>\<open>m.erase(k)\<close>, lookup is \<^const>\<open>map_of\<close>.
\<close>

type_synonym ('k, 'v) omap = "('k \<times> 'v) list"

fun omap_put :: "'k::linorder \<Rightarrow> 'v \<Rightarrow> ('k, 'v) omap \<Rightarrow> ('k, 'v) omap" where
  "omap_put k v [] = [(k, v)]"
| "omap_put k v ((k', v') # m) =
     (if k < k' then (k, v) # (k', v') # m
      else if k = k' then (k, v) # m
      else (k', v') # omap_put k v m)"

definition omap_insert :: "'k::linorder \<Rightarrow> 'v \<Rightarrow> ('k, 'v) omap \<Rightarrow> ('k, 'v) omap" where
  "omap_insert k v m = (if map_of m k = None then omap_put k v m else m)"

definition omap_erase :: "'k \<Rightarrow> ('k, 'v) omap \<Rightarrow> ('k, 'v) omap" where
  "omap_erase k m = filter (\<lambda>(k', _). k' \<noteq> k) m"

definition omap_wf :: "('k::linorder, 'v) omap \<Rightarrow> bool" where
  "omap_wf m \<longleftrightarrow> sorted_wrt (<) (map fst m)"

lemma map_of_omap_put: "map_of (omap_put k v m) = (map_of m)(k \<mapsto> v)"
  by (induction k v m rule: omap_put.induct) auto

lemma set_omap_put: "fst ` set (omap_put k v m) = insert k (fst ` set m)"
  by (induction k v m rule: omap_put.induct) auto

lemma omap_wf_put: "omap_wf m \<Longrightarrow> omap_wf (omap_put k v m)"
proof (induction k v m rule: omap_put.induct)
  case (2 k v k' v' m)
  have keys: "\<forall>x\<in>set (omap_put k v m). k' < fst x" if "k' < k"
    using that "2.prems" set_omap_put[of k v m] by (fastforce simp: omap_wf_def)
  show ?case
    using 2 keys by (auto simp: omap_wf_def dest: less_trans)
qed (simp add: omap_wf_def)

lemma omap_wf_insert: "omap_wf m \<Longrightarrow> omap_wf (omap_insert k v m)"
  by (simp add: omap_insert_def omap_wf_put)

lemma omap_wf_distinct: "omap_wf m \<Longrightarrow> distinct (map fst m)"
  by (simp add: omap_wf_def strict_sorted_iff)

lemma omap_wf_filter: "omap_wf m \<Longrightarrow> omap_wf (filter P m)"
  by (induction m) (auto simp: omap_wf_def)

lemma map_of_omap_insert:
  "map_of (omap_insert k v m) = (if map_of m k = None then (map_of m)(k \<mapsto> v) else map_of m)"
  by (simp add: omap_insert_def map_of_omap_put)

lemma length_omap_put:
  "length (omap_put k v m) \<le> Suc (length m)"
  by (induction k v m rule: omap_put.induct) auto

lemma length_omap_put_new:
  "map_of m k = None \<Longrightarrow> length (omap_put k v m) = Suc (length m)"
  by (induction k v m rule: omap_put.induct) (auto split: if_splits)

lemma map_of_filter_key:
  "map_of (filter (\<lambda>(k', _). P k') m) k = (if P k then map_of m k else None)"
  by (induction m) auto

subsection \<open>Components driven by a sequence of requests\<close>

text \<open>
  The contract that every stateful component of the simulator is used under: a request
  that its client may send never leaves the defined behaviour and keeps the invariant.
  The client's conclusion is then about every finite sequence of such requests.
\<close>

locale served =
  fixes serve :: "'e \<Rightarrow> 's \<Rightarrow> 's option"
    and allowed :: "'e \<Rightarrow> bool"
    and inv :: "'s \<Rightarrow> bool"
  assumes serve_inv: "inv s \<Longrightarrow> allowed e \<Longrightarrow> runs (serve e s) inv"
begin

lemma serve_all: "inv s \<Longrightarrow> \<forall>e\<in>set es. allowed e \<Longrightarrow> runs (foldM serve es s) inv"
  by (rule foldM_runs) (auto intro: serve_inv)

lemma serve_all_prefix:
  assumes "inv s" "\<forall>e\<in>set (es @ es'). allowed e" "foldM serve (es @ es') s = Some t"
  shows "\<exists>s'. foldM serve es s = Some s' \<and> inv s' \<and> foldM serve es' s' = Some t"
proof -
  have "runs (foldM serve es s) inv"
    using assms by (intro serve_all) auto
  then show ?thesis
    using assms(3) by (auto simp: runs_iff foldM_append)
qed

end

text \<open>
  The same contract with requests the component does not serve in every state: where
  \<^verbatim>\<open>excluded\<close> holds of the request and the state, nothing is promised. A sequence is then
  served up to its first excluded request; when an excluded request does not return, every
  run that returns has met none.
\<close>

locale served_until =
  fixes serve :: "'e \<Rightarrow> 's \<Rightarrow> 's option"
    and allowed :: "'e \<Rightarrow> bool"
    and inv :: "'s \<Rightarrow> bool"
    and excluded :: "'e \<Rightarrow> 's \<Rightarrow> bool"
  assumes serve_inv: "inv s \<Longrightarrow> allowed e \<Longrightarrow> \<not> excluded e s \<Longrightarrow> runs (serve e s) inv"
begin

lemma serve_until:
  assumes "inv s" "\<forall>e\<in>set es. allowed e"
  shows "\<exists>k t. k \<le> length es \<and> foldM serve (take k es) s = Some t \<and> inv t \<and> (k < length es \<longrightarrow> excluded (es ! k) t)"
  using assms
proof (induction es arbitrary: s)
  case (Cons e es)
  show ?case
  proof (cases "excluded e s")
    case True
    then show ?thesis using Cons.prems(1) by (intro exI[of _ 0] exI[of _ s]) simp
  next
    case False
    then obtain s' where s': "serve e s = Some s'" "inv s'" using serve_inv[of s e] Cons.prems by (auto simp: runs_iff)
    then obtain k t where "k \<le> length es" "foldM serve (take k es) s' = Some t" "inv t" "k < length es \<longrightarrow> excluded (es ! k) t"
      using Cons.IH[of s'] Cons.prems(2) by auto
    then show ?thesis using s'(1) by (intro exI[of _ "Suc k"] exI[of _ t]) simp
  qed
qed simp

lemma serve_returned:
  assumes "inv s" "\<forall>e\<in>set es. allowed e" "foldM serve es s = Some t" "\<And>e s. inv s \<Longrightarrow> excluded e s \<Longrightarrow> serve e s = None"
  shows "inv t"
  using assms(1-3)
proof (induction es arbitrary: s)
  case (Cons e es)
  then obtain s' where s': "serve e s = Some s'" "foldM serve es s' = Some t" by (auto split: bind_splits)
  then have "\<not> excluded e s" using assms(4)[OF Cons.prems(1)] by fastforce
  then have "inv s'" using serve_inv[OF Cons.prems(1), of e] Cons.prems(2) s'(1) by simp
  then show ?case using Cons.IH[of s'] Cons.prems(2) s'(2) by simp
qed simp

end

sublocale served \<subseteq> upto: served_until serve allowed inv "\<lambda>_ _. False"
  by unfold_locales (rule serve_inv)

end
