(* ===== verification/DramBank.thy ===== *)
theory DramBank
  imports Sniper_Prelude
begin

section \<open>Bank and vault timing models\<close>

text \<open>
  Model of \<^verbatim>\<open>performance_model/dram_bank.{h,cc}\<close> (\<^verbatim>\<open>BankPerfModel\<close>) and
  \<^verbatim>\<open>performance_model/dram_vault.{h,cc}\<close> (\<^verbatim>\<open>VaultPerfModel\<close>): the row buffer of a bank, the table of
  command-to-command delays, and the controller that turns a read or write into
  precharge, activate and column commands.

  \<^verbatim>\<open>SubsecondTime\<close> belongs to the simulator core. Its type is the parameter \<open>'t\<close> with zero,
  addition, subtraction and an order; \<^verbatim>\<open>SubsecondTime::NS\<close> is the argument \<open>ns\<close>. The error
  lines of the code are collected in \<open>bp_out\<close>.
\<close>

subsection \<open>Data\<close>

datatype access_t = READ | WRITE | TRANS

datatype command = ACT | PRE | PREA | RD | WR | RDA | WRA
  | REF | REFSB | PDE | PDX | SRE | SRX

record 't stat_entry =
  st_tACT :: 't
  st_tPRE :: 't
  st_tRD :: 't
  st_tWR :: 't
  st_reads :: u32
  st_writes :: u32
  st_row_hits :: u32
  st_row_conflicts :: u32
  st_row_misses :: u32
  st_que_len :: u32
  st_hot :: bool

text \<open>
  One record serves \<^verbatim>\<open>BankStatEntry\<close> and \<^verbatim>\<open>VaultStatEntry\<close>; the last four members are the ones that the
  stacked DRAM controller writes. Members that a constructor does not set start at zero here; no
  modelled operation reads them before they are written.
\<close>

definition zero_stats :: "'t::zero stat_entry" where
  "zero_stats = \<lparr>st_tACT = 0, st_tPRE = 0, st_tRD = 0, st_tWR = 0,
     st_reads = 0, st_writes = 0, st_row_hits = 0,
     st_row_conflicts = 0, st_row_misses = 0, st_que_len = 0, st_hot = False\<rparr>"

definition clear_stats :: "'t::zero stat_entry \<Rightarrow> 't stat_entry" where
  "clear_stats st = st\<lparr>st_tACT := 0, st_tPRE := 0, st_tRD := 0, st_tWR := 0,
     st_reads := 0, st_writes := 0, st_row_hits := 0\<rparr>"

record speed_entry =
  sp_freq :: real
  sp_nBL :: int
  sp_nRCDR :: int
  sp_nRCDW :: int
  sp_nRP :: int
  sp_nCWL :: int
  sp_nRAS :: int
  sp_nRC :: int
  sp_nRTP :: int
  sp_nWR :: int
  sp_nRFC :: int

text \<open>The entries of \<^verbatim>\<open>speed_table\<close> that the timing table reads.\<close>

definition speed_table :: speed_entry where
  "speed_table = \<lparr>sp_freq = 500, sp_nBL = 2, sp_nRCDR = 7, sp_nRCDW = 6, sp_nRP = 7,
     sp_nCWL = 4, sp_nRAS = 17, sp_nRC = 24, sp_nRTP = 7, sp_nWR = 8, sp_nRFC = 0\<rparr>"

datatype row_state = Openned | Closed

text \<open>The vectors \<^verbatim>\<open>timing[cmd]\<close> after \<^verbatim>\<open>init_timing\<close>, in the order of the \<^verbatim>\<open>push_back\<close> calls.\<close>

fun init_timing :: "speed_entry \<Rightarrow> command \<Rightarrow> (command \<times> int) list" where
  "init_timing s ACT = [(RD, sp_nRCDR s), (RDA, sp_nRCDR s), (WR, sp_nRCDW s), (WRA, sp_nRCDW s),
     (ACT, sp_nRC s), (PRE, sp_nRAS s)]"
| "init_timing s RD = [(PRE, sp_nRTP s)]"
| "init_timing s WR = [(PRE, sp_nCWL s + sp_nBL s + sp_nWR s)]"
| "init_timing s RDA = [(ACT, sp_nRTP s + sp_nRP s)]"
| "init_timing s WRA = [(ACT, sp_nCWL s + sp_nBL s + sp_nWR s + sp_nRP s)]"
| "init_timing s PRE = [(ACT, sp_nRP s), (REFSB, sp_nRP s)]"
| "init_timing s REFSB = [(REFSB, sp_nRFC s), (ACT, sp_nRFC s)]"
| "init_timing s _ = []"

record 't bank_perf =
  bp_n_rows :: u32
  bp_cur_open_row :: u32
  bp_cur_cmd :: command
  bp_cur_time :: 't
  bp_tot_time :: 't
  bp_row_state :: "row_state list"
  bp_stats :: "'t stat_entry"
  bp_out :: "string list"

subsection \<open>Operations of a bank\<close>

definition BankPerfModel :: "u32 \<Rightarrow> u32 \<Rightarrow> 't::zero bank_perf option" where
  "BankPerfModel bank_size row_size = do {
     guard (row_size \<noteq> 0);
     let n_rows = bank_size div row_size;
     Some \<lparr>bp_n_rows = n_rows, bp_cur_open_row = -1, bp_cur_cmd = PRE,
           bp_cur_time = 0, bp_tot_time = 0,
           bp_row_state = replicate (unat n_rows) Closed, bp_stats = zero_stats, bp_out = []\<rparr>
   }"

definition getRowState :: "'t bank_perf \<Rightarrow> u32 \<Rightarrow> row_state option" where
  "getRowState b row_i = fetch (bp_row_state b) row_i"

text \<open>
  \<^verbatim>\<open>getTransitionLatency\<close> returns the latency and whether the transition is in the table; the
  error text is printed by the caller's bank when it is not.
\<close>

definition getTransitionLatency :: "(u64 \<Rightarrow> 't::zero) \<Rightarrow> command \<Rightarrow> command \<Rightarrow> 't \<times> bool" where
  "getTransitionLatency ns p_cmd a_cmd =
     (case find (\<lambda>(c, v). c = a_cmd) (init_timing speed_table p_cmd) of
        Some (c, v) \<Rightarrow> (ns (word_of_int \<lfloor>real_of_int (v * 1000) / sp_freq speed_table\<rfloor>), True)
      | None \<Rightarrow> (0, False))"

definition say_illegal :: "bool \<Rightarrow> 't bank_perf \<Rightarrow> 't bank_perf" where
  "say_illegal legal b =
     (if legal then b
      else b\<lparr>bp_out := bp_out b @ [''__ERROR__BANK_process_cmd: illegal transition'']\<rparr>)"

definition processCommand ::
  "(u64 \<Rightarrow> 't::{comm_monoid_add, minus}) \<Rightarrow> command \<Rightarrow> u32 \<Rightarrow> 't \<Rightarrow> 't bank_perf \<Rightarrow> ('t \<times> 't bank_perf) option" where
  "processCommand ns cmd row_i cmd_time b = do {
     let row_hit = ((cmd = WR \<or> cmd = RD) \<and> bp_cur_open_row b = row_i);
     let b = (if row_hit \<and> bp_cur_cmd b \<noteq> ACT
              then b\<lparr>bp_stats := (bp_stats b)\<lparr>st_row_hits := st_row_hits (bp_stats b) + 1\<rparr>\<rparr> else b);
     let b = (if bp_cur_time b \<noteq> 0
              then b\<lparr>bp_tot_time := bp_tot_time b + (cmd_time - bp_cur_time b)\<rparr> else b);
     let b = b\<lparr>bp_cur_time := cmd_time\<rparr>;
     let (cmd_latency, legal) =
        (if row_hit then getTransitionLatency ns ACT cmd
         else getTransitionLatency ns (bp_cur_cmd b) cmd);
     let b = say_illegal legal b;
     let st = bp_stats b;
     b \<leftarrow> (case cmd of
         ACT \<Rightarrow> do {
           rows \<leftarrow> store (bp_row_state b) row_i Openned;
           Some (b\<lparr>bp_stats := st\<lparr>st_tACT := st_tACT st + cmd_latency\<rparr>,
                   bp_row_state := rows, bp_cur_open_row := row_i\<rparr>) }
       | PRE \<Rightarrow> do {
           rows \<leftarrow> store (bp_row_state b) row_i Closed;
           Some (b\<lparr>bp_stats := st\<lparr>st_tPRE := st_tPRE st + cmd_latency\<rparr>,
                   bp_row_state := rows, bp_cur_open_row := -1\<rparr>) }
       | RD \<Rightarrow> Some (b\<lparr>bp_stats := st\<lparr>st_tRD := st_tRD st + cmd_latency, st_reads := st_reads st + 1\<rparr>\<rparr>)
       | WR \<Rightarrow> Some (b\<lparr>bp_stats := st\<lparr>st_tWR := st_tWR st + cmd_latency, st_writes := st_writes st + 1\<rparr>\<rparr>)
       | _ \<Rightarrow> Some b);
     Some (cmd_latency, b\<lparr>bp_cur_cmd := cmd\<rparr>)
   }"

definition isOpenned :: "u32 \<Rightarrow> 't bank_perf \<Rightarrow> (bool \<times> 't bank_perf) option" where
  "isOpenned row_i b = do {
     let b = (if bp_n_rows b \<le> row_i
              then b\<lparr>bp_out := bp_out b @ [''__ERROR_isOpenning__: Access row number illegal'']\<rparr> else b);
     s \<leftarrow> fetch (bp_row_state b) row_i;
     Some (s = Openned, b)
   }"

text \<open>
  \<^verbatim>\<open>getOpennedRow\<close> scans \<^verbatim>\<open>(int)n_rows\<close> entries for the first open one; its result \<^verbatim>\<open>-1\<close> (no open
  row) is \<open>None\<close>.
\<close>

definition getOpennedRow :: "'t bank_perf \<Rightarrow> nat option" where
  "getOpennedRow b = find (\<lambda>i. bp_row_state b ! i = Openned) [0..<nat (sint (bp_n_rows b))]"

subsection \<open>Operations of a vault\<close>

record 't vault_perf =
  vp_n_banks :: u32
  vp_auto_ref :: bool
  vp_banks :: "'t bank_perf list"
  vp_stats :: "'t stat_entry"

definition VaultPerfModel :: "u32 \<Rightarrow> u32 \<Rightarrow> u32 \<Rightarrow> 't::zero vault_perf option" where
  "VaultPerfModel m_size bank_size row_size = do {
     guard (bank_size \<noteq> 0);
     let n_banks = m_size div bank_size;
     banks \<leftarrow> foldM (\<lambda>_ bs. do { b \<leftarrow> BankPerfModel bank_size row_size; Some (bs @ [b]) })
               (u32_range 0 n_banks) [];
     Some \<lparr>vp_n_banks = n_banks, vp_auto_ref = False, vp_banks = banks, vp_stats = zero_stats\<rparr>
   }"

text \<open>
  The three command sequences of \<^verbatim>\<open>processRequest\<close> before the column command: activate, nothing,
  or precharge and activate; the result carries \<^verbatim>\<open>openned_row\<close> and \<^verbatim>\<open>process_latency\<close>.
\<close>

definition open_row :: "(u64 \<Rightarrow> 't::{comm_monoid_add, minus}) \<Rightarrow> bool \<Rightarrow> 't \<Rightarrow> u32 \<Rightarrow> 't bank_perf \<Rightarrow>
    (nat option \<times> 't \<times> 't bank_perf) option" where
  "open_row ns auto_ref cur_time row_i bank =
     (case getOpennedRow bank of
        None \<Rightarrow> do {
          (l, bank) \<leftarrow> processCommand ns ACT row_i cur_time bank;
          Some (getOpennedRow bank, 0 + l, bank) }
      | Some r \<Rightarrow>
          if word_of_nat r = row_i then Some (Some r, 0, bank)
          else do {
            (lat, bank) \<leftarrow> (if \<not> auto_ref then do {
                              (l, bank) \<leftarrow> processCommand ns PRE (word_of_nat r) cur_time bank;
                              Some (0 + l, bank) }
                            else Some (0, bank));
            (l, bank) \<leftarrow> processCommand ns ACT row_i (cur_time + lat) bank;
            Some (Some r, lat + l, bank) })"

definition processRequest :: "(u64 \<Rightarrow> 't::{comm_monoid_add, minus}) \<Rightarrow> 't \<Rightarrow> access_t \<Rightarrow> u32 \<Rightarrow> u32 \<Rightarrow>
    't vault_perf \<Rightarrow> ('t \<times> 't vault_perf) option" where
  "processRequest ns cur_time access_type bank_i row_i v = do {
     bank \<leftarrow> fetch (vp_banks v) bank_i;
     (openned_row, lat, bank) \<leftarrow> open_row ns (vp_auto_ref v) cur_time row_i bank;
     let cmd = (if access_type = WRITE then WR else RD);
     (l, bank) \<leftarrow> processCommand ns cmd row_i (cur_time + lat) bank;
     let lat = lat + l;
     (lat, bank) \<leftarrow> (if vp_auto_ref v then do {
          (l, bank) \<leftarrow> processCommand ns PRE
              (case openned_row of None \<Rightarrow> -1 | Some r \<Rightarrow> word_of_nat r) cur_time bank;
          Some (lat + l, bank) }
        else Some (lat, bank));
     banks \<leftarrow> store (vp_banks v) bank_i bank;
     Some (lat, v\<lparr>vp_banks := banks\<rparr>)
   }"

subsection \<open>The row buffer invariant\<close>

text \<open>
  At most the current row is open, and the last command fits the row buffer: a bank with an
  open row was last activated, read or written, a bank without one was last precharged.
\<close>

definition bank_ok :: "'t bank_perf \<Rightarrow> bool" where
  "bank_ok b \<longleftrightarrow> length (bp_row_state b) = unat (bp_n_rows b) \<and> unat (bp_n_rows b) < 2 ^ 31 \<and>
     bp_out b = [] \<and>
     (\<forall>i<unat (bp_n_rows b). bp_row_state b ! i = Openned \<longleftrightarrow> i = unat (bp_cur_open_row b)) \<and>
     (bp_cur_open_row b = -1 \<and> bp_cur_cmd b = PRE \<or>
      unat (bp_cur_open_row b) < unat (bp_n_rows b) \<and> bp_cur_cmd b \<in> {ACT, RD, WR})"

lemma minus_one_u32: "unat (-1 :: u32) = 4294967295"
  by (simp add: unsigned_minus_1_eq_mask mask_eq_exp_minus_1)

lemma find_upt:
  "find P [0..<n] = (if \<exists>i<n. P i then Some (LEAST i. P i) else None)"
proof (cases "\<exists>i<n. P i")
  case True
  define k where "k = (LEAST i. P i)"
  have k: "P k" "k < n" "\<And>j. j < k \<Longrightarrow> \<not> P j"
    using True unfolding k_def by (auto intro: LeastI le_less_trans[OF Least_le] dest: not_less_Least)
  then have "find P [0..<n] = Some k"
    by (subst find_Some_iff) (rule exI[of _ k], simp)
  then show ?thesis using True by (simp add: k_def)
next
  case False
  then show ?thesis by (auto simp: find_None_iff)
qed

lemma getOpennedRow_eq:
  assumes "bank_ok b"
  shows "getOpennedRow b = (if bp_cur_open_row b = -1 then None else Some (unat (bp_cur_open_row b)))"
proof -
  have n: "nat (sint (bp_n_rows b)) = unat (bp_n_rows b)"
    using assms by (simp add: bank_ok_def sint_uint signed_take_bit_int_eq_self uint_nat del: of_nat_unat)
  show ?thesis
  proof (cases "bp_cur_open_row b = -1")
    case True
    then have "\<not> unat (bp_cur_open_row b) < unat (bp_n_rows b)"
      using assms by (simp add: bank_ok_def minus_one_u32)
    then show ?thesis
      using assms True n by (auto simp: getOpennedRow_def find_None_iff bank_ok_def)
  next
    case False
    then have lt: "unat (bp_cur_open_row b) < unat (bp_n_rows b)" using assms by (auto simp: bank_ok_def)
    have "(LEAST i. i < unat (bp_n_rows b) \<and> bp_row_state b ! i = Openned) = unat (bp_cur_open_row b)"
      using assms lt by (intro Least_equality) (auto simp: bank_ok_def)
    moreover have "find (\<lambda>i. bp_row_state b ! i = Openned) [0..<unat (bp_n_rows b)] =
      find (\<lambda>i. i < unat (bp_n_rows b) \<and> bp_row_state b ! i = Openned) [0..<unat (bp_n_rows b)]"
      by (intro find_cong) auto
    ultimately show ?thesis
      using assms lt n False by (auto simp: getOpennedRow_def find_upt bank_ok_def)
  qed
qed

subsection \<open>Commands and requests\<close>

text \<open>The delays of the legal transitions, in nanoseconds.\<close>

fun cmd_ns :: "command \<Rightarrow> command \<Rightarrow> u64" where
  "cmd_ns ACT RD = 14"
| "cmd_ns ACT WR = 12"
| "cmd_ns ACT PRE = 34"
| "cmd_ns RD PRE = 14"
| "cmd_ns WR PRE = 28"
| "cmd_ns PRE ACT = 14"
| "cmd_ns _ _ = 0"

lemma transition_ns:
  "getTransitionLatency ns ACT RD = (ns (cmd_ns ACT RD), True)"
  "getTransitionLatency ns ACT WR = (ns (cmd_ns ACT WR), True)"
  "getTransitionLatency ns ACT PRE = (ns (cmd_ns ACT PRE), True)"
  "getTransitionLatency ns RD PRE = (ns (cmd_ns RD PRE), True)"
  "getTransitionLatency ns WR PRE = (ns (cmd_ns WR PRE), True)"
  "getTransitionLatency ns PRE ACT = (ns (cmd_ns PRE ACT), True)"
  by (simp_all add: getTransitionLatency_def speed_table_def)

lemma activate_runs:
  assumes "bank_ok b" "bp_cur_cmd b = PRE" "bp_cur_open_row b = -1" "unat r < unat (bp_n_rows b)"
  shows "runs (processCommand ns ACT r t b) (\<lambda>(l, b'). l = ns 14 \<and> bank_ok b' \<and>
     bp_cur_cmd b' = ACT \<and> bp_cur_open_row b' = r \<and> bp_n_rows b' = bp_n_rows b)"
  using assms
  by (auto simp: processCommand_def transition_ns say_illegal_def runs_simps Let_def bank_ok_def
      nth_list_update minus_one_u32)

lemma precharge_runs:
  assumes "bank_ok b" "bp_cur_open_row b \<noteq> -1"
  shows "runs (processCommand ns PRE (bp_cur_open_row b) t b) (\<lambda>(l, b').
     l = ns (cmd_ns (bp_cur_cmd b) PRE) \<and> bank_ok b' \<and>
     bp_cur_cmd b' = PRE \<and> bp_cur_open_row b' = -1 \<and> bp_n_rows b' = bp_n_rows b)"
proof -
  have "bp_cur_cmd b = ACT \<or> bp_cur_cmd b = RD \<or> bp_cur_cmd b = WR"
    using assms by (auto simp: bank_ok_def)
  then show ?thesis
    using assms
    by (elim disjE) (auto simp: processCommand_def transition_ns say_illegal_def runs_simps Let_def bank_ok_def
      nth_list_update minus_one_u32)
qed

lemma column_runs:
  assumes "bank_ok b" "bp_cur_open_row b = r" "r \<noteq> -1" "cmd = RD \<or> cmd = WR"
  shows "runs (processCommand ns cmd r t b) (\<lambda>(l, b'). l = ns (cmd_ns ACT cmd) \<and> bank_ok b' \<and>
     bp_cur_cmd b' = cmd \<and> bp_cur_open_row b' = r \<and> bp_n_rows b' = bp_n_rows b)"
  using assms(4,1-3)
  by (elim disjE) (auto simp: processCommand_def transition_ns say_illegal_def runs_simps Let_def bank_ok_def)

text \<open>The latency that the timing table gives a request: row hit, empty row buffer, row conflict.\<close>

definition row_ns :: "(u64 \<Rightarrow> 't::comm_monoid_add) \<Rightarrow> 't bank_perf \<Rightarrow> u32 \<Rightarrow> 't" where
  "row_ns ns b row_i =
     (if bp_cur_open_row b = row_i then 0
      else if bp_cur_open_row b = -1 then ns 14
      else ns (cmd_ns (bp_cur_cmd b) PRE) + ns 14)"

definition request_ns :: "(u64 \<Rightarrow> 't::comm_monoid_add) \<Rightarrow> 't bank_perf \<Rightarrow> access_t \<Rightarrow> u32 \<Rightarrow> 't" where
  "request_ns ns b a row_i = row_ns ns b row_i + ns (case a of WRITE \<Rightarrow> 12 | _ \<Rightarrow> 14)"

lemma row_not_minus_one:
  fixes r :: u32
  assumes "bank_ok b" "unat r < unat (bp_n_rows b)"
  shows "r \<noteq> -1"
proof
  assume "r = -1"
  then have "unat r = 4294967295" by (simp only: minus_one_u32)
  then show False using assms by (simp add: bank_ok_def)
qed

lemma open_row_runs:
  assumes ok: "bank_ok b" and r: "unat r < unat (bp_n_rows b)"
  shows "runs (open_row ns False t r b) (\<lambda>(_, l, b'). l = row_ns ns b r \<and> bank_ok b' \<and>
     bp_cur_open_row b' = r \<and> bp_n_rows b' = bp_n_rows b)"
proof -
  note rn = row_not_minus_one[OF ok r]
  consider (hit) "bp_cur_open_row b = r" | (empty) "bp_cur_open_row b = -1"
    | (conflict) "bp_cur_open_row b \<noteq> -1" "bp_cur_open_row b \<noteq> r" by blast
  then show ?thesis
  proof cases
    case hit
    then show ?thesis
      using rn ok by (simp add: open_row_def getOpennedRow_eq[OF ok] row_ns_def)
  next
    case empty
    then have "bp_cur_cmd b = PRE" using ok by (auto simp: bank_ok_def minus_one_u32)
    then show ?thesis
      using activate_runs[OF ok _ empty r, of ns t] rn empty
      by (auto simp: open_row_def getOpennedRow_eq[OF ok] runs_bind row_ns_def elim!: runs_mono)
  next
    case conflict
    have act: "runs (processCommand ns ACT r t' b1) (\<lambda>(l, b'). l = ns 14 \<and> bank_ok b' \<and>
       bp_cur_open_row b' = r \<and> bp_n_rows b' = bp_n_rows b)"
      if "bank_ok b1 \<and> bp_cur_cmd b1 = PRE \<and> bp_cur_open_row b1 = -1 \<and> bp_n_rows b1 = bp_n_rows b" for b1 t'
      by (rule runs_mono[OF activate_runs[of b1 r ns t']]) (use that r in auto)
    show ?thesis
      using conflict
      by (auto simp: open_row_def getOpennedRow_eq[OF ok] runs_bind row_ns_def
          intro!: runs_mono[OF precharge_runs[OF ok conflict(1), of ns t]] runs_mono[OF act])
  qed
qed

definition vault_ok :: "'t vault_perf \<Rightarrow> bool" where
  "vault_ok v \<longleftrightarrow> \<not> vp_auto_ref v \<and> (\<forall>b\<in>set (vp_banks v). bank_ok b)"

lemma processRequest_runs:
  assumes ok: "vault_ok v" and i: "unat i < length (vp_banks v)"
    and r: "unat r < unat (bp_n_rows (vp_banks v ! unat i))"
  shows "runs (processRequest ns t a i r v) (\<lambda>(lat, v').
     lat = request_ns ns (vp_banks v ! unat i) a r \<and> vault_ok v' \<and>
     (\<exists>b'. v' = v\<lparr>vp_banks := (vp_banks v)[unat i := b']\<rparr> \<and> bp_cur_open_row b' = r \<and>
        bp_n_rows b' = bp_n_rows (vp_banks v ! unat i)))"
proof -
  let ?b = "vp_banks v ! unat i" and ?cmd = "if a = WRITE then WR else RD"
  have b: "bank_ok ?b" using ok i by (simp add: vault_ok_def)
  have col: "runs (processCommand ns ?cmd r t' b1) (\<lambda>(l, b'). l = ns (case a of WRITE \<Rightarrow> 12 | _ \<Rightarrow> 14) \<and>
      bank_ok b' \<and> bp_cur_open_row b' = r \<and> bp_n_rows b' = bp_n_rows ?b)"
    if "bank_ok b1 \<and> bp_cur_open_row b1 = r \<and> bp_n_rows b1 = bp_n_rows ?b" for b1 t'
    by (rule runs_mono[OF column_runs[of b1 r ?cmd ns t']])
       (use that row_not_minus_one[OF b r] in \<open>auto split: access_t.splits\<close>)
  have upd: "vault_ok (v\<lparr>vp_banks := (vp_banks v)[unat i := b']\<rparr>)" if "bank_ok b'" for b'
    using ok that set_update_subset_insert[of "vp_banks v" "unat i" b'] by (auto simp: vault_ok_def)
  have rest: "runs (do { (l, bank) \<leftarrow> processCommand ns ?cmd r (t + lat) b1;
       banks \<leftarrow> store (vp_banks v) i bank; Some (lat + l, v\<lparr>vp_banks := banks\<rparr>) }) (\<lambda>(lat, v').
     lat = request_ns ns ?b a r \<and> vault_ok v' \<and>
     (\<exists>b'. v' = v\<lparr>vp_banks := (vp_banks v)[unat i := b']\<rparr> \<and> bp_cur_open_row b' = r \<and>
        bp_n_rows b' = bp_n_rows ?b))"
    if "lat = row_ns ns ?b r \<and> bank_ok b1 \<and> bp_cur_open_row b1 = r \<and> bp_n_rows b1 = bp_n_rows ?b" for lat b1
    unfolding runs_bind
    by (rule runs_mono[OF col]) (use that i upd in \<open>auto simp: runs_simps request_ns_def\<close>)
  have "\<not> vp_auto_ref v" using ok by (simp add: vault_ok_def)
  then have "processRequest ns t a i r v = open_row ns False t r ?b \<bind> (\<lambda>(_, lat, b1).
       do { (l, bank) \<leftarrow> processCommand ns ?cmd r (t + lat) b1;
       banks \<leftarrow> store (vp_banks v) i bank; Some (lat + l, v\<lparr>vp_banks := banks\<rparr>) })"
    using i by (simp add: processRequest_def fetch_in Let_def case_prod_beta)
  then show ?thesis
    using rest by (auto simp: runs_bind[of "open_row _ _ _ _ _"] simp del: if_split intro!: runs_mono[OF open_row_runs[OF b r, of ns t]])
qed

lemma BankPerfModel_ok:
  assumes "row_size \<noteq> 0" "unat (bank_size div row_size) < 2 ^ 31"
  shows "runs (BankPerfModel bank_size row_size) (\<lambda>b. bank_ok b \<and> bp_n_rows b = bank_size div row_size)"
  using assms by (auto simp: BankPerfModel_def runs_simps Let_def bank_ok_def minus_one_u32)

lemma VaultPerfModel_ok:
  assumes "row_size \<noteq> 0" "bank_size \<noteq> 0" "unat (bank_size div row_size) < 2 ^ 31"
  shows "runs (VaultPerfModel m_size bank_size row_size) (\<lambda>v :: 't::zero vault_perf. vault_ok v \<and>
     length (vp_banks v) = unat (m_size div bank_size) \<and>
     (\<forall>b\<in>set (vp_banks v). bp_n_rows b = bank_size div row_size))"
proof -
  let ?I = "\<lambda>k (bs :: 't bank_perf list). length bs = k \<and> (\<forall>b\<in>set bs. bank_ok b \<and> bp_n_rows b = bank_size div row_size)"
  have "runs (foldM (\<lambda>_ bs. do { b \<leftarrow> BankPerfModel bank_size row_size; Some (bs @ [b]) })
      (u32_range 0 (m_size div bank_size)) []) (?I (unat (m_size div bank_size)))"
  proof (rule foldM_u32_range_runs)
    fix i :: u32 and bs :: "'t bank_perf list" assume "?I (unat i) bs"
    then show "runs (do { b \<leftarrow> BankPerfModel bank_size row_size; Some (bs @ [b]) }) (?I (Suc (unat i)))"
      using BankPerfModel_ok[OF assms(1,3)] by (auto simp: runs_bind elim!: runs_mono)
  qed simp
  then show ?thesis
    using assms by (auto simp: VaultPerfModel_def runs_simps Let_def vault_ok_def elim!: runs_mono)
qed

subsection \<open>Sequences of requests\<close>

type_synonym 't vault_request = "'t \<times> access_t \<times> u32 \<times> u32"

fun vault_step :: "(u64 \<Rightarrow> 't::{comm_monoid_add, minus}) \<Rightarrow> 't vault_request \<Rightarrow> 't vault_perf \<Rightarrow> 't vault_perf option" where
  "vault_step ns (t, a, i, r) v = do { (lat, v) \<leftarrow> processRequest ns t a i r v; Some v }"

fun vault_request_ok :: "u32 \<Rightarrow> u32 \<Rightarrow> 't vault_request \<Rightarrow> bool" where
  "vault_request_ok nb nr (t, a, i, r) \<longleftrightarrow> i < nb \<and> r < nr"

definition vault_inv :: "u32 \<Rightarrow> u32 \<Rightarrow> 't vault_perf \<Rightarrow> bool" where
  "vault_inv nb nr v \<longleftrightarrow> vault_ok v \<and> length (vp_banks v) = unat nb \<and>
     (\<forall>b\<in>set (vp_banks v). bp_n_rows b = nr)"

lemma vault_inv_request:
  assumes "vault_inv nb nr v" "i < nb" "r < nr"
  shows "runs (processRequest ns t a i r v) (\<lambda>(lat, v').
     lat = request_ns ns (vp_banks v ! unat i) a r \<and> vault_inv nb nr v' \<and>
     bp_cur_open_row (vp_banks v' ! unat i) = r \<and>
     (\<forall>j. j \<noteq> unat i \<longrightarrow> vp_banks v' ! j = vp_banks v ! j))"
proof -
  have i: "unat i < length (vp_banks v)" and n: "bp_n_rows (vp_banks v ! unat i) = nr"
    using assms by (auto simp: vault_inv_def word_less_nat_alt)
  have ok: "vault_ok v" and len: "length (vp_banks v) = unat nb"
    using assms(1) by (simp_all add: vault_inv_def)
  have r: "unat r < unat (bp_n_rows (vp_banks v ! unat i))"
    using assms(3) by (simp add: n word_less_nat_alt)
  show ?thesis
  proof (rule runs_mono[OF processRequest_runs[OF ok i r, of ns t a]], clarify)
    fix b' assume b': "vault_ok (v\<lparr>vp_banks := (vp_banks v)[unat i := b']\<rparr>)"
      "bp_n_rows b' = bp_n_rows (vp_banks v ! unat i)"
    have "\<forall>b\<in>set ((vp_banks v)[unat i := b']). bp_n_rows b = nr"
      using assms(1) b'(2) n set_update_subset_insert[of "vp_banks v" "unat i" b']
      by (auto simp: vault_inv_def)
    then show "request_ns ns (vp_banks v ! unat i) a (bp_cur_open_row b') = request_ns ns (vp_banks v ! unat i) a (bp_cur_open_row b') \<and>
      vault_inv nb nr (v\<lparr>vp_banks := (vp_banks v)[unat i := b']\<rparr>) \<and>
      bp_cur_open_row (vp_banks (v\<lparr>vp_banks := (vp_banks v)[unat i := b']\<rparr>) ! unat i) = bp_cur_open_row b' \<and>
      (\<forall>j. j \<noteq> unat i \<longrightarrow> vp_banks (v\<lparr>vp_banks := (vp_banks v)[unat i := b']\<rparr>) ! j = vp_banks v ! j)"
      using b'(1) i len by (simp add: vault_inv_def)
  qed
qed

interpretation vlt: served "vault_step ns" "vault_request_ok nb nr" "vault_inv nb nr" for ns nb nr
proof
  fix v :: "'a vault_perf" and e :: "'a vault_request"
  assume v: "vault_inv nb nr v" and e: "vault_request_ok nb nr e"
  obtain t a i r where e': "e = (t, a, i, r)" by (cases e)
  then show "runs (vault_step ns e v) (vault_inv nb nr)"
    using e by (auto simp: runs_bind intro!: runs_mono[OF vault_inv_request[OF v]])
qed

text \<open>C33: Latency of a vault request. In a well-formed vault a request for a row in range returns with
  the latency that the timing table gives its case: the column delay alone on a row hit, activate
  and column delay when no row is open, and on a row conflict also the precharge delay that belongs
  to the last command. Afterwards the requested row is the open one, and the other banks are
  unchanged.\<close>

theorem vault_request_latency:
  assumes "vault_inv nb nr v" and "i < nb" and "r < nr"
  shows "\<exists>v'. processRequest ns t a i r v =
      Some ((if bp_cur_open_row (vp_banks v ! unat i) = r then 0
             else if bp_cur_open_row (vp_banks v ! unat i) = -1 then ns 14
             else ns (case bp_cur_cmd (vp_banks v ! unat i) of ACT \<Rightarrow> 34 | RD \<Rightarrow> 14 | WR \<Rightarrow> 28 | _ \<Rightarrow> 0) + ns 14)
            + ns (case a of WRITE \<Rightarrow> 12 | _ \<Rightarrow> 14), v') \<and>
     vault_inv nb nr v' \<and> bp_cur_open_row (vp_banks v' ! unat i) = r \<and>
     (\<forall>j. j \<noteq> unat i \<longrightarrow> vp_banks v' ! j = vp_banks v ! j)"
proof -
  have "cmd_ns c PRE = (case c of ACT \<Rightarrow> 34 | RD \<Rightarrow> 14 | WR \<Rightarrow> 28 | _ \<Rightarrow> 0)" for c
    by (cases c) simp_all
  then show ?thesis
    using vault_inv_request[OF assms, of ns t a] by (auto simp: runs_iff request_ns_def row_ns_def)
qed

lemma VaultPerfModel_inv:
  assumes "row_size \<noteq> 0" "bank_size \<noteq> 0" "unat (bank_size div row_size) < 2 ^ 31"
  shows "runs (VaultPerfModel m_size bank_size row_size)
     (vault_inv (m_size div bank_size) (bank_size div row_size))"
  using VaultPerfModel_ok[OF assms, of m_size] by (auto simp: vault_inv_def elim!: runs_mono)

theorem vault_request_latency_witness:
  "\<exists>v v'. VaultPerfModel 64 16 4 = Some v \<and>
     processRequest (unat :: u64 \<Rightarrow> nat) 5 WRITE 2 3 v = Some (26, v') \<and>
     bp_cur_open_row (vp_banks v' ! 2) = 3"
proof -
  obtain v :: "nat vault_perf" where v: "VaultPerfModel 64 16 4 = Some v" "vault_inv 4 4 v"
    using VaultPerfModel_inv[of 4 16 64, where ?'a = nat] by (auto simp: runs_iff)
  have "bp_cur_open_row (vp_banks v ! 2) = -1"
    using v(1) by (auto simp: VaultPerfModel_def BankPerfModel_def guard_def u32_range_def upt_rec)
  then show ?thesis
    using vault_request_latency[OF v(2), of 2 3 unat 5 WRITE] v(1) by auto
qed

text \<open>C34: No request sequence drives a bank through an illegal command transition. A vault is built
  with any geometry with fewer than \<open>2^31\<close> rows per bank and serves any sequence of requests in
  range: every request returns, each bank has at most one open row, which is the row recorded as
  open, and no bank has printed an error.\<close>

theorem vault_never_illegal:
  assumes "row_size \<noteq> 0" and "bank_size \<noteq> 0" and "unat (bank_size div row_size) < 2 ^ 31"
    and "\<forall>e\<in>set es. vault_request_ok (m_size div bank_size) (bank_size div row_size) e"
  shows "\<exists>v. VaultPerfModel m_size bank_size row_size \<bind> foldM (vault_step ns) es = Some v \<and>
     (\<forall>b\<in>set (vp_banks v). bp_out b = [] \<and>
        (\<forall>i<unat (bp_n_rows b). bp_row_state b ! i = Openned \<longleftrightarrow> i = unat (bp_cur_open_row b)))"
proof -
  have "runs (VaultPerfModel m_size bank_size row_size \<bind> foldM (vault_step ns) es)
     (vault_inv (m_size div bank_size) (bank_size div row_size))"
    unfolding runs_bind
    by (rule runs_mono[OF VaultPerfModel_inv[OF assms(1-3)]]) (rule vlt.serve_all[OF _ assms(4)])
  then show ?thesis
    by (auto simp: runs_iff vault_inv_def vault_ok_def bank_ok_def)
qed

theorem vault_never_illegal_witness:
  "\<exists>v. VaultPerfModel 64 16 4 \<bind> foldM (vault_step unat) [(0, READ, 0, 1), (9, WRITE, 0, 2), (30, READ, 0, 2)] = Some v \<and>
     (\<forall>b\<in>set (vp_banks v). bp_out (b :: nat bank_perf) = [])"
  using vault_never_illegal[of 4 16 "[(0, READ, 0, 1), (9, WRITE, 0, 2), (30, READ, 0, 2)]" 64 "unat :: u64 \<Rightarrow> nat"]
  by auto

end
