(* ===== verification/Swap_Table.thy ===== *)
theory Swap_Table
  imports Sniper_Prelude
begin

section \<open>Remapping tables that swap their entries\<close>

text \<open>
  The contract that the bank and the vault remapping tables share: an entry points to the
  physical unit it is stored in, and \<^verbatim>\<open>swap\<close> exchanges two units after sending their
  former partners home. The tables are meant to be involutions.
\<close>

text \<open>What the assignments of \<^verbatim>\<open>swap\<close> do to the index function, in the order of the code.\<close>

definition swap_ridx :: "nat \<Rightarrow> nat \<Rightarrow> (nat \<Rightarrow> nat) \<Rightarrow> nat \<Rightarrow> nat" where
  "swap_ridx s d r =
     (let r1 = r(s := d);
          r2 = (if r s \<noteq> s then r1(r s := r s) else r1);
          r3 = (if r d \<noteq> d then r2(r d := r d) else r2)
      in r3(d := s))"

definition invol :: "nat \<Rightarrow> (nat \<Rightarrow> nat) \<Rightarrow> bool" where
  "invol n r \<longleftrightarrow> (\<forall>i<n. r i < n \<and> r (r i) = i)"

lemma invol_inj: "invol n r \<Longrightarrow> i < n \<Longrightarrow> j < n \<Longrightarrow> r i = r j \<Longrightarrow> i = j"
  by (metis invol_def)

text \<open>The effect in closed form, unless the two units are already exchanged.\<close>

lemma swap_ridx_eq:
  assumes "invol n r" "s < n" "d < n" and fresh: "r s = d \<Longrightarrow> s = d"
  shows "swap_ridx s d r i =
    (if i = d then s else if i = s then d else if i = r s \<or> i = r d then i else r i)"
proof -
  have sd: "r (r s) = s" "r (r d) = d"
    using assms(1-3) by (auto simp: invol_def)
  have "r d = s \<Longrightarrow> s = d" using sd fresh by metis
  then show ?thesis by (auto simp: swap_ridx_def Let_def)
qed

lemma swap_ridx_invol:
  assumes inv: "invol n r" and sd: "s < n" "d < n" and fresh: "r s = d \<Longrightarrow> s = d"
  shows "invol n (swap_ridx s d r)"
  unfolding invol_def
proof (intro allI impI)
  fix i assume i: "i < n"
  note eq = swap_ridx_eq[OF inv sd fresh]
  have r: "r i < n" "r (r i) = i" "r (r s) = s" "r (r d) = d"
    using inv i sd by (auto simp: invol_def)
  consider "i = d" | "i = s" | "i = r s \<or> i = r d" "i \<noteq> s" "i \<noteq> d"
    | "i \<notin> {s, d, r s, r d}" "r i \<notin> {s, d, r s, r d}"
    using r by (metis empty_iff insert_iff)
  then show "swap_ridx s d r i < n \<and> swap_ridx s d r (swap_ridx s d r i) = i"
    by cases (auto simp: eq sd i r)
qed

lemma swap_ridx_exchanges:
  assumes "invol n r" "s < n" "d < n" "r s = d \<Longrightarrow> s = d"
  shows "swap_ridx s d r s = d" "swap_ridx s d r d = s"
  by (simp_all add: swap_ridx_eq[OF assms])

text \<open>Swapping two units that are already exchanged leaves both entries on the first unit.\<close>

lemma swap_ridx_partner:
  assumes "r s = d" "r d = s" "s \<noteq> d"
  shows "swap_ridx s d r s = s" "swap_ridx s d r d = s"
  using assms by (auto simp: swap_ridx_def Let_def)

text \<open>
  A table whose entries can be redirected one at a time, and the four redirections that
  \<^verbatim>\<open>swap\<close> performs: \<open>so\<close> and \<open>od\<close> say whether the two entries were at home.
\<close>

locale entry_table =
  fixes remap :: "u32 \<Rightarrow> u32 \<Rightarrow> 's \<Rightarrow> 's option"
    and ridx :: "'s \<Rightarrow> nat \<Rightarrow> nat"
    and cap :: "'s \<Rightarrow> nat"
    and wf :: "'s \<Rightarrow> bool"
  assumes remap_law: "wf s \<Longrightarrow> unat i < cap s \<Longrightarrow>
    runs (remap i j s) (\<lambda>s'. wf s' \<and> cap s' = cap s \<and> ridx s' = (ridx s)(unat i := unat j))"
begin

definition like :: "'s \<Rightarrow> (nat \<Rightarrow> nat) \<Rightarrow> 's \<Rightarrow> bool" where
  "like s r s' \<longleftrightarrow> wf s' \<and> cap s' = cap s \<and> ridx s' = r"

lemma remap_like:
  "like s r s1 \<Longrightarrow> unat i < cap s \<Longrightarrow> runs (remap i j s1) (like s (r(unat i := unat j)))"
  using remap_law[of s1 i j] by (auto simp: like_def elim!: runs_mono)

lemma four_remaps:
  assumes inv: "invol (cap s) (ridx s)" and s0: "like s (ridx s) s0"
    and src: "unat src < cap s" and des: "unat des < cap s"
    and so: "so \<longleftrightarrow> ridx s (unat src) = unat src" and od: "od \<longleftrightarrow> ridx s (unat des) = unat des"
    and sd: "unat sd = ridx s (unat src)" and dd: "unat dd = ridx s (unat des)"
  shows "runs (do {
       s1 \<leftarrow> remap src des s0;
       s1 \<leftarrow> (if \<not> so then remap sd sd s1 else Some s1);
       s1 \<leftarrow> (if \<not> od then remap dd dd s1 else Some s1);
       remap des src s1 })
     (like s (swap_ridx (unat src) (unat des) (ridx s)))"
proof -
  let ?r = "ridx s"
  have lt: "unat sd < cap s" "unat dd < cap s"
    using sd dd inv src des by (auto simp: invol_def)
  let ?r1 = "?r(unat src := unat des)"
  let ?r2 = "if ?r (unat src) \<noteq> unat src then ?r1(?r (unat src) := ?r (unat src)) else ?r1"
  let ?r3 = "if ?r (unat des) \<noteq> unat des then ?r2(?r (unat des) := ?r (unat des)) else ?r2"
  have 2: "runs (if \<not> so then remap sd sd s1 else Some s1) (like s ?r2)" if "like s ?r1 s1" for s1
    using remap_like[OF that lt(1), of sd] that so sd by simp
  have 3: "runs (if \<not> od then remap dd dd s1 else Some s1) (like s ?r3)" if "like s ?r2 s1" for s1
    using remap_like[OF that lt(2), of dd] that od dd by simp
  have 4: "runs (remap des src s1) (like s (swap_ridx (unat src) (unat des) ?r))" if "like s ?r3 s1" for s1
    using remap_like[OF that des, of src] by (simp add: swap_ridx_def Let_def)
  show ?thesis
    unfolding runs_bind
    by (rule runs_mono[OF remap_like[OF s0 src]], rule runs_mono[OF 2], assumption,
        rule runs_mono[OF 3], assumption) (rule 4)
qed

end

locale swap_table =
  fixes swp :: "u32 \<Rightarrow> u32 \<Rightarrow> 's \<Rightarrow> 's option"
    and ridx :: "'s \<Rightarrow> nat \<Rightarrow> nat"
    and cap :: "'s \<Rightarrow> nat"
    and wf :: "'s \<Rightarrow> bool"
  assumes swp_law: "wf s \<Longrightarrow> unat a < cap s \<Longrightarrow> unat b < cap s \<Longrightarrow> invol (cap s) (ridx s) \<Longrightarrow>
    runs (swp a b s) (\<lambda>s'. wf s' \<and> cap s' = cap s \<and>
      (\<forall>i<cap s. ridx s' i = swap_ridx (unat a) (unat b) (ridx s) i))"
begin

lemma invol_cong: "(\<And>i. i < n \<Longrightarrow> f i = g i) \<Longrightarrow> invol n g \<Longrightarrow> invol n f"
  by (simp add: invol_def)

lemma swp_invol:
  assumes "wf s" "unat a < cap s" "unat b < cap s" "invol (cap s) (ridx s)"
    and "ridx s (unat a) = unat b \<Longrightarrow> a = b"
  shows "runs (swp a b s) (\<lambda>s'. wf s' \<and> cap s' = cap s \<and> invol (cap s') (ridx s') \<and>
     ridx s' (unat a) = unat b \<and> ridx s' (unat b) = unat a)"
proof (rule runs_mono[OF swp_law[OF assms(1-4)]])
  fix s' assume s': "wf s' \<and> cap s' = cap s \<and>
      (\<forall>i<cap s. ridx s' i = swap_ridx (unat a) (unat b) (ridx s) i)"
  have fresh: "ridx s (unat a) = unat b \<Longrightarrow> unat a = unat b" using assms(5) by auto
  show "wf s' \<and> cap s' = cap s \<and> invol (cap s') (ridx s') \<and>
     ridx s' (unat a) = unat b \<and> ridx s' (unat b) = unat a"
    using s' swap_ridx_invol[OF assms(4,2,3) fresh] swap_ridx_exchanges(1,2)[OF assms(4,2,3) fresh]
      assms(2,3) by (auto intro: invol_cong)
qed

lemma swp_partner:
  assumes "wf s" "unat a < cap s" "unat b < cap s" "invol (cap s) (ridx s)"
    and "ridx s (unat a) = unat b" "a \<noteq> b"
  shows "runs (swp a b s) (\<lambda>s'. ridx s' (unat a) = unat a \<and> ridx s' (unat b) = unat a)"
proof (rule runs_mono[OF swp_law[OF assms(1-4)]])
  fix s' assume s': "wf s' \<and> cap s' = cap s \<and>
      (\<forall>i<cap s. ridx s' i = swap_ridx (unat a) (unat b) (ridx s) i)"
  have "ridx s (unat b) = unat a" "unat a \<noteq> unat b"
    using assms by (auto simp: invol_def word_unat_eq_iff)
  then show "ridx s' (unat a) = unat a \<and> ridx s' (unat b) = unat a"
    using s' assms(2,3) swap_ridx_partner[of "ridx s" "unat a" "unat b"] assms(5) by simp
qed

end

end
