(* ===== verification/BankRemap.thy ===== *)
theory BankRemap
  imports DramBank Swap_Table
begin

section \<open>The bank remapping table\<close>

text \<open>
  Model of \<^verbatim>\<open>performance_model/bank_remap.{h,cc}\<close>: \<^verbatim>\<open>BankRemappingEntry\<close> and
  \<^verbatim>\<open>BankRemappingStructure\<close>. The array of entry pointers is a list of records. The
  temperature sensor of the statistics manager (\<^verbatim>\<open>getDramBankTemp\<close>) is the argument
  \<open>bank_temp\<close>; \<open>getFS\<close> is the accessor of \<^verbatim>\<open>SubsecondTime\<close>. Lines that the code prints are not
  modelled; \<^verbatim>\<open>double\<close> arithmetic is over the reals.
\<close>

subsection \<open>Entries\<close>

record 't bank_entry =
  be_idx :: u32
  be_ridx :: u32
  be_valid :: bool
  be_orig :: bool
  be_changed :: bool
  be_n_access :: int
  be_level :: u32
  be_stats :: "'t stat_entry"

definition BankRemappingEntry :: "u32 \<Rightarrow> 't::zero bank_entry" where
  "BankRemappingEntry idx =
     \<lparr>be_idx = idx, be_ridx = idx, be_valid = True, be_orig = True, be_changed = False,
      be_n_access = 0, be_level = idx div 2, be_stats = zero_stats\<rparr>"

definition be_clearStats :: "'t::zero bank_entry \<Rightarrow> 't bank_entry" where
  "be_clearStats e = e\<lparr>be_stats := clear_stats (be_stats e)\<rparr>"

definition be_clearAccess :: "'t bank_entry \<Rightarrow> 't bank_entry" where
  "be_clearAccess e = e\<lparr>be_n_access := 0\<rparr>"

definition be_setValidBit :: "bool \<Rightarrow> 't bank_entry \<Rightarrow> 't bank_entry" where
  "be_setValidBit valid e = e\<lparr>be_valid := valid\<rparr>"

definition be_setChangedBit :: "bool \<Rightarrow> 't bank_entry \<Rightarrow> 't bank_entry" where
  "be_setChangedBit changed e = e\<lparr>be_changed := changed\<rparr>"

definition be_remapTo :: "u32 \<Rightarrow> 't::zero bank_entry \<Rightarrow> 't bank_entry" where
  "be_remapTo idx e =
     be_setValidBit False
       ((be_clearStats (e\<lparr>be_ridx := idx\<rparr>))\<lparr>be_orig := (if idx \<noteq> be_idx e then False else True)\<rparr>)"

definition be_getAccess :: "'t bank_entry \<Rightarrow> u32" where
  "be_getAccess e = word_of_int (be_n_access e)"

definition be_accessOnce :: "access_t \<Rightarrow> 't bank_entry \<Rightarrow> 't bank_entry" where
  "be_accessOnce access_type e =
     (let st = be_stats e in
      e\<lparr>be_n_access := be_n_access e + 1,
        be_stats := (if access_type = WRITE then st\<lparr>st_writes := st_writes st + 1\<rparr>
                     else st\<lparr>st_reads := st_reads st + 1\<rparr>)\<rparr>)"

subsection \<open>The table\<close>

record 't bank_table =
  bt_arr :: "'t bank_entry list"
  bt_last_time :: 't
  bt_current_time :: 't
  bt_n_banks :: u32
  bt_copy_times :: int

definition BankRemappingStructure :: "u32 \<Rightarrow> 't::zero bank_table" where
  "BankRemappingStructure bank_num =
     \<lparr>bt_arr = map BankRemappingEntry (u32_range 0 bank_num), bt_last_time = 0, bt_current_time = 0,
      bt_n_banks = bank_num, bt_copy_times = 0\<rparr>"

definition be_at :: "u32 \<Rightarrow> 't bank_table \<Rightarrow> 't bank_entry option" where
  "be_at i t = fetch (bt_arr t) i"

definition be_upd :: "u32 \<Rightarrow> ('t bank_entry \<Rightarrow> 't bank_entry) \<Rightarrow> 't bank_table \<Rightarrow> 't bank_table option" where
  "be_upd i f t = do {
     e \<leftarrow> fetch (bt_arr t) i;
     arr \<leftarrow> store (bt_arr t) i (f e);
     Some (t\<lparr>bt_arr := arr\<rparr>)
   }"

definition swap_data_mov :: "bool \<Rightarrow> bool \<Rightarrow> bool \<Rightarrow> int" where
  "swap_data_mov s_orig d_orig same =
     (if (s_orig \<and> d_orig) \<or> same then 3
      else if (s_orig \<and> \<not> d_orig) \<or> (\<not> s_orig \<and> d_orig) then 4
      else if \<not> s_orig \<and> \<not> d_orig then 5
      else 0)"

definition bank_swap :: "u32 \<Rightarrow> u32 \<Rightarrow> 't::zero bank_table \<Rightarrow> 't bank_table option" where
  "bank_swap src des t = do {
     t \<leftarrow> be_upd src (be_setChangedBit True) t;
     t \<leftarrow> be_upd src be_clearAccess t;
     t \<leftarrow> be_upd des (be_setChangedBit True) t;
     t \<leftarrow> be_upd des be_clearAccess t;
     s \<leftarrow> be_at src t;
     d \<leftarrow> be_at des t;
     let s_orig = be_orig s;
     let d_orig = be_orig d;
     let src_des = be_ridx s;
     let des_des = be_ridx d;
     t \<leftarrow> be_upd src (be_remapTo des) t;
     t \<leftarrow> (if \<not> s_orig then be_upd src_des (be_remapTo src_des) t else Some t);
     t \<leftarrow> (if \<not> d_orig then be_upd des_des (be_remapTo des_des) t else Some t);
     t \<leftarrow> be_upd des (be_remapTo src) t;
     Some (t\<lparr>bt_copy_times := bt_copy_times t + swap_data_mov s_orig d_orig (src = des)\<rparr>)
   }"

definition bank_getBankIdx :: "u32 \<Rightarrow> 't bank_table \<Rightarrow> (u32 \<times> bool) option" where
  "bank_getBankIdx idx t = do { e \<leftarrow> be_at idx t; Some (be_ridx e, be_valid e) }"

definition bank_isValid :: "u32 \<Rightarrow> 't bank_table \<Rightarrow> bool option" where
  "bank_isValid idx t = do { e \<leftarrow> be_at idx t; Some (be_valid e) }"

definition bank_setValid :: "u32 \<Rightarrow> 't bank_table \<Rightarrow> 't bank_table option" where
  "bank_setValid idx t = be_upd idx (be_setValidBit True) t"

definition bank_setInvalid :: "u32 \<Rightarrow> 't bank_table \<Rightarrow> 't bank_table option" where
  "bank_setInvalid idx t = be_upd idx (be_setValidBit False) t"

definition bank_clearAllAccess :: "'t bank_table \<Rightarrow> 't bank_table option" where
  "bank_clearAllAccess t = do {
     t \<leftarrow> foldM (\<lambda>i t. do {
             t \<leftarrow> be_upd i be_clearAccess t;
             be_upd i (be_setChangedBit False) t
           }) (u32_range 0 (bt_n_banks t)) t;
     Some (t\<lparr>bt_last_time := bt_current_time t\<rparr>)
   }"

text \<open>The inner test of \<^verbatim>\<open>isTooHot\<close> is \<^verbatim>\<open>if (0)\<close>.\<close>

definition bank_isTooHot :: "('t::minus \<Rightarrow> u64) \<Rightarrow> u32 \<Rightarrow> 't bank_table \<Rightarrow> (bool \<times> 't bank_table) option" where
  "bank_isTooHot getFS idx t = do {
     e \<leftarrow> be_at idx t;
     let cnt = be_getAccess e;
     let interval_ms = real (unat (getFS (bt_current_time t - bt_last_time t))) / 10 ^ 12;
     let access_rate = real (unat cnt) * interval_ms;
     (phy_bank_i, valid) \<leftarrow> bank_getBankIdx idx t;
     let update_time = 1 / 100;
     let tooHot = (if access_rate > 1000 \<and> interval_ms > update_time
                   then (if False then True else False) else False);
     t \<leftarrow> (if interval_ms > update_time + 1 / 10 then bank_clearAllAccess t else Some t);
     Some (tooHot, t)
   }"

text \<open>
  The search of \<^verbatim>\<open>balanceBanks\<close>. As in the code the temperature that is compared is the one of
  bank \<open>idx\<close>, not of the candidate \<open>i\<close>.
\<close>

definition balance_step :: "(u32 \<Rightarrow> u32 \<Rightarrow> real) \<Rightarrow> u32 \<Rightarrow> u32 \<Rightarrow> 't bank_table \<Rightarrow> u32 \<Rightarrow>
    u32 \<times> real \<Rightarrow> (u32 \<times> real) option" where
  "balance_step bank_temp phy_vault_i idx t i acc = do {
     let (target, min_temp) = acc;
     (phy_bank_i, valid) \<leftarrow> bank_getBankIdx idx t;
     let temp = bank_temp phy_vault_i phy_bank_i;
     bank \<leftarrow> be_at i t;
     if be_changed bank then Some (target, min_temp)
     else if min_temp > temp then Some (be_ridx bank, temp)
     else Some (target, min_temp)
   }"

definition bank_balanceBanks :: "(u32 \<Rightarrow> u32 \<Rightarrow> real) \<Rightarrow> u32 \<Rightarrow> u32 \<Rightarrow> 't::zero bank_table \<Rightarrow> 't bank_table option" where
  "bank_balanceBanks bank_temp phy_vault_i idx t = do {
     orig_bank \<leftarrow> be_at idx t;
     let orig_remap = be_ridx orig_bank;
     (target, min_temp) \<leftarrow> foldM (balance_step bank_temp phy_vault_i idx t)
        (u32_range 0 (bt_n_banks t)) (100, 999);
     if target \<noteq> orig_remap \<and> target \<noteq> 100 then bank_swap idx target t
     else Some t
   }"

definition bank_accessOnce :: "u32 \<Rightarrow> access_t \<Rightarrow> 't::linorder \<Rightarrow> 't bank_table \<Rightarrow> 't bank_table option" where
  "bank_accessOnce idx access_type pkt_time t = do {
     let t = (if pkt_time > bt_current_time t then t\<lparr>bt_current_time := pkt_time\<rparr> else t);
     be_upd idx (be_accessOnce access_type) t
   }"

subsection \<open>The table is an involution\<close>

definition bt_ridx :: "'t bank_table \<Rightarrow> nat \<Rightarrow> nat" where
  "bt_ridx t i = unat (be_ridx (bt_arr t ! i))"

definition bt_wf :: "'t bank_table \<Rightarrow> bool" where
  "bt_wf t \<longleftrightarrow> length (bt_arr t) = unat (bt_n_banks t) \<and>
     (\<forall>i<unat (bt_n_banks t). unat (be_idx (bt_arr t ! i)) = i \<and>
        (be_orig (bt_arr t ! i) \<longleftrightarrow> be_ridx (bt_arr t ! i) = be_idx (bt_arr t ! i)))"

definition bt_ok :: "'t bank_table \<Rightarrow> bool" where
  "bt_ok t \<longleftrightarrow> bt_wf t \<and> invol (unat (bt_n_banks t)) (bt_ridx t)"

lemma runs_be_at [runs_simps]:
  "runs (be_at i t) Q \<longleftrightarrow> unat i < length (bt_arr t) \<and> Q (bt_arr t ! unat i)"
  by (simp add: be_at_def runs_simps)

lemma runs_be_upd [runs_simps]:
  "runs (be_upd i f t) Q \<longleftrightarrow> unat i < length (bt_arr t) \<and>
     Q (t\<lparr>bt_arr := (bt_arr t)[unat i := f (bt_arr t ! unat i)]\<rparr>)"
  by (auto simp: be_upd_def runs_simps)

text \<open>Updates of one entry, seen through the index function.\<close>

lemma be_upd_remap:
  assumes "bt_wf t" "unat i < unat (bt_n_banks t)"
  shows "runs (be_upd i (be_remapTo j) t) (\<lambda>t'. bt_wf t' \<and> bt_n_banks t' = bt_n_banks t \<and>
     bt_ridx t' = (bt_ridx t)(unat i := unat j))"
  using assms
  by (auto simp: runs_simps bt_wf_def bt_ridx_def be_remapTo_def be_setValidBit_def be_clearStats_def
      nth_list_update fun_eq_iff)

lemma be_upd_keep:
  assumes "bt_wf t" "unat i < unat (bt_n_banks t)"
    and "\<And>e. be_idx (f e) = be_idx e \<and> be_ridx (f e) = be_ridx e \<and> be_orig (f e) = be_orig e"
  shows "runs (be_upd i f t) (\<lambda>t'. bt_wf t' \<and> bt_n_banks t' = bt_n_banks t \<and> bt_ridx t' = bt_ridx t)"
  using assms by (auto simp: runs_simps bt_wf_def bt_ridx_def nth_list_update fun_eq_iff)

lemma bt_wf_orig:
  fixes i :: u32
  assumes "bt_wf t" "unat i < unat (bt_n_banks t)"
  shows "unat i < length (bt_arr t)" "be_orig (bt_arr t ! unat i) \<longleftrightarrow> bt_ridx t (unat i) = unat i"
proof -
  show "unat i < length (bt_arr t)" using assms by (simp add: bt_wf_def)
  have "be_idx (bt_arr t ! unat i) = i" using assms by (simp add: bt_wf_def word_unat_eq_iff)
  then show "be_orig (bt_arr t ! unat i) \<longleftrightarrow> bt_ridx t (unat i) = unat i"
    using assms by (simp add: bt_wf_def bt_ridx_def word_unat_eq_iff)
qed

abbreviation bt_like :: "'t bank_table \<Rightarrow> (nat \<Rightarrow> nat) \<Rightarrow> 't bank_table \<Rightarrow> bool" where
  "bt_like t r t' \<equiv> bt_wf t' \<and> bt_n_banks t' = bt_n_banks t \<and> bt_ridx t' = r"

interpretation bet: entry_table "\<lambda>i j. be_upd i (be_remapTo j)" bt_ridx "\<lambda>t. unat (bt_n_banks t)" bt_wf
  by unfold_locales (auto elim!: runs_mono[OF be_upd_remap])

lemma bank_swap_runs:
  assumes wf: "bt_wf t" and s: "unat src < unat (bt_n_banks t)" and d: "unat des < unat (bt_n_banks t)"
    and inv: "invol (unat (bt_n_banks t)) (bt_ridx t)"
  shows "runs (bank_swap src des t) (\<lambda>t'. bt_wf t' \<and> bt_n_banks t' = bt_n_banks t \<and>
     bt_ridx t' = swap_ridx (unat src) (unat des) (bt_ridx t))"
proof -
  let ?r = "bt_ridx t"
  have keep: "runs (be_upd i f t1) (bt_like t r)"
    if "bt_like t r t1" "unat i < unat (bt_n_banks t)" "f = be_setChangedBit True \<or> f = be_clearAccess" for i f r t1
    using that be_upd_keep[of t1 i f] by (auto elim!: runs_mono simp: be_setChangedBit_def be_clearAccess_def)
  have reads: "unat src < length (bt_arr t0)" "unat des < length (bt_arr t0)"
    "be_orig (bt_arr t0 ! unat src) \<longleftrightarrow> ?r (unat src) = unat src"
    "be_orig (bt_arr t0 ! unat des) \<longleftrightarrow> ?r (unat des) = unat des"
    "unat (be_ridx (bt_arr t0 ! unat src)) = ?r (unat src)"
    "unat (be_ridx (bt_arr t0 ! unat des)) = ?r (unat des)"
    if "bt_like t ?r t0" for t0
    using that bt_wf_orig[of t0 src] bt_wf_orig[of t0 des] s d bt_ridx_def[of t0] by simp_all
  have like: "bet.like t r = bt_like t r" for r
    by (auto simp: fun_eq_iff bet.like_def word_unat_eq_iff)
  have rest: "runs (do {
       t1 \<leftarrow> be_upd src (be_remapTo des) t0;
       t1 \<leftarrow> (if \<not> be_orig (bt_arr t0 ! unat src) then
               be_upd (be_ridx (bt_arr t0 ! unat src)) (be_remapTo (be_ridx (bt_arr t0 ! unat src))) t1 else Some t1);
       t1 \<leftarrow> (if \<not> be_orig (bt_arr t0 ! unat des) then
               be_upd (be_ridx (bt_arr t0 ! unat des)) (be_remapTo (be_ridx (bt_arr t0 ! unat des))) t1 else Some t1);
       t1 \<leftarrow> be_upd des (be_remapTo src) t1;
       Some (t1\<lparr>bt_copy_times := bt_copy_times t1 + c\<rparr>) })
     (bt_like t (swap_ridx (unat src) (unat des) ?r))" if t0: "bt_like t ?r t0" for t0 c
  proof -
    have cp: "bt_wf (t1\<lparr>bt_copy_times := x\<rparr>) = bt_wf t1" "bt_ridx (t1\<lparr>bt_copy_times := x\<rparr>) = bt_ridx t1" for t1 x
      by (simp_all add: bt_wf_def bt_ridx_def fun_eq_iff)
    show ?thesis
      using bet.four_remaps[OF inv _ s d reads(3-6)[OF t0], of t0] t0
      unfolding like runs_bind runs_Some cp by simp
  qed
  show ?thesis
    unfolding bank_swap_def Let_def
    apply (subst runs_bind, rule runs_mono[OF keep], use wf s d in simp_all)
    apply (subst runs_bind, rule runs_mono[OF keep], use s d in simp_all)
    apply (subst runs_bind, rule runs_mono[OF keep], use s d in simp_all)
    apply (subst runs_bind, rule runs_mono[OF keep], use s d in simp_all)
    apply (subst runs_bind, subst runs_be_at, rule conjI, simp add: reads)
    apply (subst runs_bind, subst runs_be_at, rule conjI, simp add: reads)
    apply (rule rest, simp)
    done
qed

interpretation bsw: swap_table bank_swap bt_ridx "\<lambda>t. unat (bt_n_banks t)" bt_wf
  by unfold_locales (auto elim!: runs_mono[OF bank_swap_runs])

lemma bank_swap_ok:
  assumes "bt_ok t" "unat src < unat (bt_n_banks t)" "unat des < unat (bt_n_banks t)"
    and "bt_ridx t (unat src) = unat des \<Longrightarrow> src = des"
  shows "runs (bank_swap src des t) (\<lambda>t'. bt_ok t' \<and> bt_n_banks t' = bt_n_banks t)"
  using bsw.swp_invol[of t src des] assms by (auto simp: bt_ok_def word_unat_eq_iff[of "bt_n_banks _"] elim!: runs_mono)

text \<open>Operations that leave the index function alone.\<close>

definition bt_same :: "'t bank_table \<Rightarrow> 't bank_table \<Rightarrow> bool" where
  "bt_same t t' \<longleftrightarrow> bt_n_banks t' = bt_n_banks t \<and> bt_ridx t' = bt_ridx t \<and> (bt_wf t \<longrightarrow> bt_wf t')"

lemma bt_same_ok: "bt_same t t' \<Longrightarrow> bt_ok t \<Longrightarrow> bt_ok t'"
  by (simp add: bt_same_def bt_ok_def)

lemma bt_same_refl [simp]: "bt_same t t"
  by (simp add: bt_same_def)

lemma bt_same_trans: "bt_same t t' \<Longrightarrow> bt_same t' t'' \<Longrightarrow> bt_same t t''"
  by (simp add: bt_same_def)

lemma bt_same_times [simp]:
  "bt_same t (t'\<lparr>bt_last_time := x\<rparr>) = bt_same t t'" "bt_same t (t'\<lparr>bt_current_time := x\<rparr>) = bt_same t t'"
  "bt_same (t\<lparr>bt_current_time := x\<rparr>) t' = bt_same t t'"
  by (simp_all add: bt_same_def bt_wf_def bt_ridx_def fun_eq_iff)

lemma be_upd_same:
  assumes "bt_wf t" "unat i < unat (bt_n_banks t)"
    and "\<And>e. be_idx (f e) = be_idx e \<and> be_ridx (f e) = be_ridx e \<and> be_orig (f e) = be_orig e"
  shows "runs (be_upd i f t) (bt_same t)"
  using be_upd_keep[OF assms] assms(1) by (auto simp: bt_same_def elim!: runs_mono)

lemma bank_setValid_runs:
  assumes "bt_wf t" "unat i < unat (bt_n_banks t)"
  shows "runs (bank_setValid i t) (bt_same t)" "runs (bank_setInvalid i t) (bt_same t)"
  unfolding bank_setValid_def bank_setInvalid_def
  by (rule be_upd_same[OF assms]; simp add: be_setValidBit_def)+

lemma bank_clearAllAccess_runs:
  assumes "bt_wf t"
  shows "runs (bank_clearAllAccess t) (bt_same t)"
proof -
  have "runs (foldM (\<lambda>i t. do { t \<leftarrow> be_upd i be_clearAccess t; be_upd i (be_setChangedBit False) t })
      (u32_range 0 (bt_n_banks t)) t) (bt_same t)"
  proof (rule foldM_runs)
    fix i and s :: "'a bank_table" assume i: "i \<in> set (u32_range 0 (bt_n_banks t))" and I: "bt_same t s"
    then have s: "bt_wf s" "unat i < unat (bt_n_banks s)"
      using assms by (auto simp: bt_same_def set_u32_range)
    have 1: "runs (be_upd i be_clearAccess s) (\<lambda>s1. bt_same t s1 \<and> bt_wf s1)"
      using be_upd_same[OF s, of be_clearAccess] I s(1)
      by (auto simp: be_clearAccess_def bt_same_def elim!: runs_mono)
    have 2: "runs (be_upd i (be_setChangedBit False) s1) (bt_same t)" if "bt_same t s1 \<and> bt_wf s1" for s1
      using be_upd_same[of s1 i "be_setChangedBit False"] that s I
      by (auto simp: be_setChangedBit_def bt_same_def elim!: runs_mono)
    show "runs (do { s \<leftarrow> be_upd i be_clearAccess s; be_upd i (be_setChangedBit False) s }) (bt_same t)"
      unfolding runs_bind by (rule runs_mono[OF 1]) (rule 2)
  qed simp
  then show ?thesis
    by (auto simp: bank_clearAllAccess_def runs_bind elim!: runs_mono)
qed

lemma bank_isTooHot_runs:
  assumes "bt_wf t" "unat i < unat (bt_n_banks t)"
  shows "runs (bank_isTooHot getFS i t) (\<lambda>(hot, t'). \<not> hot \<and> bt_same t t')"
  using assms bank_clearAllAccess_runs[OF assms(1)]
  by (auto simp: bank_isTooHot_def bank_getBankIdx_def runs_simps Let_def bt_wf_def elim!: runs_mono)

lemma balance_search_runs:
  assumes "bt_ok t" "unat i < unat (bt_n_banks t)"
  shows "runs (foldM (balance_step bank_temp pv i t) (u32_range 0 (bt_n_banks t)) (100, 999))
    (\<lambda>(target, _). target = 100 \<or> unat target < unat (bt_n_banks t))"
proof (rule foldM_runs)
  fix j and acc :: "u32 \<times> real" assume j: "j \<in> set (u32_range 0 (bt_n_banks t))"
    and I: "case acc of (target, _) \<Rightarrow> target = 100 \<or> unat target < unat (bt_n_banks t)"
  have len: "length (bt_arr t) = unat (bt_n_banks t)" using assms by (simp add: bt_ok_def bt_wf_def)
  have "unat (be_ridx (bt_arr t ! unat j)) < unat (bt_n_banks t)"
    using assms(1) j by (auto simp: bt_ok_def invol_def bt_ridx_def set_u32_range)
  then show "runs (balance_step bank_temp pv i t j acc)
      (\<lambda>(target, _). target = 100 \<or> unat target < unat (bt_n_banks t))"
    using I j assms(2)
    by (cases acc) (auto simp: balance_step_def bank_getBankIdx_def runs_simps Let_def len set_u32_range)
qed simp

lemma bank_balanceBanks_runs:
  assumes ok: "bt_ok t" and i: "unat i < unat (bt_n_banks t)"
  shows "runs (bank_balanceBanks bank_temp pv i t) (\<lambda>t'. bt_ok t' \<and> bt_n_banks t' = bt_n_banks t)"
proof -
  have len: "unat i < length (bt_arr t)" using assms by (simp add: bt_ok_def bt_wf_def)
  have sw: "runs (bank_swap i target t) (\<lambda>t'. bt_ok t' \<and> bt_n_banks t' = bt_n_banks t)"
    if "unat target < unat (bt_n_banks t)" "target \<noteq> be_ridx (bt_arr t ! unat i)" for target
    by (rule bank_swap_ok) (use ok i that in \<open>auto simp: bt_ridx_def word_unat_eq_iff\<close>)
  show ?thesis
    unfolding bank_balanceBanks_def
    using len ok sw
    by (auto simp: runs_simps Let_def intro!: runs_mono[OF balance_search_runs[OF ok i, of bank_temp pv]])
qed

lemma bank_accessOnce_runs:
  assumes "bt_wf t" "unat i < unat (bt_n_banks t)"
  shows "runs (bank_accessOnce i a pkt t) (bt_same t)"
proof -
  let ?t = "if bt_current_time t < pkt then t\<lparr>bt_current_time := pkt\<rparr> else t"
  have s: "bt_same t ?t" by simp
  then have "bt_wf ?t" "unat i < unat (bt_n_banks ?t)" using assms by (auto simp: bt_same_def)
  then have "runs (be_upd i (be_accessOnce a) ?t) (bt_same ?t)"
    by (rule be_upd_same) (auto simp: be_accessOnce_def Let_def)
  then show ?thesis
    unfolding bank_accessOnce_def Let_def by (rule runs_mono) (rule bt_same_trans[OF s])
qed

lemma BankRemappingStructure_ok: "bt_ok (BankRemappingStructure n)"
proof -
  have pos: "unat (u32_range 0 n ! i) = i" if "i < unat n" for i
    using that nth_map[of i "u32_range 0 n" unat] by (simp add: map_unat_u32_range)
  then show ?thesis
    by (auto simp: bt_ok_def bt_wf_def invol_def bt_ridx_def BankRemappingStructure_def BankRemappingEntry_def)
qed

subsection \<open>What the balancing looks at\<close>

lemma bank_balance_same_temp:
  assumes "be_at idx t = Some e" "bank_temp pv (be_ridx e) = bank_temp' pv (be_ridx e)"
  shows "balance_step bank_temp pv idx t = balance_step bank_temp' pv idx t"
  using assms by (auto simp: balance_step_def bank_getBankIdx_def fun_eq_iff)

text \<open>C36: Balancing a bank ignores the temperatures of the candidates. The search of \<^verbatim>\<open>balanceBanks\<close> reads
  the temperature of the bank being balanced in every iteration, so two temperature maps that agree
  on that one bank lead to the same swap, however hot the other banks are. On a well-formed table
  the call returns and keeps the table an involution.\<close>

theorem bank_balance_ignores_candidates:
  assumes "bt_ok t" and "idx < bt_n_banks t"
    and "bank_temp pv (be_ridx (bt_arr t ! unat idx)) = bank_temp' pv (be_ridx (bt_arr t ! unat idx))"
  shows "\<exists>t'. bank_balanceBanks bank_temp pv idx t = Some t' \<and>
     bank_balanceBanks bank_temp' pv idx t = Some t' \<and> bt_ok t'"
proof -
  have i: "unat idx < unat (bt_n_banks t)" using assms(2) by (simp add: word_less_nat_alt)
  have at: "be_at idx t = Some (bt_arr t ! unat idx)"
    using i assms(1) by (simp add: be_at_def fetch_def bt_ok_def bt_wf_def)
  have "bank_balanceBanks bank_temp pv idx t = bank_balanceBanks bank_temp' pv idx t"
    using bank_balance_same_temp[OF at, of bank_temp pv bank_temp'] assms(3)
    by (simp add: bank_balanceBanks_def)
  then show ?thesis
    using bank_balanceBanks_runs[OF assms(1) i, of bank_temp pv] by (auto simp: runs_iff)
qed

theorem bank_balance_ignores_candidates_witness:
  "\<exists>t'. bank_balanceBanks (\<lambda>v b. 60) 0 2 (BankRemappingStructure 8 :: nat bank_table) = Some t' \<and>
     bank_balanceBanks (\<lambda>v b. if b = 2 then 60 else 110) 0 2 (BankRemappingStructure 8) = Some t'"
proof -
  let ?t = "BankRemappingStructure 8 :: nat bank_table"
  have "bt_n_banks ?t = 8" "be_ridx (bt_arr ?t ! unat (2 :: u32)) = 2"
    by (simp_all add: BankRemappingStructure_def BankRemappingEntry_def u32_range_def upt_rec)
  then show ?thesis
    using bank_balance_ignores_candidates[OF BankRemappingStructure_ok[where ?'a = nat], of 2 8 "\<lambda>v b. 60" 0 "\<lambda>v b. if b = 2 then 60 else 110"]
    by auto
qed

end
