(* ===== verification/VaultRemap.thy ===== *)
theory VaultRemap
  imports BankRemap
begin

section \<open>The vault remapping table\<close>

text \<open>
  Model of \<^verbatim>\<open>performance_model/vault_remap.{h,cc}\<close>: \<^verbatim>\<open>VaultRemappingEntry\<close> with its bank
  remapping table, and \<^verbatim>\<open>VaultRemappingStructure\<close>. The temperature sensors of the statistics
  manager are the arguments \<open>bank_temp\<close> and \<open>cntlr_temp\<close>. The member \<^verbatim>\<open>n_clock\<close> is only
  initialised and is left out, as are printed lines.
\<close>

subsection \<open>Entries\<close>

record 't vault_entry =
  ve_idx :: u32
  ve_ridx :: u32
  ve_bank_num :: u32
  ve_n_access :: int
  ve_bremap_table :: "'t bank_table"
  ve_valid :: bool
  ve_orig :: bool
  ve_changed :: bool
  ve_stats :: "'t stat_entry"

definition VaultRemappingEntry :: "u32 \<Rightarrow> 't::zero vault_entry" where
  "VaultRemappingEntry idx =
     \<lparr>ve_idx = idx, ve_ridx = idx, ve_bank_num = 8, ve_n_access = 0,
      ve_bremap_table = BankRemappingStructure 8, ve_valid = True, ve_orig = True,
      ve_changed = False, ve_stats = zero_stats\<rparr>"

definition ve_clearStats :: "'t::zero vault_entry \<Rightarrow> 't vault_entry" where
  "ve_clearStats e = e\<lparr>ve_stats := clear_stats (ve_stats e)\<rparr>"

definition ve_clearAccess :: "'t vault_entry \<Rightarrow> 't vault_entry option" where
  "ve_clearAccess e = do {
     let e = e\<lparr>ve_n_access := 0\<rparr>;
     t \<leftarrow> bank_clearAllAccess (ve_bremap_table e);
     Some (e\<lparr>ve_bremap_table := t\<rparr>)
   }"

definition ve_setValidBit :: "bool \<Rightarrow> 't vault_entry \<Rightarrow> 't vault_entry option" where
  "ve_setValidBit valid e = do {
     let e = e\<lparr>ve_valid := valid\<rparr>;
     t \<leftarrow> foldM (\<lambda>i t. if valid then bank_setValid i t else bank_setInvalid i t)
            (u32_range 0 (ve_bank_num e)) (ve_bremap_table e);
     Some (e\<lparr>ve_bremap_table := t\<rparr>)
   }"

definition ve_setChangedBit :: "bool \<Rightarrow> 't vault_entry \<Rightarrow> 't vault_entry" where
  "ve_setChangedBit changed e = e\<lparr>ve_changed := changed\<rparr>"

definition ve_remapTo :: "u32 \<Rightarrow> 't::zero vault_entry \<Rightarrow> 't vault_entry option" where
  "ve_remapTo idx e =
     ve_setValidBit False
       ((ve_clearStats (e\<lparr>ve_ridx := idx\<rparr>))\<lparr>ve_orig := (if idx \<noteq> ve_idx e then False else True)\<rparr>)"

definition ve_getAccess :: "'t vault_entry \<Rightarrow> u32" where
  "ve_getAccess e = word_of_int (ve_n_access e)"

definition ve_accessOnce :: "u32 \<Rightarrow> access_t \<Rightarrow> 't::linorder \<Rightarrow> 't vault_entry \<Rightarrow> 't vault_entry option" where
  "ve_accessOnce bank_idx access_type pkt_time e = do {
     let st = ve_stats e;
     let e = e\<lparr>ve_n_access := ve_n_access e + 1,
        ve_stats := (if access_type = WRITE then st\<lparr>st_writes := st_writes st + 1\<rparr>
                     else st\<lparr>st_reads := st_reads st + 1\<rparr>)\<rparr>;
     t \<leftarrow> bank_accessOnce bank_idx access_type pkt_time (ve_bremap_table e);
     Some (e\<lparr>ve_bremap_table := t\<rparr>)
   }"

definition ve_isTooHot :: "('t::minus \<Rightarrow> u64) \<Rightarrow> u32 \<Rightarrow> 't vault_entry \<Rightarrow> (bool \<times> 't vault_entry) option" where
  "ve_isTooHot getFS bank_idx e = do {
     (hot, t) \<leftarrow> bank_isTooHot getFS bank_idx (ve_bremap_table e);
     Some (hot, e\<lparr>ve_bremap_table := t\<rparr>)
   }"

definition ve_balanceBanks :: "(u32 \<Rightarrow> u32 \<Rightarrow> real) \<Rightarrow> u32 \<Rightarrow> u32 \<Rightarrow> 't::zero vault_entry \<Rightarrow> 't vault_entry option" where
  "ve_balanceBanks bank_temp phy_vault_i bank_idx e = do {
     t \<leftarrow> bank_balanceBanks bank_temp phy_vault_i bank_idx (ve_bremap_table e);
     Some (e\<lparr>ve_bremap_table := t\<rparr>)
   }"

text \<open>The \<^verbatim>\<open>int\<close> bit set of \<^verbatim>\<open>getBankValid\<close>, with the guard bit at position \<^verbatim>\<open>m_bank_num\<close>.\<close>

definition ve_getBankValid :: "'t vault_entry \<Rightarrow> int option" where
  "ve_getBankValid e =
     foldM (\<lambda>i res. do {
         let tmp = push_bit (unat i) 1;
         v \<leftarrow> bank_isValid i (ve_bremap_table e);
         Some (if v then res OR tmp else res)
       }) (u32_range 0 (ve_bank_num e)) (push_bit (unat (ve_bank_num e)) 1)"

subsection \<open>The table\<close>

record 't vault_table =
  vt_arr :: "'t vault_entry list"
  vt_n_vaults :: u32
  vt_last_time :: 't
  vt_current_time :: 't
  vt_copy_times :: int

text \<open>The constructor leaves the two times to their default constructor: the argument \<open>t0\<close>.\<close>

definition VaultRemappingStructure :: "'t \<Rightarrow> u32 \<Rightarrow> 't::zero vault_table" where
  "VaultRemappingStructure t0 vault_num =
     \<lparr>vt_arr = map VaultRemappingEntry (u32_range 0 vault_num), vt_n_vaults = vault_num,
      vt_last_time = t0, vt_current_time = t0, vt_copy_times = 0\<rparr>"

definition ve_at :: "u32 \<Rightarrow> 't vault_table \<Rightarrow> 't vault_entry option" where
  "ve_at i t = fetch (vt_arr t) i"

definition ve_upd :: "u32 \<Rightarrow> ('t vault_entry \<Rightarrow> 't vault_entry option) \<Rightarrow> 't vault_table \<Rightarrow> 't vault_table option" where
  "ve_upd i f t = do {
     e \<leftarrow> fetch (vt_arr t) i;
     e \<leftarrow> f e;
     arr \<leftarrow> store (vt_arr t) i e;
     Some (t\<lparr>vt_arr := arr\<rparr>)
   }"

definition vault_swap :: "u32 \<Rightarrow> u32 \<Rightarrow> 't::zero vault_table \<Rightarrow> 't vault_table option" where
  "vault_swap src des t = do {
     t \<leftarrow> ve_upd src (\<lambda>e. Some (ve_setChangedBit True e)) t;
     t \<leftarrow> ve_upd src ve_clearAccess t;
     t \<leftarrow> ve_upd des (\<lambda>e. Some (ve_setChangedBit True e)) t;
     t \<leftarrow> ve_upd des ve_clearAccess t;
     s \<leftarrow> ve_at src t;
     d \<leftarrow> ve_at des t;
     let s_orig = ve_orig s;
     let d_orig = ve_orig d;
     let src_des = ve_ridx s;
     let des_des = ve_ridx d;
     t \<leftarrow> ve_upd src (ve_remapTo des) t;
     t \<leftarrow> (if \<not> s_orig then ve_upd src_des (ve_remapTo src_des) t else Some t);
     t \<leftarrow> (if \<not> d_orig then ve_upd des_des (ve_remapTo des_des) t else Some t);
     t \<leftarrow> ve_upd des (ve_remapTo src) t;
     Some (t\<lparr>vt_copy_times := vt_copy_times t + swap_data_mov s_orig d_orig (src = des)\<rparr>)
   }"

definition vault_getVaultIdx :: "u32 \<Rightarrow> 't vault_table \<Rightarrow> (u32 \<times> bool) option" where
  "vault_getVaultIdx idx t = do { e \<leftarrow> ve_at idx t; Some (ve_ridx e, ve_valid e) }"

definition vault_getBankIdx :: "u32 \<Rightarrow> u32 \<Rightarrow> 't vault_table \<Rightarrow> (u32 \<times> bool) option" where
  "vault_getBankIdx vault_idx bank_idx t = do {
     vault \<leftarrow> ve_at vault_idx t;
     bank_getBankIdx bank_idx (ve_bremap_table vault)
   }"

definition vault_isValid :: "u32 \<Rightarrow> 't vault_table \<Rightarrow> (bool \<times> int) option" where
  "vault_isValid idx t = do {
     e \<leftarrow> ve_at idx t;
     bank_valid \<leftarrow> ve_getBankValid e;
     Some (ve_valid e, bank_valid)
   }"

definition vault_getBankValid :: "u32 \<Rightarrow> 't vault_table \<Rightarrow> int option" where
  "vault_getBankValid vault_idx t = do { e \<leftarrow> ve_at vault_idx t; ve_getBankValid e }"

definition vault_clearAllAccess :: "'t vault_table \<Rightarrow> 't vault_table option" where
  "vault_clearAllAccess t = do {
     t \<leftarrow> foldM (\<lambda>i t. ve_upd i ve_clearAccess t) (u32_range 0 (vt_n_vaults t)) t;
     Some (t\<lparr>vt_last_time := vt_current_time t\<rparr>)
   }"

definition vault_enableAllVault :: "'t vault_table \<Rightarrow> 't vault_table option" where
  "vault_enableAllVault t =
     foldM (\<lambda>i t. ve_upd i (\<lambda>e. Some (ve_setChangedBit False e)) t) (u32_range 0 (vt_n_vaults t)) t"

definition vault_getUsableVaultNum :: "'t vault_table \<Rightarrow> int option" where
  "vault_getUsableVaultNum t =
     foldM (\<lambda>i num. do { e \<leftarrow> ve_at i t; Some (if \<not> ve_changed e then num + 1 else num) })
       (u32_range 0 (vt_n_vaults t)) 0"

text \<open>
  \<^verbatim>\<open>isTooHot\<close>; the division by a zero interval is only compared under \<^verbatim>\<open>interval_ms > update_time\<close>,
  and the inner test is \<^verbatim>\<open>if (0)\<close>.
\<close>

definition vault_isTooHot :: "('t::{zero, minus} \<Rightarrow> u64) \<Rightarrow> (u32 \<Rightarrow> u32 \<Rightarrow> real) \<Rightarrow> u32 \<Rightarrow> u32 \<Rightarrow>
    't vault_table \<Rightarrow> (bool \<times> 't vault_table) option" where
  "vault_isTooHot getFS bank_temp idx bank_i t = do {
     (phy_vault_i, valid) \<leftarrow> vault_getVaultIdx idx t;
     e \<leftarrow> ve_at idx t;
     (bankTooHot, e) \<leftarrow> ve_isTooHot getFS bank_i e;
     t \<leftarrow> ve_upd idx (\<lambda>_. Some e) t;
     t \<leftarrow> (if bankTooHot then ve_upd idx (ve_balanceBanks bank_temp phy_vault_i bank_i) t else Some t);
     e \<leftarrow> ve_at idx t;
     let cnt = ve_getAccess e;
     let interval_ms = real (unat (getFS (vt_current_time t - vt_last_time t))) / 10 ^ 12;
     let access_rate = real (unat cnt) / interval_ms;
     let update_time = 1 / 100;
     let tooHot = (if access_rate > 80000 \<and> interval_ms > update_time
                   then (if False then True else False) else False);
     t \<leftarrow> (if interval_ms > update_time * 2 then vault_clearAllAccess t else Some t);
     Some (tooHot, t)
   }"

text \<open>
  The search of \<^verbatim>\<open>balanceVaults\<close>: \<^verbatim>\<open>cnt < min_cnt\<close> compares the unsigned count with the value of the
  \<^verbatim>\<open>int\<close> variable converted to unsigned, which stores such counts.
\<close>

definition vault_balance_step :: "(u32 \<Rightarrow> real) \<Rightarrow> real \<Rightarrow> 't vault_table \<Rightarrow> u32 \<Rightarrow> u32 \<times> u32 \<Rightarrow> (u32 \<times> u32) option" where
  "vault_balance_step cntlr_temp orig_temp t i acc = do {
     let (target, min_cnt) = acc;
     vault \<leftarrow> ve_at i t;
     if ve_changed vault then Some (target, min_cnt)
     else do {
       let cnt = ve_getAccess vault;
       let remap_i = ve_ridx vault;
       if cnt < min_cnt \<and> cntlr_temp remap_i < orig_temp + 5 then Some (remap_i, cnt)
       else Some (target, min_cnt)
     }
   }"

definition vault_balanceVaults :: "(u32 \<Rightarrow> real) \<Rightarrow> u32 \<Rightarrow> 't::zero vault_table \<Rightarrow> 't vault_table option" where
  "vault_balanceVaults cntlr_temp idx t = do {
     orig_vault \<leftarrow> ve_at idx t;
     let orig_remap = ve_ridx orig_vault;
     let orig_temp = cntlr_temp orig_remap;
     (target, min_cnt) \<leftarrow> foldM (vault_balance_step cntlr_temp orig_temp t)
        (u32_range 0 (vt_n_vaults t)) (100, 9999999);
     if target \<noteq> orig_remap \<and> target \<noteq> 100 then vault_swap idx target t
     else if target = 100 then vault_enableAllVault t
     else Some t
   }"

definition vault_setValid :: "u32 \<Rightarrow> 't vault_table \<Rightarrow> 't vault_table option" where
  "vault_setValid idx t = ve_upd idx (ve_setValidBit True) t"

definition vault_setInvalid :: "u32 \<Rightarrow> 't vault_table \<Rightarrow> 't vault_table option" where
  "vault_setInvalid idx t = ve_upd idx (ve_setValidBit False) t"

definition vault_accessOnce :: "u32 \<Rightarrow> u32 \<Rightarrow> access_t \<Rightarrow> 't::linorder \<Rightarrow> 't vault_table \<Rightarrow> 't vault_table option" where
  "vault_accessOnce vault_idx bank_idx access_type pkt_time t = do {
     let t = (if pkt_time > vt_current_time t then t\<lparr>vt_current_time := pkt_time\<rparr> else t);
     ve_upd vault_idx (ve_accessOnce bank_idx access_type pkt_time) t
   }"

subsection \<open>The table is an involution\<close>

definition ve_ok :: "'t vault_entry \<Rightarrow> bool" where
  "ve_ok e \<longleftrightarrow> bt_ok (ve_bremap_table e) \<and> bt_n_banks (ve_bremap_table e) = 8 \<and> ve_bank_num e = 8 \<and>
     (ve_orig e \<longleftrightarrow> ve_ridx e = ve_idx e)"

definition vt_ridx :: "'t vault_table \<Rightarrow> nat \<Rightarrow> nat" where
  "vt_ridx t i = unat (ve_ridx (vt_arr t ! i))"

definition vt_wf :: "'t vault_table \<Rightarrow> bool" where
  "vt_wf t \<longleftrightarrow> length (vt_arr t) = unat (vt_n_vaults t) \<and>
     (\<forall>i<unat (vt_n_vaults t). unat (ve_idx (vt_arr t ! i)) = i \<and> ve_ok (vt_arr t ! i))"

definition vt_ok :: "'t vault_table \<Rightarrow> bool" where
  "vt_ok t \<longleftrightarrow> vt_wf t \<and> invol (unat (vt_n_vaults t)) (vt_ridx t)"

lemma runs_ve_at [runs_simps]:
  "runs (ve_at i t) Q \<longleftrightarrow> unat i < length (vt_arr t) \<and> Q (vt_arr t ! unat i)"
  by (simp add: ve_at_def runs_simps)

lemma runs_ve_upd [runs_simps]:
  "runs (ve_upd i f t) Q \<longleftrightarrow> unat i < length (vt_arr t) \<and>
     runs (f (vt_arr t ! unat i)) (\<lambda>e. Q (t\<lparr>vt_arr := (vt_arr t)[unat i := e]\<rparr>))"
  by (auto simp: ve_upd_def runs_simps)

text \<open>Operations on one entry.\<close>

definition ve_keep :: "'t vault_entry \<Rightarrow> 't vault_entry \<Rightarrow> bool" where
  "ve_keep e e' \<longleftrightarrow> ve_ok e' \<and> ve_idx e' = ve_idx e \<and> ve_ridx e' = ve_ridx e"

lemma ve_clearAccess_runs: "ve_ok e \<Longrightarrow> runs (ve_clearAccess e) (ve_keep e)"
  using bank_clearAllAccess_runs[of "ve_bremap_table e"]
  by (auto simp: ve_clearAccess_def runs_simps ve_ok_def ve_keep_def bt_ok_def bt_same_def Let_def elim!: runs_mono)

lemma ve_setValidBit_runs:
  assumes "ve_ok e"
  shows "runs (ve_setValidBit valid e) (ve_keep e)"
proof -
  let ?t = "ve_bremap_table e"
  have "runs (foldM (\<lambda>i t. if valid then bank_setValid i t else bank_setInvalid i t)
            (u32_range 0 (ve_bank_num e)) ?t) (bt_same ?t)"
  proof (rule foldM_runs)
    fix i and t :: "'a bank_table" assume i: "i \<in> set (u32_range 0 (ve_bank_num e))" and I: "bt_same ?t t"
    then have t: "bt_wf t" "unat i < unat (bt_n_banks t)"
      using assms by (auto simp: ve_ok_def bt_ok_def bt_same_def set_u32_range)
    show "runs (if valid then bank_setValid i t else bank_setInvalid i t) (bt_same ?t)"
      using bank_setValid_runs[OF t] by (auto elim!: runs_mono intro: bt_same_trans[OF I])
  qed simp
  then show ?thesis
    using assms by (auto simp: ve_setValidBit_def runs_bind Let_def ve_ok_def ve_keep_def bt_ok_def bt_same_def elim!: runs_mono)
qed

lemma ve_remapTo_runs:
  assumes "ve_ok e"
  shows "runs (ve_remapTo j e) (\<lambda>e'. ve_ok e' \<and> ve_idx e' = ve_idx e \<and> ve_ridx e' = j)"
  unfolding ve_remapTo_def
  by (rule runs_mono[OF ve_setValidBit_runs])
     (use assms in \<open>auto simp: ve_ok_def ve_clearStats_def ve_keep_def\<close>)

lemma ve_accessOnce_runs:
  assumes "ve_ok e" "b < 8"
  shows "runs (ve_accessOnce b a pkt e) (ve_keep e)"
  using assms bank_accessOnce_runs[of "ve_bremap_table e" b a pkt]
  by (auto simp: ve_accessOnce_def runs_simps ve_ok_def ve_keep_def bt_ok_def bt_same_def Let_def word_less_nat_alt
      simp del: bank_accessOnce_def elim!: runs_mono)

lemma ve_isTooHot_runs:
  assumes "ve_ok e" "b < 8"
  shows "runs (ve_isTooHot getFS b e) (\<lambda>(hot, e'). \<not> hot \<and> ve_keep e e')"
  using assms bank_isTooHot_runs[of "ve_bremap_table e" b getFS]
  by (auto simp: ve_isTooHot_def runs_simps ve_ok_def ve_keep_def bt_ok_def bt_same_def word_less_nat_alt elim!: runs_mono)

text \<open>Updates of one entry, seen through the index function.\<close>

abbreviation vt_like :: "'t vault_table \<Rightarrow> (nat \<Rightarrow> nat) \<Rightarrow> 't vault_table \<Rightarrow> bool" where
  "vt_like t r t' \<equiv> vt_wf t' \<and> vt_n_vaults t' = vt_n_vaults t \<and> vt_ridx t' = r"

lemma vt_wf_entry:
  fixes i :: u32
  assumes "vt_wf t" "unat i < unat (vt_n_vaults t)"
  shows "unat i < length (vt_arr t)" "ve_ok (vt_arr t ! unat i)" "ve_idx (vt_arr t ! unat i) = i"
    "ve_orig (vt_arr t ! unat i) \<longleftrightarrow> vt_ridx t (unat i) = unat i"
proof -
  show "unat i < length (vt_arr t)" "ve_ok (vt_arr t ! unat i)" using assms by (simp_all add: vt_wf_def)
  show idx: "ve_idx (vt_arr t ! unat i) = i" using assms by (simp add: vt_wf_def word_unat_eq_iff)
  show "ve_orig (vt_arr t ! unat i) \<longleftrightarrow> vt_ridx t (unat i) = unat i"
    using assms idx by (simp add: vt_wf_def vt_ridx_def ve_ok_def word_unat_eq_iff)
qed

lemma vt_upd:
  assumes "vt_wf t" "unat i < unat (vt_n_vaults t)" "ve_ok e" "ve_idx e = ve_idx (vt_arr t ! unat i)"
  shows "vt_like t ((vt_ridx t)(unat i := unat (ve_ridx e))) (t\<lparr>vt_arr := (vt_arr t)[unat i := e]\<rparr>)"
  using assms by (auto simp: vt_wf_def vt_ridx_def nth_list_update fun_eq_iff)

lemma ve_upd_keep:
  assumes "vt_wf t" "unat i < unat (vt_n_vaults t)"
    and "\<And>e. ve_ok e \<Longrightarrow> runs (f e) (ve_keep e)"
  shows "runs (ve_upd i f t) (vt_like t (vt_ridx t))"
proof -
  note e = vt_wf_entry(1,2)[OF assms(1,2)]
  have same: "(vt_ridx t)(unat i := unat (ve_ridx (vt_arr t ! unat i))) = vt_ridx t"
    by (simp add: fun_eq_iff vt_ridx_def)
  have "vt_like t (vt_ridx t) (t\<lparr>vt_arr := (vt_arr t)[unat i := e]\<rparr>)"
    if "ve_keep (vt_arr t ! unat i) e" for e
    using vt_upd[OF assms(1,2), of e] that same by (simp add: ve_keep_def)
  then show ?thesis
    using e by (auto simp: runs_ve_upd intro!: runs_mono[OF assms(3)])
qed

lemma ve_upd_remap:
  assumes "vt_wf t" "unat i < unat (vt_n_vaults t)"
  shows "runs (ve_upd i (ve_remapTo j) t) (vt_like t ((vt_ridx t)(unat i := unat j)))"
proof -
  note e = vt_wf_entry(1,2)[OF assms(1,2)]
  have "vt_like t ((vt_ridx t)(unat i := unat j)) (t\<lparr>vt_arr := (vt_arr t)[unat i := e]\<rparr>)"
    if "ve_ok e \<and> ve_idx e = ve_idx (vt_arr t ! unat i) \<and> ve_ridx e = j" for e
    using vt_upd[OF assms(1,2), of e] that by simp
  then show ?thesis
    using e ve_remapTo_runs[OF e(2), of j] by (auto simp: runs_simps elim!: runs_mono)
qed

lemma ve_setChangedBit_keep: "ve_ok e \<Longrightarrow> runs (Some (ve_setChangedBit c e)) (ve_keep e)"
  by (simp add: ve_setChangedBit_def ve_keep_def ve_ok_def)

interpretation vet: entry_table "\<lambda>i j. ve_upd i (ve_remapTo j)" vt_ridx "\<lambda>t. unat (vt_n_vaults t)" vt_wf
  by unfold_locales (auto elim!: runs_mono[OF ve_upd_remap])

lemma vault_swap_runs:
  assumes wf: "vt_wf t" and s: "unat src < unat (vt_n_vaults t)" and d: "unat des < unat (vt_n_vaults t)"
    and inv: "invol (unat (vt_n_vaults t)) (vt_ridx t)"
  shows "runs (vault_swap src des t) (vt_like t (swap_ridx (unat src) (unat des) (vt_ridx t)))"
proof -
  let ?r = "vt_ridx t"
  have keep: "runs (ve_upd i f t1) (vt_like t r)"
    if "vt_like t r t1" "unat i < unat (vt_n_vaults t)" "f = (\<lambda>e. Some (ve_setChangedBit True e)) \<or> f = ve_clearAccess" for i f r t1
  proof -
    have "runs (f e) (ve_keep e)" if "ve_ok e" for e
      using \<open>f = _ \<or> f = _\<close> ve_setChangedBit_keep[OF that, of True] ve_clearAccess_runs[OF that] by auto
    then show ?thesis using ve_upd_keep[of t1 i f] that by auto
  qed
  have reads: "unat src < length (vt_arr t0)" "unat des < length (vt_arr t0)"
    "ve_orig (vt_arr t0 ! unat src) \<longleftrightarrow> ?r (unat src) = unat src"
    "ve_orig (vt_arr t0 ! unat des) \<longleftrightarrow> ?r (unat des) = unat des"
    "unat (ve_ridx (vt_arr t0 ! unat src)) = ?r (unat src)"
    "unat (ve_ridx (vt_arr t0 ! unat des)) = ?r (unat des)"
    if "vt_like t ?r t0" for t0
    using that vt_wf_entry[of t0 src] vt_wf_entry[of t0 des] s d vt_ridx_def[of t0] by simp_all
  have like: "vet.like t r = vt_like t r" for r
    by (auto simp: fun_eq_iff vet.like_def word_unat_eq_iff)
  have rest: "runs (do {
       t1 \<leftarrow> ve_upd src (ve_remapTo des) t0;
       t1 \<leftarrow> (if \<not> ve_orig (vt_arr t0 ! unat src) then
               ve_upd (ve_ridx (vt_arr t0 ! unat src)) (ve_remapTo (ve_ridx (vt_arr t0 ! unat src))) t1 else Some t1);
       t1 \<leftarrow> (if \<not> ve_orig (vt_arr t0 ! unat des) then
               ve_upd (ve_ridx (vt_arr t0 ! unat des)) (ve_remapTo (ve_ridx (vt_arr t0 ! unat des))) t1 else Some t1);
       t1 \<leftarrow> ve_upd des (ve_remapTo src) t1;
       Some (t1\<lparr>vt_copy_times := vt_copy_times t1 + c\<rparr>) })
     (vt_like t (swap_ridx (unat src) (unat des) ?r))" if t0: "vt_like t ?r t0" for t0 c
  proof -
    have cp: "vt_wf (t1\<lparr>vt_copy_times := x\<rparr>) = vt_wf t1" "vt_ridx (t1\<lparr>vt_copy_times := x\<rparr>) = vt_ridx t1" for t1 x
      by (simp_all add: vt_wf_def vt_ridx_def fun_eq_iff)
    show ?thesis
      using vet.four_remaps[OF inv _ s d reads(3-6)[OF t0], of t0] t0
      unfolding like runs_bind runs_Some cp by simp
  qed
  show ?thesis
    unfolding vault_swap_def Let_def
    apply (subst runs_bind, rule runs_mono[OF keep], use wf s d in simp_all)
    apply (subst runs_bind, rule runs_mono[OF keep], use s d in simp_all)
    apply (subst runs_bind, rule runs_mono[OF keep], use s d in simp_all)
    apply (subst runs_bind, rule runs_mono[OF keep], use s d in simp_all)
    apply (subst runs_bind, subst runs_ve_at, rule conjI, simp add: reads)
    apply (subst runs_bind, subst runs_ve_at, rule conjI, simp add: reads)
    apply (rule rest, simp)
    done
qed

interpretation vsw: swap_table vault_swap vt_ridx "\<lambda>t. unat (vt_n_vaults t)" vt_wf
  by unfold_locales (auto elim!: runs_mono[OF vault_swap_runs])

subsection \<open>Sequences of operations\<close>

definition vt_same :: "'t vault_table \<Rightarrow> 't vault_table \<Rightarrow> bool" where
  "vt_same t t' \<longleftrightarrow> vt_like t (vt_ridx t) t'"

lemma vt_same_refl: "vt_wf t \<Longrightarrow> vt_same t t"
  by (simp add: vt_same_def)

lemma vt_same_trans: "vt_same t t' \<Longrightarrow> vt_same t' t'' \<Longrightarrow> vt_same t t''"
  by (simp add: vt_same_def)

lemma vt_same_wf: "vt_same t t' \<Longrightarrow> vt_wf t'" "vt_same t t' \<Longrightarrow> vt_n_vaults t' = vt_n_vaults t"
  by (simp_all add: vt_same_def)

lemma vt_same_ok: "vt_ok t \<Longrightarrow> vt_same t t' \<Longrightarrow> vt_ok t'"
  by (simp add: vt_same_def vt_ok_def)

lemma vt_same_times [simp]:
  "vt_same t (t'\<lparr>vt_last_time := x\<rparr>) = vt_same t t'" "vt_same t (t'\<lparr>vt_current_time := x\<rparr>) = vt_same t t'"
  by (simp_all add: vt_same_def vt_wf_def vt_ridx_def fun_eq_iff)

lemma ve_upd_same:
  assumes "vt_same t t1" "unat i < unat (vt_n_vaults t)"
    and "\<And>e. ve_ok e \<Longrightarrow> runs (f e) (ve_keep e)"
  shows "runs (ve_upd i f t1) (vt_same t)"
  using ve_upd_keep[of t1 i f] assms by (auto simp: vt_same_def elim!: runs_mono)

lemma vault_loop_same:
  assumes "vt_wf t" and "\<And>e. ve_ok e \<Longrightarrow> runs (f e) (ve_keep e)"
  shows "runs (foldM (\<lambda>i t. ve_upd i f t) (u32_range 0 (vt_n_vaults t)) t) (vt_same t)"
  by (rule foldM_runs)
     (use assms in \<open>auto simp: vt_same_refl set_u32_range intro!: ve_upd_same\<close>)

lemma vault_clearAllAccess_runs:
  assumes "vt_wf t"
  shows "runs (vault_clearAllAccess t) (vt_same t)"
  unfolding vault_clearAllAccess_def runs_bind
  by (rule runs_mono[OF vault_loop_same[OF assms ve_clearAccess_runs]]) auto

lemma vault_enableAllVault_runs:
  assumes "vt_wf t"
  shows "runs (vault_enableAllVault t) (vt_same t)"
  unfolding vault_enableAllVault_def by (rule vault_loop_same[OF assms ve_setChangedBit_keep])

lemma vault_setValid_runs:
  assumes "vt_wf t" "unat i < unat (vt_n_vaults t)"
  shows "runs (vault_setValid i t) (vt_same t)" "runs (vault_setInvalid i t) (vt_same t)"
  unfolding vault_setValid_def vault_setInvalid_def
  by (rule ve_upd_same[OF vt_same_refl[OF assms(1)] assms(2)], erule ve_setValidBit_runs)+

lemma vault_accessOnce_runs:
  assumes "vt_wf t" "unat i < unat (vt_n_vaults t)" "b < 8"
  shows "runs (vault_accessOnce i b a pkt t) (vt_same t)"
  unfolding vault_accessOnce_def Let_def
  by (rule ve_upd_same[OF _ assms(2) ve_accessOnce_runs[OF _ assms(3)]]) (simp add: vt_same_refl assms(1))

text \<open>The bank test never fires, so neither do the balancing of banks and the vault test.\<close>

lemma vault_isTooHot_runs:
  assumes wf: "vt_wf t" and i: "unat i < unat (vt_n_vaults t)" and b: "b < 8"
  shows "runs (vault_isTooHot getFS bank_temp i b t) (\<lambda>(hot, t'). \<not> hot \<and> vt_same t t')"
proof -
  note e = vt_wf_entry(1,2)[OF wf i]
  have put: "runs (ve_upd i (\<lambda>_. Some e') t) (vt_same t)" if "ve_keep (vt_arr t ! unat i) e'" for e'
  proof -
    have "(vt_ridx t)(unat i := unat (ve_ridx e')) = vt_ridx t"
      using that by (simp add: fun_eq_iff vt_ridx_def ve_keep_def)
    then show ?thesis
      using vt_upd[OF wf i, of e'] that e by (simp add: runs_ve_upd vt_same_def ve_keep_def)
  qed
  have len: "unat i < length (vt_arr t1)" if "vt_same t t1" for t1
    using that i by (simp add: vt_same_def vt_wf_def)
  have clear: "runs (vault_clearAllAccess t1) (vt_same t)" if "vt_same t t1" for t1
    using vault_clearAllAccess_runs[OF vt_same_wf(1)[OF that]] vt_same_trans[OF that]
    by (auto elim!: runs_mono)
  show ?thesis
    unfolding vault_isTooHot_def vault_getVaultIdx_def Let_def
    using e
    by (auto simp: runs_bind runs_ve_at
        intro!: runs_mono[OF ve_isTooHot_runs[OF e(2) b, of getFS]] runs_mono[OF put] len clear)
qed

lemma vault_swap_ok:
  assumes "vt_ok t" "unat src < unat (vt_n_vaults t)" "unat des < unat (vt_n_vaults t)"
    and "vt_ridx t (unat src) = unat des \<Longrightarrow> src = des"
  shows "runs (vault_swap src des t) (\<lambda>t'. vt_ok t' \<and> vt_n_vaults t' = vt_n_vaults t)"
  using vsw.swp_invol[of t src des] assms
  by (auto simp: vt_ok_def word_unat_eq_iff[of "vt_n_vaults _"] elim!: runs_mono)

lemma vault_search_runs:
  assumes "vt_ok t"
  shows "runs (foldM (vault_balance_step cntlr_temp x t) (u32_range 0 (vt_n_vaults t)) (100, 9999999))
    (\<lambda>(target, _). target = 100 \<or> unat target < unat (vt_n_vaults t))"
proof (rule foldM_runs)
  fix j and acc :: "u32 \<times> u32" assume j: "j \<in> set (u32_range 0 (vt_n_vaults t))"
    and I: "case acc of (target, _) \<Rightarrow> target = 100 \<or> unat target < unat (vt_n_vaults t)"
  have len: "length (vt_arr t) = unat (vt_n_vaults t)" using assms by (simp add: vt_ok_def vt_wf_def)
  have "unat (ve_ridx (vt_arr t ! unat j)) < unat (vt_n_vaults t)"
    using assms(1) j by (auto simp: vt_ok_def invol_def vt_ridx_def set_u32_range)
  then show "runs (vault_balance_step cntlr_temp x t j acc)
      (\<lambda>(target, _). target = 100 \<or> unat target < unat (vt_n_vaults t))"
    using I j
    by (cases acc) (auto simp: vault_balance_step_def runs_simps Let_def len set_u32_range)
qed simp

lemma vault_balanceVaults_runs:
  assumes ok: "vt_ok t" and i: "unat i < unat (vt_n_vaults t)"
  shows "runs (vault_balanceVaults cntlr_temp i t) (\<lambda>t'. vt_ok t' \<and> vt_n_vaults t' = vt_n_vaults t)"
proof -
  have wf: "vt_wf t" using ok by (simp add: vt_ok_def)
  have sw: "runs (vault_swap i target t) (\<lambda>t'. vt_ok t' \<and> vt_n_vaults t' = vt_n_vaults t)"
    if "unat target < unat (vt_n_vaults t)" "target \<noteq> ve_ridx (vt_arr t ! unat i)" for target
    by (rule vault_swap_ok) (use ok i that in \<open>auto simp: vt_ridx_def word_unat_eq_iff\<close>)
  have en: "runs (vault_enableAllVault t) (\<lambda>t'. vt_ok t' \<and> vt_n_vaults t' = vt_n_vaults t)"
    using vault_enableAllVault_runs[OF wf] vt_same_ok[OF ok] by (auto elim!: runs_mono dest: vt_same_wf)
  show ?thesis
    unfolding vault_balanceVaults_def
    using vt_wf_entry(1)[OF wf i] ok sw en
    by (auto simp: runs_simps Let_def intro!: runs_mono[OF vault_search_runs[OF ok]])
qed

lemma VaultRemappingStructure_ok: "vt_ok (VaultRemappingStructure t0 n)"
proof -
  have pos: "unat (u32_range 0 n ! i) = i" if "i < unat n" for i
    using that nth_map[of i "u32_range 0 n" unat] by (simp add: map_unat_u32_range)
  then show ?thesis
    using BankRemappingStructure_ok[of 8]
    by (auto simp: vt_ok_def vt_wf_def invol_def vt_ridx_def ve_ok_def VaultRemappingStructure_def
        VaultRemappingEntry_def BankRemappingStructure_def)
qed

datatype 't vt_event =
    VAccess u32 u32 access_t 't
  | VTooHot u32 u32
  | VSwap u32 u32
  | VBalance u32
  | VSetValid u32
  | VSetInvalid u32
  | VClear
  | VEnable

fun vt_step :: "('t::{zero, minus, linorder} \<Rightarrow> u64) \<Rightarrow> (u32 \<Rightarrow> u32 \<Rightarrow> real) \<Rightarrow> (u32 \<Rightarrow> real) \<Rightarrow> 't vt_event \<Rightarrow>
    't vault_table \<Rightarrow> 't vault_table option" where
  "vt_step getFS bank_temp cntlr_temp (VAccess v b a pkt) t = vault_accessOnce v b a pkt t"
| "vt_step getFS bank_temp cntlr_temp (VTooHot v b) t =
     do { (hot, t) \<leftarrow> vault_isTooHot getFS bank_temp v b t; Some t }"
| "vt_step getFS bank_temp cntlr_temp (VSwap src des) t = vault_swap src des t"
| "vt_step getFS bank_temp cntlr_temp (VBalance v) t = vault_balanceVaults cntlr_temp v t"
| "vt_step getFS bank_temp cntlr_temp (VSetValid v) t = vault_setValid v t"
| "vt_step getFS bank_temp cntlr_temp (VSetInvalid v) t = vault_setInvalid v t"
| "vt_step getFS bank_temp cntlr_temp VClear t = vault_clearAllAccess t"
| "vt_step getFS bank_temp cntlr_temp VEnable t = vault_enableAllVault t"

fun vt_event_ok :: "u32 \<Rightarrow> 't vt_event \<Rightarrow> bool" where
  "vt_event_ok nv (VAccess v b a pkt) \<longleftrightarrow> v < nv \<and> b < 8"
| "vt_event_ok nv (VTooHot v b) \<longleftrightarrow> v < nv \<and> b < 8"
| "vt_event_ok nv (VSwap src des) \<longleftrightarrow> src < nv \<and> des < nv"
| "vt_event_ok nv (VBalance v) \<longleftrightarrow> v < nv"
| "vt_event_ok nv (VSetValid v) \<longleftrightarrow> v < nv"
| "vt_event_ok nv (VSetInvalid v) \<longleftrightarrow> v < nv"
| "vt_event_ok nv VClear \<longleftrightarrow> True"
| "vt_event_ok nv VEnable \<longleftrightarrow> True"

text \<open>The one call that breaks the table: a swap of a vault with the vault it is exchanged with already.\<close>

fun swaps_partner :: "'t vt_event \<Rightarrow> 't vault_table \<Rightarrow> bool" where
  "swaps_partner (VSwap src des) t \<longleftrightarrow> src \<noteq> des \<and> ve_ridx (vt_arr t ! unat src) = des"
| "swaps_partner e t \<longleftrightarrow> False"

lemma vt_step_runs:
  assumes ok: "vt_ok t" and e: "vt_event_ok (vt_n_vaults t) e" and p: "\<not> swaps_partner e t"
  shows "runs (vt_step getFS bank_temp cntlr_temp e t) (\<lambda>t'. vt_ok t' \<and> vt_n_vaults t' = vt_n_vaults t)"
proof -
  have wf: "vt_wf t" using ok by (simp add: vt_ok_def)
  have same: "runs m (\<lambda>t'. vt_ok t' \<and> vt_n_vaults t' = vt_n_vaults t)" if "runs m (vt_same t)" for m
    using that vt_same_ok[OF ok] by (auto elim!: runs_mono dest: vt_same_wf)
  show ?thesis
  proof (cases e)
    case (VAccess v b a pkt)
    then show ?thesis
      using same[OF vault_accessOnce_runs[OF wf]] e by (simp add: word_less_nat_alt[of _ "vt_n_vaults t"])
  next
    case (VTooHot v b)
    then have "runs (vault_isTooHot getFS bank_temp v b t) (\<lambda>(hot, t'). \<not> hot \<and> vt_same t t')"
      using vault_isTooHot_runs[OF wf] e by (simp add: word_less_nat_alt[of _ "vt_n_vaults t"])
    then show ?thesis
      unfolding VTooHot vt_step.simps by (intro same) (auto simp: runs_bind elim!: runs_mono)
  next
    case (VSwap src des)
    then show ?thesis
      using vault_swap_ok[OF ok, of src des] e p by (auto simp: word_less_nat_alt vt_ridx_def word_unat_eq_iff)
  next
    case (VBalance v)
    then show ?thesis using vault_balanceVaults_runs[OF ok] e by (simp add: word_less_nat_alt)
  next
    case (VSetValid v)
    then show ?thesis using same[OF vault_setValid_runs(1)[OF wf]] e by (simp add: word_less_nat_alt)
  next
    case (VSetInvalid v)
    then show ?thesis using same[OF vault_setValid_runs(2)[OF wf]] e by (simp add: word_less_nat_alt)
  next
    case VClear
    then show ?thesis using same[OF vault_clearAllAccess_runs[OF wf]] by simp
  next
    case VEnable
    then show ?thesis using same[OF vault_enableAllVault_runs[OF wf]] by simp
  qed
qed

interpretation vts: served_until "vt_step getFS bank_temp cntlr_temp" "vt_event_ok nv"
  "\<lambda>t. vt_ok t \<and> vt_n_vaults t = nv" swaps_partner for getFS bank_temp cntlr_temp nv
  by unfold_locales (auto elim!: runs_mono[OF vt_step_runs])

text \<open>Swapping a vault with its current partner breaks the table. When the two vaults are already
  exchanged, \<^verbatim>\<open>swap\<close> leaves both of them pointing to the first one, so one physical vault is lost.\<close>

theorem vault_swap_partner_collides:
  assumes "vt_ok t" and "src < vt_n_vaults t" and "des < vt_n_vaults t"
    and "unat (ve_ridx (vt_arr t ! unat src)) = unat des" and "src \<noteq> des"
  shows "\<exists>t'. vault_swap src des t = Some t' \<and>
     unat (ve_ridx (vt_arr t' ! unat src)) = unat src \<and> unat (ve_ridx (vt_arr t' ! unat des)) = unat src"
  using vsw.swp_partner[of t src des] assms
  by (auto simp: vt_ok_def runs_iff vt_ridx_def word_less_nat_alt)

definition vt_permutation :: "u32 \<Rightarrow> 't vault_table \<Rightarrow> bool" where
  "vt_permutation nv t \<longleftrightarrow> (\<forall>i<unat nv. unat (ve_ridx (vt_arr t ! i)) < unat nv \<and>
     unat (ve_ridx (vt_arr t ! unat (ve_ridx (vt_arr t ! i)))) = i)"

text \<open>C32: The vault table stays a permutation of order two under every operation, but for one misuse of
  \<^verbatim>\<open>swap\<close>. Starting from the constructor, take any sequence of calls of the operations that change the table
  (accesses, heat checks, swaps, balancing runs, validity changes and resets) with indices in range. The
  calls return, and every logical vault points to a physical vault that points back to it (no two logical
  vaults share a physical one), up to the end of the sequence or up to the first call of \<^verbatim>\<open>swap\<close> for two vaults
  that are exchanged with each other at that moment. Such a call returns and does break the table: both
  logical vaults point to the first physical one afterwards.\<close>

theorem vault_table_permutation:
  assumes "\<forall>e\<in>set es. vt_event_ok nv e"
  shows "\<exists>k t. k \<le> length es \<and>
     foldM (vt_step getFS bank_temp cntlr_temp) (take k es) (VaultRemappingStructure t0 nv) = Some t \<and> vt_permutation nv t \<and>
     (k < length es \<longrightarrow> (\<exists>src des t'. es ! k = VSwap src des \<and> src \<noteq> des \<and> ve_ridx (vt_arr t ! unat src) = des \<and>
        vault_swap src des t = Some t' \<and> ve_ridx (vt_arr t' ! unat src) = src \<and> ve_ridx (vt_arr t' ! unat des) = src))"
proof -
  obtain k t where t: "k \<le> length es" "foldM (vt_step getFS bank_temp cntlr_temp) (take k es) (VaultRemappingStructure t0 nv) = Some t"
    "vt_ok t" "vt_n_vaults t = nv" "k < length es \<longrightarrow> swaps_partner (es ! k) t"
    using vts.serve_until[of "VaultRemappingStructure t0 nv" nv es getFS bank_temp cntlr_temp] VaultRemappingStructure_ok[of t0 nv] assms
    by (auto simp: VaultRemappingStructure_def)
  have "\<exists>src des t'. es ! k = VSwap src des \<and> src \<noteq> des \<and> ve_ridx (vt_arr t ! unat src) = des \<and>
      vault_swap src des t = Some t' \<and> ve_ridx (vt_arr t' ! unat src) = src \<and> ve_ridx (vt_arr t' ! unat des) = src" if k: "k < length es"
  proof -
    obtain src des where s: "es ! k = VSwap src des" "src \<noteq> des" "ve_ridx (vt_arr t ! unat src) = des"
      using t(5) k by (auto elim!: swaps_partner.elims)
    have "src < nv" "des < nv" using assms nth_mem[OF k] s(1) by auto
    then show ?thesis
      using s vault_swap_partner_collides[OF t(3), of src des] t(4) by (auto simp: word_less_nat_alt simp flip: word_unat_eq_iff)
  qed
  moreover have "vt_permutation nv t" using t(3,4) by (auto simp: vt_permutation_def vt_ok_def invol_def vt_ridx_def)
  ultimately show ?thesis using t(1,2) by blast
qed

theorem vault_table_permutation_witness:
  "\<exists>k t. k \<le> 4 \<and> foldM (vt_step (\<lambda>t :: nat. word_of_nat t) (\<lambda>_ _. 50) (\<lambda>_. 50))
        (take k [VAccess 0 3 WRITE 7, VSwap 0 2, VBalance 0, VTooHot 1 2]) (VaultRemappingStructure 0 4) = Some t \<and>
     vt_permutation 4 t"
proof -
  let ?es = "[VAccess 0 3 WRITE 7, VSwap 0 2, VBalance 0, VTooHot 1 2] :: nat vt_event list"
  have ok: "\<forall>e\<in>set ?es. vt_event_ok 4 e" and len: "length ?es = 4" by simp_all
  show ?thesis
    using vault_table_permutation[OF ok, of "\<lambda>t :: nat. word_of_nat t" "\<lambda>_ _. 50" "\<lambda>_. 50" 0]
    unfolding len by blast
qed

text \<open>The access-rate test never asks for a swap. On a well-formed table \<^verbatim>\<open>isTooHot\<close> answers false for
  every vault and bank, whatever the access counts, the elapsed time and the temperatures are, and it
  never moves a vault: the branch that would set the answer is guarded by a constant false test.\<close>

theorem vault_never_too_hot:
  assumes "vt_ok t" and "v < vt_n_vaults t" and "b < 8"
  shows "\<exists>t'. vault_isTooHot getFS bank_temp v b t = Some (False, t') \<and> vt_ridx t' = vt_ridx t"
  using vault_isTooHot_runs[of t v b getFS bank_temp] assms
  by (auto simp: vt_ok_def runs_iff vt_same_def word_less_nat_alt)

theorem vault_never_too_hot_witness:
  "\<exists>t'. vault_isTooHot (\<lambda>t :: nat. word_of_nat t) (\<lambda>_ _. 120) 1 5 (VaultRemappingStructure 0 2) = Some (False, t')"
  using vault_never_too_hot[of "VaultRemappingStructure (0 :: nat) 2" 1 5] VaultRemappingStructure_ok[of "0 :: nat" 2]
  by (fastforce simp: VaultRemappingStructure_def)

theorem vault_swap_partner_collides_witness:
  "\<exists>t t'. vault_swap 0 1 (VaultRemappingStructure (0 :: nat) 2) = Some t \<and> vault_swap 0 1 t = Some t' \<and>
     unat (ve_ridx (vt_arr t' ! 0)) = 0 \<and> unat (ve_ridx (vt_arr t' ! 1)) = 0"
proof -
  have ok: "vt_ok (VaultRemappingStructure (0 :: nat) 2)" by (rule VaultRemappingStructure_ok)
  have n: "vt_n_vaults (VaultRemappingStructure (0 :: nat) 2) = 2"
    and id: "vt_ridx (VaultRemappingStructure (0 :: nat) 2) 0 = 0"
    by (simp_all add: VaultRemappingStructure_def VaultRemappingEntry_def vt_ridx_def u32_range_def upt_rec)
  obtain t where t: "vault_swap 0 1 (VaultRemappingStructure (0 :: nat) 2) = Some t" "vt_wf t"
    "unat (vt_n_vaults t) = 2" "invol 2 (vt_ridx t)" "vt_ridx t 0 = 1"
    using vsw.swp_invol[of "VaultRemappingStructure (0 :: nat) 2" 0 1] ok n id
    by (auto simp: runs_iff vt_ok_def)
  then have "\<exists>t'. vault_swap 0 1 t = Some t' \<and> unat (ve_ridx (vt_arr t' ! 0)) = 0 \<and>
      unat (ve_ridx (vt_arr t' ! 1)) = 0"
    using vault_swap_partner_collides[of t 0 1] by (simp add: vt_ok_def vt_ridx_def word_less_nat_alt)
  then show ?thesis using t(1) by blast
qed


text \<open>The bit set of \<^verbatim>\<open>getBankValid\<close>.\<close>

lemma bit_or_push: "bit (res OR 2 ^ n :: int) k \<longleftrightarrow> bit res k \<or> k = n"
  by (auto simp: bit_or_iff bit_exp_iff)

lemma ve_getBankValid_runs:
  assumes "ve_ok e"
  shows "runs (ve_getBankValid e) (\<lambda>res. \<forall>k. bit res k \<longleftrightarrow>
     k = 8 \<or> k < 8 \<and> be_valid (bt_arr (ve_bremap_table e) ! k))"
proof -
  let ?a = "bt_arr (ve_bremap_table e)"
  let ?f = "\<lambda>i res. do { let tmp = push_bit (unat i) 1; v \<leftarrow> bank_isValid i (ve_bremap_table e);
       Some (if v then res OR tmp else res) }"
  have num: "ve_bank_num e = 8" "length ?a = 8"
    using assms by (auto simp: ve_ok_def bt_ok_def bt_wf_def)
  have "runs (foldM ?f (u32_range 0 8) (push_bit 8 (1 :: int)))
     (\<lambda>res. \<forall>k. bit res k \<longleftrightarrow> k = 8 \<or> k < unat (8 :: u32) \<and> be_valid (?a ! k))"
  proof (rule foldM_u32_range_runs)
    fix i :: u32 and res :: int
    assume i: "unat i < unat (8 :: u32)" and I: "\<forall>k. bit res k \<longleftrightarrow> k = 8 \<or> k < unat i \<and> be_valid (?a ! k)"
    then have "runs (?f i res) (\<lambda>res'. res' = (if be_valid (?a ! unat i) then res OR 2 ^ unat i else res))"
      using num by (simp add: bank_isValid_def runs_simps Let_def)
    then show "runs (?f i res) (\<lambda>res. \<forall>k. bit res k \<longleftrightarrow> k = 8 \<or> k < Suc (unat i) \<and> be_valid (?a ! k))"
      by (rule runs_mono) (use I in \<open>auto simp: bit_or_push less_Suc_eq\<close>)
  qed (use bit_or_push[of 0 8] in simp)
  then show ?thesis by (simp add: ve_getBankValid_def num)
qed

end
