(* ===== verification/Remapping.thy ===== *)
theory Remapping
  imports Sniper_Prelude
begin

section \<open>The bank remapping manager\<close>

text \<open>
  Model of \<^verbatim>\<open>performance_model/remapping.h\<close> and \<^verbatim>\<open>performance_model/remapping.cc\<close>: the
  per-bank status \<^verbatim>\<open>BankStat\<close> with its MEA counters, and the \<^verbatim>\<open>RemappingManager\<close> that
  disables hot banks or redirects them to cool ones.

  The vector of \<^verbatim>\<open>BankStat*\<close> is an explicit store (a list of records addressed by bank
  id), because the code holds several pointers into it at once (\<^verbatim>\<open>bank\<close>, \<^verbatim>\<open>target_bank\<close>,
  \<^verbatim>\<open>remap_bank\<close>). The \<^verbatim>\<open>[Error]\<close> and \<^verbatim>\<open>[Warning]\<close> lines that the code prints are appended to
  \<open>rm_out\<close>, so that their absence can be stated. Temperatures (\<^verbatim>\<open>double\<close>) are real numbers;
  they are only stored and compared. The counters \<^verbatim>\<open>hot_banks\<close>, \<^verbatim>\<open>cool_banks\<close> and
  \<^verbatim>\<open>remap_banks\<close> of \<^verbatim>\<open>runMechanism\<close> feed no live statement and are left out.
\<close>

subsection \<open>Bank status\<close>

record bank_stat =
  bs_bank_id :: u32
  bs_logical_id :: u32
  bs_physical_id :: u32
  bs_remap_id :: u32
  bs_valid :: bool
  bs_disabled :: bool
  bs_combined :: bool
  bs_valid_rows :: "u32 set"
  bs_mea_map :: "(u32, u32) omap"
  bs_n_migrate_row :: u32
  bs_remap_times :: int
  bs_disabled_times :: int
  bs_invalidate_times :: int

definition BankStat :: "u32 \<Rightarrow> bank_stat" where
  "BankStat i =
     \<lparr>bs_bank_id = i, bs_logical_id = i, bs_physical_id = i, bs_remap_id = i,
      bs_valid = True, bs_disabled = False, bs_combined = False,
      bs_valid_rows = {}, bs_mea_map = [], bs_n_migrate_row = 10,
      bs_remap_times = 0, bs_disabled_times = 0, bs_invalidate_times = 0\<rparr>"

text \<open>
  \<^verbatim>\<open>BankStat::accessRow\<close>: the MEA (majority element) counters of the most accessed rows.
  When the table is full every counter is decremented and the ones that reach zero are
  erased.
\<close>

definition mea_decrement :: "(u32, u32) omap \<Rightarrow> (u32, u32) omap" where
  "mea_decrement mea =
     (let dec = map (\<lambda>(k, c). (k, c - 1)) mea;
          deleted_keys = map fst (filter (\<lambda>(k, c). c = 0) dec)
      in fold omap_erase deleted_keys dec)"

definition BankStat_accessRow :: "u32 \<Rightarrow> bank_stat \<Rightarrow> bank_stat" where
  "BankStat_accessRow row_id b =
     (let mea = bs_mea_map b in
      case map_of mea row_id of
        Some c \<Rightarrow> b\<lparr>bs_mea_map := omap_put row_id (c + 1) mea\<rparr>
      | None \<Rightarrow>
          if length mea < unat (bs_n_migrate_row b)
          then b\<lparr>bs_mea_map := omap_put row_id 1 mea\<rparr>
          else b\<lparr>bs_mea_map := mea_decrement mea\<rparr>)"

definition BankStat_remapTo :: "u32 \<Rightarrow> bool \<Rightarrow> bank_stat \<Rightarrow> bank_stat" where
  "BankStat_remapTo phy_bank_id disabled b =
     b\<lparr>bs_physical_id := phy_bank_id, bs_valid := False, bs_disabled := disabled,
       bs_invalidate_times := bs_invalidate_times b + 1,
       bs_remap_times := bs_remap_times b + 1,
       bs_disabled_times := bs_disabled_times b + (if disabled then 1 else 0)\<rparr>"

definition BankStat_migrateRow :: "u32 \<Rightarrow> bank_stat \<Rightarrow> bank_stat \<times> string list" where
  "BankStat_migrateRow row_id b =
     (b\<lparr>bs_valid_rows := insert row_id (bs_valid_rows b)\<rparr>,
      if row_id \<in> bs_valid_rows b then [''[Warning] Migrate a chosen row!''] else [])"

definition setValid :: "bool \<Rightarrow> bank_stat \<Rightarrow> bank_stat" where
  "setValid valid b = b\<lparr>bs_valid := valid\<rparr>"

definition setDisabled :: "bool \<Rightarrow> bank_stat \<Rightarrow> bank_stat" where
  "setDisabled disabled b = b\<lparr>bs_disabled := disabled\<rparr>"

definition setId :: "u32 \<Rightarrow> u32 \<Rightarrow> bank_stat \<Rightarrow> bank_stat" where
  "setId log_id phy_id b = b\<lparr>bs_logical_id := log_id, bs_physical_id := phy_id\<rparr>"

definition finishRemapping :: "bank_stat \<Rightarrow> bank_stat" where
  "finishRemapping b = b\<lparr>bs_valid_rows := {}\<rparr>"

subsection \<open>The manager\<close>

record phy_bank =
  pb_logical_bank :: u32
  pb_temperature :: real
  pb_valid :: bool
  pb_hot_access :: int
  pb_cool_access :: int
  pb_remap_access :: int

record remap_manager =
  rm_n_vaults :: u32
  rm_n_banks :: u32
  rm_n_rows :: u32
  rm_tot_banks :: u32
  rm_inter_vault :: bool
  rm_n_remap :: u32
  rm_high_thres :: u32
  rm_dangerous_thres :: u32
  rm_remap_thres :: u32
  rm_init_temp :: u32
  rm_remap_times :: int
  rm_disable_times :: int
  rm_double_disable_times :: int
  rm_recovery_times :: int
  rm_phy_banks :: "phy_bank list"
  rm_bank_stat :: "bank_stat list"
  rm_out :: "string list"

text \<open>
  The constructor reads the geometry of the performance model. The four thresholds are
  not initialised before \<^verbatim>\<open>setRemapConfig\<close>; their indeterminate values are the argument
  \<open>uninit\<close>.
\<close>

definition PhyBank_init :: "u32 \<Rightarrow> phy_bank" where
  "PhyBank_init i = \<lparr>pb_logical_bank = i, pb_temperature = 0, pb_valid = True,
     pb_hot_access = 0, pb_cool_access = 0, pb_remap_access = 0\<rparr>"

definition RemappingManager :: "u32 \<times> u32 \<times> u32 \<times> u32 \<Rightarrow> u32 \<Rightarrow> u32 \<Rightarrow> u32 \<Rightarrow> remap_manager" where
  "RemappingManager uninit n_vaults n_banks n_rows =
     (let tot_banks = n_vaults * n_banks; (ht, dt, rt, it) = uninit in
      \<lparr>rm_n_vaults = n_vaults, rm_n_banks = n_banks, rm_n_rows = n_rows,
       rm_tot_banks = tot_banks, rm_inter_vault = False, rm_n_remap = 0,
       rm_high_thres = ht, rm_dangerous_thres = dt, rm_remap_thres = rt, rm_init_temp = it,
       rm_remap_times = 0, rm_disable_times = 0, rm_double_disable_times = 0,
       rm_recovery_times = 0,
       rm_phy_banks = map PhyBank_init (u32_range 0 tot_banks),
       rm_bank_stat = map BankStat (u32_range 0 tot_banks),
       rm_out = []\<rparr>)"

definition setRemapConfig ::
  "u32 \<Rightarrow> bool \<Rightarrow> u32 \<Rightarrow> u32 \<Rightarrow> u32 \<Rightarrow> u32 \<Rightarrow> remap_manager \<Rightarrow> remap_manager" where
  "setRemapConfig n_remap inter_vault high_thres dangerous_thres remap_thres init_temp m =
     m\<lparr>rm_n_remap := n_remap, rm_inter_vault := inter_vault, rm_high_thres := high_thres,
       rm_dangerous_thres := dangerous_thres, rm_remap_thres := remap_thres,
       rm_init_temp := init_temp\<rparr>"

text \<open>Access to the two vectors, and the diagnostic output.\<close>

definition bank_at :: "u32 \<Rightarrow> remap_manager \<Rightarrow> bank_stat option" where
  "bank_at i m = fetch (rm_bank_stat m) i"

definition bank_upd :: "u32 \<Rightarrow> (bank_stat \<Rightarrow> bank_stat) \<Rightarrow> remap_manager \<Rightarrow> remap_manager option" where
  "bank_upd i f m = do {
     b \<leftarrow> fetch (rm_bank_stat m) i;
     bs \<leftarrow> store (rm_bank_stat m) i (f b);
     Some (m\<lparr>rm_bank_stat := bs\<rparr>)
   }"

definition phy_at :: "u32 \<Rightarrow> remap_manager \<Rightarrow> phy_bank option" where
  "phy_at i m = fetch (rm_phy_banks m) i"

definition phy_upd :: "u32 \<Rightarrow> (phy_bank \<Rightarrow> phy_bank) \<Rightarrow> remap_manager \<Rightarrow> remap_manager option" where
  "phy_upd i f m = do {
     p \<leftarrow> fetch (rm_phy_banks m) i;
     ps \<leftarrow> store (rm_phy_banks m) i (f p);
     Some (m\<lparr>rm_phy_banks := ps\<rparr>)
   }"

definition say_if :: "bool \<Rightarrow> string \<Rightarrow> remap_manager \<Rightarrow> remap_manager" where
  "say_if c msg m = (if c then m\<lparr>rm_out := rm_out m @ [msg]\<rparr> else m)"

text \<open>
  \<^verbatim>\<open>BankStat::combineWith\<close> changes the bank and its target, so it works on the store: bank
  \<open>this\<close> gets the logical id of bank \<open>target\<close>, which remembers the bank it serves.
\<close>

definition combineWith :: "u32 \<Rightarrow> u32 \<Rightarrow> remap_manager \<Rightarrow> remap_manager option" where
  "combineWith this target m = do {
     target_bank \<leftarrow> bank_at target m;
     m \<leftarrow> bank_upd this (\<lambda>b. b\<lparr>bs_logical_id := bs_logical_id target_bank, bs_valid := False,
                                bs_disabled := False, bs_combined := True\<rparr>) m;
     target_bank \<leftarrow> bank_at target m;
     let m = say_if (bs_combined target_bank) ''[Error] Combine with a already combined bank!'' m;
     let m = say_if (bs_remap_id target_bank \<noteq> bs_physical_id target_bank)
               (''[Error] The bank'' @ [CHR 0x27] @ ''s remap_id has been set!'') m;
     this_bank \<leftarrow> bank_at this m;
     m \<leftarrow> bank_upd target (\<lambda>b. b\<lparr>bs_combined := True, bs_remap_id := bs_physical_id this_bank\<rparr>) m;
     bank_upd this (\<lambda>b. b\<lparr>bs_invalidate_times := bs_invalidate_times b + 1\<rparr>) m
   }"

definition getBankId :: "remap_manager \<Rightarrow> u32 \<Rightarrow> u32 \<Rightarrow> u32" where
  "getBankId m v b = v * rm_n_banks m + b"

definition updateTemperature :: "u32 \<Rightarrow> u32 \<Rightarrow> real \<Rightarrow> remap_manager \<Rightarrow> remap_manager option" where
  "updateTemperature v b temp m =
     phy_upd (getBankId m v b) (\<lambda>p. p\<lparr>pb_temperature := temp\<rparr>) m"

definition resetBank :: "u32 \<Rightarrow> remap_manager \<Rightarrow> remap_manager option" where
  "resetBank bank_id m = do {
     bank \<leftarrow> bank_at bank_id m;
     let phy_bank = bs_physical_id bank;
     let log_bank = bs_logical_id bank;
     let remap_bank = bs_remap_id bank;
     m \<leftarrow> phy_upd phy_bank (\<lambda>p. p\<lparr>pb_valid := True\<rparr>) m;
     if rm_n_remap m = 0 then bank_upd bank_id (setDisabled False) m
     else if rm_n_remap m = 1 then do {
       m \<leftarrow> bank_upd bank_id (setId bank_id bank_id) m;
       m \<leftarrow> bank_upd bank_id (setDisabled False) m;
       if bank_id \<noteq> log_bank then do {
         m \<leftarrow> bank_upd bank_id (\<lambda>b. b\<lparr>bs_combined := False\<rparr>) m;
         m \<leftarrow> bank_upd log_bank (\<lambda>b. b\<lparr>bs_combined := False\<rparr>) m;
         target_bank \<leftarrow> bank_at log_bank m;
         let m = say_if (bs_remap_id target_bank \<noteq> bank_id)
                   ''[Error] This bank is not combined with current bank!'' m;
         bank_upd log_bank (\<lambda>b. b\<lparr>bs_remap_id := bs_physical_id b\<rparr>) m
       }
       else if remap_bank \<noteq> bank_id then bank_upd remap_bank (setDisabled False) m
       else Some m
     }
     else if rm_n_remap m = 2 then bank_upd bank_id (setDisabled False) m
     else Some (say_if True ''[Error] unrecognized remap policy!'' m)
   }"

definition resetStats :: "bool \<Rightarrow> remap_manager \<Rightarrow> remap_manager option" where
  "resetStats reset m =
     foldM (\<lambda>bank_id m. do {
         bank \<leftarrow> bank_at bank_id m;
         let phy_id = bs_physical_id bank;
         m \<leftarrow> bank_upd bank_id (setValid True) m;
         m \<leftarrow> bank_upd bank_id finishRemapping m;
         p \<leftarrow> phy_at phy_id m;
         if reset \<and> pb_temperature p < real (unat (rm_high_thres m)) then resetBank bank_id m
         else Some m
       }) (u32_range 0 (rm_tot_banks m)) m"

definition checkMigrated :: "remap_manager \<Rightarrow> u32 \<Rightarrow> u32 \<Rightarrow> u32 \<Rightarrow> bool option" where
  "checkMigrated m v b r = do {
     bank \<leftarrow> bank_at (getBankId m v b) m;
     if bs_valid bank then Some False else Some (r \<in> bs_valid_rows bank)
   }"

definition checkValid :: "remap_manager \<Rightarrow> u32 \<Rightarrow> u32 \<Rightarrow> u32 \<Rightarrow> bool option" where
  "checkValid m v b r = do {
     bank \<leftarrow> bank_at (getBankId m v b) m;
     Some (bs_valid bank)
   }"

definition checkDisabled :: "remap_manager \<Rightarrow> u32 \<Rightarrow> u32 \<Rightarrow> u32 \<Rightarrow> bool option" where
  "checkDisabled m v b r = do {
     bank \<leftarrow> bank_at (getBankId m v b) m;
     Some (bs_disabled bank)
   }"

text \<open>
  \<^verbatim>\<open>RemappingManager::accessRow\<close>; \<open>remapped\<close> is the flag of the same name of the
  performance model.
\<close>

definition accessRow :: "bool \<Rightarrow> u32 \<Rightarrow> u32 \<Rightarrow> u32 \<Rightarrow> remap_manager \<Rightarrow> remap_manager option" where
  "accessRow remapped v b r m = do {
     let bank_id = getBankId m v b;
     bank \<leftarrow> bank_at bank_id m;
     let phy_bank = bs_physical_id bank;
     p \<leftarrow> phy_at phy_bank m;
     m \<leftarrow> (if \<not> remapped then
             (if pb_temperature p \<ge> real (unat (rm_high_thres m))
              then phy_upd phy_bank (\<lambda>p. p\<lparr>pb_hot_access := pb_hot_access p + 1\<rparr>) m
              else phy_upd phy_bank (\<lambda>p. p\<lparr>pb_cool_access := pb_cool_access p + 1\<rparr>) m)
           else
             (if pb_temperature p \<ge> real (unat (rm_high_thres m))
              then phy_upd phy_bank (\<lambda>p. p\<lparr>pb_remap_access := pb_remap_access p + 1\<rparr>) m
              else phy_upd phy_bank (\<lambda>p. p\<lparr>pb_cool_access := pb_cool_access p + 1\<rparr>) m));
     bank_upd bank_id (BankStat_accessRow r) m
   }"

subsection \<open>The thermal management mechanism\<close>

text \<open>Policy 0 of \<^verbatim>\<open>runMechanism\<close>: disable hot banks, enable them again once they are cool.\<close>

definition disable_bank :: "u32 \<Rightarrow> u32 \<Rightarrow> remap_manager \<Rightarrow> remap_manager option" where
  "disable_bank bank_id physical_bank m = do {
     m \<leftarrow> bank_upd bank_id (setDisabled True) m;
     m \<leftarrow> bank_upd bank_id (setValid False) m;
     phy_upd physical_bank (\<lambda>p. p\<lparr>pb_valid := False\<rparr>) m
   }"

definition run_policy0 :: "u32 \<Rightarrow> u32 \<Rightarrow> real \<Rightarrow> remap_manager \<Rightarrow> remap_manager option" where
  "run_policy0 bank_id physical_bank bank_temp m = do {
     bank \<leftarrow> bank_at bank_id m;
     m \<leftarrow> (if bank_temp < real (unat (rm_remap_thres m)) \<and> bs_disabled bank
           then resetBank bank_id (m\<lparr>rm_recovery_times := rm_recovery_times m + 1\<rparr>)
           else Some m);
     bank \<leftarrow> bank_at bank_id m;
     if bank_temp \<ge> real (unat (rm_high_thres m)) \<and> \<not> bs_disabled bank
     then disable_bank bank_id physical_bank (m\<lparr>rm_disable_times := rm_disable_times m + 1\<rparr>)
     else Some m
   }"

text \<open>
  Policy 1: the search for the coolest bank that is neither combined nor disabled, with
  the index range as the code computes it.
\<close>

definition search_range :: "u32 \<Rightarrow> remap_manager \<Rightarrow> u32 \<times> u32" where
  "search_range bank_id m =
     (if rm_inter_vault m then (0, rm_tot_banks m)
      else (let vault_id = bank_id div rm_n_banks m in (vault_id, vault_id + rm_n_banks m)))"

definition search_step :: "remap_manager \<Rightarrow> u32 \<Rightarrow> u32 \<times> real \<Rightarrow> (u32 \<times> real) option" where
  "search_step m j acc = do {
     let (target, min_temp) = acc;
     p \<leftarrow> phy_at j m;
     let log_bank = pb_logical_bank p;
     b \<leftarrow> bank_at log_bank m;
     if bs_combined b \<or> bs_disabled b then Some (target, min_temp)
     else if pb_temperature p < real (unat (rm_remap_thres m)) then
       (if pb_temperature p < min_temp then Some (log_bank, pb_temperature p)
        else Some (target, min_temp))
     else Some (target, min_temp)
   }"

definition search_target :: "u32 \<Rightarrow> remap_manager \<Rightarrow> u32 option" where
  "search_target bank_id m = do {
     guard (rm_n_banks m \<noteq> 0);
     let (begin_i, end_i) = search_range bank_id m;
     (target, min_temp) \<leftarrow> foldM (search_step m) (u32_range begin_i end_i) (bank_id, 1000);
     Some target
   }"

text \<open>The first hot step: try to combine with a cool bank; the result says whether it did.\<close>

definition try_combine :: "u32 \<Rightarrow> real \<Rightarrow> remap_manager \<Rightarrow> (bool \<times> remap_manager) option" where
  "try_combine bank_id bank_temp m = do {
     bank \<leftarrow> bank_at bank_id m;
     if bank_temp \<ge> real (unat (rm_high_thres m)) \<and> \<not> bs_combined bank \<and> \<not> bs_disabled bank
     then do {
       target \<leftarrow> search_target bank_id m;
       if target = bank_id then Some (False, m)
       else do {
         let m = m\<lparr>rm_remap_times := rm_remap_times m + 1\<rparr>;
         m \<leftarrow> combineWith bank_id target m;
         m \<leftarrow> phy_upd target (\<lambda>p. p\<lparr>pb_valid := False\<rparr>) m;
         Some (True, m)
       }
     }
     else Some (False, m)
   }"

text \<open>The second hot step: disable a bank that could not be combined.\<close>

definition disable_hot :: "u32 \<Rightarrow> u32 \<Rightarrow> u32 \<Rightarrow> real \<Rightarrow> bool \<Rightarrow> remap_manager \<Rightarrow> remap_manager option" where
  "disable_hot bank_id physical_bank logical_bank bank_temp flag m = do {
     bank \<leftarrow> bank_at bank_id m;
     if bank_temp \<ge> real (unat (rm_high_thres m)) \<and> \<not> flag then
       (if \<not> bs_disabled bank then
          (if bs_combined bank then
             (if logical_bank = physical_bank then do {
                let m = m\<lparr>rm_double_disable_times := rm_double_disable_times m + 1\<rparr>;
                m \<leftarrow> bank_upd (bs_remap_id bank) (setDisabled True) m;
                disable_bank bank_id physical_bank m
              }
              else Some m)
           else disable_bank bank_id physical_bank
                  (m\<lparr>rm_disable_times := rm_disable_times m + 1\<rparr>))
        else Some m)
     else Some m
   }"

definition run_policy1 :: "u32 \<Rightarrow> u32 \<Rightarrow> u32 \<Rightarrow> real \<Rightarrow> remap_manager \<Rightarrow> remap_manager option" where
  "run_policy1 bank_id physical_bank logical_bank bank_temp m = do {
     bank \<leftarrow> bank_at bank_id m;
     m \<leftarrow> (if bank_temp < real (unat (rm_remap_thres m)) \<and>
              (logical_bank \<noteq> bank_id \<or> bs_disabled bank)
           then resetBank bank_id (m\<lparr>rm_recovery_times := rm_recovery_times m + 1\<rparr>)
           else Some m);
     (flag, m) \<leftarrow> try_combine bank_id bank_temp m;
     disable_hot bank_id physical_bank logical_bank bank_temp flag m
   }"

definition run_bank :: "u32 \<Rightarrow> remap_manager \<Rightarrow> remap_manager option" where
  "run_bank bank_id m = do {
     bank \<leftarrow> bank_at bank_id m;
     let physical_bank = bs_physical_id bank;
     let logical_bank = bs_logical_id bank;
     p \<leftarrow> phy_at physical_bank m;
     let bank_temp = pb_temperature p;
     if rm_n_remap m = 0 then run_policy0 bank_id physical_bank bank_temp m
     else if rm_n_remap m = 1 then run_policy1 bank_id physical_bank logical_bank bank_temp m
     else if rm_n_remap m = 2 then Some m
     else Some (say_if True ''[Error] unrecognized policy!'' m)
   }"

definition runMechanism :: "remap_manager \<Rightarrow> remap_manager option" where
  "runMechanism m = foldM run_bank (u32_range 0 (rm_tot_banks m)) m"

subsection \<open>Index arithmetic\<close>

definition splitId :: "remap_manager \<Rightarrow> u32 \<Rightarrow> (u32 \<times> u32 \<times> u32) option" where
  "splitId m idx = do {
     guard (rm_n_rows m \<noteq> 0 \<and> rm_n_banks m \<noteq> 0);
     let r = idx mod rm_n_rows m;
     let tmp = idx div rm_n_rows m;
     Some (tmp div rm_n_banks m, tmp mod rm_n_banks m, r)
   }"

definition getPhysicalIndex :: "remap_manager \<Rightarrow> u32 \<times> u32 \<times> u32 \<Rightarrow> (u32 \<times> u32 \<times> u32) option" where
  "getPhysicalIndex m idx = do {
     let (v, b, r) = idx;
     bank \<leftarrow> bank_at (getBankId m v b) m;
     splitId m (bs_physical_id bank)
   }"

definition getLogicalIndex :: "remap_manager \<Rightarrow> u32 \<times> u32 \<times> u32 \<Rightarrow> (u32 \<times> u32 \<times> u32) option" where
  "getLogicalIndex m idx = do {
     let (v, b, r) = idx;
     bank \<leftarrow> bank_at (getBankId m v b) m;
     splitId m (bs_logical_id bank * rm_n_rows m + r)
   }"

end
