(* ===== verification/Remapping_Inv.thy ===== *)
theory Remapping_Inv
  imports Remapping
begin

section \<open>Invariants and thermal safety of the remapping manager\<close>

text \<open>
  The manager is viewed as a \<^emph>\<open>pairing\<close> of banks: a hot bank is redirected to a cool one,
  which remembers it. The abstract operations on pairings keep \<open>pr_ok\<close>; the operations of
  the manager refine them, return on every well-formed manager, print no diagnostic, and
  after a run of the mechanism no enabled bank is served by a hot one.
\<close>

subsection \<open>Pairings of banks\<close>

record pairing =
  pr_log :: "nat \<Rightarrow> nat"
  pr_rmp :: "nat \<Rightarrow> nat"
  pr_cmb :: "nat \<Rightarrow> bool"
  pr_dis :: "nat \<Rightarrow> bool"

definition pr_at :: "nat \<Rightarrow> pairing \<Rightarrow> nat \<Rightarrow> bool" where
  "pr_at n p i \<longleftrightarrow>
     pr_log p i < n \<and> pr_rmp p i < n \<and>
     (pr_cmb p i \<longleftrightarrow> pr_log p i \<noteq> i \<or> pr_rmp p i \<noteq> i) \<and>
     (pr_log p i \<noteq> i \<longrightarrow>
        pr_log p (pr_log p i) = pr_log p i \<and> pr_rmp p (pr_log p i) = i \<and> pr_rmp p i = i \<and>
        pr_dis p (pr_log p i) = pr_dis p i) \<and>
     (pr_rmp p i \<noteq> i \<longrightarrow> pr_log p i = i \<and> pr_log p (pr_rmp p i) = i)"

definition pr_ok :: "nat \<Rightarrow> pairing \<Rightarrow> bool" where
  "pr_ok n p \<longleftrightarrow> (\<forall>i<n. pr_at n p i)"

definition pr_combine :: "nat \<Rightarrow> nat \<Rightarrow> pairing \<Rightarrow> pairing" where
  "pr_combine s t p =
     p\<lparr>pr_log := (pr_log p)(s := t), pr_rmp := (pr_rmp p)(t := s),
       pr_cmb := (pr_cmb p)(s := True, t := True), pr_dis := (pr_dis p)(s := False)\<rparr>"

definition pr_reset :: "nat \<Rightarrow> pairing \<Rightarrow> pairing" where
  "pr_reset b p =
     (let t = pr_log p b; r = pr_rmp p b in
      if t \<noteq> b then
        p\<lparr>pr_log := (pr_log p)(b := b), pr_rmp := (pr_rmp p)(t := t),
          pr_cmb := (pr_cmb p)(b := False, t := False), pr_dis := (pr_dis p)(b := False)\<rparr>
      else p\<lparr>pr_dis := (pr_dis p)(b := False, r := False)\<rparr>)"

definition pr_disable :: "nat \<Rightarrow> pairing \<Rightarrow> pairing" where
  "pr_disable b p = p\<lparr>pr_dis := (pr_dis p)(b := True, pr_rmp p b := True)\<rparr>"

lemma pr_okD: "pr_ok n p \<Longrightarrow> i < n \<Longrightarrow> pr_at n p i"
  by (simp add: pr_ok_def)

text \<open>Each operation is checked at one bank, with the facts about the banks it is tied to.\<close>

lemma pr_ok_combine:
  assumes ok: "pr_ok n p" and st: "s < n" "t < n" "s \<noteq> t" "\<not> pr_cmb p s" "\<not> pr_cmb p t"
    "\<not> pr_dis p s" "\<not> pr_dis p t"
  shows "pr_ok n (pr_combine s t p)"
  unfolding pr_ok_def
proof (intro allI impI)
  fix i assume i: "i < n"
  have at: "pr_at n p i" "pr_at n p s" "pr_at n p t"
    using ok i st by (auto dest: pr_okD)
  consider "i = s" | "i = t" | "i \<noteq> s" "i \<noteq> t" by blast
  then show "pr_at n (pr_combine s t p) i"
  proof cases
    case 1
    then show ?thesis using at st by (simp add: pr_at_def pr_combine_def)
  next
    case 2
    then show ?thesis using at st by (simp add: pr_at_def pr_combine_def)
  next
    case 3
    then have "pr_log p i \<noteq> s \<and> pr_log p i \<noteq> t \<and> pr_rmp p i \<noteq> s \<and> pr_rmp p i \<noteq> t"
      using at st unfolding pr_at_def by metis
    with 3 show ?thesis using at(1) by (simp add: pr_at_def pr_combine_def)
  qed
qed

text \<open>A bank that serves itself is the target of the bank it remembers, and of no other.\<close>

lemma pr_partner:
  assumes ok: "pr_ok n p" and "i < n" "b < n" "pr_log p b = b" "pr_log p i \<noteq> i"
  shows "pr_log p i = b \<longleftrightarrow> i = pr_rmp p b" "pr_log p i = pr_rmp p b \<Longrightarrow> pr_rmp p b = b"
proof -
  have at: "pr_at n p i" "pr_at n p b"
    using assms by (auto dest: pr_okD)
  then have at': "pr_at n p (pr_rmp p b)"
    using ok by (auto simp: pr_at_def[of _ _ b] intro: pr_okD)
  show "pr_log p i = b \<longleftrightarrow> i = pr_rmp p b"
    using at at' assms(4,5) unfolding pr_at_def by metis
  show "pr_log p i = pr_rmp p b \<Longrightarrow> pr_rmp p b = b"
    using at at' assms(4,5) unfolding pr_at_def by metis
qed

lemma pr_ok_set_pair:
  assumes ok: "pr_ok n p" and b: "b < n" "pr_log p b = b"
  shows "pr_ok n (p\<lparr>pr_dis := (pr_dis p)(b := d, pr_rmp p b := d)\<rparr>)"
  unfolding pr_ok_def
proof (intro allI impI)
  fix i assume i: "i < n"
  have at: "pr_at n p i"
    using ok i by (rule pr_okD)
  show "pr_at n (p\<lparr>pr_dis := (pr_dis p)(b := d, pr_rmp p b := d)\<rparr>) i"
  proof (cases "pr_log p i = i")
    case True
    then show ?thesis using at by (simp add: pr_at_def)
  next
    case False
    then show ?thesis using at pr_partner[OF ok i b False] by (auto simp: pr_at_def)
  qed
qed

lemma pr_ok_disable:
  assumes "pr_ok n p" "b < n" "pr_log p b = b"
  shows "pr_ok n (pr_disable b p)"
  unfolding pr_disable_def using assms by (rule pr_ok_set_pair)

lemma pr_ok_reset:
  assumes ok: "pr_ok n p" and b: "b < n"
  shows "pr_ok n (pr_reset b p)"
proof (cases "pr_log p b = b")
  case True
  then show ?thesis using pr_ok_set_pair[OF ok b True] by (simp add: pr_reset_def)
next
  case False
  let ?t = "pr_log p b"
  have at_b: "pr_at n p b" and at_t: "pr_at n p ?t"
    using ok b pr_okD[OF ok b] by (auto simp: pr_at_def[of _ _ b] intro: pr_okD)
  have t: "pr_log p ?t = ?t" "pr_rmp p ?t = b" "pr_rmp p b = b" "b \<noteq> ?t" "?t < n"
    using at_b False by (simp_all add: pr_at_def)
  show ?thesis
    unfolding pr_ok_def
  proof (intro allI impI)
    fix i assume i: "i < n"
    have at: "pr_at n p i"
      using ok i by (rule pr_okD)
    consider "i = b" | "i = ?t" | "i \<noteq> b" "i \<noteq> ?t" by blast
    then show "pr_at n (pr_reset b p) i"
    proof cases
      case 1
      then show ?thesis using at t b False by (simp add: pr_at_def pr_reset_def Let_def)
    next
      case 2
      then show ?thesis using at at_t t False by (simp add: pr_at_def pr_reset_def Let_def)
    next
      case 3
      then have "pr_log p i \<noteq> b" "pr_log p i \<noteq> ?t" "pr_rmp p i \<noteq> b" "pr_rmp p i \<noteq> ?t"
        using at t by (auto simp: pr_at_def)
      with 3 show ?thesis using at t by (simp add: pr_at_def pr_reset_def Let_def)
    qed
  qed
qed

subsection \<open>The manager as a pairing\<close>

definition pairing_of :: "remap_manager \<Rightarrow> pairing" where
  "pairing_of m =
     \<lparr>pr_log = (\<lambda>i. unat (bs_logical_id (rm_bank_stat m ! i))),
      pr_rmp = (\<lambda>i. unat (bs_remap_id (rm_bank_stat m ! i))),
      pr_cmb = (\<lambda>i. bs_combined (rm_bank_stat m ! i)),
      pr_dis = (\<lambda>i. bs_disabled (rm_bank_stat m ! i))\<rparr>"

definition temp_of :: "remap_manager \<Rightarrow> nat \<Rightarrow> real" where
  "temp_of m i = pb_temperature (rm_phy_banks m ! i)"

definition is_hot :: "remap_manager \<Rightarrow> nat \<Rightarrow> bool" where
  "is_hot m i \<longleftrightarrow> real (unat (rm_high_thres m)) \<le> temp_of m i"

definition is_cool :: "remap_manager \<Rightarrow> nat \<Rightarrow> bool" where
  "is_cool m i \<longleftrightarrow> temp_of m i < real (unat (rm_remap_thres m))"

text \<open>
  The shape that every operation keeps: both vectors have one entry per bank, the
  products do not wrap, and bank ids and physical ids are the positions. Two managers
  with the same frame have the same geometry, thresholds, temperatures and output.
\<close>

definition rm_shape :: "remap_manager \<Rightarrow> bool" where
  "rm_shape m \<longleftrightarrow>
     unat (rm_tot_banks m) = unat (rm_n_vaults m) * unat (rm_n_banks m) \<and>
     length (rm_phy_banks m) = unat (rm_tot_banks m) \<and>
     length (rm_bank_stat m) = unat (rm_tot_banks m) \<and>
     (\<forall>i<unat (rm_tot_banks m). unat (pb_logical_bank (rm_phy_banks m ! i)) = i \<and>
        unat (bs_bank_id (rm_bank_stat m ! i)) = i \<and>
        unat (bs_physical_id (rm_bank_stat m ! i)) = i)"

definition rm_ok :: "remap_manager \<Rightarrow> bool" where
  "rm_ok m \<longleftrightarrow> rm_shape m \<and> rm_n_remap m \<le> 2 \<and>
     pr_ok (unat (rm_tot_banks m)) (pairing_of m) \<and>
     (rm_n_remap m \<noteq> 1 \<longrightarrow> (\<forall>i<unat (rm_tot_banks m). \<not> pr_cmb (pairing_of m) i))"

definition same_frame :: "remap_manager \<Rightarrow> remap_manager \<Rightarrow> bool" where
  "same_frame m m' \<longleftrightarrow>
     rm_n_vaults m' = rm_n_vaults m \<and> rm_n_banks m' = rm_n_banks m \<and>
     rm_n_rows m' = rm_n_rows m \<and> rm_tot_banks m' = rm_tot_banks m \<and>
     rm_inter_vault m' = rm_inter_vault m \<and> rm_n_remap m' = rm_n_remap m \<and>
     rm_high_thres m' = rm_high_thres m \<and> rm_remap_thres m' = rm_remap_thres m \<and>
     temp_of m' = temp_of m \<and> rm_out m' = rm_out m"

lemma same_frame_refl [simp]: "same_frame m m"
  by (simp add: same_frame_def)

lemma same_frame_trans: "same_frame m m' \<Longrightarrow> same_frame m' m'' \<Longrightarrow> same_frame m m''"
  by (simp add: same_frame_def)

lemma same_frame_hot: "same_frame m m' \<Longrightarrow> is_hot m' = is_hot m"
  by (auto simp: same_frame_def is_hot_def)

lemma runs_bank_at [runs_simps]:
  "runs (bank_at i m) Q \<longleftrightarrow> unat i < length (rm_bank_stat m) \<and> Q (rm_bank_stat m ! unat i)"
  by (simp add: bank_at_def runs_simps)

lemma runs_phy_at [runs_simps]:
  "runs (phy_at i m) Q \<longleftrightarrow> unat i < length (rm_phy_banks m) \<and> Q (rm_phy_banks m ! unat i)"
  by (simp add: phy_at_def runs_simps)

lemma runs_bank_upd [runs_simps]:
  "runs (bank_upd i f m) Q \<longleftrightarrow> unat i < length (rm_bank_stat m) \<and>
     Q (m\<lparr>rm_bank_stat := (rm_bank_stat m)[unat i := f (rm_bank_stat m ! unat i)]\<rparr>)"
  by (auto simp: bank_upd_def runs_simps)

lemma runs_phy_upd [runs_simps]:
  "runs (phy_upd i f m) Q \<longleftrightarrow> unat i < length (rm_phy_banks m) \<and>
     Q (m\<lparr>rm_phy_banks := (rm_phy_banks m)[unat i := f (rm_phy_banks m ! unat i)]\<rparr>)"
  by (auto simp: phy_upd_def runs_simps)

lemma pairing_of_simps [simp]:
  "pr_log (pairing_of m) i = unat (bs_logical_id (rm_bank_stat m ! i))"
  "pr_rmp (pairing_of m) i = unat (bs_remap_id (rm_bank_stat m ! i))"
  "pr_cmb (pairing_of m) i = bs_combined (rm_bank_stat m ! i)"
  "pr_dis (pairing_of m) i = bs_disabled (rm_bank_stat m ! i)"
  by (simp_all add: pairing_of_def)

lemma pairing_eqI:
  assumes "\<And>i. pr_log p i = pr_log q i" "\<And>i. pr_rmp p i = pr_rmp q i"
    "\<And>i. pr_cmb p i = pr_cmb q i" "\<And>i. pr_dis p i = pr_dis q i"
  shows "p = (q :: pairing)"
  using assms by (cases p; cases q) (simp add: fun_eq_iff)

text \<open>What the well-formedness of a manager says of one bank.\<close>

lemma rm_ok_bank:
  assumes "rm_ok m" "unat b < unat (rm_tot_banks m)"
  shows "unat b < length (rm_bank_stat m)" "unat b < length (rm_phy_banks m)"
    "bs_physical_id (rm_bank_stat m ! unat b) = b" "bs_bank_id (rm_bank_stat m ! unat b) = b"
    "pb_logical_bank (rm_phy_banks m ! unat b) = b"
    "unat (bs_logical_id (rm_bank_stat m ! unat b)) < length (rm_bank_stat m)"
    "unat (bs_remap_id (rm_bank_stat m ! unat b)) < length (rm_bank_stat m)"
    "pr_at (unat (rm_tot_banks m)) (pairing_of m) (unat b)"
proof -
  have sh: "rm_shape m" and ok: "pr_ok (unat (rm_tot_banks m)) (pairing_of m)"
    using assms(1) by (auto simp: rm_ok_def)
  show at: "pr_at (unat (rm_tot_banks m)) (pairing_of m) (unat b)"
    using ok assms(2) by (rule pr_okD)
  show "unat b < length (rm_bank_stat m)" "unat b < length (rm_phy_banks m)"
    "bs_physical_id (rm_bank_stat m ! unat b) = b" "bs_bank_id (rm_bank_stat m ! unat b) = b"
    "pb_logical_bank (rm_phy_banks m ! unat b) = b"
    using sh assms(2) by (simp_all add: rm_shape_def word_unat_eq_iff)
  show "unat (bs_logical_id (rm_bank_stat m ! unat b)) < length (rm_bank_stat m)"
    "unat (bs_remap_id (rm_bank_stat m ! unat b)) < length (rm_bank_stat m)"
    using at sh by (simp_all add: pr_at_def rm_shape_def)
qed

definition refines_step :: "remap_manager \<Rightarrow> pairing \<Rightarrow> remap_manager \<Rightarrow> bool" where
  "refines_step m p m' \<longleftrightarrow> rm_shape m' \<and> same_frame m m' \<and> pairing_of m' = p"

lemma temp_of_upd:
  "pb_temperature q = pb_temperature (rm_phy_banks m ! j) \<Longrightarrow>
   temp_of (m\<lparr>rm_phy_banks := (rm_phy_banks m)[j := q]\<rparr>) = temp_of m"
  by (cases "j < length (rm_phy_banks m)")
     (auto simp: temp_of_def fun_eq_iff nth_list_update list_update_beyond)

lemma refines_stepI:
  assumes "rm_shape m"
    and "length (rm_phy_banks m') = length (rm_phy_banks m)" "length (rm_bank_stat m') = length (rm_bank_stat m)"
    and "\<And>i. i < length (rm_phy_banks m) \<Longrightarrow> pb_logical_bank (rm_phy_banks m' ! i) = pb_logical_bank (rm_phy_banks m ! i)"
    and "\<And>i. i < length (rm_bank_stat m) \<Longrightarrow> bs_bank_id (rm_bank_stat m' ! i) = bs_bank_id (rm_bank_stat m ! i)"
    and "\<And>i. i < length (rm_bank_stat m) \<Longrightarrow> bs_physical_id (rm_bank_stat m' ! i) = bs_physical_id (rm_bank_stat m ! i)"
    and "same_frame m m'" and "pairing_of m' = p"
  shows "refines_step m p m'"
  using assms by (auto simp: refines_step_def rm_shape_def same_frame_def)

lemma same_frameI:
  assumes "rm_n_vaults m' = rm_n_vaults m" "rm_n_banks m' = rm_n_banks m"
     "rm_n_rows m' = rm_n_rows m" "rm_tot_banks m' = rm_tot_banks m"
     "rm_inter_vault m' = rm_inter_vault m" "rm_n_remap m' = rm_n_remap m"
     "rm_high_thres m' = rm_high_thres m" "rm_remap_thres m' = rm_remap_thres m"
     "\<And>i. temp_of m' i = temp_of m i" "rm_out m' = rm_out m"
  shows "same_frame m m'"
  using assms by (auto simp: same_frame_def)

lemma resetBank_refines:
  assumes ok: "rm_ok m" and b: "unat b < unat (rm_tot_banks m)"
  shows "runs (resetBank b m) (refines_step m (pr_reset (unat b) (pairing_of m)))"
proof -
  note bk = rm_ok_bank[OF ok b]
  have sh: "rm_shape m" and nr: "rm_n_remap m \<le> 2"
    and triv: "rm_n_remap m \<noteq> 1 \<Longrightarrow> \<not> bs_combined (rm_bank_stat m ! unat b)"
    using ok b by (auto simp: rm_ok_def)
  have nr': "rm_n_remap m = 0 \<or> rm_n_remap m = 1 \<or> rm_n_remap m = 2"
    using nr by (auto simp: word_le_nat_alt word_unat_eq_iff)
  let ?b = "rm_bank_stat m ! unat b"
  have at: "pr_at (unat (rm_tot_banks m)) (pairing_of m) (unat b)" using bk by simp
  show ?thesis
  proof (cases "rm_n_remap m = 1")
    case False
    then have "bs_logical_id ?b = b" "bs_remap_id ?b = b"
      using triv at by (auto simp: pr_at_def word_unat_eq_iff)
    then show ?thesis
      using nr' False bk(1-3)
      by (elim disjE) (simp_all add: resetBank_def runs_simps Let_def setDisabled_def pr_reset_def;
        intro refines_stepI[OF sh] same_frameI pairing_eqI;
        simp add: nth_list_update temp_of_def)+
  next
    case one: True
    show ?thesis
    proof (cases "bs_logical_id ?b = b")
      case True
      show ?thesis
      proof (cases "bs_remap_id ?b = b")
        case r: True
        show ?thesis
          using one bk(1-3) True r
          by (simp add: resetBank_def runs_simps Let_def setDisabled_def setId_def pr_reset_def)
             (intro refines_stepI[OF sh] same_frameI pairing_eqI;
              auto simp: nth_list_update temp_of_def)
      next
        case r: False
        show ?thesis
          using one bk(1-3,7) True r
          by (simp add: resetBank_def runs_simps Let_def setDisabled_def setId_def pr_reset_def)
             (intro refines_stepI[OF sh] same_frameI pairing_eqI;
              auto simp: nth_list_update temp_of_def)
      qed
    next
      case False
      then have ne: "unat (bs_logical_id ?b) \<noteq> unat b" by (simp add: word_unat_eq_iff)
      let ?t = "rm_bank_stat m ! unat (bs_logical_id ?b)"
      have t: "bs_remap_id ?t = b" "unat (bs_logical_id ?b) < unat (rm_tot_banks m)" "bs_logical_id ?t = bs_logical_id ?b"
        using at ne by (auto simp: pr_at_def word_unat_eq_iff)
      note tk = rm_ok_bank[OF ok t(2)]
      have "b \<noteq> bs_logical_id ?b" using False by metis
      then show ?thesis
      using one bk(1-3,6) t tk(1,3) False ne ne[symmetric]
      by (simp add: resetBank_def runs_simps Let_def setDisabled_def setId_def say_if_def pr_reset_def)
        (intro refines_stepI[OF sh] same_frameI pairing_eqI;
        auto simp: nth_list_update temp_of_def)
    qed
  qed
qed

lemma uncombined:
  assumes "rm_ok m" "unat b < unat (rm_tot_banks m)" "\<not> bs_combined (rm_bank_stat m ! unat b)"
  shows "bs_logical_id (rm_bank_stat m ! unat b) = b" "bs_remap_id (rm_bank_stat m ! unat b) = b"
  using rm_ok_bank(8)[OF assms(1,2)] assms(3) by (auto simp: pr_at_def word_unat_eq_iff)

lemma combineWith_refines:
  assumes ok: "rm_ok m" and s: "unat s < unat (rm_tot_banks m)" and t: "unat t < unat (rm_tot_banks m)"
    and "s \<noteq> t" "\<not> bs_combined (rm_bank_stat m ! unat s)" "\<not> bs_combined (rm_bank_stat m ! unat t)"
  shows "runs (combineWith s t m) (refines_step m (pr_combine (unat s) (unat t) (pairing_of m)))"
proof -
  have sh: "rm_shape m" using ok by (simp add: rm_ok_def)
  have ne: "unat s \<noteq> unat t" using assms(4) by (simp add: word_unat_eq_iff)
  show ?thesis
    using rm_ok_bank(1-3)[OF ok s] rm_ok_bank(1-3)[OF ok t] ne ne[symmetric]
      uncombined[OF ok s] uncombined[OF ok t] assms(5,6)
    by (simp add: combineWith_def runs_simps Let_def say_if_def pr_combine_def)
       (intro refines_stepI[OF sh] same_frameI pairing_eqI; auto simp: nth_list_update temp_of_def)
qed

lemma disable_bank_refines:
  assumes ok: "rm_ok m" and b: "unat b < unat (rm_tot_banks m)"
    and "\<not> bs_combined (rm_bank_stat m ! unat b)"
  shows "runs (disable_bank b b m) (refines_step m (pr_disable (unat b) (pairing_of m)))"
proof -
  have sh: "rm_shape m" using ok by (simp add: rm_ok_def)
  show ?thesis
    using rm_ok_bank(1-3)[OF ok b] uncombined[OF ok b assms(3)]
    by (simp add: disable_bank_def runs_simps setDisabled_def setValid_def pr_disable_def)
       (intro refines_stepI[OF sh] same_frameI pairing_eqI; auto simp: nth_list_update temp_of_def)
qed

lemma disable_pair_refines:
  assumes ok: "rm_ok m" and b: "unat b < unat (rm_tot_banks m)"
  shows "runs (bank_upd (bs_remap_id (rm_bank_stat m ! unat b)) (setDisabled True) m \<bind> disable_bank b b)
    (refines_step m (pr_disable (unat b) (pairing_of m)))"
proof -
  have sh: "rm_shape m" using ok by (simp add: rm_ok_def)
  show ?thesis
    using rm_ok_bank(1-3,7)[OF ok b] 
    by (simp add: disable_bank_def runs_simps setDisabled_def setValid_def pr_disable_def)
       (intro refines_stepI[OF sh] same_frameI pairing_eqI; auto simp: nth_list_update temp_of_def)
qed

lemma rm_ok_n_banks:
  assumes "rm_ok m" "unat b < unat (rm_tot_banks m)"
  shows "rm_n_banks m \<noteq> 0"
  using assms by (auto simp: rm_ok_def rm_shape_def)

lemma search_range_in:
  assumes ok: "rm_ok m" and b: "unat b < unat (rm_tot_banks m)"
    and j: "unat (fst (search_range b m)) \<le> unat j" "unat j < unat (snd (search_range b m))"
  shows "unat j < unat (rm_tot_banks m)"
proof (cases "rm_inter_vault m")
  case False
  let ?v = "unat (rm_n_vaults m)" and ?n = "unat (rm_n_banks m)"
  have tot: "unat (rm_tot_banks m) = ?v * ?n"
    using ok by (simp add: rm_ok_def rm_shape_def)
  have n0: "0 < ?n" using b tot by (cases "?n") auto
  have q: "unat (b div rm_n_banks m) < ?v"
    using b tot n0 by (simp add: unat_div div_less_iff_less_mult)
  have "unat (b div rm_n_banks m) + ?n \<le> ?v * ?n"
  proof -
    have "?v + ?n \<le> ?v * ?n + 1"
      using q n0 by (cases ?v; cases ?n) auto
    then show ?thesis using q by linarith
  qed
  moreover have "unat (b div rm_n_banks m + rm_n_banks m) \<le> unat (b div rm_n_banks m) + ?n"
    by (simp add: unat_word_ariths)
  ultimately show ?thesis
    using j False by (simp add: search_range_def Let_def tot)
qed (use j in \<open>simp add: search_range_def\<close>)

lemma search_target_runs:
  assumes ok: "rm_ok m" and b: "unat b < unat (rm_tot_banks m)"
  shows "runs (search_target b m) (\<lambda>t. t = b \<or> unat t < unat (rm_tot_banks m) \<and>
     \<not> bs_combined (rm_bank_stat m ! unat t) \<and> \<not> bs_disabled (rm_bank_stat m ! unat t) \<and>
     is_cool m (unat t))"
proof -
  let ?I = "\<lambda>(t, mt :: real). t = b \<or> unat t < unat (rm_tot_banks m) \<and>
     \<not> bs_combined (rm_bank_stat m ! unat t) \<and> \<not> bs_disabled (rm_bank_stat m ! unat t) \<and>
     is_cool m (unat t)"
  have "runs (foldM (search_step m) (u32_range (fst (search_range b m)) (snd (search_range b m))) (b, 1000)) ?I"
  proof (rule foldM_runs)
    fix j acc assume j: "j \<in> set (u32_range (fst (search_range b m)) (snd (search_range b m)))" and I: "?I acc"
    then have jn: "unat j < unat (rm_tot_banks m)"
      using search_range_in[OF ok b] by (auto simp: set_u32_range)
    show "runs (search_step m j acc) ?I"
      using I rm_ok_bank(1,2,5)[OF ok jn] jn
      by (cases acc) (auto simp: search_step_def runs_simps is_cool_def temp_of_def)
  qed simp
  then show ?thesis
    using rm_ok_n_banks[OF ok b]
    by (auto simp: search_target_def runs_simps Let_def split_beta elim!: runs_mono)
qed

text \<open>The counters are not part of the state that the invariant is about.\<close>

lemma counter_frame [simp]:
  "rm_ok (m\<lparr>rm_recovery_times := x\<rparr>) = rm_ok m" "rm_ok (m\<lparr>rm_remap_times := x\<rparr>) = rm_ok m"
  "rm_ok (m\<lparr>rm_disable_times := x\<rparr>) = rm_ok m" "rm_ok (m\<lparr>rm_double_disable_times := x\<rparr>) = rm_ok m"
  "pairing_of (m\<lparr>rm_recovery_times := x\<rparr>) = pairing_of m" "pairing_of (m\<lparr>rm_remap_times := x\<rparr>) = pairing_of m"
  "pairing_of (m\<lparr>rm_disable_times := x\<rparr>) = pairing_of m"
  "pairing_of (m\<lparr>rm_double_disable_times := x\<rparr>) = pairing_of m"
  "refines_step (m\<lparr>rm_recovery_times := x\<rparr>) = refines_step m" "refines_step (m\<lparr>rm_remap_times := x\<rparr>) = refines_step m"
  "refines_step (m\<lparr>rm_disable_times := x\<rparr>) = refines_step m"
  "refines_step (m\<lparr>rm_double_disable_times := x\<rparr>) = refines_step m"
  by (auto simp: rm_ok_def rm_shape_def pairing_of_def refines_step_def same_frame_def temp_of_def fun_eq_iff)

definition bank_safe :: "remap_manager \<Rightarrow> nat \<Rightarrow> bool" where
  "bank_safe m i \<longleftrightarrow>
     (is_hot m i \<longrightarrow> pr_dis (pairing_of m) i \<or> pr_log (pairing_of m) i \<noteq> i)"

definition keeps :: "remap_manager \<Rightarrow> remap_manager \<Rightarrow> bool" where
  "keeps m m' \<longleftrightarrow> rm_ok m' \<and> same_frame m m' \<and>
     (rm_remap_thres m \<le> rm_high_thres m \<longrightarrow>
        (\<forall>i<unat (rm_tot_banks m). bank_safe m i \<longrightarrow> bank_safe m' i))"

lemma keeps_refl: "rm_ok m \<Longrightarrow> keeps m m"
  by (simp add: keeps_def)

lemma keeps_trans: "keeps m m' \<Longrightarrow> keeps m' m'' \<Longrightarrow> keeps m m''"
  by (auto simp: keeps_def same_frame_def)

lemma refines_ok:
  assumes "rm_ok m" "refines_step m p m'" "pr_ok (unat (rm_tot_banks m)) p"
    and "rm_n_remap m \<noteq> 1 \<Longrightarrow> \<forall>i<unat (rm_tot_banks m). \<not> pr_cmb p i"
  shows "rm_ok m' \<and> same_frame m m'"
  using assms by (auto simp: rm_ok_def refines_step_def same_frame_def simp del: pairing_of_simps)

lemma hot_not_cool: "rm_remap_thres m \<le> rm_high_thres m \<Longrightarrow> is_cool m i \<Longrightarrow> \<not> is_hot m i"
  by (simp add: is_cool_def is_hot_def word_le_nat_alt flip: of_nat_le_iff[where 'a = real])

lemma keeps_reset:
  assumes ok: "rm_ok m" and b: "unat b < unat (rm_tot_banks m)" and c: "is_cool m (unat b)"
  shows "runs (resetBank b m) (\<lambda>m'. keeps m m' \<and> pr_log (pairing_of m') (unat b) = unat b)"
proof (rule runs_mono[OF resetBank_refines[OF ok b]])
  fix m' assume r: "refines_step m (pr_reset (unat b) (pairing_of m)) m'"
  have p: "pr_ok (unat (rm_tot_banks m)) (pairing_of m)" using ok by (simp add: rm_ok_def)
  have fr: "rm_ok m' \<and> same_frame m m'"
    using refines_ok[OF ok r pr_ok_reset[OF p b]] ok
    by (auto simp: pr_reset_def rm_ok_def Let_def)
  have "bank_safe m' i" if i: "i < unat (rm_tot_banks m)" and th: "rm_remap_thres m \<le> rm_high_thres m" and s: "bank_safe m i" for i
  proof -
    have nh: "\<not> is_hot m (unat b)" using hot_not_cool[OF th c] .
    have ab: "pr_at (unat (rm_tot_banks m)) (pairing_of m) (unat b)" using pr_okD[OF p b] .
    have "pairing_of m' = pr_reset (unat b) (pairing_of m)" using r by (simp add: refines_step_def)
    moreover have "is_hot m' = is_hot m" using fr same_frame_hot by blast
    ultimately show ?thesis using s nh ab
      by (auto simp: bank_safe_def pr_reset_def Let_def pr_at_def simp del: pairing_of_simps split: if_splits)
  qed
  moreover have "pr_log (pairing_of m') (unat b) = unat b"
    using r by (simp add: refines_step_def pr_reset_def Let_def del: pairing_of_simps)
  ultimately show "keeps m m' \<and> pr_log (pairing_of m') (unat b) = unat b"
    using fr by (simp add: keeps_def)
qed

lemma keeps_combine:
  assumes ok: "rm_ok m" and s: "unat s < unat (rm_tot_banks m)" and t: "unat t < unat (rm_tot_banks m)"
    and "s \<noteq> t" "\<not> bs_combined (rm_bank_stat m ! unat s)" "\<not> bs_combined (rm_bank_stat m ! unat t)"
    and "\<not> bs_disabled (rm_bank_stat m ! unat s)" "\<not> bs_disabled (rm_bank_stat m ! unat t)" "rm_n_remap m = 1"
  shows "runs (combineWith s t m) (\<lambda>m'. keeps m m' \<and> bank_safe m' (unat s))"
proof (rule runs_mono[OF combineWith_refines[OF ok s t assms(4-6)]])
  fix m' assume r: "refines_step m (pr_combine (unat s) (unat t) (pairing_of m)) m'"
  have p: "pr_ok (unat (rm_tot_banks m)) (pairing_of m)" using ok by (simp add: rm_ok_def)
  have ne: "unat s \<noteq> unat t" using assms(4) by (simp add: word_unat_eq_iff)
  have fr: "rm_ok m' \<and> same_frame m m'"
    using refines_ok[OF ok r pr_ok_combine[OF p s t ne]] assms(5-9) by simp
  have pm': "pairing_of m' = pr_combine (unat s) (unat t) (pairing_of m)" using r by (simp add: refines_step_def)
  have "is_hot m' = is_hot m" using fr same_frame_hot by blast
  then have "bank_safe m i \<longrightarrow> bank_safe m' i" "bank_safe m' (unat s)" for i
    using pm' ne by (auto simp: bank_safe_def pr_combine_def simp del: pairing_of_simps)
  with fr show "keeps m m' \<and> bank_safe m' (unat s)" by (simp add: keeps_def)
qed

lemma keeps_disable_refined:
  assumes ok: "rm_ok m" and b: "unat b < unat (rm_tot_banks m)" and l: "pr_log (pairing_of m) (unat b) = unat b"
    and r: "refines_step m (pr_disable (unat b) (pairing_of m)) m'"
  shows "keeps m m' \<and> bank_safe m' (unat b)"
proof -
  have p: "pr_ok (unat (rm_tot_banks m)) (pairing_of m)" using ok by (simp add: rm_ok_def)
  have fr: "rm_ok m' \<and> same_frame m m'"
    using refines_ok[OF ok r pr_ok_disable[OF p b l]] ok by (auto simp: pr_disable_def rm_ok_def)
  have pm': "pairing_of m' = pr_disable (unat b) (pairing_of m)" using r by (simp add: refines_step_def)
  have "is_hot m' = is_hot m" using fr same_frame_hot by blast
  then have "bank_safe m i \<longrightarrow> bank_safe m' i" "bank_safe m' (unat b)" for i
    using pm' by (auto simp: bank_safe_def pr_disable_def simp del: pairing_of_simps)
  with fr show "keeps m m' \<and> bank_safe m' (unat b)" by (simp add: keeps_def)
qed

definition handled :: "u32 \<Rightarrow> remap_manager \<Rightarrow> remap_manager \<Rightarrow> bool" where
  "handled b m m' \<longleftrightarrow> keeps m m' \<and>
     (rm_n_remap m = 1 \<longrightarrow> rm_remap_thres m \<le> rm_high_thres m \<longrightarrow> bank_safe m' (unat b))"

lemma is_cool_iff: "temp_of m i < unsigned (rm_remap_thres m) \<longleftrightarrow> is_cool m i"
  by (simp add: is_cool_def)

lemma is_hot_iff: "unsigned (rm_high_thres m) \<le> temp_of m i \<longleftrightarrow> is_hot m i"
  by (simp add: is_hot_def)

lemma phy_valid_frame:
  fixes m t v
  defines "m' \<equiv> m\<lparr>rm_phy_banks := (rm_phy_banks m)[t := (rm_phy_banks m ! t)\<lparr>pb_valid := v\<rparr>]\<rparr>"
  shows "rm_ok m' \<longleftrightarrow> rm_ok m" "same_frame m0 m' \<longleftrightarrow> same_frame m0 m" "bank_safe m' = bank_safe m"
    "keeps m0 m' \<longleftrightarrow> keeps m0 m"
proof -
  have tm: "temp_of m' = temp_of m"
    unfolding m'_def by (rule temp_of_upd) simp
  have lb: "pb_logical_bank (rm_phy_banks m' ! i) = pb_logical_bank (rm_phy_banks m ! i)" for i
    by (cases "t < length (rm_phy_banks m)")
       (auto simp: m'_def nth_list_update list_update_beyond)
  have oth: "pairing_of m' = pairing_of m" "rm_tot_banks m' = rm_tot_banks m"
    "rm_n_vaults m' = rm_n_vaults m" "rm_n_banks m' = rm_n_banks m" "rm_n_remap m' = rm_n_remap m"
    "length (rm_phy_banks m') = length (rm_phy_banks m)" "rm_bank_stat m' = rm_bank_stat m"
    "rm_high_thres m' = rm_high_thres m" "rm_n_rows m' = rm_n_rows m" "rm_inter_vault m' = rm_inter_vault m"
    "rm_remap_thres m' = rm_remap_thres m" "rm_out m' = rm_out m"
    by (simp_all add: m'_def pairing_of_def)
  show a: "rm_ok m' \<longleftrightarrow> rm_ok m"
    by (simp add: rm_ok_def rm_shape_def oth lb)
  show b: "same_frame m0 m' \<longleftrightarrow> same_frame m0 m"
    by (simp add: same_frame_def oth tm)
  show c: "bank_safe m' = bank_safe m"
    by (simp add: fun_eq_iff bank_safe_def is_hot_def oth tm del: pairing_of_simps)
  show "keeps m0 m' \<longleftrightarrow> keeps m0 m"
    by (simp add: keeps_def a b c)
qed

lemma keeps_tot: "keeps m m' \<Longrightarrow> rm_tot_banks m' = rm_tot_banks m"
  by (simp add: keeps_def same_frame_def)

lemma try_combine_runs:
  assumes ok: "rm_ok m" and b: "unat b < unat (rm_tot_banks m)" and one: "rm_n_remap m = 1"
  shows "runs (try_combine b (temp_of m (unat b)) m)
    (\<lambda>(flag, m'). if flag then keeps m m' \<and> bank_safe m' (unat b) else m' = m)"
proof (cases "is_hot m (unat b) \<and> \<not> bs_combined (rm_bank_stat m ! unat b) \<and>
              \<not> bs_disabled (rm_bank_stat m ! unat b)")
  case False
  then show ?thesis
    using rm_ok_bank(1)[OF ok b] by (auto simp: try_combine_def runs_simps is_hot_iff)
next
  case True
  have step: "runs (combineWith b t (m\<lparr>rm_remap_times := rm_remap_times m + 1\<rparr>))
     (\<lambda>m1. unat t < length (rm_phy_banks m1) \<and> keeps m m1 \<and> bank_safe m1 (unat b))"
    if t: "t \<noteq> b" "unat t < unat (rm_tot_banks m)" "\<not> bs_combined (rm_bank_stat m ! unat t)"
      "\<not> bs_disabled (rm_bank_stat m ! unat t)" for t
  proof -
    let ?m = "m\<lparr>rm_remap_times := rm_remap_times m + 1\<rparr>"
    have "runs (combineWith b t ?m) (\<lambda>m1. keeps ?m m1 \<and> bank_safe m1 (unat b))"
      by (rule keeps_combine) (use ok b t True one in auto)
    moreover have "keeps ?m m1 \<longleftrightarrow> keeps m m1" for m1
      by (auto simp: keeps_def same_frame_def temp_of_def fun_eq_iff bank_safe_def is_hot_def pairing_of_def)
    ultimately show ?thesis
      using t(2) by (auto elim!: runs_mono simp: keeps_def rm_ok_def rm_shape_def same_frame_def)
  qed
  show ?thesis
    unfolding try_combine_def
    using True rm_ok_bank(1)[OF ok b]
    by (auto simp: runs_simps is_hot_iff phy_valid_frame Let_def
        intro!: runs_mono[OF search_target_runs[OF ok b]] runs_mono[OF step])
qed

lemma disable_hot_runs:
  assumes ok: "rm_ok m" and b: "unat b < unat (rm_tot_banks m)"
    and lg: "lg = b \<Longrightarrow> pr_log (pairing_of m) (unat b) = unat b"
  shows "runs (disable_hot b b lg (temp_of m (unat b)) flag m) (\<lambda>m'. keeps m m' \<and>
     (\<not> flag \<and> (lg \<noteq> b \<longrightarrow> bs_combined (rm_bank_stat m ! unat b) \<longrightarrow> pr_log (pairing_of m) (unat b) \<noteq> unat b) \<longrightarrow> bank_safe m' (unat b)))"
proof -
  note bk = rm_ok_bank(1)[OF ok b]
  have frm: "keeps (m\<lparr>rm_disable_times := x\<rparr>) = keeps m" "keeps (m\<lparr>rm_double_disable_times := x\<rparr>) = keeps m" for x
      by (auto simp: keeps_def same_frame_def temp_of_def fun_eq_iff bank_safe_def is_hot_def pairing_of_def)
  consider (quiet) "\<not> (is_hot m (unat b) \<and> \<not> flag \<and> \<not> bs_disabled (rm_bank_stat m ! unat b))"
    | (single) "is_hot m (unat b)" "\<not> flag" "\<not> bs_disabled (rm_bank_stat m ! unat b)" "\<not> bs_combined (rm_bank_stat m ! unat b)"
    | (pair) "is_hot m (unat b)" "\<not> flag" "\<not> bs_disabled (rm_bank_stat m ! unat b)" "bs_combined (rm_bank_stat m ! unat b)" "lg = b"
    | (source) "is_hot m (unat b)" "\<not> flag" "\<not> bs_disabled (rm_bank_stat m ! unat b)" "bs_combined (rm_bank_stat m ! unat b)" "lg \<noteq> b"
    by blast
  then show ?thesis
  proof cases
    case quiet
    then show ?thesis
      using ok bk by (auto simp: disable_hot_def runs_simps is_hot_iff keeps_refl bank_safe_def)
  next
    case single
    let ?m = "m\<lparr>rm_disable_times := rm_disable_times m + 1\<rparr>"
    have "runs (disable_bank b b ?m) (\<lambda>m'. keeps ?m m' \<and> bank_safe m' (unat b))"
      by (rule runs_mono[OF disable_bank_refines keeps_disable_refined])
         (use ok b single uncombined[OF ok b] in \<open>auto\<close>)
    then show ?thesis
      using single bk by (auto simp: disable_hot_def runs_simps is_hot_iff frm elim!: runs_mono)
  next
    case pair
    let ?m = "m\<lparr>rm_double_disable_times := rm_double_disable_times m + 1\<rparr>"
    have "runs (bank_upd (bs_remap_id (rm_bank_stat ?m ! unat b)) (setDisabled True) ?m \<bind> disable_bank b b)
       (\<lambda>m'. keeps ?m m' \<and> bank_safe m' (unat b))"
      by (rule runs_mono[OF disable_pair_refines keeps_disable_refined])
         (use ok b pair lg in \<open>auto\<close>)
    then have "runs (bank_upd (bs_remap_id (rm_bank_stat m ! unat b)) (setDisabled True) ?m \<bind> disable_bank b b)
       (\<lambda>m'. keeps m m' \<and> bank_safe m' (unat b))" by (simp add: frm)
    then show ?thesis
      using pair bk by (auto simp: disable_hot_def runs_simps is_hot_iff Let_def elim!: runs_mono)
  next
    case source
    then show ?thesis
      using ok bk by (auto simp: disable_hot_def runs_simps is_hot_iff keeps_refl bank_safe_def)
  qed
qed

lemma counter_keeps [simp]:
  "temp_of (m\<lparr>rm_recovery_times := x\<rparr>) = temp_of m" "temp_of (m\<lparr>rm_disable_times := x\<rparr>) = temp_of m"
  "same_frame (m\<lparr>rm_recovery_times := x\<rparr>) = same_frame m"
  "same_frame (m\<lparr>rm_disable_times := x\<rparr>) = same_frame m"
  "keeps (m\<lparr>rm_recovery_times := x\<rparr>) = keeps m"
  by (auto simp: keeps_def same_frame_def temp_of_def fun_eq_iff bank_safe_def is_hot_def pairing_of_def)

lemma run_policy1_runs:
  assumes ok: "rm_ok m" and b: "unat b < unat (rm_tot_banks m)" and one: "rm_n_remap m = 1"
  shows "runs (run_policy1 b b (bs_logical_id (rm_bank_stat m ! unat b)) (temp_of m (unat b)) m) (handled b m)"
proof -
  let ?lg = "bs_logical_id (rm_bank_stat m ! unat b)"
  let ?reset = "is_cool m (unat b) \<and> (?lg \<noteq> b \<or> bs_disabled (rm_bank_stat m ! unat b))"
  let ?m = "m\<lparr>rm_recovery_times := rm_recovery_times m + 1\<rparr>"
  let ?J = "\<lambda>m1. keeps m m1 \<and> (?lg = b \<longrightarrow> pr_log (pairing_of m1) (unat b) = unat b) \<and>
     (is_hot m (unat b) \<and> rm_remap_thres m \<le> rm_high_thres m \<longrightarrow> m1 = m)"
  have first: "runs (if ?reset then resetBank b ?m else Some m) ?J"
  proof (cases ?reset)
    case True
    have "runs (resetBank b ?m) (\<lambda>m'. keeps ?m m' \<and> pr_log (pairing_of m') (unat b) = unat b)"
      by (rule keeps_reset) (use ok b True in \<open>auto simp: is_cool_def temp_of_def\<close>)
    then show ?thesis
      using True hot_not_cool[of m "unat b"] by (auto elim!: runs_mono)
  qed (auto simp: keeps_refl ok)
  have second: "runs (try_combine b (temp_of m (unat b)) m1 \<bind> (\<lambda>(flag, m2).
      disable_hot b b ?lg (temp_of m (unat b)) flag m2)) (handled b m)" if J: "?J m1" for m1
  proof -
    have m1: "rm_ok m1" "unat b < unat (rm_tot_banks m1)" "rm_n_remap m1 = 1" "temp_of m1 = temp_of m"
      using J b one by (auto simp: keeps_def same_frame_def)
    have "runs (disable_hot b b ?lg (temp_of m (unat b)) flag m2) (handled b m)"
      if tc: "if flag then keeps m1 m2 \<and> bank_safe m2 (unat b) else m2 = m1" for flag m2
    proof (cases flag)
      case True
      then have k: "keeps m1 m2" "bank_safe m2 (unat b)" using tc by auto
      have km: "keeps m m2" using J k(1) keeps_trans by blast
      have "unat b < length (rm_bank_stat m2)"
        using km b by (auto simp: keeps_def rm_ok_def rm_shape_def same_frame_def)
      then show ?thesis
        using True km k(2) by (simp add: disable_hot_def runs_simps handled_def)
    next
      case False
      then have m2: "m2 = m1" using tc by simp
      have "runs (disable_hot b b ?lg (temp_of m1 (unat b)) flag m1) (\<lambda>m'. keeps m1 m' \<and>
        (\<not> flag \<and> (?lg \<noteq> b \<longrightarrow> bs_combined (rm_bank_stat m1 ! unat b) \<longrightarrow>
           pr_log (pairing_of m1) (unat b) \<noteq> unat b) \<longrightarrow> bank_safe m' (unat b)))"
        by (rule disable_hot_runs) (use m1 J in auto)
      then show ?thesis
        unfolding m2 m1(4)
      proof (rule runs_mono)
        fix m' assume m': "keeps m1 m' \<and>
        (\<not> flag \<and> (?lg \<noteq> b \<longrightarrow> bs_combined (rm_bank_stat m1 ! unat b) \<longrightarrow>
           pr_log (pairing_of m1) (unat b) \<noteq> unat b) \<longrightarrow> bank_safe m' (unat b))"
        have km: "keeps m m'" using J m' keeps_trans by blast
        have "bank_safe m' (unat b)" if th: "rm_remap_thres m \<le> rm_high_thres m"
        proof (cases "is_hot m (unat b)")
          case True
          then have "m1 = m" using J th by blast
          then show ?thesis using m' False by (auto simp: word_unat_eq_iff)
        next
          case nh: False
          have "is_hot m' = is_hot m" using km by (simp add: keeps_def same_frame_hot)
          then show ?thesis using nh by (simp add: bank_safe_def)
        qed
        then show "handled b m m'" using km by (simp add: handled_def)
      qed
    qed
    then show ?thesis
      using try_combine_runs[OF m1(1-3)] m1(4) by (auto simp: runs_bind elim!: runs_mono)
  qed
  show ?thesis
    unfolding run_policy1_def
    using rm_ok_bank(1)[OF ok b] runs_mono[OF first second]
    by (simp add: runs_bind runs_bank_at is_cool_iff)
qed

text \<open>Under policies 0 and 2 banks are only enabled and disabled.\<close>

lemma unpaired_ops:
  assumes ok: "rm_ok m" and b: "unat b < unat (rm_tot_banks m)" and n1: "rm_n_remap m \<noteq> 1"
  shows "runs (resetBank b m) (\<lambda>m'. rm_ok m' \<and> same_frame m m' \<and>
           pr_dis (pairing_of m') = (pr_dis (pairing_of m))(unat b := False))"
    and "runs (disable_bank b b m) (\<lambda>m'. rm_ok m' \<and> same_frame m m' \<and>
           pr_dis (pairing_of m') = (pr_dis (pairing_of m))(unat b := True))"
proof -
  have p: "pr_ok (unat (rm_tot_banks m)) (pairing_of m)"
    and nc: "\<forall>i<unat (rm_tot_banks m). \<not> pr_cmb (pairing_of m) i"
    using ok n1 by (auto simp: rm_ok_def)
  have ub: "pr_log (pairing_of m) (unat b) = unat b" "pr_rmp (pairing_of m) (unat b) = unat b"
    using uncombined[OF ok b] nc b by auto
  show "runs (resetBank b m) (\<lambda>m'. rm_ok m' \<and> same_frame m m' \<and>
           pr_dis (pairing_of m') = (pr_dis (pairing_of m))(unat b := False))"
  proof (rule runs_mono[OF resetBank_refines[OF ok b]])
    fix m' assume r: "refines_step m (pr_reset (unat b) (pairing_of m)) m'"
    then show "rm_ok m' \<and> same_frame m m' \<and>
           pr_dis (pairing_of m') = (pr_dis (pairing_of m))(unat b := False)"
      using refines_ok[OF ok r pr_ok_reset[OF p b]] nc ub
      by (simp add: pr_reset_def refines_step_def del: pairing_of_simps)
  qed
  show "runs (disable_bank b b m) (\<lambda>m'. rm_ok m' \<and> same_frame m m' \<and>
           pr_dis (pairing_of m') = (pr_dis (pairing_of m))(unat b := True))"
  proof (rule runs_mono[OF disable_bank_refines[OF ok b]])
    fix m' assume r: "refines_step m (pr_disable (unat b) (pairing_of m)) m'"
    then show "rm_ok m' \<and> same_frame m m' \<and>
           pr_dis (pairing_of m') = (pr_dis (pairing_of m))(unat b := True)"
      using refines_ok[OF ok r pr_ok_disable[OF p b ub(1)]] nc ub
      by (simp add: pr_disable_def refines_step_def del: pairing_of_simps)
  qed (use nc b in auto)
qed

definition policy0_disabled :: "remap_manager \<Rightarrow> nat \<Rightarrow> bool" where
  "policy0_disabled m i \<longleftrightarrow>
     is_hot m i \<or> \<not> is_cool m i \<and> pr_dis (pairing_of m) i"

lemma run_policy0_runs:
  assumes ok: "rm_ok m" and b: "unat b < unat (rm_tot_banks m)" and zero: "rm_n_remap m = 0"
  shows "runs (run_policy0 b b (temp_of m (unat b)) m) (\<lambda>m'. rm_ok m' \<and> same_frame m m' \<and>
     pr_dis (pairing_of m') = (pr_dis (pairing_of m))(unat b := policy0_disabled m (unat b)))"
proof -
  let ?D = "pr_dis (pairing_of m)"
  let ?reset = "is_cool m (unat b) \<and> bs_disabled (rm_bank_stat m ! unat b)"
  let ?m = "m\<lparr>rm_recovery_times := rm_recovery_times m + 1\<rparr>"
  let ?J = "\<lambda>m1. rm_ok m1 \<and> same_frame m m1 \<and>
     pr_dis (pairing_of m1) = ?D(unat b := \<not> is_cool m (unat b) \<and> ?D (unat b))"
  have first: "runs (if ?reset then resetBank b ?m else Some m) ?J"
  proof (cases ?reset)
    case True
    have "runs (resetBank b ?m) (\<lambda>m'. rm_ok m' \<and> same_frame ?m m' \<and>
           pr_dis (pairing_of m') = (pr_dis (pairing_of ?m))(unat b := False))"
      by (rule unpaired_ops) (use ok b zero in auto)
    then show ?thesis
      using True by (auto elim!: runs_mono intro: same_frame_trans simp del: pairing_of_simps)
  qed (auto simp: ok fun_eq_iff)
  have second: "runs (do { bank \<leftarrow> bank_at b m1;
        if real (unat (rm_high_thres m1)) \<le> temp_of m (unat b) \<and> \<not> bs_disabled bank
        then disable_bank b b (m1\<lparr>rm_disable_times := rm_disable_times m1 + 1\<rparr>) else Some m1 })
     (\<lambda>m'. rm_ok m' \<and> same_frame m m' \<and>
        pr_dis (pairing_of m') = ?D(unat b := policy0_disabled m (unat b)))" if J: "?J m1" for m1
  proof -
    let ?m1 = "m1\<lparr>rm_disable_times := rm_disable_times m1 + 1\<rparr>"
    have m1: "rm_ok m1" "unat b < unat (rm_tot_banks m1)" "rm_n_remap m1 \<noteq> 1"
      "temp_of m1 = temp_of m" "is_hot m1 = is_hot m" "unat b < length (rm_bank_stat m1)"
      using J b zero same_frame_hot[of m m1]
      by (auto simp: same_frame_def rm_ok_def rm_shape_def simp del: pairing_of_simps)
    have d1: "bs_disabled (rm_bank_stat m1 ! unat b) \<longleftrightarrow> \<not> is_cool m (unat b) \<and> ?D (unat b)"
      using J by (metis fun_upd_same pairing_of_simps(4))
    have "runs (disable_bank b b ?m1) (\<lambda>m'. rm_ok m' \<and> same_frame ?m1 m' \<and>
           pr_dis (pairing_of m') = (pr_dis (pairing_of ?m1))(unat b := True))"
      by (rule unpaired_ops) (use m1 in auto)
    then have dis: "runs (disable_bank b b ?m1) (\<lambda>m'. rm_ok m' \<and> same_frame m m' \<and>
           pr_dis (pairing_of m') = ?D(unat b := True))"
      using J by (auto elim!: runs_mono intro: same_frame_trans simp del: pairing_of_simps)
    have hot: "real (unat (rm_high_thres m1)) \<le> temp_of m (unat b) \<longleftrightarrow> is_hot m (unat b)"
      using m1(4,5) by (metis is_hot_def)
    show ?thesis
      unfolding runs_bind runs_bank_at runs_if hot
      using dis J m1(6) d1 by (auto simp: policy0_disabled_def simp del: pairing_of_simps elim!: runs_mono)
  qed
  show ?thesis
    unfolding run_policy0_def
    using rm_ok_bank(1)[OF ok b] runs_mono[OF first second]
    by (simp add: runs_bind runs_bank_at is_cool_iff)
qed

lemma run_bank_unfold:
  assumes ok: "rm_ok m" and b: "unat b < unat (rm_tot_banks m)"
  shows "run_bank b m =
     (if rm_n_remap m = 0 then run_policy0 b b (temp_of m (unat b)) m
      else if rm_n_remap m = 1
      then run_policy1 b b (bs_logical_id (rm_bank_stat m ! unat b)) (temp_of m (unat b)) m
      else Some m)"
proof -
  have "rm_n_remap m = 0 \<or> rm_n_remap m = 1 \<or> rm_n_remap m = 2"
    using ok by (auto simp: rm_ok_def word_le_nat_alt word_unat_eq_iff)
  then show ?thesis
    using rm_ok_bank(1-3)[OF ok b]
    by (auto simp: run_bank_def bank_at_def phy_at_def fetch_in temp_of_def Let_def)
qed

lemma run_bank_ok:
  assumes ok: "rm_ok m" and b: "unat b < unat (rm_tot_banks m)"
  shows "runs (run_bank b m) (\<lambda>m'. rm_ok m' \<and> same_frame m m')"
  using run_policy0_runs[OF ok b] run_policy1_runs[OF ok b] ok
  by (auto simp: run_bank_unfold[OF ok b] handled_def keeps_def elim!: runs_mono)

lemma runMechanism_ok:
  assumes "rm_ok m"
  shows "runs (runMechanism m) (\<lambda>m'. rm_ok m' \<and> same_frame m m')"
  unfolding runMechanism_def
proof (rule foldM_runs)
  fix b s assume b: "b \<in> set (u32_range 0 (rm_tot_banks m))" and I: "rm_ok s \<and> same_frame m s"
  then have "unat b < unat (rm_tot_banks s)"
    by (auto simp: set_u32_range same_frame_def)
  with I show "runs (run_bank b s) (\<lambda>m'. rm_ok m' \<and> same_frame m m')"
    using run_bank_ok[of s b] by (auto elim!: runs_mono intro: same_frame_trans)
qed (simp add: assms)

lemma runMechanism_redirects:
  assumes ok: "rm_ok m" and one: "rm_n_remap m = 1" and th: "rm_remap_thres m \<le> rm_high_thres m"
  shows "runs (runMechanism m) (\<lambda>m'. rm_ok m' \<and> same_frame m m' \<and>
     (\<forall>i<unat (rm_tot_banks m). bank_safe m' i))"
  unfolding runMechanism_def
proof (rule foldM_u32_range_runs)
  fix b :: u32 and s assume b: "unat b < unat (rm_tot_banks m)"
    and I: "rm_ok s \<and> same_frame m s \<and> (\<forall>i<unat b. bank_safe s i)"
  then have s: "rm_ok s" "unat b < unat (rm_tot_banks s)" "rm_n_remap s = 1"
    "rm_remap_thres s \<le> rm_high_thres s"
    using one th by (auto simp: same_frame_def)
  have "runs (run_bank b s) (handled b s)"
    using run_policy1_runs[OF s(1-3)] s(3) by (simp add: run_bank_unfold[OF s(1,2)])
  then show "runs (run_bank b s) (\<lambda>m'. rm_ok m' \<and> same_frame m m' \<and>
      (\<forall>i<Suc (unat b). bank_safe m' i))"
  proof (rule runs_mono)
    fix m' assume h: "handled b s m'"
    then have "rm_ok m'" "same_frame m m'"
      using I by (auto simp: handled_def keeps_def intro: same_frame_trans)
    moreover have "bank_safe m' i" if "i < Suc (unat b)" for i
      using h s I that b by (auto simp: handled_def keeps_def less_Suc_eq)
    ultimately show "rm_ok m' \<and> same_frame m m' \<and> (\<forall>i<Suc (unat b). bank_safe m' i)"
      by simp
  qed
qed (simp add: ok)

text \<open>An enabled bank is served by a bank that is not hot.\<close>

lemma safe_serving_bank:
  assumes ok: "rm_ok m" and safe: "\<forall>i<unat (rm_tot_banks m). bank_safe m i"
    and i: "i < unat (rm_tot_banks m)" and en: "\<not> pr_dis (pairing_of m) i"
  shows "\<not> is_hot m (pr_log (pairing_of m) i)"
proof -
  have at: "pr_at (unat (rm_tot_banks m)) (pairing_of m) i"
    using ok i by (auto simp: rm_ok_def intro: pr_okD)
  then have l: "pr_log (pairing_of m) i < unat (rm_tot_banks m)"
    by (simp add: pr_at_def)
  show ?thesis
  proof (cases "pr_log (pairing_of m) i = i")
    case True
    then show ?thesis using safe i en unfolding bank_safe_def by metis
  next
    case False
    then show ?thesis using safe l at en unfolding bank_safe_def pr_at_def by metis
  qed
qed

lemma runMechanism_policy0_runs:
  assumes ok: "rm_ok m" and zero: "rm_n_remap m = 0"
  shows "runs (runMechanism m) (\<lambda>m'. rm_ok m' \<and> same_frame m m' \<and>
     (\<forall>i<unat (rm_tot_banks m). pr_dis (pairing_of m') i = policy0_disabled m i))"
proof -
  let ?I = "\<lambda>k s. rm_ok s \<and> same_frame m s \<and> (\<forall>i. pr_dis (pairing_of s) i =
     (if i < k then policy0_disabled m i else pr_dis (pairing_of m) i))"
  have "runs (runMechanism m) (?I (unat (rm_tot_banks m)))"
    unfolding runMechanism_def
  proof (rule foldM_u32_range_runs)
    fix b :: u32 and s assume b: "unat b < unat (rm_tot_banks m)" and I: "?I (unat b) s"
    then have s: "rm_ok s" "unat b < unat (rm_tot_banks s)" "rm_n_remap s = 0"
      using zero by (auto simp: same_frame_def)
    have eq: "policy0_disabled s (unat b) = policy0_disabled m (unat b)"
      using I by (auto simp: policy0_disabled_def is_hot_def is_cool_def same_frame_def)
    show "runs (run_bank b s) (?I (Suc (unat b)))"
      using run_policy0_runs[OF s] I s(3)
      by (auto simp: run_bank_unfold[OF s(1,2)] eq less_Suc_eq simp del: pairing_of_simps
          elim!: runs_mono intro: same_frame_trans)
  qed (simp add: ok)
  then show ?thesis by (rule runs_mono) auto
qed

end
