(* ===== verification/Remapping_Props.thy ===== *)
theory Remapping_Props
  imports Remapping_Inv
begin

section \<open>Correctness of the remapping manager\<close>

text \<open>
  Every operation of the manager keeps it well formed; sequences of calls (the events that the
  cache controller and the thermal loop send) never fail; after a run of the mechanism the
  thermal guarantee holds. Then the MEA row counters and the index arithmetic.
\<close>

subsection \<open>Every operation of the manager keeps it well formed\<close>

lemma getBankId_in:
  assumes "rm_ok m" "v < rm_n_vaults m" "b < rm_n_banks m"
  shows "unat (getBankId m v b) = unat v * unat (rm_n_banks m) + unat b"
    and "unat (getBankId m v b) < unat (rm_tot_banks m)"
proof -
  let ?n = "unat (rm_n_banks m)"
  have tot: "unat (rm_tot_banks m) = unat (rm_n_vaults m) * ?n"
    using assms(1) by (simp add: rm_ok_def rm_shape_def)
  have "unat v * ?n + unat b < Suc (unat v) * ?n"
    using assms(3) by (simp add: word_less_nat_alt)
  also have "\<dots> \<le> unat (rm_tot_banks m)"
    unfolding tot using assms(2) by (intro mult_le_mono) (auto simp: word_less_nat_alt)
  finally have lt: "unat v * ?n + unat b < unat (rm_tot_banks m)" .
  moreover have "unat (rm_tot_banks m) < 2 ^ 32"
    using unsigned_less[of "rm_tot_banks m", where ?'a=nat] by simp
  ultimately show eq: "unat (getBankId m v b) = unat v * ?n + unat b"
    by (simp add: getBankId_def unat_word_ariths)
  show "unat (getBankId m v b) < unat (rm_tot_banks m)"
    using lt by (simp add: eq)
qed

text \<open>
  Changes that leave the geometry, the pairing and the positions alone: the operations that
  only touch temperatures, access counters, MEA tables or row sets.
\<close>

definition same_pairing :: "remap_manager \<Rightarrow> remap_manager \<Rightarrow> bool" where
  "same_pairing m m' \<longleftrightarrow>
     rm_n_vaults m' = rm_n_vaults m \<and> rm_n_banks m' = rm_n_banks m \<and>
     rm_n_rows m' = rm_n_rows m \<and> rm_tot_banks m' = rm_tot_banks m \<and>
     rm_inter_vault m' = rm_inter_vault m \<and> rm_n_remap m' = rm_n_remap m \<and>
     rm_high_thres m' = rm_high_thres m \<and> rm_remap_thres m' = rm_remap_thres m \<and>
     rm_out m' = rm_out m \<and> pairing_of m' = pairing_of m \<and> (rm_shape m \<longrightarrow> rm_shape m')"

lemma same_pairing_ok: "same_pairing m m' \<Longrightarrow> rm_ok m \<Longrightarrow> rm_ok m'"
  by (auto simp: same_pairing_def rm_ok_def simp del: pairing_of_simps)

lemma same_pairing_trans: "same_pairing m m' \<Longrightarrow> same_pairing m' m'' \<Longrightarrow> same_pairing m m''"
  by (simp add: same_pairing_def)

lemma same_pairing_phy:
  "pb_logical_bank q = pb_logical_bank (rm_phy_banks m ! j) \<Longrightarrow>
   same_pairing m (m\<lparr>rm_phy_banks := (rm_phy_banks m)[j := q]\<rparr>)"
  by (cases "j < length (rm_phy_banks m)")
     (auto simp: same_pairing_def rm_shape_def pairing_of_def nth_list_update list_update_beyond)

lemma same_pairing_bank:
  assumes "bs_bank_id q = bs_bank_id (rm_bank_stat m ! j)"
    "bs_physical_id q = bs_physical_id (rm_bank_stat m ! j)"
    "bs_logical_id q = bs_logical_id (rm_bank_stat m ! j)"
    "bs_remap_id q = bs_remap_id (rm_bank_stat m ! j)"
    "bs_combined q = bs_combined (rm_bank_stat m ! j)"
    "bs_disabled q = bs_disabled (rm_bank_stat m ! j)"
  shows "same_pairing m (m\<lparr>rm_bank_stat := (rm_bank_stat m)[j := q]\<rparr>)"
proof (cases "j < length (rm_bank_stat m)")
  case True
  then show ?thesis
    using assms by (auto simp: same_pairing_def rm_shape_def pairing_of_def nth_list_update fun_eq_iff)
next
  case False
  then show ?thesis by (simp add: same_pairing_def list_update_beyond)
qed

lemma updateTemperature_runs:
  assumes "rm_ok m" "v < rm_n_vaults m" "b < rm_n_banks m"
  shows "runs (updateTemperature v b t m) (\<lambda>m'. rm_ok m' \<and> same_pairing m m' \<and>
     temp_of m' = (temp_of m)(unat v * unat (rm_n_banks m) + unat b := t))"
proof -
  let ?k = "getBankId m v b"
  have k: "unat ?k < length (rm_phy_banks m)"
    using getBankId_in(2)[OF assms] assms(1) by (simp add: rm_ok_def rm_shape_def)
  have sp: "same_pairing m (m\<lparr>rm_phy_banks := (rm_phy_banks m)
      [unat ?k := (rm_phy_banks m ! unat ?k)\<lparr>pb_temperature := t\<rparr>]\<rparr>)"
    by (rule same_pairing_phy) simp
  show ?thesis
    using k sp same_pairing_ok[OF sp assms(1)] getBankId_in(1)[OF assms]
    by (auto simp: updateTemperature_def runs_simps temp_of_def fun_eq_iff nth_list_update)
qed

lemma BankStat_accessRow_ids [simp]:
  "bs_bank_id (BankStat_accessRow r b) = bs_bank_id b"
  "bs_physical_id (BankStat_accessRow r b) = bs_physical_id b"
  "bs_logical_id (BankStat_accessRow r b) = bs_logical_id b"
  "bs_remap_id (BankStat_accessRow r b) = bs_remap_id b"
  "bs_combined (BankStat_accessRow r b) = bs_combined b"
  "bs_disabled (BankStat_accessRow r b) = bs_disabled b"
  by (auto simp: BankStat_accessRow_def Let_def split: option.splits)

lemma accessRow_runs:
  assumes ok: "rm_ok m" and "v < rm_n_vaults m" "b < rm_n_banks m"
  shows "runs (accessRow remapped v b r m) (\<lambda>m'. rm_ok m' \<and> same_pairing m m')"
proof -
  let ?k = "getBankId m v b"
  note k = getBankId_in(2)[OF assms]
  note bk = rm_ok_bank(1-3)[OF ok k]
  have hits: "runs (phy_upd ?k f m) (\<lambda>m1. rm_bank_stat m1 = rm_bank_stat m \<and> same_pairing m m1)"
    if "\<And>p. pb_logical_bank (f p) = pb_logical_bank p" for f
    using bk that by (auto simp: runs_simps intro: same_pairing_phy)
  have "same_pairing m (m1\<lparr>rm_bank_stat := (rm_bank_stat m1)[unat ?k := BankStat_accessRow r (rm_bank_stat m1 ! unat ?k)]\<rparr>)"
    if "same_pairing m m1" for m1
    by (rule same_pairing_trans[OF that]) (rule same_pairing_bank; simp)
  then have fin: "runs (bank_upd ?k (BankStat_accessRow r) m1) (\<lambda>m'. rm_ok m' \<and> same_pairing m m')"
    if "rm_bank_stat m1 = rm_bank_stat m \<and> same_pairing m m1" for m1
    using that bk same_pairing_ok[OF _ ok] by (simp add: runs_simps) metis
  show ?thesis
    unfolding accessRow_def Let_def runs_bind
    using bk by (auto simp: runs_bank_at runs_phy_at simp del: runs_phy_upd intro!: runs_mono[OF hits fin])
qed

lemma resetStats_runs:
  assumes "rm_ok m"
  shows "runs (resetStats reset m) (\<lambda>m'. rm_ok m' \<and> same_frame m m')"
  unfolding resetStats_def
proof (rule foldM_runs)
  fix b s assume b: "b \<in> set (u32_range 0 (rm_tot_banks m))" and I: "rm_ok s \<and> same_frame m s"
  then have ok: "rm_ok s" and bt: "unat b < unat (rm_tot_banks s)"
    by (auto simp: set_u32_range same_frame_def)
  note bk = rm_ok_bank(1-3)[OF ok bt]
  let ?s = "s\<lparr>rm_bank_stat := (rm_bank_stat s)[unat b := finishRemapping (setValid True (rm_bank_stat s ! unat b))]\<rparr>"
  have sp: "same_pairing s ?s"
    by (rule same_pairing_bank) (simp_all add: finishRemapping_def setValid_def)
  then have ok': "rm_ok ?s" "unat b < unat (rm_tot_banks ?s)" "same_frame m ?s"
    using same_pairing_ok[OF sp ok] bt I by (auto simp: same_frame_def temp_of_def fun_eq_iff)
  have "runs (resetBank b ?s) (\<lambda>m'. rm_ok m' \<and> same_frame m m')"
  proof (rule runs_mono[OF resetBank_refines[OF ok'(1,2)]])
    fix m' assume r: "refines_step ?s (pr_reset (unat b) (pairing_of ?s)) m'"
    have p: "pr_ok (unat (rm_tot_banks ?s)) (pairing_of ?s)" using ok'(1) by (simp add: rm_ok_def)
    have cm: "pr_cmb (pr_reset (unat b) (pairing_of ?s)) i \<Longrightarrow> pr_cmb (pairing_of ?s) i" for i
      by (auto simp: pr_reset_def Let_def split: if_splits)
    have "rm_ok m'"
      using refines_ok[OF ok'(1) r pr_ok_reset[OF p ok'(2)]] ok'(1) cm
      by (auto simp: rm_ok_def simp del: pairing_of_simps)
    then show "rm_ok m' \<and> same_frame m m'"
      using r ok'(3) by (auto simp: refines_step_def intro: same_frame_trans)
  qed
  then show "runs (do {
         bank \<leftarrow> bank_at b s;
         let phy_id = bs_physical_id bank;
         s \<leftarrow> bank_upd b (setValid True) s;
         s \<leftarrow> bank_upd b finishRemapping s;
         p \<leftarrow> phy_at phy_id s;
         if reset \<and> pb_temperature p < real (unat (rm_high_thres s)) then resetBank b s
         else Some s
       }) (\<lambda>m'. rm_ok m' \<and> same_frame m m')"
    using bk ok' by (simp add: runs_simps Let_def)
qed (simp add: assms)

lemma RemappingManager_ok:
  assumes "unat nv * unat nb < 2 ^ 32" "n_remap \<le> 2"
  shows "rm_ok (setRemapConfig n_remap iv ht dt rt it (RemappingManager uninit nv nb nr))"
proof -
  have tot: "unat (nv * nb) = unat nv * unat nb"
    using assms(1) by (simp add: unat_word_ariths)
  have pos: "unat (u32_range 0 (nv * nb) ! i) = i" if "i < unat (nv * nb)" for i
    using that nth_map[of i "u32_range 0 (nv * nb)" unat] by (simp add: map_unat_u32_range)
  then show ?thesis
    using tot assms(2)
    by (cases uninit) (auto simp: rm_ok_def rm_shape_def pr_ok_def pr_at_def setRemapConfig_def
        RemappingManager_def Let_def PhyBank_init_def BankStat_def)
qed

subsection \<open>Sequences of calls\<close>

text \<open>The calls that change the manager once it is configured.\<close>

datatype rm_event =
    SetTemperature u32 u32 real
  | AccessRow bool u32 u32 u32
  | RunMechanism
  | ResetStats bool

fun rm_step :: "rm_event \<Rightarrow> remap_manager \<Rightarrow> remap_manager option" where
  "rm_step (SetTemperature v b t) m = updateTemperature v b t m"
| "rm_step (AccessRow remapped v b r) m = accessRow remapped v b r m"
| "rm_step RunMechanism m = runMechanism m"
| "rm_step (ResetStats reset) m = resetStats reset m"

fun rm_event_ok :: "u32 \<Rightarrow> u32 \<Rightarrow> rm_event \<Rightarrow> bool" where
  "rm_event_ok nv nb (SetTemperature v b t) \<longleftrightarrow> v < nv \<and> b < nb"
| "rm_event_ok nv nb (AccessRow remapped v b r) \<longleftrightarrow> v < nv \<and> b < nb"
| "rm_event_ok nv nb RunMechanism \<longleftrightarrow> True"
| "rm_event_ok nv nb (ResetStats reset) \<longleftrightarrow> True"

definition same_config :: "remap_manager \<Rightarrow> remap_manager \<Rightarrow> bool" where
  "same_config m m' \<longleftrightarrow>
     rm_n_vaults m' = rm_n_vaults m \<and> rm_n_banks m' = rm_n_banks m \<and>
     rm_n_rows m' = rm_n_rows m \<and> rm_tot_banks m' = rm_tot_banks m \<and>
     rm_n_remap m' = rm_n_remap m \<and> rm_high_thres m' = rm_high_thres m \<and>
     rm_remap_thres m' = rm_remap_thres m \<and> rm_out m' = rm_out m"

lemma rm_step_runs:
  assumes "rm_ok m" "rm_event_ok (rm_n_vaults m) (rm_n_banks m) e"
  shows "runs (rm_step e m) (\<lambda>m'. rm_ok m' \<and> same_config m m')"
proof (cases e)
  case (SetTemperature v b t)
  then show ?thesis
    using assms updateTemperature_runs[of m v b t]
    by (auto elim!: runs_mono simp: same_config_def same_pairing_def)
next
  case (AccessRow remapped v b r)
  then show ?thesis
    using assms accessRow_runs[of m v b remapped r]
    by (auto elim!: runs_mono simp: same_config_def same_pairing_def)
next
  case RunMechanism
  then show ?thesis
    using assms runMechanism_ok[of m]
    by (auto elim!: runs_mono simp: same_config_def same_frame_def)
next
  case (ResetStats reset)
  then show ?thesis
    using assms resetStats_runs[of m reset]
    by (auto elim!: runs_mono simp: same_config_def same_frame_def)
qed

interpretation mgr: served rm_step "rm_event_ok (rm_n_vaults m0) (rm_n_banks m0)"
  "\<lambda>m. rm_ok m \<and> same_config m0 m" for m0
  by unfold_locales (auto elim!: runs_mono[OF rm_step_runs] simp: same_config_def)

definition configured :: "u32 \<Rightarrow> bool \<Rightarrow> u32 \<Rightarrow> u32 \<Rightarrow> u32 \<Rightarrow> u32 \<Rightarrow> u32 \<times> u32 \<times> u32 \<times> u32 \<Rightarrow>
  u32 \<Rightarrow> u32 \<Rightarrow> u32 \<Rightarrow> remap_manager" where
  "configured n_remap iv ht dt rt it uninit nv nb nr =
     setRemapConfig n_remap iv ht dt rt it (RemappingManager uninit nv nb nr)"

lemma configured_sel [simp]:
  "rm_n_vaults (configured n_remap iv ht dt rt it uninit nv nb nr) = nv"
  "rm_n_banks (configured n_remap iv ht dt rt it uninit nv nb nr) = nb"
  "rm_n_rows (configured n_remap iv ht dt rt it uninit nv nb nr) = nr"
  "rm_tot_banks (configured n_remap iv ht dt rt it uninit nv nb nr) = nv * nb"
  "rm_n_remap (configured n_remap iv ht dt rt it uninit nv nb nr) = n_remap"
  "rm_high_thres (configured n_remap iv ht dt rt it uninit nv nb nr) = ht"
  "rm_remap_thres (configured n_remap iv ht dt rt it uninit nv nb nr) = rt"
  "rm_out (configured n_remap iv ht dt rt it uninit nv nb nr) = []"
  by (cases uninit; simp add: configured_def setRemapConfig_def RemappingManager_def Let_def)+

lemma configured_serves:
  assumes "unat nv * unat nb < 2 ^ 32" "n_remap \<le> 2" "\<forall>e\<in>set es. rm_event_ok nv nb e"
  shows "runs (foldM rm_step es (configured n_remap iv ht dt rt it uninit nv nb nr))
     (\<lambda>m. rm_ok m \<and> same_config (configured n_remap iv ht dt rt it uninit nv nb nr) m)"
  by (rule mgr.serve_all)
     (use assms in \<open>auto simp: same_config_def configured_def[symmetric] RemappingManager_ok[folded configured_def]\<close>)

lemma configured_thermal:
  assumes "unat nv * unat nb < 2 ^ 32" "rt \<le> ht" "\<forall>e\<in>set es. rm_event_ok nv nb e"
  shows "runs (foldM rm_step (es @ [RunMechanism]) (configured 1 iv ht dt rt it uninit nv nb nr))
     (\<lambda>m. \<forall>i<unat nv * unat nb. \<not> bs_disabled (rm_bank_stat m ! i) \<longrightarrow>
        pb_temperature (rm_phy_banks m ! unat (bs_logical_id (rm_bank_stat m ! i))) < real (unat ht))"
proof -
  let ?m0 = "configured 1 iv ht dt rt it uninit nv nb nr"
  have tot: "unat (nv * nb) = unat nv * unat nb"
    using assms(1) by (simp add: unat_word_ariths)
  have last: "runs (runMechanism m) (\<lambda>m. \<forall>i<unat nv * unat nb. \<not> bs_disabled (rm_bank_stat m ! i) \<longrightarrow>
        pb_temperature (rm_phy_banks m ! unat (bs_logical_id (rm_bank_stat m ! i))) < real (unat ht))"
    if m: "rm_ok m" "same_config ?m0 m" for m
  proof -
    have cfg: "rm_n_remap m = 1" "rm_remap_thres m \<le> rm_high_thres m" "rm_tot_banks m = nv * nb"
      "rm_high_thres m = ht"
      using m(2) assms(2) by (auto simp: same_config_def)
    show ?thesis
    proof (rule runs_mono[OF runMechanism_redirects[OF m(1) cfg(1,2)]], intro allI impI)
      fix m' i assume m': "rm_ok m' \<and> same_frame m m' \<and> (\<forall>i<unat (rm_tot_banks m). bank_safe m' i)"
        and i: "i < unat nv * unat nb" "\<not> bs_disabled (rm_bank_stat m' ! i)"
      then have "\<not> is_hot m' (pr_log (pairing_of m') i)"
        using cfg tot by (intro safe_serving_bank) (auto simp: same_frame_def)
      then show "pb_temperature (rm_phy_banks m' ! unat (bs_logical_id (rm_bank_stat m' ! i))) < real (unat ht)"
        using m' cfg by (simp add: is_hot_def temp_of_def same_frame_def)
    qed
  qed
  have "runs (foldM rm_step es ?m0) (\<lambda>m. rm_ok m \<and> same_config ?m0 m)"
    by (rule configured_serves[OF assms(1) _ assms(3)]) simp
  then show ?thesis
    using last unfolding foldM_append runs_bind
    by (elim runs_mono) (simp add: runs_bind)
qed


subsection \<open>The row counters\<close>

text \<open>
  The MEA table of a bank after a sequence \<open>rs\<close> of row accesses approximates the access
  frequencies: \<open>d\<close> counts the accesses that decremented a full table.
\<close>

definition mea_est :: "(u32, u32) omap \<Rightarrow> u32 \<Rightarrow> nat" where
  "mea_est mea r = (case map_of mea r of None \<Rightarrow> 0 | Some c \<Rightarrow> unat c)"

definition mea_sum :: "(u32, u32) omap \<Rightarrow> nat" where
  "mea_sum mea = sum_list (map (unat \<circ> snd) mea)"

definition mea_ok :: "nat \<Rightarrow> (u32, u32) omap \<Rightarrow> bool" where
  "mea_ok k mea \<longleftrightarrow> omap_wf mea \<and> length mea \<le> k \<and> (\<forall>c\<in>snd ` set mea. c \<noteq> 0)"

definition mea_approx :: "nat \<Rightarrow> u32 list \<Rightarrow> nat \<Rightarrow> (u32, u32) omap \<Rightarrow> bool" where
  "mea_approx k rs d mea \<longleftrightarrow> mea_ok k mea \<and> mea_sum mea + (k + 1) * d = length rs \<and>
     (\<forall>r. mea_est mea r \<le> count_list rs r \<and> count_list rs r \<le> mea_est mea r + d)"

lemma fold_omap_erase: "fold omap_erase ks m = filter (\<lambda>(k, _). k \<notin> set ks) m"
  by (induction ks arbitrary: m) (auto simp: omap_erase_def intro: filter_cong)

lemma zero_keys: "k \<in> set (map fst (filter (\<lambda>(k, c). c = 0) xs)) \<longleftrightarrow> (k, 0) \<in> set xs"
  by force

lemma mea_decrement_eq:
  assumes "omap_wf mea"
  shows "mea_decrement mea = filter (\<lambda>(k, c). c \<noteq> 0) (map (\<lambda>(k, c). (k, c - 1)) mea)"
proof -
  let ?dec = "map (\<lambda>(k, c). (k, c - 1)) mea"
  have "distinct (map fst ?dec)"
    using omap_wf_distinct[OF assms] by (simp add: comp_def case_prod_beta)
  then have "k \<notin> set (map fst (filter (\<lambda>(k, c). c = 0) ?dec)) \<longleftrightarrow> c \<noteq> 0" if "(k, c) \<in> set ?dec" for k c
  proof -
    have "k \<in> set (map fst (filter (\<lambda>(k, c). c = 0) ?dec)) \<longleftrightarrow> (k, 0) \<in> set ?dec"
      by (rule zero_keys)
    also have "\<dots> \<longleftrightarrow> c = 0"
      using that \<open>distinct (map fst ?dec)\<close> by (metis eq_key_imp_eq_value)
    finally show ?thesis by blast
  qed
  then show ?thesis
    unfolding mea_decrement_def Let_def fold_omap_erase
    by (intro filter_cong[OF refl]) (simp only: split_paired_all prod.case)
qed

lemma map_of_map_snd: "map_of (map (\<lambda>(k, c). (k, f c)) m) k = map_option f (map_of m k)"
  by (induction m) auto

lemma map_of_filter_snd:
  "distinct (map fst m) \<Longrightarrow> map_of (filter (\<lambda>(k, c). P c) m) k =
     (case map_of m k of None \<Rightarrow> None | Some c \<Rightarrow> if P c then Some c else None)"
  by (induction m) (auto split: option.splits simp: map_of_eq_None_iff rev_image_eqI)

lemma unat_pred: "c \<noteq> 0 \<Longrightarrow> unat (c - 1 :: u32) = unat c - 1"
  by (metis unat_minus_one)

lemma mea_decrement_est:
  assumes "mea_ok k mea"
  shows "mea_est (mea_decrement mea) r = mea_est mea r - 1"
proof -
  have wf: "omap_wf mea" using assms by (simp add: mea_ok_def)
  have nz: "c \<noteq> 0" if "map_of mea r = Some c" for c
    using that assms by (force simp: mea_ok_def dest: map_of_SomeD)
  show ?thesis
    using omap_wf_distinct[OF wf] nz
    by (auto simp: mea_est_def mea_decrement_eq[OF wf] map_of_filter_snd map_of_map_snd
        comp_def case_prod_beta unat_pred split: option.splits)
qed

lemma mea_decrement_sum:
  assumes "mea_ok k mea"
  shows "mea_sum (mea_decrement mea) + length mea = mea_sum mea"
proof -
  have "sum_list (map (unat \<circ> snd) (filter (\<lambda>(k, c). c \<noteq> 0) (map (\<lambda>(k, c). (k, c - 1)) xs))) + length xs =
      sum_list (map (unat \<circ> snd) xs)" if "\<forall>c\<in>snd ` set xs. c \<noteq> 0" for xs :: "(u32, u32) omap"
    using that
  proof (induction xs)
    case (Cons x xs)
    obtain a c where x: "x = (a, c)" by (cases x)
    have "unat c \<noteq> 0" using Cons.prems x by (auto simp: unat_eq_0)
    then show ?case
      using Cons x unat_pred[of c] by (auto simp: word_unat_eq_iff)
  qed simp
  then show ?thesis
    using assms by (simp add: mea_sum_def mea_decrement_eq mea_ok_def)
qed

lemma mea_decrement_ok:
  assumes "mea_ok k mea"
  shows "mea_ok k (mea_decrement mea)"
proof -
  have wf: "omap_wf mea" using assms by (simp add: mea_ok_def)
  have "omap_wf (map (\<lambda>(k, c). (k, c - 1)) mea)"
    using wf by (simp add: omap_wf_def comp_def case_prod_beta)
  then show ?thesis
    using assms
    by (auto simp: mea_ok_def mea_decrement_eq omap_wf_filter intro: order_trans[OF length_filter_le])
qed

lemma mea_sum_put:
  assumes "omap_wf mea"
  shows "mea_sum (omap_put r c mea) + mea_est mea r = mea_sum mea + unat c"
  using assms
proof (induction r c mea rule: omap_put.induct)
  case (2 k v k' v' m)
  have "map_of m k = None" if "k \<le> k'"
  proof -
    have "k \<notin> fst ` set m" using 2(2) that by (fastforce simp: omap_wf_def)
    then show ?thesis by (simp add: map_of_eq_None_iff)
  qed
  then show ?case
    using 2 by (auto simp: mea_sum_def mea_est_def omap_wf_def split: option.splits)
qed (simp add: mea_sum_def mea_est_def)

lemma omap_put_vals: "snd ` set (omap_put k v m) \<subseteq> insert v (snd ` set m)"
  by (induction k v m rule: omap_put.induct) auto

lemma length_omap_put_old:
  "omap_wf m \<Longrightarrow> map_of m k = Some v' \<Longrightarrow> length (omap_put k v m) = length m"
proof (induction k v m rule: omap_put.induct)
  case (2 k v k' w m)
  have "k' \<le> k"
    using 2(2,3) by (auto simp: omap_wf_def split: if_splits dest!: map_of_SomeD)
  then show ?case using 2 by (auto simp: omap_wf_def split: if_splits)
qed simp

lemma mea_put_ok:
  assumes "mea_ok k mea" "c \<noteq> 0" "map_of mea r = None \<Longrightarrow> length mea < k"
  shows "mea_ok k (omap_put r c mea)"
proof -
  have "\<forall>x\<in>snd ` set (omap_put r c mea). x \<noteq> 0"
    using assms(1,2) omap_put_vals[of r c mea] unfolding mea_ok_def by blast
  then show ?thesis
    using assms length_omap_put_old[of mea r _ c] length_omap_put_new[of mea r c]
    by (cases "map_of mea r") (auto simp: mea_ok_def omap_wf_put)
qed

lemma mea_est_put: "mea_est (omap_put r c mea) x = (if x = r then unat c else mea_est mea x)"
  by (simp add: mea_est_def map_of_omap_put)

lemma mea_access_approx:
  assumes A: "mea_approx k rs d (bs_mea_map b)" and k: "unat (bs_n_migrate_row b) = k"
    and small: "Suc (length rs) < 2 ^ 32"
  shows "\<exists>d'. mea_approx k (rs @ [r]) d' (bs_mea_map (BankStat_accessRow r b))"
proof -
  let ?mea = "bs_mea_map b"
  have ok: "mea_ok k ?mea" and wf: "omap_wf ?mea"
    and est: "mea_est ?mea x \<le> count_list rs x" "count_list rs x \<le> mea_est ?mea x + d" for x
    using A by (auto simp: mea_approx_def mea_ok_def)
  have sum: "mea_sum ?mea + (k + 1) * d = length rs" using A by (simp add: mea_approx_def)
  have put: "mea_approx k (rs @ [r]) d (omap_put r c ?mea)"
    if c: "unat c = Suc (mea_est ?mea r)" and room: "map_of ?mea r = None \<Longrightarrow> length ?mea < k" for c
  proof -
    have "c \<noteq> 0" using c by auto
    moreover have "mea_sum (omap_put r c ?mea) + (k + 1) * d = length (rs @ [r])"
      using mea_sum_put[OF wf, of r c] c sum by simp
    ultimately show ?thesis
      using mea_put_ok[OF ok] room c est by (auto simp: mea_approx_def mea_est_put)
  qed
  show ?thesis
  proof (cases "map_of ?mea r")
    case (Some c)
    have "Suc (unat c) < 2 ^ 32"
      using est(1)[of r] count_le_length[of rs r] small Some by (simp add: mea_est_def)
    then have "unat (c + 1) = Suc (unat c)" by (simp add: unat_word_ariths)
    then show ?thesis
      using put[of "c + 1"] Some by (auto simp: BankStat_accessRow_def mea_est_def)
  next
    case None
    show ?thesis
    proof (cases "length ?mea < k")
      case True
      then show ?thesis
        using put[of 1] None k by (auto simp: BankStat_accessRow_def mea_est_def)
    next
      case False
      then have full: "length ?mea = k" using ok by (simp add: mea_ok_def)
      have "mea_est (mea_decrement ?mea) x \<le> count_list (rs @ [r]) x \<and>
        count_list (rs @ [r]) x \<le> mea_est (mea_decrement ?mea) x + (d + 1)" for x
        using est[of x] None mea_decrement_est[OF ok, of x] by (auto simp: mea_est_def)
      moreover have "mea_sum (mea_decrement ?mea) + (k + 1) * (d + 1) = length (rs @ [r])"
        using mea_decrement_sum[OF ok] sum full by simp
      ultimately have "mea_approx k (rs @ [r]) (d + 1) (mea_decrement ?mea)"
        using mea_decrement_ok[OF ok] by (simp add: mea_approx_def)
      then show ?thesis
        using None False k by (auto simp: BankStat_accessRow_def)
    qed
  qed
qed

lemma mea_fold_approx:
  assumes "length rs < 2 ^ 32"
  shows "bs_n_migrate_row (fold BankStat_accessRow rs (BankStat i)) = 10 \<and>
    (\<exists>d. mea_approx 10 rs d (bs_mea_map (fold BankStat_accessRow rs (BankStat i))))"
  using assms
proof (induction rs rule: rev_induct)
  case Nil
  show ?case
    by (auto simp: BankStat_def mea_approx_def mea_ok_def mea_sum_def mea_est_def omap_wf_def)
next
  case (snoc r rs)
  have "bs_n_migrate_row (BankStat_accessRow r b) = bs_n_migrate_row b" for b
    by (auto simp: BankStat_accessRow_def Let_def split: option.splits)
  then show ?case
    using snoc mea_access_approx[of 10 rs _ "fold BankStat_accessRow rs (BankStat i)" r] by auto
qed

subsection \<open>Index arithmetic\<close>

lemma splitId_join:
  assumes "v < rm_n_vaults m" "b < rm_n_banks m" "r < rm_n_rows m"
    and "unat (rm_n_vaults m) * unat (rm_n_banks m) * unat (rm_n_rows m) \<le> 2 ^ 32"
    and k: "unat k = unat v * unat (rm_n_banks m) + unat b"
  shows "splitId m (k * rm_n_rows m + r) = Some (v, b, r)"
proof -
  let ?V = "unat (rm_n_vaults m)" and ?B = "unat (rm_n_banks m)" and ?R = "unat (rm_n_rows m)"
  have lt: "unat v < ?V" "unat b < ?B" "unat r < ?R"
    using assms(1-3) by (simp_all add: word_less_nat_alt)
  have "unat v * ?B + unat b < Suc (unat v) * ?B" using lt by simp
  also have "\<dots> \<le> ?V * ?B" using lt by (intro mult_le_mono) auto
  finally have "Suc (unat v * ?B + unat b) * ?R \<le> ?V * ?B * ?R" by (intro mult_le_mono) auto
  then have "unat k * ?R + unat r < 2 ^ 32"
    using lt assms(4) k by simp
  then have idx: "unat (k * rm_n_rows m + r) = unat k * ?R + unat r"
    by (simp add: unat_word_ariths)
  have "(k * rm_n_rows m + r) mod rm_n_rows m = r"
    using lt by (simp add: word_unat_eq_iff unat_mod idx)
  moreover have q: "(k * rm_n_rows m + r) div rm_n_rows m = k"
    using lt by (simp add: word_unat_eq_iff unat_div idx)
  moreover have "k div rm_n_banks m = v" "k mod rm_n_banks m = b"
    using lt by (simp_all add: word_unat_eq_iff unat_div unat_mod k)
  moreover have "rm_n_rows m \<noteq> 0" "rm_n_banks m \<noteq> 0" using lt by auto
  ultimately show ?thesis by (simp add: splitId_def guard_def Let_def)
qed

lemma bank_id_split:
  assumes ok: "rm_ok m" and k: "unat k < unat (rm_tot_banks m)"
  shows "k div rm_n_banks m < rm_n_vaults m" "k mod rm_n_banks m < rm_n_banks m"
    "unat k = unat (k div rm_n_banks m) * unat (rm_n_banks m) + unat (k mod rm_n_banks m)"
proof -
  have tot: "unat (rm_tot_banks m) = unat (rm_n_vaults m) * unat (rm_n_banks m)"
    using ok by (simp add: rm_ok_def rm_shape_def)
  have "0 < unat (rm_n_banks m)" using k tot by (cases "unat (rm_n_banks m)") auto
  then show "k div rm_n_banks m < rm_n_vaults m" "k mod rm_n_banks m < rm_n_banks m"
    "unat k = unat (k div rm_n_banks m) * unat (rm_n_banks m) + unat (k mod rm_n_banks m)"
    using k tot by (simp_all add: word_less_nat_alt unat_div unat_mod div_less_iff_less_mult)
qed

lemma getLogicalIndex_eq:
  assumes ok: "rm_ok m" and v: "v < rm_n_vaults m" and b: "b < rm_n_banks m" and r: "r < rm_n_rows m"
    and cap: "unat (rm_n_vaults m) * unat (rm_n_banks m) * unat (rm_n_rows m) \<le> 2 ^ 32"
  shows "getLogicalIndex m (v, b, r) =
     Some (let l = bs_logical_id (rm_bank_stat m ! unat (getBankId m v b))
           in (l div rm_n_banks m, l mod rm_n_banks m, r))"
proof -
  note k = getBankId_in(2)[OF ok v b]
  let ?l = "bs_logical_id (rm_bank_stat m ! unat (getBankId m v b))"
  have l: "unat ?l < unat (rm_tot_banks m)"
    using rm_ok_bank(6)[OF ok k] ok by (simp add: rm_ok_def rm_shape_def)
  show ?thesis
    using rm_ok_bank(1)[OF ok k] splitId_join[OF bank_id_split(1,2)[OF ok l] r cap bank_id_split(3)[OF ok l]]
    by (simp add: getLogicalIndex_def bank_at_def fetch_in Let_def)
qed

text \<open>C1: Thermal safety of the redirecting policy. The manager is built and configured with
  policy 1 and a recovery threshold that is not above the hot threshold, and then receives any
  sequence of temperature updates, row accesses, runs of the mechanism and statistics resets with
  indices in range. Right after a further run of the mechanism, every bank that is not disabled is
  served by a bank whose temperature is below the hot threshold, and no call has failed.\<close>

theorem thermal_safety:
  assumes "unat nv * unat nb < 2 ^ 32" and "rt \<le> ht" and "\<forall>e\<in>set es. rm_event_ok nv nb e"
  shows "\<exists>m. foldM rm_step (es @ [RunMechanism])
             (setRemapConfig 1 iv ht dt rt it (RemappingManager uninit nv nb nr)) = Some m \<and>
     (\<forall>i<unat nv * unat nb. \<not> bs_disabled (rm_bank_stat m ! i) \<longrightarrow>
        pb_temperature (rm_phy_banks m ! unat (bs_logical_id (rm_bank_stat m ! i))) < real (unat ht))"
  using configured_thermal[OF assms, of iv dt it uninit nr]
  unfolding configured_def runs_iff by blast

definition demo_events :: "rm_event list" where
  "demo_events = [SetTemperature 0 0 90, SetTemperature 0 1 40, AccessRow False 0 0 7, RunMechanism,
     SetTemperature 0 1 95]"

theorem thermal_safety_witness:
  "\<exists>m. foldM rm_step (demo_events @ [RunMechanism])
         (setRemapConfig 1 True 85 90 80 60 (RemappingManager (0, 0, 0, 0) 1 2 4)) = Some m \<and>
     (\<forall>i<2. \<not> bs_disabled (rm_bank_stat m ! i) \<longrightarrow>
        pb_temperature (rm_phy_banks m ! unat (bs_logical_id (rm_bank_stat m ! i))) < 85)"
  using thermal_safety[of 1 2 80 85 demo_events True 90 60 "(0, 0, 0, 0)" 4]
  by (simp add: demo_events_def)

text \<open>C28: No call sequence fails. Whatever policy 0, 1 or 2 is configured, any sequence of
  in-range calls returns, leaves the manager well formed (every bank redirected to at most one
  partner that remembers it) and prints none of the error messages of the code.\<close>

theorem manager_never_fails:
  assumes "unat nv * unat nb < 2 ^ 32" and "n_remap \<le> 2" and "\<forall>e\<in>set es. rm_event_ok nv nb e"
  shows "\<exists>m. foldM rm_step es
             (setRemapConfig n_remap iv ht dt rt it (RemappingManager uninit nv nb nr)) = Some m \<and>
     rm_ok m \<and> rm_out m = []"
  using configured_serves[OF assms, of iv ht dt rt it uninit nr]
  by (auto simp: runs_iff same_config_def) (auto simp: configured_def)

theorem manager_never_fails_witness:
  "\<exists>m. foldM rm_step [SetTemperature 1 1 99, RunMechanism, ResetStats True]
         (setRemapConfig 0 False 85 90 80 60 (RemappingManager (0, 0, 0, 0) 2 2 4)) = Some m \<and>
     rm_ok m \<and> rm_out m = []"
  using manager_never_fails[of 2 2 0 "[SetTemperature 1 1 99, RunMechanism, ResetStats True]"] by simp

text \<open>C31: Functional behaviour of policy 0. One run of the mechanism disables exactly the banks that
  are hot or were disabled and have not cooled below the recovery threshold; temperatures,
  thresholds and the redirections are unchanged.\<close>

theorem policy0_run:
  assumes "rm_ok m" and "rm_n_remap m = 0"
  shows "\<exists>m'. runMechanism m = Some m' \<and> rm_ok m' \<and> temp_of m' = temp_of m \<and>
     (\<forall>i<unat (rm_tot_banks m). bs_disabled (rm_bank_stat m' ! i) \<longleftrightarrow>
        real (unat (rm_high_thres m)) \<le> temp_of m i \<or>
        \<not> temp_of m i < real (unat (rm_remap_thres m)) \<and> bs_disabled (rm_bank_stat m ! i))"
  using runMechanism_policy0_runs[OF assms]
  by (auto simp: runs_iff policy0_disabled_def is_hot_def is_cool_def same_frame_def)

theorem policy0_run_witness:
  "\<exists>m'. runMechanism (configured 0 True 85 90 80 60 (0, 0, 0, 0) 1 2 4) = Some m' \<and> rm_ok m' \<and>
     \<not> bs_disabled (rm_bank_stat m' ! 1)"
proof -
  let ?m = "configured 0 True 85 90 80 60 (0, 0, 0, 0) 1 2 4"
  have "rm_ok ?m" unfolding configured_def by (rule RemappingManager_ok) simp_all
  moreover have "\<not> bs_disabled (rm_bank_stat ?m ! 1)" "temp_of ?m 1 = 0"
    by (simp_all add: configured_def setRemapConfig_def RemappingManager_def u32_range_def
        BankStat_def temp_of_def PhyBank_init_def upt_rec)
  ultimately show ?thesis
    using policy0_run[of ?m] by auto
qed

text \<open>The recovery operation implements the abstract unpairing. On a well-formed manager
  \<^verbatim>\<open>resetBank\<close> returns, prints nothing, and its effect on the redirections is \<open>pr_reset\<close>: a
  redirected bank and its target forget each other and the bank is enabled; a bank that serves
  another one is enabled together with it. The result is well formed.\<close>

theorem resetBank_unpairs:
  assumes "rm_ok m" and "unat b < unat (rm_tot_banks m)"
  shows "\<exists>m'. resetBank b m = Some m' \<and> pairing_of m' = pr_reset (unat b) (pairing_of m) \<and>
     pr_ok (unat (rm_tot_banks m')) (pairing_of m') \<and> rm_out m' = rm_out m"
proof -
  have "pr_ok (unat (rm_tot_banks m)) (pr_reset (unat b) (pairing_of m))"
    using assms by (intro pr_ok_reset) (auto simp: rm_ok_def)
  then show ?thesis
    using resetBank_refines[OF assms] by (auto simp: runs_iff refines_step_def same_frame_def)
qed

theorem resetBank_unpairs_witness:
  "\<exists>m'. resetBank 1 (configured 1 True 85 90 80 60 (0, 0, 0, 0) 1 2 4) = Some m' \<and> rm_out m' = []"
proof -
  let ?m = "configured 1 True 85 90 80 60 (0, 0, 0, 0) 1 2 4"
  have "rm_ok ?m" unfolding configured_def by (rule RemappingManager_ok) simp_all
  then show ?thesis using resetBank_unpairs[of ?m 1] by auto
qed

text \<open>C30: The row counters find the frequent rows. After fewer than \<open>2^32\<close> accesses to a fresh
  bank the table has at most ten entries, all with a positive counter; no counter exceeds the
  number of accesses to its row, and it misses at most one eleventh of all accesses. So every row
  with more than that share of the accesses is in the table.\<close>

theorem mea_guarantee:
  assumes "length rs < 2 ^ 32"
  shows "length (bs_mea_map (fold BankStat_accessRow rs (BankStat i))) \<le> 10 \<and>
     mea_est (bs_mea_map (fold BankStat_accessRow rs (BankStat i))) r \<le> count_list rs r \<and>
     11 * (count_list rs r - mea_est (bs_mea_map (fold BankStat_accessRow rs (BankStat i))) r)
       \<le> length rs \<and>
     (length rs < 11 * count_list rs r \<longrightarrow>
        map_of (bs_mea_map (fold BankStat_accessRow rs (BankStat i))) r \<noteq> None)"
proof -
  let ?mea = "bs_mea_map (fold BankStat_accessRow rs (BankStat i))"
  obtain d where d: "mea_approx 10 rs d ?mea"
    using mea_fold_approx[OF assms, of i] by blast
  have len: "length ?mea \<le> 10" and sum: "11 * d \<le> length rs"
    and est: "mea_est ?mea r \<le> count_list rs r" "count_list rs r \<le> mea_est ?mea r + d"
    using d by (auto simp: mea_approx_def mea_ok_def)
  have "map_of ?mea r \<noteq> None" if "length rs < 11 * count_list rs r"
  proof -
    have "mea_est ?mea r \<noteq> 0" using that est sum by linarith
    then show ?thesis by (cases "map_of ?mea r") (simp_all add: mea_est_def)
  qed
  then show ?thesis
    using len sum est by auto
qed

theorem mea_guarantee_witness:
  "map_of (bs_mea_map (fold BankStat_accessRow [5, 6, 5] (BankStat 0))) 5 \<noteq> None"
  using mea_guarantee[of "[5, 6, 5]" 0 5] by simp

text \<open>The logical index of an access addresses the bank that serves it. For a geometry whose
  rows can be numbered with 32 bits, \<^verbatim>\<open>getLogicalIndex\<close> returns the vault and bank of the
  redirection target and keeps the row; a bank that is not redirected keeps its index.\<close>

theorem logical_index_serves:
  assumes "rm_ok m" "v < rm_n_vaults m" "b < rm_n_banks m" "r < rm_n_rows m"
    and "unat (rm_n_vaults m) * unat (rm_n_banks m) * unat (rm_n_rows m) \<le> 2 ^ 32"
  shows "\<exists>v' b'. getLogicalIndex m (v, b, r) = Some (v', b', r) \<and>
     v' < rm_n_vaults m \<and> b' < rm_n_banks m \<and>
     getBankId m v' b' = bs_logical_id (rm_bank_stat m ! unat (getBankId m v b)) \<and>
     (\<not> bs_combined (rm_bank_stat m ! unat (getBankId m v b)) \<longrightarrow> v' = v \<and> b' = b)"
proof -
  note k = getBankId_in(2)[OF assms(1-3)]
  let ?l = "bs_logical_id (rm_bank_stat m ! unat (getBankId m v b))"
  have l: "unat ?l < unat (rm_tot_banks m)"
    using rm_ok_bank(6)[OF assms(1) k] assms(1) by (simp add: rm_ok_def rm_shape_def)
  note sp = bank_id_split[OF assms(1) l]
  have join: "getBankId m (?l div rm_n_banks m) (?l mod rm_n_banks m) = ?l"
    using getBankId_in(1)[OF assms(1) sp(1,2)] sp(3) by (simp add: word_unat_eq_iff)
  have "?l div rm_n_banks m = v \<and> ?l mod rm_n_banks m = b"
    if "\<not> bs_combined (rm_bank_stat m ! unat (getBankId m v b))"
    using uncombined(1)[OF assms(1) k that] getBankId_in(1)[OF assms(1-3)] assms(3)
    by (simp add: word_unat_eq_iff unat_div unat_mod word_less_nat_alt)
  with sp join show ?thesis
    by (simp add: getLogicalIndex_eq[OF assms] Let_def)
qed

theorem logical_index_serves_witness:
  "\<exists>v' b'. getLogicalIndex (configured 1 True 85 90 80 60 (0, 0, 0, 0) 1 2 4) (0, 1, 3) = Some (v', b', 3)"
proof -
  let ?m = "configured 1 True 85 90 80 60 (0, 0, 0, 0) 1 2 4"
  have "rm_ok ?m" unfolding configured_def by (rule RemappingManager_ok) simp_all
  then show ?thesis using logical_index_serves[of ?m 0 1 3] by auto
qed

text \<open>C35: The physical index collapses. \<^verbatim>\<open>getPhysicalIndex\<close> splits the physical bank id as if it were
  a row number, so when a bank has more rows than there are banks, every access is sent to vault
  0, bank 0, with the bank id as the row, whatever row was asked for.\<close>

theorem physical_index_collapses:
  assumes "rm_ok m" "v < rm_n_vaults m" "b < rm_n_banks m" "rm_tot_banks m \<le> rm_n_rows m"
  shows "getPhysicalIndex m (v, b, r) = Some (0, 0, getBankId m v b)"
proof -
  note k = getBankId_in(2)[OF assms(1-3)]
  have "unat (getBankId m v b) < unat (rm_n_rows m)"
    using k assms(4) by (simp add: word_le_nat_alt)
  then have "getBankId m v b mod rm_n_rows m = getBankId m v b" "getBankId m v b div rm_n_rows m = 0"
    by (simp_all add: word_unat_eq_iff unat_div unat_mod)
  moreover have "rm_n_rows m \<noteq> 0" "rm_n_banks m \<noteq> 0"
    using \<open>unat (getBankId m v b) < unat (rm_n_rows m)\<close> rm_ok_n_banks[OF assms(1) k] by auto
  ultimately show ?thesis
    using rm_ok_bank(1,3)[OF assms(1) k]
    by (simp add: getPhysicalIndex_def bank_at_def fetch_in splitId_def guard_def Let_def)
qed

theorem physical_index_collapses_witness:
  "getPhysicalIndex (configured 1 True 85 90 80 60 (0, 0, 0, 0) 32 8 2048) (3, 1, 77) = Some (0, 0, 25)"
proof -
  let ?m = "configured 1 True 85 90 80 60 (0, 0, 0, 0) 32 8 2048"
  have "rm_ok ?m" unfolding configured_def by (rule RemappingManager_ok) simp_all
  then show ?thesis using physical_index_collapses[of ?m 3 1 77] by (simp add: getBankId_def)
qed

end
