(* ===== verification/StackedDram.thy ===== *)
theory StackedDram
  imports Remapping_Props DramBank
begin

section \<open>The stacked DRAM controller\<close>

text \<open>
  Model of \<^verbatim>\<open>performance_model/stacked_dram_cntlr.{h,cc}\<close>: \<^verbatim>\<open>StackedDramPerfMem\<close>,
  \<^verbatim>\<open>StackedDramPerfUnison\<close> (the DRAM side of the Unison cache, with its set numbering, its
  remapping manager and its DRAM timing model) and \<^verbatim>\<open>StackedDramPerfAlloy\<close>.

  Values of the configuration file are the fields of \<open>sd_config\<close>; \<^verbatim>\<open>floorLog2\<close>, \<^verbatim>\<open>SubsecondTime::NS\<close>,
  \<^verbatim>\<open>getNS\<close>, the frequency of the statistics manager and the answer of the magic server are
  arguments. The DRAM timing model (\<^verbatim>\<open>DramModel\<close>) is used through the operations of the record
  \<open>dram_if\<close>, so the controller is parametric in its state \<open>'d\<close>. Log files are not modelled.
\<close>

subsection \<open>The interface of the DRAM timing model\<close>

record 'd dram_if =
  di_tickOnce :: "'d \<Rightarrow> 'd option"
  di_getReadLatency :: "u32 \<Rightarrow> u32 \<Rightarrow> u32 \<Rightarrow> u64 \<Rightarrow> 'd \<Rightarrow> (u32 \<times> 'd) option"
  di_getWriteLatency :: "u32 \<Rightarrow> u32 \<Rightarrow> u32 \<Rightarrow> u64 \<Rightarrow> 'd \<Rightarrow> (u32 \<times> 'd) option"
  di_setBankRef :: "u32 \<Rightarrow> u32 \<Rightarrow> bool \<Rightarrow> 'd \<Rightarrow> 'd option"
  di_tCK :: "'d \<Rightarrow> real"
  di_getServingRdReq :: "'d \<Rightarrow> u32 \<Rightarrow> u64 option"
  di_getServingWrReq :: "'d \<Rightarrow> u32 \<Rightarrow> u64 option"
  di_getVaultRowHits :: "'d \<Rightarrow> u32 \<Rightarrow> u64 option"
  di_getVaultQueLenSum :: "'d \<Rightarrow> u32 \<Rightarrow> u32 option"
  di_getBankActTime :: "'d \<Rightarrow> u32 \<Rightarrow> u32 \<Rightarrow> u64 option"
  di_getBankRdTime :: "'d \<Rightarrow> u32 \<Rightarrow> u32 \<Rightarrow> u64 option"
  di_getBankWrTime :: "'d \<Rightarrow> u32 \<Rightarrow> u32 \<Rightarrow> u64 option"
  di_getBankReads :: "'d \<Rightarrow> u32 \<Rightarrow> u32 \<Rightarrow> u32 option"
  di_getBankWrites :: "'d \<Rightarrow> u32 \<Rightarrow> u32 \<Rightarrow> u32 option"
  di_getBankRowHits :: "'d \<Rightarrow> u32 \<Rightarrow> u32 \<Rightarrow> u64 option"
  di_getBankRowConflicts :: "'d \<Rightarrow> u32 \<Rightarrow> u32 \<Rightarrow> u64 option"
  di_getBankRowMisses :: "'d \<Rightarrow> u32 \<Rightarrow> u32 \<Rightarrow> u64 option"

subsection \<open>State\<close>

record sd_config =
  cf_high_temp_thres :: u32
  cf_dangerous_temp_thres :: u32
  cf_init_temp_thres :: u32
  cf_remap_temp_thres :: u32
  cf_remap :: bool
  cf_reactive :: bool
  cf_predictive :: bool
  cf_no_hot_access :: bool
  cf_n_remap :: u32
  cf_inter_vault :: bool
  cf_bank_level_refresh :: bool
  cf_addr_map :: int
  cf_max_block :: u32
  cf_bandwidth :: u32
  cf_on_top :: bool

record ('t, 'd) unison_perf =
  up_n_vaults :: u32
  up_n_banks :: u32
  up_n_rows :: u32
  up_vault_size :: u32
  up_bank_size :: u32
  up_row_size :: u32
  up_tot_reads :: u32
  up_tot_writes :: u32
  up_tot_misses :: u32
  up_last_req :: 't
  up_remap_manager :: remap_manager
  up_enable_remap :: bool
  up_remapped :: bool
  up_enter_roi :: bool
  up_bank_level_refresh :: bool
  up_reactive :: bool
  up_predictive :: bool
  up_no_hot_access :: bool
  up_v_remap_times :: u32
  up_b_remap_times :: u32
  up_tot_dram_reads :: u32
  up_tot_dram_writes :: u32
  up_tot_row_hits :: u32
  up_tot_act_t :: 't
  up_tot_pre_t :: 't
  up_tot_rd_t :: 't
  up_tot_wr_t :: 't
  up_dram_model :: 'd
  up_first_req :: bool
  up_vaults :: "'t vault_perf list"
  up_out :: "string list"

definition build_vaults :: "u32 \<Rightarrow> u32 \<Rightarrow> u32 \<Rightarrow> u32 \<Rightarrow> 't::zero vault_perf list option" where
  "build_vaults n_vaults vault_size bank_size row_size =
     foldM (\<lambda>_ vs. do { v \<leftarrow> VaultPerfModel vault_size bank_size row_size; Some (vs @ [v]) })
       (u32_range 0 n_vaults) []"

definition StackedDramPerfUnison :: "sd_config \<Rightarrow> u32 \<times> u32 \<times> u32 \<times> u32 \<Rightarrow> 'd \<Rightarrow> u32 \<Rightarrow> u32 \<Rightarrow> u32 \<Rightarrow> u32 \<Rightarrow>
    ('t::zero, 'd) unison_perf option" where
  "StackedDramPerfUnison cfg uninit dram vaults_num vault_size bank_size row_size = do {
     guard (bank_size \<noteq> 0 \<and> row_size \<noteq> 0);
     let n_banks = vault_size div bank_size;
     let n_rows = bank_size div row_size;
     vaults \<leftarrow> build_vaults vaults_num vault_size bank_size row_size;
     let m = setRemapConfig (cf_n_remap cfg) (cf_inter_vault cfg) (cf_high_temp_thres cfg)
               (cf_dangerous_temp_thres cfg) (cf_remap_temp_thres cfg) (cf_init_temp_thres cfg)
               (RemappingManager uninit vaults_num n_banks n_rows);
     Some \<lparr>up_n_vaults = vaults_num, up_n_banks = n_banks, up_n_rows = n_rows,
        up_vault_size = vault_size, up_bank_size = bank_size, up_row_size = row_size,
        up_tot_reads = 0, up_tot_writes = 0, up_tot_misses = 0, up_last_req = 0,
        up_remap_manager = m, up_enable_remap = cf_remap cfg, up_remapped = False,
        up_enter_roi = False, up_bank_level_refresh = cf_bank_level_refresh cfg,
        up_reactive = cf_reactive cfg, up_predictive = cf_predictive cfg,
        up_no_hot_access = cf_no_hot_access cfg, up_v_remap_times = 0, up_b_remap_times = 0,
        up_tot_dram_reads = 0, up_tot_dram_writes = 0, up_tot_row_hits = 0,
        up_tot_act_t = 0, up_tot_pre_t = 0, up_tot_rd_t = 0, up_tot_wr_t = 0,
        up_dram_model = dram, up_first_req = True, up_vaults = vaults, up_out = []\<rparr>
   }"

definition up_say_if :: "bool \<Rightarrow> string \<Rightarrow> ('t, 'd) unison_perf \<Rightarrow> ('t, 'd) unison_perf" where
  "up_say_if c msg u = (if c then u\<lparr>up_out := up_out u @ [msg]\<rparr> else u)"

subsection \<open>Set numbers\<close>

text \<open>
  The bit widths that both functions compute from the geometry, and the three layouts. For an
  unknown layout \<^verbatim>\<open>splitSetNum\<close> leaves its outputs (zero at every call site) and
  \<^verbatim>\<open>getSetNum\<close> returns zero; the flag says that the configuration error was printed.
\<close>

definition set_bits :: "(u32 \<Rightarrow> u32) \<Rightarrow> ('t, 'd) unison_perf \<Rightarrow> (u32 \<times> u32 \<times> u32) option" where
  "set_bits floorLog2 u = do {
     guard (up_bank_size u \<noteq> 0 \<and> up_row_size u \<noteq> 0);
     Some (floorLog2 (up_n_vaults u), floorLog2 (up_vault_size u div up_bank_size u),
           floorLog2 (up_bank_size u div up_row_size u))
   }"

definition split_bits :: "int \<Rightarrow> u32 \<times> u32 \<times> u32 \<Rightarrow> u32 \<Rightarrow> (bool \<times> u32 \<times> u32 \<times> u32) option" where
  "split_bits addr_map bits set_i = (let (vault_bit, bank_bit, row_bit) = bits in
     if addr_map = 1 then do {
       t \<leftarrow> shr32 set_i row_bit;
       vault_i \<leftarrow> shr32 t bank_bit;
       bank_i \<leftarrow> low_bits t bank_bit;
       row_i \<leftarrow> low_bits set_i row_bit;
       Some (True, vault_i, bank_i, row_i) }
     else if addr_map = 2 then do {
       t \<leftarrow> shr32 set_i row_bit;
       vault_i \<leftarrow> low_bits t vault_bit;
       bank_i \<leftarrow> shr32 t vault_bit;
       row_i \<leftarrow> low_bits set_i row_bit;
       Some (True, vault_i, bank_i, row_i) }
     else if addr_map = 3 then do {
       vault_i \<leftarrow> low_bits set_i vault_bit;
       t \<leftarrow> shr32 set_i vault_bit;
       bank_i \<leftarrow> low_bits t bank_bit;
       row_i \<leftarrow> shr32 t bank_bit;
       Some (True, vault_i, bank_i, row_i) }
     else Some (False, 0, 0, 0))"

definition join_bits :: "int \<Rightarrow> u32 \<times> u32 \<times> u32 \<Rightarrow> u32 \<Rightarrow> u32 \<Rightarrow> u32 \<Rightarrow> (bool \<times> u32) option" where
  "join_bits addr_map bits vault_i bank_i row_i = (let (vault_bit, bank_bit, row_bit) = bits in
     if addr_map = 1 then do {
       v \<leftarrow> shl32 vault_i bank_bit;
       v \<leftarrow> shl32 v row_bit;
       b \<leftarrow> shl32 bank_i row_bit;
       Some (True, v OR b OR row_i) }
     else if addr_map = 2 then do {
       b \<leftarrow> shl32 bank_i vault_bit;
       b \<leftarrow> shl32 b row_bit;
       v \<leftarrow> shl32 vault_i row_bit;
       Some (True, b OR v OR row_i) }
     else if addr_map = 3 then do {
       r \<leftarrow> shl32 row_i vault_bit;
       r \<leftarrow> shl32 r bank_bit;
       b \<leftarrow> shl32 bank_i vault_bit;
       Some (True, r OR b OR vault_i) }
     else Some (False, 0))"

definition splitSetNum :: "(u32 \<Rightarrow> u32) \<Rightarrow> sd_config \<Rightarrow> u32 \<Rightarrow> ('t, 'd) unison_perf \<Rightarrow>
    ((u32 \<times> u32 \<times> u32) \<times> ('t, 'd) unison_perf) option" where
  "splitSetNum floorLog2 cfg set_i u = do {
     bits \<leftarrow> set_bits floorLog2 u;
     (known, v, b, r) \<leftarrow> split_bits (cf_addr_map cfg) bits set_i;
     Some ((v, b, r), up_say_if (\<not> known) ''[Config Error] No such set address mapping configuration!'' u)
   }"

definition getSetNum :: "(u32 \<Rightarrow> u32) \<Rightarrow> sd_config \<Rightarrow> u32 \<times> u32 \<times> u32 \<Rightarrow> ('t, 'd) unison_perf \<Rightarrow>
    (u32 \<times> ('t, 'd) unison_perf) option" where
  "getSetNum floorLog2 cfg idx u = do {
     let (v, b, r) = idx;
     bits \<leftarrow> set_bits floorLog2 u;
     (known, set_i) \<leftarrow> join_bits (cf_addr_map cfg) bits v b r;
     Some (set_i, up_say_if (\<not> known) ''[Config Error] No such set address mapping configuration!'' u)
   }"

definition getRemapSet :: "(u32 \<Rightarrow> u32) \<Rightarrow> sd_config \<Rightarrow> u32 \<Rightarrow> ('t, 'd) unison_perf \<Rightarrow>
    (u32 \<times> ('t, 'd) unison_perf) option" where
  "getRemapSet floorLog2 cfg set_i u = do {
     (idx, u) \<leftarrow> splitSetNum floorLog2 cfg set_i u;
     (ss, u) \<leftarrow> getSetNum floorLog2 cfg idx u;
     let u = up_say_if (ss \<noteq> set_i) ''[ERROR] HooHoo, there is a problem with set number!'' u;
     ridx \<leftarrow> getLogicalIndex (up_remap_manager u) idx;
     (remap_set, u) \<leftarrow> getSetNum floorLog2 cfg ridx u;
     let u = up_say_if (cf_n_remap cfg \<noteq> 1 \<and> remap_set \<noteq> set_i) ''[Error] impossible set number!'' u;
     Some (remap_set, u)
   }"

subsection \<open>Accesses\<close>

text \<open>
  One request of \<^verbatim>\<open>getAccessLatency\<close>'s loop: the DRAM model is ticked and asked for the latency in
  clocks, which is converted to nanoseconds with the cycle time of the model, or of the core
  when the DRAM is stacked on top of it.
\<close>

definition clocks_to_ns :: "bool \<Rightarrow> real \<Rightarrow> real \<Rightarrow> u32 \<Rightarrow> u64 option" where
  "clocks_to_ns on_top current_freq tCK clks = do {
     guard (on_top \<longrightarrow> current_freq \<noteq> 0);
     let tCK = (if on_top then 1000 / current_freq else tCK);
     let x = tCK * real (unat clks);
     guard (0 \<le> x \<and> x < 2 ^ 64);
     Some (word_of_int \<lfloor>x\<rfloor>)
   }"

definition one_request :: "'d dram_if \<Rightarrow> access_t \<Rightarrow> u32 \<times> u32 \<times> u32 \<Rightarrow> u64 \<Rightarrow> 'd \<Rightarrow> (u32 \<times> 'd) option" where
  "one_request D access_type idx pkt_ns d = (let (v, b, r) = idx in
     case access_type of
       READ \<Rightarrow> do {
         d \<leftarrow> di_tickOnce D d;
         (l, d) \<leftarrow> di_getReadLatency D v b r pkt_ns d;
         Some (0 + l, d) }
     | WRITE \<Rightarrow> do {
         d \<leftarrow> di_tickOnce D d;
         (l, d) \<leftarrow> di_getWriteLatency D v b r pkt_ns d;
         Some (0 + l, d) }
     | TRANS \<Rightarrow> do {
         d \<leftarrow> di_tickOnce D d;
         d \<leftarrow> di_tickOnce D d;
         Some (2, d) })"

primrec request_loop :: "'d dram_if \<Rightarrow> (u64 \<Rightarrow> 't::comm_monoid_add) \<Rightarrow> bool \<Rightarrow> real \<Rightarrow> access_t \<Rightarrow> u32 \<times> u32 \<times> u32 \<Rightarrow>
    u64 \<Rightarrow> nat \<Rightarrow> 't \<times> 'd \<Rightarrow> ('t \<times> 'd) option" where
  "request_loop D ns on_top freq a idx pkt_ns 0 s = Some s"
| "request_loop D ns on_top freq a idx pkt_ns (Suc n) s = do {
     let (lat, d) = s;
     (clks, d) \<leftarrow> one_request D a idx pkt_ns d;
     latency_ns \<leftarrow> clocks_to_ns on_top freq (di_tCK D d) clks;
     request_loop D ns on_top freq a idx pkt_ns n (lat + ns latency_ns, d)
   }"

text \<open>
  \<^verbatim>\<open>getAccessLatency\<close>. The elapsed clocks and the rounded bandwidth latency are computed and not
  used; only the divisions that compute them are kept.
\<close>

definition unison_getAccessLatency :: "'d dram_if \<Rightarrow> (u32 \<Rightarrow> u32) \<Rightarrow> (u64 \<Rightarrow> 't::{comm_monoid_add, linorder}) \<Rightarrow>
    ('t \<Rightarrow> u64) \<Rightarrow> real \<Rightarrow> sd_config \<Rightarrow> 't \<Rightarrow> u32 \<Rightarrow> u32 \<Rightarrow> access_t \<Rightarrow> ('t, 'd) unison_perf \<Rightarrow>
    ('t \<times> ('t, 'd) unison_perf) option" where
  "unison_getAccessLatency D floorLog2 ns getNS freq cfg pkt_time pkt_size set_i access_type u = do {
     guard (cf_max_block cfg \<noteq> 0);
     let req_times = sint (pkt_size div cf_max_block cfg);
     let req_times = (if req_times < 1 then 1 else req_times);
     (idx, u) \<leftarrow> splitSetNum floorLog2 cfg set_i u;
     (ss, u) \<leftarrow> getSetNum floorLog2 cfg idx u;
     let u = up_say_if (ss \<noteq> set_i) ''[ERROR] HooHoo, there is a problem with set number!'' u;
     let (vault_i, bank_i, row_i) = idx;
     (remapVault, remapBank, remapRow) \<leftarrow> getPhysicalIndex (up_remap_manager u) idx;
     vault \<leftarrow> fetch (up_vaults u) remapVault;
     guard (1 \<le> \<bar>di_tCK D (up_dram_model u)\<bar>);
     let u = (if pkt_time > up_last_req u then u\<lparr>up_last_req := pkt_time\<rparr> else u);
     m \<leftarrow> accessRow (up_remapped u) vault_i bank_i row_i (up_remap_manager u);
     let u = u\<lparr>up_remap_manager := m\<rparr>;
     let u = (if access_type = READ then u\<lparr>up_tot_reads := up_tot_reads u + 1\<rparr>
              else u\<lparr>up_tot_writes := up_tot_writes u + 1\<rparr>);
     (lat, d) \<leftarrow> request_loop D ns (cf_on_top cfg) freq access_type (remapVault, remapBank, remapRow)
                   (getNS pkt_time) (nat req_times) (0, up_dram_model u);
     guard (cf_bandwidth cfg \<noteq> 0);
     Some (lat, u\<lparr>up_dram_model := d\<rparr>)
   }"

subsection \<open>Checks, statistics and temperature\<close>

definition tryRemapping :: "('t, 'd) unison_perf \<Rightarrow> ('t, 'd) unison_perf option" where
  "tryRemapping u =
     (if up_remapped u \<and> up_enable_remap u then do {
        m \<leftarrow> runMechanism (up_remap_manager u);
        Some (u\<lparr>up_remap_manager := m\<rparr>) }
      else Some u)"

definition checkRowValid :: "u32 \<Rightarrow> u32 \<Rightarrow> u32 \<Rightarrow> ('t, 'd) unison_perf \<Rightarrow> bool option" where
  "checkRowValid v b r u = checkValid (up_remap_manager u) v b r"

definition checkRowMigrated :: "u32 \<Rightarrow> u32 \<Rightarrow> u32 \<Rightarrow> ('t, 'd) unison_perf \<Rightarrow> bool option" where
  "checkRowMigrated v b r u = checkMigrated (up_remap_manager u) v b r"

definition checkRowDisabled :: "u32 \<Rightarrow> u32 \<Rightarrow> u32 \<Rightarrow> ('t, 'd) unison_perf \<Rightarrow> bool option" where
  "checkRowDisabled v b r u = checkDisabled (up_remap_manager u) v b r"

definition checkSetDisabled :: "(u32 \<Rightarrow> u32) \<Rightarrow> sd_config \<Rightarrow> u32 \<Rightarrow> ('t, 'd) unison_perf \<Rightarrow>
    (bool \<times> ('t, 'd) unison_perf) option" where
  "checkSetDisabled floorLog2 cfg set_i u = do {
     ((v, b, r), u) \<leftarrow> splitSetNum floorLog2 cfg set_i u;
     d \<leftarrow> checkRowDisabled v b r u;
     Some (d, u)
   }"

definition clearRemappingStat :: "('t, 'd) unison_perf \<Rightarrow> ('t, 'd) unison_perf option" where
  "clearRemappingStat u = do {
     m \<leftarrow> resetStats False (up_remap_manager u);
     Some (u\<lparr>up_remap_manager := m\<rparr>)
   }"

text \<open>The inner loop of \<^verbatim>\<open>updateStats\<close>: the counters of one bank are overwritten with those of the DRAM model.\<close>

definition update_bank_stats :: "'d dram_if \<Rightarrow> (u64 \<Rightarrow> 't) \<Rightarrow> 'd \<Rightarrow> u32 \<Rightarrow> u32 \<Rightarrow> 't bank_perf \<Rightarrow> 't bank_perf option" where
  "update_bank_stats D ns d i j b = do {
     act_t \<leftarrow> di_getBankActTime D d i j;
     rd_t \<leftarrow> di_getBankRdTime D d i j;
     wr_t \<leftarrow> di_getBankWrTime D d i j;
     rds \<leftarrow> di_getBankReads D d i j;
     wrs \<leftarrow> di_getBankWrites D d i j;
     hits \<leftarrow> di_getBankRowHits D d i j;
     conflicts \<leftarrow> di_getBankRowConflicts D d i j;
     misses \<leftarrow> di_getBankRowMisses D d i j;
     Some (b\<lparr>bp_stats := (bp_stats b)
        \<lparr>st_tACT := ns act_t, st_tPRE := ns act_t, st_tRD := ns rd_t, st_tWR := ns wr_t,
         st_reads := rds, st_writes := wrs, st_row_hits := ucast hits,
         st_row_conflicts := ucast conflicts, st_row_misses := ucast misses\<rparr>\<rparr>)
   }"

definition update_one_bank :: "'d dram_if \<Rightarrow> (u64 \<Rightarrow> 't::comm_monoid_add) \<Rightarrow> u32 \<Rightarrow> u32 \<Rightarrow>
    ('t, 'd) unison_perf \<Rightarrow> ('t, 'd) unison_perf option" where
  "update_one_bank D ns i j u = do {
     v \<leftarrow> fetch (up_vaults u) i;
     b \<leftarrow> fetch (vp_banks v) j;
     b \<leftarrow> update_bank_stats D ns (up_dram_model u) i j b;
     banks \<leftarrow> store (vp_banks v) j b;
     vs \<leftarrow> store (up_vaults u) i (v\<lparr>vp_banks := banks\<rparr>);
     let st = bp_stats b;
     Some (u\<lparr>up_vaults := vs,
       up_tot_act_t := up_tot_act_t u + st_tACT st, up_tot_pre_t := up_tot_pre_t u + st_tPRE st,
       up_tot_rd_t := up_tot_rd_t u + st_tRD st, up_tot_wr_t := up_tot_wr_t u + st_tWR st\<rparr>)
   }"

definition update_one_vault :: "'d dram_if \<Rightarrow> (u64 \<Rightarrow> 't::comm_monoid_add) \<Rightarrow> u32 \<Rightarrow>
    ('t, 'd) unison_perf \<Rightarrow> ('t, 'd) unison_perf option" where
  "update_one_vault D ns i u = do {
     v \<leftarrow> fetch (up_vaults u) i;
     let d = up_dram_model u;
     rds \<leftarrow> di_getServingRdReq D d i;
     wrs \<leftarrow> di_getServingWrReq D d i;
     hits \<leftarrow> di_getVaultRowHits D d i;
     que_len \<leftarrow> di_getVaultQueLenSum D d i;
     let st = (vp_stats v)\<lparr>st_reads := ucast rds, st_writes := ucast wrs, st_row_hits := ucast hits, st_que_len := que_len\<rparr>;
     vs \<leftarrow> store (up_vaults u) i (v\<lparr>vp_stats := st\<rparr>);
     let u = u\<lparr>up_vaults := vs, up_tot_dram_reads := up_tot_dram_reads u + st_reads st,
        up_tot_dram_writes := up_tot_dram_writes u + st_writes st,
        up_tot_row_hits := up_tot_row_hits u + st_row_hits st\<rparr>;
     foldM (update_one_bank D ns i) (u32_range 0 (vp_n_banks v)) u
   }"

definition updateStats :: "'d dram_if \<Rightarrow> (u64 \<Rightarrow> 't::comm_monoid_add) \<Rightarrow>
    ('t, 'd) unison_perf \<Rightarrow> ('t, 'd) unison_perf option" where
  "updateStats D ns u = foldM (update_one_vault D ns) (u32_range 0 (up_n_vaults u)) u"

definition clearCacheStats :: "('t, 'd) unison_perf \<Rightarrow> ('t, 'd) unison_perf" where
  "clearCacheStats u = u\<lparr>up_tot_reads := 0, up_tot_writes := 0, up_tot_misses := 0\<rparr>"

definition set_bank_hot :: "u32 \<Rightarrow> u32 \<Rightarrow> bool \<Rightarrow> ('t, 'd) unison_perf \<Rightarrow> ('t, 'd) unison_perf option" where
  "set_bank_hot v b hot u = do {
     vault \<leftarrow> fetch (up_vaults u) v;
     bank \<leftarrow> fetch (vp_banks vault) b;
     banks \<leftarrow> store (vp_banks vault) b (bank\<lparr>bp_stats := (bp_stats bank)\<lparr>st_hot := hot\<rparr>\<rparr>);
     vs \<leftarrow> store (up_vaults u) v (vault\<lparr>vp_banks := banks\<rparr>);
     Some (u\<lparr>up_vaults := vs\<rparr>)
   }"

definition unison_updateTemperature :: "'d dram_if \<Rightarrow> bool \<Rightarrow> sd_config \<Rightarrow> u32 \<Rightarrow> u32 \<Rightarrow> real \<Rightarrow>
    ('t, 'd) unison_perf \<Rightarrow> ('t, 'd) unison_perf option" where
  "unison_updateTemperature D inROI cfg v b temperature u = do {
     let u = (if inROI then u\<lparr>up_enter_roi := True\<rparr> else u);
     m \<leftarrow> updateTemperature v b temperature (up_remap_manager u);
     let u = u\<lparr>up_remap_manager := m, up_remapped := True\<rparr>;
     let hot = (temperature \<ge> real (unat (cf_high_temp_thres cfg)));
     u \<leftarrow> set_bank_hot v b hot u;
     if up_bank_level_refresh u then do {
       d \<leftarrow> di_setBankRef D v b hot (up_dram_model u);
       Some (u\<lparr>up_dram_model := d\<rparr>) }
     else Some u
   }"

subsection \<open>The direct-mapped memory and the Alloy variant\<close>

record 't mem_perf =
  mp_n_vaults :: u32
  mp_row_size :: u32
  mp_vaults :: "'t vault_perf list"

definition StackedDramPerfMem :: "u32 \<Rightarrow> u32 \<Rightarrow> u32 \<Rightarrow> u32 \<Rightarrow> 't::zero mem_perf option" where
  "StackedDramPerfMem vaults_num vault_size bank_size row_size = do {
     vs \<leftarrow> build_vaults vaults_num vault_size bank_size row_size;
     Some \<lparr>mp_n_vaults = vaults_num, mp_row_size = row_size, mp_vaults = vs\<rparr>
   }"

text \<open>The address fields of \<^verbatim>\<open>StackedDramPerfMem::getAccessLatency\<close>; \<open>off_bit\<close> is \<^verbatim>\<open>OFF_BIT\<close>.\<close>

definition mem_fields :: "nat \<Rightarrow> nat \<Rightarrow> u64 \<Rightarrow> u32 \<times> u32 \<times> u32" where
  "mem_fields off_bit row_log address =
     (let offset = (ucast (address AND (push_bit off_bit 1 - 1)) :: u32);
          addr = drop_bit off_bit address;
          v_i = (ucast (addr AND (push_bit 5 1 - 1)) :: u32);
          addr = drop_bit 5 addr;
          b_i = (ucast (addr AND (push_bit 1 1 - 1)) :: u32);
          addr = drop_bit 1 addr;
          p_i = (ucast (addr AND (push_bit 2 1 - 1)) :: u32);
          addr = drop_bit 2 addr;
          addr = push_bit off_bit addr OR ucast offset;
          row_i = (ucast (drop_bit row_log addr AND (push_bit 11 1 - 1)) :: u32)
      in (v_i, p_i * 2 + b_i, row_i))"

definition mem_getAccessLatency :: "nat \<Rightarrow> (u32 \<Rightarrow> u32) \<Rightarrow> (u64 \<Rightarrow> 't::{comm_monoid_add, minus}) \<Rightarrow> 't \<Rightarrow> u64 \<Rightarrow> access_t \<Rightarrow>
    't mem_perf \<Rightarrow> ('t \<times> 't mem_perf) option" where
  "mem_getAccessLatency off_bit floorLog2 ns pkt_time address access_type p = do {
     guard (unat (floorLog2 (mp_row_size p)) < 64);
     let (v_i, bank_i, row_i) = mem_fields off_bit (unat (floorLog2 (mp_row_size p))) address;
     vault \<leftarrow> fetch (mp_vaults p) v_i;
     (l, vault) \<leftarrow> processRequest ns pkt_time access_type bank_i row_i vault;
     vs \<leftarrow> store (mp_vaults p) v_i vault;
     Some (0 + l, p\<lparr>mp_vaults := vs\<rparr>)
   }"

definition StackedDramPerfAlloy :: "u32 \<Rightarrow> u32 \<Rightarrow> u32 \<Rightarrow> u32 \<Rightarrow> 't::zero mem_perf option" where
  "StackedDramPerfAlloy vaults_num vault_size bank_size row_size = do {
     vs \<leftarrow> build_vaults vaults_num vault_size bank_size row_size;
     Some \<lparr>mp_n_vaults = vaults_num, mp_row_size = row_size, mp_vaults = vs\<rparr>
   }"

definition alloy_getAccessLatency :: "'t \<Rightarrow> u32 \<Rightarrow> u32 \<Rightarrow> access_t \<Rightarrow> 't::zero mem_perf \<Rightarrow> 't \<times> 't mem_perf" where
  "alloy_getAccessLatency pkt_time pkt_size set_i access_type p = (0, p)"

subsection \<open>The set numbering is a bijection\<close>

text \<open>
  An encoding of indices by numbers, with the client's operation: relocate the index that a number
  stands for. Every layout of the set numbers is one.
\<close>

locale codec =
  fixes enc :: "'i \<Rightarrow> 's option"
    and dec :: "'s \<Rightarrow> 'i option"
    and ok :: "'i \<Rightarrow> bool"
    and num :: "'s \<Rightarrow> bool"
  assumes dec_enc: "ok x \<Longrightarrow> \<exists>s. enc x = Some s \<and> num s \<and> dec s = Some x"
    and enc_dec: "num s \<Longrightarrow> \<exists>x. dec s = Some x \<and> ok x \<and> enc x = Some s"
begin

definition relocate :: "('i \<Rightarrow> 'i option) \<Rightarrow> 's \<Rightarrow> 's option" where
  "relocate f s = do { x \<leftarrow> dec s; y \<leftarrow> f x; enc y }"

lemma enc_inj: "ok x \<Longrightarrow> ok y \<Longrightarrow> enc x = enc y \<Longrightarrow> x = y"
  using dec_enc by (metis option.inject)

lemma relocate_runs:
  assumes "num s" "\<And>x. ok x \<Longrightarrow> runs (f x) (\<lambda>y. ok y \<and> P x y)"
  shows "\<exists>x y t. dec s = Some x \<and> ok x \<and> P x y \<and> f x = Some y \<and> relocate f s = Some t \<and> num t \<and> dec t = Some y"
proof -
  obtain x where x: "dec s = Some x" "ok x" using enc_dec[OF assms(1)] by auto
  then obtain y where y: "f x = Some y" "ok y" "P x y" using assms(2) by (auto simp: runs_iff)
  then obtain t where "enc y = Some t" "num t" "dec t = Some y" using dec_enc by blast
  with x y show ?thesis by (auto simp: relocate_def)
qed

lemma relocate_id: "num s \<Longrightarrow> (\<And>x. ok x \<Longrightarrow> f x = Some x) \<Longrightarrow> relocate f s = Some s"
  using enc_dec[of s] by (auto simp: relocate_def)

end

lemma bit_below:
  fixes x :: u32
  assumes "unat x < 2 ^ n" "bit x k"
  shows "k < n"
proof -
  have "take_bit n (unat x) = unat x" using assms(1) by (rule take_bit_nat_eq_self)
  moreover have "bit (unat x) k" using assms(2) by (simp add: bit_unsigned_iff)
  ultimately show ?thesis by (metis bit_take_bit_iff)
qed

lemma below_bits: "(\<And>k. bit x k \<Longrightarrow> k < n) \<Longrightarrow> unat (x :: u32) < 2 ^ n"
proof -
  assume "\<And>k. bit x k \<Longrightarrow> k < n"
  then have "take_bit n (unat x) = unat x"
    by (intro bit_eqI) (auto simp: bit_take_bit_iff bit_unsigned_iff)
  then show ?thesis by (simp add: take_bit_nat_eq_self_iff)
qed

text \<open>Three fields: \<open>c\<close> in the low \<open>wc\<close> bits, \<open>b\<close> in the next \<open>wb\<close> bits, \<open>a\<close> above.\<close>

definition join3 :: "nat \<Rightarrow> nat \<Rightarrow> u32 \<Rightarrow> u32 \<Rightarrow> u32 \<Rightarrow> u32" where
  "join3 wb wc a b c = push_bit (wb + wc) a OR push_bit wc b OR c"

lemma bit_join3:
  "bit (join3 wb wc a b c) k \<longleftrightarrow>
     k < 32 \<and> (wb + wc \<le> k \<and> bit a (k - (wb + wc)) \<or> wc \<le> k \<and> bit b (k - wc) \<or> bit c k)"
  using bit_imp_le_length[of c k] by (auto simp: join3_def bit_or_iff bit_push_bit_iff)

lemma join3_fields:
  assumes "wa + wb + wc \<le> 32" and "unat a < 2 ^ wa" "unat b < 2 ^ wb" "unat c < 2 ^ wc"
  shows "drop_bit wb (drop_bit wc (join3 wb wc a b c)) = a"
    "take_bit wb (drop_bit wc (join3 wb wc a b c)) = b"
    "take_bit wc (join3 wb wc a b c) = c"
    "unat (join3 wb wc a b c) < 2 ^ (wa + wb + wc)"
proof -
  have a: "bit a k \<Longrightarrow> k < wa" and b: "bit b k \<Longrightarrow> k < wb" and c: "bit c k \<Longrightarrow> k < wc" for k
    using assms by (auto dest: bit_below)
  show "drop_bit wb (drop_bit wc (join3 wb wc a b c)) = a"
    using assms(1) by (intro bit_word_eqI) (auto simp: bit_drop_bit_eq bit_join3 dest: a b c)
  show "take_bit wb (drop_bit wc (join3 wb wc a b c)) = b"
    using assms(1) by (intro bit_word_eqI) (auto simp: bit_take_bit_iff bit_drop_bit_eq bit_join3 dest: a b c)
  show "take_bit wc (join3 wb wc a b c) = c"
    using assms(1) by (intro bit_word_eqI) (auto simp: bit_take_bit_iff bit_join3 dest: a b c)
  show "unat (join3 wb wc a b c) < 2 ^ (wa + wb + wc)"
    by (rule below_bits) (auto simp: bit_join3 dest: a b c)
qed

lemma split3_join:
  assumes "unat s < 2 ^ (wa + wb + wc)"
  shows "join3 wb wc (drop_bit wb (drop_bit wc s)) (take_bit wb (drop_bit wc s)) (take_bit wc s) = s"
    "unat (drop_bit wb (drop_bit wc s)) < 2 ^ wa"
    "unat (take_bit wb (drop_bit wc s)) < 2 ^ wb" "unat (take_bit wc s) < 2 ^ wc"
proof -
  show "join3 wb wc (drop_bit wb (drop_bit wc s)) (take_bit wb (drop_bit wc s)) (take_bit wc s) = s"
  proof (rule bit_word_eqI)
    fix k assume k: "k < LENGTH(32)"
    consider "wb + wc \<le> k" "wb + (wc + (k - (wb + wc))) = k" | "wc \<le> k" "k < wb + wc" | "k < wc" by linarith
    then show "bit (join3 wb wc (drop_bit wb (drop_bit wc s)) (take_bit wb (drop_bit wc s)) (take_bit wc s)) k = bit s k"
      by cases (use k in \<open>auto simp: bit_join3 bit_drop_bit_eq bit_take_bit_iff ac_simps\<close>)
  qed
  show "unat (drop_bit wb (drop_bit wc s)) < 2 ^ wa"
    by (rule below_bits) (use bit_below[OF assms] in \<open>fastforce simp: bit_drop_bit_eq\<close>)
  show "unat (take_bit wb (drop_bit wc s)) < 2 ^ wb" "unat (take_bit wc s) < 2 ^ wc"
    by (auto intro!: below_bits simp: bit_take_bit_iff)
qed

text \<open>The geometries for which the layouts are used: powers of two whose product fits 32 bits.\<close>

definition good_bits :: "int \<Rightarrow> u32 \<times> u32 \<times> u32 \<Rightarrow> bool" where
  "good_bits addr_map bits \<longleftrightarrow> (let (vb, bb, rb) = bits in
     addr_map \<in> {1, 2, 3} \<and> unat vb < 32 \<and> unat bb < 32 \<and> unat rb < 32 \<and>
     unat vb + unat bb + unat rb \<le> 32)"

definition idx_ok :: "int \<Rightarrow> u32 \<times> u32 \<times> u32 \<Rightarrow> u32 \<times> u32 \<times> u32 \<Rightarrow> bool" where
  "idx_ok addr_map bits idx \<longleftrightarrow> (let (vb, bb, rb) = bits; (v, b, r) = idx in good_bits addr_map bits \<and>
     unat v < 2 ^ unat vb \<and> unat b < 2 ^ unat bb \<and> unat r < 2 ^ unat rb)"

definition set_ok :: "int \<Rightarrow> u32 \<times> u32 \<times> u32 \<Rightarrow> u32 \<Rightarrow> bool" where
  "set_ok addr_map bits set_i \<longleftrightarrow> (let (vb, bb, rb) = bits in good_bits addr_map bits \<and>
     unat set_i < 2 ^ (unat vb + unat bb + unat rb))"

definition enc_set :: "int \<Rightarrow> u32 \<times> u32 \<times> u32 \<Rightarrow> u32 \<times> u32 \<times> u32 \<Rightarrow> u32 option" where
  "enc_set addr_map bits idx = (let (v, b, r) = idx in
     do { (known, s) \<leftarrow> join_bits addr_map bits v b r; guard known; Some s })"

definition dec_set :: "int \<Rightarrow> u32 \<times> u32 \<times> u32 \<Rightarrow> u32 \<Rightarrow> (u32 \<times> u32 \<times> u32) option" where
  "dec_set addr_map bits s = do { (known, idx) \<leftarrow> split_bits addr_map bits s; guard known; Some idx }"

lemma enc_set_eq:
  assumes "good_bits am (vb, bb, rb)"
  shows "enc_set am (vb, bb, rb) (v, b, r) = Some
    (if am = 1 then join3 (unat bb) (unat rb) v b r
     else if am = 2 then join3 (unat vb) (unat rb) b v r
     else join3 (unat bb) (unat vb) r b v)"
  using assms
  by (auto simp: enc_set_def join_bits_def good_bits_def shl32_def join3_def guard_def add.commute)

lemma dec_set_eq:
  assumes "good_bits am (vb, bb, rb)"
  shows "dec_set am (vb, bb, rb) s = Some
    (if am = 1 then (drop_bit (unat bb) (drop_bit (unat rb) s), take_bit (unat bb) (drop_bit (unat rb) s), take_bit (unat rb) s)
     else if am = 2 then (take_bit (unat vb) (drop_bit (unat rb) s), drop_bit (unat vb) (drop_bit (unat rb) s), take_bit (unat rb) s)
     else (take_bit (unat vb) s, take_bit (unat bb) (drop_bit (unat vb) s), drop_bit (unat bb) (drop_bit (unat vb) s)))"
  using assms
  by (auto simp: dec_set_def split_bits_def good_bits_def shr32_def low_bits_eq guard_def)

interpretation sets: codec "enc_set am bits" "dec_set am bits" "idx_ok am bits" "set_ok am bits" for am bits
proof
  fix x assume x: "idx_ok am bits x"
  obtain v b r vb bb rb where eqs: "x = (v, b, r)" "bits = (vb, bb, rb)" by (metis prod_cases3)
  have g: "good_bits am (vb, bb, rb)" and lt: "unat v < 2 ^ unat vb" "unat b < 2 ^ unat bb" "unat r < 2 ^ unat rb"
    and sum: "unat vb + unat bb + unat rb \<le> 32" and am: "am = 1 \<or> am = 2 \<or> am = 3"
    using x by (auto simp: idx_ok_def good_bits_def eqs)
  have perm: "unat bb + unat vb + unat rb = unat vb + unat bb + unat rb"
    "unat rb + unat bb + unat vb = unat vb + unat bb + unat rb" by simp_all
  note f1 = join3_fields[of "unat vb" "unat bb" "unat rb" v b r]
    and f2 = join3_fields[of "unat bb" "unat vb" "unat rb" b v r, unfolded perm]
    and f3 = join3_fields[of "unat rb" "unat bb" "unat vb" r b v, unfolded perm]
  show "\<exists>s. enc_set am bits x = Some s \<and> set_ok am bits s \<and> dec_set am bits s = Some x"
    using am
  proof (elim disjE)
    assume "am = 1"
    then show ?thesis using f1 lt sum g by (simp add: eqs enc_set_eq dec_set_eq set_ok_def)
  next
    assume "am = 2"
    then show ?thesis using f2 lt sum g by (simp add: eqs enc_set_eq dec_set_eq set_ok_def)
  next
    assume "am = 3"
    then show ?thesis using f3 lt sum g by (simp add: eqs enc_set_eq dec_set_eq set_ok_def)
  qed
next
  fix s assume s: "set_ok am bits s"
  obtain vb bb rb where eqs: "bits = (vb, bb, rb)" by (metis prod_cases3)
  have g: "good_bits am (vb, bb, rb)" and lt: "unat s < 2 ^ (unat vb + unat bb + unat rb)"
    and am: "am = 1 \<or> am = 2 \<or> am = 3"
    using s by (auto simp: set_ok_def good_bits_def eqs)
  have perm: "unat bb + unat vb + unat rb = unat vb + unat bb + unat rb"
    "unat rb + unat bb + unat vb = unat vb + unat bb + unat rb" by simp_all
  note f1 = split3_join[of s "unat vb" "unat bb" "unat rb"]
    and f2 = split3_join[of s "unat bb" "unat vb" "unat rb", unfolded perm]
    and f3 = split3_join[of s "unat rb" "unat bb" "unat vb", unfolded perm]
  show "\<exists>x. dec_set am bits s = Some x \<and> idx_ok am bits x \<and> enc_set am bits x = Some s"
    using am
  proof (elim disjE)
    assume "am = 1"
    then show ?thesis using f1 lt g by (simp add: eqs enc_set_eq dec_set_eq idx_ok_def)
  next
    assume "am = 2"
    then show ?thesis using f2 lt g by (simp add: eqs enc_set_eq dec_set_eq idx_ok_def)
  next
    assume "am = 3"
    then show ?thesis using f3 lt g by (simp add: eqs enc_set_eq dec_set_eq idx_ok_def)
  qed
qed

subsection \<open>Well-formed controllers\<close>

text \<open>What the code relies on of \<^verbatim>\<open>floorLog2\<close>: it is exact on powers of two.\<close>

definition floorLog2_ok :: "(u32 \<Rightarrow> u32) \<Rightarrow> bool" where
  "floorLog2_ok floorLog2 \<longleftrightarrow> (\<forall>k<32. floorLog2 (2 ^ k) = word_of_nat k)"

definition pow2_geometry :: "u32 \<Rightarrow> u32 \<Rightarrow> u32 \<Rightarrow> bool" where
  "pow2_geometry nv nb nr \<longleftrightarrow> (\<exists>a b c. a < 32 \<and> b < 32 \<and> c < 32 \<and> a + b + c \<le> 32 \<and>
     nv = 2 ^ a \<and> nb = 2 ^ b \<and> nr = 2 ^ c)"

definition up_ok :: "sd_config \<Rightarrow> ('t, 'd) unison_perf \<Rightarrow> bool" where
  "up_ok cfg u \<longleftrightarrow> up_bank_size u \<noteq> 0 \<and> up_row_size u \<noteq> 0 \<and>
     up_n_banks u = up_vault_size u div up_bank_size u \<and> up_n_rows u = up_bank_size u div up_row_size u \<and>
     cf_addr_map cfg \<in> {1, 2, 3} \<and> pow2_geometry (up_n_vaults u) (up_n_banks u) (up_n_rows u) \<and>
     rm_ok (up_remap_manager u) \<and> rm_n_vaults (up_remap_manager u) = up_n_vaults u \<and>
     rm_n_banks (up_remap_manager u) = up_n_banks u \<and> rm_n_rows (up_remap_manager u) = up_n_rows u \<and>
     rm_n_remap (up_remap_manager u) = cf_n_remap cfg \<and> rm_out (up_remap_manager u) = [] \<and>
     length (up_vaults u) = unat (up_n_vaults u) \<and>
     (\<forall>v\<in>set (up_vaults u). vp_n_banks v = up_n_banks u \<and> length (vp_banks v) = unat (up_n_banks u)) \<and>
     up_out u = []"

definition set_count :: "('t, 'd) unison_perf \<Rightarrow> nat" where
  "set_count u = unat (up_n_vaults u) * unat (up_n_banks u) * unat (up_n_rows u)"

lemma len32: "LENGTH(32) = 32"
  by simp

lemma unat_pow2: "k < 32 \<Longrightarrow> unat (2 ^ k :: u32) = 2 ^ k"
proof -
  assume "k < 32"
  then have "(2 :: nat) ^ k < 2 ^ 32" by (intro power_strict_increasing) auto
  moreover have "(2 ^ k :: u32) = word_of_nat (2 ^ k)" by simp
  ultimately show ?thesis by (simp only: unsigned_of_nat take_bit_eq_mod len32 mod_less of_nat_id)
qed

lemma up_bits:
  assumes "up_ok cfg u" "floorLog2_ok fl"
  shows "\<exists>bits. set_bits fl u = Some bits \<and> (\<forall>s. set_ok (cf_addr_map cfg) bits s \<longleftrightarrow> unat s < set_count u) \<and>
     (\<forall>v b r. idx_ok (cf_addr_map cfg) bits (v, b, r) \<longleftrightarrow> v < up_n_vaults u \<and> b < up_n_banks u \<and> r < up_n_rows u)"
proof -
  obtain a b c where g: "a < 32" "b < 32" "c < 32" "a + b + c \<le> 32"
    "up_n_vaults u = 2 ^ a" "up_n_banks u = 2 ^ b" "up_n_rows u = 2 ^ c"
    using assms(1) by (auto simp: up_ok_def pow2_geometry_def)
  let ?bits = "(word_of_nat a, word_of_nat b, word_of_nat c) :: u32 \<times> u32 \<times> u32"
  have w: "unat (word_of_nat k :: u32) = k" if "k < 32" for k
    using that by (simp add: unsigned_of_nat take_bit_eq_mod)
  have good: "good_bits (cf_addr_map cfg) ?bits"
    using assms(1) g w by (auto simp: good_bits_def up_ok_def)
  have "set_bits fl u = Some ?bits"
  proof -
    have "fl (up_n_vaults u) = word_of_nat a" "fl (up_n_banks u) = word_of_nat b" "fl (up_n_rows u) = word_of_nat c"
      using assms(2) g unfolding floorLog2_ok_def by metis+
    then show ?thesis
      using assms(1) by (simp add: set_bits_def guard_def up_ok_def)
  qed
  moreover have "set_ok (cf_addr_map cfg) ?bits s \<longleftrightarrow> unat s < set_count u" for s
    using good g(1-3) w by (simp add: set_ok_def set_count_def power_add g(5-7) unat_pow2)
  moreover have "idx_ok (cf_addr_map cfg) ?bits (x, y, z) \<longleftrightarrow> x < up_n_vaults u \<and> y < up_n_banks u \<and> z < up_n_rows u" for x y z
    using good g(1-3) w by (simp add: idx_ok_def word_less_nat_alt g(5-7) unat_pow2)
  ultimately show ?thesis by blast
qed

lemma splitSetNum_eq:
  assumes "set_bits fl u = Some bits" "dec_set (cf_addr_map cfg) bits s = Some idx"
  shows "splitSetNum fl cfg s u = Some (idx, u)"
proof (cases "split_bits (cf_addr_map cfg) bits s")
  case (Some x)
  then show ?thesis
    using assms by (cases x) (auto simp: splitSetNum_def dec_set_def up_say_if_def guard_def split: if_splits)
qed (use assms in \<open>simp add: dec_set_def\<close>)

lemma getSetNum_eq:
  assumes "set_bits fl u = Some bits" "enc_set (cf_addr_map cfg) bits idx = Some s"
  shows "getSetNum fl cfg idx u = Some (s, u)"
proof -
  obtain v b r where idx: "idx = (v, b, r)" by (cases idx)
  show ?thesis
  proof (cases "join_bits (cf_addr_map cfg) bits v b r")
    case (Some x)
    then show ?thesis
      using assms by (cases x) (auto simp: getSetNum_def enc_set_def up_say_if_def guard_def idx split: if_splits)
  qed (use assms in \<open>simp add: enc_set_def idx\<close>)
qed

text \<open>The logical index stays inside the geometry.\<close>

lemma logical_in_range:
  assumes ok: "up_ok cfg u" and i: "v < up_n_vaults u" "b < up_n_banks u" "r < up_n_rows u"
  shows "runs (getLogicalIndex (up_remap_manager u) (v, b, r)) (\<lambda>(v', b', r').
     (v' < up_n_vaults u \<and> b' < up_n_banks u \<and> r' < up_n_rows u) \<and> r' = r \<and>
     getBankId (up_remap_manager u) v' b' =
       bs_logical_id (rm_bank_stat (up_remap_manager u) ! unat (getBankId (up_remap_manager u) v b)) \<and>
     (cf_n_remap cfg \<noteq> 1 \<longrightarrow> v' = v \<and> b' = b))"
proof -
  let ?m = "up_remap_manager u"
  have m: "rm_ok ?m" "v < rm_n_vaults ?m" "b < rm_n_banks ?m" "r < rm_n_rows ?m"
    and geo: "rm_n_vaults ?m = up_n_vaults u" "rm_n_banks ?m = up_n_banks u" "rm_n_rows ?m = up_n_rows u"
    using ok i by (auto simp: up_ok_def)
  have cap: "unat (rm_n_vaults ?m) * unat (rm_n_banks ?m) * unat (rm_n_rows ?m) \<le> 2 ^ 32"
  proof -
    obtain a b c where g: "a < 32" "b < 32" "c < 32" "a + b + c \<le> 32"
      "up_n_vaults u = 2 ^ a" "up_n_banks u = 2 ^ b" "up_n_rows u = 2 ^ c"
      using ok by (auto simp: up_ok_def pow2_geometry_def)
    have "(2 :: nat) ^ (a + b + c) \<le> 2 ^ 32" using g(4) by (intro power_increasing) auto
    then show ?thesis using g(1-3) by (simp add: geo g(5-7) power_add unat_pow2)
  qed
  note k = getBankId_in(2)[OF m(1-3)]
  let ?l = "bs_logical_id (rm_bank_stat ?m ! unat (getBankId ?m v b))"
  have l: "unat ?l < unat (rm_tot_banks ?m)"
    using rm_ok_bank(6)[OF m(1) k] m(1) by (simp add: rm_ok_def rm_shape_def)
  note sp = bank_id_split[OF m(1) l]
  have join: "getBankId ?m (?l div rm_n_banks ?m) (?l mod rm_n_banks ?m) = ?l"
    using getBankId_in(1)[OF m(1) sp(1,2)] sp(3) by (simp add: word_unat_eq_iff)
  have same: "?l div rm_n_banks ?m = v \<and> ?l mod rm_n_banks ?m = b" if "cf_n_remap cfg \<noteq> 1"
  proof -
    have "\<not> bs_combined (rm_bank_stat ?m ! unat (getBankId ?m v b))"
      using that ok k by (auto simp: up_ok_def rm_ok_def)
    then show ?thesis
      using uncombined(1)[OF m(1) k] getBankId_in(1)[OF m(1-3)] m(3)
      by (simp add: word_unat_eq_iff unat_div unat_mod word_less_nat_alt)
  qed
  show ?thesis
    using sp(1,2) join same i by (simp add: getLogicalIndex_eq[OF m cap] Let_def geo)
qed

lemma getRemapSet_runs:
  assumes ok: "up_ok cfg u" and fl: "floorLog2_ok fl" and s: "unat s < set_count u"
  shows "\<exists>v b r v' b' t. splitSetNum fl cfg s u = Some ((v, b, r), u) \<and>
     v < up_n_vaults u \<and> b < up_n_banks u \<and> r < up_n_rows u \<and>
     getRemapSet fl cfg s u = Some (t, u) \<and> unat t < set_count u \<and> splitSetNum fl cfg t u = Some ((v', b', r), u) \<and>
     getBankId (up_remap_manager u) v' b' =
       bs_logical_id (rm_bank_stat (up_remap_manager u) ! unat (getBankId (up_remap_manager u) v b)) \<and>
     (cf_n_remap cfg \<noteq> 1 \<longrightarrow> t = s)"
proof -
  let ?am = "cf_addr_map cfg" and ?m = "up_remap_manager u"
  obtain bits where bits: "set_bits fl u = Some bits" "\<And>s. set_ok ?am bits s \<longleftrightarrow> unat s < set_count u"
    "\<And>v b r. idx_ok ?am bits (v, b, r) \<longleftrightarrow> v < up_n_vaults u \<and> b < up_n_banks u \<and> r < up_n_rows u"
    using up_bits[OF ok fl] by blast
  let ?P = "\<lambda>(v, b, r) (v', b', r'). r' = r \<and> getBankId ?m v' b' =
       bs_logical_id (rm_bank_stat ?m ! unat (getBankId ?m v b)) \<and> (cf_n_remap cfg \<noteq> 1 \<longrightarrow> v' = v \<and> b' = b)"
  have law: "runs (getLogicalIndex ?m x) (\<lambda>y. idx_ok ?am bits y \<and> ?P x y)" if "idx_ok ?am bits x" for x
  proof -
    obtain v b r where x: "x = (v, b, r)" by (cases x)
    then have "v < up_n_vaults u" "b < up_n_banks u" "r < up_n_rows u"
      using that by (simp_all add: bits(3))
    then show ?thesis
      unfolding x by (rule runs_mono[OF logical_in_range[OF ok]]) (auto simp: bits(3))
  qed
  have "set_ok ?am bits s" using s bits(2) by simp
  then obtain x y t where xyt: "dec_set ?am bits s = Some x" "idx_ok ?am bits x" "?P x y"
    "getLogicalIndex ?m x = Some y" "sets.relocate ?am bits (getLogicalIndex ?m) s = Some t"
    "set_ok ?am bits t" "dec_set ?am bits t = Some y"
    using sets.relocate_runs[of ?am bits s "getLogicalIndex ?m" ?P, OF _ law] by blast
  have ex: "enc_set ?am bits x = Some s"
    using sets.enc_dec[OF \<open>set_ok ?am bits s\<close>] xyt(1) by auto
  have ey: "enc_set ?am bits y = Some t"
    using xyt(1,4,5) by (simp add: sets.relocate_def)
  have ts: "t = s" if "cf_n_remap cfg \<noteq> 1"
    using that xyt(3) ex ey by (cases x; cases y) auto
  have "getRemapSet fl cfg s u = Some (t, u)"
    using splitSetNum_eq[OF bits(1) xyt(1)] getSetNum_eq[OF bits(1) ex] getSetNum_eq[OF bits(1) ey] xyt(4) ts
    by (auto simp: getRemapSet_def up_say_if_def)
  then show ?thesis
    using splitSetNum_eq[OF bits(1) xyt(1)] splitSetNum_eq[OF bits(1) xyt(7)] xyt(2,3,6) bits(2,3) ts
    by (cases x; cases y) auto
qed

subsection \<open>Every operation of the controller keeps it well formed\<close>

text \<open>
  What the controller needs of the DRAM model: on states that satisfy its invariant its operations
  return, keep the invariant, and its cycle time is between one nanosecond and \<open>2^32\<close>.
\<close>

definition dram_total :: "u32 \<Rightarrow> u32 \<Rightarrow> 'd dram_if \<Rightarrow> ('d \<Rightarrow> bool) \<Rightarrow> bool" where
  "dram_total nv nb D dinv \<longleftrightarrow> (\<forall>d. dinv d \<longrightarrow>
     runs (di_tickOnce D d) dinv \<and>
     (\<forall>v b r t. runs (di_getReadLatency D v b r t d) (\<lambda>(l, d'). dinv d')) \<and>
     (\<forall>v b r t. runs (di_getWriteLatency D v b r t d) (\<lambda>(l, d'). dinv d')) \<and>
     (\<forall>v b h. v < nv \<and> b < nb \<longrightarrow> runs (di_setBankRef D v b h d) dinv) \<and>
     (\<forall>v<nv. di_getServingRdReq D d v \<noteq> None \<and> di_getServingWrReq D d v \<noteq> None \<and> di_getVaultRowHits D d v \<noteq> None \<and>
        di_getVaultQueLenSum D d v \<noteq> None) \<and>
     (\<forall>v b. v < nv \<and> b < nb \<longrightarrow> di_getBankActTime D d v b \<noteq> None \<and> di_getBankRdTime D d v b \<noteq> None \<and>
        di_getBankWrTime D d v b \<noteq> None \<and> di_getBankReads D d v b \<noteq> None \<and> di_getBankWrites D d v b \<noteq> None \<and>
        di_getBankRowHits D d v b \<noteq> None \<and> di_getBankRowConflicts D d v b \<noteq> None \<and> di_getBankRowMisses D d v b \<noteq> None) \<and>
     1 \<le> di_tCK D d \<and> di_tCK D d \<le> 2 ^ 32)"

lemma one_request_runs:
  assumes "dram_total nv nb D dinv" "dinv d"
  shows "runs (one_request D a idx t d) (\<lambda>(l, d'). dinv d')"
proof -
  have tick: "runs (di_tickOnce D d) dinv" if "dinv d" for d
    using assms that by (simp add: dram_total_def)
  have lat: "runs (di_getReadLatency D v b r t d) (\<lambda>(l, d'). dinv d')"
    "runs (di_getWriteLatency D v b r t d) (\<lambda>(l, d'). dinv d')" if "dinv d" for v b r d
    using assms that by (simp_all add: dram_total_def)
  obtain v b r where idx: "idx = (v, b, r)" by (cases idx)
  show ?thesis
    by (cases a) (auto simp: one_request_def idx runs_bind intro!: runs_mono[OF tick] assms(2)
        runs_mono[OF lat(1)] runs_mono[OF lat(2)])
qed

lemma clocks_to_ns_runs:
  assumes "on_top \<Longrightarrow> 1 \<le> freq" "0 \<le> tCK" "tCK \<le> 2 ^ 32"
  shows "runs (clocks_to_ns on_top freq tCK clks) (\<lambda>_. True)"
proof -
  let ?t = "if on_top then 1000 / freq else tCK"
  have t: "0 \<le> ?t" "?t \<le> 2 ^ 32"
    using assms by (auto simp: divide_le_eq)
  have c: "real (unat clks) < 2 ^ 32"
    using unsigned_less[of clks, where ?'a=nat] by (simp del: of_nat_unat)
  have "?t * real (unat clks) \<le> 2 ^ 32 * real (unat clks)"
    using t(2) of_nat_0_le_iff by (rule mult_right_mono)
  also have "\<dots> < 2 ^ 32 * 2 ^ 32" using c by simp
  finally have "?t * real (unat clks) < 2 ^ 64" by simp
  moreover have "0 \<le> ?t * real (unat clks)"
    using t(1) of_nat_0_le_iff by (rule mult_nonneg_nonneg)
  ultimately show ?thesis
    using assms(1) unfolding clocks_to_ns_def Let_def runs_bind runs_guard runs_Some by auto
qed

lemma request_loop_runs:
  assumes D: "dram_total nv nb D dinv" and fr: "on_top \<Longrightarrow> 1 \<le> freq"
  shows "dinv d \<Longrightarrow> runs (request_loop D ns on_top freq a idx t n (lat, d)) (\<lambda>(l, d'). dinv d')"
proof (induction n arbitrary: lat d)
  case (Suc n)
  have tck: "0 \<le> di_tCK D d" "di_tCK D d \<le> 2 ^ 32" if "dinv d" for d
    using D that by (auto simp: dram_total_def)
  show ?case
    using Suc.prems
    by (auto simp: runs_bind Let_def intro!: runs_mono[OF one_request_runs[OF D]] Suc.IH
        runs_mono[OF clocks_to_ns_runs[OF fr tck]])
qed simp

text \<open>The configuration under which the controller is run.\<close>

definition sd_cfg_ok :: "sd_config \<Rightarrow> real \<Rightarrow> bool" where
  "sd_cfg_ok cfg freq \<longleftrightarrow> cf_max_block cfg \<noteq> 0 \<and> cf_bandwidth cfg \<noteq> 0 \<and> (cf_on_top cfg \<longrightarrow> 1 \<le> freq)"

lemma up_ok_frame:
  assumes "up_ok cfg u" "rm_ok m" "same_config (up_remap_manager u) m"
  shows "up_ok cfg (u\<lparr>up_remap_manager := m\<rparr>)"
  using assms unfolding up_ok_def same_config_def by (elim conjE) (intro conjI; simp)

lemma up_manager_step:
  assumes "up_ok cfg u" "rm_event_ok (up_n_vaults u) (up_n_banks u) e"
  shows "runs (rm_step e (up_remap_manager u)) (\<lambda>m. up_ok cfg (u\<lparr>up_remap_manager := m\<rparr>))"
proof -
  have "rm_ok (up_remap_manager u)" "rm_event_ok (rm_n_vaults (up_remap_manager u)) (rm_n_banks (up_remap_manager u)) e"
    using assms by (auto simp: up_ok_def)
  from rm_step_runs[OF this] show ?thesis
    by (rule runs_mono) (use assms up_ok_frame in blast)
qed

lemma up_ok_irrelevant [simp]:
  "up_ok cfg (u\<lparr>up_last_req := x\<rparr>) = up_ok cfg u" "up_ok cfg (u\<lparr>up_tot_reads := n\<rparr>) = up_ok cfg u"
  "up_ok cfg (u\<lparr>up_tot_writes := n\<rparr>) = up_ok cfg u" "up_ok cfg (u\<lparr>up_dram_model := d\<rparr>) = up_ok cfg u"
  "up_ok cfg (u\<lparr>up_remapped := f\<rparr>) = up_ok cfg u" "up_ok cfg (u\<lparr>up_enter_roi := f\<rparr>) = up_ok cfg u"
  "up_ok cfg (u\<lparr>up_tot_misses := n\<rparr>) = up_ok cfg u"
  "up_ok cfg (u\<lparr>up_last_req := x, up_remap_manager := m\<rparr>) = up_ok cfg (u\<lparr>up_remap_manager := m\<rparr>)"
  "up_ok cfg (u\<lparr>up_enter_roi := f, up_remap_manager := m\<rparr>) = up_ok cfg (u\<lparr>up_remap_manager := m\<rparr>)"
  by (simp_all add: up_ok_def)

text \<open>The physical index stays inside the array of vaults.\<close>

lemma physical_in_range:
  assumes ok: "up_ok cfg u" and i: "v < up_n_vaults u" "b < up_n_banks u" "r < up_n_rows u"
  shows "runs (getPhysicalIndex (up_remap_manager u) (v, b, r)) (\<lambda>(v', b', r').
     unat v' < length (up_vaults u))"
proof -
  let ?m = "up_remap_manager u"
  have m: "rm_ok ?m" "v < rm_n_vaults ?m" "b < rm_n_banks ?m" and nr: "rm_n_rows ?m \<noteq> 0"
    and len: "length (up_vaults u) = unat (rm_n_vaults ?m)"
    using ok i by (auto simp: up_ok_def)
  note k = getBankId_in(2)[OF m]
  let ?k = "getBankId ?m v b"
  have nb: "0 < unat (rm_n_banks ?m)" using m(3) by (auto simp: word_less_nat_alt)
  have "unat (?k div rm_n_rows ?m div rm_n_banks ?m) \<le> unat ?k div unat (rm_n_banks ?m)"
    by (simp add: unat_div div_le_mono)
  also have "\<dots> < unat (rm_n_vaults ?m)"
    using k m(1) nb by (simp add: rm_ok_def rm_shape_def div_less_iff_less_mult)
  finally show ?thesis
    using rm_ok_bank(1,3)[OF m(1) k] nr rm_ok_n_banks[OF m(1) k]
    by (simp add: getPhysicalIndex_def runs_simps splitId_def Let_def len)
qed

lemma unison_access_runs:
  assumes ok: "up_ok cfg u" and fl: "floorLog2_ok fl" and s: "unat s < set_count u"
    and D: "dram_total nv nb D dinv" and d: "dinv (up_dram_model u)" and cfg: "sd_cfg_ok cfg freq"
  shows "runs (unison_getAccessLatency D fl ns getNS freq cfg t pkt s a u) (\<lambda>(lat, u').
     up_ok cfg u' \<and> dinv (up_dram_model u') \<and> up_n_vaults u' = up_n_vaults u \<and> up_n_banks u' = up_n_banks u \<and>
     up_n_rows u' = up_n_rows u \<and>
     up_tot_reads u' = up_tot_reads u + (if a = READ then 1 else 0) \<and>
     up_tot_writes u' = up_tot_writes u + (if a = READ then 0 else 1))"
proof -
  let ?m = "up_remap_manager u"
  obtain v b r where idx: "splitSetNum fl cfg s u = Some ((v, b, r), u)"
      "v < up_n_vaults u" "b < up_n_banks u" "r < up_n_rows u"
    using getRemapSet_runs[OF ok fl s] by blast
  obtain bits where bits: "set_bits fl u = Some bits" "\<And>s. set_ok (cf_addr_map cfg) bits s \<longleftrightarrow> unat s < set_count u"
    using up_bits[OF ok fl] by blast
  obtain x where x: "dec_set (cf_addr_map cfg) bits s = Some x" "enc_set (cf_addr_map cfg) bits x = Some s"
    using sets.enc_dec s bits(2) by metis
  then have "x = (v, b, r)" using splitSetNum_eq[OF bits(1) x(1)] idx(1) by simp
  then have num: "getSetNum fl cfg (v, b, r) u = Some (s, u)" using getSetNum_eq[OF bits(1) x(2)] by simp
  have tck: "1 \<le> \<bar>di_tCK D (up_dram_model u)\<bar>" using D d by (auto simp: dram_total_def)
  have m: "rm_ok ?m" "v < rm_n_vaults ?m" "b < rm_n_banks ?m" using ok idx by (auto simp: up_ok_def)
  have acc: "runs (accessRow f v b r ?m) (\<lambda>m. up_ok cfg (u\<lparr>up_remap_manager := m\<rparr>))" for f
    using up_manager_step[of cfg u "AccessRow f v b r"] ok idx by simp
  have loop: "runs (request_loop D ns (cf_on_top cfg) freq a' p (getNS t) n (0, up_dram_model u)) (\<lambda>(l, d'). dinv d')" for a' p n
    by (rule request_loop_runs[OF D _ d]) (use cfg in \<open>simp add: sd_cfg_ok_def\<close>)
  have cf: "cf_max_block cfg \<noteq> 0" "cf_bandwidth cfg \<noteq> 0" using cfg by (auto simp: sd_cfg_ok_def)
  show ?thesis
    unfolding unison_getAccessLatency_def Let_def
    using cf tck
    by (auto simp: runs_simps idx(1) num up_say_if_def simp del: request_loop.simps
        intro!: runs_mono[OF physical_in_range[OF ok idx(2-4)]] runs_mono[OF acc] runs_mono[OF loop])
qed

definition up_geo :: "('t, 'd) unison_perf \<Rightarrow> u32 \<times> u32 \<times> u32" where
  "up_geo u = (up_n_vaults u, up_n_banks u, up_n_rows u)"

lemma up_ok_vaults:
  assumes "up_ok cfg u" "length vs = length (up_vaults u)"
    "\<forall>v\<in>set vs. vp_n_banks v = up_n_banks u \<and> length (vp_banks v) = unat (up_n_banks u)"
  shows "up_ok cfg (u\<lparr>up_vaults := vs\<rparr>)"
  using assms unfolding up_ok_def by (elim conjE) (intro conjI; simp)

lemma up_ok_vault:
  assumes "up_ok cfg u" "i < length (up_vaults u)"
  shows "vp_n_banks (up_vaults u ! i) = up_n_banks u" "length (vp_banks (up_vaults u ! i)) = unat (up_n_banks u)"
  using assms by (auto simp: up_ok_def)

lemma up_ok_put_vault:
  assumes ok: "up_ok cfg u" and v: "vp_n_banks v = up_n_banks u" "length (vp_banks v) = unat (up_n_banks u)"
  shows "up_ok cfg (u\<lparr>up_vaults := (up_vaults u)[i := v]\<rparr>)"
  by (rule up_ok_vaults[OF ok])
     (use ok v set_update_subset_insert[of "up_vaults u" i v] in \<open>auto simp: up_ok_def\<close>)

lemma up_ok_totals [simp]:
  "up_ok cfg (u\<lparr>up_tot_act_t := a\<rparr>) = up_ok cfg u" "up_ok cfg (u\<lparr>up_tot_pre_t := a\<rparr>) = up_ok cfg u"
  "up_ok cfg (u\<lparr>up_tot_rd_t := a\<rparr>) = up_ok cfg u" "up_ok cfg (u\<lparr>up_tot_wr_t := a\<rparr>) = up_ok cfg u"
  "up_ok cfg (u\<lparr>up_tot_dram_reads := x\<rparr>) = up_ok cfg u" "up_ok cfg (u\<lparr>up_tot_dram_writes := x\<rparr>) = up_ok cfg u"
  "up_ok cfg (u\<lparr>up_tot_row_hits := x\<rparr>) = up_ok cfg u"
  by (simp_all add: up_ok_def)

text \<open>Changes of statistics: well-formedness, geometry, manager and DRAM model stay.\<close>

definition up_stats_only :: "sd_config \<Rightarrow> ('t, 'd) unison_perf \<Rightarrow> ('t, 'd) unison_perf \<Rightarrow> bool" where
  "up_stats_only cfg u u' \<longleftrightarrow> up_ok cfg u' \<and> up_geo u' = up_geo u \<and> up_dram_model u' = up_dram_model u \<and>
     up_remap_manager u' = up_remap_manager u"

lemma update_one_bank_runs:
  assumes D: "dram_total (up_n_vaults u0) (up_n_banks u0) D dinv" and d: "dinv (up_dram_model u0)"
    and ok: "up_stats_only cfg u0 u" and i: "i < up_n_vaults u0" and j: "j < up_n_banks u0"
  shows "runs (update_one_bank D ns i j u) (up_stats_only cfg u0)"
proof -
  have geo: "up_n_vaults u = up_n_vaults u0" "up_n_banks u = up_n_banks u0" and uok: "up_ok cfg u"
    using ok by (auto simp: up_stats_only_def up_geo_def)
  have "unat i < length (up_vaults u)"
    using uok i geo by (simp add: up_ok_def word_less_nat_alt)
  moreover have "di_getBankActTime D (up_dram_model u) i j \<noteq> None" "di_getBankRdTime D (up_dram_model u) i j \<noteq> None"
    "di_getBankWrTime D (up_dram_model u) i j \<noteq> None" "di_getBankReads D (up_dram_model u) i j \<noteq> None"
    "di_getBankWrites D (up_dram_model u) i j \<noteq> None" "di_getBankRowHits D (up_dram_model u) i j \<noteq> None"
    "di_getBankRowConflicts D (up_dram_model u) i j \<noteq> None" "di_getBankRowMisses D (up_dram_model u) i j \<noteq> None"
    using D d ok i j by (auto simp: dram_total_def up_stats_only_def)
  then have bank: "runs (update_bank_stats D ns (up_dram_model u) i j b) (\<lambda>b. True)" for b
    by (auto simp: update_bank_stats_def)
  ultimately show ?thesis
    using ok up_ok_vault[OF uok] j geo up_ok_put_vault[OF uok]
    by (auto simp: update_one_bank_def runs_simps Let_def up_stats_only_def up_geo_def word_less_nat_alt intro!: runs_mono[OF bank])
qed

lemma update_one_vault_runs:
  assumes D: "dram_total (up_n_vaults u0) (up_n_banks u0) D dinv" and d: "dinv (up_dram_model u0)"
    and ok: "up_stats_only cfg u0 u" and i: "i < up_n_vaults u0"
  shows "runs (update_one_vault D ns i u) (up_stats_only cfg u0)"
proof -
  have geo: "up_n_vaults u = up_n_vaults u0" "up_n_banks u = up_n_banks u0" and uok: "up_ok cfg u"
    using ok by (auto simp: up_stats_only_def up_geo_def)
  have ilt: "unat i < length (up_vaults u)"
    using uok i geo by (simp add: up_ok_def word_less_nat_alt)
  have loop: "runs (foldM (update_one_bank D ns i) (u32_range 0 (up_n_banks u0)) u1) (up_stats_only cfg u0)"
    if "up_stats_only cfg u0 u1" for u1
    by (rule foldM_runs)
       (use that up_ok_vault[OF uok ilt] geo i in \<open>auto intro!: update_one_bank_runs[OF D d] simp: set_u32_range word_less_nat_alt\<close>)
  have "di_getServingRdReq D (up_dram_model u) i \<noteq> None" "di_getServingWrReq D (up_dram_model u) i \<noteq> None"
    "di_getVaultRowHits D (up_dram_model u) i \<noteq> None" "di_getVaultQueLenSum D (up_dram_model u) i \<noteq> None"
    using D d ok i by (auto simp: dram_total_def up_stats_only_def)
  then show ?thesis
    using ilt ok up_ok_vault[OF uok ilt, unfolded geo] up_ok_put_vault[OF uok, unfolded geo]
    by (auto simp: update_one_vault_def runs_simps Let_def up_stats_only_def up_geo_def intro!: loop)
qed

lemma updateStats_runs:
  assumes D: "dram_total (up_n_vaults u) (up_n_banks u) D dinv" "dinv (up_dram_model u)" and "up_ok cfg u"
  shows "runs (updateStats D ns u) (up_stats_only cfg u)"
  unfolding updateStats_def
  by (rule foldM_runs)
     (use assms in \<open>auto simp: set_u32_range word_less_nat_alt up_stats_only_def[of _ u u] intro!: update_one_vault_runs[OF D]\<close>)

lemma set_bank_hot_runs:
  assumes ok: "up_ok cfg u" and i: "v < up_n_vaults u" "b < up_n_banks u"
  shows "runs (set_bank_hot v b hot u) (up_stats_only cfg u)"
proof -
  have "unat v < length (up_vaults u)"
    using ok i by (simp add: up_ok_def word_less_nat_alt)
  then show ?thesis
    using up_ok_vault[OF ok] i up_ok_put_vault[OF ok]
    by (auto simp: set_bank_hot_def runs_simps up_stats_only_def up_geo_def word_less_nat_alt)
qed

lemma updateTemperature_ok:
  assumes ok: "up_ok cfg u" and i: "v < up_n_vaults u" "b < up_n_banks u"
    and D: "dram_total (up_n_vaults u) (up_n_banks u) D dinv" and d: "dinv (up_dram_model u)"
  shows "runs (unison_updateTemperature D roi cfg v b temp u) (\<lambda>u'. up_ok cfg u' \<and> up_geo u' = up_geo u \<and>
     dinv (up_dram_model u'))"
proof -
  let ?u0 = "if roi then u\<lparr>up_enter_roi := True\<rparr> else u"
  have mgr: "runs (updateTemperature v b temp (up_remap_manager u)) (\<lambda>m. up_ok cfg (u\<lparr>up_remap_manager := m\<rparr>))"
    using up_manager_step[OF ok, of "SetTemperature v b temp"] i by simp
  have hot: "runs (set_bank_hot v b h u1) (\<lambda>u'. up_ok cfg u' \<and> up_geo u' = up_geo u \<and> dinv (up_dram_model u'))"
    if "up_ok cfg u1" "up_geo u1 = up_geo u" "up_dram_model u1 = up_dram_model u" for u1 h
    by (rule runs_mono[OF set_bank_hot_runs[OF that(1)]])
       (use that i d in \<open>auto simp: up_stats_only_def up_geo_def\<close>)
  have ref: "runs (di_setBankRef D v b h (up_dram_model u1)) dinv" if "dinv (up_dram_model u1)" for h u1
    using D that i by (simp add: dram_total_def)
  show ?thesis
    unfolding unison_updateTemperature_def Let_def
    by (auto simp: runs_bind up_geo_def intro!: runs_mono[OF mgr] runs_mono[OF hot] runs_mono[OF ref])
qed

lemma tryRemapping_ok:
  assumes "up_ok cfg u"
  shows "runs (tryRemapping u) (\<lambda>u'. up_ok cfg u' \<and> up_geo u' = up_geo u \<and> up_dram_model u' = up_dram_model u)"
  using up_manager_step[OF assms, of RunMechanism] assms
  by (auto simp: tryRemapping_def runs_bind up_geo_def elim!: runs_mono)

lemma clearRemappingStat_ok:
  assumes "up_ok cfg u"
  shows "runs (clearRemappingStat u) (\<lambda>u'. up_ok cfg u' \<and> up_geo u' = up_geo u \<and> up_dram_model u' = up_dram_model u)"
  using up_manager_step[OF assms, of "ResetStats False"]
  by (auto simp: clearRemappingStat_def runs_bind up_geo_def elim!: runs_mono)

lemma build_vaults_runs:
  assumes "row_size \<noteq> 0" "bank_size \<noteq> 0" "unat (bank_size div row_size) < 2 ^ 31"
  shows "runs (build_vaults nv vault_size bank_size row_size) (\<lambda>vs :: 't::zero vault_perf list. length vs = unat nv \<and>
     (\<forall>v\<in>set vs. vp_n_banks v = vault_size div bank_size \<and> length (vp_banks v) = unat (vault_size div bank_size)))"
proof -
  let ?P = "\<lambda>v :: 't vault_perf. vp_n_banks v = vault_size div bank_size \<and> length (vp_banks v) = unat (vault_size div bank_size)"
  have one: "runs (VaultPerfModel vault_size bank_size row_size) ?P"
  proof -
    have "VaultPerfModel vault_size bank_size row_size = Some v \<Longrightarrow> vp_n_banks v = vault_size div bank_size" for v :: "'t vault_perf"
      by (auto simp: VaultPerfModel_def guard_def Let_def split: bind_splits if_splits)
    then show ?thesis
      using VaultPerfModel_ok[OF assms, of vault_size, where ?'t = 't] by (auto simp: runs_iff)
  qed
  have "runs (build_vaults nv vault_size bank_size row_size) (\<lambda>vs. length vs = unat nv \<and> (\<forall>v\<in>set vs. ?P v))"
    unfolding build_vaults_def
  proof (rule foldM_u32_range_runs)
    fix i :: u32 and vs :: "'t vault_perf list" assume "length vs = unat i \<and> (\<forall>v\<in>set vs. ?P v)"
    then show "runs (do { v \<leftarrow> VaultPerfModel vault_size bank_size row_size; Some (vs @ [v]) })
        (\<lambda>vs. length vs = Suc (unat i) \<and> (\<forall>v\<in>set vs. ?P v))"
      by (auto simp: runs_bind intro!: runs_mono[OF one])
  qed simp
  then show ?thesis by simp
qed

lemma StackedDramPerfUnison_ok:
  assumes "bank_size \<noteq> 0" "row_size \<noteq> 0" "cf_addr_map cfg \<in> {1, 2, 3}" "cf_n_remap cfg \<le> 2"
    and geo: "pow2_geometry nv (vault_size div bank_size) (bank_size div row_size)"
    and "unat (bank_size div row_size) < 2 ^ 31" "unat nv * unat (vault_size div bank_size) < 2 ^ 32"
  shows "runs (StackedDramPerfUnison cfg uninit d nv vault_size bank_size row_size) (\<lambda>u. up_ok cfg u \<and>
     up_geo u = (nv, vault_size div bank_size, bank_size div row_size) \<and> up_dram_model u = d)"
proof -
  let ?m = "configured (cf_n_remap cfg) (cf_inter_vault cfg) (cf_high_temp_thres cfg) (cf_dangerous_temp_thres cfg)
      (cf_remap_temp_thres cfg) (cf_init_temp_thres cfg) uninit nv (vault_size div bank_size) (bank_size div row_size)"
  have "rm_ok ?m" unfolding configured_def by (rule RemappingManager_ok) (use assms in auto)
  then show ?thesis
    unfolding StackedDramPerfUnison_def Let_def configured_def[symmetric]
    using assms
    by (auto simp: runs_bind runs_guard up_ok_def up_geo_def intro!: runs_mono[OF build_vaults_runs])
qed

subsection \<open>Sequences of calls\<close>

datatype 't up_event =
    UAccess 't u32 u32 access_t
  | UTemperature bool u32 u32 real
  | UTryRemapping
  | UClearRemapping
  | UUpdateStats
  | UClearCacheStats

record ('t, 'd) up_env =
  en_dram :: "'d dram_if"
  en_floorLog2 :: "u32 \<Rightarrow> u32"
  en_ns :: "u64 \<Rightarrow> 't"
  en_getNS :: "'t \<Rightarrow> u64"
  en_freq :: real
  en_cfg :: sd_config

fun up_step :: "('t::{comm_monoid_add, linorder}, 'd) up_env \<Rightarrow> 't up_event \<Rightarrow> ('t, 'd) unison_perf \<Rightarrow>
    ('t, 'd) unison_perf option" where
  "up_step E (UAccess t size' s a) u =
     do { (lat, u) \<leftarrow> unison_getAccessLatency (en_dram E) (en_floorLog2 E) (en_ns E) (en_getNS E) (en_freq E)
            (en_cfg E) t size' s a u; Some u }"
| "up_step E (UTemperature roi v b temp) u = unison_updateTemperature (en_dram E) roi (en_cfg E) v b temp u"
| "up_step E UTryRemapping u = tryRemapping u"
| "up_step E UClearRemapping u = clearRemappingStat u"
| "up_step E UUpdateStats u = updateStats (en_dram E) (en_ns E) u"
| "up_step E UClearCacheStats u = Some (clearCacheStats u)"

fun up_event_ok :: "u32 \<times> u32 \<times> u32 \<Rightarrow> 't up_event \<Rightarrow> bool" where
  "up_event_ok (nv, nb, nr) (UAccess t size' s a) \<longleftrightarrow> unat s < unat nv * unat nb * unat nr"
| "up_event_ok (nv, nb, nr) (UTemperature roi v b temp) \<longleftrightarrow> v < nv \<and> b < nb"
| "up_event_ok (nv, nb, nr) _ \<longleftrightarrow> True"

text \<open>The environment the controller runs in: the contracts of the code it calls and the configuration.\<close>

definition up_env_ok :: "u32 \<Rightarrow> u32 \<Rightarrow> ('t, 'd) up_env \<Rightarrow> ('d \<Rightarrow> bool) \<Rightarrow> bool" where
  "up_env_ok nv nb E dinv \<longleftrightarrow> dram_total nv nb (en_dram E) dinv \<and> floorLog2_ok (en_floorLog2 E) \<and>
     sd_cfg_ok (en_cfg E) (en_freq E)"

definition up_inv :: "('t, 'd) up_env \<Rightarrow> ('d \<Rightarrow> bool) \<Rightarrow> u32 \<times> u32 \<times> u32 \<Rightarrow> ('t, 'd) unison_perf \<Rightarrow> bool" where
  "up_inv E dinv geo u \<longleftrightarrow> up_env_ok (fst geo) (fst (snd geo)) E dinv \<and> up_ok (en_cfg E) u \<and> up_geo u = geo \<and> dinv (up_dram_model u)"

lemma up_step_runs:
  assumes inv: "up_inv E dinv geo u" and e: "up_event_ok geo e"
  shows "runs (up_step E e u) (up_inv E dinv geo)"
proof -
  have env: "up_env_ok (up_n_vaults u) (up_n_banks u) E dinv" and D: "dram_total (up_n_vaults u) (up_n_banks u) (en_dram E) dinv" and fl: "floorLog2_ok (en_floorLog2 E)"
    and cfg: "sd_cfg_ok (en_cfg E) (en_freq E)" and ok: "up_ok (en_cfg E) u" and d: "dinv (up_dram_model u)"
    and geo: "geo = (up_n_vaults u, up_n_banks u, up_n_rows u)"
    using inv by (auto simp: up_inv_def up_env_ok_def up_geo_def)
  show ?thesis
  proof (cases e)
    case (UAccess t p s a)
    then have s: "unat s < set_count u" using e geo by (simp add: set_count_def)
    show ?thesis
      unfolding UAccess up_step.simps runs_bind
      by (rule runs_mono[OF unison_access_runs[OF ok fl s D d cfg]]) (auto simp: up_inv_def env geo up_geo_def)
  next
    case (UTemperature roi v b temp)
    then have "v < up_n_vaults u" "b < up_n_banks u" using e geo by auto
    from updateTemperature_ok[OF ok this D d] show ?thesis
      unfolding UTemperature up_step.simps by (rule runs_mono) (auto simp: up_inv_def env geo up_geo_def)
  next
    case UTryRemapping
    then show ?thesis
      using runs_mono[OF tryRemapping_ok[OF ok], of "up_inv E dinv geo"] d by (simp add: up_inv_def env geo up_geo_def)
  next
    case UClearRemapping
    then show ?thesis
      using runs_mono[OF clearRemappingStat_ok[OF ok], of "up_inv E dinv geo"] d by (simp add: up_inv_def env geo up_geo_def)
  next
    case UUpdateStats
    then show ?thesis
      using runs_mono[OF updateStats_runs[OF D d ok], of "up_inv E dinv geo"] d
      by (simp add: up_inv_def env geo up_geo_def up_stats_only_def)
  next
    case UClearCacheStats
    then show ?thesis
      using ok d by (simp add: clearCacheStats_def up_inv_def env geo up_geo_def)
  qed
qed

interpretation ups: served "up_step E" "up_event_ok geo" "up_inv E dinv geo" for E geo dinv
  by unfold_locales (rule up_step_runs)

lemma unison_serves:
  assumes "up_env_ok nv (vault_size div bank_size) E dinv" "dinv d" "bank_size \<noteq> 0" "row_size \<noteq> 0" "cf_addr_map (en_cfg E) \<in> {1, 2, 3}"
    "cf_n_remap (en_cfg E) \<le> 2" "pow2_geometry nv (vault_size div bank_size) (bank_size div row_size)"
    "unat (bank_size div row_size) < 2 ^ 31" "unat nv * unat (vault_size div bank_size) < 2 ^ 32"
    "\<forall>e\<in>set es. up_event_ok (nv, vault_size div bank_size, bank_size div row_size) e"
  shows "runs (StackedDramPerfUnison (en_cfg E) uninit d nv vault_size bank_size row_size \<bind> foldM (up_step E) es)
     (up_inv E dinv (nv, vault_size div bank_size, bank_size div row_size))"
  unfolding runs_bind
  by (rule runs_mono[OF StackedDramPerfUnison_ok[OF assms(3-9)]], rule ups.serve_all)
     (use assms in \<open>auto simp: up_inv_def\<close>)

subsection \<open>Properties\<close>

text \<open>A small instance used by the witnesses: a DRAM model with constant latency.\<close>

definition demo_dram :: "unit dram_if" where
  "demo_dram = \<lparr>di_tickOnce = Some, di_getReadLatency = (\<lambda>v b r t d. Some (20, d)),
     di_getWriteLatency = (\<lambda>v b r t d. Some (20, d)), di_setBankRef = (\<lambda>v b h. Some), di_tCK = (\<lambda>d. 2),
     di_getServingRdReq = (\<lambda>d v. Some 0), di_getServingWrReq = (\<lambda>d v. Some 0), di_getVaultRowHits = (\<lambda>d v. Some 0),
     di_getVaultQueLenSum = (\<lambda>d v. Some 0), di_getBankActTime = (\<lambda>d v b. Some 0), di_getBankRdTime = (\<lambda>d v b. Some 0),
     di_getBankWrTime = (\<lambda>d v b. Some 0), di_getBankReads = (\<lambda>d v b. Some 0), di_getBankWrites = (\<lambda>d v b. Some 0),
     di_getBankRowHits = (\<lambda>d v b. Some 0), di_getBankRowConflicts = (\<lambda>d v b. Some 0), di_getBankRowMisses = (\<lambda>d v b. Some 0)\<rparr>"

definition demo_log2 :: "u32 \<Rightarrow> u32" where
  "demo_log2 x = word_of_nat (length (takeWhile (\<lambda>k. 2 ^ Suc k \<le> unat x) [0..<32]))"

definition demo_cfg :: sd_config where
  "demo_cfg = \<lparr>cf_high_temp_thres = 85, cf_dangerous_temp_thres = 90, cf_init_temp_thres = 60,
     cf_remap_temp_thres = 80, cf_remap = True, cf_reactive = False, cf_predictive = False,
     cf_no_hot_access = False, cf_n_remap = 1, cf_inter_vault = True, cf_bank_level_refresh = True,
     cf_addr_map = 2, cf_max_block = 128, cf_bandwidth = 32, cf_on_top = False\<rparr>"

definition demo_env :: "(nat, unit) up_env" where
  "demo_env = \<lparr>en_dram = demo_dram, en_floorLog2 = demo_log2, en_ns = unat, en_getNS = word_of_nat,
     en_freq = 1000, en_cfg = demo_cfg\<rparr>"

lemma demo_log2_ok: "floorLog2_ok demo_log2"
  unfolding floorLog2_ok_def
proof (intro allI impI)
  fix k :: nat assume k: "k < 32"
  have "takeWhile (\<lambda>j. (2 :: nat) ^ Suc j \<le> 2 ^ k) [0..<32] = [0..<k]"
  proof -
    have "[0..<32] = [0..<k] @ k # [Suc k..<32]"
      using k upt_add_eq_append[of 0 k "32 - k"] upt_conv_Cons[of k 32] by simp
    then show ?thesis by (auto simp: takeWhile_append simp del: power_Suc)
  qed
  then show "demo_log2 (2 ^ k) = word_of_nat k"
    using k by (simp add: demo_log2_def unat_pow2 del: power_Suc)
qed

lemma demo_env_ok: "up_env_ok nv nb demo_env (\<lambda>_. True)"
  by (simp add: up_env_ok_def demo_env_def demo_log2_ok dram_total_def demo_dram_def sd_cfg_ok_def demo_cfg_def)


definition demo_geo :: "u32 \<times> u32 \<times> u32" where
  "demo_geo = (2, 4, 8)"

lemma demo_unison:
  "\<exists>u. StackedDramPerfUnison demo_cfg (0, 0, 0, 0) () 2 256 64 8 = Some u \<and> up_inv demo_env (\<lambda>_. True) (2, 4, 8) u"
proof -
  have "pow2_geometry 2 4 8"
    unfolding pow2_geometry_def by (rule exI[of _ 1], rule exI[of _ 2], rule exI[of _ 3]) simp
  then have "runs (StackedDramPerfUnison (en_cfg demo_env) (0, 0, 0, 0) () 2 256 64 8 \<bind> foldM (up_step demo_env) [])
     (up_inv demo_env (\<lambda>_. True) (2, 256 div 64, 64 div 8))"
    by (intro unison_serves demo_env_ok) (simp_all add: demo_env_def demo_cfg_def)
  then show ?thesis
    unfolding runs_bind foldM.simps by (auto simp: runs_iff demo_env_def[THEN arg_cong[where f = en_cfg]])
qed

text \<open>C29: The set numbering is a bijection. For each of the three address layouts and any geometry of
  powers of two that fits 32 bits, \<^verbatim>\<open>splitSetNum\<close> and \<^verbatim>\<open>getSetNum\<close> are inverse to each other between
  the set numbers below the number of sets and the in-range triples of vault, bank and row, and
  neither prints an error.\<close>

theorem set_number_roundtrip:
  assumes "up_ok cfg u" and "floorLog2_ok floorLog2"
  shows "(unat s < unat (up_n_vaults u) * unat (up_n_banks u) * unat (up_n_rows u) \<longrightarrow>
       (\<exists>v b r. splitSetNum floorLog2 cfg s u = Some ((v, b, r), u) \<and>
          v < up_n_vaults u \<and> b < up_n_banks u \<and> r < up_n_rows u \<and>
          getSetNum floorLog2 cfg (v, b, r) u = Some (s, u))) \<and>
     (v < up_n_vaults u \<and> b < up_n_banks u \<and> r < up_n_rows u \<longrightarrow>
       (\<exists>s. getSetNum floorLog2 cfg (v, b, r) u = Some (s, u) \<and>
          unat s < unat (up_n_vaults u) * unat (up_n_banks u) * unat (up_n_rows u) \<and>
          splitSetNum floorLog2 cfg s u = Some ((v, b, r), u)))"
proof -
  obtain bits where bits: "set_bits floorLog2 u = Some bits"
    "\<And>s. set_ok (cf_addr_map cfg) bits s \<longleftrightarrow> unat s < set_count u"
    "\<And>v b r. idx_ok (cf_addr_map cfg) bits (v, b, r) \<longleftrightarrow> v < up_n_vaults u \<and> b < up_n_banks u \<and> r < up_n_rows u"
    using up_bits[OF assms] by blast
  have dec: "\<exists>v b r. splitSetNum floorLog2 cfg s u = Some ((v, b, r), u) \<and>
      v < up_n_vaults u \<and> b < up_n_banks u \<and> r < up_n_rows u \<and>
      getSetNum floorLog2 cfg (v, b, r) u = Some (s, u)" if lt: "unat s < set_count u"
  proof -
    obtain v b r where "dec_set (cf_addr_map cfg) bits s = Some (v, b, r)"
      "idx_ok (cf_addr_map cfg) bits (v, b, r)" "enc_set (cf_addr_map cfg) bits (v, b, r) = Some s"
      using sets.enc_dec[of "cf_addr_map cfg" bits s] lt bits(2) by (metis prod_cases3)
    then show ?thesis
      using splitSetNum_eq[OF bits(1)] getSetNum_eq[OF bits(1)] bits(3) by blast
  qed
  have enc: "\<exists>s. getSetNum floorLog2 cfg (v, b, r) u = Some (s, u) \<and> unat s < set_count u \<and>
      splitSetNum floorLog2 cfg s u = Some ((v, b, r), u)"
    if lt: "v < up_n_vaults u" "b < up_n_banks u" "r < up_n_rows u"
  proof -
    obtain s where "enc_set (cf_addr_map cfg) bits (v, b, r) = Some s" "set_ok (cf_addr_map cfg) bits s"
      "dec_set (cf_addr_map cfg) bits s = Some (v, b, r)"
      using sets.dec_enc[of "cf_addr_map cfg" bits "(v, b, r)"] lt bits(3) by metis
    then show ?thesis
      using splitSetNum_eq[OF bits(1)] getSetNum_eq[OF bits(1)] bits(2) by blast
  qed
  show ?thesis using dec enc unfolding set_count_def by blast
qed

theorem set_number_roundtrip_witness:
  "\<exists>u :: (nat, unit) unison_perf. StackedDramPerfUnison demo_cfg (0, 0, 0, 0) () 2 256 64 8 = Some u \<and>
     (\<exists>v b r. splitSetNum demo_log2 demo_cfg 37 u = Some ((v, b, r), u) \<and>
        getSetNum demo_log2 demo_cfg (v, b, r) u = Some (37, u))"
proof -
  obtain u where u: "StackedDramPerfUnison demo_cfg (0, 0, 0, 0) () 2 256 64 8 = Some u"
    "up_inv demo_env (\<lambda>_. True) (2, 4, 8) u" using demo_unison by blast
  then show ?thesis
    using set_number_roundtrip[of demo_cfg u demo_log2 37 0 0 0] demo_log2_ok
    by (auto simp: up_inv_def demo_env_def up_geo_def)
qed

text \<open>The redirected set lies in the bank that serves the original one. For every set number in
  range \<^verbatim>\<open>getRemapSet\<close> returns, prints no error and changes nothing; its result decodes to the
  same row in the bank that the remapping manager redirects to, and when the policy is not the
  redirecting one it is the set itself.\<close>

theorem remap_set_serves:
  assumes "up_ok cfg u" and "floorLog2_ok floorLog2"
    and "unat s < unat (up_n_vaults u) * unat (up_n_banks u) * unat (up_n_rows u)"
  shows "\<exists>v b r v' b' t. splitSetNum floorLog2 cfg s u = Some ((v, b, r), u) \<and>
     getRemapSet floorLog2 cfg s u = Some (t, u) \<and>
     splitSetNum floorLog2 cfg t u = Some ((v', b', r), u) \<and>
     getBankId (up_remap_manager u) v' b' =
       bs_logical_id (rm_bank_stat (up_remap_manager u) ! unat (getBankId (up_remap_manager u) v b)) \<and>
     (cf_n_remap cfg \<noteq> 1 \<longrightarrow> t = s)"
  using getRemapSet_runs[OF assms(1,2)] assms(3) unfolding set_count_def by blast

theorem remap_set_serves_witness:
  "\<exists>u :: (nat, unit) unison_perf. StackedDramPerfUnison demo_cfg (0, 0, 0, 0) () 2 256 64 8 = Some u \<and>
     (\<exists>t. getRemapSet demo_log2 demo_cfg 37 u = Some (t, u))"
proof -
  obtain u where u: "StackedDramPerfUnison demo_cfg (0, 0, 0, 0) () 2 256 64 8 = Some u"
    "up_inv demo_env (\<lambda>_. True) (2, 4, 8) u" using demo_unison by blast
  then show ?thesis
    using remap_set_serves[of demo_cfg u demo_log2 37] demo_log2_ok
    by (auto simp: up_inv_def demo_env_def up_geo_def)
qed

text \<open>C6: The controller serves every sequence of calls. Built with a geometry of powers of two, on a
  DRAM model that honours its contract, any sequence of accesses to sets in range, temperature
  updates, remapping runs and statistics calls returns; the controller stays well formed and has
  printed none of its error messages, nor has its remapping manager.\<close>

theorem controller_never_fails:
  assumes "up_env_ok nv (vault_size div bank_size) E dinv" and "dinv d" and "bank_size \<noteq> 0" and "row_size \<noteq> 0"
    and "cf_addr_map (en_cfg E) \<in> {1, 2, 3}" and "cf_n_remap (en_cfg E) \<le> 2"
    and "pow2_geometry nv (vault_size div bank_size) (bank_size div row_size)"
    and "unat (bank_size div row_size) < 2 ^ 31" and "unat nv * unat (vault_size div bank_size) < 2 ^ 32"
    and "\<forall>e\<in>set es. up_event_ok (nv, vault_size div bank_size, bank_size div row_size) e"
  shows "\<exists>u. StackedDramPerfUnison (en_cfg E) uninit d nv vault_size bank_size row_size \<bind> foldM (up_step E) es = Some u \<and>
     up_ok (en_cfg E) u \<and> up_out u = [] \<and> rm_out (up_remap_manager u) = []"
  using unison_serves[OF assms, of uninit] by (auto simp: runs_iff up_inv_def up_ok_def)

theorem controller_never_fails_witness:
  "\<exists>u. StackedDramPerfUnison demo_cfg (0, 0, 0, 0) () 2 256 64 8 \<bind> foldM (up_step demo_env)
        [UTemperature True 0 1 90, UAccess 5 256 37 READ, UTryRemapping, UAccess 9 64 3 WRITE, UUpdateStats] = Some u \<and>
     up_out u = []"
proof -
  have "pow2_geometry 2 (256 div 64) (64 div 8)"
    unfolding pow2_geometry_def by (rule exI[of _ 1], rule exI[of _ 2], rule exI[of _ 3]) simp
  then have "\<exists>u. StackedDramPerfUnison (en_cfg demo_env) (0, 0, 0, 0) () 2 256 64 8 \<bind> foldM (up_step demo_env)
        [UTemperature True 0 1 90, UAccess 5 256 37 READ, UTryRemapping, UAccess 9 64 3 WRITE, UUpdateStats] = Some u \<and>
     up_ok (en_cfg demo_env) u \<and> up_out u = [] \<and> rm_out (up_remap_manager u) = []"
    by (intro controller_never_fails[OF demo_env_ok]) (simp_all add: demo_env_def demo_cfg_def)
  then show ?thesis by (auto simp: demo_env_def)
qed

end
