(* ===== verification/UnisonCache.thy ===== *)
theory UnisonCache
  imports Sniper_Prelude
begin

section \<open>Pages and sets of the Unison cache\<close>

text \<open>
  Model of the classes \<^verbatim>\<open>DramCachePageInfo\<close> and \<^verbatim>\<open>DramCacheSetUnison\<close> of
  \<^verbatim>\<open>performance_model/dram_perf_model_normal.{h,cc}\<close>. The member \<^verbatim>\<open>m_cstate\<close> of a page is only ever
  set to \<^verbatim>\<open>INVALID\<close> and never read by this code; it is left out, as is \<^verbatim>\<open>DramCacheSetInfoUnison\<close>, which
  holds a copy of the associativity. Error lines are collected in \<open>us_out\<close>.

  \<^verbatim>\<open>accessBlock\<close> shifts by \<^verbatim>\<open>block_num - 1\<close>, which for block 0 is the shift of a 32-bit value by
  \<open>2^32 - 1\<close> without a defined value: an access of block 0 of a page that the set holds is \<open>None\<close>.
\<close>

subsection \<open>Pages\<close>

datatype mem_op_t = READ_OP | WRITE_OP

record page_info =
  pi_tag :: u64
  pi_vbits_0 :: u32
  pi_vbits_1 :: u32
  pi_dbits_0 :: u32
  pi_dbits_1 :: u32
  pi_footprint :: u32
  pi_used :: u8
  pi_pc :: u8
  pi_offset :: u8

definition DramCachePageInfo :: page_info where
  "DramCachePageInfo = \<lparr>pi_tag = - 1, pi_vbits_0 = - 1, pi_vbits_1 = - 1, pi_dbits_0 = 0, pi_dbits_1 = 0,
     pi_footprint = 0, pi_used = 0, pi_pc = 0, pi_offset = 0\<rparr>"

text \<open>The loop \<^verbatim>\<open>while (x > 0) { if ((x & 1) == 1) n++; x >>= 1; }\<close> that counts set bits.\<close>

function count_ones :: "u32 \<Rightarrow> u32 \<Rightarrow> u32" where
  "count_ones x n =
     (if 0 < x then count_ones (drop_bit 1 x) (if x AND 1 = 1 then n + 1 else n) else n)"
  by auto
termination
proof (relation "measure (\<lambda>(x, n). unat x)")
  fix x n :: u32 assume "0 < x"
  then show "((drop_bit 1 x, if x AND 1 = 1 then n + 1 else n), x, n) \<in> measure (\<lambda>(x, n). unat x)"
    by (simp add: drop_bit_eq_div word_less_nat_alt unat_div)
qed simp

declare count_ones.simps [simp del]

definition page_invalidate :: "page_info \<Rightarrow> u32 \<times> page_info" where
  "page_invalidate p =
     (count_ones (pi_dbits_0 p) 0,
      p\<lparr>pi_tag := - 1, pi_vbits_0 := - 1, pi_vbits_1 := - 1, pi_dbits_0 := 0, pi_dbits_1 := 0,
        pi_used := 0, pi_offset := 0, pi_footprint := 0\<rparr>)"

definition page_clone :: "page_info \<Rightarrow> page_info \<Rightarrow> page_info" where
  "page_clone src p = p\<lparr>pi_tag := pi_tag src, pi_used := pi_used src\<rparr>"

definition page_isValid :: "page_info \<Rightarrow> bool" where
  "page_isValid p \<longleftrightarrow> pi_tag p \<noteq> - 1"

definition page_updateUsage :: "u32 \<Rightarrow> page_info \<Rightarrow> page_info" where
  "page_updateUsage used p = p\<lparr>pi_used := ucast used\<rparr>"

definition or_bit :: "u32 \<Rightarrow> u32 \<Rightarrow> u32" where
  "or_bit x n = ucast ((ucast x :: u64) OR push_bit (unat n) 1)"

definition page_accessBlock :: "mem_op_t \<Rightarrow> u32 \<Rightarrow> page_info \<Rightarrow> (bool \<times> page_info) option" where
  "page_accessBlock ty block_num p = do {
     guard (unat (block_num - 1) < 32);
     let v0 = (drop_bit (unat (block_num - 1)) (pi_vbits_0 p) AND 1 \<noteq> 0);
     guard (unat block_num < 64);
     let p = p\<lparr>pi_vbits_0 := or_bit (pi_vbits_0 p) block_num\<rparr>;
     let p = (if ty = WRITE_OP then p\<lparr>pi_dbits_0 := or_bit (pi_dbits_0 p) block_num\<rparr> else p);
     let p = p\<lparr>pi_footprint := or_bit (pi_footprint p) block_num\<rparr>;
     Some (v0, p)
   }"

definition page_loadBlocks :: "u32 \<Rightarrow> page_info \<Rightarrow> page_info" where
  "page_loadBlocks footprint p = p\<lparr>pi_footprint := 0, pi_vbits_0 := footprint\<rparr>"

subsection \<open>Sets\<close>

record unison_set =
  us_reads :: int
  us_writes :: int
  us_n_vault :: u32
  us_n_bank :: u32
  us_n_level :: u32
  us_lru_bits :: "u8 list"
  us_associativity :: u32
  us_pages :: "page_info list"
  us_out :: "string list"

text \<open>The constructor; \<^verbatim>\<open>n_vault\<close>, \<^verbatim>\<open>n_bank\<close> and \<^verbatim>\<open>n_level\<close> are set by the cache controller.\<close>

definition DramCacheSetUnison :: "u32 \<Rightarrow> u32 \<times> u32 \<times> u32 \<Rightarrow> unison_set" where
  "DramCacheSetUnison associativity place = (let (v, b, l) = place in
     \<lparr>us_reads = 0, us_writes = 0, us_n_vault = v, us_n_bank = b, us_n_level = l,
      us_lru_bits = map ucast (u32_range 0 associativity), us_associativity = associativity,
      us_pages = replicate (unat associativity) DramCachePageInfo, us_out = []\<rparr>)"

definition page_at :: "u32 \<Rightarrow> unison_set \<Rightarrow> page_info option" where
  "page_at i s = fetch (us_pages s) i"

definition page_put :: "u32 \<Rightarrow> page_info \<Rightarrow> unison_set \<Rightarrow> unison_set option" where
  "page_put i p s = do { ps \<leftarrow> store (us_pages s) i p; Some (s\<lparr>us_pages := ps\<rparr>) }"

definition getReplacementIndex :: "unison_set \<Rightarrow> (u32 \<times> unison_set) option" where
  "getReplacementIndex s = do {
     let s = s\<lparr>us_reads := us_reads s + 1\<rparr>;
     (max_t, index) \<leftarrow> foldM (\<lambda>i (max_t, index). do {
          p \<leftarrow> page_at i s;
          if pi_used p > max_t then Some (pi_used p, i) else Some (max_t, index)
        }) (u32_range 0 (us_associativity s)) (0, 0);
     Some (index, s)
   }"

definition invalidateContent :: "unison_set \<Rightarrow> (u32 \<times> unison_set) option" where
  "invalidateContent s =
     foldM (\<lambda>i (wb_blocks, s). do {
         p \<leftarrow> page_at i s;
         let (wb, p) = page_invalidate p;
         s \<leftarrow> page_put i p s;
         Some (wb_blocks + wb, s)
       }) (u32_range 0 (us_associativity s)) (0, s)"

definition getDirtyBlocks :: "unison_set \<Rightarrow> u32 option" where
  "getDirtyBlocks s =
     foldM (\<lambda>i dirty_blocks. do { p \<leftarrow> page_at i s; Some (count_ones (pi_dbits_0 p) dirty_blocks) })
       (u32_range 0 (us_associativity s)) 0"

definition getValidBlocks :: "unison_set \<Rightarrow> u32 option" where
  "getValidBlocks s =
     foldM (\<lambda>i valid_blocks. do { p \<leftarrow> page_at i s; Some (count_ones (pi_vbits_0 p) valid_blocks) })
       (u32_range 0 (us_associativity s)) 0"

text \<open>The first way with the tag, as the loops with \<^verbatim>\<open>break\<close> find it.\<close>

primrec find_way :: "u64 \<Rightarrow> u32 list \<Rightarrow> unison_set \<Rightarrow> u32 option option" where
  "find_way tag [] s = Some None"
| "find_way tag (i # is) s = do {
     p \<leftarrow> page_at i s;
     if pi_tag p = tag then Some (Some i) else find_way tag is s
   }"

definition updateUsedInfo :: "u64 \<Rightarrow> unison_set \<Rightarrow> unison_set option" where
  "updateUsedInfo tag s = do {
     w \<leftarrow> find_way tag (u32_range 0 (us_associativity s)) s;
     case w of
       None \<Rightarrow> Some (s\<lparr>us_out := us_out s @ [''ERROR: update tag'']\<rparr>)
     | Some index \<Rightarrow> do {
         p \<leftarrow> page_at index s;
         if pi_used p \<noteq> 0 then
           foldM (\<lambda>i s. do {
               q \<leftarrow> page_at i s;
               page_put i (if index = i then page_updateUsage 0 q
                           else page_updateUsage (ucast (pi_used q) + 1) q) s
             }) (u32_range 0 (us_associativity s)) s
         else Some s
       }
   }"

definition updateReplacementIndexTag :: "u32 \<Rightarrow> u64 \<Rightarrow> u32 \<Rightarrow> unison_set \<Rightarrow> unison_set option" where
  "updateReplacementIndexTag index tag footprint s = do {
     page \<leftarrow> page_at index s;
     s \<leftarrow> page_put index (page\<lparr>pi_tag := tag, pi_vbits_0 := footprint, pi_dbits_0 := 0, pi_footprint := 0\<rparr>) s;
     updateUsedInfo tag (s\<lparr>us_writes := us_writes s + 1\<rparr>)
   }"

text \<open>\<^verbatim>\<open>accessAttempt\<close>: 0 when the page is not in the set, 1 when its block is not valid, 2 on a hit.\<close>

definition accessAttempt :: "mem_op_t \<Rightarrow> u64 \<Rightarrow> u64 \<Rightarrow> unison_set \<Rightarrow> (u8 \<times> unison_set) option" where
  "accessAttempt ty tag offset s = do {
     let block_num = ucast (offset div 64);
     let s = s\<lparr>us_reads := us_reads s + 1\<rparr>;
     w \<leftarrow> find_way tag (u32_range 0 (us_associativity s)) s;
     case w of
       None \<Rightarrow> Some (0, s)
     | Some i \<Rightarrow> do {
         p \<leftarrow> page_at i s;
         (hit, p) \<leftarrow> page_accessBlock ty block_num p;
         s \<leftarrow> page_put i p s;
         if hit then Some (2, s) else Some (1, s\<lparr>us_writes := us_writes s + 1\<rparr>)
       }
   }"

subsection \<open>Counting bits\<close>

definition bit_count :: "u32 \<Rightarrow> nat" where
  "bit_count x = card {k. bit x k}"

lemma finite_bits: "finite {k. bit (x :: u32) k}"
  by (rule finite_subset[of _ "{..<32}"]) (auto dest: bit_imp_le_length)

lemma bit_count_step: "bit_count x = (if odd x then 1 else 0) + bit_count (drop_bit 1 x)"
proof -
  have split: "{k. bit x k} = (if odd x then {0} else {}) \<union> Suc ` {k. bit (drop_bit 1 x) k}"
  proof (rule set_eqI)
    fix k show "k \<in> {k. bit x k} \<longleftrightarrow> k \<in> (if odd x then {0} else {}) \<union> Suc ` {k. bit (drop_bit 1 x) k}"
      by (cases k) (auto simp: bit_drop_bit_eq bit_0 image_iff)
  qed
  show ?thesis
    unfolding bit_count_def split
    by (subst card_Un_disjoint) (auto simp: finite_bits card_image)
qed

lemma count_ones_eq: "count_ones x n = n + word_of_nat (bit_count x)"
proof (induction x n rule: count_ones.induct)
  case (1 x n)
  have low: "x AND 1 = 1 \<longleftrightarrow> odd x"
    by (simp add: and_one_eq odd_iff_mod_2_eq_one)
  show ?case
  proof (cases "0 < x")
    case True
    then show ?thesis
      using 1[OF True] by (subst count_ones.simps) (auto simp: low bit_count_step[of x])
  next
    case False
    then have "x = 0" using word_gt_0 by blast
    then show ?thesis by (subst count_ones.simps) (simp add: bit_count_def)
  qed
qed

lemma bit_count_bound: "bit_count x \<le> 32"
proof -
  have "card {k. bit x k} \<le> card {..<32 :: nat}"
    by (rule card_mono) (auto dest: bit_imp_le_length)
  then show ?thesis by (simp add: bit_count_def)
qed

subsection \<open>Well-formed sets\<close>

text \<open>
  A set is well formed when it has one page entry for each way and the usage counter of every entry
  is zero. The second part is an invariant of this code: \<^verbatim>\<open>updateUsedInfo\<close> changes the counters
  only when one of them is already different from zero.
\<close>

definition us_ok :: "u32 \<Rightarrow> unison_set \<Rightarrow> bool" where
  "us_ok n s \<longleftrightarrow> us_associativity s = n \<and> n \<noteq> 0 \<and> length (us_pages s) = unat n \<and>
     (\<forall>p\<in>set (us_pages s). pi_used p = 0)"

text \<open>All ways but the first are empty.\<close>

definition us_direct :: "unison_set \<Rightarrow> bool" where
  "us_direct s \<longleftrightarrow> (\<forall>i. 0 < i \<longrightarrow> i < length (us_pages s) \<longrightarrow> pi_tag (us_pages s ! i) = - 1)"

lemma us_ok_frame [simp]:
  "us_ok n (s\<lparr>us_reads := r\<rparr>) = us_ok n s" "us_ok n (s\<lparr>us_writes := w\<rparr>) = us_ok n s"
  "us_direct (s\<lparr>us_reads := r\<rparr>) = us_direct s" "us_direct (s\<lparr>us_writes := w\<rparr>) = us_direct s"
  by (simp_all add: us_ok_def us_direct_def)

lemma us_ok_put:
  assumes "us_ok n s" "pi_used p = 0"
  shows "us_ok n (s\<lparr>us_pages := (us_pages s)[i := p]\<rparr>)"
  using assms by (auto simp: us_ok_def dest!: set_update_subset_insert[THEN subsetD])

lemma us_okD:
  assumes "us_ok n s"
  shows "us_associativity s = n" "length (us_pages s) = unat n" "0 < unat n"
    "\<And>i. i < unat n \<Longrightarrow> pi_used (us_pages s ! i) = 0"
  using assms by (auto simp: us_ok_def unat_gt_0)

lemma DramCacheSetUnison_ok:
  assumes "n \<noteq> 0"
  shows "us_ok n (DramCacheSetUnison n place)" "us_direct (DramCacheSetUnison n place)"
  using assms by (auto simp: us_ok_def us_direct_def DramCacheSetUnison_def DramCachePageInfo_def split: prod.splits)

lemma getReplacementIndex_first:
  assumes "us_ok n s"
  shows "getReplacementIndex s = Some (0, s\<lparr>us_reads := us_reads s + 1\<rparr>)"
proof -
  let ?s = "s\<lparr>us_reads := us_reads s + 1\<rparr>"
  have "runs (foldM (\<lambda>i (max_t, index). do {
          p \<leftarrow> page_at i ?s;
          if pi_used p > max_t then Some (pi_used p, i) else Some (max_t, index)
        }) (u32_range 0 n) (0, 0)) (\<lambda>x. x = (0, 0))"
    by (rule foldM_runs) (use us_okD[OF assms] in \<open>auto simp: runs_bind page_at_def runs_fetch set_u32_range\<close>)
  then show ?thesis
    using us_okD(1)[OF assms] by (auto simp: getReplacementIndex_def runs_iff)
qed

lemma find_way_spec:
  assumes "\<forall>i\<in>set is. unat i < length (us_pages s)"
  shows "find_way tag is s = Some (List.find (\<lambda>i. pi_tag (us_pages s ! unat i) = tag) is)"
  using assms by (induction "is") (auto simp: page_at_def fetch_in)

lemma find_way_cases:
  assumes "us_ok n s"
  obtains (absent) "find_way tag (u32_range 0 (us_associativity s)) s = Some None"
      "\<And>i. i < unat n \<Longrightarrow> pi_tag (us_pages s ! i) \<noteq> tag"
  | (found) i where "find_way tag (u32_range 0 (us_associativity s)) s = Some (Some i)"
      "unat i < unat n" "pi_tag (us_pages s ! unat i) = tag"
proof -
  have eq: "find_way tag (u32_range 0 n) s = Some (List.find (\<lambda>i. pi_tag (us_pages s ! unat i) = tag) (u32_range 0 n))"
    by (rule find_way_spec) (use us_okD[OF assms] in \<open>auto simp: set_u32_range\<close>)
  show thesis
  proof (cases "List.find (\<lambda>i. pi_tag (us_pages s ! unat i) = tag) (u32_range 0 n)")
    case None
    have "pi_tag (us_pages s ! i) \<noteq> tag" if "i < unat n" for i
    proof -
      have "unat (word_of_nat i :: u32) = i"
        using that unsigned_less[of n, where ?'a = nat] by (simp add: unsigned_of_nat take_bit_eq_mod)
      then show ?thesis using None that by (auto simp: find_None_iff set_u32_range) metis
    qed
    with None eq us_okD(1)[OF assms] absent show ?thesis by simp
  next
    case (Some i)
    then have "i \<in> set (u32_range 0 n)" "pi_tag (us_pages s ! unat i) = tag"
      by (auto simp: find_Some_iff)
    with Some eq us_okD(1)[OF assms] found show ?thesis by (simp add: set_u32_range)
  qed
qed

text \<open>The usage counters never move.\<close>

lemma updateUsedInfo_idle:
  assumes "us_ok n s" "\<exists>i<unat n. pi_tag (us_pages s ! i) = tag"
  shows "updateUsedInfo tag s = Some s"
  using assms(1)
proof (cases rule: find_way_cases[of n s tag])
  case (found i)
  then show ?thesis
    using us_okD[OF assms(1)] by (simp add: updateUsedInfo_def page_at_def fetch_in)
qed (use assms in auto)


lemma updateReplacementIndexTag_first:
  assumes "us_ok n s" "tag \<noteq> - 1"
  shows "updateReplacementIndexTag 0 tag footprint s = Some (s\<lparr>us_writes := us_writes s + 1,
     us_pages := (us_pages s)[0 := (us_pages s ! 0)\<lparr>pi_tag := tag, pi_vbits_0 := footprint, pi_dbits_0 := 0, pi_footprint := 0\<rparr>]\<rparr>)"
proof -
  note ok = us_okD[OF assms(1)]
  let ?p = "(us_pages s ! 0)\<lparr>pi_tag := tag, pi_vbits_0 := footprint, pi_dbits_0 := 0, pi_footprint := 0\<rparr>"
  let ?s = "s\<lparr>us_pages := (us_pages s)[0 := ?p], us_writes := us_writes s + 1\<rparr>"
  have "us_ok n ?s" using us_ok_put[OF assms(1), of ?p 0] ok(3,4) by simp
  moreover have "\<exists>i<unat n. pi_tag (us_pages ?s ! i) = tag" using ok(2,3) by (intro exI[of _ 0]) simp
  ultimately have "updateUsedInfo tag ?s = Some ?s" by (rule updateUsedInfo_idle)
  then show ?thesis
    using ok by (simp add: updateReplacementIndexTag_def page_at_def page_put_def fetch_in store_in)
qed

lemma bit_or_bit: "bit (or_bit x n) k \<longleftrightarrow> bit x k \<or> k = unat n \<and> k < 32"
  by (auto simp: or_bit_def bit_ucast_iff bit_or_iff bit_exp_iff dest: bit_imp_le_length)

text \<open>\<^verbatim>\<open>accessBlock\<close> on the blocks of a page: it tests the bit before the one that it sets.\<close>

definition page_touch :: "mem_op_t \<Rightarrow> u32 \<Rightarrow> page_info \<Rightarrow> page_info" where
  "page_touch ty n p = p\<lparr>pi_vbits_0 := or_bit (pi_vbits_0 p) n,
     pi_dbits_0 := (if ty = WRITE_OP then or_bit (pi_dbits_0 p) n else pi_dbits_0 p),
     pi_footprint := or_bit (pi_footprint p) n\<rparr>"

lemma page_accessBlock_eq:
  assumes "0 < unat n" "unat n < 32"
  shows "page_accessBlock ty n p = Some (bit (pi_vbits_0 p) (unat n - 1), page_touch ty n p)"
proof -
  have "unat (n - 1) = unat n - 1"
    using assms(1) by (simp add: unat_gt_0 unat_minus_one)
  then show ?thesis
    using assms
    by (auto simp: page_accessBlock_def page_touch_def guard_def and_one_eq bit_iff_odd_drop_bit
        odd_iff_mod_2_eq_one[symmetric] even_iff_mod_2_eq_zero[symmetric])
qed

lemma page_accessBlock_0: "page_accessBlock ty 0 p = None"
proof -
  have "unat (0 - 1 :: u32) = 2 ^ 32 - 1" by (simp add: unsigned_minus_1_eq_mask mask_eq_exp_minus_1)
  then show ?thesis by (simp add: page_accessBlock_def guard_def)
qed

lemma page_touch_fields [simp]:
  "pi_tag (page_touch ty n p) = pi_tag p" "pi_used (page_touch ty n p) = pi_used p"
  by (simp_all add: page_touch_def)

text \<open>A set whose ways but the first are empty behaves as a direct-mapped entry.\<close>

abbreviation resident :: "unison_set \<Rightarrow> u64" where
  "resident s \<equiv> pi_tag (us_pages s ! 0)"

lemma direct_find:
  assumes ok: "us_ok n s" and "us_direct s" "tag \<noteq> - 1"
  shows "find_way tag (u32_range 0 (us_associativity s)) s = Some (if resident s = tag then Some 0 else None)"
  using ok
proof (cases rule: find_way_cases[of n s tag])
  case absent
  then show ?thesis using us_okD[OF ok] by auto
next
  case (found i)
  then have "unat i = 0" using assms us_okD[OF ok] by (auto simp: us_direct_def)
  then have "i = 0" by (simp add: unat_eq_zero)
  then show ?thesis using found by simp
qed

lemma accessAttempt_direct:
  assumes ok: "us_ok n s" and "us_direct s" "tag \<noteq> - 1" and off: "offset < 1984"
    and defd: "resident s = tag \<longrightarrow> 64 \<le> offset"
  shows "\<exists>h. accessAttempt ty tag offset s = Some (h,
      if resident s \<noteq> tag then s\<lparr>us_reads := us_reads s + 1\<rparr>
      else s\<lparr>us_reads := us_reads s + 1, us_writes := us_writes s + (if h = 2 then 0 else 1),
             us_pages := (us_pages s)[0 := page_touch ty (ucast (offset div 64)) (us_pages s ! 0)]\<rparr>) \<and>
    h \<in> {0, 1, 2} \<and> (h = 0 \<longleftrightarrow> resident s \<noteq> tag) \<and>
    (0 < unat (offset div 64) \<longrightarrow>
       (h = 2 \<longleftrightarrow> resident s = tag \<and> bit (pi_vbits_0 (us_pages s ! 0)) (unat (offset div 64) - 1)))"
proof -
  have find: "find_way tag (u32_range 0 (us_associativity s)) (s\<lparr>us_reads := us_reads s + 1\<rparr>) =
      Some (if resident s = tag then Some 0 else None)"
    using direct_find[of n "s\<lparr>us_reads := us_reads s + 1\<rparr>" tag] assms by simp
  show ?thesis
  proof (cases "resident s = tag")
    case False
    then show ?thesis using find by (simp add: accessAttempt_def)
  next
    case True
    let ?hit = "bit (pi_vbits_0 (us_pages s ! 0)) (unat (offset div 64) - 1)"
    have lt: "unat (offset div 64) < 32" using off by (simp add: unat_div word_less_nat_alt)
    then have blk: "unat (ucast (offset div 64) :: u32) = unat (offset div 64)"
      by (simp add: unsigned_ucast_eq take_bit_eq_mod)
    have pos: "0 < unat (offset div 64)"
      using defd True by (simp add: unat_div word_le_nat_alt div_greater_zero_iff)
    have hit: "page_accessBlock ty (ucast (offset div 64)) (us_pages s ! 0) =
        Some (?hit, page_touch ty (ucast (offset div 64)) (us_pages s ! 0))"
      using page_accessBlock_eq[of "ucast (offset div 64)" ty "us_pages s ! 0"] blk pos lt by simp
    have "accessAttempt ty tag offset s = Some (if ?hit then 2 else 1,
       s\<lparr>us_reads := us_reads s + 1, us_writes := us_writes s + (if ?hit then 0 else 1),
             us_pages := (us_pages s)[0 := page_touch ty (ucast (offset div 64)) (us_pages s ! 0)]\<rparr>)"
      using find True us_okD[OF ok] hit
      by (simp add: accessAttempt_def page_at_def page_put_def fetch_in store_in)
    then show ?thesis using True by auto
  qed
qed

lemma accessAttempt_block0:
  assumes ok: "us_ok n s" and "us_direct s" "tag \<noteq> - 1" "resident s = tag" "offset < 64"
  shows "accessAttempt ty tag offset s = None"
proof -
  have find: "find_way tag (u32_range 0 (us_associativity s)) (s\<lparr>us_reads := us_reads s + 1\<rparr>) = Some (Some 0)"
    using direct_find[of n "s\<lparr>us_reads := us_reads s + 1\<rparr>" tag] assms by simp
  have "offset div 64 = 0" using assms(5) by (simp add: word_unat_eq_iff unat_div word_less_nat_alt)
  then show ?thesis
    using find us_okD[OF ok] by (simp add: accessAttempt_def page_at_def fetch_in page_accessBlock_0)
qed

subsection \<open>Write-back counts\<close>

definition dirty_total :: "unison_set \<Rightarrow> nat" where
  "dirty_total s = (\<Sum>p\<leftarrow>us_pages s. bit_count (pi_dbits_0 p))"

lemma sum_pages:
  assumes "us_ok n s"
  shows "foldM (\<lambda>i t. do { p \<leftarrow> page_at i s; Some (count_ones (f p) t) }) (u32_range 0 n) 0 =
     Some (word_of_nat (\<Sum>p\<leftarrow>us_pages s. bit_count (f p)))"
proof -
  have "runs (foldM (\<lambda>i t. do { p \<leftarrow> page_at i s; Some (count_ones (f p) t) }) (u32_range 0 n) 0)
     (\<lambda>t. t = word_of_nat (\<Sum>p\<leftarrow>take (unat n) (us_pages s). bit_count (f p)))"
    by (rule foldM_u32_range_runs)
       (use us_okD[OF assms] in \<open>auto simp: runs_bind page_at_def runs_fetch count_ones_eq take_Suc_conv_app_nth\<close>)
  then show ?thesis using us_okD[OF assms] by (auto simp: runs_iff)
qed

lemma getDirtyBlocks_eq: "us_ok n s \<Longrightarrow> getDirtyBlocks s = Some (word_of_nat (dirty_total s))"
  using sum_pages[of n s pi_dbits_0] us_okD(1) by (simp add: getDirtyBlocks_def dirty_total_def)

lemma getValidBlocks_eq: "us_ok n s \<Longrightarrow>
    getValidBlocks s = Some (word_of_nat (\<Sum>p\<leftarrow>us_pages s. bit_count (pi_vbits_0 p)))"
  using sum_pages[of n s pi_vbits_0] us_okD(1) by (simp add: getValidBlocks_def)

definition flushed :: "unison_set \<Rightarrow> unison_set" where
  "flushed s = s\<lparr>us_pages := map (snd \<circ> page_invalidate) (us_pages s)\<rparr>"

lemma invalidateContent_eq:
  assumes "us_ok n s"
  shows "invalidateContent s = Some (word_of_nat (dirty_total s), flushed s)"
proof -
  note ok = us_okD[OF assms]
  let ?k = "\<lambda>k. s\<lparr>us_pages := map (snd \<circ> page_invalidate) (take k (us_pages s)) @ drop k (us_pages s)\<rparr>"
  have "runs (foldM (\<lambda>i (wb_blocks, s). do {
         p \<leftarrow> page_at i s;
         let (wb, p) = page_invalidate p;
         s \<leftarrow> page_put i p s;
         Some (wb_blocks + wb, s)
       }) (u32_range 0 n) (0, s))
     (\<lambda>x. x = (word_of_nat (\<Sum>p\<leftarrow>take (unat n) (us_pages s). bit_count (pi_dbits_0 p)), ?k (unat n)))"
  proof (rule foldM_u32_range_runs)
    fix i :: u32 and x :: "u32 \<times> unison_set"
    assume i: "unat i < unat n"
      and x: "x = (word_of_nat (\<Sum>p\<leftarrow>take (unat i) (us_pages s). bit_count (pi_dbits_0 p)), ?k (unat i))"
    have "(map (snd \<circ> page_invalidate) (take (unat i) (us_pages s)) @ drop (unat i) (us_pages s))
        [unat i := snd (page_invalidate (us_pages s ! unat i))] =
        map (snd \<circ> page_invalidate) (take (Suc (unat i)) (us_pages s)) @ drop (Suc (unat i)) (us_pages s)"
      using i ok(2) by (simp add: take_Suc_conv_app_nth list_update_append Cons_nth_drop_Suc[symmetric])
    then show "runs (case x of (wb_blocks, s) \<Rightarrow> do {
         p \<leftarrow> page_at i s;
         let (wb, p) = page_invalidate p;
         s \<leftarrow> page_put i p s;
         Some (wb_blocks + wb, s)
       }) (\<lambda>x. x = (word_of_nat (\<Sum>p\<leftarrow>take (Suc (unat i)) (us_pages s). bit_count (pi_dbits_0 p)), ?k (Suc (unat i))))"
      using i ok(2) x
      by (simp add: runs_simps page_at_def page_put_def nth_append page_invalidate_def count_ones_eq take_Suc_conv_app_nth)
  qed simp
  then show ?thesis using ok by (auto simp: invalidateContent_def flushed_def dirty_total_def runs_iff)
qed

lemma flushed_ok:
  assumes "us_ok n s" shows "us_ok n (flushed s)" "us_direct (flushed s)"
  using assms by (auto simp: us_ok_def us_direct_def flushed_def page_invalidate_def)

lemma card_no_bits [simp]: "card (Collect (bot :: nat \<Rightarrow> bool)) = 0"
  by (simp add: bot_fun_def)

text \<open>Flushing a set writes back exactly its dirty blocks. \<^verbatim>\<open>getDirtyBlocks\<close> announces the number of
  set dirty bits over all ways, \<^verbatim>\<open>invalidateContent\<close> returns the same number, and afterwards every way
  is empty (no tag, no dirty bit) and the set holds no dirty block.\<close>

theorem flush_writes_back_dirty:
  assumes "us_ok n s"
  shows "\<exists>w s'. getDirtyBlocks s = Some w \<and> invalidateContent s = Some (w, s') \<and>
     w = word_of_nat (\<Sum>p\<leftarrow>us_pages s. card {k. bit (pi_dbits_0 p) k}) \<and>
     length (us_pages s') = length (us_pages s) \<and>
     (\<forall>p\<in>set (us_pages s'). \<not> page_isValid p \<and> pi_dbits_0 p = 0) \<and> getDirtyBlocks s' = Some 0"
proof -
  have "dirty_total (flushed s) = 0"
    by (auto simp: dirty_total_def flushed_def page_invalidate_def bit_count_def comp_def)
  then show ?thesis
    using getDirtyBlocks_eq[OF assms] invalidateContent_eq[OF assms] getDirtyBlocks_eq[OF flushed_ok(1)[OF assms]]
    by (auto simp: flushed_def page_invalidate_def page_isValid_def dirty_total_def bit_count_def comp_def)
qed

definition demo_set :: unison_set where
  "demo_set = (DramCacheSetUnison 4 (0, 0, 0))\<lparr>us_pages :=
     [DramCachePageInfo\<lparr>pi_tag := 7, pi_dbits_0 := 5\<rparr>, DramCachePageInfo, DramCachePageInfo, DramCachePageInfo]\<rparr>"

lemma demo_set_ok: "us_ok 4 demo_set"
  by (simp add: us_ok_def demo_set_def DramCacheSetUnison_def DramCachePageInfo_def)

theorem flush_writes_back_dirty_witness:
  "\<exists>s'. getDirtyBlocks demo_set = Some 2 \<and> invalidateContent demo_set = Some (2, s')"
proof -
  have "Collect (bit (5 :: u32)) = {0, 2}"
  proof (rule set_eqI)
    fix k show "k \<in> Collect (bit (5 :: u32)) \<longleftrightarrow> k \<in> {0, 2}"
      by (auto simp: bit_numeral_rec bit_0 bit_1_iff split: nat.splits)
  qed
  then have "(\<Sum>p\<leftarrow>us_pages demo_set. card (Collect (bit (pi_dbits_0 p)))) = 2"
    by (simp only: demo_set_def DramCacheSetUnison_def DramCachePageInfo_def) simp
  then show ?thesis
    using flush_writes_back_dirty[OF demo_set_ok]
    by auto
qed

text \<open>C40: The hit test of a block reads its neighbour. For the blocks 1 to 30 of a page,
  \<^verbatim>\<open>accessBlock\<close> answers with the valid bit of block \<open>n - 1\<close> and sets the valid bit of block \<open>n\<close>, so
  after a first access to block \<open>n\<close> of an empty page the second access to the same block misses
  again, while the next block, which was never loaded, hits.\<close>

theorem block_hit_reads_neighbour:
  assumes "0 < unat n" and "unat n < 31"
  shows "\<exists>p1 p2 p3. page_accessBlock ty n (page_loadBlocks 0 p) = Some (False, p1) \<and>
     page_accessBlock ty' n p1 = Some (False, p2) \<and> page_accessBlock ty' (n + 1) p1 = Some (True, p3) \<and>
     (\<forall>k. bit (pi_vbits_0 p1) k \<longleftrightarrow> k = unat n)"
proof -
  let ?p = "page_loadBlocks 0 p" and ?p1 = "page_touch ty n (page_loadBlocks 0 p)"
  have v: "bit (pi_vbits_0 ?p1) k \<longleftrightarrow> k = unat n" for k
    using assms by (auto simp: page_touch_def page_loadBlocks_def bit_or_bit)
  have n1: "unat (n + 1) = unat n + 1"
    using assms by (simp add: unat_word_ariths)
  have "page_accessBlock ty n ?p = Some (False, ?p1)"
    using page_accessBlock_eq[of n ty ?p] assms by (auto simp: page_loadBlocks_def)
  moreover have "page_accessBlock ty' n ?p1 = Some (False, page_touch ty' n ?p1)"
    using page_accessBlock_eq[of n ty' ?p1] assms v by auto
  moreover have "page_accessBlock ty' (n + 1) ?p1 = Some (True, page_touch ty' (n + 1) ?p1)"
    using page_accessBlock_eq[of "n + 1" ty' ?p1] assms v n1 by auto
  ultimately show ?thesis using v by blast
qed

theorem block_hit_reads_neighbour_witness:
  "\<exists>p1 p2. page_accessBlock READ_OP 5 (page_loadBlocks 0 DramCachePageInfo) = Some (False, p1) \<and>
     page_accessBlock READ_OP 5 p1 = Some (False, p2)"
  using block_hit_reads_neighbour[of 5 READ_OP DramCachePageInfo READ_OP] by auto

end
