(* ===== verification/UnisonCntlr.thy ===== *)
theory UnisonCntlr
  imports StackedDram UnisonCache
begin

section \<open>The controller of the Unison cache\<close>

text \<open>
  Model of \<^verbatim>\<open>StackDramCacheCntlrUnison\<close> and \<^verbatim>\<open>DramPerfModelNormal\<close> of
  \<^verbatim>\<open>performance_model/dram_perf_model_normal.{h,cc}\<close> and of \<^verbatim>\<open>StatsManager::updateCurrentTime\<close>
  (\<^verbatim>\<open>misc/stats.cc\<close>), whose two time stamps are kept with the controller that moves them.

  The environment \<open>un_env\<close> adds to that of the stacked DRAM the rounded latency of the off-chip
  bandwidth, the picosecond constructor and the division by four of \<^verbatim>\<open>SubsecondTime\<close>, and the
  configuration values that this class reads; the sample that \<^verbatim>\<open>m_dram_access_cost->next()\<close> draws for
  a request is an argument of the request. The calls of \<^verbatim>\<open>ShmemPerf\<close>, which only record times for a
  report and are not part of these sources, and the progress lines on the console are left out.
\<close>

subsection \<open>State\<close>

record ('t, 'd) un_env = "('t, 'd) up_env" +
  ue_bw :: "u64 \<Rightarrow> 't"
  ue_ps :: "u64 \<Rightarrow> 't"
  ue_quarter :: "'t \<Rightarrow> 't"
  ue_avg_queue_latency :: u64
  ue_dram_disabled :: bool
  ue_obus_delay :: u64
  ue_RemapInterval :: 't

record dram_stats =
  ds_reads :: int
  ds_writes :: int
  ds_misses :: int

record cache_counters =
  cc_cache_access :: u32
  cc_page_misses :: u32
  cc_block_misses :: u32
  cc_page_disabled :: u32
  cc_load_on_page_miss :: u32
  cc_write_on_page_miss :: u32
  cc_cache_access_no_roi :: u32
  cc_page_misses_no_roi :: u32
  cc_block_misses_no_roi :: u32
  cc_wb_blocks :: u32
  cc_ld_blocks :: u32
  cc_invalid_times :: u32
  cc_invalid_blocks :: u32
  cc_migrate_times :: u32
  cc_migrate_blocks :: u32

record ('t, 'd) unison_cntlr =
  un_dram_stats :: "dram_stats list"
  un_set :: "unison_set list"
  un_set_thermal_valid :: "bool list"
  un_FHT :: "u32 list"
  un_set_num :: u32
  un_associativity :: u32
  un_blocksize :: u32
  un_pagesize :: u32
  un_vault_num :: u32
  un_vault_size :: u32
  un_bank_size :: u32
  un_row_size :: u32
  un_cc :: cache_counters
  un_perf :: "('t, 'd) unison_perf"
  un_remap_invalid :: bool
  un_avail_phy_page_tag :: u32
  un_page_table :: "(u64, u64) omap"
  un_current_time :: 't
  un_last_remap_time :: 't
  un_out :: "string list"

text \<open>
  The constructor. The three counters of accesses outside the region of interest are not
  initialised by it; their values are the argument \<open>noroi\<close>. \<open>uninit\<close> and \<open>dram\<close> are those of
  \<^const>\<open>StackedDramPerfUnison\<close>.
\<close>

definition set_place :: "u32 \<Rightarrow> u32 \<times> u32 \<times> u32" where
  "set_place i = (let offset = drop_bit 12 i; vault_mask = (2 ^ 5 - 1 :: u32) in
     (offset AND vault_mask, drop_bit 11 i AND 1, drop_bit 5 offset AND 3))"

definition StackDramCacheCntlrUnison :: "sd_config \<Rightarrow> u32 \<times> u32 \<times> u32 \<times> u32 \<Rightarrow> 'd \<Rightarrow> u32 \<times> u32 \<times> u32 \<Rightarrow>
    u32 \<Rightarrow> u32 \<Rightarrow> u32 \<Rightarrow> u32 \<Rightarrow> u32 \<Rightarrow> ('t::zero, 'd) unison_cntlr option" where
  "StackDramCacheCntlrUnison cfg uninit dram noroi cache_size set_num associativity blocksize pagesize = do {
     let cache_size = cache_size * 1024;
     let vault_num = 32;
     let vault_size = cache_size div vault_num;
     let bank_size = vault_size div 8;
     let row_size = 8;
     perf \<leftarrow> StackedDramPerfUnison cfg uninit dram vault_num vault_size bank_size row_size;
     let (a, p, b) = noroi;
     Some \<lparr>un_dram_stats = replicate 32 \<lparr>ds_reads = 0, ds_writes = 0, ds_misses = 0\<rparr>,
       un_set = map (\<lambda>i. DramCacheSetUnison associativity (set_place i)) (u32_range 0 set_num),
       un_set_thermal_valid = replicate (unat set_num) True, un_FHT = replicate 31 0,
       un_set_num = set_num, un_associativity = associativity, un_blocksize = blocksize,
       un_pagesize = pagesize, un_vault_num = vault_num, un_vault_size = vault_size,
       un_bank_size = bank_size, un_row_size = row_size,
       un_cc = \<lparr>cc_cache_access = 0, cc_page_misses = 0, cc_block_misses = 0, cc_page_disabled = 0,
         cc_load_on_page_miss = 0, cc_write_on_page_miss = 0, cc_cache_access_no_roi = a,
         cc_page_misses_no_roi = p, cc_block_misses_no_roi = b, cc_wb_blocks = 0, cc_ld_blocks = 0,
         cc_invalid_times = 0, cc_invalid_blocks = 0, cc_migrate_times = 0, cc_migrate_blocks = 0\<rparr>,
       un_perf = perf, un_remap_invalid = True, un_avail_phy_page_tag = 0, un_page_table = [],
       un_current_time = 0, un_last_remap_time = 0, un_out = []\<rparr>
   }"

subsection \<open>Time, addresses and DRAM accesses\<close>

definition updateCurrentTime :: "('t::{linorder, minus}, 'd) un_env \<Rightarrow> 't \<Rightarrow> ('t, 'd) unison_cntlr \<Rightarrow> ('t, 'd) unison_cntlr" where
  "updateCurrentTime E t c =
     (let c = (if t > un_current_time c then c\<lparr>un_current_time := t\<rparr> else c);
          time_elasped = un_current_time c - un_last_remap_time c
      in if time_elasped > ue_RemapInterval E then c\<lparr>un_last_remap_time := un_current_time c\<rparr> else c)"

definition handle_loop :: "('t::{comm_monoid_add, linorder, minus}, 'd) un_env \<Rightarrow> 't \<Rightarrow> u32 \<Rightarrow> access_t \<Rightarrow> nat \<Rightarrow>
    't \<times> ('t, 'd) unison_cntlr \<Rightarrow> ('t \<times> ('t, 'd) unison_cntlr) option" where
  "handle_loop E pkt_time set_n access_type n = foldM (\<lambda>_ (delay, c). do {
       (lat, u) \<leftarrow> unison_getAccessLatency (en_dram E) (en_floorLog2 E) (en_ns E) (en_getNS E) (en_freq E) (en_cfg E)
                    (pkt_time + delay) 128 set_n access_type (un_perf c);
       let delay = delay + lat;
       Some (delay, updateCurrentTime E (pkt_time + delay) (c\<lparr>un_perf := u\<rparr>))
     }) [0..<n]"

definition handleDramAccess :: "('t::{comm_monoid_add, linorder, minus}, 'd) un_env \<Rightarrow> 't \<Rightarrow> u32 \<Rightarrow> u32 \<Rightarrow> access_t \<Rightarrow>
    ('t, 'd) unison_cntlr \<Rightarrow> ('t \<times> ('t, 'd) unison_cntlr) option" where
  "handleDramAccess E pkt_time pkt_size set_n access_type c = do {
     guard (cf_bandwidth (en_cfg E) \<noteq> 0);
     let req_times = sint (pkt_size div cf_bandwidth (en_cfg E));
     let req_times = (if req_times < 1 then 1 else req_times);
     (delay, c) \<leftarrow> handle_loop E pkt_time set_n access_type (nat req_times) (0, c);
     Some (if \<not> cf_on_top (en_cfg E) then delay + en_ns E (ue_obus_delay E) else delay, c)
   }"

definition translateAddress :: "u64 \<Rightarrow> ('t, 'd) unison_cntlr \<Rightarrow> u64 \<times> ('t, 'd) unison_cntlr" where
  "translateAddress address c = (let
     offset = address AND (push_bit 12 1 - 1);
     v_tag = drop_bit 12 address
   in case map_of (un_page_table c) v_tag of
        Some p_tag \<Rightarrow> (push_bit 12 p_tag OR offset, c)
      | None \<Rightarrow> (let p_tag = ucast (un_avail_phy_page_tag c) in
          (push_bit 12 p_tag OR offset,
           c\<lparr>un_page_table := omap_put v_tag p_tag (un_page_table c),
             un_avail_phy_page_tag := un_avail_phy_page_tag c + 1\<rparr>)))"

definition SplitAddress :: "('t, 'd) un_env \<Rightarrow> u64 \<Rightarrow> ('t, 'd) unison_cntlr \<Rightarrow>
    (bool \<times> u32 \<times> u64 \<times> u64 \<times> ('t, 'd) unison_cntlr) option" where
  "SplitAddress E v_address c = do {
     let (address, c) = translateAddress v_address c;
     guard (un_pagesize c \<noteq> 0);
     let page_offset = address mod ucast (un_pagesize c);
     let addr = address div ucast (un_pagesize c);
     let k = en_floorLog2 E (un_set_num c);
     guard (unat k < 64);
     Some (True, ucast (addr AND (push_bit (unat k) 1 - 1)), addr, page_offset, c)
   }"

subsection \<open>Handling the result of a remapping\<close>

text \<open>
  The body of the three nested loops of \<^verbatim>\<open>checkRemapping\<close>. The counters \<^verbatim>\<open>cnt\<close>, \<^verbatim>\<open>invalid_cnt\<close> and
  \<^verbatim>\<open>valid_blocks\<close> of the function only serve its console output.
\<close>

definition flush_row :: "('t::{comm_monoid_add, linorder, minus}, 'd) un_env \<Rightarrow> 't \<Rightarrow> u32 \<Rightarrow> u32 \<Rightarrow> u32 \<Rightarrow>
    't list \<times> ('t, 'd) unison_cntlr \<Rightarrow> ('t list \<times> ('t, 'd) unison_cntlr) option" where
  "flush_row E pkt_time vault_i set_i set_wb_blocks st = do {
     let (cntlr_delay, c) = st;
     d \<leftarrow> fetch cntlr_delay vault_i;
     let d = d + ue_bw E (ucast (8 * 64 * set_wb_blocks));
     (l, c) \<leftarrow> handleDramAccess E pkt_time (8 * set_wb_blocks * 64) set_i READ c;
     cntlr_delay \<leftarrow> store cntlr_delay vault_i (d + l);
     s \<leftarrow> fetch (un_set c) set_i;
     (wb, s) \<leftarrow> invalidateContent s;
     sets \<leftarrow> store (un_set c) set_i s;
     Some (cntlr_delay, c\<lparr>un_set := sets,
       un_cc := (un_cc c)\<lparr>cc_invalid_times := cc_invalid_times (un_cc c) + 1,
                          cc_invalid_blocks := cc_invalid_blocks (un_cc c) + set_wb_blocks\<rparr>\<rparr>)
   }"

definition migrate_row :: "('t::{comm_monoid_add, linorder, minus}, 'd) un_env \<Rightarrow> 't \<Rightarrow> u32 \<Rightarrow> u32 \<Rightarrow> u32 \<Rightarrow>
    't list \<times> ('t, 'd) unison_cntlr \<Rightarrow> ('t list \<times> ('t, 'd) unison_cntlr) option" where
  "migrate_row E pkt_time vault_i set_i set_valid_blocks st = do {
     let (cntlr_delay, c) = st;
     d \<leftarrow> fetch cntlr_delay vault_i;
     (l, c) \<leftarrow> handleDramAccess E pkt_time (set_valid_blocks * 64) set_i READ c;
     (l', c) \<leftarrow> handleDramAccess E pkt_time (set_valid_blocks * 64) set_i WRITE c;
     cntlr_delay \<leftarrow> store cntlr_delay vault_i (d + l + l');
     Some (cntlr_delay, c\<lparr>
       un_cc := (un_cc c)\<lparr>cc_migrate_times := cc_migrate_times (un_cc c) + 1,
                          cc_migrate_blocks := cc_migrate_blocks (un_cc c) + set_valid_blocks\<rparr>\<rparr>)
   }"

definition check_row :: "('t::{comm_monoid_add, linorder, minus}, 'd) un_env \<Rightarrow> 't \<Rightarrow> u32 \<Rightarrow> u32 \<Rightarrow> u32 \<Rightarrow>
    't list \<times> u32 \<times> ('t, 'd) unison_cntlr \<Rightarrow> ('t list \<times> u32 \<times> ('t, 'd) unison_cntlr) option" where
  "check_row E pkt_time vault_i bank_i row_i st = do {
     let (cntlr_delay, writeback_blocks, c) = st;
     valid \<leftarrow> checkRowValid vault_i bank_i row_i (un_perf c);
     migrated \<leftarrow> checkRowMigrated vault_i bank_i row_i (un_perf c);
     disabled \<leftarrow> checkRowDisabled vault_i bank_i row_i (un_perf c);
     if valid \<and> \<not> migrated then Some st
     else do {
       (set_i, u) \<leftarrow> getSetNum (en_floorLog2 E) (en_cfg E) (vault_i, bank_i, row_i) (un_perf c);
       let c = c\<lparr>un_perf := u\<rparr>;
       s \<leftarrow> fetch (un_set c) set_i;
       set_wb_blocks \<leftarrow> getDirtyBlocks s;
       set_valid_blocks \<leftarrow> getValidBlocks s;
       (cntlr_delay, c) \<leftarrow>
         (if \<not> valid then flush_row E pkt_time vault_i set_i set_wb_blocks (cntlr_delay, c)
          else if migrated then migrate_row E pkt_time vault_i set_i set_valid_blocks (cntlr_delay, c)
          else Some (cntlr_delay, c));
       Some (cntlr_delay, writeback_blocks + set_wb_blocks, c)
     }
   }"

definition check_rows :: "('t::{comm_monoid_add, linorder, minus}, 'd) un_env \<Rightarrow> 't \<Rightarrow> u32 \<Rightarrow> u32 \<Rightarrow> u32 \<Rightarrow>
    't list \<times> u32 \<times> ('t, 'd) unison_cntlr \<Rightarrow> ('t list \<times> u32 \<times> ('t, 'd) unison_cntlr) option" where
  "check_rows E pkt_time vault_num bank_num row_num =
     foldM (\<lambda>vault_i. foldM (\<lambda>bank_i. foldM (check_row E pkt_time vault_i bank_i) (u32_range 0 row_num))
       (u32_range 0 bank_num)) (u32_range 0 vault_num)"

definition roi_counters :: "bool \<Rightarrow> cache_counters \<Rightarrow> cache_counters" where
  "roi_counters enter_roi k = (if \<not> enter_roi
     then k\<lparr>cc_cache_access_no_roi := cc_cache_access k, cc_page_misses_no_roi := cc_page_misses k,
            cc_block_misses_no_roi := cc_block_misses k\<rparr>
     else k)"

definition checkRemapping :: "('t::{comm_monoid_add, linorder, minus}, 'd) un_env \<Rightarrow> 't \<Rightarrow> ('t, 'd) unison_cntlr \<Rightarrow>
    ('t \<times> ('t, 'd) unison_cntlr) option" where
  "checkRemapping E pkt_time c = do {
     guard (un_bank_size c \<noteq> 0 \<and> un_row_size c \<noteq> 0);
     row_num \<leftarrow> shl32 1 (en_floorLog2 E (un_bank_size c div un_row_size c));
     bank_num \<leftarrow> shl32 1 (en_floorLog2 E (un_vault_size c div un_bank_size c));
     let vault_num = un_vault_num c;
     let c = c\<lparr>un_cc := roi_counters (up_enter_roi (un_perf c)) (un_cc c)\<rparr>;
     if \<not> up_remapped (un_perf c) then Some (0, c)
     else do {
       (cntlr_delay, writeback_blocks, c) \<leftarrow>
         check_rows E pkt_time vault_num bank_num row_num (replicate (unat vault_num) 0, 0, c);
       let dram_delay = foldl (\<lambda>m d. if d > m then d else m) 0 cntlr_delay;
       u \<leftarrow> clearRemappingStat (un_perf c);
       Some (dram_delay, c\<lparr>un_perf := u\<lparr>up_remapped := False\<rparr>,
         un_cc := (un_cc c)\<lparr>cc_wb_blocks := cc_wb_blocks (un_cc c) + writeback_blocks\<rparr>\<rparr>)
     }
   }"

subsection \<open>Requests\<close>

text \<open>
  The branch of \<^verbatim>\<open>ProcessRequest\<close> for a page that is not in the set: a way is chosen, its footprint goes
  to the history table, its dirty blocks are written back and the new page takes its place. The
  result is the number of blocks to load.
\<close>

definition replace_page :: "u8 \<Rightarrow> u32 \<Rightarrow> u64 \<Rightarrow> u32 \<Rightarrow> ('t, 'd) unison_cntlr \<Rightarrow> (u32 \<times> ('t, 'd) unison_cntlr) option" where
  "replace_page block_num set_n page_tag footprint c = do {
     s \<leftarrow> fetch (un_set c) set_n;
     (index, s) \<leftarrow> getReplacementIndex (s\<lparr>us_reads := us_reads s + 1\<rparr>);
     page \<leftarrow> page_at index s;
     let new_footprint = pi_footprint page;
     fht \<leftarrow> store (un_FHT c) (ucast block_num) new_footprint;
     let load_blocks = count_ones new_footprint 0;
     let (writeback_blocks, page) = page_invalidate page;
     s \<leftarrow> page_put index page s;
     s \<leftarrow> updateReplacementIndexTag index page_tag footprint s;
     sets \<leftarrow> store (un_set c) set_n s;
     let k = un_cc c;
     Some (load_blocks, c\<lparr>un_set := sets, un_FHT := fht,
       un_cc := k\<lparr>cc_page_misses := cc_page_misses k + 1,
         cc_wb_blocks := cc_wb_blocks k + writeback_blocks, cc_ld_blocks := cc_ld_blocks k + load_blocks,
         cc_load_on_page_miss := cc_load_on_page_miss k + load_blocks,
         cc_write_on_page_miss := cc_write_on_page_miss k + writeback_blocks\<rparr>\<rparr>)
   }"

text \<open>The statistics at the end of a request; the index of the bank is computed there and not used.\<close>

definition count_request :: "('t, 'd) un_env \<Rightarrow> access_t \<Rightarrow> u32 \<Rightarrow> u8 \<Rightarrow> ('t, 'd) unison_cntlr \<Rightarrow> ('t, 'd) unison_cntlr option" where
  "count_request E access_type set_n hit c = do {
     guard (un_bank_size c \<noteq> 0 \<and> un_row_size c \<noteq> 0);
     t \<leftarrow> shr32 set_n (en_floorLog2 E (un_bank_size c div un_row_size c));
     vault_i \<leftarrow> low_bits t (en_floorLog2 E (un_vault_num c));
     d \<leftarrow> fetch (un_dram_stats c) vault_i;
     let u = un_perf c;
     let miss = (hit = 0 \<or> hit = 1);
     let d = (if access_type = WRITE then d\<lparr>ds_writes := ds_writes d + 1\<rparr> else d\<lparr>ds_reads := ds_reads d + 1\<rparr>);
     let d = (if miss then d\<lparr>ds_misses := ds_misses d + 1\<rparr> else d);
     let u = (if access_type = WRITE then u\<lparr>up_tot_writes := up_tot_writes u + 1\<rparr>
              else u\<lparr>up_tot_reads := up_tot_reads u + 1\<rparr>);
     let u = (if miss then u\<lparr>up_tot_misses := up_tot_misses u + 1\<rparr> else u);
     ds \<leftarrow> store (un_dram_stats c) vault_i d;
     Some (c\<lparr>un_dram_stats := ds, un_perf := u\<rparr>)
   }"

text \<open>
  What follows the look-up: on a page miss the page is replaced and the DRAM accessed once more, on a
  block miss one block has to be loaded. The result is the number of blocks to load.
\<close>

definition handle_miss :: "('t::{comm_monoid_add, linorder, minus}, 'd) un_env \<Rightarrow> 't \<Rightarrow> u8 \<Rightarrow> u32 \<Rightarrow> u64 \<Rightarrow> u32 \<Rightarrow> u8 \<Rightarrow>
    't \<times> ('t, 'd) unison_cntlr \<Rightarrow> (u32 \<times> 't \<times> ('t, 'd) unison_cntlr) option" where
  "handle_miss E pkt_time block_num set_n page_tag footprint hit st = do {
     let (dram_delay, c) = st;
     if hit = 0 then do {
       (load_blocks, c) \<leftarrow> replace_page block_num set_n page_tag footprint c;
       (l, c) \<leftarrow> handleDramAccess E pkt_time 64 set_n READ c;
       Some (load_blocks, dram_delay + l, c) }
     else if hit = 1 then
       Some (1, dram_delay, c\<lparr>un_cc := (un_cc c)\<lparr>cc_block_misses := cc_block_misses (un_cc c) + 1\<rparr>\<rparr>)
     else Some (0, dram_delay, c)
   }"

text \<open>
  The part of \<^verbatim>\<open>ProcessRequest\<close> after the test for disabled sets: look-up, replacement on a page miss,
  the accesses of the stacked DRAM and of the memory behind it, and the statistics.
\<close>

definition serve_request :: "('t::{comm_monoid_add, linorder, minus}, 'd) un_env \<Rightarrow> 't \<Rightarrow> access_t \<Rightarrow> 't \<Rightarrow> u8 \<Rightarrow>
    u32 \<Rightarrow> u32 \<times> u64 \<times> u64 \<Rightarrow> 't \<Rightarrow> 't \<Rightarrow> ('t, 'd) unison_cntlr \<Rightarrow> ('t \<times> ('t, 'd) unison_cntlr) option" where
  "serve_request E pkt_time access_type dram_access_cost block_num footprint place remap_delay dram_delay c = do {
     let (set_n, page_tag, page_offset) = place;
     let avg_queue_latency = (if cf_on_top (en_cfg E) then 0 else ue_quarter E (en_ns E (ue_avg_queue_latency E)));
     (set_n, u) \<leftarrow> getRemapSet (en_floorLog2 E) (en_cfg E) set_n (un_perf c);
     let c = c\<lparr>un_perf := u\<rparr>;
     s \<leftarrow> fetch (un_set c) set_n;
     (hit, s) \<leftarrow> accessAttempt (if access_type = WRITE then WRITE_OP else READ_OP) page_tag page_offset s;
     sets \<leftarrow> store (un_set c) set_n s;
     (l, c) \<leftarrow> handleDramAccess E pkt_time 64 set_n READ (c\<lparr>un_set := sets\<rparr>);
     (load_blocks, dram_delay, c) \<leftarrow> handle_miss E pkt_time block_num set_n page_tag footprint hit (dram_delay + l, c);
     (model_delay, mem_access_delay, dram_delay, c) \<leftarrow>
       (if load_blocks > 0 then
          Some (dram_access_cost + avg_queue_latency, ue_bw E (8 * 64), dram_delay, c)
        else do {
          (l, c) \<leftarrow> handleDramAccess E pkt_time 64 set_n access_type c;
          Some (0, 0, dram_delay + l, c) });
     c \<leftarrow> count_request E access_type set_n hit c;
     let model_delay = model_delay + dram_delay + remap_delay + mem_access_delay;
     Some (model_delay, updateCurrentTime E (pkt_time + model_delay) c)
   }"

definition ProcessRequest :: "('t::{comm_monoid_add, linorder, minus}, 'd) un_env \<Rightarrow> 't \<Rightarrow> u64 \<Rightarrow> access_t \<Rightarrow> u64 \<Rightarrow> 't \<Rightarrow>
    ('t, 'd) unison_cntlr \<Rightarrow> ('t \<times> ('t, 'd) unison_cntlr) option" where
  "ProcessRequest E pkt_time pkt_size access_type address dram_access_cost c = do {
     (split, set_n, page_tag, page_offset, c) \<leftarrow> SplitAddress E address c;
     if \<not> split then Some (0, c\<lparr>un_out := un_out c @ [''ERROR: process request from llc'']\<rparr>)
     else do {
       guard (un_blocksize c \<noteq> 0);
       let block_num = ucast (page_offset div ucast (un_blocksize c));
       footprint \<leftarrow> fetch (un_FHT c) (ucast block_num);
       (remap_delay, c) \<leftarrow> checkRemapping E pkt_time c;
       let c = c\<lparr>un_cc := (un_cc c)\<lparr>cc_cache_access := cc_cache_access (un_cc c) + 1\<rparr>\<rparr>;
       let avg_queue_latency = en_ns E (ue_avg_queue_latency E);
       let dram_delay = (if up_enable_remap (un_perf c)
                         then ue_ps E (if cf_n_remap (en_cfg E) = 1 \<and> cf_inter_vault (en_cfg E) then 200 else 10)
                         else 0);
       (set_disabled, u) \<leftarrow> checkSetDisabled (en_floorLog2 E) (en_cfg E) set_n (un_perf c);
       let c = c\<lparr>un_perf := u\<rparr>;
       if set_disabled \<or> ue_dram_disabled E then do {
         let model_delay = ue_bw E (8 * pkt_size) + dram_access_cost + remap_delay + dram_delay + avg_queue_latency;
         let k = un_cc c;
         let c = c\<lparr>un_cc := k\<lparr>cc_block_misses := cc_block_misses k + 1, cc_page_disabled := cc_page_disabled k + 1\<rparr>\<rparr>;
         Some (model_delay, updateCurrentTime E (pkt_time + model_delay) c)
       } else
         serve_request E pkt_time access_type dram_access_cost block_num footprint
           (set_n, page_tag, page_offset) remap_delay dram_delay c
     }
   }"

text \<open>
  The requests that the code does not serve: those for block 0 of a page that the enabled set of the
  request holds, as the tests of \<^verbatim>\<open>ProcessRequest\<close> find it. They reach the shift of \<^verbatim>\<open>accessBlock\<close>
  without a defined value.
\<close>

definition block0_request :: "('t::{comm_monoid_add, linorder, minus}, 'd) un_env \<Rightarrow> 't \<Rightarrow> u64 \<Rightarrow> ('t, 'd) unison_cntlr \<Rightarrow> bool" where
  "block0_request E pkt_time address c \<longleftrightarrow> do {
     (split, set_n, page_tag, page_offset, c) \<leftarrow> SplitAddress E address c;
     (remap_delay, c) \<leftarrow> checkRemapping E pkt_time c;
     (set_disabled, u) \<leftarrow> checkSetDisabled (en_floorLog2 E) (en_cfg E) set_n (un_perf c);
     (set_n, u) \<leftarrow> getRemapSet (en_floorLog2 E) (en_cfg E) set_n u;
     s \<leftarrow> fetch (un_set c) set_n;
     Some (page_offset < 64 \<and> \<not> set_disabled \<and> \<not> ue_dram_disabled E \<and> pi_tag (us_pages s ! 0) = page_tag)
   } = Some True"

subsection \<open>The DRAM performance model\<close>

text \<open>
  \<^verbatim>\<open>DramPerfModelNormal\<close>: \<^verbatim>\<open>m_enabled\<close> and \<^verbatim>\<open>m_num_accesses\<close> are members of its base class. The queue
  model is created and never asked.
\<close>

record ('t, 'd) normal_model =
  nm_cntlr :: "('t, 'd) unison_cntlr"
  nm_enabled :: bool
  nm_num_accesses :: u64
  nm_total_queueing_delay :: 't
  nm_total_access_latency :: 't

definition StackedSetSize :: u32 where "StackedSetSize = 8"
definition StackedAssoc :: u32 where "StackedAssoc = 4"
definition StackedBlockSize :: u32 where "StackedBlockSize = 64"
definition StackedPageSize :: u32 where "StackedPageSize = 1984"

definition DramPerfModelNormal :: "sd_config \<Rightarrow> u32 \<times> u32 \<times> u32 \<times> u32 \<Rightarrow> 'd \<Rightarrow> u32 \<times> u32 \<times> u32 \<Rightarrow> bool \<Rightarrow> u32 \<Rightarrow>
    ('t::zero, 'd) normal_model option" where
  "DramPerfModelNormal cfg uninit dram noroi enabled cache_size = do {
     c \<leftarrow> StackDramCacheCntlrUnison cfg uninit dram noroi cache_size (cache_size * 1024 div StackedSetSize)
            StackedAssoc StackedBlockSize StackedPageSize;
     Some \<lparr>nm_cntlr = c, nm_enabled = enabled, nm_num_accesses = 0, nm_total_queueing_delay = 0,
           nm_total_access_latency = 0\<rparr>
   }"

definition normal_getAccessLatency :: "('t::{comm_monoid_add, linorder, minus}, 'd) un_env \<Rightarrow> int \<Rightarrow> 't \<Rightarrow> u64 \<Rightarrow> int \<Rightarrow> u64 \<Rightarrow>
    access_t \<Rightarrow> 't \<Rightarrow> ('t, 'd) normal_model \<Rightarrow> ('t \<times> ('t, 'd) normal_model) option" where
  "normal_getAccessLatency E application_cores pkt_time pkt_size requester address access_type cost n = do {
     (model_delay, c) \<leftarrow> ProcessRequest E pkt_time pkt_size access_type address cost (nm_cntlr n);
     let n = n\<lparr>nm_cntlr := c\<rparr>;
     if \<not> nm_enabled n \<or> requester \<ge> application_cores then Some (0, n)
     else Some (model_delay, n\<lparr>nm_num_accesses := nm_num_accesses n + 1,
       nm_total_access_latency := nm_total_access_latency n + model_delay\<rparr>)
   }"

subsection \<open>What an access of the DRAM leaves alone\<close>

text \<open>The part of the manager's state that decides which sets are valid, disabled or redirected.\<close>

definition bank_flags :: "bank_stat \<Rightarrow> bool \<times> u32 set \<times> bool \<times> bool \<times> u32 \<times> u32 \<times> u32" where
  "bank_flags b = (bs_valid b, bs_valid_rows b, bs_disabled b, bs_combined b, bs_logical_id b, bs_physical_id b, bs_remap_id b)"

definition perf_frame :: "('t, 'd) unison_perf \<Rightarrow> ('t, 'd) unison_perf \<Rightarrow> bool" where
  "perf_frame u u' \<longleftrightarrow> up_geo u' = up_geo u \<and> up_remapped u' = up_remapped u \<and>
     up_enable_remap u' = up_enable_remap u \<and> up_enter_roi u' = up_enter_roi u \<and>
     rm_n_banks (up_remap_manager u') = rm_n_banks (up_remap_manager u) \<and>
     map bank_flags (rm_bank_stat (up_remap_manager u')) = map bank_flags (rm_bank_stat (up_remap_manager u))"

lemma perf_frame_refl [simp]: "perf_frame u u"
  by (simp add: perf_frame_def)

lemma perf_frame_trans: "perf_frame u v \<Longrightarrow> perf_frame v w \<Longrightarrow> perf_frame u w"
  by (simp add: perf_frame_def)

lemma perf_frame_count: "perf_frame u u' \<Longrightarrow> set_count u' = set_count u"
  by (simp add: perf_frame_def up_geo_def set_count_def)

lemma bank_flags_accessRow: "bank_flags (BankStat_accessRow r b) = bank_flags b"
  by (simp add: bank_flags_def BankStat_accessRow_def Let_def split: option.splits)

lemma accessRow_flags:
  assumes "accessRow f v b r m = Some m'"
  shows "rm_n_banks m' = rm_n_banks m" "map bank_flags (rm_bank_stat m') = map bank_flags (rm_bank_stat m)"
proof -
  have upd: "map bank_flags (xs[i := BankStat_accessRow r (xs ! i)]) = map bank_flags xs" for xs :: "bank_stat list" and i
    by (cases "i < length xs") (auto simp: map_update bank_flags_accessRow list_update_same_conv list_update_beyond)
  show "rm_n_banks m' = rm_n_banks m" "map bank_flags (rm_bank_stat m') = map bank_flags (rm_bank_stat m)"
    using assms
    by (auto simp: accessRow_def Let_def bank_upd_def phy_upd_def bank_at_def phy_at_def fetch_eq_Some store_eq_Some upd
        split: bind_splits if_splits)
qed

lemma up_say_if_frame: "perf_frame u (up_say_if b msg u)"
  by (simp add: up_say_if_def perf_frame_def up_geo_def)

lemma numbering_frame:
  "ensures (splitSetNum fl cfg s u) (\<lambda>(x, u'). perf_frame u u')"
  "ensures (getSetNum fl cfg i u) (\<lambda>(t, u'). perf_frame u u')"
  by (auto simp: splitSetNum_def getSetNum_def up_say_if_frame ensures_bind split: prod.splits
      intro!: ensures_any[where m = "set_bits fl u"] ensures_any[where m = "split_bits am x y" for am x y]
        ensures_any[where m = "join_bits am x y z w" for am x y z w])

lemma accessRow_ensures:
  "ensures (accessRow f v b r m) (\<lambda>m'. rm_n_banks m' = rm_n_banks m \<and>
     map bank_flags (rm_bank_stat m') = map bank_flags (rm_bank_stat m))"
  by (simp add: ensures_def accessRow_flags)

lemmas ensures_irrelevant =
  ensures_any[where m = "getPhysicalIndex m i" for m i] ensures_any[where m = "fetch xs i" for xs i]
  ensures_any[where m = "request_loop D ns on_top freq a idx pkt_ns n s" for D ns on_top freq a idx pkt_ns n s]

lemma unison_access_frame: "ensures (unison_getAccessLatency D fl ns getNS freq cfg t pkt s a u) (\<lambda>(lat, u'). perf_frame u u')"
proof -
  define late where "late u = (if t > up_last_req u then u\<lparr>up_last_req := t\<rparr> else u)" for u :: "('a, 'b) unison_perf"
  define upd where "upd m u = (if a = READ then u\<lparr>up_remap_manager := m, up_tot_reads := up_tot_reads u + 1\<rparr>
     else u\<lparr>up_remap_manager := m, up_tot_writes := up_tot_writes u + 1\<rparr>)" for m and u :: "('a, 'b) unison_perf"
  have late: "perf_frame u (late u')" if "perf_frame u u'" for u'
    using that by (auto simp: late_def perf_frame_def up_geo_def)
  have upd: "perf_frame u ((upd m u')\<lparr>up_dram_model := d\<rparr>)"
    if "perf_frame u u'" "rm_n_banks m = rm_n_banks (up_remap_manager u') \<and>
     map bank_flags (rm_bank_stat m) = map bank_flags (rm_bank_stat (up_remap_manager u'))" for u' m d
    using that by (auto simp: upd_def perf_frame_def up_geo_def)
  have say: "perf_frame u (up_say_if b msg u2)" if "perf_frame u u1" "perf_frame u1 u2" for b msg u1 u2
    using that up_say_if_frame perf_frame_trans by blast
  show ?thesis
    unfolding unison_getAccessLatency_def Let_def late_def[symmetric]
    by (simp only: ensures_bind ensures_simps ensures_guard case_prod_beta)
       (intro impI ensures_mono[OF numbering_frame(1)] ensures_mono[OF numbering_frame(2)]
          ensures_mono[OF accessRow_ensures] ensures_irrelevant;
        use say late upd in \<open>fastforce simp: upd_def\<close>)
qed

subsection \<open>Well-formed controllers\<close>

definition un_env_ok :: "('t, 'd) un_env \<Rightarrow> ('d \<Rightarrow> bool) \<Rightarrow> bool" where
  "un_env_ok E dinv \<longleftrightarrow> dram_total 32 8 (en_dram E) dinv \<and> floorLog2_ok (en_floorLog2 E) \<and>
     sd_cfg_ok (en_cfg E) (en_freq E)"

text \<open>Every set has its ways, only the first of them is ever used, and no error was printed.\<close>

definition set_inv :: "u32 \<Rightarrow> unison_set \<Rightarrow> bool" where
  "set_inv n s \<longleftrightarrow> n = 4 \<and> us_ok n s \<and> us_direct s \<and> us_out s = []"

definition dram_ready :: "('t, 'd) un_env \<Rightarrow> ('d \<Rightarrow> bool) \<Rightarrow> ('t, 'd) unison_perf \<Rightarrow> bool" where
  "dram_ready E dinv u \<longleftrightarrow> up_ok (en_cfg E) u \<and> dinv (up_dram_model u)"

definition un_ok :: "('t, 'd) un_env \<Rightarrow> ('d \<Rightarrow> bool) \<Rightarrow> ('t, 'd) unison_cntlr \<Rightarrow> bool" where
  "un_ok E dinv c \<longleftrightarrow> dram_ready E dinv (un_perf c) \<and> un_bank_size c \<noteq> 0 \<and> un_row_size c \<noteq> 0 \<and>
     up_geo (un_perf c) = (un_vault_num c, un_vault_size c div un_bank_size c, un_bank_size c div un_row_size c) \<and>
     un_vault_num c = 32 \<and> un_vault_size c div un_bank_size c = 8 \<and> unat (un_set_num c) = set_count (un_perf c) \<and> (\<exists>k<32. un_set_num c = 2 ^ k) \<and>
     length (un_set c) = set_count (un_perf c) \<and> (\<forall>s\<in>set (un_set c). set_inv (un_associativity c) s) \<and>
     un_blocksize c = 64 \<and> un_pagesize c = 1984 \<and> length (un_FHT c) = 31 \<and> length (un_dram_stats c) = 32 \<and>
     un_out c = []"

text \<open>Accesses of the DRAM change the performance model and the clock of the controller only.\<close>

definition cntlr_frame :: "('t, 'd) unison_cntlr \<Rightarrow> ('t, 'd) unison_cntlr \<Rightarrow> bool" where
  "cntlr_frame c c' \<longleftrightarrow> perf_frame (un_perf c) (un_perf c') \<and>
     (\<exists>u t l. c' = c\<lparr>un_perf := u, un_current_time := t, un_last_remap_time := l\<rparr>)"

lemma cntlr_frame_refl [simp]: "cntlr_frame c c"
  unfolding cntlr_frame_def
  by (intro conjI perf_frame_refl exI[of _ "un_perf c"] exI[of _ "un_current_time c"] exI[of _ "un_last_remap_time c"]) simp

lemma cntlr_frame_trans: "cntlr_frame a b \<Longrightarrow> cntlr_frame b c \<Longrightarrow> cntlr_frame a c"
  unfolding cntlr_frame_def by (elim conjE exE, intro conjI, erule (1) perf_frame_trans) auto

lemma cntlr_frame_perf: "perf_frame (un_perf c) u \<Longrightarrow> cntlr_frame c (c\<lparr>un_perf := u\<rparr>)"
  unfolding cntlr_frame_def
  by (intro conjI exI[of _ u] exI[of _ "un_current_time c"] exI[of _ "un_last_remap_time c"]) simp_all

lemma cntlr_frame_time: "cntlr_frame c (updateCurrentTime E t c)"
  unfolding cntlr_frame_def
  by (intro conjI exI[of _ "un_perf c"] exI[of _ "un_current_time (updateCurrentTime E t c)"]
      exI[of _ "un_last_remap_time (updateCurrentTime E t c)"]) (simp_all add: updateCurrentTime_def Let_def)

lemma updateCurrentTime_perf [simp]: "un_perf (updateCurrentTime E t c) = un_perf c"
  by (simp add: updateCurrentTime_def Let_def)

lemma cntlr_frameD:
  assumes "cntlr_frame c c'"
  shows "un_set c' = un_set c" "un_cc c' = un_cc c" "un_FHT c' = un_FHT c" "un_bank_size c' = un_bank_size c"
    "un_row_size c' = un_row_size c" "un_vault_size c' = un_vault_size c" "un_vault_num c' = un_vault_num c"
    "un_dram_stats c' = un_dram_stats c" "un_page_table c' = un_page_table c" "un_associativity c' = un_associativity c"
    "perf_frame (un_perf c) (un_perf c')" "set_count (un_perf c') = set_count (un_perf c)"
  using assms by (auto simp: cntlr_frame_def perf_frame_count)

lemma un_ok_frame:
  assumes "un_ok E dinv c" "cntlr_frame c c'" "dram_ready E dinv (un_perf c')"
  shows "un_ok E dinv c'"
proof -
  obtain u t l where c': "c' = c\<lparr>un_perf := u, un_current_time := t, un_last_remap_time := l\<rparr>"
    and fr: "perf_frame (un_perf c) u"
    using assms(2) by (auto simp: cntlr_frame_def)
  have "up_geo u = up_geo (un_perf c)" "set_count u = set_count (un_perf c)"
    using fr perf_frame_count[OF fr] by (auto simp: perf_frame_def)
  then show ?thesis using assms(1,3) by (simp add: un_ok_def c')
qed

lemma handleDramAccess_runs:
  fixes c :: "('t::{comm_monoid_add, linorder, minus}, 'd) unison_cntlr"
  assumes E: "un_env_ok E dinv" and r: "dram_ready E dinv (un_perf c)" and s: "unat s < set_count (un_perf c)"
  shows "runs (handleDramAccess E t size' s a c) (\<lambda>(l, c'). cntlr_frame c c' \<and> dram_ready E dinv (un_perf c'))"
proof -
  let ?acc = "\<lambda>t u. unison_getAccessLatency (en_dram E) (en_floorLog2 E) (en_ns E) (en_getNS E) (en_freq E) (en_cfg E) t 128 s a u"
  let ?I = "\<lambda>(l, c'). cntlr_frame c c' \<and> dram_ready E dinv (un_perf c')"
  have step: "runs (?acc t' (un_perf c')) (\<lambda>(lat, u). dram_ready E dinv u \<and> perf_frame (un_perf c') u)"
    if "?I (l, c')" for t' l c'
  proof -
    have "unat s < set_count (un_perf c')" using that s cntlr_frameD(12)[of c c'] by simp
    then have "runs (?acc t' (un_perf c')) (\<lambda>(lat, u). dram_ready E dinv u)"
      using that E
      by (intro runs_mono[OF unison_access_runs[where dinv = dinv]]) (auto simp: dram_ready_def un_env_ok_def)
    from runs_ensures[OF this unison_access_frame] show ?thesis
      by (rule runs_mono) auto
  qed
  have loop: "runs (handle_loop E t s a n (0, c)) ?I" for n
    unfolding handle_loop_def
  proof (rule foldM_runs)
    fix x :: nat and p :: "'t \<times> ('t, 'd) unison_cntlr" assume "?I p"
    then obtain l c' where p: "p = (l, c')" "?I (l, c')" by (cases p) auto
    have fr: "cntlr_frame c (updateCurrentTime E t' (c'\<lparr>un_perf := u\<rparr>))" if "perf_frame (un_perf c') u" for t' u
      using cntlr_frame_trans[OF _ cntlr_frame_trans[OF cntlr_frame_perf[OF that] cntlr_frame_time]] p(2) by auto
    show "runs (case p of (delay, c) \<Rightarrow> do {
       (lat, u) \<leftarrow> ?acc (t + delay) (un_perf c);
       let delay = delay + lat;
       Some (delay, updateCurrentTime E (t + delay) (c\<lparr>un_perf := u\<rparr>)) }) ?I"
      unfolding p(1) by (auto simp: runs_bind Let_def fr intro!: runs_mono[OF step[OF p(2)]])
  qed (use r in simp)
  show ?thesis
    using E unfolding handleDramAccess_def Let_def
    by (auto simp: runs_simps un_env_ok_def sd_cfg_ok_def intro!: runs_mono[OF loop])
qed

subsection \<open>Set numbers and addresses\<close>

lemma getSetNum_runs:
  assumes "up_ok cfg u" "floorLog2_ok fl" "v < up_n_vaults u" "b < up_n_banks u" "r < up_n_rows u"
  shows "\<exists>s. getSetNum fl cfg (v, b, r) u = Some (s, u) \<and> unat s < set_count u \<and> splitSetNum fl cfg s u = Some ((v, b, r), u)"
proof -
  obtain bits where bits: "set_bits fl u = Some bits" "\<And>s. set_ok (cf_addr_map cfg) bits s \<longleftrightarrow> unat s < set_count u"
    "\<And>v b r. idx_ok (cf_addr_map cfg) bits (v, b, r) \<longleftrightarrow> v < up_n_vaults u \<and> b < up_n_banks u \<and> r < up_n_rows u"
    using up_bits[OF assms(1,2)] by blast
  then have "idx_ok (cf_addr_map cfg) bits (v, b, r)" using assms by simp
  then obtain s where "enc_set (cf_addr_map cfg) bits (v, b, r) = Some s" "set_ok (cf_addr_map cfg) bits s"
    "dec_set (cf_addr_map cfg) bits s = Some (v, b, r)"
    using sets.dec_enc by blast
  then show ?thesis
    using getSetNum_eq[OF bits(1)] splitSetNum_eq[OF bits(1)] bits(2) by blast
qed

lemma SplitAddress_runs:
  assumes E: "un_env_ok E dinv" and ok: "un_ok E dinv c"
  shows "runs (SplitAddress E a c) (\<lambda>(f, s, tag, off, c'). f \<and> unat s < set_count (un_perf c) \<and>
     tag \<noteq> - 1 \<and> off < 1984 \<and> c' = snd (translateAddress a c) \<and> tag = fst (translateAddress a c) div 1984 \<and>
     off = fst (translateAddress a c) mod 1984)"
proof -
  obtain k where k: "k < 32" "un_set_num c = 2 ^ k" "2 ^ k = set_count (un_perf c)"
    using ok by (auto simp: un_ok_def unat_pow2)
  obtain pa c' where t: "translateAddress a c = (pa, c')" by (cases "translateAddress a c")
  have c': "un_set_num c' = un_set_num c" "un_pagesize c' = 1984"
    using t ok by (auto simp: translateAddress_def Let_def un_ok_def split: option.splits)
  have fl: "en_floorLog2 E (un_set_num c) = word_of_nat k"
    using E k(1,2) by (auto simp: un_env_ok_def floorLog2_ok_def)
  have ku: "unat (word_of_nat k :: u32) = k" using k(1) by (simp add: unsigned_of_nat take_bit_eq_mod)
  have m: "unat (ucast (x AND (push_bit k 1 - 1) :: u64) :: u32) < 2 ^ k" for x :: u64
  proof -
    have "(push_bit k 1 - 1 :: u64) = mask k" by (simp add: mask_eq_exp_minus_1)
    then have "unat (x AND (push_bit k 1 - 1)) < 2 ^ k"
      by (simp add: take_bit_eq_mask[symmetric] unsigned_take_bit_eq take_bit_nat_less_exp)
    then show ?thesis
      using order_le_less_trans[OF take_bit_nat_less_eq_self] by (simp add: unsigned_ucast_eq)
  qed
  have tag: "pa div 1984 \<noteq> - 1"
  proof
    assume "pa div 1984 = - 1"
    then have "unat (pa div 1984) = unat (- 1 :: u64)" by simp
    then show False using unsigned_less[of pa, where ?'a = nat]
      by (simp add: unat_div unsigned_minus_1_eq_mask mask_eq_exp_minus_1)
  qed
  have off: "pa mod 1984 < 1984" by (simp add: word_less_nat_alt unat_mod)
  show ?thesis
    using m[of "pa div 1984"] k tag off
    by (simp add: SplitAddress_def t c' fl[unfolded k(2)] ku runs_simps Let_def)
qed

subsection \<open>The flush after a remapping\<close>

lemma un_ok_cc [simp]: "un_ok E dinv (c\<lparr>un_cc := k\<rparr>) = un_ok E dinv c"
  by (simp add: un_ok_def)

lemma un_ok_put:
  assumes "un_ok E dinv c" "set_inv (un_associativity c) s"
  shows "un_ok E dinv (c\<lparr>un_set := (un_set c)[i := s]\<rparr>)"
  using assms set_update_subset_insert[of "un_set c" i s] by (auto simp: un_ok_def)

lemma un_ok_set:
  assumes "un_ok E dinv c" "unat s < set_count (un_perf c)"
  shows "unat s < length (un_set c)" "set_inv (un_associativity c) (un_set c ! unat s)"
    "us_ok (un_associativity c) (un_set c ! unat s)" "us_direct (un_set c ! unat s)"
proof -
  show len: "unat s < length (un_set c)" using assms by (simp add: un_ok_def)
  then show inv: "set_inv (un_associativity c) (un_set c ! unat s)"
    using assms(1) by (simp add: un_ok_def)
  then show "us_ok (un_associativity c) (un_set c ! unat s)" "us_direct (un_set c ! unat s)"
    unfolding set_inv_def by blast+
qed

lemma set_bits_geo:
  assumes "up_ok cfg u"
  shows "set_bits fl u = Some (fl (up_n_vaults u), fl (up_n_banks u), fl (up_n_rows u))"
  using assms by (simp add: up_ok_def set_bits_def guard_def)

lemma getSetNum_frame:
  assumes "up_ok cfg u" "up_ok cfg u'" "up_geo u' = up_geo u" "getSetNum fl cfg x u = Some (s, u)"
  shows "getSetNum fl cfg x u' = Some (s, u')"
proof -
  have "set_bits fl u' = set_bits fl u"
    using assms(3) by (simp add: set_bits_geo[OF assms(1)] set_bits_geo[OF assms(2)] up_geo_def)
  moreover obtain v b r where x: "x = (v, b, r)" by (cases x)
  moreover obtain bits known where "set_bits fl u = Some bits" "join_bits (cf_addr_map cfg) bits v b r = Some (known, s)"
      "up_say_if (\<not> known) ''[Config Error] No such set address mapping configuration!'' u = u"
    using assms(4) by (auto simp: getSetNum_def x split: bind_splits)
  moreover have known if "up_say_if (\<not> known) msg u = u" for msg
    using arg_cong[OF that, of "length \<circ> up_out"] by (simp add: up_say_if_def split: if_splits)
  ultimately show ?thesis by (auto simp: getSetNum_def up_say_if_def[of _ _ u'])
qed

lemma flushed_inv: "set_inv n s \<Longrightarrow> set_inv n (flushed s)"
  using flushed_ok by (auto simp: set_inv_def) (simp add: flushed_def)

lemma flushed_flushed [simp]: "flushed (flushed s) = flushed s"
  by (simp add: flushed_def page_invalidate_def comp_def)

definition flush_frame :: "('t, 'd) unison_cntlr \<Rightarrow> ('t, 'd) unison_cntlr \<Rightarrow> bool" where
  "flush_frame c c' \<longleftrightarrow> perf_frame (un_perf c) (un_perf c') \<and> (\<exists>u S t l x y.
     c' = c\<lparr>un_perf := u, un_set := S, un_current_time := t, un_last_remap_time := l,
            un_cc := (un_cc c)\<lparr>cc_invalid_times := x, cc_invalid_blocks := y\<rparr>\<rparr>)"

lemma flush_frame_refl [simp]: "flush_frame c c"
  unfolding flush_frame_def
  by (intro conjI perf_frame_refl exI[of _ "un_perf c"] exI[of _ "un_set c"] exI[of _ "un_current_time c"]
      exI[of _ "un_last_remap_time c"] exI[of _ "cc_invalid_times (un_cc c)"] exI[of _ "cc_invalid_blocks (un_cc c)"]) simp

lemma flush_frame_trans: "flush_frame a b \<Longrightarrow> flush_frame b c \<Longrightarrow> flush_frame a c"
proof -
  assume ab: "flush_frame a b" and bc: "flush_frame b c"
  obtain u S t l x y where c: "c = b\<lparr>un_perf := u, un_set := S, un_current_time := t, un_last_remap_time := l,
      un_cc := (un_cc b)\<lparr>cc_invalid_times := x, cc_invalid_blocks := y\<rparr>\<rparr>" "perf_frame (un_perf b) u"
    using bc by (auto simp: flush_frame_def)
  obtain u' S' t' l' x' y' where b: "b = a\<lparr>un_perf := u', un_set := S', un_current_time := t', un_last_remap_time := l',
      un_cc := (un_cc a)\<lparr>cc_invalid_times := x', cc_invalid_blocks := y'\<rparr>\<rparr>" "perf_frame (un_perf a) u'"
    using ab by (auto simp: flush_frame_def)
  show ?thesis
    unfolding flush_frame_def
    by (intro conjI exI[of _ u] exI[of _ S] exI[of _ t] exI[of _ l] exI[of _ x] exI[of _ y])
       (use c b perf_frame_trans[of "un_perf a" u' u] in simp_all)
qed

lemma flush_frameD:
  assumes "flush_frame c c'"
  shows "perf_frame (un_perf c) (un_perf c')" "un_FHT c' = un_FHT c" "un_page_table c' = un_page_table c"
    "cc_cache_access (un_cc c') = cc_cache_access (un_cc c)" "cc_page_misses (un_cc c') = cc_page_misses (un_cc c)"
    "cc_block_misses (un_cc c') = cc_block_misses (un_cc c)" "cc_page_disabled (un_cc c') = cc_page_disabled (un_cc c)"
    "cc_migrate_times (un_cc c') = cc_migrate_times (un_cc c)" "cc_migrate_blocks (un_cc c') = cc_migrate_blocks (un_cc c)"
    "un_associativity c' = un_associativity c" "un_avail_phy_page_tag c' = un_avail_phy_page_tag c"
  using assms by (auto simp: flush_frame_def)

lemma cntlr_flush_frame:
  assumes "cntlr_frame c c1"
  shows "flush_frame c (c1\<lparr>un_set := S, un_cc := (un_cc c1)\<lparr>cc_invalid_times := x, cc_invalid_blocks := y\<rparr>\<rparr>)"
proof -
  obtain u t l where "c1 = c\<lparr>un_perf := u, un_current_time := t, un_last_remap_time := l\<rparr>" "perf_frame (un_perf c) u"
    using assms by (auto simp: cntlr_frame_def)
  then show ?thesis
    unfolding flush_frame_def
    by (intro conjI exI[of _ u] exI[of _ S] exI[of _ t] exI[of _ l] exI[of _ x] exI[of _ y]) simp_all
qed

lemma flush_row_runs:
  assumes E: "un_env_ok E dinv" and ok: "un_ok E dinv c" and s: "unat s < set_count (un_perf c)"
    and v: "unat v < length ds"
  shows "runs (flush_row E t v s wb (ds, c)) (\<lambda>(ds', c'). length ds' = length ds \<and> un_ok E dinv c' \<and>
     flush_frame c c' \<and> un_set c' = (un_set c)[unat s := flushed (un_set c ! unat s)])"
proof -
  have rdy: "dram_ready E dinv (un_perf c)" using ok by (simp add: un_ok_def)
  note st = un_ok_set[OF ok s]
  have fin: "un_ok E dinv (c1\<lparr>un_set := (un_set c)[unat s := flushed (un_set c ! unat s)]\<rparr>)"
    if fr: "cntlr_frame c c1" and r: "dram_ready E dinv (un_perf c1)" for c1
  proof -
    have ok1: "un_ok E dinv c1" using un_ok_frame[OF ok fr r] .
    have "un_ok E dinv (c1\<lparr>un_set := (un_set c1)[unat s := flushed (un_set c ! unat s)]\<rparr>)"
      by (rule un_ok_put[OF ok1]) (use flushed_inv[OF st(2)] cntlr_frameD(10)[OF fr] in simp)
    then show ?thesis using cntlr_frameD(1)[OF fr] by simp
  qed
  show ?thesis
    using v st(1) unfolding flush_row_def
    by (auto simp: runs_simps Let_def fin cntlr_flush_frame cntlr_frameD(1) invalidateContent_eq[OF st(3)]
        intro!: runs_mono[OF handleDramAccess_runs[OF E rdy s]])
qed

definition row_number :: "('t, 'd) un_env \<Rightarrow> ('t, 'd) unison_perf \<Rightarrow> u32 \<times> u32 \<times> u32 \<Rightarrow> nat" where
  "row_number E u x = unat (fst (the (getSetNum (en_floorLog2 E) (en_cfg E) x u)))"

definition row_valid :: "('t, 'd) unison_perf \<Rightarrow> u32 \<Rightarrow> u32 \<Rightarrow> bool" where
  "row_valid u v b = bs_valid (rm_bank_stat (up_remap_manager u) ! unat (getBankId (up_remap_manager u) v b))"

definition row_in :: "('t, 'd) unison_perf \<Rightarrow> u32 \<times> u32 \<times> u32 \<Rightarrow> bool" where
  "row_in u x = (case x of (v, b, r) \<Rightarrow> v < up_n_vaults u \<and> b < up_n_banks u \<and> r < up_n_rows u)"

lemma bank_in:
  assumes "up_ok cfg u" "row_in u (v, b, r)"
  shows "unat (getBankId (up_remap_manager u) v b) < length (rm_bank_stat (up_remap_manager u))"
proof -
  have m: "rm_ok (up_remap_manager u)" "v < rm_n_vaults (up_remap_manager u)" "b < rm_n_banks (up_remap_manager u)"
    using assms by (auto simp: up_ok_def row_in_def)
  show ?thesis using rm_ok_bank(1)[OF m(1) getBankId_in(2)[OF m]] .
qed

lemma row_valid_frame:
  assumes "perf_frame u u'" "up_ok cfg u" "row_in u (v, b, r)"
  shows "row_valid u' v b = row_valid u v b"
proof -
  let ?k = "unat (getBankId (up_remap_manager u) v b)"
  have "getBankId (up_remap_manager u') v b = getBankId (up_remap_manager u) v b"
    using assms(1) by (simp add: perf_frame_def getBankId_def)
  moreover have "bank_flags (rm_bank_stat (up_remap_manager u') ! ?k) = bank_flags (rm_bank_stat (up_remap_manager u) ! ?k)"
  proof -
    have eq: "map bank_flags (rm_bank_stat (up_remap_manager u')) = map bank_flags (rm_bank_stat (up_remap_manager u))"
      using assms(1) by (simp add: perf_frame_def)
    then have "length (rm_bank_stat (up_remap_manager u')) = length (rm_bank_stat (up_remap_manager u))"
      by (rule map_eq_imp_length_eq)
    then show ?thesis
      using arg_cong[OF eq, of "\<lambda>xs. xs ! ?k"] bank_in[OF assms(2,3)] by simp
  qed
  ultimately show ?thesis by (simp add: row_valid_def bank_flags_def)
qed

lemma checkRow_eq:
  assumes "up_ok cfg u" "row_in u (v, b, r)"
  shows "checkRowValid v b r u = Some (row_valid u v b)"
    "\<exists>mig. checkRowMigrated v b r u = Some mig \<and> (row_valid u v b \<longrightarrow> \<not> mig)"
    "\<exists>dis. checkRowDisabled v b r u = Some dis"
  using bank_in[OF assms]
  by (auto simp: checkRowValid_def checkRowMigrated_def checkRowDisabled_def checkValid_def checkMigrated_def
      checkDisabled_def bank_at_def fetch_in row_valid_def)

text \<open>
  The invariant of the loops: the rows seen so far whose bank is invalid have been flushed, all others
  are as they were.
\<close>

definition row_inv :: "('t, 'd) un_env \<Rightarrow> ('d \<Rightarrow> bool) \<Rightarrow> ('t, 'd) unison_cntlr \<Rightarrow> (u32 \<times> u32 \<times> u32) set \<Rightarrow>
    't list \<times> u32 \<times> ('t, 'd) unison_cntlr \<Rightarrow> bool" where
  "row_inv E dinv c0 seen st = (case st of (ds, wb, c) \<Rightarrow>
     length ds = 32 \<and> un_ok E dinv c \<and> flush_frame c0 c \<and>
     (\<forall>j<length (un_set c0). un_set c ! j =
        (if \<exists>v b r. (v, b, r) \<in> seen \<and> row_number E (un_perf c0) (v, b, r) = j \<and> \<not> row_valid (un_perf c0) v b
         then flushed (un_set c0 ! j) else un_set c0 ! j)))"

lemma check_row_runs:
  assumes E: "un_env_ok E dinv" and ok0: "un_ok E dinv c0" and x: "row_in (un_perf c0) (v, b, r)"
    and I: "row_inv E dinv c0 seen st"
  shows "runs (check_row E t v b r st) (row_inv E dinv c0 (insert (v, b, r) seen))"
proof -
  obtain ds wb c where st: "st = (ds, wb, c)" by (cases st)
  have ds: "length ds = 32" and ok: "un_ok E dinv c" and fr: "flush_frame c0 c"
    using I by (auto simp: row_inv_def st)
  let ?p = "un_perf c0" and ?u = "un_perf c"
  have fl: "floorLog2_ok (en_floorLog2 E)" using E by (simp add: un_env_ok_def)
  have u0: "up_ok (en_cfg E) ?p" and u: "up_ok (en_cfg E) ?u" using ok0 ok by (auto simp: un_ok_def dram_ready_def)
  note pf = flush_frameD(1)[OF fr]
  have geo: "up_geo ?u = up_geo ?p" using pf by (simp add: perf_frame_def)
  have xu: "row_in ?u (v, b, r)" using x geo[unfolded up_geo_def] by (simp add: row_in_def)
  have vv: "row_valid ?u v b = row_valid ?p v b" by (rule row_valid_frame[OF pf u0 x])
  obtain s where s0: "getSetNum (en_floorLog2 E) (en_cfg E) (v, b, r) ?p = Some (s, ?p)" "unat s < set_count ?p"
    using getSetNum_runs[OF u0 fl, of v b r] x by (auto simp: row_in_def)
  have s: "getSetNum (en_floorLog2 E) (en_cfg E) (v, b, r) ?u = Some (s, ?u)" "unat s < set_count ?u"
    using getSetNum_frame[OF u0 u geo s0(1)] s0(2) perf_frame_count[OF pf] by simp_all
  have num: "row_number E ?p (v, b, r) = unat s" by (simp add: row_number_def s0(1))
  note chk = checkRow_eq[OF u xu]
  obtain mig dis where mig: "checkRowMigrated v b r ?u = Some mig" "row_valid ?u v b \<longrightarrow> \<not> mig"
    and dis: "checkRowDisabled v b r ?u = Some dis" using chk(2,3) by blast
  show ?thesis
  proof (cases "row_valid ?u v b")
    case True
    have "row_inv E dinv c0 (insert (v, b, r) seen) st"
      using I True vv by (auto simp: row_inv_def st)
    then show ?thesis using True mig dis chk(1) by (simp add: check_row_def st)
  next
    case False
    note so = un_ok_set[OF ok s(2)]
    have v: "unat v < length ds" using x ok0 ds by (simp add: row_in_def un_ok_def up_geo_def word_less_nat_alt)
    have fin: "row_inv E dinv c0 (insert (v, b, r) seen) (ds', w, c')"
      if "length ds' = length ds \<and> un_ok E dinv c' \<and> flush_frame c c' \<and>
        un_set c' = (un_set c)[unat s := flushed (un_set c ! unat s)]" for ds' w c'
    proof -
      have len: "length (un_set c) = length (un_set c0)" "unat s < length (un_set c0)"
        using ok ok0 s0(2) perf_frame_count[OF pf] by (auto simp: un_ok_def)
      have "un_set c' ! j = (if \<exists>v' b' r'. (v', b', r') \<in> insert (v, b, r) seen \<and> row_number E ?p (v', b', r') = j \<and>
          \<not> row_valid ?p v' b' then flushed (un_set c0 ! j) else un_set c0 ! j)" if j: "j < length (un_set c0)" for j
      proof (cases "j = unat s")
        case True
        have "\<exists>v' b' r'. (v', b', r') \<in> insert (v, b, r) seen \<and> row_number E ?p (v', b', r') = j \<and> \<not> row_valid ?p v' b'"
          using num False vv True by blast
        then show ?thesis using I j True that \<open>length ds' = _ \<and> _\<close> len by (simp add: row_inv_def st)
      next
        case False
        then show ?thesis using I j num \<open>length ds' = _ \<and> _\<close> len by (auto simp: row_inv_def st)
      qed
      then show ?thesis using that fr ds flush_frame_trans[OF fr] by (simp add: row_inv_def)
    qed
    show ?thesis
      using False so(1) mig(1) dis chk(1) s(1) getDirtyBlocks_eq[OF so(3)] getValidBlocks_eq[OF so(3)]
      by (auto simp: check_row_def st runs_bind fetch_in Let_def fin intro!: runs_mono[OF flush_row_runs[OF E ok s(2) v]])
  qed
qed

lemma shl_floorLog2:
  assumes "floorLog2_ok fl" "k < 32" "n = 2 ^ k"
  shows "shl32 1 (fl n) = Some n"
proof -
  have "unat (word_of_nat k :: u32) = k" using assms(2) by (simp add: unsigned_of_nat take_bit_eq_mod)
  then show ?thesis using assms by (simp add: floorLog2_ok_def shl32_def)
qed

lemma un_ok_loops:
  assumes "un_env_ok E dinv" "un_ok E dinv c"
  shows "shl32 1 (en_floorLog2 E (un_bank_size c div un_row_size c)) = Some (up_n_rows (un_perf c))"
    "shl32 1 (en_floorLog2 E (un_vault_size c div un_bank_size c)) = Some (up_n_banks (un_perf c))"
    "un_vault_num c = up_n_vaults (un_perf c)"
proof -
  have fl: "floorLog2_ok (en_floorLog2 E)" and geo: "un_bank_size c div un_row_size c = up_n_rows (un_perf c)"
      "un_vault_size c div un_bank_size c = up_n_banks (un_perf c)" "un_vault_num c = up_n_vaults (un_perf c)"
    and p: "pow2_geometry (up_n_vaults (un_perf c)) (up_n_banks (un_perf c)) (up_n_rows (un_perf c))"
    using assms by (auto simp: un_env_ok_def un_ok_def up_geo_def dram_ready_def up_ok_def)
  obtain j k where "j < 32" "k < 32" "up_n_banks (un_perf c) = 2 ^ j" "up_n_rows (un_perf c) = 2 ^ k"
    using p by (auto simp: pow2_geometry_def)
  then show "shl32 1 (en_floorLog2 E (un_bank_size c div un_row_size c)) = Some (up_n_rows (un_perf c))"
    "shl32 1 (en_floorLog2 E (un_vault_size c div un_bank_size c)) = Some (up_n_banks (un_perf c))"
    using shl_floorLog2[OF fl] by (simp_all only: geo)
  show "un_vault_num c = up_n_vaults (un_perf c)" by (rule geo)
qed

lemma check_rows_runs:
  assumes E: "un_env_ok E dinv" and ok: "un_ok E dinv c"
  shows "runs (check_rows E t (up_n_vaults (un_perf c)) (up_n_banks (un_perf c)) (up_n_rows (un_perf c)) (replicate 32 0, 0, c))
     (row_inv E dinv c {x. row_in (un_perf c) x})"
proof -
  let ?u = "un_perf c"
  let ?xs = "List.product (u32_range 0 (up_n_vaults ?u)) (List.product (u32_range 0 (up_n_banks ?u)) (u32_range 0 (up_n_rows ?u)))"
  have all: "set ?xs = {x. row_in ?u x}"
    by (auto simp: row_in_def set_u32_range word_less_nat_alt)
  have start: "row_inv E dinv c {} (replicate 32 0, 0, c)"
    using ok by (simp add: row_inv_def)
  have "runs (foldM (\<lambda>(v, b, r). check_row E t v b r) ?xs (replicate 32 0, 0, c)) (row_inv E dinv c (set ?xs))"
  proof (rule foldM_seen_runs[where I = "row_inv E dinv c", OF start])
    fix x seen st assume x: "x \<in> set ?xs" and I: "row_inv E dinv c seen st"
    obtain v b r where xe: "x = (v, b, r)" by (cases x)
    then have "row_in ?u (v, b, r)" using x all by blast
    from check_row_runs[OF E ok this I] show "runs ((case x of (v, b, r) \<Rightarrow> check_row E t v b r) st) (row_inv E dinv c (insert x seen))"
      by (simp add: xe)
  qed
  moreover have "check_rows E t (up_n_vaults ?u) (up_n_banks ?u) (up_n_rows ?u) s =
      foldM (\<lambda>(v, b, r). check_row E t v b r) ?xs s" for s
  proof -
    have inner: "foldM (\<lambda>b. foldM (check_row E t v b) rs) bs = foldM (\<lambda>(b, r). check_row E t v b r) (List.product bs rs)" for v rs bs
      by (rule ext) (rule foldM_product)
    show ?thesis unfolding check_rows_def inner foldM_product by simp
  qed
  ultimately show ?thesis by (simp only: all)
qed

lemma resetStats_False:
  assumes "rm_ok m"
  shows "resetStats False m = Some (m\<lparr>rm_bank_stat := map (finishRemapping \<circ> setValid True) (rm_bank_stat m)\<rparr>)"
proof -
  let ?f = "finishRemapping \<circ> setValid True" and ?bs = "rm_bank_stat m"
  let ?k = "\<lambda>k. m\<lparr>rm_bank_stat := map ?f (take k ?bs) @ drop k ?bs\<rparr>"
  have len: "length ?bs = unat (rm_tot_banks m)" using assms by (simp add: rm_ok_def rm_shape_def)
  have "runs (resetStats False m) (\<lambda>m'. m' = ?k (unat (rm_tot_banks m)))"
    unfolding resetStats_def
  proof (rule foldM_u32_range_runs)
    fix i :: u32 and m' assume i: "unat i < unat (rm_tot_banks m)" and m': "m' = ?k (unat i)"
    have upd: "(map ?f (take (unat i) ?bs) @ drop (unat i) ?bs)[unat i := ?f (?bs ! unat i)] =
        map ?f (take (Suc (unat i)) ?bs) @ drop (Suc (unat i)) ?bs"
      using i len by (simp add: take_Suc_conv_app_nth list_update_append Cons_nth_drop_Suc[symmetric])
    show "runs (do {
         bank \<leftarrow> bank_at i m';
         let phy_id = bs_physical_id bank;
         m \<leftarrow> bank_upd i (setValid True) m';
         m \<leftarrow> bank_upd i finishRemapping m;
         p \<leftarrow> phy_at phy_id m;
         if False \<and> pb_temperature p < real (unat (rm_high_thres m)) then resetBank i m
         else Some m }) (\<lambda>m'. m' = ?k (Suc (unat i)))"
      using i len upd rm_ok_bank(2,3)[OF assms i] by (simp add: runs_simps m' nth_append phy_at_def)
  qed simp
  then show ?thesis by (simp add: runs_iff len)
qed

text \<open>What \<^verbatim>\<open>checkRemapping\<close> does after temperatures changed.\<close>

definition flush_result :: "('t, 'd) un_env \<Rightarrow> ('t, 'd) unison_cntlr \<Rightarrow> ('t, 'd) unison_cntlr \<Rightarrow> bool" where
  "flush_result E c c' \<longleftrightarrow> length (un_set c') = length (un_set c) \<and>
     (\<forall>j<length (un_set c). un_set c' ! j =
        (if \<exists>v b r. row_in (un_perf c) (v, b, r) \<and> row_number E (un_perf c) (v, b, r) = j \<and> \<not> row_valid (un_perf c) v b
         then flushed (un_set c ! j) else un_set c ! j)) \<and>
     (\<forall>v b r. row_in (un_perf c) (v, b, r) \<longrightarrow> row_valid (un_perf c') v b) \<and>
     cc_migrate_times (un_cc c') = cc_migrate_times (un_cc c) \<and> cc_migrate_blocks (un_cc c') = cc_migrate_blocks (un_cc c)"

text \<open>What every call keeps.\<close>

definition counters_kept :: "('t, 'd) unison_cntlr \<Rightarrow> ('t, 'd) unison_cntlr \<Rightarrow> bool" where
  "counters_kept c c' \<longleftrightarrow> up_geo (un_perf c') = up_geo (un_perf c) \<and> un_page_table c' = un_page_table c \<and>
     un_avail_phy_page_tag c' = un_avail_phy_page_tag c \<and> un_associativity c' = un_associativity c \<and>
     cc_cache_access (un_cc c') = cc_cache_access (un_cc c) \<and> cc_page_misses (un_cc c') = cc_page_misses (un_cc c) \<and>
     cc_block_misses (un_cc c') = cc_block_misses (un_cc c) \<and> cc_page_disabled (un_cc c') = cc_page_disabled (un_cc c) \<and>
     up_enable_remap (un_perf c') = up_enable_remap (un_perf c) \<and> un_FHT c' = un_FHT c"

lemma checkRemapping_runs:
  assumes E: "un_env_ok E dinv" and ok: "un_ok E dinv c"
  shows "runs (checkRemapping E t c) (\<lambda>(d, c'). un_ok E dinv c' \<and> \<not> up_remapped (un_perf c') \<and> counters_kept c c' \<and>
     (if up_remapped (un_perf c) then flush_result E c c' else d = 0 \<and> un_set c' = un_set c \<and> un_perf c' = un_perf c))"
proof -
  let ?c = "c\<lparr>un_cc := roi_counters (up_enter_roi (un_perf c)) (un_cc c)\<rparr>" and ?u = "un_perf c"
  have roi: "cc_cache_access (roi_counters f k) = cc_cache_access k" "cc_page_misses (roi_counters f k) = cc_page_misses k"
    "cc_block_misses (roi_counters f k) = cc_block_misses k" "cc_page_disabled (roi_counters f k) = cc_page_disabled k"
    "cc_migrate_times (roi_counters f k) = cc_migrate_times k" "cc_migrate_blocks (roi_counters f k) = cc_migrate_blocks k" for f k
    by (simp_all add: roi_counters_def)
  have ok1: "un_ok E dinv ?c" using ok by simp
  have sz: "un_bank_size c \<noteq> 0" "un_row_size c \<noteq> 0" "un_vault_num c = 32" using ok by (auto simp: un_ok_def)
  note loops = un_ok_loops[OF E ok]
  have fin: "runs (clearRemappingStat (un_perf c1)) (\<lambda>u. un_ok E dinv (c1\<lparr>un_perf := u\<lparr>up_remapped := False\<rparr>, un_cc := k\<rparr>) \<and>
      counters_kept c (c1\<lparr>un_perf := u\<lparr>up_remapped := False\<rparr>, un_cc := (un_cc c1)\<lparr>cc_wb_blocks := w\<rparr>\<rparr>) \<and>
      flush_result E c (c1\<lparr>un_perf := u\<lparr>up_remapped := False\<rparr>, un_cc := (un_cc c1)\<lparr>cc_wb_blocks := w\<rparr>\<rparr>))"
    if I: "row_inv E dinv ?c {x. row_in ?u x} (ds, wb, c1)" for ds wb c1 k w
  proof -
    have ok2: "un_ok E dinv c1" and fr: "flush_frame ?c c1" using I by (auto simp: row_inv_def)
    have uok: "up_ok (en_cfg E) (un_perf c1)" and rm: "rm_ok (up_remap_manager (un_perf c1))"
      using ok2 by (auto simp: un_ok_def dram_ready_def up_ok_def)
    let ?m = "(up_remap_manager (un_perf c1))\<lparr>rm_bank_stat :=
        map (finishRemapping \<circ> setValid True) (rm_bank_stat (up_remap_manager (un_perf c1)))\<rparr>"
    have eq: "clearRemappingStat (un_perf c1) = Some ((un_perf c1)\<lparr>up_remap_manager := ?m\<rparr>)"
      by (simp add: clearRemappingStat_def resetStats_False[OF rm])
    have ok3: "up_ok (en_cfg E) ((un_perf c1)\<lparr>up_remap_manager := ?m\<rparr>)"
      using clearRemappingStat_ok[OF uok] by (simp add: eq)
    note pf = flush_frameD(1)[OF fr, simplified]
    have geo: "up_geo (un_perf c1) = up_geo ?u" "set_count (un_perf c1) = set_count ?u"
      using pf perf_frame_count[OF pf] by (simp_all add: perf_frame_def)
    have ok4: "un_ok E dinv (c1\<lparr>un_perf := (un_perf c1)\<lparr>up_remap_manager := ?m, up_remapped := False\<rparr>\<rparr>)"
      using ok2 ok3 by (simp add: un_ok_def dram_ready_def up_geo_def set_count_def)
    have len: "length (un_set c1) = length (un_set c)"
      using ok ok2 geo by (simp add: un_ok_def)
    have valid: "row_valid ((un_perf c1)\<lparr>up_remap_manager := ?m, up_remapped := False\<rparr>) v b" if "row_in ?u (v, b, r)" for v b r
    proof -
      have "row_in (un_perf c1) (v, b, r)" using that geo(1) by (simp add: row_in_def up_geo_def)
      from bank_in[OF uok this] show ?thesis
        by (simp add: row_valid_def getBankId_def finishRemapping_def setValid_def)
    qed
    have sets: "un_set c1 ! j = (if \<exists>v b r. row_in ?u (v, b, r) \<and> row_number E ?u (v, b, r) = j \<and> \<not> row_valid ?u v b
         then flushed (un_set c ! j) else un_set c ! j)" if "j < length (un_set c)" for j
    proof -
      have "\<forall>j<length (un_set c). un_set c1 ! j = (if \<exists>v b r. row_in ?u (v, b, r) \<and> row_number E ?u (v, b, r) = j \<and>
          \<not> row_valid ?u v b then flushed (un_set c ! j) else un_set c ! j)"
        using I by (simp add: row_inv_def cong: if_cong)
      with that show ?thesis by blast
    qed
    show ?thesis
      unfolding eq runs_Some
    proof (intro conjI)
      show "flush_result E c (c1\<lparr>un_perf := (un_perf c1)\<lparr>up_remap_manager := ?m, up_remapped := False\<rparr>,
          un_cc := (un_cc c1)\<lparr>cc_wb_blocks := w\<rparr>\<rparr>)"
        using flush_frameD(8,9)[OF fr] sets valid len by (auto simp: flush_result_def roi)
    qed (use ok4 flush_frameD[OF fr] geo pf in \<open>simp_all add: counters_kept_def roi up_geo_def perf_frame_def\<close>)
  qed
  have rows: "runs (check_rows E t (up_n_vaults ?u) (up_n_banks ?u) (up_n_rows ?u) (replicate 32 0, 0, ?c))
      (row_inv E dinv ?c {x. row_in ?u x})"
    using check_rows_runs[OF E ok1, of t] by simp
  have v: "unat (up_n_vaults ?u) = 32" using sz(3) loops(3) by simp
  have kept: "counters_kept c ?c" by (simp add: counters_kept_def roi)
  show ?thesis
  proof (cases "up_remapped ?u")
    case False
    then show ?thesis
      using sz ok1 kept by (simp add: checkRemapping_def runs_simps loops(1,2))
  next
    case True
    have "runs (check_rows E t (up_n_vaults ?u) (up_n_banks ?u) (up_n_rows ?u) (replicate 32 0, 0, ?c) \<bind>
        (\<lambda>(cntlr_delay, writeback_blocks, c). do {
           u \<leftarrow> clearRemappingStat (un_perf c);
           Some (foldl (\<lambda>m d. if d > m then d else m) 0 cntlr_delay, c\<lparr>un_perf := u\<lparr>up_remapped := False\<rparr>,
             un_cc := (un_cc c)\<lparr>cc_wb_blocks := cc_wb_blocks (un_cc c) + writeback_blocks\<rparr>\<rparr>) }))
        (\<lambda>(d, c'). un_ok E dinv c' \<and> \<not> up_remapped (un_perf c') \<and> counters_kept c c' \<and> flush_result E c c')"
      unfolding runs_bind
      by (rule runs_mono[OF rows]) (auto simp: runs_bind intro!: runs_mono[OF fin])
    then show ?thesis
      using True sz(1,2) by (simp add: checkRemapping_def guard_def loops v Let_def case_prod_beta)
  qed
qed

subsection \<open>Requests\<close>

text \<open>What a request keeps besides well-formedness.\<close>

definition request_frame :: "('t, 'd) unison_cntlr \<Rightarrow> ('t, 'd) unison_cntlr \<Rightarrow> bool" where
  "request_frame c c' \<longleftrightarrow> perf_frame (un_perf c) (un_perf c') \<and> un_page_table c' = un_page_table c \<and>
     un_avail_phy_page_tag c' = un_avail_phy_page_tag c \<and> un_associativity c' = un_associativity c \<and>
     length (un_set c') = length (un_set c) \<and>
     cc_cache_access (un_cc c') = cc_cache_access (un_cc c) \<and> cc_page_disabled (un_cc c') = cc_page_disabled (un_cc c)"

lemma request_frame_refl [simp]: "request_frame c c"
  by (simp add: request_frame_def)

lemma request_frame_trans: "request_frame a b \<Longrightarrow> request_frame b c \<Longrightarrow> request_frame a c"
  using perf_frame_trans[of "un_perf a" "un_perf b" "un_perf c"] by (simp add: request_frame_def)

lemma cntlr_request_frame: "cntlr_frame c c' \<Longrightarrow> request_frame c c'"
  by (auto simp: request_frame_def cntlr_frame_def)

lemma dram_access_step:
  assumes "un_env_ok E dinv" "un_ok E dinv c" "unat s < set_count (un_perf c)"
  obtains l c' where "handleDramAccess E t size' s a c = Some (l, c')" "un_ok E dinv c'" "cntlr_frame c c'"
proof -
  have "dram_ready E dinv (un_perf c)" using assms(2) by (simp add: un_ok_def)
  from handleDramAccess_runs[OF assms(1) this assms(3), of t size' a] show thesis
    using un_ok_frame[OF assms(2)] that by (auto elim!: runsE)
qed

lemma replace_page_step:
  assumes ok: "un_ok E dinv c" and s: "unat s < set_count (un_perf c)" and tag: "tag \<noteq> - 1" and bn: "unat bn < 31"
  obtains n c' where "replace_page bn s tag fp c = Some (n, c')" "un_ok E dinv c'" "request_frame c c'" "un_perf c' = un_perf c"
    "cc_page_misses (un_cc c') = cc_page_misses (un_cc c) + 1" "cc_block_misses (un_cc c') = cc_block_misses (un_cc c)"
    "resident (un_set c' ! unat s) = tag" "pi_vbits_0 (us_pages (un_set c' ! unat s) ! 0) = fp"
    "\<And>j. j \<noteq> unat s \<Longrightarrow> un_set c' ! j = un_set c ! j"
proof -
  let ?S = "un_set c ! unat s"
  note so = un_ok_set[OF ok s] and us = us_okD[OF un_ok_set(3)[OF ok s]]
  let ?S1 = "?S\<lparr>us_reads := us_reads ?S + 1 + 1\<rparr>"
  obtain w p where inval: "page_invalidate (us_pages ?S ! 0) = (w, p)" by (cases "page_invalidate (us_pages ?S ! 0)")
  let ?S2 = "?S1\<lparr>us_pages := (us_pages ?S)[0 := p]\<rparr>"
  have p: "pi_used p = 0" using inval by (auto simp: page_invalidate_def)
  have ok1: "us_ok (un_associativity c) (?S\<lparr>us_reads := us_reads ?S + 1\<rparr>)" "us_ok (un_associativity c) ?S2"
    using so(3) us_ok_put[of "un_associativity c" ?S1 p 0] p by simp_all
  let ?q = "p\<lparr>pi_tag := tag, pi_vbits_0 := fp, pi_dbits_0 := 0, pi_footprint := 0\<rparr>"
  let ?S3 = "?S2\<lparr>us_writes := us_writes ?S2 + 1, us_pages := (us_pages ?S)[0 := ?q]\<rparr>"
  have repl: "getReplacementIndex (?S\<lparr>us_reads := us_reads ?S + 1\<rparr>) = Some (0, ?S1)"
    using getReplacementIndex_first[OF ok1(1)] by simp
  have upd: "updateReplacementIndexTag 0 tag fp ?S2 = Some ?S3"
    using updateReplacementIndexTag_first[OF ok1(2) tag] us by simp
  have inv3: "set_inv (un_associativity c) ?S3"
  proof -
    have "us_ok (un_associativity c) ?S3" using us_ok_put[of "un_associativity c" ?S1 ?q 0] p so(3) by (simp add: us_ok_def)
    then show ?thesis using so(2) by (auto simp: set_inv_def us_direct_def)
  qed
  have fht: "unat (ucast bn :: u32) < length (un_FHT c)"
    using ok bn by (simp add: un_ok_def unsigned_ucast_eq take_bit_eq_mod)
  obtain k F where eq: "replace_page bn s tag fp c =
      Some (count_ones (pi_footprint (us_pages ?S ! 0)) 0, c\<lparr>un_set := (un_set c)[unat s := ?S3], un_FHT := F, un_cc := k\<rparr>)"
    "length F = 31" "cc_page_misses k = cc_page_misses (un_cc c) + 1" "cc_block_misses k = cc_block_misses (un_cc c)"
    "cc_cache_access k = cc_cache_access (un_cc c)" "cc_page_disabled k = cc_page_disabled (un_cc c)"
  proof -
    have F: "length ((un_FHT c)[unat (ucast bn :: u32) := pi_footprint (us_pages ?S ! 0)]) = 31"
      using ok by (simp add: un_ok_def)
    let ?n = "count_ones (pi_footprint (us_pages ?S ! 0)) 0" and ?k = "un_cc c"
    show thesis
      by (rule that[where k = "?k\<lparr>cc_page_misses := cc_page_misses ?k + 1, cc_wb_blocks := cc_wb_blocks ?k + w,
            cc_ld_blocks := cc_ld_blocks ?k + ?n, cc_load_on_page_miss := cc_load_on_page_miss ?k + ?n,
            cc_write_on_page_miss := cc_write_on_page_miss ?k + w\<rparr>", OF _ F])
         (use so(1) us(2,3) fht upd repl inval in \<open>simp_all add: replace_page_def fetch_in store_in page_at_def page_put_def Let_def\<close>)
  qed
  have "un_ok E dinv (c\<lparr>un_set := (un_set c)[unat s := ?S3]\<rparr>)" by (rule un_ok_put[OF ok inv3])
  then have "un_ok E dinv (c\<lparr>un_set := (un_set c)[unat s := ?S3], un_FHT := F, un_cc := k\<rparr>)"
    using eq(2) by (simp add: un_ok_def)
  with eq show thesis
    using so(1) us(2,3) by (intro that[OF eq(1)]) (simp_all add: request_frame_def)
qed

lemma count_request_step:
  assumes E: "un_env_ok E dinv" and ok: "un_ok E dinv c"
  obtains c' where "count_request E a s h c = Some c'" "un_ok E dinv c'" "request_frame c c'"
    "un_set c' = un_set c" "un_cc c' = un_cc c"
proof -
  have fl: "floorLog2_ok (en_floorLog2 E)" using E by (simp add: un_env_ok_def)
  have sz: "un_bank_size c \<noteq> 0" "un_row_size c \<noteq> 0" "un_vault_num c = 2 ^ 5" using ok by (simp_all add: un_ok_def)
  have vb: "en_floorLog2 E (un_vault_num c) = 5" using fl[unfolded floorLog2_ok_def, rule_format, of 5] sz(3) by simp
  obtain k where k: "k < 32" "un_bank_size c div un_row_size c = 2 ^ k"
    using ok by (auto simp: un_ok_def dram_ready_def up_ok_def pow2_geometry_def up_geo_def)
  have rb: "unat (en_floorLog2 E (un_bank_size c div un_row_size c)) < 32"
    using fl k by (simp add: floorLog2_ok_def unsigned_of_nat take_bit_eq_mod)
  let ?t = "drop_bit (unat (en_floorLog2 E (un_bank_size c div un_row_size c))) s"
  have v: "low_bits ?t 5 = Some (take_bit 5 ?t)" by (simp add: low_bits_eq)
  have lt: "unat (take_bit 5 ?t) < length (un_dram_stats c)"
    using ok take_bit_nat_less_exp[of 5 "unat ?t"] by (simp add: un_ok_def unsigned_take_bit_eq)
  let ?u = "un_perf c"
  define u where "u = (let u = (if a = WRITE then ?u\<lparr>up_tot_writes := up_tot_writes ?u + 1\<rparr> else ?u\<lparr>up_tot_reads := up_tot_reads ?u + 1\<rparr>)
     in if h = 0 \<or> h = 1 then u\<lparr>up_tot_misses := up_tot_misses u + 1\<rparr> else u)"
  obtain ds where ds: "count_request E a s h c = Some (c\<lparr>un_dram_stats := ds, un_perf := u\<rparr>)" "length ds = 32"
  proof -
    show thesis
      using that sz(1,2) rb v vb lt ok
      by (simp add: count_request_def guard_def shr32_def fetch_in store_in Let_def u_def un_ok_def)
  qed
  have fr: "perf_frame ?u u" "dram_ready E dinv u" "up_geo u = up_geo ?u" "set_count u = set_count ?u"
    using ok by (auto simp: u_def Let_def perf_frame_def up_geo_def dram_ready_def un_ok_def set_count_def)
  have "un_ok E dinv (c\<lparr>un_dram_stats := ds, un_perf := u\<rparr>)"
    using ok fr ds(2) by (simp add: un_ok_def)
  with ds fr show thesis by (intro that[OF ds(1)]) (simp_all add: request_frame_def)
qed


text \<open>
  The effect of a served request on the cache, as a direct-mapped cache specifies it: the set that
  serves it holds the page afterwards, no other set changes, and there is a page miss exactly when
  the set held another page.
\<close>

definition served_in :: "('t, 'd) unison_cntlr \<Rightarrow> nat \<Rightarrow> u64 \<Rightarrow> u64 \<Rightarrow> ('t, 'd) unison_cntlr \<Rightarrow> bool" where
  "served_in c j tag off c' \<longleftrightarrow> j < length (un_set c) \<and> resident (un_set c' ! j) = tag \<and>
     (\<forall>i. i \<noteq> j \<longrightarrow> un_set c' ! i = un_set c ! i) \<and>
     cc_page_misses (un_cc c') = cc_page_misses (un_cc c) + (if resident (un_set c ! j) = tag then 0 else 1) \<and>
     cc_block_misses (un_cc c') - cc_block_misses (un_cc c) \<in> {0, 1} \<and>
     (resident (un_set c ! j) \<noteq> tag \<longrightarrow> cc_block_misses (un_cc c') = cc_block_misses (un_cc c)) \<and>
     (0 < unat (off div 64) \<longrightarrow> resident (un_set c ! j) = tag \<longrightarrow>
       cc_block_misses (un_cc c') = cc_block_misses (un_cc c) +
         (if bit (pi_vbits_0 (us_pages (un_set c ! j) ! 0)) (unat (off div 64) - 1) then 0 else 1))"

lemma handle_miss_step:
  assumes E: "un_env_ok E dinv" and ok: "un_ok E dinv c" and s: "unat s < set_count (un_perf c)"
    and tag: "tag \<noteq> - 1" and bn: "unat bn < 31" and h: "h \<in> {0, 1, 2}" and res: "h \<noteq> 0 \<longleftrightarrow> resident (un_set c ! unat s) = tag"
  obtains n d' c' where "handle_miss E t bn s tag fp h (d, c) = Some (n, d', c')" "un_ok E dinv c'" "request_frame c c'"
    "resident (un_set c' ! unat s) = tag" "\<And>j. j \<noteq> unat s \<Longrightarrow> un_set c' ! j = un_set c ! j"
    "cc_page_misses (un_cc c') = cc_page_misses (un_cc c) + (if h = 0 then 1 else 0)"
    "cc_block_misses (un_cc c') = cc_block_misses (un_cc c) + (if h = 1 then 1 else 0)"
proof (cases "h = 0")
  case True
  obtain n c1 where r: "replace_page bn s tag fp c = Some (n, c1)" "un_ok E dinv c1" "request_frame c c1" "un_perf c1 = un_perf c"
    "cc_page_misses (un_cc c1) = cc_page_misses (un_cc c) + 1" "cc_block_misses (un_cc c1) = cc_block_misses (un_cc c)"
    "resident (un_set c1 ! unat s) = tag" "\<And>j. j \<noteq> unat s \<Longrightarrow> un_set c1 ! j = un_set c ! j"
    using replace_page_step[OF ok s tag bn, of fp] by blast
  have s1: "unat s < set_count (un_perf c1)" using s r(4) by simp
  obtain l c2 where a: "handleDramAccess E t 64 s READ c1 = Some (l, c2)" "un_ok E dinv c2" "cntlr_frame c1 c2"
    using dram_access_step[OF E r(2) s1] by blast
  show thesis
    by (rule that[of n "d + l" c2])
       (use True r a cntlr_frameD(1,2)[OF a(3)] request_frame_trans[OF r(3) cntlr_request_frame[OF a(3)]] in
         \<open>simp_all add: handle_miss_def\<close>)
next
  case False
  let ?c1 = "c\<lparr>un_cc := (un_cc c)\<lparr>cc_block_misses := cc_block_misses (un_cc c) + 1\<rparr>\<rparr>"
  show thesis
  proof (cases "h = 1")
    case True
    show thesis
      by (rule that[of 1 d ?c1]) (use False True res ok in \<open>simp_all add: handle_miss_def request_frame_def\<close>)
  next
    case f: False
    show thesis
      by (rule that[of 0 d c]) (use False f res ok in \<open>simp_all add: handle_miss_def\<close>)
  qed
qed

lemma serve_request_step:
  assumes E: "un_env_ok E dinv" and ok: "un_ok E dinv c" and s: "unat s < set_count (un_perf c)"
    and tag: "tag \<noteq> - 1" and off: "off < 1984" and bn: "unat bn < 31"
    and defd: "\<And>j. getRemapSet (en_floorLog2 E) (en_cfg E) s (un_perf c) = Some (j, un_perf c) \<Longrightarrow>
      resident (un_set c ! unat j) = tag \<Longrightarrow> 64 \<le> off"
  obtains d' c' j where "serve_request E t a cost bn fp (s, tag, off) rd dd c = Some (d', c')" "un_ok E dinv c'"
    "request_frame c c'" "getRemapSet (en_floorLog2 E) (en_cfg E) s (un_perf c) = Some (j, un_perf c)"
    "served_in c (unat j) tag off c'"
proof -
  have u: "up_ok (en_cfg E) (un_perf c)" and fl: "floorLog2_ok (en_floorLog2 E)"
    using ok E by (auto simp: un_ok_def dram_ready_def un_env_ok_def)
  obtain j where j: "getRemapSet (en_floorLog2 E) (en_cfg E) s (un_perf c) = Some (j, un_perf c)" "unat j < set_count (un_perf c)"
    using getRemapSet_runs[OF u fl s] by blast
  note so = un_ok_set[OF ok j(2)]
  let ?S = "un_set c ! unat j" and ?op = "if a = WRITE then WRITE_OP else READ_OP"
  let ?X = "\<lambda>h. if resident ?S \<noteq> tag then ?S\<lparr>us_reads := us_reads ?S + 1\<rparr>
      else ?S\<lparr>us_reads := us_reads ?S + 1, us_writes := us_writes ?S + (if h = 2 then 0 else 1),
             us_pages := (us_pages ?S)[0 := page_touch ?op (ucast (off div 64)) (us_pages ?S ! 0)]\<rparr>"
  have far: "resident ?S = tag \<longrightarrow> 64 \<le> off" using defd[OF j(1)] by blast
  obtain h :: u8 where H: "accessAttempt ?op tag off ?S = Some (h, ?X h) \<and>
      h \<in> {0, 1, 2} \<and> (h = 0 \<longleftrightarrow> resident ?S \<noteq> tag) \<and>
      (0 < unat (off div 64) \<longrightarrow>
        (h = 2 \<longleftrightarrow> resident ?S = tag \<and> bit (pi_vbits_0 (us_pages ?S ! 0)) (unat (off div 64) - 1)))"
    using accessAttempt_direct[OF so(3,4) tag off far, of ?op] by (rule exE)
  note acc0 = H[THEN conjunct1] and h = H[THEN conjunct2, THEN conjunct1] H[THEN conjunct2, THEN conjunct2, THEN conjunct1]
    H[THEN conjunct2, THEN conjunct2, THEN conjunct2]
  define S1 where S1: "S1 = ?X h"
  note acc = acc0[folded S1]
  have inv1: "set_inv (un_associativity c) S1" and res1: "resident S1 = resident ?S"
  proof -
    have put: "us_ok (un_associativity c) (?S\<lparr>us_pages := (us_pages ?S)[0 := page_touch ?op (ucast (off div 64)) (us_pages ?S ! 0)]\<rparr>)"
      using us_ok_put[OF so(3)] us_okD(3,4)[OF so(3)] by simp
    then show "set_inv (un_associativity c) S1" "resident S1 = resident ?S"
      using so(2) us_okD(2,3)[OF so(3)] by (auto simp: S1 set_inv_def us_direct_def us_ok_def)
  qed
  let ?c1 = "c\<lparr>un_set := (un_set c)[unat j := S1]\<rparr>"
  have ok1: "un_ok E dinv ?c1" by (rule un_ok_put[OF ok inv1])
  obtain l c2 where a2: "handleDramAccess E t 64 j READ ?c1 = Some (l, c2)" "un_ok E dinv c2" "cntlr_frame ?c1 c2"
  proof -
    have "unat j < set_count (un_perf ?c1)" using j(2) by simp
    from dram_access_step[OF E ok1 this] show thesis using that by blast
  qed
  note f2 = cntlr_frameD[OF a2(3), simplified]
  have j2: "unat j < set_count (un_perf c2)" using j(2) f2 by simp
  have res2: "h \<noteq> 0 \<longleftrightarrow> resident (un_set c2 ! unat j) = tag" using f2(1) so(1) res1 h(2) by simp
  obtain n d3 c3 where m: "handle_miss E t bn j tag fp h (dd + l, c2) = Some (n, d3, c3)" "un_ok E dinv c3" "request_frame c2 c3"
    "resident (un_set c3 ! unat j) = tag" "\<And>i. i \<noteq> unat j \<Longrightarrow> un_set c3 ! i = un_set c2 ! i"
    "cc_page_misses (un_cc c3) = cc_page_misses (un_cc c2) + (if h = 0 then 1 else 0)"
    "cc_block_misses (un_cc c3) = cc_block_misses (un_cc c2) + (if h = 1 then 1 else 0)"
    using handle_miss_step[OF E a2(2) j2 tag bn h(1) res2] by blast
  have j3: "unat j < set_count (un_perf c3)"
    using j2 m(3) perf_frame_count[of "un_perf c2" "un_perf c3"] by (simp add: request_frame_def)
  obtain md ma d4 c4 where b: "(if n > 0 then Some (cost + (if cf_on_top (en_cfg E) then 0 else ue_quarter E (en_ns E (ue_avg_queue_latency E))),
        ue_bw E (8 * 64), d3, c3)
      else do { (l, c) \<leftarrow> handleDramAccess E t 64 j a c3; Some (0, 0, d3 + l, c) }) = Some (md, ma, d4, c4)"
    "un_ok E dinv c4" "cntlr_frame c3 c4"
  proof (cases "n > 0")
    case False
    obtain l' c' where "handleDramAccess E t 64 j a c3 = Some (l', c')" "un_ok E dinv c'" "cntlr_frame c3 c'"
      using dram_access_step[OF E m(2) j3] by blast
    then show thesis using that False by simp
  qed (use that m(2) in simp)
  obtain c5 where c5: "count_request E a j h c4 = Some c5" "un_ok E dinv c5" "request_frame c4 c5" "un_set c5 = un_set c4" "un_cc c5 = un_cc c4"
    using count_request_step[OF E b(2), of a j h] by blast
  let ?d = "md + d4 + rd + ma" and ?c6 = "updateCurrentTime E (t + (md + d4 + rd + ma)) c5"
  have c6: "cntlr_frame c5 ?c6" by (rule cntlr_frame_time)
  have ok6: "un_ok E dinv ?c6" using un_ok_frame[OF c5(2) c6] c5(2) by (simp add: un_ok_def)
  have fr1: "request_frame c ?c1" by (simp add: request_frame_def)
  have fr: "request_frame c ?c6"
    using fr1 cntlr_request_frame[OF a2(3)] m(3) cntlr_request_frame[OF b(3)] c5(3) cntlr_request_frame[OF c6]
      request_frame_trans by blast
  have sets: "un_set ?c6 = un_set c3" "un_cc ?c6 = un_cc c3"
    using cntlr_frameD(1,2)[OF c6] c5(4,5) cntlr_frameD(1,2)[OF b(3)] by simp_all
  have srv: "served_in c (unat j) tag off ?c6"
  proof -
    have pm: "cc_page_misses (un_cc c3) = cc_page_misses (un_cc c) + (if resident ?S = tag then 0 else 1)"
      using m(6) f2(2) h(2) by simp
    have bm: "cc_block_misses (un_cc c3) = cc_block_misses (un_cc c) + (if h = 1 then 1 else 0)"
      using m(7) f2(2) by simp
    have oth: "un_set c3 ! i = un_set c ! i" if "i \<noteq> unat j" for i
      using m(5)[OF that] f2(1) that by simp
    have h1: "h = 1 \<longleftrightarrow> \<not> bit (pi_vbits_0 (us_pages ?S ! 0)) (unat (off div 64) - 1)"
      if "0 < unat (off div 64)" "resident ?S = tag"
      using h(1,2) h(3)[rule_format, OF that(1)] that(2) by auto
    have h0: "h \<noteq> 1" if "resident ?S \<noteq> tag" using h(2) that by simp
    show ?thesis
      unfolding served_in_def sets
      using so(1) m(4) pm bm oth h1 h0 by (intro conjI allI impI) simp_all
  qed
  have run: "serve_request E t a cost bn fp (s, tag, off) rd dd c = Some (?d, ?c6)"
    using j(1) so(1) acc a2(1) m(1) b(1) c5(1)
    by (simp add: serve_request_def fetch_in store_in Let_def)
  show thesis by (rule that[OF run ok6 fr j(1) srv])
qed

lemma serve_request_block0:
  assumes E: "un_env_ok E dinv" and ok: "un_ok E dinv c" and tag: "tag \<noteq> - 1" and off: "off < 64"
    and j: "getRemapSet (en_floorLog2 E) (en_cfg E) s (un_perf c) = Some (j, un_perf c)" "unat j < set_count (un_perf c)"
      "resident (un_set c ! unat j) = tag"
  shows "serve_request E t a cost bn fp (s, tag, off) rd dd c = None"
proof -
  note so = un_ok_set[OF ok j(2)]
  show ?thesis
    using accessAttempt_block0[OF so(3,4) tag j(3) off] j(1) so(1) by (simp add: serve_request_def fetch_in Let_def)
qed

lemma translateAddress_frame:
  obtains pt av where "snd (translateAddress a c) = c\<lparr>un_page_table := pt, un_avail_phy_page_tag := av\<rparr>"
proof -
  have "snd (translateAddress a c) = c\<lparr>un_page_table := un_page_table (snd (translateAddress a c)),
      un_avail_phy_page_tag := un_avail_phy_page_tag (snd (translateAddress a c))\<rparr>"
    by (simp add: translateAddress_def Let_def split: option.splits)
  then show thesis by (rule that)
qed

text \<open>The result of a request, with the intermediate states of \<^verbatim>\<open>ProcessRequest\<close>.\<close>

definition request_result :: "('t::{comm_monoid_add, linorder, minus}, 'd) un_env \<Rightarrow> u64 \<Rightarrow> 't \<Rightarrow> 't \<Rightarrow> u32 \<times> u64 \<times> u64 \<Rightarrow>
    ('t, 'd) unison_cntlr \<Rightarrow> 't \<Rightarrow> ('t, 'd) unison_cntlr \<Rightarrow> bool" where
  "request_result E pkt_size cost remap_delay place c d c' = (let (s, tag, off) = place; k = un_cc c; k' = un_cc c' in
     \<exists>dis. checkSetDisabled (en_floorLog2 E) (en_cfg E) s (un_perf c) = Some (dis, un_perf c) \<and>
       cc_cache_access k' = cc_cache_access k + 1 \<and>
       (if dis \<or> ue_dram_disabled E
        then un_set c' = un_set c \<and> cc_page_misses k' = cc_page_misses k \<and>
          cc_block_misses k' = cc_block_misses k + 1 \<and> cc_page_disabled k' = cc_page_disabled k + 1 \<and>
          d = ue_bw E (8 * pkt_size) + cost + remap_delay +
            (if up_enable_remap (un_perf c)
             then ue_ps E (if cf_n_remap (en_cfg E) = 1 \<and> cf_inter_vault (en_cfg E) then 200 else 10) else 0) +
            en_ns E (ue_avg_queue_latency E)
        else \<exists>j. getRemapSet (en_floorLog2 E) (en_cfg E) s (un_perf c) = Some (j, un_perf c) \<and>
          cc_page_disabled k' = cc_page_disabled k \<and> served_in c (unat j) tag off c'))"

lemma block_in:
  assumes "(off :: u64) < 1984"
  shows "unat (ucast (off div 64) :: u8) < 31" "unat (ucast (ucast (off div 64) :: u8) :: u32) = unat (off div 64)"
proof -
  have lt: "unat (off div 64) < 31" using assms by (simp add: unat_div word_less_nat_alt)
  then have a: "unat (ucast (off div 64) :: u8) = unat (off div 64)"
    by (simp add: unsigned_ucast_eq take_bit_eq_mod)
  have b: "unat (ucast y :: u32) = unat y" for y :: u8
    using unsigned_less[of y, where ?'a = nat] by (simp add: unsigned_ucast_eq take_bit_eq_mod)
  show "unat (ucast (off div 64) :: u8) < 31" "unat (ucast (ucast (off div 64) :: u8) :: u32) = unat (off div 64)"
    using lt a b[of "ucast (off div 64)"] by simp_all
qed

lemma checkSetDisabled_runs:
  assumes "up_ok cfg u" "floorLog2_ok fl" "unat s < set_count u"
  obtains dis where "checkSetDisabled fl cfg s u = Some (dis, u)"
proof -
  obtain v b r where idx: "splitSetNum fl cfg s u = Some ((v, b, r), u)" "v < up_n_vaults u" "b < up_n_banks u" "r < up_n_rows u"
    using getRemapSet_runs[OF assms] by blast
  then have "row_in u (v, b, r)" by (simp add: row_in_def)
  from checkRow_eq(3)[OF assms(1) this] show thesis
    using that idx(1) by (auto simp: checkSetDisabled_def)
qed

text \<open>The first half of a request: what is known when the set has been looked up.\<close>

lemma request_start:
  assumes E: "un_env_ok E dinv" and ok: "un_ok E dinv c"
  obtains s tag off c1 rd c2 dis j where
    "SplitAddress E addr c = Some (True, s, tag, off, c1)" "unat s < set_count (un_perf c)" "tag \<noteq> - 1" "off < 1984"
    "c1 = snd (translateAddress addr c)" "tag = fst (translateAddress addr c) div 1984" "off = fst (translateAddress addr c) mod 1984"
    "un_ok E dinv c1" "checkRemapping E t c1 = Some (rd, c2)" "un_ok E dinv c2" "counters_kept c1 c2" "\<not> up_remapped (un_perf c2)"
    "if up_remapped (un_perf c) then flush_result E c1 c2 else un_set c2 = un_set c \<and> un_perf c2 = un_perf c"
    "checkSetDisabled (en_floorLog2 E) (en_cfg E) s (un_perf c2) = Some (dis, un_perf c2)"
    "getRemapSet (en_floorLog2 E) (en_cfg E) s (un_perf c2) = Some (j, un_perf c2)" "unat j < set_count (un_perf c2)"
    "unat s < set_count (un_perf c2)"
    "block0_request E t addr c \<longleftrightarrow> off < 64 \<and> \<not> dis \<and> \<not> ue_dram_disabled E \<and> resident (un_set c2 ! unat j) = tag"
proof -
  obtain s tag off c1 where sp: "SplitAddress E addr c = Some (True, s, tag, off, c1)" "unat s < set_count (un_perf c)"
    "tag \<noteq> - 1" "off < 1984" "c1 = snd (translateAddress addr c)" "tag = fst (translateAddress addr c) div 1984"
    "off = fst (translateAddress addr c) mod 1984"
    using SplitAddress_runs[OF E ok, of addr] by (auto elim!: runsE)
  obtain pt av where c1: "c1 = c\<lparr>un_page_table := pt, un_avail_phy_page_tag := av\<rparr>"
    using translateAddress_frame sp(5) by metis
  have ok1: "un_ok E dinv c1" using ok by (simp add: c1 un_ok_def)
  obtain rd c2 where cr: "checkRemapping E t c1 = Some (rd, c2)" "un_ok E dinv c2" "counters_kept c1 c2" "\<not> up_remapped (un_perf c2)"
    "if up_remapped (un_perf c1) then flush_result E c1 c2 else rd = 0 \<and> un_set c2 = un_set c1 \<and> un_perf c2 = un_perf c1"
    using checkRemapping_runs[OF E ok1, of t] by (auto elim!: runsE)
  have cnt: "set_count (un_perf c2) = set_count (un_perf c)"
    using cr(3) by (auto simp: counters_kept_def c1 up_geo_def set_count_def)
  have u2: "up_ok (en_cfg E) (un_perf c2)" and fl: "floorLog2_ok (en_floorLog2 E)"
    using cr(2) E by (auto simp: un_ok_def dram_ready_def un_env_ok_def)
  have s2: "unat s < set_count (un_perf c2)" using sp(2) cnt by simp
  obtain dis where dis: "checkSetDisabled (en_floorLog2 E) (en_cfg E) s (un_perf c2) = Some (dis, un_perf c2)"
    using checkSetDisabled_runs[OF u2 fl s2] .
  obtain j where j: "getRemapSet (en_floorLog2 E) (en_cfg E) s (un_perf c2) = Some (j, un_perf c2)" "unat j < set_count (un_perf c2)"
    using getRemapSet_runs[OF u2 fl s2] by blast
  have b0: "block0_request E t addr c \<longleftrightarrow> off < 64 \<and> \<not> dis \<and> \<not> ue_dram_disabled E \<and> resident (un_set c2 ! unat j) = tag"
    using un_ok_set(1)[OF cr(2) j(2)] by (simp add: block0_request_def sp(1) cr(1) dis j(1) fetch_in)
  show thesis
    by (rule that[OF sp ok1 cr(1-4) _ dis j s2 b0]) (use cr(5) c1 in auto)
qed

text \<open>Such a request does not return.\<close>

lemma ProcessRequest_block0:
  assumes E: "un_env_ok E dinv" and ok: "un_ok E dinv c" and b0: "block0_request E t addr c"
  shows "ProcessRequest E t size' a addr cost c = None"
proof (rule request_start[OF E ok, of addr t])
  fix s tag off c1 rd c2 dis j
  assume sp: "SplitAddress E addr c = Some (True, s, tag, off, c1)" "tag \<noteq> - 1" and cr: "checkRemapping E t c1 = Some (rd, c2)"
      "un_ok E dinv c2"
    and dis: "checkSetDisabled (en_floorLog2 E) (en_cfg E) s (un_perf c2) = Some (dis, un_perf c2)"
    and j: "getRemapSet (en_floorLog2 E) (en_cfg E) s (un_perf c2) = Some (j, un_perf c2)" "unat j < set_count (un_perf c2)"
    and b: "block0_request E t addr c \<longleftrightarrow> off < 64 \<and> \<not> dis \<and> \<not> ue_dram_disabled E \<and> resident (un_set c2 ! unat j) = tag"
  let ?c3 = "c2\<lparr>un_cc := (un_cc c2)\<lparr>cc_cache_access := cc_cache_access (un_cc c2) + 1\<rparr>\<rparr>"
  have "un_ok E dinv ?c3" using cr(2) by simp
  then have "serve_request E t a cost bn fp (s, tag, off) rd dd ?c3 = None" for bn fp dd
    using serve_request_block0[OF E, of ?c3 tag off s j] sp(2) b b0 j by simp
  then show ?thesis
    using sp(1) cr(1) dis b b0 by (auto simp: ProcessRequest_def Let_def bind_eq_None_conv)
qed

lemma ProcessRequest_step:
  assumes E: "un_env_ok E dinv" and ok: "un_ok E dinv c" and nb: "\<not> block0_request E t addr c"
  obtains s tag off c1 rd c2 d c' where
    "SplitAddress E addr c = Some (True, s, tag, off, c1)" "unat s < set_count (un_perf c)" "tag \<noteq> - 1" "off < 1984"
    "c1 = snd (translateAddress addr c)" "tag = fst (translateAddress addr c) div 1984"
    "checkRemapping E t c1 = Some (rd, c2)" "un_ok E dinv c2" "counters_kept c1 c2" "\<not> up_remapped (un_perf c2)"
    "if up_remapped (un_perf c) then flush_result E c1 c2 else un_set c2 = un_set c \<and> un_perf c2 = un_perf c"
    "ProcessRequest E t size' a addr cost c = Some (d, c')" "un_ok E dinv c'"
    "request_result E size' cost rd (s, tag, off) c2 d c'"
    "un_page_table c' = un_page_table c1" "un_avail_phy_page_tag c' = un_avail_phy_page_tag c1"
    "perf_frame (un_perf c2) (un_perf c')"
proof (rule request_start[OF E ok, of addr t])
  fix s tag off c1 rd c2 dis j
  assume sp: "SplitAddress E addr c = Some (True, s, tag, off, c1)" "unat s < set_count (un_perf c)" "tag \<noteq> - 1" "off < 1984"
      "c1 = snd (translateAddress addr c)" "tag = fst (translateAddress addr c) div 1984"
    and ok1: "un_ok E dinv c1"
    and cr: "checkRemapping E t c1 = Some (rd, c2)" "un_ok E dinv c2" "counters_kept c1 c2" "\<not> up_remapped (un_perf c2)"
      "if up_remapped (un_perf c) then flush_result E c1 c2 else un_set c2 = un_set c \<and> un_perf c2 = un_perf c"
    and dis: "checkSetDisabled (en_floorLog2 E) (en_cfg E) s (un_perf c2) = Some (dis, un_perf c2)"
    and j: "getRemapSet (en_floorLog2 E) (en_cfg E) s (un_perf c2) = Some (j, un_perf c2)" "unat j < set_count (un_perf c2)"
    and s2: "unat s < set_count (un_perf c2)"
    and b0: "block0_request E t addr c \<longleftrightarrow> off < 64 \<and> \<not> dis \<and> \<not> ue_dram_disabled E \<and> resident (un_set c2 ! unat j) = tag"
  have cnt: "un_FHT c2 = un_FHT c1" using cr(3) by (simp add: counters_kept_def)
  let ?c3 = "c2\<lparr>un_cc := (un_cc c2)\<lparr>cc_cache_access := cc_cache_access (un_cc c2) + 1\<rparr>\<rparr>"
  have ok3: "un_ok E dinv ?c3" using cr(2) by simp
  note blk = block_in[OF sp(4)]
  have fht: "unat (ucast (ucast (off div 64) :: u8) :: u32) < length (un_FHT c1)"
    using ok1 blk sp(4) by (simp add: un_ok_def unat_div word_less_nat_alt)
  have bs: "un_blocksize c1 = 64" using ok1 by (simp add: un_ok_def)
  let ?dd = "if up_enable_remap (un_perf c2)
     then ue_ps E (if cf_n_remap (en_cfg E) = 1 \<and> cf_inter_vault (en_cfg E) then 200 else 10) else 0"
  let ?fp = "un_FHT c1 ! unat (ucast (ucast (off div 64) :: u8) :: u32)"
  obtain d c' where P: "ProcessRequest E t size' a addr cost c = Some (d, c')" "un_ok E dinv c'"
    "request_result E size' cost rd (s, tag, off) c2 d c'" "un_page_table c' = un_page_table c1"
    "un_avail_phy_page_tag c' = un_avail_phy_page_tag c1" "perf_frame (un_perf c2) (un_perf c')"
  proof (cases "dis \<or> ue_dram_disabled E")
    case True
    let ?d = "ue_bw E (8 * size') + cost + rd + ?dd + en_ns E (ue_avg_queue_latency E)"
    let ?c4 = "?c3\<lparr>un_cc := (un_cc ?c3)\<lparr>cc_block_misses := cc_block_misses (un_cc ?c3) + 1,
        cc_page_disabled := cc_page_disabled (un_cc ?c3) + 1\<rparr>\<rparr>"
    let ?c5 = "updateCurrentTime E (t + ?d) ?c4"
    have fr: "cntlr_frame ?c4 ?c5" by (rule cntlr_frame_time)
    have ok4: "un_ok E dinv ?c4" using cr(2) by simp
    have ok5: "un_ok E dinv ?c5" using un_ok_frame[OF ok4 fr] ok4 by (simp add: un_ok_def)
    have run: "ProcessRequest E t size' a addr cost c = Some (?d, ?c5)"
      using sp(1) cr(1) dis True fht bs
      by (simp add: ProcessRequest_def guard_def fetch_in Let_def)
    show thesis
      by (rule that[OF run ok5])
         (use True dis cr(3) cntlr_frameD[OF fr, simplified] cntlr_request_frame[OF fr] in
           \<open>simp_all add: request_result_def counters_kept_def request_frame_def\<close>)
  next
    case False
    obtain d c' i where sv: "serve_request E t a cost (ucast (off div 64)) ?fp (s, tag, off) rd ?dd ?c3 = Some (d, c')"
      "un_ok E dinv c'" "request_frame ?c3 c'" "getRemapSet (en_floorLog2 E) (en_cfg E) s (un_perf ?c3) = Some (i, un_perf ?c3)"
      "served_in ?c3 (unat i) tag off c'"
    proof -
      have s3: "unat s < set_count (un_perf ?c3)" using s2 by simp
      have far: "64 \<le> off" if "getRemapSet (en_floorLog2 E) (en_cfg E) s (un_perf ?c3) = Some (i, un_perf ?c3)"
          "resident (un_set ?c3 ! unat i) = tag" for i
        using nb b0 False j(1) that by auto
      show thesis
        by (rule serve_request_step[where t = t and a = a and cost = cost and fp = ?fp and rd = rd and dd = ?dd,
              OF E ok3 s3 sp(3,4) blk(1) far]) (assumption | rule that)+
    qed
    have srv: "served_in c2 (unat i) tag off c'" using sv(5) by (simp add: served_in_def)
    have run: "ProcessRequest E t size' a addr cost c = Some (d, c')"
      using sp(1) cr(1) dis False fht bs sv(1)
      by (simp add: ProcessRequest_def guard_def fetch_in Let_def)
    show thesis
      by (rule that[OF run sv(2)])
         (use False dis cr(3) sv(3,4) srv in \<open>auto simp: request_result_def counters_kept_def request_frame_def\<close>)
  qed
  show thesis
    by (rule that[OF sp cr P])
qed

end
