(* ===== verification/UnisonProps.thy ===== *)
theory UnisonProps
  imports UnisonCntlr
begin

section \<open>Properties of the Unison cache\<close>

text \<open>
  Sequences of calls of the DRAM performance model with the Unison cache, from its constructor on, and
  the properties of the cache: it serves every sequence up to the request
  that reaches the undefined shift of \<^verbatim>\<open>accessBlock\<close>, it behaves as a direct-mapped cache, it
  flushes what a remapping invalidates, its address translation is injective and its miss
  counters are consistent.
\<close>

subsection \<open>Construction\<close>

lemma pow2_div: "k < 32 \<Longrightarrow> j \<le> k \<Longrightarrow> (2 ^ k :: u32) div 2 ^ j = 2 ^ (k - j)"
  by (simp add: word_unat_eq_iff unat_div unat_pow2 power_diff)

lemma pow2_sizes:
  assumes "11 \<le> k" "k < 32"
  shows "(2 ^ k :: u32) div 32 = 2 ^ (k - 5)" "(2 ^ k :: u32) div 8 = 2 ^ (k - 3)"
    "(2 ^ (k - 5) :: u32) div 8 = 2 ^ (k - 8)" "(2 ^ (k - 8) :: u32) div 8 = 2 ^ (k - 11)"
    "(2 ^ (k - 5) :: u32) div 2 ^ (k - 8) = 8"
  using assms pow2_div[of k 5] pow2_div[of k 3] pow2_div[of "k - 5" 3] pow2_div[of "k - 8" 3] pow2_div[of "k - 5" "k - 8"]
  by simp_all

lemma cntlr_built:
  assumes d: "dinv d" and am: "cf_addr_map (en_cfg E) \<in> {1, 2, 3}" and pol: "cf_n_remap (en_cfg E) \<le> 2"
    and size: "cache_size * 1024 = 2 ^ k" "11 \<le> k" "k < 32"
  shows "runs (StackDramCacheCntlrUnison (en_cfg E) uninit d noroi cache_size (cache_size * 1024 div StackedSetSize)
       StackedAssoc StackedBlockSize StackedPageSize)
     (\<lambda>c. un_ok E dinv c \<and> up_geo (un_perf c) = (32, 8, 2 ^ (k - 11)) \<and> un_page_table c = [] \<and> un_avail_phy_page_tag c = 0 \<and>
        cc_cache_access (un_cc c) = 0 \<and> cc_page_misses (un_cc c) = 0 \<and> cc_block_misses (un_cc c) = 0)"
proof -
  note p = pow2_sizes[OF size(2,3)]
  have nz: "(2 ^ (k - 8) :: u32) \<noteq> 0"
  proof -
    have "unat (2 ^ (k - 8) :: u32) = 2 ^ (k - 8)" using size by (intro unat_pow2) simp
    then show ?thesis by (metis power_not_zero unat_0 zero_neq_numeral)
  qed
  have rows: "unat (2 ^ (k - 11) :: u32) < 2 ^ 31"
  proof -
    have "(2 :: nat) ^ (k - 11) < 2 ^ 31" using size by (intro power_strict_increasing) auto
    then show ?thesis using size by (subst unat_pow2) auto
  qed
  have geo: "pow2_geometry 32 8 (2 ^ (k - 11))"
    unfolding pow2_geometry_def
    by (rule exI[of _ 5], rule exI[of _ 3], rule exI[of _ "k - 11"]) (use size(2,3) in auto)
  have perf: "runs (StackedDramPerfUnison (en_cfg E) uninit d 32 (2 ^ (k - 5)) (2 ^ (k - 8)) 8) (\<lambda>u. up_ok (en_cfg E) u \<and>
     up_geo u = (32, 8, 2 ^ (k - 11)) \<and> up_dram_model u = d)"
    using StackedDramPerfUnison_ok[of "2 ^ (k - 8)" 8 "en_cfg E" 32 "2 ^ (k - 5)" uninit d, unfolded p] nz am pol geo rows
    by simp
  have cnt: "unat (2 ^ (k - 3) :: u32) = 32 * 8 * unat (2 ^ (k - 11) :: u32)"
  proof -
    have "(2 :: nat) ^ (k - 3) = 2 ^ 8 * 2 ^ (k - 11)"
      using size by (subst power_add[symmetric]) (rule arg_cong[where f = "(^) 2"], simp)
    then show ?thesis using size by (simp add: unat_pow2)
  qed
  obtain a q b where nr: "noroi = (a, q, b)" by (cases noroi)
  have inv: "set_inv 4 (DramCacheSetUnison 4 pl)" for pl
    using DramCacheSetUnison_ok[of 4 pl] by (auto simp: set_inv_def) (simp add: DramCacheSetUnison_def split: prod.splits)
  show ?thesis
    unfolding StackDramCacheCntlrUnison_def StackedSetSize_def StackedAssoc_def StackedBlockSize_def StackedPageSize_def Let_def
      size(1) p nr prod.case runs_bind runs_Some
    by (rule runs_mono[OF perf])
       (use d cnt nz size in \<open>auto simp: un_ok_def dram_ready_def up_geo_def set_count_def p inv intro!: exI[of _ "k - 3"]\<close>)
qed

subsection \<open>Sequences of calls\<close>

text \<open>
  The calls that reach the performance model: requests of the memory controller, and the calls of the
  statistics manager on the stacked DRAM between them.
\<close>

datatype 't nm_event =
    NRequest 't u64 int u64 access_t 't
  | NPerf "'t up_event"

fun nm_step :: "('t::{comm_monoid_add, linorder, minus}, 'd) un_env \<Rightarrow> int \<Rightarrow> 't nm_event \<Rightarrow> ('t, 'd) normal_model \<Rightarrow>
    ('t, 'd) normal_model option" where
  "nm_step E cores (NRequest t size' req addr a cost) n =
     do { (d, n) \<leftarrow> normal_getAccessLatency E cores t size' req addr a cost n; Some n }"
| "nm_step E cores (NPerf e) n =
     do { u \<leftarrow> up_step (up_env.truncate E) e (un_perf (nm_cntlr n));
          Some (n\<lparr>nm_cntlr := (nm_cntlr n)\<lparr>un_perf := u\<rparr>\<rparr>) }"

fun nm_event_ok :: "u32 \<times> u32 \<times> u32 \<Rightarrow> 't nm_event \<Rightarrow> bool" where
  "nm_event_ok geo (NRequest t size' req addr a cost) \<longleftrightarrow> True"
| "nm_event_ok geo (NPerf e) \<longleftrightarrow> up_event_ok geo e"

text \<open>The requests that the cache does not serve.\<close>

fun reads_block0 :: "('t::{comm_monoid_add, linorder, minus}, 'd) un_env \<Rightarrow> 't nm_event \<Rightarrow> ('t, 'd) normal_model \<Rightarrow> bool" where
  "reads_block0 E (NRequest t size' req addr a cost) n \<longleftrightarrow> block0_request E t addr (nm_cntlr n)"
| "reads_block0 E (NPerf e) n \<longleftrightarrow> False"

definition nm_inv :: "('t, 'd) un_env \<Rightarrow> ('d \<Rightarrow> bool) \<Rightarrow> u32 \<times> u32 \<times> u32 \<Rightarrow> ('t, 'd) normal_model \<Rightarrow> bool" where
  "nm_inv E dinv geo n \<longleftrightarrow> un_env_ok E dinv \<and> un_ok E dinv (nm_cntlr n) \<and> up_geo (un_perf (nm_cntlr n)) = geo"

lemma perf_step:
  assumes ok: "un_ok E dinv c" and E: "un_env_ok E dinv" and e: "up_event_ok (up_geo (un_perf c)) e"
  shows "runs (up_step (up_env.truncate E) e (un_perf c)) (\<lambda>u. un_ok E dinv (c\<lparr>un_perf := u\<rparr>) \<and> up_geo u = up_geo (un_perf c))"
proof -
  have env: "up_env_ok 32 8 (up_env.truncate E) dinv" "en_cfg (up_env.truncate E) = en_cfg E"
    using E by (simp_all add: up_env_ok_def un_env_ok_def up_env.truncate_def)
  have "up_inv (up_env.truncate E) dinv (up_geo (un_perf c)) (un_perf c)"
    using ok env by (auto simp: up_inv_def un_ok_def dram_ready_def)
  from up_step_runs[OF this e] show ?thesis
    by (rule runs_mono) (use ok env(2) in \<open>auto simp: up_inv_def un_ok_def dram_ready_def up_geo_def set_count_def\<close>)
qed

lemma request_geo: "counters_kept c1 c2 \<Longrightarrow> perf_frame (un_perf c2) (un_perf c') \<Longrightarrow> up_geo (un_perf c') = up_geo (un_perf c1)"
  by (simp add: counters_kept_def perf_frame_def)

lemma nm_request_step:
  assumes E: "un_env_ok E dinv" and ok: "un_ok E dinv c" and nb: "\<not> block0_request E t addr c"
  obtains d c' where "ProcessRequest E t size' a addr cost c = Some (d, c')" "un_ok E dinv c'" "up_geo (un_perf c') = up_geo (un_perf c)"
    "cc_cache_access (un_cc c') = cc_cache_access (un_cc c) + 1"
    "(cc_page_misses (un_cc c') = cc_page_misses (un_cc c) \<and>
        (cc_block_misses (un_cc c') = cc_block_misses (un_cc c) \<or> cc_block_misses (un_cc c') = cc_block_misses (un_cc c) + 1)) \<or>
     (cc_page_misses (un_cc c') = cc_page_misses (un_cc c) + 1 \<and> cc_block_misses (un_cc c') = cc_block_misses (un_cc c))"
proof (rule ProcessRequest_step[OF E ok nb, of size' a cost])
  fix s tag off c1 rd c2 d c'
  assume P: "ProcessRequest E t size' a addr cost c = Some (d, c')" "un_ok E dinv c'"
    and R: "request_result E size' cost rd (s, tag, off) c2 d c'" and fr: "perf_frame (un_perf c2) (un_perf c')"
    and k: "counters_kept c1 c2" and c1: "c1 = snd (translateAddress addr c)"
  obtain pt av where c1': "c1 = c\<lparr>un_page_table := pt, un_avail_phy_page_tag := av\<rparr>"
    using translateAddress_frame c1 by metis
  have kc: "cc_cache_access (un_cc c2) = cc_cache_access (un_cc c)" "cc_page_misses (un_cc c2) = cc_page_misses (un_cc c)"
    "cc_block_misses (un_cc c2) = cc_block_misses (un_cc c)"
    using k by (simp_all add: counters_kept_def c1')
  have d01: "x - y \<in> {0, 1} \<Longrightarrow> x = y \<or> x = y + 1" for x y :: u32 by (auto simp: diff_eq_eq)
  have acc: "cc_cache_access (un_cc c') = cc_cache_access (un_cc c2) + 1"
    using R by (auto simp: request_result_def Let_def)
  obtain dis where dis: "if dis \<or> ue_dram_disabled E
      then cc_page_misses (un_cc c') = cc_page_misses (un_cc c2) \<and> cc_block_misses (un_cc c') = cc_block_misses (un_cc c2) + 1
      else \<exists>j. served_in c2 j tag off c'"
    using R by (simp add: request_result_def Let_def) metis
  have misses: "(cc_page_misses (un_cc c') = cc_page_misses (un_cc c) \<and>
        (cc_block_misses (un_cc c') = cc_block_misses (un_cc c) \<or> cc_block_misses (un_cc c') = cc_block_misses (un_cc c) + 1)) \<or>
     (cc_page_misses (un_cc c') = cc_page_misses (un_cc c) + 1 \<and> cc_block_misses (un_cc c') = cc_block_misses (un_cc c))"
  proof (cases "dis \<or> ue_dram_disabled E")
    case True
    then show ?thesis using dis kc by simp
  next
    case False
    then obtain j where j: "served_in c2 j tag off c'" using dis by auto
    show ?thesis
      using j kc d01[of "cc_block_misses (un_cc c')" "cc_block_misses (un_cc c2)"] unfolding served_in_def by (cases "resident (un_set c2 ! j) = tag") simp_all
  qed
  show thesis
    by (rule that[OF P]) (use request_geo[OF k fr] acc kc misses in \<open>simp_all add: c1'\<close>)
qed

lemma nm_step_runs:
  assumes inv: "nm_inv E dinv geo n" and e: "nm_event_ok geo e" and nb: "\<not> reads_block0 E e n"
  shows "runs (nm_step E cores e n) (nm_inv E dinv geo)"
proof -
  have E: "un_env_ok E dinv" and ok: "un_ok E dinv (nm_cntlr n)" and geo: "up_geo (un_perf (nm_cntlr n)) = geo"
    using inv by (auto simp: nm_inv_def)
  show ?thesis
  proof (cases e)
    case (NRequest t size' req addr a cost)
    then have "\<not> block0_request E t addr (nm_cntlr n)" using nb by simp
    then show ?thesis
    proof (rule nm_request_step[OF E ok, of t addr size' a cost])
      fix d c' assume "ProcessRequest E t size' a addr cost (nm_cntlr n) = Some (d, c')" "un_ok E dinv c'"
        "up_geo (un_perf c') = up_geo (un_perf (nm_cntlr n))"
      then show ?thesis using E geo by (simp add: NRequest normal_getAccessLatency_def nm_inv_def Let_def)
    qed
  next
    case (NPerf e')
    have "up_event_ok (up_geo (un_perf (nm_cntlr n))) e'" using e geo by (simp add: NPerf)
    from perf_step[OF ok E this] show ?thesis
      unfolding NPerf nm_step.simps runs_bind by (rule runs_mono) (use E geo in \<open>simp add: nm_inv_def\<close>)
  qed
qed

interpretation nms: served_until "nm_step E cores" "nm_event_ok geo" "nm_inv E dinv geo" "reads_block0 E" for E cores geo dinv
  by unfold_locales (rule nm_step_runs)

lemma reads_block0_fails:
  assumes "nm_inv E dinv geo n" "reads_block0 E e n"
  shows "nm_step E cores e n = None"
  using assms ProcessRequest_block0[of E dinv "nm_cntlr n"]
  by (cases e) (auto simp: nm_inv_def normal_getAccessLatency_def)

lemma model_start:
  assumes E: "un_env_ok E dinv" and "dinv d" "cf_addr_map (en_cfg E) \<in> {1, 2, 3}" "cf_n_remap (en_cfg E) \<le> 2"
    "cache_size * 1024 = 2 ^ k" "11 \<le> k" "k < 32"
  shows "runs (DramPerfModelNormal (en_cfg E) uninit d noroi enabled cache_size) (nm_inv E dinv (32, 8, 2 ^ (k - 11)))"
  unfolding DramPerfModelNormal_def runs_bind
  by (rule runs_mono[OF cntlr_built[where dinv = dinv, OF assms(2-7)]]) (simp add: nm_inv_def E)

lemma model_serves:
  assumes E: "un_env_ok E dinv" and "dinv d" "cf_addr_map (en_cfg E) \<in> {1, 2, 3}" "cf_n_remap (en_cfg E) \<le> 2"
    "cache_size * 1024 = 2 ^ k" "11 \<le> k" "k < 32" and es: "\<forall>e\<in>set es. nm_event_ok (32, 8, 2 ^ (k - 11)) e"
  obtains j n where "j \<le> length es"
    "DramPerfModelNormal (en_cfg E) uninit d noroi enabled cache_size \<bind> foldM (nm_step E cores) (take j es) = Some n"
    "nm_inv E dinv (32, 8, 2 ^ (k - 11)) n"
    "j < length es \<Longrightarrow> reads_block0 E (es ! j) n \<and> nm_step E cores (es ! j) n = None"
proof -
  obtain n0 where n0: "DramPerfModelNormal (en_cfg E) uninit d noroi enabled cache_size = Some n0"
    "nm_inv E dinv (32, 8, 2 ^ (k - 11)) n0"
    using model_start[OF assms(1-7), of uninit noroi enabled] by (auto simp: runs_iff)
  from nms.serve_until[OF n0(2) es, of cores] show thesis
    using that n0(1) reads_block0_fails by fastforce
qed

lemma model_returned:
  assumes E: "un_env_ok E dinv" and "dinv d" "cf_addr_map (en_cfg E) \<in> {1, 2, 3}" "cf_n_remap (en_cfg E) \<le> 2"
    "cache_size * 1024 = 2 ^ k" "11 \<le> k" "k < 32" and es: "\<forall>e\<in>set es. nm_event_ok (32, 8, 2 ^ (k - 11)) e"
    and run: "DramPerfModelNormal (en_cfg E) uninit d noroi enabled cache_size \<bind> foldM (nm_step E cores) es = Some n"
  shows "nm_inv E dinv (32, 8, 2 ^ (k - 11)) n"
proof -
  obtain n0 where n0: "nm_inv E dinv (32, 8, 2 ^ (k - 11)) n0" "foldM (nm_step E cores) es n0 = Some n"
    using model_start[OF assms(1-7), of uninit noroi enabled] run by (auto simp: runs_iff)
  then show ?thesis using nms.serve_returned[OF n0(1) es n0(2)] reads_block0_fails by blast
qed

subsection \<open>A small instance\<close>

definition demo_un :: "(nat, unit) un_env" where
  "demo_un = \<lparr>en_dram = demo_dram, en_floorLog2 = demo_log2, en_ns = unat, en_getNS = word_of_nat,
     en_freq = 1000, en_cfg = demo_cfg, ue_bw = unat, ue_ps = (\<lambda>x. unat x div 1000), ue_quarter = (\<lambda>x. x div 4),
     ue_avg_queue_latency = 40, ue_dram_disabled = False, ue_obus_delay = 5, ue_RemapInterval = 1000000\<rparr>"

lemma demo_un_ok: "un_env_ok demo_un (\<lambda>_. True)"
  using demo_env_ok[of 32 8] by (simp add: un_env_ok_def up_env_ok_def demo_un_def demo_env_def)

lemma demo_un_cfg: "cf_addr_map (en_cfg demo_un) \<in> {1, 2, 3}" "cf_n_remap (en_cfg demo_un) \<le> 2" "en_cfg demo_un = demo_cfg"
  by (simp_all add: demo_un_def demo_cfg_def)

definition demo_model :: "(nat, unit) normal_model option" where
  "demo_model = DramPerfModelNormal demo_cfg (0, 0, 0, 0) () (0, 0, 0) True 2"

lemma demo_model_ok:
  obtains n where "demo_model = Some n" "un_ok demo_un (\<lambda>_. True) (nm_cntlr n)" "\<not> up_remapped (un_perf (nm_cntlr n))"
    "up_geo (un_perf (nm_cntlr n)) = (32, 8, 1)" "un_page_table (nm_cntlr n) = []" "un_avail_phy_page_tag (nm_cntlr n) = 0"
proof -
  have "runs (StackDramCacheCntlrUnison (en_cfg demo_un) (0, 0, 0, 0) () (0, 0, 0) 2 (2 * 1024 div StackedSetSize)
       StackedAssoc StackedBlockSize StackedPageSize)
     (\<lambda>c. un_ok demo_un (\<lambda>_. True) c \<and> up_geo (un_perf c) = (32, 8, 2 ^ (11 - 11)) \<and> un_page_table c = [] \<and> un_avail_phy_page_tag c = 0 \<and>
        cc_cache_access (un_cc c) = 0 \<and> cc_page_misses (un_cc c) = 0 \<and> cc_block_misses (un_cc c) = 0)"
    by (rule cntlr_built) (use demo_un_cfg in simp_all)
  then obtain c where c: "StackDramCacheCntlrUnison demo_cfg (0, 0, 0, 0) () (0, 0, 0) 2 (2 * 1024 div StackedSetSize)
       StackedAssoc StackedBlockSize StackedPageSize = Some c" "un_ok demo_un (\<lambda>_. True) c" "up_geo (un_perf c) = (32, 8, 1)"
      "un_page_table c = []" "un_avail_phy_page_tag c = 0"
    by (auto simp: demo_un_cfg elim!: runsE)
  have "\<not> up_remapped (un_perf c)"
    using c(1) by (auto simp: StackDramCacheCntlrUnison_def StackedDramPerfUnison_def Let_def split: bind_splits)
  with c show thesis
    by (intro that[of "\<lparr>nm_cntlr = c, nm_enabled = True, nm_num_accesses = 0, nm_total_queueing_delay = 0,
          nm_total_access_latency = 0\<rparr>"]) (simp_all add: demo_model_def DramPerfModelNormal_def)
qed

subsection \<open>Properties\<close>

text \<open>C7: The DRAM performance model with the Unison cache serves every sequence of calls up to one defect of
  \<^verbatim>\<open>accessBlock\<close>. From its constructor (with a cache size whose number of kilobytes is a power of two from
  \<open>2^11\<close> on) take any sequence of requests with arbitrary addresses, sizes and times, and of calls of the
  statistics manager with vaults and banks in range. The calls return (no array is accessed out of range,
  no division by zero, no undefined shift), no error line is printed and the sets stay well formed, up
  to the end of the sequence or up to the first request for block 0 of a page that its enabled set
  holds. This request has no defined result: \<^verbatim>\<open>accessBlock\<close> shifts a 32-bit value by \<open>2^32 - 1\<close>.\<close>

theorem cache_never_fails:
  assumes "un_env_ok E dinv" and "dinv d" and "cf_addr_map (en_cfg E) \<in> {1, 2, 3}" and "cf_n_remap (en_cfg E) \<le> 2"
    and "cache_size * 1024 = 2 ^ k" and "11 \<le> k" and "k < 32"
    and "\<forall>e\<in>set es. nm_event_ok (32, 8, 2 ^ (k - 11)) e"
  shows "\<exists>j n. j \<le> length es \<and>
     DramPerfModelNormal (en_cfg E) uninit d noroi enabled cache_size \<bind> foldM (nm_step E cores) (take j es) = Some n \<and>
     un_ok E dinv (nm_cntlr n) \<and> un_out (nm_cntlr n) = [] \<and> up_out (un_perf (nm_cntlr n)) = [] \<and>
     (\<forall>s\<in>set (un_set (nm_cntlr n)). us_out s = []) \<and>
     (j < length es \<longrightarrow> reads_block0 E (es ! j) n \<and> nm_step E cores (es ! j) n = None)"
proof (rule model_serves[where uninit = uninit and noroi = noroi and enabled = enabled and cores = cores, OF assms])
  fix j n
  assume n: "j \<le> length es" "nm_inv E dinv (32, 8, 2 ^ (k - 11)) n"
      "DramPerfModelNormal (en_cfg E) uninit d noroi enabled cache_size \<bind> foldM (nm_step E cores) (take j es) = Some n"
    and b: "j < length es \<Longrightarrow> reads_block0 E (es ! j) n \<and> nm_step E cores (es ! j) n = None"
  have "un_ok E dinv (nm_cntlr n)" using n(2) by (simp add: nm_inv_def)
  moreover from this have "un_out (nm_cntlr n) = []" "up_out (un_perf (nm_cntlr n)) = []" "\<forall>s\<in>set (un_set (nm_cntlr n)). us_out s = []"
    by (auto simp: un_ok_def set_inv_def dram_ready_def up_ok_def)
  ultimately show ?thesis using n(1,3) b by blast
qed

theorem cache_never_fails_witness:
  "\<exists>j n. j \<le> 4 \<and> DramPerfModelNormal demo_cfg (0, 0, 0, 0) () (0, 0, 0) True 2 \<bind>
     foldM (nm_step demo_un 4) (take j [NRequest 5 64 0 0x12345 READ 45, NPerf (UTemperature True 31 7 95), NPerf UTryRemapping,
       NRequest 900 64 1 0xFFFFFFFFFFFFFFFF WRITE 45]) = Some n \<and> un_out (nm_cntlr n) = []"
proof -
  let ?es = "[NRequest 5 64 0 0x12345 READ 45, NPerf (UTemperature True 31 7 95), NPerf UTryRemapping,
       NRequest 900 64 1 0xFFFFFFFFFFFFFFFF WRITE 45] :: nat nm_event list"
  have es: "\<forall>e\<in>set ?es. nm_event_ok (32, 8, 2 ^ (11 - 11)) e" and len: "length ?es = 4" by simp_all
  show ?thesis
    using cache_never_fails[where d = "()" and cache_size = 2 and k = 11 and uninit = "(0, 0, 0, 0)" and noroi = "(0, 0, 0)" and
        enabled = True and cores = 4, OF demo_un_ok _ demo_un_cfg(1,2) _ _ _ es]
    unfolding len demo_un_cfg(3) by auto
qed

text \<open>Nothing is resident at the start, so the first request is always served.\<close>

lemma demo_first_runs:
  assumes "\<forall>e\<in>set es. nm_event_ok (32, 8, 1) (NPerf e)"
  obtains n where "DramPerfModelNormal demo_cfg (0, 0, 0, 0) () (0, 0, 0) True 2 \<bind>
      foldM (nm_step demo_un 4) (NRequest t size' req 0x12345 a cost # map NPerf es) = Some n"
    "nm_inv demo_un (\<lambda>_. True) (32, 8, 1) n"
proof -
  have ok: "\<forall>e\<in>set (NRequest t size' req 0x12345 a cost # map NPerf es). nm_event_ok (32, 8, 2 ^ (11 - 11)) e"
    using assms by auto
  show thesis
  proof (rule model_serves[where uninit = "(0, 0, 0, 0)" and d = "()" and noroi = "(0, 0, 0)" and enabled = True and cores = 4 and
        cache_size = 2, OF demo_un_ok _ demo_un_cfg(1,2) _ _ _ ok])
    fix j n
    let ?es = "NRequest t size' req 0x12345 a cost # map NPerf es"
    assume n: "j \<le> length ?es" "DramPerfModelNormal (en_cfg demo_un) (0, 0, 0, 0) () (0, 0, 0) True 2 \<bind>
        foldM (nm_step demo_un 4) (take j ?es) = Some n" "nm_inv demo_un (\<lambda>_. True) (32, 8, 2 ^ (11 - 11)) n"
      and b: "j < length ?es \<Longrightarrow> reads_block0 demo_un (?es ! j) n \<and> nm_step demo_un 4 (?es ! j) n = None"
    have "j = length ?es"
    proof (rule ccontr)
      assume "j \<noteq> length ?es"
      then have r: "j < length ?es" "reads_block0 demo_un (?es ! j) n" using n(1) b by auto
      then have "j = 0" by (cases j) auto
      then have b0: "block0_request demo_un t 0x12345 (nm_cntlr n)" and m: "demo_model = Some n"
        using r n(2) by (auto simp: demo_model_def demo_un_cfg split: bind_splits)
      obtain n' where n': "demo_model = Some n'" "un_page_table (nm_cntlr n') = []" "un_avail_phy_page_tag (nm_cntlr n') = 0"
        by (rule demo_model_ok)
      have "n' = n" using m n' by (metis option.inject)
      then have pt: "un_page_table (nm_cntlr n) = []" "un_avail_phy_page_tag (nm_cntlr n) = 0" using n' by (metis, metis)
      have ok: "un_ok demo_un (\<lambda>_. True) (nm_cntlr n)" using n(3) by (simp add: nm_inv_def)
      show False
      proof (rule request_start[OF demo_un_ok ok, of "0x12345" t])
        fix off j tag c2 dis
        assume "off = fst (translateAddress 0x12345 (nm_cntlr n)) mod 1984"
          "block0_request demo_un t 0x12345 (nm_cntlr n) \<longleftrightarrow> off < 64 \<and> \<not> dis \<and> \<not> ue_dram_disabled demo_un \<and>
             resident (un_set c2 ! unat j) = tag"
        then show False using b0 by (simp add: translateAddress_def pt)
      qed
    qed
    then show thesis using that[of n] n(2,3) by (simp add: demo_un_cfg)
  qed simp_all
qed

text \<open>C37: Only the first way of a set is ever used. After any sequence of calls every way but the first
  of every set is empty, although the sets are built with four ways: the usage counters that the
  replacement compares stay zero for ever, so the victim is always way 0.\<close>

theorem only_first_way_used:
  assumes "un_env_ok E dinv" and "dinv d" and "cf_addr_map (en_cfg E) \<in> {1, 2, 3}" and "cf_n_remap (en_cfg E) \<le> 2"
    and "cache_size * 1024 = 2 ^ k" and "11 \<le> k" and "k < 32"
    and "\<forall>e\<in>set es. nm_event_ok (32, 8, 2 ^ (k - 11)) e"
    and "DramPerfModelNormal (en_cfg E) uninit d noroi enabled cache_size \<bind> foldM (nm_step E cores) es = Some n"
    and "s \<in> set (un_set (nm_cntlr n))"
  shows "length (us_pages s) = 4 \<and> (\<forall>i\<in>{1, 2, 3}. \<not> page_isValid (us_pages s ! i)) \<and>
    (\<forall>p\<in>set (us_pages s). pi_used p = 0) \<and> (\<exists>s'. getReplacementIndex s = Some (0, s'))"
proof -
  have "set_inv (un_associativity (nm_cntlr n)) s"
    using model_returned[OF assms(1-9)] assms(10) by (simp add: nm_inv_def un_ok_def)
  then show ?thesis
    using getReplacementIndex_first by (auto simp: set_inv_def us_direct_def page_isValid_def us_ok_def)
qed

theorem only_first_way_used_witness:
  "\<exists>n. DramPerfModelNormal demo_cfg (0, 0, 0, 0) () (0, 0, 0) True 2 \<bind>
     foldM (nm_step demo_un 4) [NRequest 5 64 0 0x12345 READ 45] = Some n \<and>
     length (us_pages (un_set (nm_cntlr n) ! 7)) = 4 \<and> \<not> page_isValid (us_pages (un_set (nm_cntlr n) ! 7) ! 3)"
proof -
  let ?es = "[NRequest 5 64 0 0x12345 READ 45] :: nat nm_event list"
  obtain n where n: "DramPerfModelNormal (en_cfg demo_un) (0, 0, 0, 0) () (0, 0, 0) True 2 \<bind> foldM (nm_step demo_un 4) ?es = Some n"
    "nm_inv demo_un (\<lambda>_. True) (32, 8, 1) n"
    using demo_first_runs[of "[]" 5 64 0 READ 45] by (auto simp: demo_un_cfg)
  then have s: "un_set (nm_cntlr n) ! 7 \<in> set (un_set (nm_cntlr n))"
    by (intro nth_mem) (auto simp: nm_inv_def un_ok_def set_count_def up_geo_def)
  show ?thesis
    using only_first_way_used[OF demo_un_ok _ demo_un_cfg(1,2) _ _ _ _ n(1) s, of 11] n(1) by (auto simp: demo_un_cfg)
qed

text \<open>
  The abstract cache: one page number for each set. An access replaces the page of its set and
  reports whether it was another one.
\<close>

type_synonym dm_cache = "u64 list"

definition dm_access :: "nat \<Rightarrow> u64 \<Rightarrow> dm_cache \<Rightarrow> bool \<times> dm_cache" where
  "dm_access j tag ts = (ts ! j \<noteq> tag, ts[j := tag])"

definition tags :: "('t, 'd) unison_cntlr \<Rightarrow> dm_cache" where
  "tags c = map resident (un_set c)"

lemma served_in_tags:
  assumes "served_in c j tag off c'" "length (un_set c') = length (un_set c)"
  shows "tags c' = snd (dm_access j tag (tags c))"
    "cc_page_misses (un_cc c') = cc_page_misses (un_cc c) + (if fst (dm_access j tag (tags c)) then 1 else 0)"
proof -
  have j: "j < length (un_set c)" "resident (un_set c' ! j) = tag" "\<And>i. i \<noteq> j \<Longrightarrow> un_set c' ! i = un_set c ! i"
    "cc_page_misses (un_cc c') = cc_page_misses (un_cc c) + (if resident (un_set c ! j) = tag then 0 else 1)"
    using assms(1) by (auto simp: served_in_def)
  show "tags c' = snd (dm_access j tag (tags c))"
    using j assms(2) by (auto simp: tags_def dm_access_def list_eq_iff_nth_eq nth_list_update)
  show "cc_page_misses (un_cc c') = cc_page_misses (un_cc c) + (if fst (dm_access j tag (tags c)) then 1 else 0)"
    using j by (simp add: tags_def dm_access_def)
qed

lemma request_tags:
  assumes "un_env_ok E dinv" and "un_ok E dinv c" and "\<not> up_remapped (un_perf c)" and nb: "\<not> block0_request E t addr c"
    and split: "SplitAddress E addr c = Some (True, s, tag, off, c1)"
    and dis: "checkSetDisabled (en_floorLog2 E) (en_cfg E) s (un_perf c) = Some (dis, un_perf c)"
    and j: "getRemapSet (en_floorLog2 E) (en_cfg E) s (un_perf c) = Some (j, un_perf c)"
  obtains d c' where "ProcessRequest E t pkt_size a addr cost c = Some (d, c')"
    "if dis \<or> ue_dram_disabled E
      then tags c' = tags c \<and> cc_page_misses (un_cc c') = cc_page_misses (un_cc c)
      else tags c' = snd (dm_access (unat j) tag (tags c)) \<and>
        cc_page_misses (un_cc c') = cc_page_misses (un_cc c) + (if fst (dm_access (unat j) tag (tags c)) then 1 else 0)"
proof (rule ProcessRequest_step[OF assms(1,2) nb, of pkt_size a cost])
  fix s' tag' off' c1' rd c2 d c'
  assume sp: "SplitAddress E addr c = Some (True, s', tag', off', c1')" and c1: "c1' = snd (translateAddress addr c)"
    and k: "counters_kept c1' c2" and P: "ProcessRequest E t pkt_size a addr cost c = Some (d, c')" and ok': "un_ok E dinv c'"
    and fl: "if up_remapped (un_perf c) then flush_result E c1' c2 else un_set c2 = un_set c \<and> un_perf c2 = un_perf c"
    and R: "request_result E pkt_size cost rd (s', tag', off') c2 d c'" and fr: "perf_frame (un_perf c2) (un_perf c')"
  have eq: "s' = s" "tag' = tag" using sp split by simp_all
  have c2: "un_set c2 = un_set c" "un_perf c2 = un_perf c" using fl assms(3) by auto
  obtain pt av where c1': "c1' = c\<lparr>un_page_table := pt, un_avail_phy_page_tag := av\<rparr>"
    using translateAddress_frame c1 by metis
  have pm: "cc_page_misses (un_cc c2) = cc_page_misses (un_cc c)" using k by (simp add: counters_kept_def c1')
  have len: "length (un_set c') = length (un_set c2)"
    using ok' assms(2) perf_frame_count[OF fr] c2 by (simp add: un_ok_def)
  have r: "if dis \<or> ue_dram_disabled E then un_set c' = un_set c2 \<and> cc_page_misses (un_cc c') = cc_page_misses (un_cc c2)
      else served_in c2 (unat j) tag off' c'"
    using R dis j unfolding request_result_def Let_def prod.case c2 eq by (auto split: if_splits)
  show thesis
  proof (rule that[OF P], cases "dis \<or> ue_dram_disabled E")
    case True
    then show "if dis \<or> ue_dram_disabled E
      then tags c' = tags c \<and> cc_page_misses (un_cc c') = cc_page_misses (un_cc c)
      else tags c' = snd (dm_access (unat j) tag (tags c)) \<and>
        cc_page_misses (un_cc c') = cc_page_misses (un_cc c) + (if fst (dm_access (unat j) tag (tags c)) then 1 else 0)"
      using r c2 pm by (simp add: tags_def)
  next
    case False
    then have "served_in c2 (unat j) tag off' c'" using r by auto
    from served_in_tags[OF this len] show "if dis \<or> ue_dram_disabled E
      then tags c' = tags c \<and> cc_page_misses (un_cc c') = cc_page_misses (un_cc c)
      else tags c' = snd (dm_access (unat j) tag (tags c)) \<and>
        cc_page_misses (un_cc c') = cc_page_misses (un_cc c) + (if fst (dm_access (unat j) tag (tags c)) then 1 else 0)"
      using False c2 pm by (simp add: tags_def)
  qed
qed

text \<open>C11: A request refines an access of a direct-mapped cache of pages. When no remapping is pending and the
  set of the address is disabled, \<^verbatim>\<open>ProcessRequest\<close> returns, the cache is bypassed and keeps its
  pages. Otherwise it returns unless it asks for block 0 of the page that the set holds (the undefined
  shift of \<^verbatim>\<open>accessBlock\<close>), and the pages of the sets change exactly as one access of the abstract
  cache in the set that \<^verbatim>\<open>getRemapSet\<close> gives: this set now holds the page of the (translated) address,
  the others keep theirs, and the page-miss counter grows exactly when the abstract access misses.\<close>

theorem request_refines_direct_mapped:
  assumes "un_env_ok E dinv" and "un_ok E dinv c" and "\<not> up_remapped (un_perf c)"
  shows "\<exists>s tag off c1 dis j. SplitAddress E addr c = Some (True, s, tag, off, c1) \<and>
     tag = fst (translateAddress addr c) div 1984 \<and> off = fst (translateAddress addr c) mod 1984 \<and>
     checkSetDisabled (en_floorLog2 E) (en_cfg E) s (un_perf c) = Some (dis, un_perf c) \<and>
     getRemapSet (en_floorLog2 E) (en_cfg E) s (un_perf c) = Some (j, un_perf c) \<and> unat j < length (tags c) \<and>
     (if dis \<or> ue_dram_disabled E
      then \<exists>d c'. ProcessRequest E t pkt_size a addr cost c = Some (d, c') \<and>
        tags c' = tags c \<and> cc_page_misses (un_cc c') = cc_page_misses (un_cc c)
      else if tags c ! unat j = tag \<and> off < 64 then ProcessRequest E t pkt_size a addr cost c = None
      else \<exists>d c'. ProcessRequest E t pkt_size a addr cost c = Some (d, c') \<and>
        tags c' = snd (dm_access (unat j) tag (tags c)) \<and>
        cc_page_misses (un_cc c') = cc_page_misses (un_cc c) + (if fst (dm_access (unat j) tag (tags c)) then 1 else 0))"
proof (rule request_start[OF assms(1,2), of addr t])
  fix s tag off c1 rd c2 dis j
  assume sp: "SplitAddress E addr c = Some (True, s, tag, off, c1)"
      "tag = fst (translateAddress addr c) div 1984" "off = fst (translateAddress addr c) mod 1984"
    and fl: "if up_remapped (un_perf c) then flush_result E c1 c2 else un_set c2 = un_set c \<and> un_perf c2 = un_perf c"
    and dis2: "checkSetDisabled (en_floorLog2 E) (en_cfg E) s (un_perf c2) = Some (dis, un_perf c2)"
    and j2: "getRemapSet (en_floorLog2 E) (en_cfg E) s (un_perf c2) = Some (j, un_perf c2)" "unat j < set_count (un_perf c2)"
    and b0: "block0_request E t addr c \<longleftrightarrow> off < 64 \<and> \<not> dis \<and> \<not> ue_dram_disabled E \<and> resident (un_set c2 ! unat j) = tag"
  have c2: "un_set c2 = un_set c" "un_perf c2 = un_perf c" using fl assms(3) by auto
  note dis = dis2[unfolded c2] and j = j2[unfolded c2]
  have jl: "unat j < length (tags c)" using j(2) assms(2) by (simp add: tags_def un_ok_def)
  then have b: "block0_request E t addr c \<longleftrightarrow> off < 64 \<and> \<not> (dis \<or> ue_dram_disabled E) \<and> tags c ! unat j = tag"
    using b0 c2 by (auto simp: tags_def)
  have served: "\<exists>d c'. ProcessRequest E t pkt_size a addr cost c = Some (d, c') \<and>
      (if dis \<or> ue_dram_disabled E
       then tags c' = tags c \<and> cc_page_misses (un_cc c') = cc_page_misses (un_cc c)
       else tags c' = snd (dm_access (unat j) tag (tags c)) \<and>
        cc_page_misses (un_cc c') = cc_page_misses (un_cc c) + (if fst (dm_access (unat j) tag (tags c)) then 1 else 0))"
    if "\<not> block0_request E t addr c"
    using request_tags[OF assms that sp(1) dis j(1)] by blast
  have "if dis \<or> ue_dram_disabled E
      then \<exists>d c'. ProcessRequest E t pkt_size a addr cost c = Some (d, c') \<and>
        tags c' = tags c \<and> cc_page_misses (un_cc c') = cc_page_misses (un_cc c)
      else if tags c ! unat j = tag \<and> off < 64 then ProcessRequest E t pkt_size a addr cost c = None
      else \<exists>d c'. ProcessRequest E t pkt_size a addr cost c = Some (d, c') \<and>
        tags c' = snd (dm_access (unat j) tag (tags c)) \<and>
        cc_page_misses (un_cc c') = cc_page_misses (un_cc c) + (if fst (dm_access (unat j) tag (tags c)) then 1 else 0)"
  proof (cases "block0_request E t addr c")
    case True
    from ProcessRequest_block0[OF assms(1,2) this, of pkt_size a cost] show ?thesis using True b by simp
  next
    case False
    from served[OF this] show ?thesis using False b by presburger
  qed
  then show ?thesis using sp dis j(1) jl by blast
qed

theorem request_refines_direct_mapped_witness:
  "\<exists>n s tag off c1 j d c'. demo_model = Some n \<and> SplitAddress demo_un 0x12345 (nm_cntlr n) = Some (True, s, tag, off, c1) \<and>
     getRemapSet demo_log2 demo_cfg s (un_perf (nm_cntlr n)) = Some (j, un_perf (nm_cntlr n)) \<and>
     ProcessRequest demo_un 5 64 READ 0x12345 45 (nm_cntlr n) = Some (d, c')"
proof (rule demo_model_ok)
  fix n assume n: "demo_model = Some n" "un_ok demo_un (\<lambda>_. True) (nm_cntlr n)" "\<not> up_remapped (un_perf (nm_cntlr n))"
    and pt: "un_page_table (nm_cntlr n) = []" "un_avail_phy_page_tag (nm_cntlr n) = 0"
  have E: "en_floorLog2 demo_un = demo_log2" "ue_dram_disabled demo_un = False" by (simp_all add: demo_un_def)
  have off: "\<not> fst (translateAddress 0x12345 (nm_cntlr n)) mod 1984 < 64" by (simp add: translateAddress_def pt)
  obtain s tag ofs c1 j where T: "SplitAddress demo_un 0x12345 (nm_cntlr n) = Some (True, s, tag, ofs, c1)"
      "ofs = fst (translateAddress 0x12345 (nm_cntlr n)) mod 1984"
      "getRemapSet demo_log2 demo_cfg s (un_perf (nm_cntlr n)) = Some (j, un_perf (nm_cntlr n))"
      "(tags (nm_cntlr n) ! unat j = tag \<and> ofs < 64) \<or> (\<exists>d c'. ProcessRequest demo_un 5 64 READ 0x12345 45 (nm_cntlr n) = Some (d, c'))"
    using request_refines_direct_mapped[OF demo_un_ok n(2,3), of "0x12345" 5 64 READ 45] unfolding E demo_un_cfg(3) by metis
  then show ?thesis using n(1) off by blast
qed

text \<open>C12: A remapping flushes exactly the banks it moved. When temperatures were updated since the last
  request, \<^verbatim>\<open>checkRemapping\<close> returns; every set in a bank that the manager marked invalid is emptied
  (no tag and no dirty bit is left), every other set is untouched; all banks are valid afterwards,
  the pending flag is cleared, and the migration counters do not move: the branch that migrates
  rows instead of flushing them is never taken.\<close>

theorem remap_flushes_moved_banks:
  assumes "un_env_ok E dinv" and "un_ok E dinv c" and "up_remapped (un_perf c)"
  shows "\<exists>d c'. checkRemapping E t c = Some (d, c') \<and> un_ok E dinv c' \<and> \<not> up_remapped (un_perf c') \<and>
     (\<forall>v b r s. v < up_n_vaults (un_perf c) \<and> b < up_n_banks (un_perf c) \<and> r < up_n_rows (un_perf c) \<and>
        getSetNum (en_floorLog2 E) (en_cfg E) (v, b, r) (un_perf c) = Some (s, un_perf c) \<longrightarrow>
        (if checkRowValid v b r (un_perf c) = Some True then un_set c' ! unat s = un_set c ! unat s
         else \<forall>p\<in>set (us_pages (un_set c' ! unat s)). \<not> page_isValid p \<and> pi_dbits_0 p = 0) \<and>
        checkRowValid v b r (un_perf c') = Some True) \<and>
     cc_migrate_times (un_cc c') = cc_migrate_times (un_cc c)"
proof -
  obtain d c' where c': "checkRemapping E t c = Some (d, c')" "un_ok E dinv c'" "\<not> up_remapped (un_perf c')" "counters_kept c c'"
      "flush_result E c c'"
    using checkRemapping_runs[OF assms(1,2), of t] assms(3) by (auto elim!: runsE)
  let ?u = "un_perf c"
  have u: "up_ok (en_cfg E) ?u" "up_ok (en_cfg E) (un_perf c')" and fl: "floorLog2_ok (en_floorLog2 E)"
    using assms(1,2) c'(2) by (auto simp: un_ok_def dram_ready_def un_env_ok_def)
  have geo: "up_geo (un_perf c') = up_geo ?u" using c'(4) by (simp add: counters_kept_def)
  have row: "(if checkRowValid v b r ?u = Some True then un_set c' ! unat s = un_set c ! unat s
         else \<forall>p\<in>set (us_pages (un_set c' ! unat s)). \<not> page_isValid p \<and> pi_dbits_0 p = 0) \<and>
        checkRowValid v b r (un_perf c') = Some True"
    if x: "row_in ?u (v, b, r)" and s: "getSetNum (en_floorLog2 E) (en_cfg E) (v, b, r) ?u = Some (s, ?u)" for v b r s
  proof -
    have num: "row_number E ?u (v, b, r) = unat s" by (simp add: row_number_def s)
    have sp: "splitSetNum (en_floorLog2 E) (en_cfg E) s ?u = Some ((v, b, r), ?u)" "unat s < set_count ?u"
      using getSetNum_runs[OF u(1) fl, of v b r] x s by (auto simp: row_in_def)
    have same: "v' = v \<and> b' = b" if in': "row_in ?u (v', b', r')" and n': "row_number E ?u (v', b', r') = unat s" for v' b' r'
    proof -
      obtain s' where s': "getSetNum (en_floorLog2 E) (en_cfg E) (v', b', r') ?u = Some (s', ?u)"
        "splitSetNum (en_floorLog2 E) (en_cfg E) s' ?u = Some ((v', b', r'), ?u)"
        using getSetNum_runs[OF u(1) fl, of v' b' r'] in' by (auto simp: row_in_def)
      then have "s' = s" using n' by (simp add: row_number_def word_unat_eq_iff)
      then show ?thesis using s'(2) sp(1) by simp
    qed
    have x': "row_in (un_perf c') (v, b, r)" using x geo by (simp add: row_in_def up_geo_def)
    have lt: "unat s < length (un_set c)" using sp(2) assms(2) by (simp add: un_ok_def)
    have "un_set c' ! unat s = (if \<not> row_valid ?u v b then flushed (un_set c ! unat s) else un_set c ! unat s)"
    proof -
      have "(\<exists>v' b' r'. row_in ?u (v', b', r') \<and> row_number E ?u (v', b', r') = unat s \<and> \<not> row_valid ?u v' b') \<longleftrightarrow> \<not> row_valid ?u v b"
        using same x num by blast
      then show ?thesis using c'(5) lt by (simp add: flush_result_def)
    qed
    then show ?thesis
      using checkRow_eq(1)[OF u(1) x] checkRow_eq(1)[OF u(2) x'] c'(5) x
      by (auto simp: flush_result_def flushed_def page_invalidate_def page_isValid_def)
  qed
  show ?thesis
    using c' row by (intro exI[of _ d] exI[of _ c']) (auto simp: row_in_def flush_result_def)
qed

lemma updateTemperature_pending: "ensures (unison_updateTemperature D roi cfg v b temp u) up_remapped"
proof -
  have hot: "ensures (set_bank_hot v b h u) (\<lambda>u'. up_remapped u' = up_remapped u)" for h u
    by (auto simp: ensures_def set_bank_hot_def split: bind_splits)
  show ?thesis
    unfolding unison_updateTemperature_def Let_def
    by (auto simp: ensures_bind intro!: ensures_any[where m = "updateTemperature v b temp m" for m]
        ensures_mono[OF hot] ensures_any[where m = "di_setBankRef D v b h d" for h d])
qed

theorem remap_flushes_moved_banks_witness:
  "\<exists>n u d c'. demo_model = Some n \<and>
     unison_updateTemperature demo_dram True demo_cfg 31 7 95 (un_perf (nm_cntlr n)) = Some u \<and>
     checkRemapping demo_un 5 ((nm_cntlr n)\<lparr>un_perf := u\<rparr>) = Some (d, c') \<and> checkRowValid 31 7 0 (un_perf c') = Some True"
proof (rule demo_model_ok)
  fix n assume n: "demo_model = Some n" "un_ok demo_un (\<lambda>_. True) (nm_cntlr n)" "up_geo (un_perf (nm_cntlr n)) = (32, 8, 1)"
  have "runs (up_step (up_env.truncate demo_un) (UTemperature True 31 7 95) (un_perf (nm_cntlr n)))
      (\<lambda>u. un_ok demo_un (\<lambda>_. True) ((nm_cntlr n)\<lparr>un_perf := u\<rparr>) \<and> up_geo u = up_geo (un_perf (nm_cntlr n)))"
    by (rule perf_step[OF n(2) demo_un_ok]) (simp add: n(3))
  then obtain u where u: "unison_updateTemperature demo_dram True demo_cfg 31 7 95 (un_perf (nm_cntlr n)) = Some u"
    "un_ok demo_un (\<lambda>_. True) ((nm_cntlr n)\<lparr>un_perf := u\<rparr>)" "up_geo u = (32, 8, 1)"
    by (auto simp: runs_iff n(3) demo_un_def up_env.truncate_def)
  let ?c = "(nm_cntlr n)\<lparr>un_perf := u\<rparr>"
  have "up_remapped (un_perf ?c)"
    using updateTemperature_pending[of demo_dram True demo_cfg 31 7 95 "un_perf (nm_cntlr n)"] u(1) by (simp add: ensures_def)
  from remap_flushes_moved_banks[OF demo_un_ok u(2) this, of 5] obtain d c' where
    c': "checkRemapping demo_un 5 ?c = Some (d, c')" and
    all: "\<And>v b r s. v < up_n_vaults u \<and> b < up_n_banks u \<and> r < up_n_rows u \<and>
        getSetNum (en_floorLog2 demo_un) (en_cfg demo_un) (v, b, r) u = Some (s, u) \<Longrightarrow> checkRowValid v b r (un_perf c') = Some True"
    by auto
  have uo: "up_ok (en_cfg demo_un) u" using u(2) by (simp add: un_ok_def dram_ready_def)
  have "\<exists>s. getSetNum (en_floorLog2 demo_un) (en_cfg demo_un) (31, 7, 0) u = Some (s, u)"
    using getSetNum_runs[OF uo, of "en_floorLog2 demo_un" 31 7 0] u(3) demo_un_ok by (auto simp: up_geo_def un_env_ok_def)
  then have "checkRowValid 31 7 0 (un_perf c') = Some True" using all u(3) by (auto simp: up_geo_def)
  then show ?thesis using n(1) u(1) c' by blast
qed

lemma disabled_no_block0:
  assumes "un_env_ok E dinv" and "un_ok E dinv c" and "\<not> up_remapped (un_perf c)"
    and "SplitAddress E addr c = Some (True, s, tag, off, c1)"
    and "checkSetDisabled (en_floorLog2 E) (en_cfg E) s (un_perf c) = Some (dis, un_perf c)" and "dis \<or> ue_dram_disabled E"
  shows "\<not> block0_request E t addr c"
  by (rule request_start[OF assms(1,2), of addr t]) (use assms(3-6) in auto)

text \<open>C39: Requests to a disabled set bypass the cache. With no remapping pending, a request whose set the
  manager disabled, or any request when the stacked DRAM is disabled by configuration, changes no
  set and counts as one access, one block miss and one disabled access; its latency is the off-chip
  transfer, the memory access, the lookup of the remapping table (200 ps for the global table, 10 ps for a
  local one, when remapping is on) and the configured queue latency.\<close>

theorem disabled_set_bypasses_cache:
  assumes "un_env_ok E dinv" and "un_ok E dinv c" and "\<not> up_remapped (un_perf c)"
    and "SplitAddress E addr c = Some (True, s, tag, off, c1)"
    and "checkSetDisabled (en_floorLog2 E) (en_cfg E) s (un_perf c) = Some (dis, un_perf c)" and "dis \<or> ue_dram_disabled E"
  shows "\<exists>c'. ProcessRequest E t pkt_size a addr cost c =
       Some (ue_bw E (8 * pkt_size) + cost +
         (if up_enable_remap (un_perf c)
          then ue_ps E (if cf_n_remap (en_cfg E) = 1 \<and> cf_inter_vault (en_cfg E) then 200 else 10) else 0) +
         en_ns E (ue_avg_queue_latency E), c') \<and>
     un_set c' = un_set c \<and> cc_cache_access (un_cc c') = cc_cache_access (un_cc c) + 1 \<and>
     cc_block_misses (un_cc c') = cc_block_misses (un_cc c) + 1 \<and> cc_page_disabled (un_cc c') = cc_page_disabled (un_cc c) + 1 \<and>
     cc_page_misses (un_cc c') = cc_page_misses (un_cc c)"
proof (rule ProcessRequest_step[OF assms(1,2) disabled_no_block0[OF assms], of t pkt_size a cost])
  fix s' tag' off' c1' rd c2 d c'
  assume sp: "SplitAddress E addr c = Some (True, s', tag', off', c1')" and c1: "c1' = snd (translateAddress addr c)"
    and cr: "checkRemapping E t c1' = Some (rd, c2)"
    and k: "counters_kept c1' c2" and P: "ProcessRequest E t pkt_size a addr cost c = Some (d, c')"
    and fl: "if up_remapped (un_perf c) then flush_result E c1' c2 else un_set c2 = un_set c \<and> un_perf c2 = un_perf c"
    and R: "request_result E pkt_size cost rd (s', tag', off') c2 d c'"
  have c2: "un_set c2 = un_set c" "un_perf c2 = un_perf c" and s: "s' = s" using fl assms(3,4) sp by auto
  obtain pt av where eq: "c1' = c\<lparr>un_page_table := pt, un_avail_phy_page_tag := av\<rparr>"
    using translateAddress_frame c1 by metis
  have ok1: "un_ok E dinv c1'" "\<not> up_remapped (un_perf c1')" using assms(2,3) by (simp_all add: eq un_ok_def)
  have rd: "rd = 0" using checkRemapping_runs[OF assms(1) ok1(1), of t] ok1(2) cr by simp
  have kc: "cc_cache_access (un_cc c2) = cc_cache_access (un_cc c)" "cc_page_misses (un_cc c2) = cc_page_misses (un_cc c)"
    "cc_block_misses (un_cc c2) = cc_block_misses (un_cc c)" "cc_page_disabled (un_cc c2) = cc_page_disabled (un_cc c)"
    using k by (simp_all add: counters_kept_def eq)
  show ?thesis
    using P R assms(5,6) unfolding request_result_def Let_def prod.case c2 s rd kc by auto
qed

theorem disabled_set_bypasses_cache_witness:
  "\<exists>n d c'. demo_model = Some n \<and> ProcessRequest (demo_un\<lparr>ue_dram_disabled := True\<rparr>) 5 64 READ 0x12345 45 (nm_cntlr n) = Some (d, c') \<and>
     un_set c' = un_set (nm_cntlr n)"
proof (rule demo_model_ok)
  fix n assume n: "demo_model = Some n" "un_ok demo_un (\<lambda>_. True) (nm_cntlr n)" "\<not> up_remapped (un_perf (nm_cntlr n))"
  let ?E = "demo_un\<lparr>ue_dram_disabled := True\<rparr>" and ?c = "nm_cntlr n"
  have E: "un_env_ok ?E (\<lambda>_. True)" using demo_un_ok by (simp add: un_env_ok_def)
  have ok: "un_ok ?E (\<lambda>_. True) ?c" using n(2) by (simp add: un_ok_def dram_ready_def)
  obtain s tag off c1 where sp: "SplitAddress ?E 0x12345 ?c = Some (True, s, tag, off, c1)" "unat s < set_count (un_perf ?c)"
    using SplitAddress_runs[OF E ok, of "0x12345"] by (auto elim!: runsE)
  have u: "up_ok (en_cfg ?E) (un_perf ?c)" "floorLog2_ok (en_floorLog2 ?E)"
    using ok E by (auto simp: un_ok_def dram_ready_def un_env_ok_def)
  obtain dis where "checkSetDisabled (en_floorLog2 ?E) (en_cfg ?E) s (un_perf ?c) = Some (dis, un_perf ?c)"
    using checkSetDisabled_runs[OF u sp(2)] .
  from disabled_set_bypasses_cache[OF E ok n(3) sp(1) this, of 5 64 READ 45] show ?thesis using n(1) by auto
qed

subsection \<open>Address translation\<close>

text \<open>The page table: physical page numbers are handed out in order.\<close>

definition page_table_ok :: "('t, 'd) unison_cntlr \<Rightarrow> bool" where
  "page_table_ok c \<longleftrightarrow> unat (un_avail_phy_page_tag c) = length (un_page_table c) \<and>
     (\<forall>v p. map_of (un_page_table c) v = Some p \<longrightarrow> unat p < length (un_page_table c)) \<and>
     inj_on (map_of (un_page_table c)) (dom (map_of (un_page_table c)))"

lemma translateAddress_parts:
  fixes a :: u64
  assumes "unat p < 2 ^ 32"
  shows "drop_bit 12 (push_bit 12 p OR (a AND (push_bit 12 1 - 1))) = p"
    "take_bit 12 (push_bit 12 p OR (a AND (push_bit 12 1 - 1))) = take_bit 12 a"
proof -
  have m: "a AND (push_bit 12 1 - 1) = take_bit 12 a"
    by (simp add: take_bit_eq_mask mask_eq_exp_minus_1)
  have top: "k < 52" if "bit p k" for k
  proof (rule ccontr)
    assume "\<not> k < 52"
    from that have "bit (unat p) k" by (simp add: bit_unsigned_iff)
    then have "2 ^ k \<le> unat p" by (metis bit_iff_odd div_less even_zero not_le)
    moreover have "(2::nat) ^ 32 \<le> 2 ^ k" using \<open>\<not> k < 52\<close> by (intro power_increasing) auto
    ultimately show False using assms by simp
  qed
  show "drop_bit 12 (push_bit 12 p OR (a AND (push_bit 12 1 - 1))) = p"
    unfolding m by (rule bit_word_eqI) (auto dest: top simp: bit_drop_bit_eq bit_or_iff bit_push_bit_iff bit_take_bit_iff)
  show "take_bit 12 (push_bit 12 p OR (a AND (push_bit 12 1 - 1))) = take_bit 12 a"
    unfolding m by (rule bit_word_eqI) (auto simp: bit_or_iff bit_push_bit_iff bit_take_bit_iff)
qed

lemma translateAddress_step:
  assumes ok: "page_table_ok c" and small: "length (un_page_table c) < 2 ^ 32 - 1"
  obtains p c' where "translateAddress a c = (p, c')" "page_table_ok c'" "length (un_page_table c') \<le> Suc (length (un_page_table c))"
    "map_of (un_page_table c') (drop_bit 12 a) = Some (drop_bit 12 p)" "take_bit 12 p = take_bit 12 a"
    "\<And>v x. map_of (un_page_table c) v = Some x \<Longrightarrow> map_of (un_page_table c') v = Some x"
proof (cases "map_of (un_page_table c) (drop_bit 12 a)")
  case (Some q)
  then have "unat q < length (un_page_table c)" using ok by (simp add: page_table_ok_def)
  then have "unat q < 2 ^ 32" using small by simp
  note parts = translateAddress_parts[OF this, of a]
  show thesis
    by (rule that[of "push_bit 12 q OR (a AND (push_bit 12 1 - 1))" c]) (use Some ok parts in \<open>auto simp: translateAddress_def\<close>)
next
  case None
  let ?n = "un_avail_phy_page_tag c" and ?m = "un_page_table c" and ?v = "drop_bit 12 a"
  let ?q = "ucast ?n :: u64"
  let ?c = "c\<lparr>un_page_table := omap_put ?v ?q ?m, un_avail_phy_page_tag := ?n + 1\<rparr>"
  have q: "unat ?q = length ?m"
    using ok unsigned_less[of ?n, where ?'a = nat] by (simp add: page_table_ok_def unsigned_ucast_eq take_bit_eq_mod)
  have len: "length (omap_put ?v ?q ?m) = Suc (length ?m)" by (rule length_omap_put_new[OF None])
  have av: "unat (?n + 1) = Suc (length ?m)"
    using ok small by (simp add: page_table_ok_def unat_word_ariths)
  have new: "q' \<noteq> ?q" if "map_of ?m v = Some q'" for v q'
  proof -
    have "unat q' < length ?m" using ok that by (simp add: page_table_ok_def)
    then show ?thesis using q by auto
  qed
  have ok': "page_table_ok ?c"
    unfolding page_table_ok_def
  proof (intro conjI allI impI)
    show "unat (un_avail_phy_page_tag ?c) = length (un_page_table ?c)" using av len by simp
    show "unat p < length (un_page_table ?c)" if "map_of (un_page_table ?c) v = Some p" for v p
      using that ok q len by (auto simp: map_of_omap_put page_table_ok_def split: if_splits intro: less_SucI)
    show "inj_on (map_of (un_page_table ?c)) (dom (map_of (un_page_table ?c)))"
      using ok by (auto simp: map_of_omap_put page_table_ok_def inj_on_def dom_def dest: new)
  qed
  have q32: "unat ?q < 2 ^ 32" using q small by simp
  define pa where "pa = push_bit 12 ?q OR (a AND (push_bit 12 1 - 1))"
  note parts = translateAddress_parts[OF q32, of a, folded pa_def]
  have eq: "translateAddress a c = (pa, ?c)"
    unfolding translateAddress_def Let_def None option.case pa_def ..
  show thesis
    by (rule that[OF eq ok']) (use None in \<open>auto simp: map_of_omap_put parts len\<close>)
qed

primrec translate_all :: "u64 list \<Rightarrow> ('t, 'd) unison_cntlr \<Rightarrow> u64 list \<times> ('t, 'd) unison_cntlr" where
  "translate_all [] c = ([], c)"
| "translate_all (a # as) c = (let (p, c) = translateAddress a c; (ps, c) = translate_all as c in (p # ps, c))"

lemma translate_all_table:
  assumes "page_table_ok c" "length (un_page_table c) + length as < 2 ^ 32"
  shows "page_table_ok (snd (translate_all as c)) \<and> length (fst (translate_all as c)) = length as \<and>
    (\<forall>i<length as. map_of (un_page_table (snd (translate_all as c))) (drop_bit 12 (as ! i)) =
        Some (drop_bit 12 (fst (translate_all as c) ! i)) \<and> take_bit 12 (fst (translate_all as c) ! i) = take_bit 12 (as ! i)) \<and>
    (\<forall>v x. map_of (un_page_table c) v = Some x \<longrightarrow> map_of (un_page_table (snd (translate_all as c))) v = Some x)"
  using assms
proof (induction "as" arbitrary: c)
  case (Cons a "as")
  have small: "length (un_page_table c) < 2 ^ 32 - 1" using Cons.prems(2) by simp
  obtain p c' where t: "translateAddress a c = (p, c')" "page_table_ok c'" "length (un_page_table c') \<le> Suc (length (un_page_table c))"
    "map_of (un_page_table c') (drop_bit 12 a) = Some (drop_bit 12 p)" "take_bit 12 p = take_bit 12 a"
    "\<And>v x. map_of (un_page_table c) v = Some x \<Longrightarrow> map_of (un_page_table c') v = Some x"
    using translateAddress_step[OF Cons.prems(1) small, of a] by blast
  have "length (un_page_table c') + length as < 2 ^ 32" using t(3) Cons.prems(2) by simp
  note IH = Cons.IH[OF t(2) this]
  show ?case
    using IH t by (auto simp: case_prod_beta nth_Cons split: nat.splits)
qed simp

text \<open>The translation of addresses is injective and stable. Starting with an empty page table, as long as
  fewer than \<open>2^32\<close> addresses are translated, two of them get the same physical address exactly when
  they are the same virtual address, and the offset within the page of 4096 bytes is kept.\<close>

theorem translation_injective:
  assumes "un_page_table c = []" and "un_avail_phy_page_tag c = 0" and "length as < 2 ^ 32"
    and "i < length as" and "j < length as"
  shows "(fst (translate_all as c) ! i = fst (translate_all as c) ! j \<longleftrightarrow> as ! i = as ! j) \<and>
     fst (translate_all as c) ! i mod 4096 = as ! i mod 4096"
proof -
  have "page_table_ok c" using assms(1,2) by (simp add: page_table_ok_def)
  note T = translate_all_table[OF this, of "as"]
  let ?p = "fst (translate_all as c)" and ?m = "map_of (un_page_table (snd (translate_all as c)))"
  have at: "?m (drop_bit 12 (as ! k)) = Some (drop_bit 12 (?p ! k))" "take_bit 12 (?p ! k) = take_bit 12 (as ! k)"
    if "k < length as" for k
    using T assms(1,3) that by auto
  have inj: "inj_on ?m (dom ?m)" using T assms(1,3) by (simp add: page_table_ok_def)
  have glue: "x = y" if "drop_bit 12 x = drop_bit 12 y" "take_bit 12 x = take_bit 12 y" for x y :: u64
    using that bits_ident[of 12 x] bits_ident[of 12 y] by metis
  have "?p ! i = ?p ! j \<longleftrightarrow> as ! i = as ! j"
  proof
    assume eq: "?p ! i = ?p ! j"
    then have "drop_bit 12 (as ! i) = drop_bit 12 (as ! j)"
      using inj_onD[OF inj, of "drop_bit 12 (as ! i)" "drop_bit 12 (as ! j)"] at(1)[OF assms(4)] at(1)[OF assms(5)] by auto
    moreover have "take_bit 12 (as ! i) = take_bit 12 (as ! j)" using eq at(2)[OF assms(4)] at(2)[OF assms(5)] by metis
    ultimately show "as ! i = as ! j" by (rule glue)
  next
    assume eq: "as ! i = as ! j"
    have "drop_bit 12 (?p ! i) = drop_bit 12 (?p ! j)"
      using at(1)[OF assms(4)] at(1)[OF assms(5)] unfolding eq by simp
    moreover have "take_bit 12 (?p ! i) = take_bit 12 (?p ! j)"
      using at(2)[OF assms(4)] at(2)[OF assms(5)] unfolding eq by simp
    ultimately show "?p ! i = ?p ! j" by (rule glue)
  qed
  moreover have "?p ! i mod 4096 = as ! i mod 4096"
    using at(2)[OF assms(4)] by (simp add: take_bit_eq_mod)
  ultimately show ?thesis by blast
qed

theorem translation_injective_witness:
  "\<exists>n. demo_model = Some n \<and>
     (fst (translate_all [0x5123, 0x7123, 0x5123] (nm_cntlr n)) ! 0 = fst (translate_all [0x5123, 0x7123, 0x5123] (nm_cntlr n)) ! 2)"
proof (rule demo_model_ok)
  fix n assume n: "demo_model = Some n" "un_page_table (nm_cntlr n) = []" "un_avail_phy_page_tag (nm_cntlr n) = 0"
  have "fst (translate_all [0x5123, 0x7123, 0x5123] (nm_cntlr n)) ! 0 = fst (translate_all [0x5123, 0x7123, 0x5123] (nm_cntlr n)) ! 2"
    using translation_injective[OF n(2,3), of "[0x5123, 0x7123, 0x5123]" 0 2] by (simp del: translate_all.simps)
  with n(1) show ?thesis by blast
qed

subsection \<open>The miss rate of the report\<close>

text \<open>
  The numbers that the destructor \<^verbatim>\<open>~StackDramCacheCntlrUnison\<close> reports, with the \<^verbatim>\<open>float\<close> quotients as real
  numbers: all misses, the miss rate, and the miss rate inside the region of interest.
\<close>

definition cache_report :: "cache_counters \<Rightarrow> u32 \<times> real \<times> real" where
  "cache_report k = (let
     tot_miss = cc_page_misses k + cc_block_misses k;
     miss_rate = (if cc_cache_access k \<noteq> 0 then real (unat tot_miss) / real (unat (cc_cache_access k)) else 0);
     cache_access_roi = cc_cache_access k - cc_cache_access_no_roi k;
     tot_miss_roi = tot_miss - cc_page_misses_no_roi k - cc_block_misses_no_roi k;
     miss_rate_roi = (if cache_access_roi \<noteq> 0 then real (unat tot_miss_roi) / real (unat cache_access_roi) else 0)
   in (tot_miss, miss_rate, miss_rate_roi))"

fun is_request :: "'t nm_event \<Rightarrow> bool" where
  "is_request (NRequest t size' req addr a cost) \<longleftrightarrow> True"
| "is_request (NPerf e) \<longleftrightarrow> False"

definition counted :: "nat \<Rightarrow> cache_counters \<Rightarrow> bool" where
  "counted r k \<longleftrightarrow> unat (cc_cache_access k) = r \<and> unat (cc_page_misses k) + unat (cc_block_misses k) \<le> r"

lemma counted_step:
  assumes inv: "nm_inv E dinv geo n" and cnt: "counted r (un_cc (nm_cntlr n))" and r: "r + 1 < 2 ^ 32"
    and run: "nm_step E cores e n = Some n'"
  shows "counted (r + (if is_request e then 1 else 0)) (un_cc (nm_cntlr n'))"
proof (cases e)
  case (NPerf e')
  then show ?thesis using run cnt by (auto split: bind_splits)
next
  case (NRequest t size' req addr a cost)
  have E: "un_env_ok E dinv" and ok: "un_ok E dinv (nm_cntlr n)" using inv by (auto simp: nm_inv_def)
  have suc: "unat (x + 1) = unat x + 1" if "unat x \<le> r" for x :: u32
    using that r by (simp add: unat_word_ariths)
  let ?k = "un_cc (nm_cntlr n)"
  have bounds: "unat (cc_cache_access ?k) \<le> r" "unat (cc_page_misses ?k) \<le> r" "unat (cc_block_misses ?k) \<le> r"
    using cnt by (auto simp: counted_def)
  have "\<not> block0_request E t addr (nm_cntlr n)"
    using reads_block0_fails[OF inv, of e cores] run by (auto simp: NRequest)
  then show ?thesis
  proof (rule nm_request_step[OF E ok, of t addr size' a cost])
    fix d c'
    assume P: "ProcessRequest E t size' a addr cost (nm_cntlr n) = Some (d, c')"
      and acc: "cc_cache_access (un_cc c') = cc_cache_access ?k + 1"
      and m: "(cc_page_misses (un_cc c') = cc_page_misses ?k \<and>
          (cc_block_misses (un_cc c') = cc_block_misses ?k \<or> cc_block_misses (un_cc c') = cc_block_misses ?k + 1)) \<or>
         (cc_page_misses (un_cc c') = cc_page_misses ?k + 1 \<and> cc_block_misses (un_cc c') = cc_block_misses ?k)"
    have "nm_cntlr n' = c'"
      using run by (auto simp: NRequest normal_getAccessLatency_def P Let_def split: if_splits)
    then show ?thesis
      using m cnt acc suc[OF bounds(1)] suc[OF bounds(2)] suc[OF bounds(3)] by (auto simp: counted_def NRequest)
  qed
qed

lemma counted_run:
  assumes "nm_inv E dinv geo n" "counted r (un_cc (nm_cntlr n))" "\<forall>e\<in>set es. nm_event_ok geo e"
    "r + length (filter is_request es) < 2 ^ 32 - 1" "foldM (nm_step E cores) es n = Some n'"
  shows "counted (r + length (filter is_request es)) (un_cc (nm_cntlr n'))"
  using assms
proof (induction es arbitrary: n r)
  case (Cons e es)
  obtain n1 where n1: "nm_step E cores e n = Some n1" "foldM (nm_step E cores) es n1 = Some n'"
    using Cons.prems(5) by (auto split: bind_splits)
  have "nm_inv E dinv geo n1"
    using nm_step_runs[OF Cons.prems(1), of e cores] Cons.prems(1,3) n1(1) reads_block0_fails[OF Cons.prems(1), of e cores] by auto
  moreover have "counted (r + (if is_request e then 1 else 0)) (un_cc (nm_cntlr n1))"
    using counted_step[OF Cons.prems(1,2) _ n1(1)] Cons.prems(4) by (simp split: if_splits)
  ultimately show ?case
    using Cons.IH[of n1 "r + (if is_request e then 1 else 0)"] Cons.prems(3,4) n1(2) by (simp split: if_splits)
qed simp

text \<open>C38: The reported miss rate is a rate. After any sequence of calls with fewer than \<open>2^32 - 1\<close> requests the access
  counter is the number of requests, page and block misses together never exceed it (every request
  counts at most one of them), and the miss rate of the report is at most one.\<close>

theorem miss_rate_at_most_one:
  assumes "un_env_ok E dinv" and "dinv d" and "cf_addr_map (en_cfg E) \<in> {1, 2, 3}" and "cf_n_remap (en_cfg E) \<le> 2"
    and "cache_size * 1024 = 2 ^ k" and "11 \<le> k" and "k < 32"
    and "\<forall>e\<in>set es. nm_event_ok (32, 8, 2 ^ (k - 11)) e" and "length (filter is_request es) < 2 ^ 32 - 1"
    and "DramPerfModelNormal (en_cfg E) uninit d noroi enabled cache_size \<bind> foldM (nm_step E cores) es = Some n"
  shows "unat (cc_cache_access (un_cc (nm_cntlr n))) = length (filter is_request es) \<and>
    unat (fst (cache_report (un_cc (nm_cntlr n)))) \<le> length (filter is_request es) \<and>
    fst (snd (cache_report (un_cc (nm_cntlr n)))) \<le> 1"
proof -
  have start: "runs (DramPerfModelNormal (en_cfg E) uninit d noroi enabled cache_size)
      (\<lambda>n. nm_inv E dinv (32, 8, 2 ^ (k - 11)) n \<and> counted 0 (un_cc (nm_cntlr n)))"
    unfolding DramPerfModelNormal_def runs_bind
    by (rule runs_mono[OF cntlr_built[where dinv = dinv, OF assms(2-7)]]) (simp add: nm_inv_def counted_def assms(1))
  obtain n0 where n0: "nm_inv E dinv (32, 8, 2 ^ (k - 11)) n0" "counted 0 (un_cc (nm_cntlr n0))" "foldM (nm_step E cores) es n0 = Some n"
    using start assms(10) by (auto simp: runs_iff)
  let ?k = "un_cc (nm_cntlr n)" and ?r = "length (filter is_request es)"
  have c: "counted ?r ?k" using counted_run[OF n0(1,2) assms(8) _ n0(3)] assms(9) by simp
  have tot: "unat (cc_page_misses ?k + cc_block_misses ?k) = unat (cc_page_misses ?k) + unat (cc_block_misses ?k)"
    using c assms(9) by (simp add: counted_def unat_word_ariths)
  have "fst (snd (cache_report ?k)) \<le> 1"
    using c tot by (simp add: cache_report_def Let_def counted_def divide_le_eq_1 del: of_nat_add)
  then show ?thesis using c tot by (simp add: counted_def cache_report_def Let_def)
qed

theorem miss_rate_at_most_one_witness:
  "\<exists>n. DramPerfModelNormal demo_cfg (0, 0, 0, 0) () (0, 0, 0) True 2 \<bind>
     foldM (nm_step demo_un 4) [NRequest 5 64 0 0x12345 READ 45, NPerf (UTemperature True 31 7 95), NPerf UTryRemapping] = Some n \<and>
     fst (snd (cache_report (un_cc (nm_cntlr n)))) \<le> 1"
proof -
  obtain n where n: "DramPerfModelNormal (en_cfg demo_un) (0, 0, 0, 0) () (0, 0, 0) True 2 \<bind>
      foldM (nm_step demo_un 4) [NRequest 5 64 0 0x12345 READ 45, NPerf (UTemperature True 31 7 95), NPerf UTryRemapping] = Some n"
    using demo_first_runs[of "[UTemperature True 31 7 95, UTryRemapping]" 5 64 0 READ 45] by (auto simp: demo_un_cfg)
  show ?thesis
    using miss_rate_at_most_one[OF demo_un_ok _ demo_un_cfg(1,2) _ _ _ _ _ n, of 11] n by (auto simp: demo_un_cfg)
qed

end
