(* ===== verification/Ram_HBM.thy ===== *)
theory Ram_HBM
  imports Sniper_Prelude
begin

section \<open>The HBM standard of the DRAM simulator\<close>

text \<open>
  \<^verbatim>\<open>ramulator/HBM.h\<close> and \<^verbatim>\<open>ramulator/HBM.cc\<close>: the levels, commands and states of a high-bandwidth
  memory, its organisations and speeds, and the lookup tables that drive the DRAM tree of
  \<^verbatim>\<open>ramulator/RamDRAM.h\<close>: prerequisites of a command, row hits and open rows, state changes, and
  timing constraints. The node type of the tree is declared here because the tables are functions on
  nodes.

  A \<^verbatim>\<open>long\<close> or \<^verbatim>\<open>int\<close> of this component is an \<open>int\<close>: clocks stay below \<open>2\<^sup>6\<^sup>3\<close> for any run that a machine
  finishes. A \<^verbatim>\<open>ScalarStat\<close> is a \<^verbatim>\<open>double\<close> and is a \<open>real\<close>. A table entry that the source leaves
  empty (a null \<^verbatim>\<open>std::function\<close>) is \<open>None\<close>; a failed \<^verbatim>\<open>assert\<close> inside an entry is \<open>None\<close> as everywhere.
\<close>

subsection \<open>Levels, commands and states\<close>

datatype ram_level = Channel | Rank | Bank | Row | Column

datatype ram_command = ACT | PRE | PREA | RD | WR | RDA | WRA
  | REF | REFSB | PDE | PDX | SRE | SRX

datatype ram_state = Opened | Closed | PowerUp | ActPowerDown | PrePowerDown | SelfRefresh | State_MAX

datatype ram_org = HBM_1Gb | HBM_2Gb | HBM_4Gb

primrec lev :: "ram_level \<Rightarrow> int" where
  "lev Channel = 0"
| "lev Rank = 1"
| "lev Bank = 2"
| "lev Row = 3"
| "lev Column = 4"

fun scope :: "ram_command \<Rightarrow> ram_level" where
  "scope ACT = Row"
| "scope PRE = Bank"
| "scope PREA = Rank"
| "scope RD = Column"
| "scope WR = Column"
| "scope RDA = Column"
| "scope WRA = Column"
| "scope REF = Rank"
| "scope REFSB = Bank"
| "scope PDE = Rank"
| "scope PDX = Rank"
| "scope SRE = Rank"
| "scope SRX = Rank"

definition is_opening :: "ram_command \<Rightarrow> bool" where
  "is_opening cmd \<longleftrightarrow> cmd = ACT"

definition is_accessing :: "ram_command \<Rightarrow> bool" where
  "is_accessing cmd \<longleftrightarrow> cmd = RD \<or> cmd = WR \<or> cmd = RDA \<or> cmd = WRA"

definition is_closing :: "ram_command \<Rightarrow> bool" where
  "is_closing cmd \<longleftrightarrow> cmd = RDA \<or> cmd = WRA \<or> cmd = PRE \<or> cmd = PREA"

definition is_refreshing :: "ram_command \<Rightarrow> bool" where
  "is_refreshing cmd \<longleftrightarrow> cmd = REF \<or> cmd = REFSB"

primrec start_state :: "ram_level \<Rightarrow> ram_state" where
  "start_state Channel = State_MAX"
| "start_state Rank = PowerUp"
| "start_state Bank = Closed"
| "start_state Row = Closed"
| "start_state Column = State_MAX"

subsection \<open>Organisations and speeds\<close>

record hbm_speed =
  hs_rate :: int
  hs_freq :: real
  hs_tCK :: real
  hs_nBL :: int
  hs_nCCDS :: int
  hs_nCCDL :: int
  hs_nCL :: int
  hs_nRCDR :: int
  hs_nRCDW :: int
  hs_nRP :: int
  hs_nCWL :: int
  hs_nRAS :: int
  hs_nRC :: int
  hs_nRTP :: int
  hs_nWTRS :: int
  hs_nWTRL :: int
  hs_nWR :: int
  hs_nRRDS :: int
  hs_nRRDL :: int
  hs_nFAW :: int
  hs_nRFC :: int
  hs_nREFI :: int
  hs_nREFI1B :: int
  hs_nPD :: int
  hs_nXP :: int
  hs_nCKESR :: int
  hs_nXS :: int

text \<open>The entry of \<^verbatim>\<open>speed_table\<close>: it has one row, \<^verbatim>\<open>HBM_1Gbps\<close>.\<close>

definition hbm_speed_table :: hbm_speed where
  "hbm_speed_table = \<lparr>hs_rate = 1000, hs_freq = 500, hs_tCK = 2, hs_nBL = 2, hs_nCCDS = 2, hs_nCCDL = 3,
     hs_nCL = 7, hs_nRCDR = 7, hs_nRCDW = 6, hs_nRP = 7, hs_nCWL = 4, hs_nRAS = 17, hs_nRC = 24,
     hs_nRTP = 7, hs_nWTRS = 2, hs_nWTRL = 4, hs_nWR = 8, hs_nRRDS = 4, hs_nRRDL = 5, hs_nFAW = 20,
     hs_nRFC = 0, hs_nREFI = 3900, hs_nREFI1B = 0, hs_nPD = 5, hs_nXP = 5, hs_nCKESR = 5, hs_nXS = 0\<rparr>"

record org_entry =
  oe_size :: int
  oe_dq :: int
  oe_count :: "int list"

primrec org_table :: "ram_org \<Rightarrow> org_entry" where
  "org_table HBM_1Gb = \<lparr>oe_size = 2 ^ 10, oe_dq = 128, oe_count = [0, 0, 2, 2 ^ 13, 2 ^ (6 + 1)]\<rparr>"
| "org_table HBM_2Gb = \<lparr>oe_size = 2 * 2 ^ 10, oe_dq = 128, oe_count = [0, 0, 2, 2 ^ 14, 2 ^ (6 + 1)]\<rparr>"
| "org_table HBM_4Gb = \<lparr>oe_size = 4 * 2 ^ 10, oe_dq = 128, oe_count = [0, 0, 2, 2 ^ 11, 2 ^ (12 + 1)]\<rparr>"

record hbm =
  hb_org :: org_entry
  hb_speed :: hbm_speed
  hb_read_latency :: int
  hb_prefetch_size :: int
  hb_channel_width :: int

text \<open>
  \<^verbatim>\<open>init_speed\<close> fills in the density-dependent entries; \<^verbatim>\<open>HBM(org_str, speed_str)\<close> looks the names up
  with \<^verbatim>\<open>operator[]\<close> of a \<^verbatim>\<open>std::map\<close>, which gives the enumerator 0 for a name it does not know.
\<close>

definition init_speed :: "org_entry \<Rightarrow> hbm_speed \<Rightarrow> hbm_speed option" where
  "init_speed org s = do {
     guard (hs_rate s = 1000);
     (rfc, refi1b, xs) \<leftarrow>
       (let density = drop_bit 10 (oe_size org) in
        if density = 1 then Some (55, 64, 60)
        else if density = 2 then Some (80, 128, 85)
        else if density = 4 then Some (130, 256, 135)
        else None);
     Some (s\<lparr>hs_nRFC := rfc, hs_nREFI1B := refi1b, hs_nXS := xs\<rparr>)
   }"

definition org_map :: "string \<Rightarrow> ram_org" where
  "org_map name =
     (if name = ''HBM_1Gb'' then HBM_1Gb
      else if name = ''HBM_2Gb'' then HBM_2Gb
      else if name = ''HBM_4Gb'' then HBM_4Gb
      else HBM_1Gb)"

definition HBM :: "string \<Rightarrow> string \<Rightarrow> hbm option" where
  "HBM org_str speed_str = do {
     let org = org_table (org_map org_str);
     speed \<leftarrow> init_speed org hbm_speed_table;
     Some \<lparr>hb_org = org, hb_speed = speed,
       hb_read_latency = hs_nCL hbm_speed_table + hs_nBL hbm_speed_table,
       hb_prefetch_size = 4, hb_channel_width = 128\<rparr>
   }"

definition level_count :: "hbm \<Rightarrow> ram_level \<Rightarrow> int option" where
  "level_count spec l = ifetch (oe_count (hb_org spec)) (lev l)"

definition set_level_count :: "ram_level \<Rightarrow> int \<Rightarrow> hbm \<Rightarrow> hbm option" where
  "set_level_count l n spec = do {
     c \<leftarrow> istore (oe_count (hb_org spec)) (lev l) n;
     Some (spec\<lparr>hb_org := (hb_org spec)\<lparr>oe_count := c\<rparr>\<rparr>)
   }"

definition set_channel_number :: "int \<Rightarrow> hbm \<Rightarrow> hbm option" where
  "set_channel_number = set_level_count Channel"

definition set_rank_number :: "int \<Rightarrow> hbm \<Rightarrow> hbm option" where
  "set_rank_number = set_level_count Rank"

subsection \<open>Nodes of the DRAM tree\<close>

text \<open>
  The fields of \<^verbatim>\<open>RamDRAM\<close>, without the pointers to the shared tables and to the parent (which nothing
  reads). \<^verbatim>\<open>next[cmd]\<close> and \<^verbatim>\<open>prev[cmd]\<close>, arrays indexed by the 13 commands, are functions.
\<close>

record dram_node =
  dn_level :: ram_level
  dn_id :: int
  dn_state :: ram_state
  dn_row_state :: "(int, ram_state) omap"
  dn_cur_clk :: int
  dn_next :: "ram_command \<Rightarrow> int"
  dn_prev :: "ram_command \<Rightarrow> int list"
  dn_active_cycles :: real
  dn_refresh_cycles :: real
  dn_active_refresh_overlap_cycles :: real
  dn_serving_requests :: real
  dn_serving_reads :: real
  dn_serving_writes :: real
  dn_cur_serving_requests :: int
  dn_begin_of_serving :: int
  dn_end_of_serving :: int
  dn_begin_of_cur_reqcnt :: int
  dn_begin_of_refreshing :: int
  dn_end_of_refreshing :: int
  dn_refresh_intervals :: "(int \<times> int) list"

datatype ram_dram = Node (the_node: dram_node) (children: "ram_dram list")

abbreviation node_state :: "ram_dram \<Rightarrow> ram_state" where
  "node_state t \<equiv> dn_state (the_node t)"

abbreviation upd_node :: "(dram_node \<Rightarrow> dram_node) \<Rightarrow> ram_dram \<Rightarrow> ram_dram" where
  "upd_node f t \<equiv> Node (f (the_node t)) (children t)"

definition set_state :: "ram_state \<Rightarrow> ram_dram \<Rightarrow> ram_dram" where
  "set_state s t = upd_node (\<lambda>n. n\<lparr>dn_state := s\<rparr>) t"

definition close_bank :: "ram_dram \<Rightarrow> ram_dram" where
  "close_bank t = upd_node (\<lambda>n. n\<lparr>dn_state := Closed, dn_row_state := []\<rparr>) t"

definition ram_open_row :: "int \<Rightarrow> ram_dram \<Rightarrow> ram_dram" where
  "ram_open_row row t = upd_node (\<lambda>n. n\<lparr>dn_state := Opened, dn_row_state := omap_put row Opened (dn_row_state n)\<rparr>) t"

subsection \<open>Prerequisites\<close>

text \<open>
  An entry maps a node, the command and the child index to the command that has to come first;
  \<open>Some None\<close> is \<^verbatim>\<open>Command::MAX\<close>, no prerequisite at this level. The entries for whole ranks walk over
  \<^verbatim>\<open>bg->children\<close> of the children, a level that a tree without bank groups does not have.
\<close>

type_synonym prereq_fn = "ram_dram \<Rightarrow> ram_command \<Rightarrow> int \<Rightarrow> ram_command option option"

definition grandchildren :: "ram_dram \<Rightarrow> ram_dram list" where
  "grandchildren t = concat (map children (children t))"

definition rank_access_prereq :: prereq_fn where
  "rank_access_prereq t cmd i = (case node_state t of
     PowerUp \<Rightarrow> Some None
   | ActPowerDown \<Rightarrow> Some (Some PDX)
   | PrePowerDown \<Rightarrow> Some (Some PDX)
   | SelfRefresh \<Rightarrow> Some (Some SRX)
   | _ \<Rightarrow> None)"

definition bank_access_prereq :: prereq_fn where
  "bank_access_prereq t cmd i = (case node_state t of
     Closed \<Rightarrow> Some (Some ACT)
   | Opened \<Rightarrow> Some (Some (if map_of (dn_row_state (the_node t)) i \<noteq> None then cmd else PRE))
   | _ \<Rightarrow> None)"

definition rank_ref_prereq :: prereq_fn where
  "rank_ref_prereq t cmd i =
     Some (Some (if \<exists>b\<in>set (grandchildren t). node_state b \<noteq> Closed then PREA else REF))"

definition bank_refsb_prereq :: prereq_fn where
  "bank_refsb_prereq t cmd i = Some (Some (if node_state t = Closed then REFSB else PRE))"

definition rank_pde_prereq :: prereq_fn where
  "rank_pde_prereq t cmd i = (case node_state t of
     PowerUp \<Rightarrow> Some (Some PDE)
   | ActPowerDown \<Rightarrow> Some (Some PDE)
   | PrePowerDown \<Rightarrow> Some (Some PDE)
   | SelfRefresh \<Rightarrow> Some (Some SRX)
   | _ \<Rightarrow> None)"

definition rank_sre_prereq :: prereq_fn where
  "rank_sre_prereq t cmd i = (case node_state t of
     PowerUp \<Rightarrow> Some (Some SRE)
   | ActPowerDown \<Rightarrow> Some (Some PDX)
   | PrePowerDown \<Rightarrow> Some (Some PDX)
   | SelfRefresh \<Rightarrow> Some (Some SRE)
   | _ \<Rightarrow> None)"

fun prereq :: "ram_level \<Rightarrow> ram_command \<Rightarrow> prereq_fn option" where
  "prereq Rank RD = Some rank_access_prereq"
| "prereq Bank RD = Some bank_access_prereq"
| "prereq Rank WR = Some rank_access_prereq"
| "prereq Bank WR = Some bank_access_prereq"
| "prereq Rank REF = Some rank_ref_prereq"
| "prereq Bank REFSB = Some bank_refsb_prereq"
| "prereq Rank PDE = Some rank_pde_prereq"
| "prereq Rank SRE = Some rank_sre_prereq"
| "prereq _ _ = None"

subsection \<open>Row hits and open rows\<close>

type_synonym row_fn = "ram_dram \<Rightarrow> int \<Rightarrow> bool option"

definition bank_rowhit :: row_fn where
  "bank_rowhit t i = (case node_state t of
     Closed \<Rightarrow> Some False
   | Opened \<Rightarrow> Some (map_of (dn_row_state (the_node t)) i \<noteq> None)
   | _ \<Rightarrow> None)"

definition bank_rowopen :: row_fn where
  "bank_rowopen t i = (case node_state t of
     Closed \<Rightarrow> Some False
   | Opened \<Rightarrow> Some True
   | _ \<Rightarrow> None)"

definition rowhit :: "ram_level \<Rightarrow> ram_command \<Rightarrow> row_fn option" where
  "rowhit l cmd = (if l = Bank \<and> (cmd = RD \<or> cmd = WR) then Some bank_rowhit else None)"

definition rowopen :: "ram_level \<Rightarrow> ram_command \<Rightarrow> row_fn option" where
  "rowopen l cmd = (if l = Bank \<and> (cmd = RD \<or> cmd = WR) then Some bank_rowopen else None)"

subsection \<open>State changes\<close>

type_synonym lambda_fn = "ram_dram \<Rightarrow> int \<Rightarrow> ram_dram"

definition rank_prea :: lambda_fn where
  "rank_prea t i = Node (the_node t) (map (\<lambda>bg. Node (the_node bg) (map close_bank (children bg))) (children t))"

definition rank_pde :: lambda_fn where
  "rank_pde t i = set_state (if \<exists>b\<in>set (grandchildren t). node_state b \<noteq> Closed then ActPowerDown else PrePowerDown) t"

fun lambda_entry :: "ram_level \<Rightarrow> ram_command \<Rightarrow> lambda_fn option" where
  "lambda_entry Bank ACT = Some (\<lambda>t i. ram_open_row i t)"
| "lambda_entry Bank PRE = Some (\<lambda>t i. close_bank t)"
| "lambda_entry Rank PREA = Some rank_prea"
| "lambda_entry Rank REF = Some (\<lambda>t i. t)"
| "lambda_entry Bank RD = Some (\<lambda>t i. t)"
| "lambda_entry Bank WR = Some (\<lambda>t i. t)"
| "lambda_entry Bank RDA = Some (\<lambda>t i. close_bank t)"
| "lambda_entry Bank WRA = Some (\<lambda>t i. close_bank t)"
| "lambda_entry Rank PDE = Some rank_pde"
| "lambda_entry Rank PDX = Some (\<lambda>t i. set_state PowerUp t)"
| "lambda_entry Rank SRE = Some (\<lambda>t i. set_state SelfRefresh t)"
| "lambda_entry Rank SRX = Some (\<lambda>t i. set_state PowerUp t)"
| "lambda_entry _ _ = None"

subsection \<open>Timing constraints\<close>

record timing_entry =
  te_cmd :: ram_command
  te_dist :: int
  te_val :: int
  te_sibling :: bool

text \<open>
  The \<^verbatim>\<open>push_back\<close> calls of \<^verbatim>\<open>init_timing\<close>, in order, as triples of the issued command, the constrained
  command and the delay. The initialisers give no \<^verbatim>\<open>sibling\<close>, so it is false; only \<open>ACT\<close> to \<open>ACT\<close> with
  \<^verbatim>\<open>nFAW\<close> has a distance other than 1. The bank-group part pushes into the rank table.
\<close>

definition push :: "ram_command \<Rightarrow> ram_command \<Rightarrow> int \<Rightarrow> ram_command \<times> timing_entry" where
  "push cmd cmd' v = (cmd, \<lparr>te_cmd = cmd', te_dist = 1, te_val = v, te_sibling = False\<rparr>)"

definition channel_pushes :: "hbm_speed \<Rightarrow> (ram_command \<times> timing_entry) list" where
  "channel_pushes s =
    [push RD RD (hs_nBL s), push RD RDA (hs_nBL s), push RDA RD (hs_nBL s), push RDA RDA (hs_nBL s),
     push WR WR (hs_nBL s), push WR WRA (hs_nBL s), push WRA WR (hs_nBL s), push WRA WRA (hs_nBL s)]"

definition rank_pushes :: "hbm_speed \<Rightarrow> (ram_command \<times> timing_entry) list" where
  "rank_pushes s =
    (let ccds = hs_nCCDS s; rtw = hs_nCL s + hs_nCCDS s + 2 - hs_nCWL s;
         wtr = hs_nCWL s + hs_nBL s + hs_nWTRS s; wrp = hs_nCWL s + hs_nBL s + hs_nWR s in
    [push RD RD ccds, push RD RDA ccds, push RDA RD ccds, push RDA RDA ccds,
     push WR WR ccds, push WR WRA ccds, push WRA WR ccds, push WRA WRA ccds,
     push RD WR rtw, push RD WRA rtw, push RDA WR rtw, push RDA WRA rtw,
     push WR RD wtr, push WR RDA wtr, push WRA RD wtr, push WRA RDA wtr,
     push RD PREA (hs_nRTP s), push WR PREA wrp,
     push RD PDE (hs_nCL s + hs_nBL s + 1), push RDA PDE (hs_nCL s + hs_nBL s + 1),
     push WR PDE wrp, push WRA PDE (wrp + 1),
     push PDX RD (hs_nXP s), push PDX RDA (hs_nXP s), push PDX WR (hs_nXP s), push PDX WRA (hs_nXP s),
     push ACT ACT (hs_nRRDS s),
     (ACT, \<lparr>te_cmd = ACT, te_dist = 4, te_val = hs_nFAW s, te_sibling = False\<rparr>),
     push ACT PREA (hs_nRAS s), push PREA ACT (hs_nRP s),
     push PRE REF (hs_nRP s), push PREA REF (hs_nRP s), push REF ACT (hs_nRFC s),
     push ACT PDE 1, push PDX ACT (hs_nXP s), push PDX PRE (hs_nXP s), push PDX PREA (hs_nXP s),
     push PRE SRE (hs_nRP s), push PREA SRE (hs_nRP s), push SRX ACT (hs_nXS s),
     push REF REF (hs_nRFC s),
     push REF PDE 1, push PDX REF (hs_nXP s),
     push SRX REF (hs_nXS s),
     push PDE PDX (hs_nPD s), push PDX PDE (hs_nXP s),
     push PDX SRE (hs_nXP s), push SRX PDE (hs_nXS s),
     push SRE SRX (hs_nCKESR s), push SRX SRE (hs_nXS s),
     push ACT ACT (hs_nRRDL s)])"

definition bank_pushes :: "hbm_speed \<Rightarrow> (ram_command \<times> timing_entry) list" where
  "bank_pushes s =
    (let wrp = hs_nCWL s + hs_nBL s + hs_nWR s in
    [push ACT RD (hs_nRCDR s), push ACT RDA (hs_nRCDR s), push ACT WR (hs_nRCDW s), push ACT WRA (hs_nRCDW s),
     push RD PRE (hs_nRTP s), push WR PRE wrp,
     push RDA ACT (hs_nRTP s + hs_nRP s), push WRA ACT (wrp + hs_nRP s),
     push ACT ACT (hs_nRC s), push ACT PRE (hs_nRAS s), push PRE ACT (hs_nRP s),
     push PRE REFSB (hs_nRP s), push REFSB REFSB (hs_nRFC s), push REFSB ACT (hs_nRFC s)])"

definition timing :: "hbm_speed \<Rightarrow> ram_level \<Rightarrow> ram_command \<Rightarrow> timing_entry list" where
  "timing s l cmd = map snd (filter (\<lambda>(c, t). c = cmd) (case l of
     Channel \<Rightarrow> channel_pushes s
   | Rank \<Rightarrow> rank_pushes s
   | Bank \<Rightarrow> bank_pushes s
   | Row \<Rightarrow> []
   | Column \<Rightarrow> []))"

end
