(* ===== verification/Ram_DRAM.thy ===== *)
theory Ram_DRAM
  imports Ram_HBM
begin

section \<open>The DRAM tree\<close>

text \<open>
  \<^verbatim>\<open>ramulator/RamDRAM.cc\<close>: a channel is a tree of ranks and banks; rows are not nodes, their bank
  keeps their state. Commands are decoded, checked against the timing constraints and applied by
  walking down the path that the address vector names. An address vector is a list of \<^verbatim>\<open>int\<close>;
  reading it, or the children, out of range is undefined. \<^verbatim>\<open>regStats\<close> and \<^verbatim>\<open>finish\<close> name statistics and
  compute averages for a report that nothing prints and are left out.
\<close>

subsection \<open>Construction\<close>

fun next_level :: "ram_level \<Rightarrow> ram_level option" where
  "next_level Channel = Some Rank"
| "next_level Rank = Some Bank"
| "next_level Bank = Some Row"
| "next_level Row = Some Column"
| "next_level Column = None"

definition history_length :: "timing_entry list \<Rightarrow> nat" where
  "history_length ts = nat (foldl (\<lambda>dist t. max dist (te_dist t)) 0 ts)"

definition new_node :: "hbm \<Rightarrow> ram_level \<Rightarrow> int \<Rightarrow> dram_node" where
  "new_node spec l i = \<lparr>dn_level = l, dn_id = i, dn_state = start_state l, dn_row_state = [],
     dn_cur_clk = 0, dn_next = (\<lambda>_. - 1),
     dn_prev = (\<lambda>cmd. replicate (history_length (timing (hb_speed spec) l cmd)) (- 1)),
     dn_active_cycles = 0, dn_refresh_cycles = 0, dn_active_refresh_overlap_cycles = 0,
     dn_serving_requests = 0, dn_serving_reads = 0, dn_serving_writes = 0,
     dn_cur_serving_requests = 0, dn_begin_of_serving = - 1, dn_end_of_serving = - 1,
     dn_begin_of_cur_reqcnt = - 1, dn_begin_of_refreshing = - 1, dn_end_of_refreshing = - 1,
     dn_refresh_intervals = []\<rparr>"

text \<open>The constructor, with the \<^verbatim>\<open>id\<close> that its caller stores into the new node.\<close>

function RamDRAM :: "hbm \<Rightarrow> ram_level \<Rightarrow> int \<Rightarrow> ram_dram option" where
  "RamDRAM spec l i =
     (case next_level l of
        None \<Rightarrow> None
      | Some Row \<Rightarrow> Some (Node (new_node spec l i) [])
      | Some child_level \<Rightarrow> do {
          child_max \<leftarrow> level_count spec child_level;
          if child_max = 0 then Some (Node (new_node spec l i) [])
          else do {
            cs \<leftarrow> those (map (RamDRAM spec child_level) [0..child_max - 1]);
            Some (Node (new_node spec l i) cs)
          }
        })"
  by pat_completeness auto
termination
  by (relation "measure (\<lambda>(spec, l, i). nat (4 - lev l))") (auto elim!: next_level.elims)

declare RamDRAM.simps [simp del]

definition insert_child :: "ram_dram \<Rightarrow> ram_dram \<Rightarrow> ram_dram" where
  "insert_child child t =
     Node (the_node t) (children t @ [upd_node (\<lambda>n. n\<lparr>dn_id := int (length (children t))\<rparr>) child])"

subsection \<open>Queries\<close>

lemma ifetch_size: "ifetch cs i = Some c \<Longrightarrow> size c < Suc (size_list size cs)"
  using size_list_estimation'[of c cs "size c" size] by (auto simp: ifetch_def less_Suc_eq_le split: if_splits)

text \<open>The address entry of the child level, \<^verbatim>\<open>addr[int(level)+1]\<close>.\<close>

definition child_index :: "int list \<Rightarrow> dram_node \<Rightarrow> int option" where
  "child_index addr n = ifetch addr (lev (dn_level n) + 1)"

function decode :: "ram_command \<Rightarrow> int list \<Rightarrow> ram_dram \<Rightarrow> ram_command option" where
  "decode cmd addr (Node n cs) = do {
     child_id \<leftarrow> child_index addr n;
     pre \<leftarrow> (case prereq (dn_level n) cmd of None \<Rightarrow> Some None | Some f \<Rightarrow> f (Node n cs) cmd child_id);
     case pre of
       Some prereq_cmd \<Rightarrow> Some prereq_cmd
     | None \<Rightarrow>
         if child_id < 0 \<or> cs = [] then Some cmd
         else ifetch cs child_id \<bind> decode cmd addr
   }"
  by pat_completeness auto
termination
  by (relation "measure (\<lambda>(cmd, addr, t). size t)") (auto simp: ifetch_size)

function check :: "ram_command \<Rightarrow> int list \<Rightarrow> int \<Rightarrow> ram_dram \<Rightarrow> bool option" where
  "check cmd addr clk (Node n cs) =
     (if dn_next n cmd \<noteq> - 1 \<and> clk < dn_next n cmd then Some False
      else do {
        child_id \<leftarrow> child_index addr n;
        if child_id < 0 \<or> dn_level n = scope cmd \<or> cs = [] then Some True
        else ifetch cs child_id \<bind> check cmd addr clk
      })"
  by pat_completeness auto
termination
  by (relation "measure (\<lambda>(cmd, addr, clk, t). size t)") (auto simp: ifetch_size)

text \<open>\<^verbatim>\<open>check_row_hit\<close> and \<^verbatim>\<open>check_row_open\<close> are the same walk over two tables.\<close>

function row_query :: "(ram_level \<Rightarrow> ram_command \<Rightarrow> row_fn option) \<Rightarrow> ram_command \<Rightarrow> int list \<Rightarrow> ram_dram \<Rightarrow> bool option" where
  "row_query tab cmd addr (Node n cs) = do {
     child_id \<leftarrow> child_index addr n;
     case tab (dn_level n) cmd of
       Some f \<Rightarrow> f (Node n cs) child_id
     | None \<Rightarrow>
         if child_id < 0 \<or> cs = [] then Some False
         else ifetch cs child_id \<bind> row_query tab cmd addr
   }"
  by pat_completeness auto
termination
  by (relation "measure (\<lambda>(tab, cmd, addr, t). size t)") (auto simp: ifetch_size)

definition check_row_hit :: "ram_command \<Rightarrow> int list \<Rightarrow> ram_dram \<Rightarrow> bool option" where
  "check_row_hit = row_query rowhit"

definition check_row_open :: "ram_command \<Rightarrow> int list \<Rightarrow> ram_dram \<Rightarrow> bool option" where
  "check_row_open = row_query rowopen"

text \<open>The loop of \<^verbatim>\<open>get_next\<close>, from level number \<open>l\<close> of the node at hand.\<close>

function get_next_loop :: "ram_command \<Rightarrow> int list \<Rightarrow> int \<Rightarrow> int \<Rightarrow> ram_dram \<Rightarrow> int option" where
  "get_next_loop cmd addr l next_clk (Node n cs) =
     (if l < lev (scope cmd) \<and> cs \<noteq> [] then do {
        child_id \<leftarrow> ifetch addr (l + 1);
        if child_id \<ge> 0 then do {
          child \<leftarrow> ifetch cs child_id;
          get_next_loop cmd addr (l + 1) (max next_clk (dn_next (the_node child) cmd)) child
        }
        else Some next_clk
      }
      else Some next_clk)"
  by pat_completeness auto
termination
  by (relation "measure (\<lambda>(cmd, addr, l, next_clk, t). size t)") (auto simp: ifetch_size)

definition get_next :: "ram_command \<Rightarrow> int list \<Rightarrow> ram_dram \<Rightarrow> int option" where
  "get_next cmd addr t =
     get_next_loop cmd addr (lev (dn_level (the_node t))) (max (dn_cur_clk (the_node t)) (dn_next (the_node t) cmd)) t"

subsection \<open>Updates\<close>

text \<open>
  \<^verbatim>\<open>update_state\<close>. The recursion is on the height of the tree, which no entry of the table changes.
\<close>

primrec height :: "ram_dram \<Rightarrow> nat" where
  "height (Node n cs) = Suc (foldr max (map height cs) 0)"

definition apply_lambda :: "ram_command \<Rightarrow> int \<Rightarrow> ram_dram \<Rightarrow> ram_dram" where
  "apply_lambda cmd child_id t =
     (case lambda_entry (dn_level (the_node t)) cmd of None \<Rightarrow> t | Some f \<Rightarrow> f t child_id)"

lemma height_upd_node [simp]: "height (upd_node f t) = height t"
  by (cases t) simp

lemma height_apply_lambda [simp]: "height (apply_lambda cmd i t) = height t"
proof -
  have up: "Suc (foldr max (map height (children t)) 0) = height t" for t by (cases t) simp
  have "height (rank_prea t i) = height t"
    by (cases t) (simp add: rank_prea_def close_bank_def comp_def up)
  then show ?thesis
    by (auto simp: apply_lambda_def set_state_def close_bank_def ram_open_row_def rank_pde_def up elim!: lambda_entry.elims
        split: option.splits)
qed

lemma height_child: "ifetch (children t) i = Some c \<Longrightarrow> height c < height t"
proof (cases t)
  case (Node n cs)
  have "c \<in> set cs \<Longrightarrow> height c \<le> foldr max (map height cs) 0"
    by (induction cs) auto
  then show "ifetch (children t) i = Some c \<Longrightarrow> height c < height t"
    by (auto simp: Node ifetch_def less_Suc_eq_le split: if_splits)
qed

function update_state :: "ram_command \<Rightarrow> int list \<Rightarrow> ram_dram \<Rightarrow> ram_dram option" where
  "update_state cmd addr t = do {
     child_id \<leftarrow> child_index addr (the_node t);
     let t = apply_lambda cmd child_id t;
     if dn_level (the_node t) = scope cmd \<or> children t = [] then Some t
     else do {
       child \<leftarrow> ifetch (children t) child_id;
       child \<leftarrow> update_state cmd addr child;
       cs \<leftarrow> istore (children t) child_id child;
       Some (Node (the_node t) cs)
     }
   }"
  by pat_completeness auto
termination
proof (relation "measure (\<lambda>(cmd, addr, t). height t)")
  fix cmd addr t x y z
  assume "y = apply_lambda cmd x t" "ifetch (children y) x = Some z"
  then show "((cmd, addr, z), cmd, addr, t) \<in> measure (\<lambda>(cmd, addr, t). height t)"
    using height_child[of y x z] by simp
qed simp

declare update_state.simps [simp del]

text \<open>
  \<^verbatim>\<open>update_timing\<close>. One timing parameter of the target node: the earliest clock of the constrained
  command moves, and a refresh that delays activation is recorded for the statistics.
\<close>

definition sibling_timing :: "int \<Rightarrow> timing_entry \<Rightarrow> dram_node \<Rightarrow> dram_node option" where
  "sibling_timing clk t n =
     (if \<not> te_sibling t then Some n
      else do {
        guard (te_dist t = 1);
        Some (n\<lparr>dn_next := (dn_next n)(te_cmd t := max (dn_next n (te_cmd t)) (clk + te_val t))\<rparr>)
      })"

definition target_timing :: "ram_command \<Rightarrow> int \<Rightarrow> timing_entry \<Rightarrow> dram_node \<Rightarrow> dram_node option" where
  "target_timing cmd clk t n =
     (if te_sibling t then Some n
      else do {
        past \<leftarrow> ifetch (dn_prev n cmd) (te_dist t - 1);
        if past < 0 then Some n
        else do {
          let n = n\<lparr>dn_next := (dn_next n)(te_cmd t := max (dn_next n (te_cmd t)) (past + te_val t))\<rparr>;
          if is_refreshing cmd \<and> is_opening (te_cmd t) then do {
            guard (past = clk);
            let n = n\<lparr>dn_begin_of_refreshing := clk,
                      dn_end_of_refreshing := max (dn_end_of_refreshing n) (dn_next n (te_cmd t))\<rparr>;
            let n = n\<lparr>dn_refresh_cycles := dn_refresh_cycles n + of_int (dn_end_of_refreshing n - clk)\<rparr>;
            Some (if dn_cur_serving_requests n > 0
                  then n\<lparr>dn_refresh_intervals := dn_refresh_intervals n @ [(dn_begin_of_refreshing n, dn_end_of_refreshing n)]\<rparr>
                  else n)
          }
          else Some n
        }
      })"

definition push_history :: "ram_command \<Rightarrow> int \<Rightarrow> dram_node \<Rightarrow> dram_node" where
  "push_history cmd clk n =
     (if dn_prev n cmd = [] then n
      else n\<lparr>dn_prev := (dn_prev n)(cmd := clk # butlast (dn_prev n cmd))\<rparr>)"

fun update_timing :: "hbm_speed \<Rightarrow> ram_command \<Rightarrow> int list \<Rightarrow> int \<Rightarrow> ram_dram \<Rightarrow> ram_dram option" where
  "update_timing s cmd addr clk (Node n cs) = do {
     target \<leftarrow> ifetch addr (lev (dn_level n));
     if dn_id n \<noteq> target then do {
       n \<leftarrow> foldM (sibling_timing clk) (timing s (dn_level n) cmd) n;
       Some (Node n cs)
     }
     else do {
       n \<leftarrow> foldM (target_timing cmd clk) (timing s (dn_level n) cmd) (push_history cmd clk n);
       cs \<leftarrow> those (map (update_timing s cmd addr clk) cs);
       Some (Node n cs)
     }
   }"

text \<open>\<^verbatim>\<open>update\<close> is called on the channel.\<close>

definition dram_update :: "hbm_speed \<Rightarrow> ram_command \<Rightarrow> int list \<Rightarrow> int \<Rightarrow> ram_dram \<Rightarrow> ram_dram option" where
  "dram_update s cmd addr clk t = do {
     let t = upd_node (\<lambda>n. n\<lparr>dn_cur_clk := clk\<rparr>) t;
     t \<leftarrow> update_state cmd addr t;
     t \<leftarrow> update_timing s cmd addr clk t;
     let t = (if cmd = RD \<or> cmd = RDA then upd_node (\<lambda>n. n\<lparr>dn_serving_reads := dn_serving_reads n + 1\<rparr>) t else t);
     Some (if cmd = WR \<or> cmd = WRA then upd_node (\<lambda>n. n\<lparr>dn_serving_writes := dn_serving_writes n + 1\<rparr>) t else t)
   }"

text \<open>\<^verbatim>\<open>update_serving_requests\<close>, its part for one node and the walk to the bank.\<close>

definition serve_node :: "int \<Rightarrow> int \<Rightarrow> dram_node \<Rightarrow> dram_node option" where
  "serve_node delta clk n = do {
     guard (delta = 1 \<or> delta = - 1);
     let n = (if dn_begin_of_cur_reqcnt n \<noteq> - 1 \<and> dn_cur_serving_requests n > 0
              then n\<lparr>dn_serving_requests := dn_serving_requests n +
                       of_int ((clk - dn_begin_of_cur_reqcnt n) * dn_cur_serving_requests n),
                     dn_active_cycles := dn_active_cycles n + of_int (clk - dn_begin_of_cur_reqcnt n)\<rparr>
              else n);
     let n = n\<lparr>dn_begin_of_cur_reqcnt := clk, dn_cur_serving_requests := dn_cur_serving_requests n + delta\<rparr>;
     guard (dn_cur_serving_requests n \<ge> 0);
     if delta = 1 \<and> dn_cur_serving_requests n = 1 then do {
       let n = n\<lparr>dn_begin_of_serving := clk\<rparr>;
       Some (if dn_end_of_refreshing n > dn_begin_of_serving n
             then n\<lparr>dn_active_refresh_overlap_cycles := dn_active_refresh_overlap_cycles n +
                      of_int (dn_end_of_refreshing n - dn_begin_of_serving n)\<rparr>
             else n)
     }
     else if dn_cur_serving_requests n = 0 then do {
       guard (dn_begin_of_serving n \<noteq> - 1);
       guard (delta = - 1);
       let n = n\<lparr>dn_active_cycles := dn_active_cycles n + of_int (clk - dn_begin_of_cur_reqcnt n),
                 dn_end_of_serving := clk\<rparr>;
       let overlap = foldl (\<lambda>c (a, b). c + of_int (min (dn_end_of_serving n) b - a))
                       (dn_active_refresh_overlap_cycles n) (dn_refresh_intervals n);
       Some (n\<lparr>dn_active_refresh_overlap_cycles := overlap, dn_refresh_intervals := []\<rparr>)
     }
     else Some n
   }"

function update_serving_requests :: "int list \<Rightarrow> int \<Rightarrow> int \<Rightarrow> ram_dram \<Rightarrow> ram_dram option" where
  "update_serving_requests addr delta clk (Node n cs) = do {
     here \<leftarrow> ifetch addr (lev (dn_level n));
     guard (dn_id n = here);
     n' \<leftarrow> serve_node delta clk n;
     child_id \<leftarrow> child_index addr n;
     if child_id < 0 \<or> cs = [] \<or> lev (dn_level n) > lev Bank then Some (Node n' cs)
     else do {
       child \<leftarrow> ifetch cs child_id;
       child \<leftarrow> update_serving_requests addr delta clk child;
       cs \<leftarrow> istore cs child_id child;
       Some (Node n' cs)
     }
   }"
  by pat_completeness auto
termination
  by (relation "measure (\<lambda>(addr, delta, clk, t). size t)") (auto simp: ifetch_size)

end
