(* ===== verification/Ram_Controller.thy ===== *)
theory Ram_Controller
  imports Ram_DRAM "HOL-Library.List_Lexorder"
begin

section \<open>The channel controller of the DRAM simulator\<close>

text \<open>
  \<^verbatim>\<open>RamRequest.h\<close>, \<^verbatim>\<open>RamScheduler.h/.cc\<close>, \<^verbatim>\<open>RamRefresh.h/.cc\<close> and \<^verbatim>\<open>RamController.h/.cc\<close> of
  \<^verbatim>\<open>ramulator/\<close>: requests, the row table, the scheduler and the row policy, the refresh generator, and
  the controller whose \<^verbatim>\<open>tick\<close> serves one command per clock. These classes point at each other, so
  their operations are functions on one record, the controller's. An iterator into a request list is an
  index; \<^verbatim>\<open>q.end()\<close> is \<open>None\<close>. The callback of a completed read belongs to the client: \<open>ctrl_tick\<close>
  returns the request it is called with.
\<close>

subsection \<open>Requests\<close>

datatype ram_req_type = READ | WRITE | REFRESH | POWERDOWN | SELFREFRESH | EXTENSION

record ram_request =
  rq_is_first_command :: bool
  rq_addr :: int
  rq_addr_vec :: "int list"
  rq_coreid :: int
  rq_type :: ram_req_type
  rq_arrive :: int
  rq_depart :: int

text \<open>
  The constructors; \<^verbatim>\<open>depart\<close> (and \<^verbatim>\<open>addr\<close> of a request made from an address vector) is not initialised
  and is not read before it is set.
\<close>

definition RamRequest :: "int \<Rightarrow> ram_req_type \<Rightarrow> int \<Rightarrow> ram_request" where
  "RamRequest addr ty coreid = \<lparr>rq_is_first_command = True, rq_addr = addr, rq_addr_vec = [], rq_coreid = coreid,
     rq_type = ty, rq_arrive = - 1, rq_depart = 0\<rparr>"

definition RamRequest_vec :: "int list \<Rightarrow> ram_req_type \<Rightarrow> int \<Rightarrow> ram_request" where
  "RamRequest_vec addr_vec ty coreid = \<lparr>rq_is_first_command = True, rq_addr = 0, rq_addr_vec = addr_vec,
     rq_coreid = coreid, rq_type = ty, rq_arrive = - 1, rq_depart = 0\<rparr>"

text \<open>\<^verbatim>\<open>translate\<close> has five initialisers for six types: the last entry is the enumerator 0.\<close>

primrec translate :: "ram_req_type \<Rightarrow> ram_command" where
  "translate READ = RD"
| "translate WRITE = WR"
| "translate REFRESH = REF"
| "translate POWERDOWN = PDE"
| "translate SELFREFRESH = SRE"
| "translate EXTENSION = ACT"

subsection \<open>The controller's state\<close>

record row_entry =
  re_row :: int
  re_hits :: int
  re_timestamp :: int

type_synonym row_table = "(int list, row_entry) omap"

datatype sched_type = FCFS | FRFCFS | FRFCFS_Cap | FRFCFS_PriorHit

datatype policy_type = PolicyClosed | PolicyOpened | PolicyTimeout

record refresh =
  rf_clk :: int
  rf_refreshed :: int
  rf_bank_ref_interval :: "int list"
  rf_bank_refreshed :: "int list"
  rf_bank_ref_counters :: "int list"
  rf_max_rank_count :: int
  rf_max_bank_count :: int
  rf_n_banks :: int

record ctrl_stats =
  cs_read_transaction_bytes :: real
  cs_write_transaction_bytes :: real
  cs_row_hits :: real
  cs_row_misses :: real
  cs_row_conflicts :: real
  cs_read_row_hits :: "real list"
  cs_read_row_misses :: "real list"
  cs_read_row_conflicts :: "real list"
  cs_write_row_hits :: "real list"
  cs_write_row_misses :: "real list"
  cs_write_row_conflicts :: "real list"
  cs_bank_reads :: "real list"
  cs_bank_writes :: "real list"
  cs_bank_read_row_hits :: "real list"
  cs_bank_read_row_misses :: "real list"
  cs_bank_read_row_conflicts :: "real list"
  cs_bank_write_row_hits :: "real list"
  cs_bank_write_row_misses :: "real list"
  cs_bank_write_row_conflicts :: "real list"
  cs_read_latency_sum :: real
  cs_req_queue_length_sum :: real
  cs_read_req_queue_length_sum :: real
  cs_write_req_queue_length_sum :: real
  cs_req_queue_length_avg :: real

record ram_ctrl =
  rc_spec :: hbm
  rc_clk :: int
  rc_channel :: ram_dram
  rc_sched_type :: sched_type
  rc_cap :: int
  rc_policy_type :: policy_type
  rc_timeout :: int
  rc_rowtable :: row_table
  rc_refresh :: refresh
  rc_readq :: "ram_request list"
  rc_writeq :: "ram_request list"
  rc_otherq :: "ram_request list"
  rc_pending :: "ram_request list"
  rc_write_mode :: bool
  rc_record_cmd_trace :: bool
  rc_cmd_traces :: "(int \<times> ram_command \<times> int option) list list"
  rc_stats :: ctrl_stats

text \<open>\<^verbatim>\<open>Queue::max\<close>.\<close>

definition queue_max :: nat where
  "queue_max = 32"

datatype queue_id = ReadQ | WriteQ | OtherQ

fun the_queue :: "queue_id \<Rightarrow> ram_ctrl \<Rightarrow> ram_request list" where
  "the_queue ReadQ c = rc_readq c"
| "the_queue WriteQ c = rc_writeq c"
| "the_queue OtherQ c = rc_otherq c"

fun put_queue :: "queue_id \<Rightarrow> ram_request list \<Rightarrow> ram_ctrl \<Rightarrow> ram_ctrl" where
  "put_queue ReadQ q c = c\<lparr>rc_readq := q\<rparr>"
| "put_queue WriteQ q c = c\<lparr>rc_writeq := q\<rparr>"
| "put_queue OtherQ q c = c\<lparr>rc_otherq := q\<rparr>"

fun get_queue :: "ram_req_type \<Rightarrow> queue_id" where
  "get_queue READ = ReadQ"
| "get_queue WRITE = WriteQ"
| "get_queue _ = OtherQ"

definition enqueue :: "ram_request \<Rightarrow> ram_ctrl \<Rightarrow> bool \<times> ram_ctrl" where
  "enqueue req c =
     (let k = get_queue (rq_type req); q = the_queue k c in
      if length q = queue_max then (False, c)
      else
        let req = req\<lparr>rq_arrive := rc_clk c\<rparr>; c = put_queue k (q @ [req]) c in
        if rq_type req = READ \<and> (\<exists>wreq\<in>set (rc_writeq c). rq_addr req = rq_addr wreq)
        then (True, c\<lparr>rc_pending := rc_pending c @ [req\<lparr>rq_depart := rc_clk c + 1\<rparr>],
                      rc_readq := butlast (rc_readq c)\<rparr>)
        else (True, c))"

subsection \<open>Queries on the channel\<close>

definition get_first_cmd :: "ram_request \<Rightarrow> ram_ctrl \<Rightarrow> ram_command option" where
  "get_first_cmd req c = decode (translate (rq_type req)) (rq_addr_vec req) (rc_channel c)"

definition is_ready_cmd :: "ram_command \<Rightarrow> int list \<Rightarrow> ram_ctrl \<Rightarrow> bool option" where
  "is_ready_cmd cmd addr_vec c = check cmd addr_vec (rc_clk c) (rc_channel c)"

definition is_ready :: "ram_request \<Rightarrow> ram_ctrl \<Rightarrow> bool option" where
  "is_ready req c = do {
     cmd \<leftarrow> get_first_cmd req c;
     is_ready_cmd cmd (rq_addr_vec req) c
   }"

definition is_row_hit :: "ram_request \<Rightarrow> ram_ctrl \<Rightarrow> bool option" where
  "is_row_hit req c = check_row_hit (translate (rq_type req)) (rq_addr_vec req) (rc_channel c)"

definition is_row_open :: "ram_request \<Rightarrow> ram_ctrl \<Rightarrow> bool option" where
  "is_row_open req c = check_row_open (translate (rq_type req)) (rq_addr_vec req) (rc_channel c)"

definition is_active :: "ram_ctrl \<Rightarrow> bool" where
  "is_active c \<longleftrightarrow> dn_cur_serving_requests (the_node (rc_channel c)) > 0"

definition is_refresh :: "ram_ctrl \<Rightarrow> bool" where
  "is_refresh c \<longleftrightarrow> rc_clk c \<le> dn_end_of_refreshing (the_node (rc_channel c))"

subsection \<open>The row table\<close>

text \<open>\<^verbatim>\<open>std::equal\<close> of a range with the range of the same length that starts at an iterator.\<close>

fun range_equal :: "int list \<Rightarrow> int list \<Rightarrow> bool option" where
  "range_equal [] ys = Some True"
| "range_equal (x # xs) [] = None"
| "range_equal (x # xs) (y # ys) = (if x = y then range_equal xs ys else Some False)"

fun close_rows :: "int list \<Rightarrow> row_table \<Rightarrow> row_table option" where
  "close_rows prefix [] = Some []"
| "close_rows prefix ((k, e) # tab) = do {
     eq \<leftarrow> range_equal prefix k;
     tab \<leftarrow> close_rows prefix tab;
     Some (if eq then tab else (k, e) # tab)
   }"

definition rowtable_update :: "ram_command \<Rightarrow> int list \<Rightarrow> int \<Rightarrow> row_table \<Rightarrow> row_table option" where
  "rowtable_update cmd addr_vec clk tab = do {
     let rowgroup = take (nat (lev Row)) addr_vec;
     row \<leftarrow> ifetch addr_vec (lev Row);
     let tab = (if is_opening cmd
                then omap_insert rowgroup \<lparr>re_row = row, re_hits = 0, re_timestamp = clk\<rparr> tab else tab);
     tab \<leftarrow> (if is_accessing cmd then do {
                match \<leftarrow> map_of tab rowgroup;
                guard (re_row match = row);
                Some (omap_put rowgroup (match\<lparr>re_hits := re_hits match + 1, re_timestamp := clk\<rparr>) tab)
              }
              else Some tab);
     if is_closing cmd then do {
       guard (nat (lev (scope cmd)) + 1 \<le> length addr_vec);
       kept \<leftarrow> close_rows (take (nat (lev (scope cmd)) + 1) addr_vec) tab;
       guard (length tab - length kept > 0);
       Some kept
     }
     else Some tab
   }"

text \<open>
  \<^verbatim>\<open>get_hits\<close> looks the row group up and then reads it with \<^verbatim>\<open>operator[]\<close>, which inserts a zero entry when
  there is none.
\<close>

definition get_hits :: "int list \<Rightarrow> row_table \<Rightarrow> (int \<times> row_table) option" where
  "get_hits addr_vec tab = do {
     let rowgroup = take (nat (lev Row)) addr_vec;
     row \<leftarrow> ifetch addr_vec (lev Row);
     case map_of tab rowgroup of
       None \<Rightarrow> Some (0, omap_put rowgroup \<lparr>re_row = 0, re_hits = 0, re_timestamp = 0\<rparr> tab)
     | Some e \<Rightarrow> Some (if re_row e \<noteq> row then 0 else re_hits e, tab)
   }"

subsection \<open>The scheduler\<close>

definition older :: "ram_request list \<Rightarrow> nat \<Rightarrow> nat \<Rightarrow> nat" where
  "older q i j = (if rq_arrive (q ! i) \<le> rq_arrive (q ! j) then i else j)"

definition prefer_ready :: "bool \<Rightarrow> bool \<Rightarrow> ram_request list \<Rightarrow> nat \<Rightarrow> nat \<Rightarrow> nat" where
  "prefer_ready ready1 ready2 q i j = (if ready1 \<noteq> ready2 then (if ready1 then i else j) else older q i j)"

definition ready_hit :: "ram_request \<Rightarrow> ram_ctrl \<Rightarrow> bool option" where
  "ready_hit req c = do { r \<leftarrow> is_ready req c; if r then is_row_hit req c else Some False }"

definition ready_under_cap :: "ram_request \<Rightarrow> ram_ctrl \<Rightarrow> (bool \<times> ram_ctrl) option" where
  "ready_under_cap req c = do {
     (h, tab) \<leftarrow> get_hits (rq_addr_vec req) (rc_rowtable c);
     Some (h \<le> rc_cap c, c\<lparr>rc_rowtable := tab\<rparr>)
   }"

fun compare :: "sched_type \<Rightarrow> ram_request list \<Rightarrow> nat \<Rightarrow> nat \<times> ram_ctrl \<Rightarrow> (nat \<times> ram_ctrl) option" where
  "compare FCFS q j (i, c) = Some (older q i j, c)"
| "compare FRFCFS q j (i, c) = do {
     ready1 \<leftarrow> is_ready (q ! i) c;
     ready2 \<leftarrow> is_ready (q ! j) c;
     Some (prefer_ready ready1 ready2 q i j, c)
   }"
| "compare FRFCFS_Cap q j (i, c) = do {
     ready1 \<leftarrow> is_ready (q ! i) c;
     ready2 \<leftarrow> is_ready (q ! j) c;
     (ready1, c) \<leftarrow> (if ready1 then ready_under_cap (q ! i) c else Some (False, c));
     (ready2, c) \<leftarrow> (if ready2 then ready_under_cap (q ! j) c else Some (False, c));
     Some (prefer_ready ready1 ready2 q i j, c)
   }"
| "compare FRFCFS_PriorHit q j (i, c) = do {
     ready1 \<leftarrow> ready_hit (q ! i) c;
     ready2 \<leftarrow> ready_hit (q ! j) c;
     Some (prefer_ready ready1 ready2 q i j, c)
   }"

text \<open>The row groups of the requests that hit an open row, and whether closing the row of a request would lose one of them.\<close>

fun hit_rowgroups :: "ram_request list \<Rightarrow> ram_ctrl \<Rightarrow> int list list option" where
  "hit_rowgroups [] c = Some []"
| "hit_rowgroups (req # q) c = do {
     hit \<leftarrow> is_row_hit req c;
     gs \<leftarrow> hit_rowgroups q c;
     Some (if hit then take (nat (lev (scope PRE)) + 1) (rq_addr_vec req) # gs else gs)
   }"

definition violates_hit :: "int list list \<Rightarrow> ram_request \<Rightarrow> ram_ctrl \<Rightarrow> bool option" where
  "violates_hit hit_reqs req c = do {
     hit \<leftarrow> is_row_hit req c;
     opn \<leftarrow> (if \<not> hit then is_row_open req c else Some False);
     Some (opn \<and> take (nat (lev (scope PRE)) + 1) (rq_addr_vec req) \<in> set hit_reqs)
   }"

definition pick_step :: "ram_request list \<Rightarrow> int list list \<Rightarrow> nat \<Rightarrow> nat option \<times> ram_ctrl \<Rightarrow> (nat option \<times> ram_ctrl) option" where
  "pick_step q hit_reqs j st = do {
     let (head, c) = st;
     violate_hit \<leftarrow> violates_hit hit_reqs (q ! j) c;
     if violate_hit then Some (head, c)
     else case head of
       None \<Rightarrow> Some (Some j, c)
     | Some i \<Rightarrow> do { (i, c) \<leftarrow> compare FRFCFS q j (i, c); Some (Some i, c) }
   }"

definition get_head :: "ram_request list \<Rightarrow> ram_ctrl \<Rightarrow> (nat option \<times> ram_ctrl) option" where
  "get_head q c =
     (if q = [] then Some (None, c)
      else do {
        (head, c) \<leftarrow> foldM (compare (rc_sched_type c) q) [1..<length q] (0, c);
        if rc_sched_type c \<noteq> FRFCFS_PriorHit then Some (Some head, c)
        else do {
          best \<leftarrow> ready_hit (q ! head) c;
          if best then Some (Some head, c)
          else do {
            hit_reqs \<leftarrow> hit_rowgroups q c;
            foldM (pick_step q hit_reqs) [0..<length q] (None, c)
          }
        }
      })"

subsection \<open>The row policy\<close>

fun find_victim :: "(row_entry \<Rightarrow> bool) \<Rightarrow> ram_command \<Rightarrow> ram_ctrl \<Rightarrow> row_table \<Rightarrow> int list option" where
  "find_victim eligible cmd c [] = Some []"
| "find_victim eligible cmd c ((k, e) # tab) =
     (if \<not> eligible e then find_victim eligible cmd c tab
      else do {
        ready \<leftarrow> is_ready_cmd cmd k c;
        if ready then Some k else find_victim eligible cmd c tab
      })"

definition get_victim :: "ram_command \<Rightarrow> ram_ctrl \<Rightarrow> int list option" where
  "get_victim cmd c = (case rc_policy_type c of
     PolicyClosed \<Rightarrow> find_victim (\<lambda>e. True) cmd c (rc_rowtable c)
   | PolicyOpened \<Rightarrow> Some []
   | PolicyTimeout \<Rightarrow> find_victim (\<lambda>e. \<not> rc_clk c - re_timestamp e < rc_timeout c) cmd c (rc_rowtable c))"

subsection \<open>Refresh\<close>

definition Refresh :: "hbm \<Rightarrow> ram_dram \<Rightarrow> refresh option" where
  "Refresh spec channel = do {
     let max_rank_count = int (length (children channel));
     max_bank_count \<leftarrow> level_count spec Bank;
     let n_banks = max_rank_count * max_bank_count;
     guard (n_banks \<ge> 0);
     Some \<lparr>rf_clk = 0, rf_refreshed = 0,
       rf_bank_ref_interval = replicate (nat n_banks) (hs_nREFI (hb_speed spec)),
       rf_bank_refreshed = replicate (nat n_banks) 0,
       rf_bank_ref_counters = replicate (nat max_rank_count) 0,
       rf_max_rank_count = max_rank_count, rf_max_bank_count = max_bank_count, rf_n_banks = n_banks\<rparr>
   }"

definition set_ref_interval :: "int \<Rightarrow> bool \<Rightarrow> ram_ctrl \<Rightarrow> ram_ctrl option" where
  "set_ref_interval bank_i hot c = do {
     let refresh_interval = hs_nREFI (hb_speed (rc_spec c));
     is \<leftarrow> istore (rf_bank_ref_interval (rc_refresh c)) bank_i
            (if hot then refresh_interval div 2 else refresh_interval);
     Some (c\<lparr>rc_refresh := (rc_refresh c)\<lparr>rf_bank_ref_interval := is\<rparr>\<rparr>)
   }"

definition refresh_target :: "int \<Rightarrow> int \<Rightarrow> int \<Rightarrow> ram_ctrl \<Rightarrow> ram_ctrl option" where
  "refresh_target rank bank sa c = do {
     let addr_vec = [dn_id (the_node (rc_channel c)), rank, bank, sa, - 1];
     let (res, c) = enqueue (RamRequest_vec addr_vec REFRESH 0) c;
     guard res;
     Some c
   }"

definition inject_refresh :: "bool \<Rightarrow> ram_ctrl \<Rightarrow> ram_ctrl option" where
  "inject_refresh b_ref_rank c = do {
     c \<leftarrow> foldM (\<lambda>rank c.
            if b_ref_rank then refresh_target (dn_id (the_node rank)) (- 1) (- 1) c
            else do {
              b \<leftarrow> ifetch (rf_bank_ref_counters (rc_refresh c)) (dn_id (the_node rank));
              refresh_target (dn_id (the_node rank)) b (- 1) c
            }) (children (rc_channel c)) c;
     Some (c\<lparr>rc_refresh := (rc_refresh c)\<lparr>rf_refreshed := rf_clk (rc_refresh c)\<rparr>\<rparr>)
   }"

definition inject_bank_refresh :: "int \<Rightarrow> ram_ctrl \<Rightarrow> ram_ctrl option" where
  "inject_bank_refresh bank_i c = do {
     guard (rf_max_bank_count (rc_refresh c) \<noteq> 0);
     let r_i = bank_i div rf_max_bank_count (rc_refresh c);
     let b_i = bank_i mod rf_max_bank_count (rc_refresh c);
     c \<leftarrow> refresh_target r_i b_i (- 1) c;
     bs \<leftarrow> istore (rf_bank_refreshed (rc_refresh c)) bank_i (rf_clk (rc_refresh c));
     Some (c\<lparr>rc_refresh := (rc_refresh c)\<lparr>rf_bank_refreshed := bs\<rparr>\<rparr>)
   }"

definition refresh_due :: "int \<Rightarrow> ram_ctrl \<Rightarrow> ram_ctrl option" where
  "refresh_due i c = do {
     last \<leftarrow> ifetch (rf_bank_refreshed (rc_refresh c)) i;
     interval \<leftarrow> ifetch (rf_bank_ref_interval (rc_refresh c)) i;
     if rf_clk (rc_refresh c) - last \<ge> interval then inject_bank_refresh i c else Some c
   }"

definition tick_ref :: "ram_ctrl \<Rightarrow> ram_ctrl option" where
  "tick_ref c =
     (let c = c\<lparr>rc_refresh := (rc_refresh c)\<lparr>rf_clk := rf_clk (rc_refresh c) + 1\<rparr>\<rparr> in
      foldM refresh_due [0..rf_n_banks (rc_refresh c) - 1] c)"

definition setBankRef :: "int \<Rightarrow> bool \<Rightarrow> ram_ctrl \<Rightarrow> ram_ctrl option" where
  "setBankRef bank_i hot c = set_ref_interval bank_i hot c"

subsection \<open>One clock of the controller\<close>

definition bump :: "real list \<Rightarrow> int \<Rightarrow> real list option" where
  "bump xs i = do { x \<leftarrow> ifetch xs i; istore xs i (x + 1) }"

definition bump_stat :: "(ctrl_stats \<Rightarrow> real list) \<Rightarrow> ((real list \<Rightarrow> real list) \<Rightarrow> ctrl_stats \<Rightarrow> ctrl_stats) \<Rightarrow>
    int \<Rightarrow> ram_ctrl \<Rightarrow> ram_ctrl option" where
  "bump_stat get upd i c = do {
     xs \<leftarrow> bump (get (rc_stats c)) i;
     Some (c\<lparr>rc_stats := upd (\<lambda>_. xs) (rc_stats c)\<rparr>)
   }"

definition add_stat :: "((real \<Rightarrow> real) \<Rightarrow> ctrl_stats \<Rightarrow> ctrl_stats) \<Rightarrow> int \<Rightarrow> ram_ctrl \<Rightarrow> ram_ctrl" where
  "add_stat upd v c = c\<lparr>rc_stats := upd (\<lambda>x. x + of_int v) (rc_stats c)\<rparr>"

definition issue_cmd :: "ram_command \<Rightarrow> int list \<Rightarrow> ram_ctrl \<Rightarrow> ram_ctrl option" where
  "issue_cmd cmd addr_vec c = do {
     ready \<leftarrow> is_ready_cmd cmd addr_vec c;
     guard ready;
     t \<leftarrow> dram_update (hb_speed (rc_spec c)) cmd addr_vec (rc_clk c) (rc_channel c);
     tab \<leftarrow> rowtable_update cmd addr_vec (rc_clk c) (rc_rowtable c);
     let c = c\<lparr>rc_channel := t, rc_rowtable := tab\<rparr>;
     if rc_record_cmd_trace c then do {
       rank \<leftarrow> ifetch addr_vec (lev Rank);
       file \<leftarrow> ifetch (rc_cmd_traces c) rank;
       bank_id \<leftarrow> (if cmd = PREA \<or> cmd = REF then Some None else map_option Some (ifetch addr_vec (lev Bank)));
       fs \<leftarrow> istore (rc_cmd_traces c) rank (file @ [(rc_clk c, cmd, bank_id)]);
       Some (c\<lparr>rc_cmd_traces := fs\<rparr>)
     }
     else Some c
   }"

text \<open>Step 1: the oldest pending read leaves when its data has arrived.\<close>

definition serve_completed :: "ram_ctrl \<Rightarrow> (ram_request option \<times> ram_ctrl) option" where
  "serve_completed c = (case rc_pending c of
     [] \<Rightarrow> Some (None, c)
   | req # rest \<Rightarrow>
       if rq_depart req \<le> rc_clk c then do {
         c \<leftarrow> (if rq_depart req - rq_arrive req > 1 then do {
                  let c = add_stat cs_read_latency_sum_update (rq_depart req - rq_arrive req) c;
                  t \<leftarrow> update_serving_requests (rq_addr_vec req) (- 1) (rc_clk c) (rc_channel c);
                  Some (c\<lparr>rc_channel := t\<rparr>)
                }
                else Some c);
         Some (Some req, c\<lparr>rc_pending := rest\<rparr>)
       }
       else Some (None, c))"

text \<open>Step 3: \<^verbatim>\<open>int(0.8 * writeq.max)\<close> and \<^verbatim>\<open>int(0.2 * writeq.max)\<close> are the bounds of the write-mode hysteresis.\<close>

definition write_hi :: int where
  "write_hi = \<lfloor>8 / 10 * real queue_max\<rfloor>"

definition write_lo :: int where
  "write_lo = \<lfloor>2 / 10 * real queue_max\<rfloor>"

definition choose_mode :: "ram_ctrl \<Rightarrow> ram_ctrl" where
  "choose_mode c =
     (if \<not> rc_write_mode c then
        (if int (length (rc_writeq c)) \<ge> write_hi \<or> rc_readq c = [] then c\<lparr>rc_write_mode := True\<rparr> else c)
      else
        (if int (length (rc_writeq c)) \<le> write_lo \<and> rc_readq c \<noteq> [] then c\<lparr>rc_write_mode := False\<rparr> else c))"

text \<open>The row statistics of a request that is scheduled for the first time.\<close>

definition count_row :: "ram_req_type \<Rightarrow> bool \<Rightarrow> bool \<Rightarrow> int \<Rightarrow> int \<Rightarrow> ram_ctrl \<Rightarrow> ram_ctrl option" where
  "count_row ty hit opn coreid bank_i c =
     (if ty = READ then
        (if hit then do {
           c \<leftarrow> bump_stat cs_read_row_hits cs_read_row_hits_update coreid c;
           bump_stat cs_bank_read_row_hits cs_bank_read_row_hits_update bank_i (add_stat cs_row_hits_update 1 c) }
         else if opn then do {
           c \<leftarrow> bump_stat cs_read_row_conflicts cs_read_row_conflicts_update coreid c;
           bump_stat cs_bank_read_row_conflicts cs_bank_read_row_conflicts_update bank_i (add_stat cs_row_conflicts_update 1 c) }
         else do {
           c \<leftarrow> bump_stat cs_read_row_misses cs_read_row_misses_update coreid c;
           bump_stat cs_bank_read_row_misses cs_bank_read_row_misses_update bank_i (add_stat cs_row_misses_update 1 c) })
      else
        (if hit then do {
           c \<leftarrow> bump_stat cs_write_row_hits cs_write_row_hits_update coreid c;
           bump_stat cs_bank_write_row_hits cs_bank_write_row_hits_update bank_i (add_stat cs_row_hits_update 1 c) }
         else if opn then do {
           c \<leftarrow> bump_stat cs_write_row_conflicts cs_write_row_conflicts_update coreid c;
           bump_stat cs_bank_write_row_conflicts cs_bank_write_row_conflicts_update bank_i (add_stat cs_row_conflicts_update 1 c) }
         else do {
           c \<leftarrow> bump_stat cs_write_row_misses cs_write_row_misses_update coreid c;
           bump_stat cs_bank_write_row_misses cs_bank_write_row_misses_update bank_i (add_stat cs_row_misses_update 1 c) }))"

definition first_command :: "ram_request \<Rightarrow> int \<Rightarrow> ram_ctrl \<Rightarrow> ram_ctrl option" where
  "first_command req bank_i c =
     (if rq_type req = READ \<or> rq_type req = WRITE then do {
        t \<leftarrow> update_serving_requests (rq_addr_vec req) 1 (rc_clk c) (rc_channel c);
        let c = c\<lparr>rc_channel := t\<rparr>;
        let tx = hb_prefetch_size (rc_spec c) * hb_channel_width (rc_spec c) div 8;
        hit \<leftarrow> is_row_hit req c;
        opn \<leftarrow> (if hit then Some False else is_row_open req c);
        c \<leftarrow> count_row (rq_type req) hit opn (rq_coreid req) bank_i c;
        Some (if rq_type req = READ then add_stat cs_read_transaction_bytes_update tx c
              else add_stat cs_write_transaction_bytes_update tx c)
      }
      else Some c)"

text \<open>The last command of a request: a read waits for its data, a write is done.\<close>

definition finish_request :: "queue_id \<Rightarrow> nat \<Rightarrow> ram_ctrl \<Rightarrow> ram_ctrl option" where
  "finish_request k i c = do {
     let req = the_queue k c ! i;
     let c = (if rq_type req = READ
              then c\<lparr>rc_pending := rc_pending c @ [req\<lparr>rq_depart := rc_clk c + hb_read_latency (rc_spec c)\<rparr>]\<rparr> else c);
     c \<leftarrow> (if rq_type req = WRITE then do {
              t \<leftarrow> update_serving_requests (rq_addr_vec req) (- 1) (rc_clk c) (rc_channel c);
              Some (c\<lparr>rc_channel := t\<rparr>) }
            else Some c);
     let q = the_queue k c;
     Some (put_queue k (take i q @ drop (Suc i) q) c)
   }"

definition serve_head :: "queue_id \<Rightarrow> nat \<Rightarrow> ram_ctrl \<Rightarrow> ram_ctrl option" where
  "serve_head k i c = do {
     let req = the_queue k c ! i;
     rank \<leftarrow> ifetch (rq_addr_vec req) (lev Rank);
     bank \<leftarrow> ifetch (rq_addr_vec req) (lev Bank);
     let bank_i = rank * 2 + bank;
     c \<leftarrow> (if rq_type req = READ then bump_stat cs_bank_reads cs_bank_reads_update bank_i c
            else if rq_type req = WRITE then bump_stat cs_bank_writes cs_bank_writes_update bank_i c
            else Some c);
     c \<leftarrow> (if rq_is_first_command req
            then first_command req bank_i (put_queue k ((the_queue k c)[i := req\<lparr>rq_is_first_command := False\<rparr>]) c)
            else Some c);
     cmd \<leftarrow> get_first_cmd req c;
     c \<leftarrow> issue_cmd cmd (rq_addr_vec req) c;
     if cmd \<noteq> translate (rq_type req) then Some c else finish_request k i c
   }"

text \<open>Step 4: schedule one command, or close a row when nothing is ready.\<close>

definition schedule :: "ram_ctrl \<Rightarrow> ram_ctrl option" where
  "schedule c = do {
     let k = (if rc_otherq c \<noteq> [] then OtherQ else if \<not> rc_write_mode c then ReadQ else WriteQ);
     (head, c) \<leftarrow> get_head (the_queue k c) c;
     ready \<leftarrow> (case head of None \<Rightarrow> Some False | Some i \<Rightarrow> is_ready (the_queue k c ! i) c);
     if \<not> ready then do {
       victim \<leftarrow> get_victim PRE c;
       if victim = [] then Some c else issue_cmd PRE victim c
     }
     else serve_head k (the head) c
   }"

definition count_queues :: "ram_ctrl \<Rightarrow> ram_ctrl" where
  "count_queues c =
     add_stat cs_write_req_queue_length_sum_update (int (length (rc_writeq c)))
      (add_stat cs_read_req_queue_length_sum_update (int (length (rc_readq c) + length (rc_pending c)))
       (add_stat cs_req_queue_length_sum_update
          (int (length (rc_readq c) + length (rc_writeq c) + length (rc_pending c))) c))"

definition ctrl_tick :: "ram_ctrl \<Rightarrow> (ram_request option \<times> ram_ctrl) option" where
  "ctrl_tick c = do {
     let c = count_queues (c\<lparr>rc_clk := rc_clk c + 1\<rparr>);
     (completed, c) \<leftarrow> serve_completed c;
     c \<leftarrow> tick_ref c;
     c \<leftarrow> schedule (choose_mode c);
     Some (completed, c)
   }"

subsection \<open>Construction\<close>

definition new_stats :: "nat \<Rightarrow> nat \<Rightarrow> ctrl_stats" where
  "new_stats cores banks = \<lparr>cs_read_transaction_bytes = 0, cs_write_transaction_bytes = 0,
     cs_row_hits = 0, cs_row_misses = 0, cs_row_conflicts = 0,
     cs_read_row_hits = replicate cores 0, cs_read_row_misses = replicate cores 0, cs_read_row_conflicts = replicate cores 0,
     cs_write_row_hits = replicate cores 0, cs_write_row_misses = replicate cores 0, cs_write_row_conflicts = replicate cores 0,
     cs_bank_reads = replicate banks 0, cs_bank_writes = replicate banks 0,
     cs_bank_read_row_hits = replicate banks 0, cs_bank_read_row_misses = replicate banks 0,
     cs_bank_read_row_conflicts = replicate banks 0, cs_bank_write_row_hits = replicate banks 0,
     cs_bank_write_row_misses = replicate banks 0, cs_bank_write_row_conflicts = replicate banks 0,
     cs_read_latency_sum = 0, cs_req_queue_length_sum = 0, cs_read_req_queue_length_sum = 0,
     cs_write_req_queue_length_sum = 0, cs_req_queue_length_avg = 0\<rparr>"

text \<open>The constructor, given the configuration's number of cores and of ranks and its trace option.\<close>

definition RamController :: "int \<Rightarrow> int \<Rightarrow> bool \<Rightarrow> hbm \<Rightarrow> ram_dram \<Rightarrow> ram_ctrl option" where
  "RamController cores ranks record_cmd_trace spec channel = do {
     rf \<leftarrow> Refresh spec channel;
     Some \<lparr>rc_spec = spec, rc_clk = 0, rc_channel = channel, rc_sched_type = FRFCFS_PriorHit, rc_cap = 16,
       rc_policy_type = PolicyOpened, rc_timeout = 50, rc_rowtable = [], rc_refresh = rf,
       rc_readq = [], rc_writeq = [], rc_otherq = [], rc_pending = [], rc_write_mode = False,
       rc_record_cmd_trace = record_cmd_trace, rc_cmd_traces = replicate (length (children channel)) [],
       rc_stats = new_stats (nat cores) (nat (ranks * 2))\<rparr>
   }"

end
