(* ===== verification/Ram_Tree.thy ===== *)
theory Ram_Tree
  imports Ram_Controller
begin

section \<open>Paths in the DRAM tree\<close>

text \<open>
  A well-formed channel has ranks and the ranks have banks, as \<^verbatim>\<open>RamDRAM\<close> builds them; every bank is
  closed or has exactly one open row, and every rank is powered up. Along a path of such a tree the
  walks of \<^verbatim>\<open>RamDRAM.cc\<close> have closed forms: queries read the three nodes on the path, and updates
  replace those nodes (\<open>path_map\<close>) and no other.
\<close>

subsection \<open>Well-formed trees\<close>

definition node_ok :: "hbm_speed \<Rightarrow> ram_level \<Rightarrow> int \<Rightarrow> dram_node \<Rightarrow> bool" where
  "node_ok s l i n \<longleftrightarrow> dn_level n = l \<and> dn_id n = i \<and>
     (\<forall>cmd. length (dn_prev n cmd) = history_length (timing s l cmd)) \<and>
     0 \<le> dn_cur_serving_requests n \<and> (0 < dn_cur_serving_requests n \<longrightarrow> dn_begin_of_serving n \<noteq> - 1)"

text \<open>The open row of a bank; \<open>None\<close> when the bank is closed.\<close>

definition open_row_of :: "dram_node \<Rightarrow> int option" where
  "open_row_of n = (case dn_row_state n of [] \<Rightarrow> None | (row, s) # _ \<Rightarrow> Some row)"

definition bank_ok :: "dram_node \<Rightarrow> bool" where
  "bank_ok n \<longleftrightarrow> dn_state n = Closed \<and> dn_row_state n = [] \<or>
     (\<exists>row. dn_state n = Opened \<and> dn_row_state n = [(row, Opened)])"

abbreviation rank_node :: "ram_dram \<Rightarrow> nat \<Rightarrow> ram_dram" where
  "rank_node t i \<equiv> children t ! i"

abbreviation bank_node :: "ram_dram \<Rightarrow> nat \<Rightarrow> nat \<Rightarrow> ram_dram" where
  "bank_node t i j \<equiv> children (children t ! i) ! j"

definition tree_ok :: "hbm_speed \<Rightarrow> int \<Rightarrow> nat \<Rightarrow> nat \<Rightarrow> ram_dram \<Rightarrow> bool" where
  "tree_ok s ch R B t \<longleftrightarrow> node_ok s Channel ch (the_node t) \<and> length (children t) = R \<and>
     (\<forall>i<R. node_ok s Rank (int i) (the_node (rank_node t i)) \<and> dn_state (the_node (rank_node t i)) = PowerUp \<and>
        length (children (rank_node t i)) = B \<and>
        (\<forall>j<B. node_ok s Bank (int j) (the_node (bank_node t i j)) \<and> children (bank_node t i j) = [] \<and>
           bank_ok (the_node (bank_node t i j))))"

text \<open>The address vector of a request to bank \<open>j\<close> of rank \<open>i\<close>.\<close>

definition on_path :: "int \<Rightarrow> nat \<Rightarrow> nat \<Rightarrow> int list \<Rightarrow> bool" where
  "on_path ch i j addr \<longleftrightarrow> length addr = 5 \<and> addr ! 0 = ch \<and> addr ! 1 = int i \<and> addr ! 2 = int j"

lemma tree_okD:
  assumes "tree_ok s ch R B t"
  shows "node_ok s Channel ch (the_node t)" "length (children t) = R"
    and "\<And>i. i < R \<Longrightarrow> node_ok s Rank (int i) (the_node (rank_node t i))"
    and "\<And>i. i < R \<Longrightarrow> dn_state (the_node (rank_node t i)) = PowerUp"
    and "\<And>i. i < R \<Longrightarrow> length (children (rank_node t i)) = B"
    and "\<And>i j. i < R \<Longrightarrow> j < B \<Longrightarrow> node_ok s Bank (int j) (the_node (bank_node t i j))"
    and "\<And>i j. i < R \<Longrightarrow> j < B \<Longrightarrow> children (bank_node t i j) = []"
    and "\<And>i j. i < R \<Longrightarrow> j < B \<Longrightarrow> bank_ok (the_node (bank_node t i j))"
  using assms by (auto simp: tree_ok_def)

lemma node_ok_level: "node_ok s l i n \<Longrightarrow> dn_level n = l" "node_ok s l i n \<Longrightarrow> dn_id n = i"
  by (auto simp: node_ok_def)

lemma on_pathD:
  assumes "on_path ch i j addr"
  shows "ifetch addr 0 = Some ch" "ifetch addr 1 = Some (int i)" "ifetch addr 2 = Some (int j)"
    and "ifetch addr 3 = Some (addr ! 3)"
  using assms by (auto simp: on_path_def ifetch_def numeral_eq_Suc)

lemma ifetch_int [simp]: "i < length xs \<Longrightarrow> ifetch xs (int i) = Some (xs ! i)"
  by (simp add: ifetch_def)

lemma istore_int [simp]: "i < length xs \<Longrightarrow> istore xs (int i) v = Some (xs[i := v])"
  by (simp add: istore_def)

text \<open>A tree seen along one path.\<close>

lemma tree_path_cases:
  assumes ok: "tree_ok s ch R B t" and i: "i < R" and j: "j < B"
  obtains n cs nr rs nb where "t = Node n cs" "cs ! i = Node nr rs" "rs ! j = Node nb []"
    "length cs = R" "length rs = B" "node_ok s Channel ch n" "node_ok s Rank (int i) nr" "node_ok s Bank (int j) nb"
    "dn_state nr = PowerUp" "bank_ok nb" "\<forall>q\<in>set rs. children q = []"
proof -
  obtain n cs where t: "t = Node n cs" by (cases t)
  obtain nr rs where r: "cs ! i = Node nr rs" by (cases "cs ! i")
  obtain nb bs where b: "rs ! j = Node nb bs" by (cases "rs ! j")
  note D = tree_okD[OF ok, unfolded t ram_dram.sel]
  have "bs = []" using D(7)[OF i j] r b by simp
  moreover have "\<forall>q\<in>set rs. children q = []"
    using D(5)[OF i] D(7)[OF i] r by (auto simp: in_set_conv_nth)
  ultimately show thesis
    using that[OF t r b[unfolded \<open>bs = []\<close>]] D(1,2) D(3,4,5)[OF i] D(6,8)[OF i j] r b by simp
qed

subsection \<open>Queries\<close>

definition passed :: "int \<Rightarrow> ram_command \<Rightarrow> dram_node \<Rightarrow> bool" where
  "passed clk cmd n \<longleftrightarrow> dn_next n cmd = - 1 \<or> dn_next n cmd \<le> clk"

lemma bank_access_prereq_eq:
  assumes "bank_ok n"
  shows "bank_access_prereq (Node n cs) cmd row = Some (Some
     (case open_row_of n of None \<Rightarrow> ACT | Some row' \<Rightarrow> if row = row' then cmd else PRE))"
  using assms by (auto simp: bank_ok_def bank_access_prereq_def open_row_of_def)

lemma bank_rowhit_eq:
  assumes "bank_ok n" shows "bank_rowhit (Node n cs) row = Some (open_row_of n = Some row)"
  using assms by (auto simp: bank_ok_def bank_rowhit_def open_row_of_def)

lemma bank_rowopen_eq:
  assumes "bank_ok n" shows "bank_rowopen (Node n cs) row = Some (open_row_of n \<noteq> None)"
  using assms by (auto simp: bank_ok_def bank_rowopen_def open_row_of_def)

lemma decode_access:
  assumes ok: "tree_ok s ch R B t" and i: "i < R" and j: "j < B" and p: "on_path ch i j addr"
    and cmd: "cmd = RD \<or> cmd = WR"
  shows "decode cmd addr t = Some (case open_row_of (the_node (bank_node t i j)) of
     None \<Rightarrow> ACT | Some row \<Rightarrow> if addr ! 3 = row then cmd else PRE)"
proof (rule tree_path_cases[OF ok i j])
  fix n cs nr rs nb
  assume t: "t = Node n cs" "cs ! i = Node nr rs" "rs ! j = Node nb []" "length cs = R" "length rs = B"
    "node_ok s Channel ch n" "node_ok s Rank (int i) nr" "node_ok s Bank (int j) nb" "dn_state nr = PowerUp" "bank_ok nb"
  have ne: "cs \<noteq> []" "rs \<noteq> []" using t i j by auto
  from cmd show ?thesis
    using t i j p ne by (elim disjE; clarsimp simp: child_index_def node_ok_level on_pathD rank_access_prereq_def
        bank_access_prereq_eq)
qed

lemma decode_refresh:
  assumes ok: "tree_ok s ch R B t" and i: "i < R" and j: "j < B" and p: "on_path ch i j addr"
  shows "decode REF addr t = Some REF"
proof (rule tree_path_cases[OF ok i j])
  fix n cs nr rs nb
  assume t: "t = Node n cs" "cs ! i = Node nr rs" "length cs = R"
    "node_ok s Channel ch n" "node_ok s Rank (int i) nr" "\<forall>q\<in>set rs. children q = []"
  have ne: "cs \<noteq> []" using t i by auto
  then show ?thesis
    using t i p by (simp add: child_index_def node_ok_level on_pathD rank_ref_prereq_def grandchildren_def)
qed

lemma check_path:
  assumes ok: "tree_ok s ch R B t" and i: "i < R" and j: "j < B" and p: "on_path ch i j addr"
    and cmd: "scope cmd \<noteq> Channel"
  shows "check cmd addr clk t = Some (passed clk cmd (the_node t) \<and> passed clk cmd (the_node (rank_node t i)) \<and>
     (scope cmd = Rank \<or> passed clk cmd (the_node (bank_node t i j))))"
proof (rule tree_path_cases[OF ok i j])
  fix n cs nr rs nb
  assume t: "t = Node n cs" "cs ! i = Node nr rs" "rs ! j = Node nb []" "length cs = R" "length rs = B"
    "node_ok s Channel ch n" "node_ok s Rank (int i) nr" "node_ok s Bank (int j) nb"
  have ne: "cs \<noteq> []" "rs \<noteq> []" using t i j by auto
  show ?thesis
    using t i j p ne cmd
    by (auto simp: child_index_def node_ok_level on_pathD passed_def)
qed

lemma row_query_path:
  assumes ok: "tree_ok s ch R B t" and i: "i < R" and j: "j < B" and p: "on_path ch i j addr"
    and tab: "\<And>c. tab Channel c = None" "\<And>c. tab Rank c = None"
  shows "row_query tab cmd addr t = (case tab Bank cmd of
     Some f \<Rightarrow> f (bank_node t i j) (addr ! 3) | None \<Rightarrow> Some False)"
proof (rule tree_path_cases[OF ok i j])
  fix n cs nr rs nb
  assume t: "t = Node n cs" "cs ! i = Node nr rs" "rs ! j = Node nb []" "length cs = R" "length rs = B"
    "node_ok s Channel ch n" "node_ok s Rank (int i) nr" "node_ok s Bank (int j) nb"
  have ne: "cs \<noteq> []" "rs \<noteq> []" using t i j by auto
  show ?thesis
    using t i j p ne by (simp add: child_index_def node_ok_level on_pathD tab split: option.split)
qed

lemma check_row_hit_path:
  assumes ok: "tree_ok s ch R B t" and i: "i < R" and j: "j < B" and p: "on_path ch i j addr"
  shows "check_row_hit cmd addr t =
     Some ((cmd = RD \<or> cmd = WR) \<and> open_row_of (the_node (bank_node t i j)) = Some (addr ! 3))"
proof -
  have "check_row_hit cmd addr t = (case rowhit Bank cmd of
     Some f \<Rightarrow> f (bank_node t i j) (addr ! 3) | None \<Rightarrow> Some False)"
    unfolding check_row_hit_def by (rule row_query_path[OF ok i j p]) (simp_all add: rowhit_def)
  then show ?thesis
    using bank_rowhit_eq[OF tree_okD(8)[OF ok i j], of "children (bank_node t i j)"] by (simp add: rowhit_def)
qed

lemma check_row_open_path:
  assumes ok: "tree_ok s ch R B t" and i: "i < R" and j: "j < B" and p: "on_path ch i j addr"
  shows "check_row_open cmd addr t =
     Some ((cmd = RD \<or> cmd = WR) \<and> open_row_of (the_node (bank_node t i j)) \<noteq> None)"
proof -
  have "check_row_open cmd addr t = (case rowopen Bank cmd of
     Some f \<Rightarrow> f (bank_node t i j) (addr ! 3) | None \<Rightarrow> Some False)"
    unfolding check_row_open_def by (rule row_query_path[OF ok i j p]) (simp_all add: rowopen_def)
  then show ?thesis
    using bank_rowopen_eq[OF tree_okD(8)[OF ok i j], of "children (bank_node t i j)"] by (simp add: rowopen_def)
qed

subsection \<open>Replacing the nodes of a path\<close>

definition path_put :: "nat \<Rightarrow> nat \<Rightarrow> dram_node \<Rightarrow> dram_node \<Rightarrow> dram_node \<Rightarrow> ram_dram \<Rightarrow> ram_dram" where
  "path_put i j n nr nb t =
     Node n ((children t)[i := Node nr ((children (rank_node t i))[j := Node nb []])])"

lemma path_put_id:
  assumes "tree_ok s ch R B t" "i < R" "j < B"
  shows "path_put i j (the_node t) (the_node (rank_node t i)) (the_node (bank_node t i j)) t = t"
  using tree_path_cases[OF assms]
  by (metis (no_types, lifting) list_update_id path_put_def ram_dram.sel)

lemma path_put_sel [simp]:
  "the_node (path_put i j n nr nb t) = n"
  "length (children (path_put i j n nr nb t)) = length (children t)"
  by (simp_all add: path_put_def)

lemma rank_node_path_put:
  assumes "tree_ok s ch R B t" "i < R" "j < B" "i' < R"
  shows "the_node (rank_node (path_put i j n nr nb t) i') = (if i' = i then nr else the_node (rank_node t i'))"
    and "length (children (rank_node (path_put i j n nr nb t) i')) = B"
  using assms tree_okD(2,5)[OF assms(1)] by (auto simp: path_put_def nth_list_update)

lemma bank_node_path_put:
  assumes "tree_ok s ch R B t" "i < R" "j < B" "i' < R" "j' < B"
  shows "bank_node (path_put i j n nr nb t) i' j' = (if i' = i \<and> j' = j then Node nb [] else bank_node t i' j')"
  using assms tree_okD(2,5)[OF assms(1)] by (auto simp: path_put_def nth_list_update)

lemma tree_ok_path_put:
  assumes ok: "tree_ok s ch R B t" "i < R" "j < B"
    and n: "node_ok s Channel ch n" "node_ok s Rank (int i) nr" "dn_state nr = PowerUp"
      "node_ok s Bank (int j) nb" "bank_ok nb"
  shows "tree_ok s ch R B (path_put i j n nr nb t)"
  unfolding tree_ok_def
  using n tree_okD[OF ok(1)] rank_node_path_put[OF ok] bank_node_path_put[OF ok] by simp

text \<open>A second update of the same path.\<close>

lemma path_put_path_put:
  assumes "tree_ok s ch R B t" "i < R" "j < B"
  shows "path_put i j n nr nb (path_put i j n' nr' nb' t) = path_put i j n nr nb t"
  using assms tree_okD(2,5)[OF assms(1)] by (simp add: path_put_def)

subsection \<open>Serving counters\<close>

text \<open>What serving a request leaves alone in a node.\<close>

definition serve_frame :: "dram_node \<Rightarrow> dram_node \<Rightarrow> bool" where
  "serve_frame n n' \<longleftrightarrow> dn_next n' = dn_next n \<and> dn_prev n' = dn_prev n \<and> dn_state n' = dn_state n \<and>
     dn_row_state n' = dn_row_state n \<and> dn_level n' = dn_level n \<and> dn_id n' = dn_id n"

lemma serve_node_runs:
  assumes ok: "node_ok s l i n" and clk: "0 \<le> clk"
    and d: "delta = 1 \<or> delta = - 1 \<and> 0 < dn_cur_serving_requests n"
  shows "runs (serve_node delta clk n) (\<lambda>n'. node_ok s l i n' \<and> serve_frame n n' \<and>
     dn_cur_serving_requests n' = dn_cur_serving_requests n + delta)"
  using assms
  by (auto simp: serve_node_def runs_simps Let_def node_ok_def serve_frame_def)

lemma bank_ok_frame: "serve_frame n n' \<Longrightarrow> bank_ok n \<Longrightarrow> bank_ok n'"
  by (simp add: serve_frame_def bank_ok_def)

lemma update_serving_path:
  assumes ok: "tree_ok s ch R B t" and i: "i < R" and j: "j < B" and p: "on_path ch i j addr"
    and n: "serve_node delta clk (the_node t) = Some n" "serve_node delta clk (the_node (rank_node t i)) = Some nr"
      "serve_node delta clk (the_node (bank_node t i j)) = Some nb"
  shows "update_serving_requests addr delta clk t = Some (path_put i j n nr nb t)"
proof (rule tree_path_cases[OF ok i j])
  fix m cs mr rs mb
  assume t: "t = Node m cs" "cs ! i = Node mr rs" "rs ! j = Node mb []" "length cs = R" "length rs = B"
    "node_ok s Channel ch m" "node_ok s Rank (int i) mr" "node_ok s Bank (int j) mb"
  have ne: "cs \<noteq> []" "rs \<noteq> []" using t i j by auto
  show ?thesis
    using t i j p ne n
    by (simp add: child_index_def node_ok_level on_pathD guard_def path_put_def)
qed

definition cur0 :: "ram_dram \<Rightarrow> int" where
  "cur0 t = dn_cur_serving_requests (the_node t)"

definition cur1 :: "ram_dram \<Rightarrow> nat \<Rightarrow> int" where
  "cur1 t i = dn_cur_serving_requests (the_node (rank_node t i))"

definition cur2 :: "ram_dram \<Rightarrow> nat \<Rightarrow> nat \<Rightarrow> int" where
  "cur2 t i j = dn_cur_serving_requests (the_node (bank_node t i j))"

definition row_of :: "ram_dram \<Rightarrow> nat \<Rightarrow> nat \<Rightarrow> int option" where
  "row_of t i j = open_row_of (the_node (bank_node t i j))"

text \<open>The earliest clock of a command at the three nodes of a path.\<close>

definition nexts :: "ram_dram \<Rightarrow> nat \<Rightarrow> nat \<Rightarrow> (ram_command \<Rightarrow> int) \<times> (ram_command \<Rightarrow> int) \<times> (ram_command \<Rightarrow> int)" where
  "nexts t i j = (dn_next (the_node t), dn_next (the_node (rank_node t i)), dn_next (the_node (bank_node t i j)))"

lemma update_serving_runs:
  assumes ok: "tree_ok s ch R B t" and i: "i < R" and j: "j < B" and p: "on_path ch i j addr" and clk: "0 \<le> clk"
    and d: "delta = 1 \<or> delta = - 1 \<and> 0 < cur0 t \<and> 0 < cur1 t i \<and> 0 < cur2 t i j"
  shows "runs (update_serving_requests addr delta clk t) (\<lambda>t'. tree_ok s ch R B t' \<and>
     cur0 t' = cur0 t + delta \<and>
     (\<forall>i'<R. cur1 t' i' = cur1 t i' + (if i' = i then delta else 0)) \<and>
     (\<forall>i'<R. \<forall>j'<B. cur2 t' i' j' = cur2 t i' j' + (if i' = i \<and> j' = j then delta else 0) \<and>
        row_of t' i' j' = row_of t i' j' \<and> nexts t' i' j' = nexts t i' j'))"
proof -
  note D = tree_okD[OF ok]
  have d0: "delta = 1 \<or> delta = - 1 \<and> 0 < dn_cur_serving_requests (the_node t)"
    and d1: "delta = 1 \<or> delta = - 1 \<and> 0 < dn_cur_serving_requests (the_node (rank_node t i))"
    and d2: "delta = 1 \<or> delta = - 1 \<and> 0 < dn_cur_serving_requests (the_node (bank_node t i j))"
    using d by (auto simp: cur0_def cur1_def cur2_def)
  obtain n where n: "serve_node delta clk (the_node t) = Some n" "node_ok s Channel ch n" "serve_frame (the_node t) n"
    "dn_cur_serving_requests n = dn_cur_serving_requests (the_node t) + delta"
    using serve_node_runs[OF D(1) clk d0] by (auto simp: runs_iff)
  obtain nr where nr: "serve_node delta clk (the_node (rank_node t i)) = Some nr" "node_ok s Rank (int i) nr"
    "serve_frame (the_node (rank_node t i)) nr"
    "dn_cur_serving_requests nr = dn_cur_serving_requests (the_node (rank_node t i)) + delta"
    using serve_node_runs[OF D(3)[OF i] clk d1] by (auto simp: runs_iff)
  obtain nb where nb: "serve_node delta clk (the_node (bank_node t i j)) = Some nb" "node_ok s Bank (int j) nb"
    "serve_frame (the_node (bank_node t i j)) nb"
    "dn_cur_serving_requests nb = dn_cur_serving_requests (the_node (bank_node t i j)) + delta"
    using serve_node_runs[OF D(6)[OF i j] clk d2] by (auto simp: runs_iff)
  have "dn_state nr = PowerUp" using nr(3) D(4)[OF i] by (simp add: serve_frame_def)
  then have ok': "tree_ok s ch R B (path_put i j n nr nb t)"
    by (intro tree_ok_path_put[OF ok i j] n nr nb bank_ok_frame[OF nb(3) D(8)[OF i j]])
  show ?thesis
    unfolding update_serving_path[OF ok i j p n(1) nr(1) nb(1)] runs_Some
    using ok' n nr nb rank_node_path_put[OF ok i j] bank_node_path_put[OF ok i j]
    by (simp add: cur0_def cur1_def cur2_def row_of_def nexts_def serve_frame_def open_row_of_def)
qed

subsection \<open>Timing\<close>

lemma timing_entries:
  assumes "e \<in> set (timing s l cmd)"
  shows "\<not> te_sibling e" "1 \<le> te_dist e" "is_refreshing cmd \<Longrightarrow> te_dist e = 1"
  using assms
  by (auto simp: timing_def channel_pushes_def rank_pushes_def bank_pushes_def push_def Let_def is_refreshing_def
      split: ram_level.splits)

lemma foldl_max_upper: "(n :: int) \<le> foldl (\<lambda>d e. max d (f e)) n es"
  by (induction es arbitrary: n) (auto intro: order_trans[OF max.cobounded1])

lemma foldl_max_ge: "e \<in> set es \<Longrightarrow> (f e :: int) \<le> foldl (\<lambda>d e. max d (f e)) n es"
  by (induction es arbitrary: n) (auto intro: order_trans[OF max.cobounded2 foldl_max_upper])

lemma history_long_enough: "e \<in> set es \<Longrightarrow> te_dist e \<le> int (history_length es)"
  using foldl_max_ge[of e es te_dist 0] foldl_max_upper[of 0 te_dist es] by (simp add: history_length_def)

text \<open>The timing update of one node on the path.\<close>

definition timing_node :: "hbm_speed \<Rightarrow> ram_command \<Rightarrow> int \<Rightarrow> dram_node \<Rightarrow> dram_node option" where
  "timing_node s cmd clk n = foldM (target_timing cmd clk) (timing s (dn_level n) cmd) (push_history cmd clk n)"

definition timing_frame :: "dram_node \<Rightarrow> dram_node \<Rightarrow> bool" where
  "timing_frame n n' \<longleftrightarrow> dn_state n' = dn_state n \<and> dn_row_state n' = dn_row_state n \<and>
     dn_cur_serving_requests n' = dn_cur_serving_requests n \<and> dn_begin_of_serving n' = dn_begin_of_serving n \<and>
     dn_level n' = dn_level n \<and> dn_id n' = dn_id n"

text \<open>
  A command that no entry constrains keeps its earliest clock; one that entries of distance 1
  constrain is delayed by at most their largest value.
\<close>

definition delayed_by :: "timing_entry list \<Rightarrow> int \<Rightarrow> dram_node \<Rightarrow> dram_node \<Rightarrow> bool" where
  "delayed_by es clk n n' \<longleftrightarrow> (\<forall>c.
     ((\<forall>e\<in>set es. te_cmd e \<noteq> c) \<longrightarrow> dn_next n' c = dn_next n c) \<and>
     dn_next n c \<le> dn_next n' c \<and>
     (\<forall>v. (\<forall>e\<in>set es. te_cmd e = c \<longrightarrow> te_dist e = 1 \<and> te_val e \<le> v) \<longrightarrow> dn_next n' c \<le> max (dn_next n c) (clk + v)))"

lemma target_timing_runs:
  assumes e: "e \<in> set es" and es: "es = timing s l cmd" and len: "length (dn_prev n cmd) = history_length es"
    and hd: "dn_prev n cmd ! 0 = clk"
  shows "runs (target_timing cmd clk e n) (\<lambda>n'. timing_frame n n' \<and> dn_prev n' = dn_prev n \<and> delayed_by es clk n n')"
proof -
  note E = timing_entries[OF e[unfolded es]]
  have dist: "0 \<le> te_dist e - 1" "nat (te_dist e - 1) < length (dn_prev n cmd)"
    using E(2) history_long_enough[OF e] len by auto
  have past: "dn_prev n cmd ! nat (te_dist e - 1) = clk" if "te_dist e = 1" using hd that by simp
  show ?thesis
    using e E dist past
    by (auto simp: target_timing_def runs_simps Let_def timing_frame_def delayed_by_def)
qed

lemma delayed_by_trans:
  assumes "delayed_by es clk n n'" "delayed_by es clk n' n''" shows "delayed_by es clk n n''"
  using assms unfolding delayed_by_def by (smt (verit, best))

lemma timing_node_runs:
  assumes ok: "node_ok s l i n"
  shows "runs (timing_node s cmd clk n) (\<lambda>n'. node_ok s l i n' \<and> timing_frame n n' \<and> delayed_by (timing s l cmd) clk n n')"
proof -
  let ?es = "timing s l cmd" and ?n = "push_history cmd clk n"
  have l: "dn_level n = l" and len: "length (dn_prev n cmd) = history_length ?es" using ok by (auto simp: node_ok_def)
  have "dn_prev n cmd \<noteq> [] \<Longrightarrow> 0 < history_length ?es" using len by (metis length_greater_0_conv)
  then have n: "node_ok s l i ?n" "timing_frame n ?n" "delayed_by ?es clk n ?n"
    using ok by (auto simp: push_history_def node_ok_def timing_frame_def delayed_by_def length_butlast)
  let ?I = "\<lambda>n'. node_ok s l i n' \<and> timing_frame n n' \<and> delayed_by ?es clk n n' \<and> dn_prev n' = dn_prev ?n"
  have "runs (foldM (target_timing cmd clk) ?es ?n) ?I"
  proof (rule foldM_runs)
    show "?I ?n" using n by simp
    fix e n' assume e: "e \<in> set ?es" and I: "?I n'"
    have "history_length ?es \<noteq> 0" using history_long_enough[OF e] timing_entries(2)[OF e] by auto
    then have hd: "dn_prev n' cmd ! 0 = clk" and len': "length (dn_prev n' cmd) = history_length ?es"
      using I len by (auto simp: push_history_def)
    from I have I': "node_ok s l i n'" "timing_frame n n'" "delayed_by ?es clk n n'" "dn_prev n' = dn_prev ?n" by auto
    show "runs (target_timing cmd clk e n') ?I"
    proof (rule runs_mono[OF target_timing_runs[OF e refl len' hd]])
      fix n'' assume n'': "timing_frame n' n'' \<and> dn_prev n'' = dn_prev n' \<and> delayed_by ?es clk n' n''"
      then show "?I n''"
        using I' delayed_by_trans[OF I'(3)] by (simp add: node_ok_def timing_frame_def)
    qed
  qed
  then show ?thesis unfolding timing_node_def l by (rule runs_mono) simp
qed

lemma foldM_noop: "(\<And>x. x \<in> set xs \<Longrightarrow> f x s = Some s) \<Longrightarrow> foldM f xs s = Some s"
  by (induction xs) auto

lemma update_timing_off_path:
  assumes "dn_level (the_node t) = l" "ifetch addr (lev l) = Some x" "dn_id (the_node t) \<noteq> x"
  shows "update_timing s cmd addr clk t = Some t"
proof (cases t)
  case (Node n cs)
  have "foldM (sibling_timing clk) (timing s l cmd) n = Some n"
    by (rule foldM_noop) (auto simp: sibling_timing_def dest: timing_entries(1))
  then show ?thesis using assms Node by simp
qed

lemma those_map_update:
  assumes "i < length cs" "f (cs ! i) = Some x" "\<And>k. k < length cs \<Longrightarrow> k \<noteq> i \<Longrightarrow> f (cs ! k) = Some (cs ! k)"
  shows "those (map f cs) = Some (cs[i := x])"
  using assms
proof (induction cs arbitrary: i)
  case (Cons c cs)
  show ?case
  proof (cases i)
    case 0
    have "f c' = Some c'" if "c' \<in> set cs" for c'
      using Cons.prems(3)[of "Suc _"] that 0 by (fastforce simp: in_set_conv_nth)
    then have "map f cs = map Some cs" by simp
    moreover have "those (map Some cs) = Some cs" by (induction cs) auto
    ultimately have "those (map f cs) = Some cs" by (simp only:)
    then show ?thesis using Cons.prems 0 by simp
  next
    case (Suc k)
    have "those (map f cs) = Some (cs[k := x])"
    proof (rule Cons.IH)
      show "k < length cs" "f (cs ! k) = Some x" using Cons.prems(1,2) Suc by simp_all
      show "f (cs ! m) = Some (cs ! m)" if "m < length cs" "m \<noteq> k" for m
        using Cons.prems(3)[of "Suc m"] that Suc by simp
    qed
    then show ?thesis using Cons.prems(3)[of 0] Suc by simp
  qed
qed simp

lemma update_timing_path:
  assumes ok: "tree_ok s ch R B t" and i: "i < R" and j: "j < B" and p: "on_path ch i j addr"
    and n: "timing_node s cmd clk (the_node t) = Some n" "timing_node s cmd clk (the_node (rank_node t i)) = Some nr"
      "timing_node s cmd clk (the_node (bank_node t i j)) = Some nb"
  shows "update_timing s cmd addr clk t = Some (path_put i j n nr nb t)"
proof (rule tree_path_cases[OF ok i j])
  note D = tree_okD[OF ok]
  fix m cs mr rs mb
  assume t: "t = Node m cs" "cs ! i = Node mr rs" "rs ! j = Node mb []" "length cs = R" "length rs = B"
    "node_ok s Channel ch m" "node_ok s Rank (int i) mr" "node_ok s Bank (int j) mb"
  have bank: "update_timing s cmd addr clk (rs ! j) = Some (Node nb [])"
    using t p n(3) by (simp add: node_ok_level on_pathD timing_node_def)
  have off_bank: "update_timing s cmd addr clk (rs ! k) = Some (rs ! k)" if "k < length rs" "k \<noteq> j" for k
    using D(6)[OF i, of k] that t on_pathD[OF p]
    by (intro update_timing_off_path[where l = Bank and x = "int j"]) (auto simp: node_ok_level)
  have rank: "update_timing s cmd addr clk (cs ! i) = Some (Node nr (rs[j := Node nb []]))"
    using t p n(2) j those_map_update[OF _ bank off_bank] by (simp add: node_ok_level on_pathD timing_node_def)
  have off_rank: "update_timing s cmd addr clk (cs ! k) = Some (cs ! k)" if "k < length cs" "k \<noteq> i" for k
    using D(3)[of k] that t on_pathD[OF p]
    by (intro update_timing_off_path[where l = Rank and x = "int i"]) (auto simp: node_ok_level)
  show ?thesis
    using t p n(1) i those_map_update[OF _ rank off_rank]
    by (simp add: node_ok_level on_pathD timing_node_def path_put_def)
qed

subsection \<open>State changes\<close>

text \<open>The bank after a command of the access path.\<close>

definition bank_after :: "ram_command \<Rightarrow> int \<Rightarrow> dram_node \<Rightarrow> dram_node" where
  "bank_after cmd row n =
     (if cmd = ACT then n\<lparr>dn_state := Opened, dn_row_state := omap_put row Opened (dn_row_state n)\<rparr>
      else if cmd = PRE then n\<lparr>dn_state := Closed, dn_row_state := []\<rparr>
      else n)"

lemma update_state_path:
  assumes ok: "tree_ok s ch R B t" and i: "i < R" and j: "j < B" and p: "on_path ch i j addr"
    and cmd: "cmd \<in> {ACT, PRE, RD, WR, REF}"
  shows "update_state cmd addr t = Some (path_put i j (the_node t) (the_node (rank_node t i))
     (bank_after cmd (addr ! 3) (the_node (bank_node t i j))) t)"
proof (rule tree_path_cases[OF ok i j])
  fix m cs mr rs mb
  assume t: "t = Node m cs" "cs ! i = Node mr rs" "rs ! j = Node mb []" "length cs = R" "length rs = B"
    "node_ok s Channel ch m" "node_ok s Rank (int i) mr" "node_ok s Bank (int j) mb"
  have ne: "cs \<noteq> []" "rs \<noteq> []" using t i j by auto
  have id: "cs[i := Node mr (rs[j := Node mb []])] = cs" "cs[i := Node mr rs] = cs"
    using t by (metis list_update_id)+
  from cmd show ?thesis
    using t i j p ne id
    by (auto simp: child_index_def node_ok_level on_pathD apply_lambda_def bank_after_def path_put_def
        ram_open_row_def close_bank_def update_state.simps)
qed

subsection \<open>Issuing a command\<close>

definition row_after :: "ram_command \<Rightarrow> int \<Rightarrow> int option \<Rightarrow> int option" where
  "row_after cmd row old = (if cmd = ACT then Some row else if cmd = PRE then None else old)"

definition chan_ref :: "ram_dram \<Rightarrow> int" where
  "chan_ref t = dn_next (the_node t) REF"

definition ref_next :: "ram_dram \<Rightarrow> nat \<Rightarrow> int" where
  "ref_next t i = dn_next (the_node (rank_node t i)) REF"

text \<open>The longest time that a command of the access or refresh path blocks a refresh.\<close>

definition ref_gap :: "hbm_speed \<Rightarrow> int" where
  "ref_gap s = max (hs_nRP s) (hs_nRFC s)"

lemma refresh_constraints:
  shows "\<forall>e\<in>set (timing s Channel cmd). te_cmd e \<noteq> REF"
    and "cmd \<in> {ACT, RD, WR} \<Longrightarrow> \<forall>e\<in>set (timing s Rank cmd). te_cmd e \<noteq> REF"
    and "cmd \<in> {ACT, PRE, RD, WR, REF} \<Longrightarrow> \<forall>e\<in>set (timing s Rank cmd). te_cmd e = REF \<longrightarrow> te_dist e = 1 \<and> te_val e \<le> ref_gap s"
  by (auto simp: timing_def channel_pushes_def rank_pushes_def push_def Let_def ref_gap_def)

lemma node_ok_clk: "node_ok s l i n \<Longrightarrow> node_ok s l i (n\<lparr>dn_cur_clk := clk\<rparr>)"
  by (simp add: node_ok_def)

lemma node_ok_bank_after: "node_ok s l i (bank_after cmd row n) = node_ok s l i n"
  by (simp add: node_ok_def bank_after_def)

lemma bank_ok_after:
  assumes "bank_ok n" "cmd = ACT \<Longrightarrow> open_row_of n = None"
  shows "bank_ok (bank_after cmd row n)" "open_row_of (bank_after cmd row n) = row_after cmd row (open_row_of n)"
  using assms by (auto simp: bank_ok_def bank_after_def row_after_def open_row_of_def)

lemma tree_ok_clk: "tree_ok s ch R B t \<Longrightarrow> tree_ok s ch R B (upd_node (\<lambda>n. n\<lparr>dn_cur_clk := clk\<rparr>) t)"
  by (simp add: tree_ok_def node_ok_clk)

lemma node_ok_counters:
  "node_ok s l i (n\<lparr>dn_serving_reads := x\<rparr>) = node_ok s l i n"
  "node_ok s l i (n\<lparr>dn_serving_writes := x\<rparr>) = node_ok s l i n"
  by (simp_all add: node_ok_def)

lemma tree_ok_upd_node: "tree_ok s ch R B (Node n (children t)) \<Longrightarrow> node_ok s Channel ch n' \<Longrightarrow> tree_ok s ch R B (Node n' (children t))"
  by (simp add: tree_ok_def)

text \<open>
  Issuing a command of the access path, or a refresh, on the path to bank \<open>j\<close> of rank \<open>i\<close>: the tree
  stays well formed, only the state of that bank changes, the serving counters do not, and the next
  refresh of a rank moves only for \<open>PRE\<close> and \<open>REF\<close> of that rank, by at most \<open>ref_gap\<close>.
\<close>

lemma dram_update_runs:
  assumes ok: "tree_ok s ch R B t" and i: "i < R" and j: "j < B" and p: "on_path ch i j addr"
    and cmd: "cmd \<in> {ACT, PRE, RD, WR, REF}" and act: "cmd = ACT \<Longrightarrow> row_of t i j = None"
  shows "runs (dram_update s cmd addr clk t) (\<lambda>t'. tree_ok s ch R B t' \<and> cur0 t' = cur0 t \<and> chan_ref t' = chan_ref t \<and>
     (\<forall>i'<R. cur1 t' i' = cur1 t i' \<and> (i' \<noteq> i \<or> cmd \<in> {ACT, RD, WR} \<longrightarrow> ref_next t' i' = ref_next t i') \<and>
        ref_next t' i' \<le> max (ref_next t i') (clk + ref_gap s)) \<and>
     (\<forall>i'<R. \<forall>j'<B. cur2 t' i' j' = cur2 t i' j' \<and>
        row_of t' i' j' = (if i' = i \<and> j' = j then row_after cmd (addr ! 3) (row_of t i j) else row_of t i' j')))"
proof -
  let ?t1 = "upd_node (\<lambda>n. n\<lparr>dn_cur_clk := clk\<rparr>) t"
  have ok1: "tree_ok s ch R B ?t1" by (rule tree_ok_clk[OF ok])
  note D = tree_okD[OF ok]
  let ?n = "(the_node t)\<lparr>dn_cur_clk := clk\<rparr>" and ?r = "the_node (rank_node t i)"
    and ?b = "bank_after cmd (addr ! 3) (the_node (bank_node t i j))"
  have st: "update_state cmd addr ?t1 = Some (path_put i j ?n ?r ?b ?t1)"
    using update_state_path[OF ok1 i j p cmd] by simp
  have nb_ok: "bank_ok ?b" and b_row: "open_row_of ?b = row_after cmd (addr ! 3) (row_of t i j)"
    using bank_ok_after[OF D(8)[OF i j]] act by (auto simp: row_of_def)
  have oks: "node_ok s Channel ch ?n" "node_ok s Bank (int j) ?b"
    using D(1) D(6)[OF i j] by (simp_all add: node_ok_clk node_ok_bank_after)
  have ok2: "tree_ok s ch R B (path_put i j ?n ?r ?b ?t1)"
    by (rule tree_ok_path_put[OF ok1 i j oks(1) D(3,4)[OF i] oks(2) nb_ok])
  have sel: "the_node (rank_node (path_put i j ?n ?r ?b ?t1) i) = ?r" "the_node (bank_node (path_put i j ?n ?r ?b ?t1) i j) = ?b"
    using rank_node_path_put(1)[OF ok1 i j i] bank_node_path_put[OF ok1 i j i j] by simp_all
  obtain n where n: "timing_node s cmd clk ?n = Some n" "node_ok s Channel ch n" "timing_frame ?n n"
      "delayed_by (timing s Channel cmd) clk ?n n"
    using timing_node_runs[OF oks(1), of cmd clk] by (auto simp: runs_iff)
  obtain r where r: "timing_node s cmd clk ?r = Some r" "node_ok s Rank (int i) r" "timing_frame ?r r"
      "delayed_by (timing s Rank cmd) clk ?r r"
    using timing_node_runs[OF D(3)[OF i], of cmd clk] by (auto simp: runs_iff)
  obtain b where b: "timing_node s cmd clk ?b = Some b" "node_ok s Bank (int j) b" "timing_frame ?b b"
    using timing_node_runs[OF oks(2), of cmd clk] by (auto simp: runs_iff)
  have tm: "update_timing s cmd addr clk (path_put i j ?n ?r ?b ?t1) = Some (path_put i j n r b t)"
    using update_timing_path[OF ok2 i j p, of cmd clk n r b] n(1) r(1) b(1) sel
      path_put_path_put[OF ok1 i j] by (simp add: path_put_def)
  have bok: "bank_ok b" "open_row_of b = open_row_of ?b" "dn_state r = PowerUp"
    using nb_ok b(3) r(3) D(4)[OF i] by (auto simp: bank_ok_def timing_frame_def open_row_of_def)
  have ok3: "tree_ok s ch R B (path_put i j n r b t)"
    by (rule tree_ok_path_put[OF ok i j n(2) r(2) bok(3) b(2) bok(1)])
  note sel3 = rank_node_path_put(1)[OF ok i j] bank_node_path_put[OF ok i j]
  have c_ref: "dn_next n REF = dn_next (the_node t) REF"
    using n(4) refresh_constraints(1)[of s cmd] by (simp add: delayed_by_def)
  have r_ref: "cmd \<in> {ACT, RD, WR} \<Longrightarrow> dn_next r REF = dn_next ?r REF"
    "dn_next r REF \<le> max (dn_next ?r REF) (clk + ref_gap s)"
    using r(4) refresh_constraints(2)[of cmd s] refresh_constraints(3)[OF cmd, of s] unfolding delayed_by_def by blast+
  let ?bump = "\<lambda>t. let t = (if cmd = RD \<or> cmd = RDA then upd_node (\<lambda>n. n\<lparr>dn_serving_reads := dn_serving_reads n + 1\<rparr>) t else t)
     in (if cmd = WR \<or> cmd = WRA then upd_node (\<lambda>n. n\<lparr>dn_serving_writes := dn_serving_writes n + 1\<rparr>) t else t)"
  have up: "dram_update s cmd addr clk t = Some (?bump (path_put i j n r b t))"
    unfolding dram_update_def using st tm by (simp add: Let_def)
  have bump_ok: "tree_ok s ch R B (?bump t')" if "tree_ok s ch R B t'" for t'
    using that by (simp add: Let_def tree_ok_def node_ok_counters)
  have same: "children (?bump t') = children t'" "cur0 (?bump t') = cur0 t'" "chan_ref (?bump t') = chan_ref t'" for t'
    by (simp_all add: Let_def cur0_def chan_ref_def)
  show ?thesis
    unfolding up runs_Some
    using bump_ok[OF ok3] same sel3 n(3) r(3) b(3) c_ref r_ref bok(2) b_row
    by (auto simp: cur0_def cur1_def cur2_def row_of_def chan_ref_def ref_next_def timing_frame_def bank_after_def)
qed

end
