(* ===== verification/Ram_Sched.thy ===== *)
theory Ram_Sched
  imports Ram_Tree
begin

section \<open>What the scheduler picks\<close>

text \<open>
  The default policy, \<^verbatim>\<open>FRFCFS_PriorHit\<close>, on a queue whose requests all have well-formed addresses:
  it returns a request that is ready and hits an open row if there is one; otherwise it goes through
  the requests that would not close a row some other request still hits, and among them takes the
  oldest of the ready ones (or the oldest, when none is ready).
\<close>

text \<open>The answers of the channel for the requests of a queue.\<close>

definition answers :: "ram_request list \<Rightarrow> ram_ctrl \<Rightarrow> (nat \<Rightarrow> bool) \<Rightarrow> (nat \<Rightarrow> bool) \<Rightarrow> (nat \<Rightarrow> bool) \<Rightarrow> bool" where
  "answers q c rd hit opn \<longleftrightarrow> (\<forall>k<length q. is_ready (q ! k) c = Some (rd k) \<and>
     is_row_hit (q ! k) c = Some (hit k) \<and> is_row_open (q ! k) c = Some (opn k))"

lemma ready_hit_eq: "answers q c rd hit opn \<Longrightarrow> k < length q \<Longrightarrow> ready_hit (q ! k) c = Some (rd k \<and> hit k)"
  by (simp add: answers_def ready_hit_def)

text \<open>The better of two requests when readiness is \<open>rd\<close>.\<close>

definition better :: "ram_request list \<Rightarrow> (nat \<Rightarrow> bool) \<Rightarrow> nat \<Rightarrow> nat \<Rightarrow> bool" where
  "better q rd h k \<longleftrightarrow> (rd k \<longrightarrow> rd h) \<and>
     (rd k = rd h \<longrightarrow> rq_arrive (q ! h) \<le> rq_arrive (q ! k) \<and> (k < h \<longrightarrow> rq_arrive (q ! h) < rq_arrive (q ! k)))"

lemma better_prefer:
  assumes "h < j"
  shows "better q rd (prefer_ready (rd h) (rd j) q h j) j"
    and "better q rd h k \<Longrightarrow> k < j \<Longrightarrow> better q rd (prefer_ready (rd h) (rd j) q h j) k"
proof -
  show "better q rd (prefer_ready (rd h) (rd j) q h j) j"
    using assms by (cases "rd h"; cases "rd j") (auto simp: better_def prefer_ready_def older_def)
  show "better q rd (prefer_ready (rd h) (rd j) q h j) k" if "better q rd h k" "k < j"
    using that assms
    by (cases "rd h"; cases "rd j"; cases "rd k"; cases "rq_arrive (q ! h) \<le> rq_arrive (q ! j)")
      (simp_all add: better_def prefer_ready_def older_def)
qed

lemma hit_fold:
  assumes a: "answers q c rd hit opn" and n: "0 < length q"
  shows "runs (foldM (compare FRFCFS_PriorHit q) [1..<length q] (0, c))
     (\<lambda>(h, c'). c' = c \<and> h < length q \<and> (\<forall>k<length q. better q (\<lambda>k. rd k \<and> hit k) h k))"
proof -
  let ?r = "\<lambda>k. rd k \<and> hit k"
  let ?f = "\<lambda>j st. if j = 0 then Some (0, c) else compare FRFCFS_PriorHit q j st"
  let ?I = "\<lambda>m (h, c'). c' = c \<and> (0 < m \<longrightarrow> h < m) \<and> (\<forall>k<m. better q ?r h k)"
  have eq: "foldM ?f [0..<length q] (0, c) = foldM (compare FRFCFS_PriorHit q) [1..<length q] (0, c)"
  proof -
    have "foldM ?f xs st = foldM (compare FRFCFS_PriorHit q) xs st" if "0 \<notin> set xs" for xs st
      using that by (induction xs arbitrary: st) (auto intro!: Option.bind_cong)
    then show ?thesis using n by (simp add: upt_conv_Cons)
  qed
  have "runs (foldM ?f [0..<length q] (0, c)) (?I (length q))"
  proof (rule foldM_upt_runs)
    fix j and st :: "nat \<times> ram_ctrl"
    assume j: "j < length q" and I: "?I j st"
    obtain h c' where st: "st = (h, c')" by (cases st)
    show "runs (?f j st) (?I (Suc j))"
    proof (cases "j = 0")
      case False
      then have h: "h < j" "c' = c" using I st by auto
      then have "compare FRFCFS_PriorHit q j st = Some (prefer_ready (?r h) (?r j) q h j, c)"
        using ready_hit_eq[OF a] j by (simp add: st)
      moreover have "better q ?r (prefer_ready (?r h) (?r j) q h j) k" if "k < Suc j" for k
        using better_prefer[OF h(1), of q ?r] I st that by (cases "k = j") auto
      ultimately show ?thesis using False h by (auto simp: prefer_ready_def older_def)
    qed (simp add: better_def)
  qed simp
  then show ?thesis
    unfolding eq using n by (auto elim!: runs_mono)
qed

lemma hit_rowgroups_eq:
  assumes "answers q c rd hit opn"
  shows "\<exists>gs. hit_rowgroups q c = Some gs \<and> (gs = [] \<longleftrightarrow> (\<forall>k<length q. \<not> hit k)) \<and>
     (\<forall>g. g \<in> set gs \<longleftrightarrow> (\<exists>k<length q. hit k \<and> g = take 3 (rq_addr_vec (q ! k))))"
  using assms
proof (induction q arbitrary: rd hit opn)
  case (Cons r q)
  have "answers q c (rd \<circ> Suc) (hit \<circ> Suc) (opn \<circ> Suc)"
    using Cons.prems by (auto simp: answers_def)
  from Cons.IH[OF this] obtain gs where gs: "hit_rowgroups q c = Some gs"
    "gs = [] \<longleftrightarrow> (\<forall>k<length q. \<not> hit (Suc k))"
    "\<And>g. g \<in> set gs \<longleftrightarrow> (\<exists>k<length q. hit (Suc k) \<and> g = take 3 (rq_addr_vec (q ! k)))" by auto
  have r: "is_row_hit r c = Some (hit 0)" using Cons.prems by (auto simp: answers_def)
  show ?case
    by (auto simp: r gs numeral_eq_Suc All_less_Suc2 Ex_less_Suc2)
qed simp

text \<open>Which requests would close a row that another request of the queue hits.\<close>

definition violates :: "ram_request list \<Rightarrow> (nat \<Rightarrow> bool) \<Rightarrow> (nat \<Rightarrow> bool) \<Rightarrow> nat \<Rightarrow> bool" where
  "violates q hit opn k \<longleftrightarrow> \<not> hit k \<and> opn k \<and>
     (\<exists>k'<length q. hit k' \<and> take 3 (rq_addr_vec (q ! k)) = take 3 (rq_addr_vec (q ! k')))"

lemma pick_fold:
  assumes a: "answers q c rd hit opn" and gs: "\<And>g. g \<in> set gs \<longleftrightarrow> (\<exists>k<length q. hit k \<and> g = take 3 (rq_addr_vec (q ! k)))"
  shows "runs (foldM (pick_step q gs) [0..<length q] (None, c)) (\<lambda>(head, c'). c' = c \<and> (case head of
       None \<Rightarrow> \<forall>k<length q. violates q hit opn k
     | Some h \<Rightarrow> h < length q \<and> \<not> violates q hit opn h \<and>
         (\<forall>k<length q. \<not> violates q hit opn k \<longrightarrow> better q rd h k)))"
proof -
  let ?v = "violates q hit opn"
  let ?I = "\<lambda>m (head, c'). c' = c \<and> (case head of None \<Rightarrow> \<forall>k<m. ?v k
     | Some h \<Rightarrow> h < m \<and> \<not> ?v h \<and> (\<forall>k<m. \<not> ?v k \<longrightarrow> better q rd h k))"
  have "runs (foldM (pick_step q gs) [0..<length q] (None, c)) (?I (length q))"
  proof (rule foldM_upt_runs)
    fix j and st :: "nat option \<times> ram_ctrl"
    assume j: "j < length q" and I: "?I j st"
    obtain head c' where st: "st = (head, c')" by (cases st)
    have c': "c' = c" using I st by auto
    have v: "violates_hit gs (q ! j) c = Some (?v j)"
      using a j gs[of "take 3 (rq_addr_vec (q ! j))"] by (auto simp: violates_hit_def answers_def violates_def numeral_eq_Suc)
    show "runs (pick_step q gs j st) (?I (Suc j))"
    proof (cases "?v j")
      case True
      then show ?thesis
        using I v by (auto simp: pick_step_def st c' runs_simps less_Suc_eq split: option.splits)
    next
      case nv: False
      show ?thesis
      proof (cases head)
        case None
        then show ?thesis
          using I v nv by (auto simp: pick_step_def st c' runs_simps less_Suc_eq better_def)
      next
        case (Some h)
        then have h: "h < j" "\<not> ?v h" "\<forall>k<j. \<not> ?v k \<longrightarrow> better q rd h k" using I st by auto
        have cmp: "compare FRFCFS q j (h, c) = Some (prefer_ready (rd h) (rd j) q h j, c)"
          using a j h by (simp add: answers_def)
        have "prefer_ready (rd h) (rd j) q h j = h \<or> prefer_ready (rd h) (rd j) q h j = j"
          by (auto simp: prefer_ready_def older_def)
        then show ?thesis
          using v nv h cmp better_prefer[OF h(1), of q rd]
          by (auto simp: pick_step_def st c' runs_simps Some less_Suc_eq)
      qed
    qed
  qed simp
  then show ?thesis by simp
qed

lemma get_head_runs:
  assumes a: "answers q c rd hit opn" and ty: "rc_sched_type c = FRFCFS_PriorHit"
  shows "runs (get_head q c) (\<lambda>(head, c'). c' = c \<and> (case head of
       None \<Rightarrow> \<forall>k<length q. violates q hit opn k
     | Some h \<Rightarrow> h < length q \<and> \<not> violates q hit opn h \<and>
         (if \<exists>k<length q. rd k \<and> hit k then rd h \<and> hit h \<and> (\<forall>k<length q. rd k \<and> hit k \<longrightarrow> better q rd h k)
          else (\<forall>k<length q. \<not> violates q hit opn k \<longrightarrow> better q rd h k))))"
proof (cases "q = []")
  case False
  let ?r = "\<lambda>k. rd k \<and> hit k"
  obtain h where h: "foldM (compare FRFCFS_PriorHit q) [1..<length q] (0, c) = Some (h, c)"
    "h < length q" "\<forall>k<length q. better q ?r h k"
    using hit_fold[OF a] False by (auto simp: runs_iff)
  obtain gs where gs: "hit_rowgroups q c = Some gs"
    "\<And>g. g \<in> set gs \<longleftrightarrow> (\<exists>k<length q. hit k \<and> g = take 3 (rq_addr_vec (q ! k)))"
    using hit_rowgroups_eq[OF a] by blast
  show ?thesis
  proof (cases "rd h \<and> hit h")
    case True
    then have "\<forall>k<length q. rd k \<and> hit k \<longrightarrow> better q rd h k"
      using h(3) by (auto simp: better_def)
    then show ?thesis
      using True h(1,2) False ready_hit_eq[OF a h(2)] by (auto simp: get_head_def ty violates_def)
  next
    case no: False
    then have none: "\<not> (\<exists>k<length q. rd k \<and> hit k)" using h(3) by (auto simp: better_def)
    have "get_head q c = foldM (pick_step q gs) [0..<length q] (None, c)"
      using False no h(1) ready_hit_eq[OF a h(2)] gs(1) by (auto simp: get_head_def ty)
    then show ?thesis
      using pick_fold[OF a gs(2)] none by (auto elim!: runs_mono split: option.splits)
  qed
qed (simp add: get_head_def)

end
