(* ===== verification/Ram_Ctrl.thy ===== *)
theory Ram_Ctrl
  imports Ram_Sched
begin

section \<open>The invariant of a channel controller\<close>

text \<open>
  The invariant has a part for each piece of the controller's state: the DRAM tree is well formed;
  the row table lists exactly the open rows; the queues hold requests with addresses on paths of the
  tree; the serving counters of every node count the requests on its path that have been started and
  not finished; the statistics vectors are long enough; the refresh generator runs with the clock;
  and the queue of refreshes meets a deadline that makes its overflow impossible.
\<close>

subsection \<open>The parts of the invariant\<close>

definition spec_ok :: "nat \<Rightarrow> hbm \<Rightarrow> bool" where
  "spec_ok R spec \<longleftrightarrow> 2 \<le> hb_read_latency spec \<and> 1 \<le> ref_gap (hb_speed spec) \<and>
     2 * int R * ref_gap (hb_speed spec) < hs_nREFI (hb_speed spec) div 2 \<and> 2 * R \<le> queue_max"

definition consts_ok :: "nat \<Rightarrow> ram_ctrl \<Rightarrow> bool" where
  "consts_ok R c \<longleftrightarrow> spec_ok R (rc_spec c) \<and> rc_sched_type c = FRFCFS_PriorHit \<and> rc_policy_type c = PolicyOpened \<and>
     length (rc_cmd_traces c) = R"

definition table_ok :: "int \<Rightarrow> nat \<Rightarrow> ram_dram \<Rightarrow> row_table \<Rightarrow> bool" where
  "table_ok ch R t tab \<longleftrightarrow> omap_wf tab \<and>
     (\<forall>k\<in>fst ` set tab. \<exists>i<R. \<exists>j<2. k = [ch, int i, int j]) \<and>
     (\<forall>i<R. \<forall>j<2. map_option re_row (map_of tab [ch, int i, int j]) = row_of t i j)"

definition rank_ix :: "ram_request \<Rightarrow> nat" where
  "rank_ix q = nat (rq_addr_vec q ! 1)"

definition bank_ix :: "ram_request \<Rightarrow> nat" where
  "bank_ix q = nat (rq_addr_vec q ! 2)"

definition req_ok :: "int \<Rightarrow> nat \<Rightarrow> nat \<Rightarrow> int \<Rightarrow> ram_req_type \<Rightarrow> ram_request \<Rightarrow> bool" where
  "req_ok ch R K clk ty q \<longleftrightarrow> rq_type q = ty \<and> 0 \<le> rq_coreid q \<and> rq_coreid q < int K \<and> rq_arrive q \<le> clk \<and>
     rank_ix q < R \<and> bank_ix q < 2 \<and> on_path ch (rank_ix q) (bank_ix q) (rq_addr_vec q)"

definition queues_ok :: "int \<Rightarrow> nat \<Rightarrow> nat \<Rightarrow> int \<Rightarrow> ram_request list \<Rightarrow> ram_request list \<Rightarrow> ram_request list \<Rightarrow> bool" where
  "queues_ok ch R K clk readq writeq pending \<longleftrightarrow> length readq \<le> queue_max \<and> length writeq \<le> queue_max \<and>
     (\<forall>q\<in>set readq. req_ok ch R K clk READ q) \<and> (\<forall>q\<in>set writeq. req_ok ch R K clk WRITE q) \<and>
     (\<forall>q\<in>set pending. req_ok ch R K clk READ q)"

text \<open>Requests that have issued a command and still occupy the channel: the ones a serving counter counts.\<close>

definition slow :: "ram_request \<Rightarrow> bool" where
  "slow q \<longleftrightarrow> rq_depart q - rq_arrive q > 1"

definition count_if :: "('a \<Rightarrow> bool) \<Rightarrow> 'a list \<Rightarrow> int" where
  "count_if P xs = int (length (filter P xs))"

definition started :: "(ram_request \<Rightarrow> bool) \<Rightarrow> ram_request list \<Rightarrow> ram_request list \<Rightarrow> ram_request list \<Rightarrow> int" where
  "started P readq writeq pending =
     count_if (\<lambda>q. \<not> rq_is_first_command q \<and> P q) readq + count_if (\<lambda>q. \<not> rq_is_first_command q \<and> P q) writeq +
     count_if (\<lambda>q. slow q \<and> P q) pending"

definition serving_ok :: "nat \<Rightarrow> ram_dram \<Rightarrow> ram_request list \<Rightarrow> ram_request list \<Rightarrow> ram_request list \<Rightarrow> bool" where
  "serving_ok R t readq writeq pending \<longleftrightarrow>
     cur0 t = started (\<lambda>q. True) readq writeq pending \<and>
     (\<forall>i<R. cur1 t i = started (\<lambda>q. rank_ix q = i) readq writeq pending) \<and>
     (\<forall>i<R. \<forall>j<2. cur2 t i j = started (\<lambda>q. rank_ix q = i \<and> bank_ix q = j) readq writeq pending)"

definition stats_ok :: "nat \<Rightarrow> nat \<Rightarrow> ctrl_stats \<Rightarrow> bool" where
  "stats_ok R K st \<longleftrightarrow>
     length (cs_read_row_hits st) = K \<and> length (cs_read_row_misses st) = K \<and> length (cs_read_row_conflicts st) = K \<and>
     length (cs_write_row_hits st) = K \<and> length (cs_write_row_misses st) = K \<and> length (cs_write_row_conflicts st) = K \<and>
     length (cs_bank_reads st) = 2 * R \<and> length (cs_bank_writes st) = 2 * R \<and>
     length (cs_bank_read_row_hits st) = 2 * R \<and> length (cs_bank_read_row_misses st) = 2 * R \<and>
     length (cs_bank_read_row_conflicts st) = 2 * R \<and> length (cs_bank_write_row_hits st) = 2 * R \<and>
     length (cs_bank_write_row_misses st) = 2 * R \<and> length (cs_bank_write_row_conflicts st) = 2 * R"

definition refresh_ok :: "nat \<Rightarrow> hbm_speed \<Rightarrow> int \<Rightarrow> refresh \<Rightarrow> bool" where
  "refresh_ok R s clk rf \<longleftrightarrow> rf_clk rf = clk \<and> rf_max_bank_count rf = 2 \<and> rf_n_banks rf = 2 * int R \<and>
     length (rf_bank_ref_interval rf) = 2 * R \<and> length (rf_bank_refreshed rf) = 2 * R \<and>
     (\<forall>x\<in>set (rf_bank_ref_interval rf). hs_nREFI s div 2 \<le> x)"

text \<open>
  The refresh queue. The request at its head is served at clock \<open>max D (ref_next \<dots>)\<close> at the latest, where
  \<open>D\<close> is the next clock at which the controller schedules, and each request behind it within another
  \<open>ref_gap\<close>; that is before half a refresh interval has passed since its arrival.
\<close>

definition bank_no :: "ram_request \<Rightarrow> nat" where
  "bank_no q = 2 * rank_ix q + bank_ix q"

definition deadlines :: "hbm_speed \<Rightarrow> int \<Rightarrow> ram_dram \<Rightarrow> ram_request list \<Rightarrow> bool" where
  "deadlines s D t otherq \<longleftrightarrow> (\<forall>p<length otherq.
     max D (ref_next t (rank_ix (otherq ! 0))) + int p * ref_gap s < rq_arrive (otherq ! p) + hs_nREFI s div 2)"

definition refq_ok :: "int \<Rightarrow> nat \<Rightarrow> nat \<Rightarrow> hbm_speed \<Rightarrow> int \<Rightarrow> int \<Rightarrow> ram_dram \<Rightarrow> refresh \<Rightarrow> ram_request list \<Rightarrow> bool" where
  "refq_ok ch R K s clk D t rf otherq \<longleftrightarrow>
     chan_ref t = - 1 \<and> (\<forall>i<R. ref_next t i \<le> clk + ref_gap s) \<and>
     (\<forall>q\<in>set otherq. req_ok ch R K clk REFRESH q \<and> rq_arrive q = rf_bank_refreshed rf ! bank_no q) \<and>
     distinct (map bank_no otherq) \<and> sorted_wrt (\<le>) (map rq_arrive otherq) \<and> deadlines s D t otherq"

definition ctrl_inv :: "int \<Rightarrow> nat \<Rightarrow> nat \<Rightarrow> int \<Rightarrow> int \<Rightarrow> ram_ctrl \<Rightarrow> bool" where
  "ctrl_inv ch R K rclk D c \<longleftrightarrow> consts_ok R c \<and> 0 \<le> rc_clk c \<and> 0 < K \<and>
     tree_ok (hb_speed (rc_spec c)) ch R 2 (rc_channel c) \<and> table_ok ch R (rc_channel c) (rc_rowtable c) \<and>
     queues_ok ch R K (rc_clk c) (rc_readq c) (rc_writeq c) (rc_pending c) \<and>
     serving_ok R (rc_channel c) (rc_readq c) (rc_writeq c) (rc_pending c) \<and> stats_ok R K (rc_stats c) \<and>
     refresh_ok R (hb_speed (rc_spec c)) rclk (rc_refresh c) \<and>
     refq_ok ch R K (hb_speed (rc_spec c)) (rc_clk c) D (rc_channel c) (rc_refresh c) (rc_otherq c)"

text \<open>Between two ticks the next scheduling is at the next clock.\<close>

definition ctrl_ok :: "int \<Rightarrow> nat \<Rightarrow> nat \<Rightarrow> ram_ctrl \<Rightarrow> bool" where
  "ctrl_ok ch R K c \<longleftrightarrow> ctrl_inv ch R K (rc_clk c) (rc_clk c + 1) c"

lemma ctrl_invD:
  assumes "ctrl_inv ch R K rclk D c"
  shows "consts_ok R c" "0 \<le> rc_clk c" "0 < K" "tree_ok (hb_speed (rc_spec c)) ch R 2 (rc_channel c)"
    "table_ok ch R (rc_channel c) (rc_rowtable c)" "queues_ok ch R K (rc_clk c) (rc_readq c) (rc_writeq c) (rc_pending c)"
    "serving_ok R (rc_channel c) (rc_readq c) (rc_writeq c) (rc_pending c)" "stats_ok R K (rc_stats c)"
    "refresh_ok R (hb_speed (rc_spec c)) rclk (rc_refresh c)"
    "refq_ok ch R K (hb_speed (rc_spec c)) (rc_clk c) D (rc_channel c) (rc_refresh c) (rc_otherq c)"
  using assms by (auto simp: ctrl_inv_def)

lemma req_okD:
  assumes "req_ok ch R K clk ty q"
  shows "rq_type q = ty" "rank_ix q < R" "bank_ix q < 2" "on_path ch (rank_ix q) (bank_ix q) (rq_addr_vec q)"
    "0 \<le> rq_coreid q" "rq_coreid q < int K" "rq_arrive q \<le> clk"
  using assms by (auto simp: req_ok_def)

lemma req_ok_mono: "req_ok ch R K clk ty q \<Longrightarrow> clk \<le> clk' \<Longrightarrow> req_ok ch R K clk' ty q"
  by (simp add: req_ok_def)

lemma queues_ok_mono: "queues_ok ch R K clk a b p \<Longrightarrow> clk \<le> clk' \<Longrightarrow> queues_ok ch R K clk' a b p"
  by (auto simp: queues_ok_def intro: req_ok_mono)

lemma bank_no_less: "req_ok ch R K clk ty q \<Longrightarrow> bank_no q < 2 * R"
  by (auto simp: req_ok_def bank_no_def)

subsection \<open>Counting\<close>

lemma count_if_append [simp]: "count_if P (xs @ ys) = count_if P xs + count_if P ys"
  by (simp add: count_if_def)

lemma count_if_Nil [simp]: "count_if P [] = 0"
  by (simp add: count_if_def)

lemma count_if_Cons [simp]: "count_if P (x # xs) = (if P x then 1 else 0) + count_if P xs"
  by (simp add: count_if_def)

lemma count_if_nonneg: "0 \<le> count_if P xs"
  by (simp add: count_if_def)

lemma count_if_update:
  "i < length xs \<Longrightarrow> count_if P (xs[i := y]) = count_if P xs - (if P (xs ! i) then 1 else 0) + (if P y then 1 else 0)"
proof (induction xs arbitrary: i)
  case (Cons x xs)
  then show ?case by (cases i) simp_all
qed simp

lemma count_if_delete:
  "i < length xs \<Longrightarrow> count_if P (take i xs @ drop (Suc i) xs) = count_if P xs - (if P (xs ! i) then 1 else 0)"
proof (induction xs arbitrary: i)
  case (Cons x xs)
  then show ?case by (cases i) simp_all
qed simp

lemma count_if_pos: "x \<in> set xs \<Longrightarrow> P x \<Longrightarrow> 0 < count_if P xs"
  by (auto simp: count_if_def filter_empty_conv)

lemma serving_positive:
  assumes s: "serving_ok R t readq writeq pending" and q: "req_ok ch R K clk ty q"
    and m: "q \<in> set readq \<and> \<not> rq_is_first_command q \<or> q \<in> set writeq \<and> \<not> rq_is_first_command q \<or> q \<in> set pending \<and> slow q"
  shows "0 < cur0 t" "0 < cur1 t (rank_ix q)" "0 < cur2 t (rank_ix q) (bank_ix q)"
proof -
  have pos: "0 < started P readq writeq pending" if "P q" for P
  proof -
    have "0 < count_if (\<lambda>q. \<not> rq_is_first_command q \<and> P q) readq \<or> 0 < count_if (\<lambda>q. \<not> rq_is_first_command q \<and> P q) writeq \<or>
        0 < count_if (\<lambda>q. slow q \<and> P q) pending"
      using m that count_if_pos[of q readq "\<lambda>q. \<not> rq_is_first_command q \<and> P q"]
        count_if_pos[of q writeq "\<lambda>q. \<not> rq_is_first_command q \<and> P q"] count_if_pos[of q pending "\<lambda>q. slow q \<and> P q"]
      by argo
    then show ?thesis
      using count_if_nonneg[of "\<lambda>q. \<not> rq_is_first_command q \<and> P q" readq]
        count_if_nonneg[of "\<lambda>q. \<not> rq_is_first_command q \<and> P q" writeq] count_if_nonneg[of "\<lambda>q. slow q \<and> P q" pending]
      by (auto simp: started_def)
  qed
  show "0 < cur0 t" "0 < cur1 t (rank_ix q)" "0 < cur2 t (rank_ix q) (bank_ix q)"
    using s req_okD(2,3)[OF q] by (auto simp: serving_ok_def intro!: pos)
qed

text \<open>A request on the path of \<open>q\<close> starts or ends: the counters of its path follow.\<close>

lemma serving_ok_update:
  assumes s: "serving_ok R t readq writeq pending"
    and c: "cur0 t' = cur0 t + d" "\<forall>i'<R. cur1 t' i' = cur1 t i' + (if i' = rank_ix q then d else 0)"
      "\<forall>i'<R. \<forall>j'<2. cur2 t' i' j' = cur2 t i' j' + (if i' = rank_ix q \<and> j' = bank_ix q then d else 0)"
    and st: "\<And>P. (\<And>q' . P (q'\<lparr>rq_is_first_command := False\<rparr>) = P q') \<Longrightarrow> (\<And>q' x. P (q'\<lparr>rq_depart := x\<rparr>) = P q') \<Longrightarrow>
       started P readq' writeq' pending' = started P readq writeq pending + (if P q then d else 0)"
  shows "serving_ok R t' readq' writeq' pending'"
proof -
  have a: "started (\<lambda>_. True) readq' writeq' pending' = started (\<lambda>_. True) readq writeq pending + d"
    by (subst st) simp_all
  have b: "started (\<lambda>q'. rank_ix q' = i) readq' writeq' pending' =
      started (\<lambda>q'. rank_ix q' = i) readq writeq pending + (if rank_ix q = i then d else 0)" for i
    by (rule st) (simp_all add: rank_ix_def)
  have e: "started (\<lambda>q'. rank_ix q' = i \<and> bank_ix q' = j) readq' writeq' pending' =
      started (\<lambda>q'. rank_ix q' = i \<and> bank_ix q' = j) readq writeq pending + (if rank_ix q = i \<and> bank_ix q = j then d else 0)" for i j
    by (rule st) (simp_all add: rank_ix_def bank_ix_def)
  show ?thesis
    using s c by (auto simp: serving_ok_def a b e)
qed

subsection \<open>Completed reads\<close>

lemma table_ok_frame:
  assumes "table_ok ch R t tab" "\<forall>i<R. \<forall>j<2. row_of t' i j = row_of t i j"
  shows "table_ok ch R t' tab"
  using assms by (auto simp: table_ok_def)

lemma refq_ok_frame:
  assumes "refq_ok ch R K s clk D t rf otherq" "\<forall>i<R. \<forall>j<2. nexts t' i j = nexts t i j" and R: "0 < R"
  shows "refq_ok ch R K s clk D t' rf otherq"
proof -
  have n: "dn_next (the_node t') = dn_next (the_node t)"
      "\<And>i. i < R \<Longrightarrow> dn_next (the_node (rank_node t' i)) = dn_next (the_node (rank_node t i))"
    using assms(2)[rule_format, of _ 0] R by (auto simp: nexts_def)
  have "rank_ix (otherq ! 0) < R" if "p < length otherq" for p
  proof -
    have "otherq ! 0 \<in> set otherq" using that by (intro nth_mem) auto
    then show ?thesis using assms(1) by (auto simp: refq_ok_def req_ok_def)
  qed
  then have "deadlines s D t' otherq = deadlines s D t otherq"
    using n by (simp add: deadlines_def ref_next_def cong: all_cong)
  then show ?thesis
    using assms(1) n by (simp add: refq_ok_def chan_ref_def ref_next_def)
qed

lemma add_stat_ok:
  assumes "\<And>f st. stats_ok R K (upd f st) = stats_ok R K st"
  shows "ctrl_inv ch R K rclk D (add_stat upd v c) = ctrl_inv ch R K rclk D c"
  using assms by (simp add: ctrl_inv_def add_stat_def consts_ok_def)

lemma scalar_stats:
  "stats_ok R K (cs_read_latency_sum_update f st) = stats_ok R K st"
  "stats_ok R K (cs_req_queue_length_sum_update f st) = stats_ok R K st"
  "stats_ok R K (cs_read_req_queue_length_sum_update f st) = stats_ok R K st"
  "stats_ok R K (cs_write_req_queue_length_sum_update f st) = stats_ok R K st"
  "stats_ok R K (cs_row_hits_update f st) = stats_ok R K st"
  "stats_ok R K (cs_row_misses_update f st) = stats_ok R K st"
  "stats_ok R K (cs_row_conflicts_update f st) = stats_ok R K st"
  "stats_ok R K (cs_read_transaction_bytes_update f st) = stats_ok R K st"
  "stats_ok R K (cs_write_transaction_bytes_update f st) = stats_ok R K st"
  by (simp_all add: stats_ok_def)

lemmas scalar_stat_ok [simp] = scalar_stats[THEN add_stat_ok]

lemma add_stat_sel [simp]:
  "rc_spec (add_stat u v c) = rc_spec c" "rc_clk (add_stat u v c) = rc_clk c" "rc_channel (add_stat u v c) = rc_channel c"
  "rc_readq (add_stat u v c) = rc_readq c" "rc_writeq (add_stat u v c) = rc_writeq c" "rc_otherq (add_stat u v c) = rc_otherq c"
  "rc_pending (add_stat u v c) = rc_pending c" "rc_refresh (add_stat u v c) = rc_refresh c"
  by (simp_all add: add_stat_def)

lemma serve_completed_runs:
  assumes inv: "ctrl_inv ch R K rclk D c"
  shows "runs (serve_completed c) (\<lambda>(cb, c'). ctrl_inv ch R K rclk D c' \<and> rc_clk c' = rc_clk c \<and> rc_spec c' = rc_spec c)"
proof (cases "rc_pending c")
  case (Cons req rest)
  note I = ctrl_invD[OF inv]
  have req: "req_ok ch R K (rc_clk c) READ req" using I(6) Cons by (simp add: queues_ok_def)
  show ?thesis
  proof (cases "rq_depart req \<le> rc_clk c \<and> rq_depart req - rq_arrive req > 1")
    case True
    have sl: "slow req" using True by (simp add: slow_def)
    have "- 1 = (1 :: int) \<or> - 1 = (- 1 :: int) \<and> 0 < cur0 (rc_channel c) \<and> 0 < cur1 (rc_channel c) (rank_ix req) \<and>
        0 < cur2 (rc_channel c) (rank_ix req) (bank_ix req)"
      using serving_positive[OF I(7) req] Cons sl by simp
    note up = update_serving_runs[OF I(4) req_okD(2,3,4)[OF req] I(2) this]
    obtain t' where t': "update_serving_requests (rq_addr_vec req) (- 1) (rc_clk c) (rc_channel c) = Some t'"
      "tree_ok (hb_speed (rc_spec c)) ch R 2 t'" "cur0 t' = cur0 (rc_channel c) + - 1"
      "\<forall>i'<R. cur1 t' i' = cur1 (rc_channel c) i' + (if i' = rank_ix req then - 1 else 0)"
      "\<forall>i'<R. \<forall>j'<2. cur2 t' i' j' = cur2 (rc_channel c) i' j' + (if i' = rank_ix req \<and> j' = bank_ix req then - 1 else 0)"
      "\<forall>i'<R. \<forall>j'<2. row_of t' i' j' = row_of (rc_channel c) i' j'"
      "\<forall>i'<R. \<forall>j'<2. nexts t' i' j' = nexts (rc_channel c) i' j'"
      using up by (auto simp: runs_iff)
    have "serving_ok R t' (rc_readq c) (rc_writeq c) rest"
      by (rule serving_ok_update[OF I(7) t'(3,4,5)]) (auto simp: started_def Cons sl)
    moreover have "queues_ok ch R K (rc_clk c) (rc_readq c) (rc_writeq c) rest"
      using I(6) Cons by (simp add: queues_ok_def)
    moreover have "refq_ok ch R K (hb_speed (rc_spec c)) (rc_clk c) D t' (rc_refresh c) (rc_otherq c)"
      using req_okD(2)[OF req] by (intro refq_ok_frame[OF I(10) t'(7)]) simp
    moreover have "table_ok ch R t' (rc_rowtable c)" by (rule table_ok_frame[OF I(5) t'(6)])
    ultimately have "ctrl_inv ch R K rclk D (c\<lparr>rc_channel := t', rc_pending := rest\<rparr>)"
      using I t'(2) by (simp add: ctrl_inv_def consts_ok_def)
    moreover have "(add_stat cs_read_latency_sum_update x c)\<lparr>rc_channel := t', rc_pending := rest\<rparr> =
        add_stat cs_read_latency_sum_update x (c\<lparr>rc_channel := t', rc_pending := rest\<rparr>)" for x
      by (simp add: add_stat_def)
    ultimately show ?thesis
      using True t'(1) by (simp add: serve_completed_def Cons Let_def)
  next
    case False
    have "ctrl_inv ch R K rclk D (c\<lparr>rc_pending := rest\<rparr>)" if "\<not> slow req"
    proof -
      have "started P (rc_readq c) (rc_writeq c) rest = started P (rc_readq c) (rc_writeq c) (rc_pending c)" for P
        using that by (simp add: started_def Cons)
      then show ?thesis
        using I Cons by (simp add: ctrl_inv_def consts_ok_def queues_ok_def serving_ok_def)
    qed
    then show ?thesis
      using False inv by (auto simp: serve_completed_def Cons slow_def)
  qed
qed (simp add: serve_completed_def inv)

subsection \<open>Enqueueing\<close>

text \<open>A request as \<^verbatim>\<open>RamMemory::send\<close> makes it.\<close>

definition fresh_req :: "int \<Rightarrow> nat \<Rightarrow> nat \<Rightarrow> ram_request \<Rightarrow> bool" where
  "fresh_req ch R K req \<longleftrightarrow> (rq_type req = READ \<or> rq_type req = WRITE) \<and> rq_is_first_command req \<and>
     0 \<le> rq_coreid req \<and> rq_coreid req < int K \<and> rank_ix req < R \<and> bank_ix req < 2 \<and>
     on_path ch (rank_ix req) (bank_ix req) (rq_addr_vec req)"

lemma req_ok_fresh: "fresh_req ch R K req \<Longrightarrow> req_ok ch R K clk (rq_type req) (req\<lparr>rq_arrive := clk\<rparr>)"
  by (simp add: fresh_req_def req_ok_def rank_ix_def bank_ix_def)

lemma req_ok_depart: "req_ok ch R K clk ty (q\<lparr>rq_depart := x\<rparr>) = req_ok ch R K clk ty q"
  by (simp add: req_ok_def rank_ix_def bank_ix_def)

lemma enqueue_inv:
  assumes inv: "ctrl_inv ch R K rclk D c" and req: "fresh_req ch R K req"
  shows "ctrl_inv ch R K rclk D (snd (enqueue req c))"
    and "fst (enqueue req c) \<longleftrightarrow> length (the_queue (get_queue (rq_type req)) c) < queue_max"
proof -
  note I = ctrl_invD[OF inv]
  let ?q = "req\<lparr>rq_arrive := rc_clk c\<rparr>" and ?p = "req\<lparr>rq_arrive := rc_clk c, rq_depart := rc_clk c + 1\<rparr>"
  have ok: "req_ok ch R K (rc_clk c) (rq_type req) ?q" "req_ok ch R K (rc_clk c) (rq_type req) ?p"
    using req_ok_fresh[OF req] req_ok_depart[where q = ?q and x = "rc_clk c + 1"] by simp_all
  have first: "rq_is_first_command req" using req by (simp add: fresh_req_def)
  have add: "started P (rq @ [?q]) wq pd = started P rq wq pd" "started P rq (wq @ [?q]) pd = started P rq wq pd"
    "started P rq wq (pd @ [?p]) = started P rq wq pd" for P rq wq pd
    using first by (simp_all add: started_def slow_def)
  have len: "length (rc_readq c) \<le> queue_max" "length (rc_writeq c) \<le> queue_max" using I(6) by (auto simp: queues_ok_def)
  have "rq_type req = READ \<or> rq_type req = WRITE" using req by (simp add: fresh_req_def)
  then show "ctrl_inv ch R K rclk D (snd (enqueue req c))"
  proof
    assume ty: "rq_type req = READ"
    have "ctrl_inv ch R K rclk D (c\<lparr>rc_readq := rc_readq c @ [?q]\<rparr>)" if "length (rc_readq c) < queue_max"
      using I ok that ty by (simp add: ctrl_inv_def consts_ok_def queues_ok_def serving_ok_def add)
    moreover have "ctrl_inv ch R K rclk D (c\<lparr>rc_pending := rc_pending c @ [?p]\<rparr>)"
      using I ok ty by (simp add: ctrl_inv_def consts_ok_def queues_ok_def serving_ok_def add)
    moreover have "c\<lparr>rc_readq := rc_readq c, rc_pending := p\<rparr> = c\<lparr>rc_pending := p\<rparr>" for p by simp
    ultimately show ?thesis
      using ty len inv by (auto simp: enqueue_def Let_def)
  next
    assume ty: "rq_type req = WRITE"
    have "ctrl_inv ch R K rclk D (c\<lparr>rc_writeq := rc_writeq c @ [?q]\<rparr>)" if "length (rc_writeq c) < queue_max"
      using I ok that ty by (simp add: ctrl_inv_def consts_ok_def queues_ok_def serving_ok_def add)
    then show ?thesis
      using ty len inv by (auto simp: enqueue_def Let_def)
  qed
  have "length (the_queue (get_queue (rq_type req)) c) \<le> queue_max"
    using len \<open>rq_type req = READ \<or> rq_type req = WRITE\<close> by auto
  then show "fst (enqueue req c) \<longleftrightarrow> length (the_queue (get_queue (rq_type req)) c) < queue_max"
    by (auto simp: enqueue_def Let_def)
qed

subsection \<open>Refresh\<close>

lemma refq_short:
  assumes "refq_ok ch R K s clk D t rf otherq" "b < 2 * R" "b \<notin> bank_no ` set otherq"
  shows "length otherq < 2 * R"
proof -
  have "bank_no ` set otherq \<subseteq> {..<2 * R} - {b}"
    using assms bank_no_less by (fastforce simp: refq_ok_def)
  then have "card (bank_no ` set otherq) \<le> card ({..<2 * R} - {b})" by (intro card_mono) auto
  moreover have "card (bank_no ` set otherq) = length otherq"
    using assms(1) distinct_card[of "map bank_no otherq"] by (simp add: refq_ok_def)
  ultimately show ?thesis using assms(2) by simp
qed

lemma refq_ok_add:
  assumes ok: "refq_ok ch R K (hb_speed spec) clk clk t rf otherq" and sp: "spec_ok R spec"
    and b: "b < 2 * R" "b \<notin> bank_no ` set otherq" "length (rf_bank_refreshed rf) = 2 * R"
    and q: "req_ok ch R K clk REFRESH q" "bank_no q = b" "rq_arrive q = clk"
  shows "refq_ok ch R K (hb_speed spec) clk clk t (rf\<lparr>rf_bank_refreshed := (rf_bank_refreshed rf)[b := clk]\<rparr>) (otherq @ [q])"
proof -
  let ?s = "hb_speed spec" and ?q = "otherq @ [q]"
  let ?G = "ref_gap ?s" and ?H = "hs_nREFI ?s div 2"
  have len: "length otherq < 2 * R" by (rule refq_short[OF ok b(1,2)])
  have gap: "\<forall>i<R. ref_next t i \<le> clk + ?G" and old: "\<forall>q\<in>set otherq. req_ok ch R K clk REFRESH q"
    and dl: "deadlines ?s clk t otherq" using ok by (auto simp: refq_ok_def)
  have head: "rank_ix (?q ! 0) < R" using old q(1) by (cases otherq) (auto simp: req_ok_def)
  have "max clk (ref_next t (rank_ix (?q ! 0))) \<le> clk + ?G" using gap head sp by (simp add: spec_ok_def)
  moreover have "int (length otherq) * ?G \<le> (2 * int R - 1) * ?G"
    using len sp by (intro mult_right_mono) (auto simp: spec_ok_def)
  moreover have "(2 * int R - 1) * ?G = 2 * int R * ?G - ?G" by (simp add: algebra_simps)
  moreover have "2 * int R * ?G < ?H" using sp by (simp add: spec_ok_def)
  ultimately have new: "max clk (ref_next t (rank_ix (?q ! 0))) + int (length otherq) * ?G < clk + ?H"
    by linarith
  have "deadlines ?s clk t ?q"
    unfolding deadlines_def
  proof (intro allI impI)
    fix p assume p: "p < length ?q"
    show "max clk (ref_next t (rank_ix (?q ! 0))) + int p * ?G < rq_arrive (?q ! p) + ?H"
    proof (cases "p = length otherq")
      case False
      then have "p < length otherq" "otherq \<noteq> []" using p by auto
      then show ?thesis using dl by (simp add: deadlines_def nth_append)
    qed (use new q(3) in simp)
  qed
  moreover have "\<forall>q'\<in>set otherq. rq_arrive q' = (rf_bank_refreshed rf)[b := clk] ! bank_no q'"
  proof
    fix q' assume q': "q' \<in> set otherq"
    then have "bank_no q' \<noteq> b" using b(2) by auto
    then show "rq_arrive q' = (rf_bank_refreshed rf)[b := clk] ! bank_no q'"
      using ok q' by (simp add: refq_ok_def)
  qed
  ultimately show ?thesis
    using ok q b by (auto simp: refq_ok_def sorted_wrt_append req_ok_def)
qed

text \<open>A bank whose refresh is due has no refresh waiting: the deadline of the last one is over.\<close>

lemma due_not_waiting:
  assumes ok: "refq_ok ch R K s clk clk t rf otherq" and b: "H \<le> clk - rf_bank_refreshed rf ! b" "hs_nREFI s div 2 \<le> H"
    and g: "0 \<le> ref_gap s"
  shows "b \<notin> bank_no ` set otherq"
proof
  assume "b \<in> bank_no ` set otherq"
  then obtain p where p: "p < length otherq" "bank_no (otherq ! p) = b" by (auto simp: in_set_conv_nth)
  then have "rq_arrive (otherq ! p) = rf_bank_refreshed rf ! b" using ok by (auto simp: refq_ok_def)
  moreover have "max clk (ref_next t (rank_ix (otherq ! 0))) + int p * ref_gap s < rq_arrive (otherq ! p) + hs_nREFI s div 2"
    using ok p(1) unfolding refq_ok_def deadlines_def by blast
  moreover have "0 \<le> int p * ref_gap s" using g by simp
  ultimately show False using b by linarith
qed

lemma enqueue_refresh:
  "length (rc_otherq c) < queue_max \<Longrightarrow> enqueue (RamRequest_vec v REFRESH 0) c =
     (True, c\<lparr>rc_otherq := rc_otherq c @ [(RamRequest_vec v REFRESH 0)\<lparr>rq_arrive := rc_clk c\<rparr>]\<rparr>)"
  by (simp add: enqueue_def RamRequest_vec_def Let_def)

lemma refresh_due_runs:
  assumes inv: "ctrl_inv ch R K (rc_clk c) (rc_clk c) c" and b: "b < 2 * R"
  shows "runs (refresh_due (int b) c) (\<lambda>c'. ctrl_inv ch R K (rc_clk c) (rc_clk c) c' \<and> rc_clk c' = rc_clk c \<and> rc_spec c' = rc_spec c)"
proof -
  note I = ctrl_invD[OF inv]
  let ?rf = "rc_refresh c" and ?s = "hb_speed (rc_spec c)"
  have rf: "rf_clk ?rf = rc_clk c" "rf_max_bank_count ?rf = 2" "length (rf_bank_ref_interval ?rf) = 2 * R"
    "length (rf_bank_refreshed ?rf) = 2 * R" "hs_nREFI ?s div 2 \<le> rf_bank_ref_interval ?rf ! b"
    using I(9) b by (auto simp: refresh_ok_def)
  have sp: "spec_ok R (rc_spec c)" using I(1) by (simp add: consts_ok_def)
  have due: "runs (inject_bank_refresh (int b) c) (\<lambda>c'. ctrl_inv ch R K (rc_clk c) (rc_clk c) c' \<and> rc_clk c' = rc_clk c \<and> rc_spec c' = rc_spec c)"
    if "rf_bank_ref_interval ?rf ! b \<le> rc_clk c - rf_bank_refreshed ?rf ! b"
  proof -
    have nw: "b \<notin> bank_no ` set (rc_otherq c)"
      using due_not_waiting[OF I(10) that rf(5)] sp by (simp add: spec_ok_def)
    have len: "length (rc_otherq c) < queue_max"
      using refq_short[OF I(10) b nw] sp by (simp add: spec_ok_def)
    let ?v = "[ch, int b div 2, int b mod 2, - 1, - 1]"
    let ?q = "(RamRequest_vec ?v REFRESH 0)\<lparr>rq_arrive := rc_clk c\<rparr>"
    have ix: "rank_ix ?q = b div 2" "bank_ix ?q = b mod 2"
      by (simp_all add: rank_ix_def bank_ix_def RamRequest_vec_def zdiv_int nat_mod_distrib nat_div_distrib)
    have q: "req_ok ch R K (rc_clk c) REFRESH ?q" "bank_no ?q = b" "rq_arrive ?q = rc_clk c"
      using b I(3) ix by (auto simp: req_ok_def bank_no_def on_path_def RamRequest_vec_def zdiv_int zmod_int)
    note add = refq_ok_add[OF I(10) sp b nw rf(4) q]
    have "refresh_ok R ?s (rc_clk c) (?rf\<lparr>rf_bank_refreshed := (rf_bank_refreshed ?rf)[b := rc_clk c]\<rparr>)"
      using I(9) by (simp add: refresh_ok_def)
    moreover have "dn_id (the_node (rc_channel c)) = ch" using tree_okD(1)[OF I(4)] by (simp add: node_ok_def)
    ultimately show ?thesis
      using add I rf b enqueue_refresh[OF len]
      by (simp add: inject_bank_refresh_def refresh_target_def runs_simps guard_def Let_def ctrl_inv_def consts_ok_def)
  qed
  show ?thesis
    using due inv rf b by (auto simp: refresh_due_def runs_simps)
qed

lemma tick_ref_runs:
  assumes inv: "ctrl_inv ch R K (rc_clk c - 1) (rc_clk c) c"
  shows "runs (tick_ref c) (\<lambda>c'. ctrl_inv ch R K (rc_clk c) (rc_clk c) c' \<and> rc_clk c' = rc_clk c \<and> rc_spec c' = rc_spec c)"
proof -
  note I = ctrl_invD[OF inv]
  let ?c = "c\<lparr>rc_refresh := (rc_refresh c)\<lparr>rf_clk := rf_clk (rc_refresh c) + 1\<rparr>\<rparr>"
  let ?Q = "\<lambda>c'. ctrl_inv ch R K (rc_clk c) (rc_clk c) c' \<and> rc_clk c' = rc_clk c \<and> rc_spec c' = rc_spec c"
  have start: "?Q ?c" using I by (simp add: ctrl_inv_def consts_ok_def refresh_ok_def refq_ok_def)
  have "runs (foldM refresh_due [0..2 * int R - 1] ?c) ?Q"
  proof (rule foldM_runs[where I = ?Q, OF start])
    fix x c' assume x: "x \<in> set [0..2 * int R - 1]" and Q: "?Q c'"
    then have "nat x < 2 * R" "x = int (nat x)" by auto
    then show "runs (refresh_due x c') ?Q"
      using refresh_due_runs[of ch R K c' "nat x"] Q by (auto elim!: runs_mono)
  qed
  moreover have "rf_n_banks (rc_refresh c) = 2 * int R" using I(9) by (simp add: refresh_ok_def)
  ultimately show ?thesis by (simp add: tick_ref_def Let_def)
qed

subsection \<open>Scheduling a refresh\<close>

abbreviation delete_at :: "nat \<Rightarrow> 'a list \<Rightarrow> 'a list" where
  "delete_at h xs \<equiv> take h xs @ drop (Suc h) xs"

lemma delete_at_nth: "p < length (delete_at h xs) \<Longrightarrow> h < length xs \<Longrightarrow> delete_at h xs ! p = xs ! (if p < h then p else Suc p)"
  by (auto simp: nth_append min_def)

lemma set_delete_at: "set (delete_at h xs) \<subseteq> set xs"
  by (auto dest: in_set_takeD in_set_dropD)

lemma map_delete_at: "map f (delete_at h xs) = delete_at h (map f xs)"
  by (simp add: take_map drop_map)

lemma sorted_delete_at:
  assumes "sorted_wrt P xs" shows "sorted_wrt P (delete_at h xs)"
proof -
  have "sorted_wrt P (take h xs @ drop h xs)" using assms by simp
  note s = this[unfolded sorted_wrt_append]
  have "set (drop (Suc h) xs) \<subseteq> set (drop h xs)" by (metis drop_drop plus_1_eq_Suc set_drop_subset)
  moreover have "sorted_wrt P (drop (Suc h) xs)" using assms by (rule sorted_wrt_drop)
  ultimately show ?thesis using s by (auto simp: sorted_wrt_append)
qed

lemma distinct_delete_at: "distinct xs \<Longrightarrow> distinct (delete_at h xs)"
  by (simp add: set_take_disj_set_drop_if_distinct)

lemma refq_ok_wait:
  assumes ok: "refq_ok ch R K s clk clk t rf q" and w: "q \<noteq> [] \<Longrightarrow> clk < ref_next t (rank_ix (q ! 0))"
  shows "refq_ok ch R K s clk (clk + 1) t rf q"
proof -
  have "deadlines s (clk + 1) t q"
    unfolding deadlines_def
  proof (intro allI impI)
    fix p assume p: "p < length q"
    then have "max (clk + 1) (ref_next t (rank_ix (q ! 0))) = max clk (ref_next t (rank_ix (q ! 0)))" using w by fastforce
    then show "max (clk + 1) (ref_next t (rank_ix (q ! 0))) + int p * ref_gap s < rq_arrive (q ! p) + hs_nREFI s div 2"
      using ok p unfolding refq_ok_def deadlines_def by metis
  qed
  then show ?thesis using ok by (auto simp: refq_ok_def)
qed

lemma refq_ok_serve:
  assumes ok: "refq_ok ch R K s clk clk t rf q" and h: "h < length q" and rd: "ref_next t (rank_ix (q ! h)) \<le> clk"
    and best: "\<forall>k<length q. better q (\<lambda>k. ref_next t (rank_ix (q ! k)) \<le> clk) h k"
    and t': "chan_ref t' = chan_ref t" "\<forall>i<R. (i \<noteq> rank_ix (q ! h) \<longrightarrow> ref_next t' i = ref_next t i) \<and>
        ref_next t' i \<le> max (ref_next t i) (clk + ref_gap s)"
    and g: "1 \<le> ref_gap s"
  shows "refq_ok ch R K s clk (clk + 1) t' rf (delete_at h q)"
proof -
  let ?G = "ref_gap s" and ?H = "hs_nREFI s div 2" and ?q = "delete_at h q"
  have reqs: "\<And>k. k < length q \<Longrightarrow> req_ok ch R K clk REFRESH (q ! k)" and dl: "deadlines s clk t q"
    and gap: "\<forall>i<R. ref_next t i \<le> clk + ?G" using ok by (auto simp: refq_ok_def)
  have gap': "\<forall>i<R. ref_next t' i \<le> clk + ?G" using t'(2) gap by fastforce
  have len: "length ?q = length q - 1" using h by simp
  have "deadlines s (clk + 1) t' ?q"
    unfolding deadlines_def
  proof (intro allI impI)
    fix p assume p: "p < length ?q"
    let ?k = "if p < h then p else Suc p"
    have k: "?k < length q" "?q ! p = q ! ?k" using p h len delete_at_nth[OF p h] by auto
    have old: "max clk (ref_next t (rank_ix (q ! 0))) + int ?k * ?G < rq_arrive (q ! ?k) + ?H"
      using dl k(1) unfolding deadlines_def by blast
    show "max (clk + 1) (ref_next t' (rank_ix (?q ! 0))) + int p * ?G < rq_arrive (?q ! p) + ?H"
    proof (cases "ref_next t (rank_ix (q ! 0)) \<le> clk")
      case True
      have "h = 0"
      proof (rule ccontr)
        assume "h \<noteq> 0"
        moreover have "0 < length q" using h by linarith
        ultimately have "rq_arrive (q ! h) < rq_arrive (q ! 0)" "0 < length q"
          using best[rule_format, of 0] True rd by (auto simp: better_def)
        moreover have "sorted (map rq_arrive q)" using ok by (simp add: refq_ok_def)
        then have "rq_arrive (q ! 0) \<le> rq_arrive (q ! h)"
          using h sorted_nth_mono[of "map rq_arrive q" 0 h] \<open>0 < length q\<close> by simp
        ultimately show False by simp
      qed
      then have "?q ! 0 = q ! 1" "1 < length q" using p len by auto
      then have "ref_next t' (rank_ix (?q ! 0)) \<le> clk + ?G" using gap' reqs[of 1] by (auto simp: req_ok_def)
      then have "max (clk + 1) (ref_next t' (rank_ix (?q ! 0))) + int p * ?G \<le> clk + ?G + int p * ?G" using g by simp
      also have "\<dots> = clk + int (Suc p) * ?G" by (simp add: algebra_simps)
      also have "\<dots> \<le> max clk (ref_next t (rank_ix (q ! 0))) + int ?k * ?G" using \<open>h = 0\<close> by simp
      finally show ?thesis using old k(2) by simp
    next
      case False
      then have "rank_ix (q ! 0) \<noteq> rank_ix (q ! h)" using rd by auto
      moreover from this have "h \<noteq> 0" by (metis)
      ultimately have other: "rank_ix (q ! 0) \<noteq> rank_ix (q ! h)" "?q ! 0 = q ! 0" "0 < length q" using h by (auto simp: nth_append)
      then have "ref_next t' (rank_ix (q ! 0)) = ref_next t (rank_ix (q ! 0))"
        using t'(2) reqs[of 0] by (auto simp: req_ok_def)
      then have "max (clk + 1) (ref_next t' (rank_ix (?q ! 0))) = max clk (ref_next t (rank_ix (q ! 0)))" using False other(2) by simp
      moreover have "int p * ?G \<le> int ?k * ?G" using g by (intro mult_right_mono) auto
      ultimately show ?thesis using old k(2) by simp
    qed
  qed
  moreover have "\<forall>q'\<in>set ?q. req_ok ch R K clk REFRESH q' \<and> rq_arrive q' = rf_bank_refreshed rf ! bank_no q'"
    using ok set_delete_at[of h q] by (auto simp: refq_ok_def)
  moreover have "distinct (map bank_no ?q)" "sorted_wrt (\<le>) (map rq_arrive ?q)"
    using ok distinct_delete_at[of "map bank_no q" h] sorted_delete_at[of "(\<le>)" "map rq_arrive q" h]
    unfolding map_delete_at refq_ok_def by blast+
  ultimately show ?thesis
    using ok t'(1) gap' by (simp add: refq_ok_def)
qed

lemma answers_refresh:
  assumes inv: "ctrl_inv ch R K rclk D c"
  shows "answers (rc_otherq c) c (\<lambda>k. ref_next (rc_channel c) (rank_ix (rc_otherq c ! k)) \<le> rc_clk c) (\<lambda>_. False) (\<lambda>_. False)"
  unfolding answers_def
proof (intro allI impI)
  note I = ctrl_invD[OF inv]
  fix k assume k: "k < length (rc_otherq c)"
  let ?q = "rc_otherq c ! k"
  have q: "req_ok ch R K (rc_clk c) REFRESH ?q" using I(10) k by (auto simp: refq_ok_def)
  note P = I(4) req_okD(2,3,4)[OF q]
  have "chan_ref (rc_channel c) = - 1" using I(10) by (simp add: refq_ok_def)
  then have "check REF (rq_addr_vec ?q) (rc_clk c) (rc_channel c) = Some (ref_next (rc_channel c) (rank_ix ?q) \<le> rc_clk c)"
    using check_path[OF P, of REF "rc_clk c"] I(2) by (auto simp: passed_def chan_ref_def ref_next_def)
  then show "is_ready ?q c = Some (ref_next (rc_channel c) (rank_ix ?q) \<le> rc_clk c) \<and>
      is_row_hit ?q c = Some False \<and> is_row_open ?q c = Some False"
    using decode_refresh[OF P] check_row_hit_path[OF P, of REF] check_row_open_path[OF P, of REF] req_okD(1)[OF q]
    by (simp add: is_ready_def get_first_cmd_def is_ready_cmd_def is_row_hit_def is_row_open_def)
qed

lemma issue_cmd_runs:
  assumes rdy: "is_ready_cmd cmd addr c = Some True"
    and up: "runs (dram_update (hb_speed (rc_spec c)) cmd addr (rc_clk c) (rc_channel c)) P"
    and tab: "rowtable_update cmd addr (rc_clk c) (rc_rowtable c) = Some tab"
    and p: "on_path ch i j addr" "i < length (rc_cmd_traces c)"
  shows "runs (issue_cmd cmd addr c) (\<lambda>c'. \<exists>t' tr. P t' \<and> length tr = length (rc_cmd_traces c) \<and>
     c' = c\<lparr>rc_channel := t', rc_rowtable := tab, rc_cmd_traces := tr\<rparr>)"
proof -
  obtain t' where t': "dram_update (hb_speed (rc_spec c)) cmd addr (rc_clk c) (rc_channel c) = Some t'" "P t'"
    using up by (auto simp: runs_iff)
  have keep: "c\<lparr>rc_channel := t', rc_rowtable := tab\<rparr> = c\<lparr>rc_channel := t', rc_rowtable := tab, rc_cmd_traces := rc_cmd_traces c\<rparr>"
    by simp
  show ?thesis
  proof (cases "rc_record_cmd_trace c")
    case True
    obtain b where "(if cmd = PREA \<or> cmd = REF then Some None else map_option Some (ifetch addr (lev Bank))) = Some b"
      using on_pathD[OF p(1)] by (cases "cmd = PREA \<or> cmd = REF") auto
    then have "issue_cmd cmd addr c = Some (c\<lparr>rc_channel := t', rc_rowtable := tab,
        rc_cmd_traces := (rc_cmd_traces c)[i := rc_cmd_traces c ! i @ [(rc_clk c, cmd, b)]]\<rparr>)"
      using True rdy t' tab on_pathD[OF p(1)] p(2)
      by (auto simp: issue_cmd_def guard_def Let_def simp del: lev.simps(3))
    then show ?thesis
      using t'(2) by (auto intro!: exI[of _ t'] exI[of _ "(rc_cmd_traces c)[i := rc_cmd_traces c ! i @ [(rc_clk c, cmd, b)]]"])
  next
    case False
    then show ?thesis
      using rdy t' tab keep
      by (auto simp: issue_cmd_def guard_def Let_def intro!: exI[of _ t'] exI[of _ "rc_cmd_traces c"])
  qed
qed

lemma rowtable_update_refresh: "on_path ch i j addr \<Longrightarrow> rowtable_update REF addr clk tab = Some tab"
  by (simp add: rowtable_update_def on_pathD is_opening_def is_accessing_def is_closing_def)

lemma delete_at_update: "delete_at h (xs[h := x]) = delete_at h xs"
  by simp

lemma serve_head_refresh:
  assumes inv: "ctrl_inv ch R K rclk D c" and h: "h < length (rc_otherq c)"
    and rdy: "is_ready (rc_otherq c ! h) c = Some True"
  shows "runs (serve_head OtherQ h c) (\<lambda>c'. \<exists>t' tr. length tr = R \<and>
     c' = c\<lparr>rc_channel := t', rc_cmd_traces := tr, rc_otherq := delete_at h (rc_otherq c)\<rparr> \<and>
     tree_ok (hb_speed (rc_spec c)) ch R 2 t' \<and> cur0 t' = cur0 (rc_channel c) \<and> chan_ref t' = chan_ref (rc_channel c) \<and>
     (\<forall>i<R. cur1 t' i = cur1 (rc_channel c) i \<and>
        (i \<noteq> rank_ix (rc_otherq c ! h) \<longrightarrow> ref_next t' i = ref_next (rc_channel c) i) \<and>
        ref_next t' i \<le> max (ref_next (rc_channel c) i) (rc_clk c + ref_gap (hb_speed (rc_spec c)))) \<and>
     (\<forall>i<R. \<forall>j<2. cur2 t' i j = cur2 (rc_channel c) i j \<and> row_of t' i j = row_of (rc_channel c) i j))"
proof -
  note I = ctrl_invD[OF inv]
  let ?q = "rc_otherq c ! h" and ?s = "hb_speed (rc_spec c)"
  have q: "req_ok ch R K (rc_clk c) REFRESH ?q" using I(10) h by (auto simp: refq_ok_def)
  note P = I(4) req_okD(2,3,4)[OF q]
  have tr: "length (rc_cmd_traces c) = R" using I(1) by (simp add: consts_ok_def)
  let ?c1 = "if rq_is_first_command ?q then c\<lparr>rc_otherq := (rc_otherq c)[h := ?q\<lparr>rq_is_first_command := False\<rparr>]\<rparr> else c"
  have sel: "rc_spec ?c1 = rc_spec c" "rc_channel ?c1 = rc_channel c" "rc_clk ?c1 = rc_clk c" "rc_rowtable ?c1 = rc_rowtable c"
    "rc_cmd_traces ?c1 = rc_cmd_traces c" by simp_all
  have ready: "is_ready_cmd REF (rq_addr_vec ?q) ?c1 = Some True"
    using rdy decode_refresh[OF P] req_okD(1)[OF q] by (simp add: is_ready_def get_first_cmd_def is_ready_cmd_def)
  note up = dram_update_runs[OF P, of REF "rc_clk c"]
  obtain t' tr' where t': "issue_cmd REF (rq_addr_vec ?q) ?c1 = Some (?c1\<lparr>rc_channel := t', rc_rowtable := rc_rowtable c, rc_cmd_traces := tr'\<rparr>)"
    "length tr' = R" "tree_ok ?s ch R 2 t'" "cur0 t' = cur0 (rc_channel c)" "chan_ref t' = chan_ref (rc_channel c)"
    "\<forall>i<R. cur1 t' i = cur1 (rc_channel c) i \<and> (i \<noteq> rank_ix ?q \<longrightarrow> ref_next t' i = ref_next (rc_channel c) i) \<and>
        ref_next t' i \<le> max (ref_next (rc_channel c) i) (rc_clk c + ref_gap ?s)"
    "\<forall>i<R. \<forall>j<2. cur2 t' i j = cur2 (rc_channel c) i j \<and> row_of t' i j = row_of (rc_channel c) i j"
    using issue_cmd_runs[OF ready, unfolded sel, OF up rowtable_update_refresh[OF P(4)] P(4)] tr P(2)
    by (auto simp: runs_iff row_after_def)
  have dec: "get_first_cmd ?q ?c1 = Some REF"
    using decode_refresh[OF P] req_okD(1)[OF q] by (simp add: get_first_cmd_def)
  have fin: "finish_request OtherQ h (?c1\<lparr>rc_channel := t', rc_rowtable := rc_rowtable c, rc_cmd_traces := tr'\<rparr>) =
      Some (c\<lparr>rc_channel := t', rc_cmd_traces := tr', rc_otherq := delete_at h (rc_otherq c)\<rparr>)"
    using h req_okD(1)[OF q] by (simp add: finish_request_def Let_def delete_at_update)
  have "serve_head OtherQ h c = Some (c\<lparr>rc_channel := t', rc_cmd_traces := tr', rc_otherq := delete_at h (rc_otherq c)\<rparr>)"
    using on_pathD[OF P(4)] req_okD(1)[OF q] dec t'(1) fin
    by (simp add: serve_head_def Let_def first_command_def split: if_splits)
  then show ?thesis
    using t'(2-7) by (auto intro!: exI[of _ t'] exI[of _ tr'])
qed

lemma schedule_refresh_runs:
  assumes inv: "ctrl_inv ch R K (rc_clk c) (rc_clk c) c" and ne: "rc_otherq c \<noteq> []"
  shows "runs (schedule c) (\<lambda>c'. ctrl_ok ch R K c' \<and> rc_clk c' = rc_clk c \<and> rc_spec c' = rc_spec c)"
proof -
  note I = ctrl_invD[OF inv]
  let ?q = "rc_otherq c" and ?t = "rc_channel c" and ?s = "hb_speed (rc_spec c)"
  let ?rd = "\<lambda>k. ref_next ?t (rank_ix (?q ! k)) \<le> rc_clk c"
  have ty: "rc_sched_type c = FRFCFS_PriorHit" "rc_policy_type c = PolicyOpened" "1 \<le> ref_gap ?s"
    using I(1) by (auto simp: consts_ok_def spec_ok_def)
  note A = answers_refresh[OF inv]
  have nv: "\<not> violates ?q (\<lambda>_. False) (\<lambda>_. False) k" for k by (simp add: violates_def)
  obtain h where h: "get_head ?q c = Some (Some h, c)" "h < length ?q" "\<forall>k<length ?q. better ?q ?rd h k"
    using get_head_runs[OF A ty(1)] ne nv by (auto simp: runs_iff split: option.splits)
  have rdy: "is_ready (?q ! h) c = Some (?rd h)" using A h(2) by (simp add: answers_def)
  show ?thesis
  proof (cases "?rd h")
    case True
    have sch: "schedule c = serve_head OtherQ h c"
      using ne h(1) rdy True by (simp add: schedule_def Let_def)
    obtain t' tr where t': "serve_head OtherQ h c = Some (c\<lparr>rc_channel := t', rc_cmd_traces := tr, rc_otherq := delete_at h ?q\<rparr>)"
      "length tr = R" "tree_ok ?s ch R 2 t'" "cur0 t' = cur0 ?t" "chan_ref t' = chan_ref ?t"
      "\<forall>i<R. cur1 t' i = cur1 ?t i \<and> (i \<noteq> rank_ix (?q ! h) \<longrightarrow> ref_next t' i = ref_next ?t i) \<and>
        ref_next t' i \<le> max (ref_next ?t i) (rc_clk c + ref_gap ?s)"
      "\<forall>i<R. \<forall>j<2. cur2 t' i j = cur2 ?t i j \<and> row_of t' i j = row_of ?t i j"
      using serve_head_refresh[OF inv h(2)] rdy True by (auto simp: runs_iff)
    have "refq_ok ch R K ?s (rc_clk c) (rc_clk c + 1) t' (rc_refresh c) (delete_at h ?q)"
      using t'(6) by (intro refq_ok_serve[OF I(10) h(2) True h(3) t'(5) _ ty(3)]) auto
    moreover have "table_ok ch R t' (rc_rowtable c)" using table_ok_frame[OF I(5)] t'(7) by blast
    moreover have "serving_ok R t' (rc_readq c) (rc_writeq c) (rc_pending c)"
      using I(7) t'(4,6,7) by (simp add: serving_ok_def)
    ultimately show ?thesis
      using I t'(2,3) by (simp add: sch t'(1) ctrl_ok_def ctrl_inv_def consts_ok_def)
  next
    case False
    have "schedule c = Some c"
      using ne h(1) rdy False ty by (simp add: schedule_def Let_def get_victim_def)
    moreover have "\<not> ?rd 0" using h(3)[rule_format, of 0] False ne by (auto simp: better_def)
    then have "refq_ok ch R K ?s (rc_clk c) (rc_clk c + 1) ?t (rc_refresh c) ?q"
      by (intro refq_ok_wait[OF I(10)]) simp
    ultimately show ?thesis using I by (simp add: ctrl_ok_def ctrl_inv_def)
  qed
qed

subsection \<open>Statistics of an access\<close>

definition stats_step :: "nat \<Rightarrow> nat \<Rightarrow> ram_ctrl \<Rightarrow> ram_ctrl \<Rightarrow> bool" where
  "stats_step R K c c' \<longleftrightarrow> (\<exists>st. stats_ok R K st \<and> c' = c\<lparr>rc_stats := st\<rparr>)"

lemma stats_stepI: "stats_ok R K st \<Longrightarrow> stats_step R K c (c\<lparr>rc_stats := st\<rparr>)"
  by (auto simp: stats_step_def)

lemma stats_step_trans: "stats_step R K c c' \<Longrightarrow> stats_step R K c' c'' \<Longrightarrow> stats_step R K c c''"
  by (auto simp: stats_step_def)

lemma stats_step_refl: "stats_ok R K (rc_stats c) \<Longrightarrow> stats_step R K c c"
  unfolding stats_step_def by (rule exI[of _ "rc_stats c"]) simp

lemma stats_step_ok: "stats_step R K c c' \<Longrightarrow> stats_ok R K (rc_stats c')"
  by (auto simp: stats_step_def)

lemma stats_step_sel:
  assumes "stats_step R K c c'"
  shows "rc_spec c' = rc_spec c" "rc_clk c' = rc_clk c" "rc_channel c' = rc_channel c" "rc_rowtable c' = rc_rowtable c"
    "rc_readq c' = rc_readq c" "rc_writeq c' = rc_writeq c" "rc_otherq c' = rc_otherq c" "rc_pending c' = rc_pending c"
    "rc_refresh c' = rc_refresh c" "rc_cmd_traces c' = rc_cmd_traces c" "the_queue k c' = the_queue k c"
  using assms by (cases k; auto simp: stats_step_def)+

lemma stats_step_inv: "stats_step R K c c' \<Longrightarrow> ctrl_inv ch R K rclk D c \<Longrightarrow> ctrl_inv ch R K rclk D c'"
  by (auto simp: stats_step_def ctrl_inv_def consts_ok_def)

lemma bump_stat_runs:
  assumes st: "stats_ok R K (rc_stats c)" and n: "length (get (rc_stats c)) = n" and i: "0 \<le> i" "i < int n"
    and upd: "\<And>xs st. length xs = n \<Longrightarrow> stats_ok R K st \<Longrightarrow> stats_ok R K (upd (\<lambda>_. xs) st)"
  shows "runs (bump_stat get upd i c) (stats_step R K c)"
  using st n i upd[of _ "rc_stats c"]
  by (auto simp: bump_stat_def bump_def runs_simps nat_less_iff intro!: stats_stepI)

lemma add_stat_step:
  assumes "\<And>f st. stats_ok R K (upd f st) = stats_ok R K st" "stats_ok R K (rc_stats c)"
  shows "stats_step R K c (add_stat upd v c)"
  using assms by (auto simp: stats_step_def add_stat_def)

lemma bump_row:
  assumes st: "stats_ok R K (rc_stats c)"
    and g: "\<And>c. stats_ok R K (rc_stats c) \<Longrightarrow> runs (bump_stat get upd coreid c) (stats_step R K c)"
    and g': "\<And>c. stats_ok R K (rc_stats c) \<Longrightarrow> runs (bump_stat get' upd' bank_i c) (stats_step R K c)"
    and u: "\<And>f st. stats_ok R K (upds f st) = stats_ok R K st"
  shows "runs (bump_stat get upd coreid c \<bind> (\<lambda>c. bump_stat get' upd' bank_i (add_stat upds 1 c))) (stats_step R K c)"
  unfolding runs_bind
proof (rule runs_mono[OF g[OF st]])
  fix c1 assume c1: "stats_step R K c c1"
  have a: "stats_step R K c1 (add_stat upds 1 c1)" by (rule add_stat_step[OF u stats_step_ok[OF c1]])
  show "runs (bump_stat get' upd' bank_i (add_stat upds 1 c1)) (stats_step R K c)"
    by (rule runs_mono[OF g'[OF stats_step_ok[OF a]]]) (blast intro: stats_step_trans c1 a)
qed

lemma count_row_runs:
  assumes st: "stats_ok R K (rc_stats c)" and i: "0 \<le> coreid" "coreid < int K" "0 \<le> bank_i" "bank_i < 2 * int R"
  shows "runs (count_row ty hit opn coreid bank_i c) (stats_step R K c)"
proof -
  have i': "bank_i < int (2 * R)" using i by simp
  note core = bump_stat_runs[OF _ _ i(1,2)] and bank = bump_stat_runs[OF _ _ i(3) i']
  show ?thesis
    unfolding count_row_def
    by (auto intro!: bump_row[OF st] core bank scalar_stats) (auto simp: stats_ok_def)
qed

text \<open>The counter of commands per bank.\<close>

lemma bump_bank_runs:
  assumes "stats_ok R K (rc_stats c)" "0 \<le> bank_i" "bank_i < 2 * int R"
  shows "runs (bump_stat cs_bank_reads cs_bank_reads_update bank_i c) (stats_step R K c)"
    and "runs (bump_stat cs_bank_writes cs_bank_writes_update bank_i c) (stats_step R K c)"
  using assms by (auto intro!: bump_stat_runs[where n = "2 * R"]) (auto simp: stats_ok_def)

subsection \<open>Starting a request\<close>

definition queue_of :: "queue_id \<Rightarrow> ram_req_type \<Rightarrow> bool" where
  "queue_of k ty \<longleftrightarrow> k = ReadQ \<and> ty = READ \<or> k = WriteQ \<and> ty = WRITE"

lemma queue_req_ok:
  assumes "ctrl_inv ch R K rclk D c" "queue_of k ty" "i < length (the_queue k c)"
  shows "req_ok ch R K (rc_clk c) ty (the_queue k c ! i)"
  using assms ctrl_invD(6)[OF assms(1)] by (auto simp: queue_of_def queues_ok_def)

lemma put_queue_sel [simp]:
  "rc_spec (put_queue k q c) = rc_spec c" "rc_clk (put_queue k q c) = rc_clk c" "rc_channel (put_queue k q c) = rc_channel c"
  "rc_rowtable (put_queue k q c) = rc_rowtable c" "rc_pending (put_queue k q c) = rc_pending c" "rc_stats (put_queue k q c) = rc_stats c"
  "rc_refresh (put_queue k q c) = rc_refresh c" "rc_cmd_traces (put_queue k q c) = rc_cmd_traces c" "the_queue k (put_queue k q c) = q"
  by (cases k; simp)+

lemma req_ok_not_first: "req_ok ch R K clk ty (q\<lparr>rq_is_first_command := False\<rparr>) = req_ok ch R K clk ty q"
  by (simp add: req_ok_def rank_ix_def bank_ix_def)

lemma in_set_update: "x \<in> set (xs[i := y]) \<Longrightarrow> x = y \<or> x \<in> set xs"
  using set_update_subset_insert[of xs i y] by blast

text \<open>What starting a request keeps: the rows, the timing, the refreshes.\<close>

definition same_rows :: "nat \<Rightarrow> ram_ctrl \<Rightarrow> ram_ctrl \<Rightarrow> bool" where
  "same_rows R c c' \<longleftrightarrow> rc_clk c' = rc_clk c \<and> rc_spec c' = rc_spec c \<and> rc_otherq c' = rc_otherq c \<and>
     (\<forall>i<R. \<forall>j<2. row_of (rc_channel c') i j = row_of (rc_channel c) i j \<and> nexts (rc_channel c') i j = nexts (rc_channel c) i j)"

lemma started_mark:
  assumes k: "queue_of k ty" and i: "i < length (the_queue k c)" and f: "rq_is_first_command (the_queue k c ! i)"
    and P: "\<And>q'. P (q'\<lparr>rq_is_first_command := False\<rparr>) = P q'"
    and c': "c' = put_queue k ((the_queue k c)[i := (the_queue k c ! i)\<lparr>rq_is_first_command := False\<rparr>]) c"
  shows "started P (rc_readq c') (rc_writeq c') (rc_pending c') =
     started P (rc_readq c) (rc_writeq c) (rc_pending c) + (if P (the_queue k c ! i) then 1 else 0)"
proof -
  let ?q = "the_queue k c ! i"
  have new: "\<not> rq_is_first_command (?q\<lparr>rq_is_first_command := False\<rparr>) \<and> P (?q\<lparr>rq_is_first_command := False\<rparr>) \<longleftrightarrow> P ?q"
    using P[of ?q] by simp
  show ?thesis
  proof (cases k)
    case ReadQ
    then show ?thesis
      using i f new count_if_update[of i "rc_readq c" "\<lambda>q. \<not> rq_is_first_command q \<and> P q"] by (simp add: started_def c')
  next
    case WriteQ
    then show ?thesis
      using i f new count_if_update[of i "rc_writeq c" "\<lambda>q. \<not> rq_is_first_command q \<and> P q"] by (simp add: started_def c')
  qed (use k in \<open>simp add: queue_of_def\<close>)
qed

lemma mark_first_inv:
  assumes inv: "ctrl_inv ch R K rclk D c" and k: "queue_of k ty" and i: "i < length (the_queue k c)"
    and f: "rq_is_first_command (the_queue k c ! i)"
    and c': "c' = put_queue k ((the_queue k c)[i := (the_queue k c ! i)\<lparr>rq_is_first_command := False\<rparr>]) c"
    and t': "tree_ok (hb_speed (rc_spec c)) ch R 2 t'" "cur0 t' = cur0 (rc_channel c) + 1"
      "\<forall>i'<R. cur1 t' i' = cur1 (rc_channel c) i' + (if i' = rank_ix (the_queue k c ! i) then 1 else 0)"
      "\<forall>i'<R. \<forall>j'<2. cur2 t' i' j' = cur2 (rc_channel c) i' j' + (if i' = rank_ix (the_queue k c ! i) \<and> j' = bank_ix (the_queue k c ! i) then 1 else 0)"
      "\<forall>i'<R. \<forall>j'<2. row_of t' i' j' = row_of (rc_channel c) i' j'" "\<forall>i'<R. \<forall>j'<2. nexts t' i' j' = nexts (rc_channel c) i' j'"
  shows "ctrl_inv ch R K rclk D (c'\<lparr>rc_channel := t'\<rparr>)"
proof -
  note I = ctrl_invD[OF inv]
  let ?q = "the_queue k c ! i"
  have q: "req_ok ch R K (rc_clk c) ty ?q" by (rule queue_req_ok[OF inv k i])
  have "serving_ok R t' (rc_readq c') (rc_writeq c') (rc_pending c')"
    using started_mark[OF k i f _ c'] by (intro serving_ok_update[OF I(7) t'(2,3,4)]) blast
  moreover have "queues_ok ch R K (rc_clk c) (rc_readq c') (rc_writeq c') (rc_pending c')"
    using I(6) k q by (auto simp: c' queue_of_def queues_ok_def req_ok_not_first dest!: in_set_update)
  moreover have "rc_otherq c' = rc_otherq c" using k by (auto simp: c' queue_of_def)
  moreover have "refq_ok ch R K (hb_speed (rc_spec c)) (rc_clk c) D t' (rc_refresh c) (rc_otherq c)"
    using req_okD(2)[OF q] by (intro refq_ok_frame[OF I(10) t'(6)]) simp
  moreover have "consts_ok R (c'\<lparr>rc_channel := t'\<rparr>)" using I(1) k by (auto simp: c' consts_ok_def queue_of_def)
  ultimately show ?thesis
    using I t'(1) table_ok_frame[OF I(5) t'(5)] by (simp add: ctrl_inv_def c')
qed

lemma first_command_runs:
  assumes inv: "ctrl_inv ch R K rclk D c" and k: "queue_of k ty" and i: "i < length (the_queue k c)"
    and q: "q = the_queue k c ! i" and f: "rq_is_first_command q"
    and b: "bank_i = int (rank_ix q) * 2 + int (bank_ix q)"
  shows "runs (first_command q bank_i (put_queue k ((the_queue k c)[i := q\<lparr>rq_is_first_command := False\<rparr>]) c))
     (\<lambda>c'. ctrl_inv ch R K rclk D c' \<and> same_rows R c c' \<and> the_queue k c' = (the_queue k c)[i := q\<lparr>rq_is_first_command := False\<rparr>])"
proof -
  note I = ctrl_invD[OF inv]
  let ?c = "put_queue k ((the_queue k c)[i := q\<lparr>rq_is_first_command := False\<rparr>]) c"
  have qok: "req_ok ch R K (rc_clk c) ty q" using queue_req_ok[OF inv k i] q by simp
  have ty: "rq_type q = READ \<or> rq_type q = WRITE" using req_okD(1)[OF qok] k by (auto simp: queue_of_def)
  note P = req_okD(2,3,4)[OF qok]
  obtain t' where t': "update_serving_requests (rq_addr_vec q) 1 (rc_clk c) (rc_channel c) = Some t'"
    "tree_ok (hb_speed (rc_spec c)) ch R 2 t'" "cur0 t' = cur0 (rc_channel c) + 1"
    "\<forall>i'<R. cur1 t' i' = cur1 (rc_channel c) i' + (if i' = rank_ix q then 1 else 0)"
    "\<forall>i'<R. \<forall>j'<2. cur2 t' i' j' = cur2 (rc_channel c) i' j' + (if i' = rank_ix q \<and> j' = bank_ix q then 1 else 0)"
    "\<forall>i'<R. \<forall>j'<2. row_of t' i' j' = row_of (rc_channel c) i' j'"
    "\<forall>i'<R. \<forall>j'<2. nexts t' i' j' = nexts (rc_channel c) i' j'"
    using update_serving_runs[OF I(4) P I(2), of 1] by (auto simp: runs_iff)
  let ?c1 = "?c\<lparr>rc_channel := t'\<rparr>"
  have inv1: "ctrl_inv ch R K rclk D ?c1"
    using mark_first_inv[OF inv k i _ refl t'(2)] t' f q by simp
  have q1: "the_queue k ?c1 = (the_queue k c)[i := q\<lparr>rq_is_first_command := False\<rparr>]" by (cases k) simp_all
  have rows: "same_rows R c ?c1" using t'(6,7) k by (auto simp: same_rows_def queue_of_def)
  note st = ctrl_invD(8)[OF inv1]
  have P1: "tree_ok (hb_speed (rc_spec c)) ch R 2 (rc_channel ?c1)" using t'(2) by simp
  obtain hit where hit: "is_row_hit q ?c1 = Some hit"
    using check_row_hit_path[OF P1 P] by (simp add: is_row_hit_def)
  obtain opn where opn: "is_row_open q ?c1 = Some opn"
    using check_row_open_path[OF P1 P] by (simp add: is_row_open_def)
  have bi: "0 \<le> bank_i" "bank_i < 2 * int R" using P(1,2) b by auto
  obtain c2 where c2: "count_row (rq_type q) hit (if hit then False else opn) (rq_coreid q) bank_i ?c1 = Some c2" "stats_step R K ?c1 c2"
    using count_row_runs[OF st req_okD(5,6)[OF qok] bi, of "rq_type q" hit "if hit then False else opn"]
    unfolding runs_iff by blast
  have inv2: "ctrl_inv ch R K rclk D c2" by (rule stats_step_inv[OF c2(2) inv1])
  have q2: "the_queue k c2 = (the_queue k c)[i := q\<lparr>rq_is_first_command := False\<rparr>]" "same_rows R c c2"
    using stats_step_sel[OF c2(2)] q1 rows by (auto simp: same_rows_def)
  have add: "the_queue k (add_stat u v c2) = the_queue k c2" "same_rows R c (add_stat u v c2) = same_rows R c c2" for u v
    by (cases k; simp add: add_stat_def same_rows_def)+
  show ?thesis
    using ty t'(1) hit opn c2(1) inv2 q2
    by (auto simp: first_command_def Let_def add split: if_splits)
qed

subsection \<open>The row table\<close>

lemma range_equal_same_length: "length xs = length ys \<Longrightarrow> range_equal xs ys = Some (xs = ys)"
  by (induction xs ys rule: list_induct2) auto

lemma close_rows_filter:
  "\<forall>k\<in>fst ` set tab. length k = length p \<Longrightarrow> close_rows p tab = Some (filter (\<lambda>(k, e). k \<noteq> p) tab)"
  by (induction p tab rule: close_rows.induct) (auto simp: range_equal_same_length)

text \<open>The command that an access needs next, given the open row of its bank.\<close>

definition fits :: "ram_command \<Rightarrow> int \<Rightarrow> int option \<Rightarrow> bool" where
  "fits cmd row opn \<longleftrightarrow> cmd = ACT \<and> opn = None \<or> cmd = PRE \<and> opn \<noteq> None \<or> (cmd = RD \<or> cmd = WR) \<and> opn = Some row"

lemma on_path_take: "on_path ch i j addr \<Longrightarrow> take 3 addr = [ch, int i, int j]"
  by (auto simp: on_path_def numeral_eq_Suc length_Suc_conv)

lemma rowtable_access:
  assumes ok: "table_ok ch R t tab" and i: "i < R" and j: "j < 2" and p: "on_path ch i j addr"
    and fit: "fits cmd (addr ! 3) (row_of t i j)"
    and t': "\<forall>i'<R. \<forall>j'<2. row_of t' i' j' = (if i' = i \<and> j' = j then row_after cmd (addr ! 3) (row_of t i j) else row_of t i' j')"
  shows "\<exists>tab'. rowtable_update cmd addr clk tab = Some tab' \<and> table_ok ch R t' tab'"
proof -
  let ?g = "[ch, int i, int j]"
  note T = ok[unfolded table_ok_def]
  have row: "map_option re_row (map_of tab ?g) = row_of t i j" using T i j by blast
  have keys: "\<forall>k\<in>fst ` set tab. length k = length ?g" using T by fastforce
  have new: "table_ok ch R t' (omap_put ?g e tab)" if "row_after cmd (addr ! 3) (row_of t i j) = Some (re_row e)" for e
    using T t' that i j by (auto simp: table_ok_def omap_wf_put map_of_omap_put set_omap_put)
  from fit consider "cmd = ACT" "row_of t i j = None" | "cmd = PRE" "row_of t i j \<noteq> None"
    | "cmd = RD \<or> cmd = WR" "row_of t i j = Some (addr ! 3)" by (auto simp: fits_def)
  then show ?thesis
  proof cases
    case 1
    then have "map_of tab ?g = None" using row by simp
    then have "rowtable_update cmd addr clk tab = Some (omap_put ?g \<lparr>re_row = addr ! 3, re_hits = 0, re_timestamp = clk\<rparr> tab)"
      using 1 on_pathD(4)[OF p] on_path_take[OF p]
      by (simp add: rowtable_update_def is_opening_def is_accessing_def is_closing_def omap_insert_def)
    then show ?thesis using new[of "\<lparr>re_row = addr ! 3, re_hits = 0, re_timestamp = clk\<rparr>"] 1 by (simp add: row_after_def)
  next
    case 2
    then obtain e where e: "map_of tab ?g = Some e" using row by auto
    let ?f = "filter (\<lambda>(k, e). k \<noteq> ?g) tab"
    have "(?g, e) \<in> set tab" using e by (rule map_of_SomeD)
    then have "length ?f < length tab" by (intro length_filter_less[where x = "(?g, e)"]) auto
    moreover have "length addr = 5" using p by (simp add: on_path_def)
    ultimately have "rowtable_update cmd addr clk tab = Some ?f"
      using 2 on_pathD(4)[OF p] on_path_take[OF p] close_rows_filter[OF keys]
      by (simp add: rowtable_update_def is_opening_def is_accessing_def is_closing_def guard_def)
    moreover have "table_ok ch R t' ?f"
      using T t' 2 by (auto simp: table_ok_def omap_wf_filter map_of_filter_key[of "\<lambda>k. k \<noteq> ?g"] row_after_def)
    ultimately show ?thesis by blast
  next
    case 3
    then obtain e where e: "map_of tab ?g = Some e" "re_row e = addr ! 3" using row by auto
    then have "rowtable_update cmd addr clk tab = Some (omap_put ?g (e\<lparr>re_hits := re_hits e + 1, re_timestamp := clk\<rparr>) tab)"
      using 3 on_pathD(4)[OF p] on_path_take[OF p]
      by (auto simp: rowtable_update_def is_opening_def is_accessing_def is_closing_def guard_def)
    then show ?thesis using new[of "e\<lparr>re_hits := re_hits e + 1, re_timestamp := clk\<rparr>"] 3 e by (auto simp: row_after_def)
  qed
qed

subsection \<open>Issuing a command of an access\<close>

lemma issue_access_runs:
  assumes inv: "ctrl_inv ch R K rclk D c" and i: "i < R" and j: "j < 2" and p: "on_path ch i j addr"
    and fit: "fits cmd (addr ! 3) (row_of (rc_channel c) i j)" and rdy: "is_ready_cmd cmd addr c = Some True"
    and e: "rc_otherq c = []"
  shows "runs (issue_cmd cmd addr c) (\<lambda>c'. ctrl_inv ch R K rclk D c' \<and> rc_clk c' = rc_clk c \<and> rc_spec c' = rc_spec c \<and>
     rc_otherq c' = [] \<and> (\<forall>k. the_queue k c' = the_queue k c) \<and> rc_pending c' = rc_pending c)"
proof -
  note I = ctrl_invD[OF inv]
  let ?s = "hb_speed (rc_spec c)" and ?t = "rc_channel c"
  have cmd: "cmd \<in> {ACT, PRE, RD, WR, REF}" "cmd = ACT \<Longrightarrow> row_of ?t i j = None" using fit by (auto simp: fits_def)
  let ?P = "\<lambda>t'. tree_ok ?s ch R 2 t' \<and> cur0 t' = cur0 ?t \<and> chan_ref t' = chan_ref ?t \<and>
     (\<forall>i'<R. cur1 t' i' = cur1 ?t i' \<and> (i' \<noteq> i \<or> cmd \<in> {ACT, RD, WR} \<longrightarrow> ref_next t' i' = ref_next ?t i') \<and>
        ref_next t' i' \<le> max (ref_next ?t i') (rc_clk c + ref_gap ?s)) \<and>
     (\<forall>i'<R. \<forall>j'<2. cur2 t' i' j' = cur2 ?t i' j' \<and>
        row_of t' i' j' = (if i' = i \<and> j' = j then row_after cmd (addr ! 3) (row_of ?t i j) else row_of ?t i' j'))"
  have "runs (dram_update ?s cmd addr (rc_clk c) ?t) ?P" by (rule dram_update_runs[OF I(4) i j p cmd])
  then obtain t0 where t0: "dram_update ?s cmd addr (rc_clk c) ?t = Some t0" "?P t0" by (rule runsE)
  obtain tab' where tab: "rowtable_update cmd addr (rc_clk c) (rc_rowtable c) = Some tab'" "table_ok ch R t0 tab'"
    using rowtable_access[OF I(5) i j p fit, of t0 "rc_clk c"] t0(2) by blast
  have tr: "length (rc_cmd_traces c) = R" using I(1) by (simp add: consts_ok_def)
  have "runs (dram_update ?s cmd addr (rc_clk c) ?t) (\<lambda>t'. t' = t0)" using t0(1) by simp
  from issue_cmd_runs[OF rdy this tab(1) p] tr i
  obtain tr' where c': "issue_cmd cmd addr c = Some (c\<lparr>rc_channel := t0, rc_rowtable := tab', rc_cmd_traces := tr'\<rparr>)"
    "length tr' = R" by (auto simp: runs_iff)
  have "refq_ok ch R K ?s (rc_clk c) D t0 (rc_refresh c) (rc_otherq c)"
    using I(10) t0(2) by (fastforce simp: refq_ok_def e deadlines_def)
  moreover have "serving_ok R t0 (rc_readq c) (rc_writeq c) (rc_pending c)" using I(7) t0(2) by (simp add: serving_ok_def)
  ultimately have "ctrl_inv ch R K rclk D (c\<lparr>rc_channel := t0, rc_rowtable := tab', rc_cmd_traces := tr'\<rparr>)"
    using I tab(2) t0(2) c'(2) by (simp add: ctrl_inv_def consts_ok_def)
  moreover have "the_queue k (c\<lparr>rc_channel := t0, rc_rowtable := tab', rc_cmd_traces := tr'\<rparr>) = the_queue k c" for k
    by (cases k) simp_all
  ultimately show ?thesis using e by (simp add: c'(1))
qed

subsection \<open>Finishing a request\<close>

lemma finish_read:
  assumes inv: "ctrl_inv ch R K rclk D c" and i: "i < length (rc_readq c)" and nf: "\<not> rq_is_first_command (rc_readq c ! i)"
  shows "runs (finish_request ReadQ i c) (\<lambda>c'. ctrl_inv ch R K rclk D c' \<and> rc_clk c' = rc_clk c \<and> rc_spec c' = rc_spec c \<and> rc_otherq c' = rc_otherq c)"
proof -
  note I = ctrl_invD[OF inv]
  let ?q = "rc_readq c ! i"
  let ?p = "?q\<lparr>rq_depart := rc_clk c + hb_read_latency (rc_spec c)\<rparr>"
  have q: "req_ok ch R K (rc_clk c) READ ?q" using I(6) i by (simp add: queues_ok_def)
  have sl: "slow ?p" using req_okD(7)[OF q] I(1) by (auto simp: slow_def consts_ok_def spec_ok_def)
  have pp: "req_ok ch R K (rc_clk c) READ ?p" using q by (simp add: req_ok_depart)
  have "serving_ok R (rc_channel c) (delete_at i (rc_readq c)) (rc_writeq c) (rc_pending c @ [?p])"
  proof (rule serving_ok_update[OF I(7), where d = 0 and q = ?q])
    fix P :: "ram_request \<Rightarrow> bool" assume P: "\<And>q' x. P (q'\<lparr>rq_depart := x\<rparr>) = P q'"
    have "P ?p = P ?q" by (rule P)
    then show "started P (delete_at i (rc_readq c)) (rc_writeq c) (rc_pending c @ [?p]) =
        started P (rc_readq c) (rc_writeq c) (rc_pending c) + (if P ?q then 0 else 0)"
      using count_if_delete[OF i, of "\<lambda>q. \<not> rq_is_first_command q \<and> P q"] nf sl by (simp add: started_def)
  qed simp_all
  moreover have "queues_ok ch R K (rc_clk c) (delete_at i (rc_readq c)) (rc_writeq c) (rc_pending c @ [?p])"
    using I(6) pp by (auto simp: queues_ok_def dest!: in_set_takeD in_set_dropD)
  ultimately show ?thesis
    using I req_okD(1)[OF q] by (simp add: finish_request_def Let_def ctrl_inv_def consts_ok_def)
qed

lemma finish_write:
  assumes inv: "ctrl_inv ch R K rclk D c" and i: "i < length (rc_writeq c)" and nf: "\<not> rq_is_first_command (rc_writeq c ! i)"
  shows "runs (finish_request WriteQ i c) (\<lambda>c'. ctrl_inv ch R K rclk D c' \<and> rc_clk c' = rc_clk c \<and> rc_spec c' = rc_spec c \<and> rc_otherq c' = rc_otherq c)"
proof -
  note I = ctrl_invD[OF inv]
  let ?q = "rc_writeq c ! i" and ?t = "rc_channel c"
  have q: "req_ok ch R K (rc_clk c) WRITE ?q" using I(6) i by (simp add: queues_ok_def)
  note P = req_okD(2,3,4)[OF q]
  have "- 1 = (1 :: int) \<or> - 1 = (- 1 :: int) \<and> 0 < cur0 ?t \<and> 0 < cur1 ?t (rank_ix ?q) \<and> 0 < cur2 ?t (rank_ix ?q) (bank_ix ?q)"
    using serving_positive[OF I(7) q] i nf by simp
  from update_serving_runs[OF I(4) P I(2) this] obtain t' where
    t': "update_serving_requests (rq_addr_vec ?q) (- 1) (rc_clk c) ?t = Some t'"
      "tree_ok (hb_speed (rc_spec c)) ch R 2 t'" "cur0 t' = cur0 ?t + - 1"
      "\<forall>i'<R. cur1 t' i' = cur1 ?t i' + (if i' = rank_ix ?q then - 1 else 0)"
      "\<forall>i'<R. \<forall>j'<2. cur2 t' i' j' = cur2 ?t i' j' + (if i' = rank_ix ?q \<and> j' = bank_ix ?q then - 1 else 0)"
      "\<forall>i'<R. \<forall>j'<2. row_of t' i' j' = row_of ?t i' j'" "\<forall>i'<R. \<forall>j'<2. nexts t' i' j' = nexts ?t i' j'"
    by (auto simp: runs_iff)
  have "serving_ok R t' (rc_readq c) (delete_at i (rc_writeq c)) (rc_pending c)"
  proof (rule serving_ok_update[OF I(7) t'(3,4,5)])
    fix P :: "ram_request \<Rightarrow> bool"
    show "started P (rc_readq c) (delete_at i (rc_writeq c)) (rc_pending c) =
        started P (rc_readq c) (rc_writeq c) (rc_pending c) + (if P ?q then - 1 else 0)"
      using count_if_delete[OF i, of "\<lambda>q. \<not> rq_is_first_command q \<and> P q"] nf by (simp add: started_def)
  qed
  moreover have "queues_ok ch R K (rc_clk c) (rc_readq c) (delete_at i (rc_writeq c)) (rc_pending c)"
    using I(6) by (auto simp: queues_ok_def dest!: in_set_takeD in_set_dropD)
  moreover have "refq_ok ch R K (hb_speed (rc_spec c)) (rc_clk c) D t' (rc_refresh c) (rc_otherq c)"
    using P(1) by (intro refq_ok_frame[OF I(10) t'(7)]) simp
  ultimately show ?thesis
    using I t'(1,2) req_okD(1)[OF q] table_ok_frame[OF I(5) t'(6)]
    by (simp add: finish_request_def Let_def ctrl_inv_def consts_ok_def)
qed

lemma finish_access:
  assumes "ctrl_inv ch R K rclk D c" "queue_of k ty" "i < length (the_queue k c)" "\<not> rq_is_first_command (the_queue k c ! i)"
  shows "runs (finish_request k i c) (\<lambda>c'. ctrl_inv ch R K rclk D c' \<and> rc_clk c' = rc_clk c \<and> rc_spec c' = rc_spec c \<and> rc_otherq c' = rc_otherq c)"
  using assms finish_read[OF assms(1)] finish_write[OF assms(1)] by (auto simp: queue_of_def)

subsection \<open>Scheduling an access\<close>

lemma first_cmd_access:
  assumes inv: "ctrl_inv ch R K rclk D c" and k: "queue_of k ty" and q: "req_ok ch R K clk ty q"
  obtains cmd where "get_first_cmd q c = Some cmd" "fits cmd (rq_addr_vec q ! 3) (row_of (rc_channel c) (rank_ix q) (bank_ix q))"
    "scope cmd \<noteq> Channel"
proof -
  have cmd: "translate (rq_type q) = RD \<or> translate (rq_type q) = WR"
    using req_okD(1)[OF q] k by (auto simp: queue_of_def)
  have "get_first_cmd q c = Some (case row_of (rc_channel c) (rank_ix q) (bank_ix q) of
     None \<Rightarrow> ACT | Some row \<Rightarrow> if rq_addr_vec q ! 3 = row then translate (rq_type q) else PRE)"
    using decode_access[OF ctrl_invD(4)[OF inv] req_okD(2,3,4)[OF q] cmd] by (simp add: get_first_cmd_def row_of_def)
  then show thesis using that cmd by (auto simp: fits_def split: option.splits)
qed

lemma same_rows_ready:
  assumes inv: "ctrl_inv ch R K rclk D c" "ctrl_inv ch R K rclk D c'" and s: "same_rows R c c'" and q: "req_ok ch R K clk ty q"
    and k: "queue_of k ty"
  shows "get_first_cmd q c' = get_first_cmd q c"
    and "scope cmd \<noteq> Channel \<Longrightarrow> is_ready_cmd cmd (rq_addr_vec q) c' = is_ready_cmd cmd (rq_addr_vec q) c"
proof -
  note P = req_okD(2,3,4)[OF q]
  have cmd: "translate (rq_type q) = RD \<or> translate (rq_type q) = WR"
    using req_okD(1)[OF q] k by (auto simp: queue_of_def)
  have rows: "row_of (rc_channel c') (rank_ix q) (bank_ix q) = row_of (rc_channel c) (rank_ix q) (bank_ix q)"
    "nexts (rc_channel c') (rank_ix q) (bank_ix q) = nexts (rc_channel c) (rank_ix q) (bank_ix q)" "rc_clk c' = rc_clk c"
    using s P by (auto simp: same_rows_def)
  show "get_first_cmd q c' = get_first_cmd q c"
    using decode_access[OF ctrl_invD(4)[OF inv(1)] P cmd] decode_access[OF ctrl_invD(4)[OF inv(2)] P cmd] rows(1)
    by (simp add: get_first_cmd_def row_of_def)
  show "is_ready_cmd cmd (rq_addr_vec q) c' = is_ready_cmd cmd (rq_addr_vec q) c" if "scope cmd \<noteq> Channel"
    using check_path[OF ctrl_invD(4)[OF inv(1)] P that] check_path[OF ctrl_invD(4)[OF inv(2)] P that] rows(2,3)
    by (simp add: is_ready_cmd_def passed_def nexts_def)
qed

lemma serve_head_access:
  assumes inv: "ctrl_inv ch R K rclk D c" and k: "queue_of k ty" and i: "i < length (the_queue k c)"
    and rdy: "is_ready (the_queue k c ! i) c = Some True" and e: "rc_otherq c = []"
  shows "runs (serve_head k i c) (\<lambda>c'. ctrl_inv ch R K rclk D c' \<and> rc_clk c' = rc_clk c \<and> rc_spec c' = rc_spec c \<and> rc_otherq c' = [])"
proof -
  let ?q = "the_queue k c ! i"
  have q: "req_ok ch R K (rc_clk c) ty ?q" by (rule queue_req_ok[OF inv k i])
  note P = req_okD(2,3,4)[OF q]
  let ?b = "int (rank_ix ?q) * 2 + int (bank_ix ?q)"
  have ty: "rq_type ?q = READ \<or> rq_type ?q = WRITE" using req_okD(1)[OF q] k by (auto simp: queue_of_def)
  have bi: "0 \<le> ?b" "?b < 2 * int R" using P(1,2) by auto
  obtain c1 where c1: "(if rq_type ?q = READ then bump_stat cs_bank_reads cs_bank_reads_update ?b c
      else if rq_type ?q = WRITE then bump_stat cs_bank_writes cs_bank_writes_update ?b c else Some c) = Some c1" "stats_step R K c c1"
    using bump_bank_runs[OF ctrl_invD(8)[OF inv] bi] ty by (auto simp: runs_iff)
  note inv1 = stats_step_inv[OF c1(2) inv]
  have q1: "the_queue k c1 = the_queue k c" and s1: "same_rows R c c1" and e1: "rc_otherq c1 = []"
    using stats_step_sel[OF c1(2)] e by (auto simp: same_rows_def)
  obtain c2 where c2: "(if rq_is_first_command ?q
      then first_command ?q ?b (put_queue k ((the_queue k c1)[i := ?q\<lparr>rq_is_first_command := False\<rparr>]) c1) else Some c1) = Some c2"
    "ctrl_inv ch R K rclk D c2" "same_rows R c c2" "i < length (the_queue k c2)" "\<not> rq_is_first_command (the_queue k c2 ! i)"
  proof (cases "rq_is_first_command ?q")
    case True
    have "runs (first_command ?q ?b (put_queue k ((the_queue k c1)[i := ?q\<lparr>rq_is_first_command := False\<rparr>]) c1))
       (\<lambda>c'. ctrl_inv ch R K rclk D c' \<and> same_rows R c1 c' \<and> the_queue k c' = (the_queue k c1)[i := ?q\<lparr>rq_is_first_command := False\<rparr>])"
      by (rule first_command_runs[OF inv1 k]) (use i True q1 in simp_all)
    then show thesis
      using that True s1 i q1 by (auto simp: runs_iff same_rows_def)
  next
    case False
    then show thesis using that[of c1] inv1 s1 i q1 by simp
  qed
  obtain cmd where cmd: "get_first_cmd ?q c = Some cmd"
    "fits cmd (rq_addr_vec ?q ! 3) (row_of (rc_channel c) (rank_ix ?q) (bank_ix ?q))" "scope cmd \<noteq> Channel"
    by (rule first_cmd_access[OF inv k q])
  note sr = same_rows_ready[OF inv c2(2,3) q k]
  have rdy2: "is_ready_cmd cmd (rq_addr_vec ?q) c2 = Some True"
    using rdy cmd(1) sr(2)[OF cmd(3)] by (simp add: is_ready_def)
  have fit2: "fits cmd (rq_addr_vec ?q ! 3) (row_of (rc_channel c2) (rank_ix ?q) (bank_ix ?q))"
    and e2: "rc_otherq c2 = []" and cs2: "rc_clk c2 = rc_clk c" "rc_spec c2 = rc_spec c"
    using cmd(2) c2(3) P e by (auto simp: same_rows_def)
  obtain c3 where c3: "issue_cmd cmd (rq_addr_vec ?q) c2 = Some c3" "ctrl_inv ch R K rclk D c3" "rc_clk c3 = rc_clk c2"
    "rc_spec c3 = rc_spec c2" "rc_otherq c3 = []" "\<forall>k. the_queue k c3 = the_queue k c2"
    using issue_access_runs[OF c2(2) P fit2 rdy2 e2] by (auto simp: runs_iff)
  have fin: "runs (finish_request k i c3) (\<lambda>c'. ctrl_inv ch R K rclk D c' \<and> rc_clk c' = rc_clk c3 \<and> rc_spec c' = rc_spec c3 \<and> rc_otherq c' = rc_otherq c3)"
    using c2(4,5) c3(6) by (intro finish_access[OF c3(2) k]) auto
  have "serve_head k i c = (if cmd \<noteq> translate (rq_type ?q) then Some c3 else finish_request k i c3)"
    using on_pathD[OF P(3)] c1(1) c2(1) cmd(1) sr(1) c3(1)
    by (simp add: serve_head_def Let_def split del: if_split)
  then show ?thesis
    using fin c3 cs2 by (auto elim!: runs_mono)
qed

lemma answers_access:
  assumes inv: "ctrl_inv ch R K rclk D c" and k: "queue_of k ty"
  obtains rd hit opn where "answers (the_queue k c) c rd hit opn"
proof -
  let ?q = "\<lambda>i. the_queue k c ! i"
  have "\<exists>r h p. is_ready (?q i) c = Some r \<and> is_row_hit (?q i) c = Some h \<and> is_row_open (?q i) c = Some p"
    if i: "i < length (the_queue k c)" for i
  proof -
    have q: "req_ok ch R K (rc_clk c) ty (?q i)" by (rule queue_req_ok[OF inv k i])
    note P = ctrl_invD(4)[OF inv] req_okD(2,3,4)[OF q]
    obtain cmd where "get_first_cmd (?q i) c = Some cmd" "scope cmd \<noteq> Channel" by (rule first_cmd_access[OF inv k q])
    then show ?thesis
      using check_path[OF P, of cmd "rc_clk c"] check_row_hit_path[OF P] check_row_open_path[OF P]
      by (simp add: is_ready_def is_ready_cmd_def is_row_hit_def is_row_open_def)
  qed
  then have "answers (the_queue k c) c (\<lambda>i. the (is_ready (?q i) c)) (\<lambda>i. the (is_row_hit (?q i) c)) (\<lambda>i. the (is_row_open (?q i) c))"
    by (fastforce simp: answers_def)
  then show thesis by (rule that)
qed

lemma ctrl_inv_idle: "ctrl_inv ch R K rclk D c \<Longrightarrow> rc_clk c = rclk \<Longrightarrow> rc_otherq c = [] \<Longrightarrow> ctrl_ok ch R K c"
  by (simp add: ctrl_ok_def ctrl_inv_def refq_ok_def deadlines_def)

lemma schedule_access_runs:
  assumes inv: "ctrl_inv ch R K (rc_clk c) D c" and e: "rc_otherq c = []"
  shows "runs (schedule c) (\<lambda>c'. ctrl_ok ch R K c' \<and> rc_clk c' = rc_clk c \<and> rc_spec c' = rc_spec c)"
proof -
  note I = ctrl_invD[OF inv]
  let ?k = "if \<not> rc_write_mode c then ReadQ else WriteQ"
  have k: "queue_of ?k (if \<not> rc_write_mode c then READ else WRITE)" by (simp add: queue_of_def)
  obtain rd hit opn where A: "answers (the_queue ?k c) c rd hit opn" by (rule answers_access[OF inv k])
  have ty: "rc_sched_type c = FRFCFS_PriorHit" "rc_policy_type c = PolicyOpened" using I(1) by (auto simp: consts_ok_def)
  obtain head where head: "get_head (the_queue ?k c) c = Some (head, c)"
    "\<And>h. head = Some h \<Longrightarrow> h < length (the_queue ?k c)"
    using get_head_runs[OF A ty(1)] by (auto simp: runs_iff split: option.splits)
  show ?thesis
  proof (cases "\<exists>h. head = Some h \<and> rd h")
    case True
    then obtain h where h: "head = Some h" "rd h" by blast
    have rdy: "is_ready (the_queue ?k c ! h) c = Some True" using A head(2)[OF h(1)] h(2) by (simp add: answers_def)
    have "schedule c = serve_head ?k h c"
      using e head(1) h(1) rdy by (simp add: schedule_def Let_def)
    then show ?thesis
      using serve_head_access[OF inv k head(2)[OF h(1)] rdy e] by (auto elim!: runs_mono intro: ctrl_inv_idle)
  next
    case False
    then have "(case head of None \<Rightarrow> Some False | Some i \<Rightarrow> is_ready (the_queue ?k c ! i) c) = Some False"
      using A head(2) by (auto simp: answers_def split: option.splits)
    then have "schedule c = Some c"
      using e head(1) ty(2) by (simp add: schedule_def Let_def get_victim_def)
    then show ?thesis using ctrl_inv_idle[OF inv refl e] by simp
  qed
qed

subsection \<open>One clock\<close>

lemma next_clock_inv:
  assumes ok: "ctrl_ok ch R K c"
  shows "ctrl_inv ch R K (rc_clk c) (rc_clk c + 1) (c\<lparr>rc_clk := rc_clk c + 1\<rparr>)"
proof -
  note I = ctrl_invD[OF ok[unfolded ctrl_ok_def]]
  have "refq_ok ch R K (hb_speed (rc_spec c)) (rc_clk c + 1) (rc_clk c + 1) (rc_channel c) (rc_refresh c) (rc_otherq c)"
    using I(10) by (auto simp: refq_ok_def intro: req_ok_mono)
  then show ?thesis
    using I queues_ok_mono[OF I(6), of "rc_clk c + 1"] by (simp add: ctrl_inv_def consts_ok_def)
qed

lemma choose_mode_inv: "ctrl_inv ch R K rclk D (choose_mode c) = ctrl_inv ch R K rclk D c"
  "rc_clk (choose_mode c) = rc_clk c" "rc_spec (choose_mode c) = rc_spec c" "rc_otherq (choose_mode c) = rc_otherq c"
  by (simp_all add: choose_mode_def ctrl_inv_def consts_ok_def)

lemma ctrl_tick_runs:
  assumes ok: "ctrl_ok ch R K c"
  shows "runs (ctrl_tick c) (\<lambda>(completed, c'). ctrl_ok ch R K c' \<and> rc_clk c' = rc_clk c + 1 \<and> rc_spec c' = rc_spec c)"
proof -
  let ?c = "count_queues (c\<lparr>rc_clk := rc_clk c + 1\<rparr>)"
  have inv: "ctrl_inv ch R K (rc_clk c) (rc_clk c + 1) ?c" "rc_clk ?c = rc_clk c + 1" "rc_spec ?c = rc_spec c"
    using next_clock_inv[OF ok] by (simp_all add: count_queues_def)
  obtain cb c1 where c1: "serve_completed ?c = Some (cb, c1)" "ctrl_inv ch R K (rc_clk c) (rc_clk c + 1) c1"
    "rc_clk c1 = rc_clk c + 1" "rc_spec c1 = rc_spec c"
    using serve_completed_runs[OF inv(1)] inv by (auto simp: runs_iff)
  obtain c2 where c2: "tick_ref c1 = Some c2" "ctrl_inv ch R K (rc_clk c2) (rc_clk c2) c2" "rc_clk c2 = rc_clk c + 1" "rc_spec c2 = rc_spec c"
    using tick_ref_runs[of ch R K c1] c1 by (auto simp: runs_iff)
  have "runs (schedule (choose_mode c2)) (\<lambda>c'. ctrl_ok ch R K c' \<and> rc_clk c' = rc_clk c2 \<and> rc_spec c' = rc_spec c2)"
    using schedule_refresh_runs[of ch R K "choose_mode c2"] schedule_access_runs[of ch R K "choose_mode c2"] c2(2)
    by (cases "rc_otherq c2 = []") (simp_all add: choose_mode_inv)
  then show ?thesis
    using c1(1) c2 by (auto simp: ctrl_tick_def Let_def runs_iff)
qed

lemma set_ref_interval_runs:
  assumes ok: "ctrl_ok ch R K c" and b: "0 \<le> b" "b < 2 * int R" and pos: "0 \<le> hs_nREFI (hb_speed (rc_spec c))"
  shows "runs (setBankRef b hot c) (\<lambda>c'. ctrl_ok ch R K c' \<and> rc_clk c' = rc_clk c \<and> rc_spec c' = rc_spec c)"
proof -
  note I = ctrl_invD[OF ok[unfolded ctrl_ok_def]]
  let ?n = "hs_nREFI (hb_speed (rc_spec c))"
  let ?x = "if hot then ?n div 2 else ?n"
  have "?n div 2 \<le> ?n" using pos by linarith
  then have "?n div 2 \<le> ?x" by simp
  then have "\<forall>x\<in>set ((rf_bank_ref_interval (rc_refresh c))[nat b := ?x]). ?n div 2 \<le> x"
    using I(9) by (auto simp: refresh_ok_def dest!: in_set_update)
  moreover have "nat b < length (rf_bank_ref_interval (rc_refresh c))" using I(9) b by (auto simp: refresh_ok_def)
  ultimately show ?thesis
    using I b(1) by (simp add: setBankRef_def set_ref_interval_def runs_simps Let_def ctrl_ok_def ctrl_inv_def consts_ok_def
        refresh_ok_def refq_ok_def)
qed

subsection \<open>A new controller\<close>

lemma those_map_Some: "\<forall>x\<in>set xs. f x = Some (g x) \<Longrightarrow> those (map f xs) = Some (map g xs)"
  by (induction xs) auto

definition new_bank :: "hbm \<Rightarrow> int \<Rightarrow> ram_dram" where
  "new_bank spec j = Node (new_node spec Bank j) []"

definition new_rank :: "hbm \<Rightarrow> int \<Rightarrow> ram_dram" where
  "new_rank spec i = Node (new_node spec Rank i) (map (new_bank spec) [0..1])"

lemma RamDRAM_eq:
  assumes "level_count spec Rank = Some (int R)" "0 < R" "level_count spec Bank = Some 2"
  shows "RamDRAM spec Channel ch = Some (Node (new_node spec Channel ch) (map (new_rank spec) [0..int R - 1]))"
proof -
  have bank: "RamDRAM spec Bank j = Some (new_bank spec j)" for j
    by (subst RamDRAM.simps) (simp add: new_bank_def)
  have rank: "RamDRAM spec Rank i = Some (new_rank spec i)" for i
    using those_map_Some[of "[0..1]" "RamDRAM spec Bank" "new_bank spec"] bank
    by (subst RamDRAM.simps) (simp add: new_rank_def assms(3))
  show ?thesis
    using those_map_Some[of "[0..int R - 1]" "RamDRAM spec Rank" "new_rank spec"] rank assms(1,2)
    by (subst RamDRAM.simps) simp
qed

lemma new_node_ok: "node_ok (hb_speed spec) l i (new_node spec l i)"
  by (simp add: node_ok_def new_node_def)

lemma new_tree:
  assumes "t = Node (new_node spec Channel ch) (map (new_rank spec) [0..int R - 1])"
  shows "tree_ok (hb_speed spec) ch R 2 t" "length (children t) = R"
    and "cur0 t = 0" "\<And>i. i < R \<Longrightarrow> cur1 t i = 0" "\<And>i j. i < R \<Longrightarrow> j < 2 \<Longrightarrow> cur2 t i j = 0"
    and "\<And>i j. i < R \<Longrightarrow> j < 2 \<Longrightarrow> row_of t i j = None" "chan_ref t = - 1" "\<And>i. i < R \<Longrightarrow> ref_next t i = - 1"
proof -
  have rank: "children t ! i = new_rank spec (int i)" if "i < R" for i using that assms by simp
  have bank: "children (new_rank spec x) ! j = new_bank spec (int j)" if "j < 2" for x j
    using that by (simp add: new_rank_def)
  have sel: "children (new_bank spec x) = []" "the_node (new_bank spec x) = new_node spec Bank x"
    "the_node (new_rank spec x) = new_node spec Rank x" "length (children (new_rank spec x)) = 2" for x
    by (simp_all add: new_bank_def new_rank_def)
  note facts = rank bank sel new_node_ok
  show len: "length (children t) = R" using assms by simp
  show "tree_ok (hb_speed spec) ch R 2 t"
    using len by (simp add: tree_ok_def facts assms) (simp add: new_node_def bank_ok_def)
  show "cur0 t = 0" "chan_ref t = - 1" using assms by (simp_all add: cur0_def chan_ref_def new_node_def)
  show "cur1 t i = 0" "ref_next t i = - 1" if "i < R" for i
    using that by (simp_all add: cur1_def ref_next_def facts) (simp_all add: new_node_def)
  show "cur2 t i j = 0" "row_of t i j = None" if "i < R" "j < 2" for i j
    using that by (simp_all add: cur2_def row_of_def open_row_of_def facts) (simp_all add: new_node_def)
qed

lemma new_controller_ok:
  assumes lc: "level_count spec Rank = Some (int R)" "0 < R" "level_count spec Bank = Some 2"
    and sp: "spec_ok R spec" and K: "0 < K"
    and pos: "0 \<le> hs_nREFI (hb_speed spec)"
  shows "runs (RamDRAM spec Channel ch \<bind> RamController (int K) (int R) tr spec) (\<lambda>c. ctrl_ok ch R K c \<and> rc_spec c = spec)"
proof -
  let ?t = "Node (new_node spec Channel ch) (map (new_rank spec) [0..int R - 1])"
  note T = new_tree[where spec = spec and ch = ch and R = R, OF refl]
  have "hs_nREFI (hb_speed spec) div 2 \<le> hs_nREFI (hb_speed spec)" using pos by linarith
  then show ?thesis
    using sp K lc(3) T
    by (simp add: RamDRAM_eq[OF lc] RamController_def Refresh_def runs_simps Let_def ctrl_ok_def ctrl_inv_def consts_ok_def
        table_ok_def omap_wf_def queues_ok_def serving_ok_def started_def stats_ok_def new_stats_def refresh_ok_def refq_ok_def
        deadlines_def spec_ok_def)
qed

end
