(* ===== verification/Ram_Memory.thy ===== *)
theory Ram_Memory
  imports Ram_Controller
begin

section \<open>The memory system and the DRAM model\<close>

text \<open>
  \<^verbatim>\<open>RamConfig.h/.cc\<close>, \<^verbatim>\<open>RamMemory.h\<close> and \<^verbatim>\<open>dram_sim.h/.cc\<close> of \<^verbatim>\<open>ramulator/\<close>: the configuration file, the
  memory (one controller per channel, the address layout, the page allocator), and \<^verbatim>\<open>DramModel\<close>, the
  object the stacked DRAM controller talks to. A configuration file is given by its lines. A field
  that only the file sets is \<open>None\<close> until then: reading it is reading an indeterminate value.
  \<^verbatim>\<open>finish\<close> of the memory (averages for a report) and \<^verbatim>\<open>printSpec\<close> are left out.
\<close>

subsection \<open>The configuration\<close>

record ram_config =
  rcf_options :: "string \<Rightarrow> string option"
  rcf_channels :: "int option"
  rcf_ranks :: "int option"
  rcf_subarrays :: "int option"
  rcf_cpu_tick :: "int option"
  rcf_mem_tick :: "int option"
  rcf_core_num :: int
  rcf_expected_limit_insts :: int

definition is_delim :: "char \<Rightarrow> bool" where
  "is_delim ch \<longleftrightarrow> ch = CHR '' '' \<or> ch = CHR 0x09 \<or> ch = CHR ''=''"

function tokens :: "string \<Rightarrow> string list" where
  "tokens line =
     (let s = dropWhile is_delim line in
      if s = [] then []
      else
        let tok = takeWhile (\<lambda>ch. \<not> is_delim ch) s; rest = dropWhile (\<lambda>ch. \<not> is_delim ch) s in
        if rest = [] then [tok] else tok # tokens rest)"
  by pat_completeness auto

lemma dropWhile_shorter: "dropWhile P xs \<noteq> [] \<Longrightarrow> length (dropWhile (\<lambda>x. \<not> P x) (dropWhile P xs)) < length xs"
proof -
  assume ne: "dropWhile P xs \<noteq> []"
  then obtain y ys where d: "dropWhile P xs = y # ys" by (meson neq_Nil_conv)
  then have "\<not> P y" using hd_dropWhile[OF ne] by simp
  then have "length (dropWhile (\<lambda>x. \<not> P x) (y # ys)) \<le> length ys" by (simp add: length_dropWhile_le)
  also have "length ys < length (dropWhile P xs)" by (simp add: d)
  also have "\<dots> \<le> length xs" by (rule length_dropWhile_le)
  finally show ?thesis by (simp only: d)
qed

termination tokens
  by (relation "measure length") (auto simp: dropWhile_shorter)

declare tokens.simps [simp del]

text \<open>\<^verbatim>\<open>atoi\<close>: white space, a sign, and the leading digits.\<close>

definition is_space :: "char \<Rightarrow> bool" where
  "is_space ch \<longleftrightarrow> ch = CHR '' '' \<or> (of_char ch :: nat) \<in> {9..13}"

definition digits_value :: "string \<Rightarrow> int" where
  "digits_value s = foldl (\<lambda>n ch. 10 * n + (of_char ch - 48)) 0 (takeWhile (\<lambda>ch. (of_char ch :: nat) \<in> {48..57}) s)"

definition atoi :: "string \<Rightarrow> int" where
  "atoi s = (case dropWhile is_space s of
     [] \<Rightarrow> 0
   | ch # cs \<Rightarrow> if ch = CHR ''-'' then - digits_value cs
                else if ch = CHR ''+'' then digits_value cs
                else digits_value (ch # cs))"

definition parse_line :: "string \<Rightarrow> ram_config \<Rightarrow> ram_config option" where
  "parse_line line cf = (case tokens line of
     [] \<Rightarrow> Some cf
   | name # rest \<Rightarrow>
       if hd name = CHR ''#'' then Some cf
       else do {
         guard (length rest = 1);
         let v = hd rest;
         let cf = cf\<lparr>rcf_options := (rcf_options cf)(name \<mapsto> v)\<rparr>;
         Some (if name = ''channels'' then cf\<lparr>rcf_channels := Some (atoi v)\<rparr>
               else if name = ''ranks'' then cf\<lparr>rcf_ranks := Some (atoi v)\<rparr>
               else if name = ''subarrays'' then cf\<lparr>rcf_subarrays := Some (atoi v)\<rparr>
               else if name = ''cpu_tick'' then cf\<lparr>rcf_cpu_tick := Some (atoi v)\<rparr>
               else if name = ''mem_tick'' then cf\<lparr>rcf_mem_tick := Some (atoi v)\<rparr>
               else if name = ''expected_limit_insts'' then cf\<lparr>rcf_expected_limit_insts := atoi v\<rparr>
               else cf)
       })"

definition RamConfig :: "string list \<Rightarrow> ram_config option" where
  "RamConfig lines = foldM parse_line lines
     \<lparr>rcf_options = Map.empty, rcf_channels = None, rcf_ranks = None, rcf_subarrays = None,
      rcf_cpu_tick = None, rcf_mem_tick = None, rcf_core_num = 4, rcf_expected_limit_insts = 0\<rparr>"

text \<open>\<^verbatim>\<open>operator[]\<close> and \<^verbatim>\<open>getPara\<close>; \<^verbatim>\<open>contains\<close>, \<^verbatim>\<open>add\<close>; the switches.\<close>

definition getPara :: "ram_config \<Rightarrow> string \<Rightarrow> string" where
  "getPara cf name = (case rcf_options cf name of Some v \<Rightarrow> v | None \<Rightarrow> '''')"

definition contains_option :: "ram_config \<Rightarrow> string \<Rightarrow> bool" where
  "contains_option cf name \<longleftrightarrow> rcf_options cf name \<noteq> None"

definition add_option :: "string \<Rightarrow> string \<Rightarrow> ram_config \<Rightarrow> ram_config" where
  "add_option name v cf =
     (if \<not> contains_option cf name then cf\<lparr>rcf_options := (rcf_options cf)(name \<mapsto> v)\<rparr> else cf)"

definition has_l3_cache :: "ram_config \<Rightarrow> bool" where
  "has_l3_cache cf = (case rcf_options cf ''cache'' of Some v \<Rightarrow> v = ''all'' \<or> v = ''L3'' | None \<Rightarrow> False)"

definition has_core_caches :: "ram_config \<Rightarrow> bool" where
  "has_core_caches cf = (case rcf_options cf ''cache'' of Some v \<Rightarrow> v = ''all'' \<or> v = ''L1L2'' | None \<Rightarrow> False)"

definition is_early_exit :: "ram_config \<Rightarrow> bool" where
  "is_early_exit cf = (case rcf_options cf ''early_exit'' of Some v \<Rightarrow> v \<noteq> ''off'' | None \<Rightarrow> True)"

definition calc_weighted_speedup :: "ram_config \<Rightarrow> bool" where
  "calc_weighted_speedup cf \<longleftrightarrow> rcf_expected_limit_insts cf \<noteq> 0"

definition record_cmd_trace :: "ram_config \<Rightarrow> bool" where
  "record_cmd_trace cf = (case rcf_options cf ''record_cmd_trace'' of Some v \<Rightarrow> v = ''on'' | None \<Rightarrow> False)"

definition print_cmd_trace :: "ram_config \<Rightarrow> bool" where
  "print_cmd_trace cf = (case rcf_options cf ''print_cmd_trace'' of Some v \<Rightarrow> v = ''on'' | None \<Rightarrow> False)"

subsection \<open>The memory\<close>

datatype addr_layout = ChRaBaRoCo | RoBaRaCoCh

datatype translation = NoTranslation | RandomTranslation

record ram_memory =
  mm_spec :: hbm
  mm_type :: addr_layout
  mm_translation :: translation
  mm_ctrls :: "ram_ctrl list"
  mm_addr_bits :: "int list"
  mm_tx_bits :: int
  mm_max_address :: int
  mm_free_physical_pages :: "int list"
  mm_free_physical_pages_remaining :: int
  mm_page_translation :: "int \<times> int \<Rightarrow> int option"
  mm_num_dram_cycles :: real
  mm_num_incoming_requests :: real
  mm_num_read_requests :: "real list"
  mm_num_write_requests :: "real list"
  mm_ramulator_active_cycles :: real
  mm_incoming_requests_per_channel :: "real list"
  mm_incoming_read_reqs_per_channel :: "real list"
  mm_physical_page_replacement :: real
  mm_in_queue_req_num_sum :: real
  mm_in_queue_read_req_num_sum :: real
  mm_in_queue_write_req_num_sum :: real

text \<open>\<^verbatim>\<open>calc_log2\<close>: the loop \<^verbatim>\<open>while ((val >>= 1)) n++\<close>, which does not end for a negative value.\<close>

partial_function (option) calc_log2_loop :: "int \<Rightarrow> int \<Rightarrow> int option" where
  "calc_log2_loop n v = (let v = drop_bit 1 v in if v = 0 then Some n else calc_log2_loop (n + 1) v)"

declare calc_log2_loop.simps [code]

definition calc_log2 :: "int \<Rightarrow> int option" where
  "calc_log2 v = calc_log2_loop 0 v"

text \<open>\<^verbatim>\<open>(1 << bits) - 1\<close> on \<^verbatim>\<open>int\<close>, and \<^verbatim>\<open>slice_lower_bits\<close>, which returns the slice and the shifted address.\<close>

definition int_mask :: "int \<Rightarrow> int option" where
  "int_mask bits = (if 0 \<le> bits \<and> bits < 31 then Some (2 ^ nat bits - 1) else None)"

definition slice_lower_bits :: "int \<Rightarrow> int \<Rightarrow> (int \<times> int) option" where
  "slice_lower_bits addr bits = do {
     m \<leftarrow> int_mask bits;
     Some (addr AND m, drop_bit (nat bits) addr)
   }"

definition slice_into :: "int list \<Rightarrow> nat \<Rightarrow> int \<times> int list \<Rightarrow> (int \<times> int list) option" where
  "slice_into addr_bits i st = do {
     let (addr, vec) = st;
     bits \<leftarrow> ifetch addr_bits (int i);
     (lbits, addr) \<leftarrow> slice_lower_bits addr bits;
     vec \<leftarrow> istore vec (int i) lbits;
     Some (addr, vec)
   }"

text \<open>The order in which \<^verbatim>\<open>send\<close> slices the address: from the lowest bits up.\<close>

fun slice_order :: "addr_layout \<Rightarrow> nat list" where
  "slice_order ChRaBaRoCo = [4, 3, 2, 1, 0]"
| "slice_order RoBaRaCoCh = [0, 4, 1, 2, 3]"

definition address_vector :: "addr_layout \<Rightarrow> int list \<Rightarrow> int \<Rightarrow> int list option" where
  "address_vector ty addr_bits addr = do {
     (_, vec) \<leftarrow> foldM (slice_into addr_bits) (slice_order ty) (addr, replicate (length addr_bits) 0);
     Some vec
   }"

definition bump_mem :: "(ram_memory \<Rightarrow> real list) \<Rightarrow> ((real list \<Rightarrow> real list) \<Rightarrow> ram_memory \<Rightarrow> ram_memory) \<Rightarrow>
    int \<Rightarrow> ram_memory \<Rightarrow> ram_memory option" where
  "bump_mem get upd i m = do { xs \<leftarrow> bump (get m) i; Some (upd (\<lambda>_. xs) m) }"

definition send :: "ram_request \<Rightarrow> ram_memory \<Rightarrow> (bool \<times> ram_memory) option" where
  "send req m = do {
     vec \<leftarrow> address_vector (mm_type m) (mm_addr_bits m) (rq_addr req);
     let req = req\<lparr>rq_addr_vec := vec\<rparr>;
     ch \<leftarrow> ifetch vec (lev Channel);
     ctrl \<leftarrow> ifetch (mm_ctrls m) ch;
     let (res, ctrl) = enqueue req ctrl;
     cs \<leftarrow> istore (mm_ctrls m) ch ctrl;
     let m = m\<lparr>mm_ctrls := cs\<rparr>;
     if \<not> res then Some (False, m)
     else do {
       let m = m\<lparr>mm_num_incoming_requests := mm_num_incoming_requests m + 1\<rparr>;
       m \<leftarrow> (if rq_type req = READ then do {
                m \<leftarrow> bump_mem mm_num_read_requests mm_num_read_requests_update (rq_coreid req) m;
                bump_mem mm_incoming_read_reqs_per_channel mm_incoming_read_reqs_per_channel_update ch m }
              else Some m);
       m \<leftarrow> (if rq_type req = WRITE
              then bump_mem mm_num_write_requests mm_num_write_requests_update (rq_coreid req) m else Some m);
       m \<leftarrow> bump_mem mm_incoming_requests_per_channel mm_incoming_requests_per_channel_update ch m;
       Some (True, m)
     }
   }"

text \<open>\<^verbatim>\<open>tick\<close>; the requests whose callbacks the controllers call are returned, in their order.\<close>

definition queue_sum :: "(ram_ctrl \<Rightarrow> nat) \<Rightarrow> ram_memory \<Rightarrow> real" where
  "queue_sum f m = real (sum_list (map f (mm_ctrls m)))"

definition tick_ctrls :: "ram_ctrl list \<Rightarrow> (bool \<times> ram_request list \<times> ram_ctrl list) option" where
  "tick_ctrls cs = foldM (\<lambda>c (act, done, cs). do {
       (completed, c') \<leftarrow> ctrl_tick c;
       Some (act \<or> is_active c, done @ (case completed of None \<Rightarrow> [] | Some r \<Rightarrow> [r]), cs @ [c'])
     }) cs (False, [], [])"

definition mem_tick :: "ram_memory \<Rightarrow> (ram_request list \<times> ram_memory) option" where
  "mem_tick m = do {
     let m = m\<lparr>mm_num_dram_cycles := mm_num_dram_cycles m + 1,
       mm_in_queue_req_num_sum := mm_in_queue_req_num_sum m +
         queue_sum (\<lambda>c. length (rc_readq c) + length (rc_writeq c) + length (rc_pending c)) m,
       mm_in_queue_read_req_num_sum := mm_in_queue_read_req_num_sum m +
         queue_sum (\<lambda>c. length (rc_readq c) + length (rc_pending c)) m,
       mm_in_queue_write_req_num_sum := mm_in_queue_write_req_num_sum m + queue_sum (\<lambda>c. length (rc_writeq c)) m\<rparr>;
     (active, completed, cs) \<leftarrow> tick_ctrls (mm_ctrls m);
     let m = m\<lparr>mm_ctrls := cs\<rparr>;
     Some (completed, if active then m\<lparr>mm_ramulator_active_cycles := mm_ramulator_active_cycles m + 1\<rparr> else m)
   }"

definition pending_requests :: "ram_memory \<Rightarrow> int" where
  "pending_requests m = int (sum_list (map (\<lambda>c.
     length (rc_readq c) + length (rc_writeq c) + length (rc_otherq c) + length (rc_pending c)) (mm_ctrls m)))"

text \<open>The constructor. The name of the standard is \<^verbatim>\<open>HBM\<close>, so the test for \<^verbatim>\<open>LPDDR\<close> never applies.\<close>

definition is_pow2_or_0 :: "int \<Rightarrow> bool" where
  "is_pow2_or_0 n \<longleftrightarrow> n AND (n - 1) = 0"

definition RamMemory :: "ram_config \<Rightarrow> ram_ctrl list \<Rightarrow> ram_memory option" where
  "RamMemory cf ctrls = do {
     c \<leftarrow> ifetch ctrls 0;
     let spec = rc_spec c;
     let sz = oe_count (hb_org spec);
     channels \<leftarrow> level_count spec Channel;
     ranks \<leftarrow> level_count spec Rank;
     guard (is_pow2_or_0 channels);
     guard (is_pow2_or_0 ranks);
     let tx = hb_prefetch_size spec * hb_channel_width spec div 8;
     tx_bits \<leftarrow> calc_log2 tx;
     guard (2 ^ nat tx_bits = tx);
     guard (length sz = 5);
     addr_bits \<leftarrow> those (map calc_log2 sz);
     let max_address = foldl (*) (hb_channel_width spec div 8) sz;
     pf \<leftarrow> calc_log2 (hb_prefetch_size spec);
     let addr_bits = addr_bits[4 := addr_bits ! 4 - pf];
     let tr = (if contains_option cf ''translation'' \<and> getPara cf ''translation'' = ''Random''
               then RandomTranslation else NoTranslation);
     let pages = (if tr = NoTranslation then 0 else drop_bit 12 max_address);
     Some \<lparr>mm_spec = spec, mm_type = RoBaRaCoCh, mm_translation = tr, mm_ctrls = ctrls, mm_addr_bits = addr_bits,
       mm_tx_bits = tx_bits, mm_max_address = max_address,
       mm_free_physical_pages = replicate (nat pages) (- 1), mm_free_physical_pages_remaining = pages,
       mm_page_translation = Map.empty, mm_num_dram_cycles = 0, mm_num_incoming_requests = 0,
       mm_num_read_requests = replicate (nat (rcf_core_num cf)) 0, mm_num_write_requests = replicate (nat (rcf_core_num cf)) 0,
       mm_ramulator_active_cycles = 0, mm_incoming_requests_per_channel = replicate (nat channels) 0,
       mm_incoming_read_reqs_per_channel = replicate (nat channels) 0, mm_physical_page_replacement = 0,
       mm_in_queue_req_num_sum = 0, mm_in_queue_read_req_num_sum = 0, mm_in_queue_write_req_num_sum = 0\<rparr>
   }"

subsection \<open>The page allocator\<close>

text \<open>
  \<^verbatim>\<open>page_allocator\<close> with the value of \<^verbatim>\<open>lrand()\<close> as an argument: a page that is taken is looked for with a
  \<^verbatim>\<open>do ... while\<close> loop that goes round the list once.
\<close>

partial_function (option) next_free_page :: "int list \<Rightarrow> int \<Rightarrow> int \<Rightarrow> int option" where
  "next_free_page pages start i = (let i = (i + 1) mod int (length pages) in do {
     owner \<leftarrow> ifetch pages i;
     if i \<noteq> start \<and> owner \<noteq> - 1 then next_free_page pages start i else Some i
   })"

declare next_free_page.simps [code]

definition pick_page :: "int \<Rightarrow> int list \<Rightarrow> int option" where
  "pick_page lrand pages = do {
     guard (pages \<noteq> []);
     let p = lrand mod int (length pages);
     owner \<leftarrow> ifetch pages p;
     if owner \<noteq> - 1 then next_free_page pages p p else Some p
   }"

definition page_allocator :: "int \<Rightarrow> int \<Rightarrow> int \<Rightarrow> ram_memory \<Rightarrow> (int \<times> ram_memory) option" where
  "page_allocator lrand addr coreid m = (case mm_translation m of
     NoTranslation \<Rightarrow> Some (addr, m)
   | RandomTranslation \<Rightarrow> do {
       let target = (coreid, drop_bit 12 addr);
       let pages = mm_free_physical_pages m;
       m \<leftarrow> (if mm_page_translation m target = None then
                (if mm_free_physical_pages_remaining m = 0 then do {
                   guard (pages \<noteq> []);
                   let p = lrand mod int (length pages);
                   owner \<leftarrow> ifetch pages p;
                   guard (owner \<noteq> - 1);
                   Some (m\<lparr>mm_physical_page_replacement := mm_physical_page_replacement m + 1,
                           mm_page_translation := (mm_page_translation m)(target \<mapsto> p)\<rparr>)
                 }
                 else do {
                   p \<leftarrow> pick_page lrand pages;
                   owner \<leftarrow> ifetch pages p;
                   guard (owner = - 1);
                   pages \<leftarrow> istore pages p coreid;
                   Some (m\<lparr>mm_page_translation := (mm_page_translation m)(target \<mapsto> p),
                           mm_free_physical_pages := pages,
                           mm_free_physical_pages_remaining := mm_free_physical_pages_remaining m - 1\<rparr>)
                 })
              else Some m);
       page \<leftarrow> mm_page_translation m target;
       Some ((push_bit 12 page) OR (addr AND 4095), m)
     })"

subsection \<open>The DRAM model\<close>

record dm_request =
  dq_type :: int
  dq_vault :: int
  dq_bank :: int
  dq_row :: int
  dq_col :: int

record dram_model =
  dm_memory :: ram_memory
  dm_tCK :: real
  dm_req_queue :: "dm_request list"
  dm_recent_read_latency :: int
  dm_recent_write_latency :: int
  dm_last_req_time :: u64
  dm_n_updates :: int
  dm_avg_req_num :: real
  dm_avg_update_time :: real
  dm_avg_mem_latency :: real
  dm_latencies :: "(int, int) omap"
  dm_interval_ticks :: int
  dm_tot_ticks :: int

text \<open>
  The constructor, from the lines of the configuration file; \<^verbatim>\<open>avg_update_time\<close> has no initialiser, its
  first value is an argument.
\<close>

definition new_ctrl :: "ram_config \<Rightarrow> hbm \<Rightarrow> int \<Rightarrow> ram_ctrl option" where
  "new_ctrl cf spec c = do {
     channel \<leftarrow> RamDRAM spec Channel c;
     ranks \<leftarrow> rcf_ranks cf;
     RamController (rcf_core_num cf) ranks (record_cmd_trace cf) spec channel
   }"

definition DramModel :: "real \<Rightarrow> string list \<Rightarrow> dram_model option" where
  "DramModel uninit lines = do {
     cf \<leftarrow> RamConfig lines;
     spec \<leftarrow> HBM (getPara cf ''org'') (getPara cf ''speed'');
     C \<leftarrow> rcf_channels cf;
     R \<leftarrow> rcf_ranks cf;
     spec \<leftarrow> set_channel_number C spec;
     spec \<leftarrow> set_rank_number R spec;
     ctlrs \<leftarrow> those (map (new_ctrl cf spec) [0..C - 1]);
     mem \<leftarrow> RamMemory cf ctlrs;
     Some \<lparr>dm_memory = mem, dm_tCK = hs_tCK (hb_speed spec), dm_req_queue = [],
       dm_recent_read_latency = hb_read_latency (mm_spec mem), dm_recent_write_latency = hb_read_latency (mm_spec mem),
       dm_last_req_time = 0, dm_n_updates = 0, dm_avg_req_num = 0, dm_avg_update_time = uninit,
       dm_avg_mem_latency = 0, dm_latencies = [], dm_interval_ticks = 500000, dm_tot_ticks = 0\<rparr>
   }"

text \<open>The address of a row: \<^verbatim>\<open>addr <<= bits; addr |= (x & mask(bits))\<close> on \<^verbatim>\<open>uint64_t\<close>, highest field first.\<close>

definition shift_in :: "int \<Rightarrow> int \<Rightarrow> u64 \<Rightarrow> u64 option" where
  "shift_in bits x addr = do {
     m \<leftarrow> int_mask bits;
     Some (push_bit (nat bits) addr OR word_of_int (x AND m))
   }"

definition row_address :: "addr_layout \<Rightarrow> int list \<Rightarrow> int \<Rightarrow> int \<Rightarrow> int \<Rightarrow> int \<Rightarrow> u64 option" where
  "row_address ty addr_bits vault bank row col = do {
     b0 \<leftarrow> ifetch addr_bits 0;
     b1 \<leftarrow> ifetch addr_bits 1;
     b2 \<leftarrow> ifetch addr_bits 2;
     b3 \<leftarrow> ifetch addr_bits 3;
     b4 \<leftarrow> ifetch addr_bits 4;
     m2 \<leftarrow> int_mask b2;
     let rank = drop_bit (nat b2) bank;
     let ba = bank AND m2;
     case ty of
       ChRaBaRoCo \<Rightarrow> shift_in b0 vault 0 \<bind> shift_in b1 rank \<bind> shift_in b2 ba \<bind> shift_in b3 row \<bind> shift_in b4 col
     | RoBaRaCoCh \<Rightarrow> shift_in b3 row 0 \<bind> shift_in b2 ba \<bind> shift_in b1 rank \<bind> shift_in b4 col \<bind> shift_in b0 vault
   }"

definition send_row :: "ram_req_type \<Rightarrow> int \<Rightarrow> int \<Rightarrow> int \<Rightarrow> int \<Rightarrow> dram_model \<Rightarrow> (bool \<times> dram_model) option" where
  "send_row ty vault bank row col d = do {
     addr \<leftarrow> row_address (mm_type (dm_memory d)) (mm_addr_bits (dm_memory d)) vault bank row col;
     (res, m) \<leftarrow> send (RamRequest (sint addr) ty 0) (dm_memory d);
     Some (res, d\<lparr>dm_memory := m\<rparr>)
   }"

definition readRow :: "int \<Rightarrow> int \<Rightarrow> int \<Rightarrow> int \<Rightarrow> dram_model \<Rightarrow> (bool \<times> dram_model) option" where
  "readRow = send_row READ"

definition writeRow :: "int \<Rightarrow> int \<Rightarrow> int \<Rightarrow> int \<Rightarrow> dram_model \<Rightarrow> (bool \<times> dram_model) option" where
  "writeRow = send_row WRITE"

text \<open>\<^verbatim>\<open>read_complete\<close>, the callback of every request, counts latencies.\<close>

definition read_complete :: "ram_request \<Rightarrow> dram_model \<Rightarrow> dram_model" where
  "read_complete r d =
     (let k = rq_depart r - rq_arrive r; n = (case map_of (dm_latencies d) k of None \<Rightarrow> 0 | Some n \<Rightarrow> n) in
      d\<lparr>dm_latencies := omap_put k (n + 1) (dm_latencies d)\<rparr>)"

definition tickOnce :: "dram_model \<Rightarrow> dram_model option" where
  "tickOnce d = do {
     (completed, m) \<leftarrow> mem_tick (dm_memory d);
     let d = fold read_complete completed (d\<lparr>dm_memory := m\<rparr>);
     Some (d\<lparr>dm_interval_ticks := dm_interval_ticks d - 1, dm_tot_ticks := dm_tot_ticks d + 1\<rparr>)
   }"

definition resetIntervalTick :: "dram_model \<Rightarrow> dram_model" where
  "resetIntervalTick d = d\<lparr>dm_interval_ticks := 500000\<rparr>"

definition dm_setBankRef :: "int \<Rightarrow> int \<Rightarrow> bool \<Rightarrow> dram_model \<Rightarrow> dram_model option" where
  "dm_setBankRef vault bank hot d = do {
     c \<leftarrow> ifetch (mm_ctrls (dm_memory d)) vault;
     c \<leftarrow> setBankRef bank hot c;
     cs \<leftarrow> istore (mm_ctrls (dm_memory d)) vault c;
     Some (d\<lparr>dm_memory := (dm_memory d)\<lparr>mm_ctrls := cs\<rparr>\<rparr>)
   }"

text \<open>\<^verbatim>\<open>while (stall)\<close> of \<^verbatim>\<open>updateLatency\<close>: the loop goes on as long as the request is accepted.\<close>

partial_function (option) stall_loop :: "(dram_model \<Rightarrow> (bool \<times> dram_model) option) \<Rightarrow> int \<Rightarrow> dram_model \<Rightarrow> (int \<times> dram_model) option" where
  "stall_loop snd_row clks d = do {
     (stall, d) \<leftarrow> snd_row d;
     if stall then stall_loop snd_row (clks + 1) d else Some (clks + 1, d)
   }"

declare stall_loop.simps [code]

text \<open>Division of \<^verbatim>\<open>int\<close>, which rounds towards zero.\<close>

definition c_div :: "int \<Rightarrow> int \<Rightarrow> int" where
  "c_div a b = sgn a * sgn b * (\<bar>a\<bar> div \<bar>b\<bar>)"

record latency_counts =
  lc_read_clks :: int
  lc_write_clks :: int
  lc_n_reads :: int
  lc_n_writes :: int

definition replay_request :: "dm_request \<Rightarrow> latency_counts \<times> dram_model \<Rightarrow> (latency_counts \<times> dram_model) option" where
  "replay_request req st = do {
     let (k, d) = st;
     let k = k\<lparr>lc_n_reads := (if dq_type req = 0 then lc_n_reads k + 1 else lc_n_reads k),
               lc_n_writes := (if dq_type req = 1 then lc_n_writes k + 1 else lc_n_writes k)\<rparr>;
     if dq_type req = 0 then do {
       (n, d) \<leftarrow> stall_loop (readRow (dq_vault req) (dq_bank req) (dq_row req) (dq_col req)) (lc_read_clks k) d;
       Some (k\<lparr>lc_read_clks := n\<rparr>, d)
     }
     else do {
       (n, d) \<leftarrow> stall_loop (writeRow (dq_vault req) (dq_bank req) (dq_row req) (dq_col req)) (lc_write_clks k) d;
       Some (k\<lparr>lc_write_clks := n\<rparr>, d)
     }
   }"

definition updateLatency :: "u64 \<Rightarrow> dram_model \<Rightarrow> dram_model option" where
  "updateLatency pkt_time d =
     (if pkt_time - dm_last_req_time d < 200 then Some d
      else do {
        let elapse_time = pkt_time - dm_last_req_time d;
        let d = d\<lparr>dm_n_updates := dm_n_updates d + 1,
                  dm_avg_update_time := dm_avg_update_time d + real (unat elapse_time),
                  dm_avg_req_num := dm_avg_req_num d + real (length (dm_req_queue d)),
                  dm_last_req_time := pkt_time\<rparr>;
        (k, d) \<leftarrow> foldM replay_request (dm_req_queue d) (\<lparr>lc_read_clks = 0, lc_write_clks = 0, lc_n_reads = 0, lc_n_writes = 0\<rparr>, d);
        let lat = hb_read_latency (mm_spec (dm_memory d));
        let rl = (if lc_n_reads k = 0 then 0 else c_div (lc_read_clks k) (lc_n_reads k)) + lat;
        let wl = (if lc_n_writes k = 0 then 0 else c_div (lc_write_clks k) (lc_n_writes k)) + lat;
        Some (d\<lparr>dm_req_queue := [], dm_recent_read_latency := rl, dm_recent_write_latency := wl,
                dm_avg_mem_latency := dm_avg_mem_latency d + of_int (rl + wl)\<rparr>)
      })"

definition getReadLatency :: "int \<Rightarrow> int \<Rightarrow> int \<Rightarrow> int \<Rightarrow> u64 \<Rightarrow> dram_model \<Rightarrow> (int \<times> dram_model) option" where
  "getReadLatency vault bank row col pkt_time d = do {
     d \<leftarrow> (if pkt_time - dm_last_req_time d > 200 then updateLatency pkt_time d else Some d);
     Some (dm_recent_read_latency d, d)
   }"

definition getWriteLatency :: "int \<Rightarrow> int \<Rightarrow> int \<Rightarrow> int \<Rightarrow> u64 \<Rightarrow> dram_model \<Rightarrow> (int \<times> dram_model) option" where
  "getWriteLatency vault bank row col pkt_time d = do {
     let d = d\<lparr>dm_req_queue := dm_req_queue d @
                 [\<lparr>dq_type = 1, dq_vault = vault, dq_bank = bank, dq_row = row, dq_col = col\<rparr>]\<rparr>;
     d \<leftarrow> (if pkt_time - dm_last_req_time d > 200 then updateLatency pkt_time d else Some d);
     Some (dm_recent_write_latency d, d)
   }"

definition getPrevLatency :: "dram_model \<Rightarrow> int \<times> dram_model" where
  "getPrevLatency d =
     (let (tot_clks, tot_req) = foldl (\<lambda>(c, r) (k, n). (c + k * n, r + n)) (0, 0) (dm_latencies d);
          tot_clks = (if tot_req \<noteq> 0 then c_div tot_clks tot_req else tot_clks) in
      (tot_clks, d\<lparr>dm_latencies := []\<rparr>))"

subsection \<open>Statistics\<close>

text \<open>The conversion of a \<^verbatim>\<open>double\<close> counter to an unsigned integer.\<close>

definition u64_of :: "real \<Rightarrow> u64" where
  "u64_of x = word_of_int \<lfloor>x\<rfloor>"

definition the_ctrl :: "dram_model \<Rightarrow> int \<Rightarrow> ram_ctrl option" where
  "the_ctrl d vault = ifetch (mm_ctrls (dm_memory d)) vault"

definition stat_at :: "dram_model \<Rightarrow> int \<Rightarrow> (ctrl_stats \<Rightarrow> real list) \<Rightarrow> int \<Rightarrow> real option" where
  "stat_at d vault get i = do { c \<leftarrow> the_ctrl d vault; ifetch (get (rc_stats c)) i }"

definition getTotTime :: "dram_model \<Rightarrow> u64" where
  "getTotTime d = u64_of (mm_num_dram_cycles (dm_memory d)) * u64_of (dm_tCK d)"

definition getVaultQueLenAvg :: "dram_model \<Rightarrow> int \<Rightarrow> real option" where
  "getVaultQueLenAvg d vault = map_option (\<lambda>c. cs_req_queue_length_avg (rc_stats c)) (the_ctrl d vault)"

definition getVaultQueLenSum :: "dram_model \<Rightarrow> int \<Rightarrow> real option" where
  "getVaultQueLenSum d vault = map_option (\<lambda>c. cs_req_queue_length_sum (rc_stats c)) (the_ctrl d vault)"

definition getVaultRdReq :: "dram_model \<Rightarrow> int \<Rightarrow> u64 option" where
  "getVaultRdReq d vault = do {
     h \<leftarrow> stat_at d vault cs_read_row_hits 0;
     m \<leftarrow> stat_at d vault cs_read_row_misses 0;
     c \<leftarrow> stat_at d vault cs_read_row_conflicts 0;
     Some (u64_of h + u64_of m + u64_of c)
   }"

definition getVaultWrReq :: "dram_model \<Rightarrow> int \<Rightarrow> u64 option" where
  "getVaultWrReq d vault = do {
     h \<leftarrow> stat_at d vault cs_write_row_hits 0;
     m \<leftarrow> stat_at d vault cs_write_row_misses 0;
     c \<leftarrow> stat_at d vault cs_write_row_conflicts 0;
     Some (u64_of h + u64_of m + u64_of c)
   }"

definition getServingRdReq :: "dram_model \<Rightarrow> int \<Rightarrow> u64 option" where
  "getServingRdReq d vault = map_option (\<lambda>c. u64_of (dn_serving_reads (the_node (rc_channel c)))) (the_ctrl d vault)"

definition getServingWrReq :: "dram_model \<Rightarrow> int \<Rightarrow> u64 option" where
  "getServingWrReq d vault = map_option (\<lambda>c. u64_of (dn_serving_writes (the_node (rc_channel c)))) (the_ctrl d vault)"

definition getVaultRowHits :: "dram_model \<Rightarrow> int \<Rightarrow> u64 option" where
  "getVaultRowHits d vault = do {
     r \<leftarrow> stat_at d vault cs_read_row_hits 0;
     w \<leftarrow> stat_at d vault cs_write_row_hits 0;
     Some (u64_of r + u64_of w)
   }"

definition bank_sum :: "dram_model \<Rightarrow> int \<Rightarrow> (ctrl_stats \<Rightarrow> real list) \<Rightarrow> (ctrl_stats \<Rightarrow> real list) \<Rightarrow> int \<Rightarrow> u64 option" where
  "bank_sum d vault f g bank = do {
     r \<leftarrow> stat_at d vault f bank;
     w \<leftarrow> stat_at d vault g bank;
     Some (u64_of (r + w))
   }"

definition getBankRowHits :: "dram_model \<Rightarrow> int \<Rightarrow> int \<Rightarrow> u64 option" where
  "getBankRowHits d vault bank = bank_sum d vault cs_bank_read_row_hits cs_bank_write_row_hits bank"

definition getBankRowConflicts :: "dram_model \<Rightarrow> int \<Rightarrow> int \<Rightarrow> u64 option" where
  "getBankRowConflicts d vault bank = bank_sum d vault cs_bank_read_row_conflicts cs_bank_write_row_conflicts bank"

definition getBankRowMisses :: "dram_model \<Rightarrow> int \<Rightarrow> int \<Rightarrow> u64 option" where
  "getBankRowMisses d vault bank = bank_sum d vault cs_bank_read_row_misses cs_bank_write_row_misses bank"

definition getBankActTime :: "dram_model \<Rightarrow> int \<Rightarrow> int \<Rightarrow> u64 option" where
  "getBankActTime d vault bank = do {
     b2 \<leftarrow> ifetch (mm_addr_bits (dm_memory d)) 2;
     c \<leftarrow> the_ctrl d vault;
     rank \<leftarrow> ifetch (children (rc_channel c)) (drop_bit (nat b2) bank);
     Some (u64_of (dn_active_cycles (the_node rank)) * u64_of (dm_tCK d))
   }"

text \<open>The share of the active time of a bank's rank that its reads (or writes) take.\<close>

definition ratio_time :: "u64 \<Rightarrow> u64 \<Rightarrow> u64 \<Rightarrow> u64" where
  "ratio_time act_t part tot =
     (if tot \<noteq> 0 then u64_of (real (unat act_t) * (real (unat part) / real (unat tot))) else 0)"

definition getBankRdTime :: "dram_model \<Rightarrow> int \<Rightarrow> int \<Rightarrow> u64 option" where
  "getBankRdTime d vault bank = do {
     r \<leftarrow> stat_at d vault cs_bank_reads bank;
     w \<leftarrow> stat_at d vault cs_bank_writes bank;
     act_t \<leftarrow> getBankActTime d vault bank;
     Some (ratio_time act_t (u64_of r) (u64_of r + u64_of w))
   }"

definition getBankWrTime :: "dram_model \<Rightarrow> int \<Rightarrow> int \<Rightarrow> u64 option" where
  "getBankWrTime d vault bank = do {
     r \<leftarrow> stat_at d vault cs_bank_reads bank;
     w \<leftarrow> stat_at d vault cs_bank_writes bank;
     act_t \<leftarrow> getBankActTime d vault bank;
     Some (ratio_time act_t (u64_of w) (u64_of r + u64_of w))
   }"

definition getBankReads :: "dram_model \<Rightarrow> int \<Rightarrow> int \<Rightarrow> u32 option" where
  "getBankReads d vault bank = map_option (\<lambda>x. word_of_int \<lfloor>x\<rfloor>) (stat_at d vault cs_bank_reads bank)"

definition getBankWrites :: "dram_model \<Rightarrow> int \<Rightarrow> int \<Rightarrow> u32 option" where
  "getBankWrites d vault bank = map_option (\<lambda>x. word_of_int \<lfloor>x\<rfloor>) (stat_at d vault cs_bank_writes bank)"

end
