(* ===== verification/Ram_Addr.thy ===== *)
theory Ram_Addr
  imports Ram_Memory
begin

section \<open>Logarithms and addresses\<close>

text \<open>
  \<^verbatim>\<open>calc_log2\<close> computes the floor of the binary logarithm and returns for every argument that is not
  negative; \<^verbatim>\<open>readRow\<close> and \<^verbatim>\<open>writeRow\<close> pack coordinates into an address that \<^verbatim>\<open>send\<close> slices back into the
  same coordinates, in both layouts.
\<close>

subsection \<open>The logarithm\<close>

lemma calc_log2_loop_spec:
  "0 \<le> v \<Longrightarrow> \<exists>k. calc_log2_loop n v = Some (n + int k) \<and> (v = 0 \<and> k = 0 \<or> 2 ^ k \<le> v \<and> v < 2 ^ Suc k)"
proof (induction "nat v" arbitrary: n v rule: less_induct)
  case less
  have half: "drop_bit (Suc 0) v = v div 2" by (simp add: drop_bit_eq_div)
  show ?case
  proof (cases "v div 2 = 0")
    case True
    then have "calc_log2_loop n v = Some n" by (subst calc_log2_loop.simps) (simp add: half Let_def)
    moreover have "v = 0 \<or> v = 1" using True less.prems by linarith
    ultimately show ?thesis by (intro exI[of _ 0]) auto
  next
    case False
    then have "nat (v div 2) < nat v" "0 \<le> v div 2" using less.prems by auto
    from less.hyps[OF this, of "n + 1"] False obtain k where
      k: "calc_log2_loop (n + 1) (v div 2) = Some (n + 1 + int k)" "2 ^ k \<le> v div 2" "v div 2 < 2 ^ Suc k" by auto
    have "calc_log2_loop n v = calc_log2_loop (n + 1) (v div 2)"
      using False by (subst calc_log2_loop.simps) (simp add: half Let_def)
    then show ?thesis
      using k by (intro exI[of _ "Suc k"]) auto
  qed
qed

lemma calc_log2_pow2: "calc_log2 (2 ^ m) = Some (int m)"
proof -
  obtain k where k: "calc_log2 (2 ^ m) = Some (int k)" "(2 :: int) ^ k \<le> 2 ^ m" "(2 :: int) ^ m < 2 ^ Suc k"
    using calc_log2_loop_spec[of "2 ^ m" 0] by (auto simp: calc_log2_def)
  have "k \<le> m" using k(2) by (simp only: power_increasing_iff)
  moreover have "m < Suc k" using k(3) by (simp only: power_strict_increasing_iff)
  ultimately show ?thesis using k(1) by simp
qed

lemma calc_log2_loop_nonneg: "calc_log2_loop n v = Some r \<Longrightarrow> 0 \<le> v"
proof (induction rule: calc_log2_loop.raw_induct[rotated, consumes 1])
  case (1 f n v r)
  show ?case
  proof (cases "v div 2 = 0")
    case True
    then show ?thesis by linarith
  next
    case False
    then have "f (n + 1) (v div 2) = Some r" using 1(2) by (simp add: Let_def drop_bit_eq_div)
    then have "0 \<le> v div 2" by (rule 1(1))
    then show ?thesis by linarith
  qed
qed

subsection \<open>Packing and slicing\<close>

lemma int_mask_eq: "0 \<le> b \<Longrightarrow> b < 31 \<Longrightarrow> int_mask b = Some (mask (nat b))"
  by (simp add: int_mask_def mask_eq_exp_minus_1)

lemma slice_eq: "0 \<le> b \<Longrightarrow> b < 31 \<Longrightarrow> slice_lower_bits a b = Some (take_bit (nat b) a, drop_bit (nat b) a)"
  by (simp add: slice_lower_bits_def int_mask_eq take_bit_eq_mask)

text \<open>The widths of the five address fields.\<close>

definition widths_ok :: "int list \<Rightarrow> bool" where
  "widths_ok bits \<longleftrightarrow> length bits = 5 \<and> (\<forall>b\<in>set bits. 0 \<le> b \<and> b < 31)"

lemma widths_cases:
  assumes "widths_ok bits"
  obtains b0 b1 b2 b3 b4 where "bits = [int b0, int b1, int b2, int b3, int b4]" "b0 < 31" "b1 < 31" "b2 < 31" "b3 < 31" "b4 < 31"
proof -
  have "length bits = Suc (Suc (Suc (Suc (Suc 0))))" using assms by (simp add: widths_ok_def numeral_eq_Suc)
  then obtain x0 x1 x2 x3 x4 where b: "bits = [x0, x1, x2, x3, x4]" by (auto simp: length_Suc_conv)
  show thesis
    by (rule that[of "nat x0" "nat x1" "nat x2" "nat x3" "nat x4"]) (use assms b in \<open>auto simp: widths_ok_def nat_less_iff\<close>)
qed

lemma address_vector_eq:
  assumes "b0 < 31" "b1 < 31" "b2 < 31" "b3 < 31" "b4 < 31"
  shows "address_vector RoBaRaCoCh [int b0, int b1, int b2, int b3, int b4] a = Some
      [take_bit b0 a, take_bit b1 (drop_bit (b0 + b4) a), take_bit b2 (drop_bit (b0 + b4 + b1) a),
       take_bit b3 (drop_bit (b0 + b4 + b1 + b2) a), take_bit b4 (drop_bit b0 a)]"
    and "address_vector ChRaBaRoCo [int b0, int b1, int b2, int b3, int b4] a = Some
      [take_bit b0 (drop_bit (b4 + b3 + b2 + b1) a), take_bit b1 (drop_bit (b4 + b3 + b2) a), take_bit b2 (drop_bit (b4 + b3) a),
       take_bit b3 (drop_bit b4 a), take_bit b4 a]"
  using assms
  by (simp_all add: address_vector_def slice_into_def slice_eq ifetch_def istore_def numeral_eq_Suc add_ac)

lemma pack_take: "take_bit b (push_bit b a OR take_bit b x :: int) = take_bit b x"
  by (rule bit_eqI) (auto simp: bit_simps)

lemma pack_drop: "drop_bit b (push_bit b a OR take_bit b x :: int) = a"
  by (rule bit_eqI) (auto simp: bit_simps)

lemma pack_less: "0 \<le> a \<Longrightarrow> a < 2 ^ k \<Longrightarrow> push_bit b a OR take_bit b x < (2 ^ (k + b) :: int)"
proof -
  assume a: "0 \<le> a" "a < 2 ^ k"
  have "push_bit b a OR take_bit b x = push_bit b a + take_bit b x"
    by (rule disjunctive_add[symmetric]) (auto simp: bit_simps)
  also have "\<dots> < 2 ^ b * (a + 1)" using take_bit_int_less_exp[of b x] by (simp add: push_bit_eq_mult algebra_simps)
  also have "\<dots> \<le> 2 ^ b * 2 ^ k" using a by (intro mult_left_mono) auto
  finally show ?thesis by (simp add: power_add mult.commute)
qed

lemma shift_in_eq:
  assumes b: "b < 31" and w: "uint w < 2 ^ k" and k: "k + b \<le> 64"
  shows "\<exists>w'. shift_in (int b) x w = Some w' \<and> uint w' = push_bit b (uint w) OR take_bit b x \<and> uint w' < 2 ^ (k + b)"
proof -
  let ?p = "push_bit b (uint w) OR take_bit b x"
  have less: "?p < 2 ^ (k + b)" by (rule pack_less) (use w in simp_all)
  also have "(2 :: int) ^ (k + b) \<le> 2 ^ 64" using k by (intro power_increasing) auto
  finally have fits: "?p < 2 ^ 64" .
  have "push_bit b w OR word_of_int (x AND mask b) = word_of_int ?p"
    by (rule bit_word_eqI) (auto simp: bit_simps take_bit_eq_mask)
  then have "shift_in (int b) x w = Some (word_of_int ?p)" using b by (simp add: shift_in_def int_mask_eq)
  moreover have "uint (word_of_int ?p :: u64) = ?p"
    using fits by (simp add: uint_word_of_int take_bit_int_eq_self)
  ultimately show ?thesis using less by auto
qed

lemma sint_small:
  assumes "uint (w :: u64) < 2 ^ 63" shows "sint w = uint w"
proof -
  have "- (2 ^ 63) \<le> uint w" by (rule order_trans[of _ 0]) simp_all
  then show ?thesis unfolding sint_uint using assms by (intro signed_take_bit_int_eq_self) simp_all
qed

text \<open>The coordinates that an address holds: the bank number is split into rank and bank.\<close>

definition coords :: "nat \<Rightarrow> nat \<Rightarrow> nat \<Rightarrow> nat \<Rightarrow> nat \<Rightarrow> int \<Rightarrow> int \<Rightarrow> int \<Rightarrow> int \<Rightarrow> int list" where
  "coords b0 b1 b2 b3 b4 vault bank row col =
     [take_bit b0 vault, take_bit b1 (drop_bit b2 bank), take_bit b2 bank, take_bit b3 row, take_bit b4 col]"

text \<open>Five fields shifted in one after the other, and what slices them back.\<close>

lemma pack5:
  assumes "c0 < 31" "c1 < 31" "c2 < 31" "c3 < 31" "c4 < 31" "c0 + c1 + c2 + c3 + c4 \<le> 63"
  obtains w where "shift_in (int c0) x0 0 \<bind> shift_in (int c1) x1 \<bind> shift_in (int c2) x2 \<bind> shift_in (int c3) x3 \<bind> shift_in (int c4) x4 = Some w"
    "take_bit c4 (sint w) = take_bit c4 x4" "take_bit c3 (drop_bit c4 (sint w)) = take_bit c3 x3"
    "take_bit c2 (drop_bit (c4 + c3) (sint w)) = take_bit c2 x2" "take_bit c1 (drop_bit (c4 + c3 + c2) (sint w)) = take_bit c1 x1"
    "take_bit c0 (drop_bit (c4 + c3 + c2 + c1) (sint w)) = take_bit c0 x0"
proof -
  obtain w0 where w0: "shift_in (int c0) x0 0 = Some w0" "uint w0 = push_bit c0 0 OR take_bit c0 x0" "uint w0 < 2 ^ (0 + c0)"
    using shift_in_eq[of c0 0 0 x0] assms by auto
  obtain w1 where w1: "shift_in (int c1) x1 w0 = Some w1" "uint w1 = push_bit c1 (uint w0) OR take_bit c1 x1" "uint w1 < 2 ^ (0 + c0 + c1)"
    using shift_in_eq[OF assms(2) w0(3), of x1] assms by auto
  obtain w2 where w2: "shift_in (int c2) x2 w1 = Some w2" "uint w2 = push_bit c2 (uint w1) OR take_bit c2 x2" "uint w2 < 2 ^ (0 + c0 + c1 + c2)"
    using shift_in_eq[OF assms(3) w1(3), of x2] assms by auto
  obtain w3 where w3: "shift_in (int c3) x3 w2 = Some w3" "uint w3 = push_bit c3 (uint w2) OR take_bit c3 x3" "uint w3 < 2 ^ (0 + c0 + c1 + c2 + c3)"
    using shift_in_eq[OF assms(4) w2(3), of x3] assms by auto
  obtain w4 where w4: "shift_in (int c4) x4 w3 = Some w4" "uint w4 = push_bit c4 (uint w3) OR take_bit c4 x4" "uint w4 < 2 ^ (0 + c0 + c1 + c2 + c3 + c4)"
    using shift_in_eq[OF assms(5) w3(3), of x4] assms by auto
  have "(2 :: int) ^ (0 + c0 + c1 + c2 + c3 + c4) \<le> 2 ^ 63" using assms(6) by (intro power_increasing) auto
  then have s: "sint w4 = uint w4" using w4(3) by (intro sint_small) linarith
  have d: "drop_bit c4 (uint w4) = uint w3" "drop_bit c3 (uint w3) = uint w2" "drop_bit c2 (uint w2) = uint w1" "drop_bit c1 (uint w1) = uint w0"
    by (subst w4(2), rule pack_drop) (subst w3(2), rule pack_drop, subst w2(2), rule pack_drop, subst w1(2), rule pack_drop)
  have dd: "drop_bit (c4 + c3) (uint w4) = uint w2" "drop_bit (c4 + c3 + c2) (uint w4) = uint w1" "drop_bit (c4 + c3 + c2 + c1) (uint w4) = uint w0"
    using d by (simp_all add: drop_bit_drop_bit[symmetric] add.commute)
  have tk: "take_bit c4 (uint w4) = take_bit c4 x4" "take_bit c3 (uint w3) = take_bit c3 x3" "take_bit c2 (uint w2) = take_bit c2 x2"
      "take_bit c1 (uint w1) = take_bit c1 x1" "take_bit c0 (uint w0) = take_bit c0 x0"
    by (subst w4(2), rule pack_take) (subst w3(2), rule pack_take, subst w2(2), rule pack_take, subst w1(2), rule pack_take, subst w0(2), rule pack_take)
  show thesis
    by (rule that[of w4]) (simp_all add: w0(1) w1(1) w2(1) w3(1) w4(1) s d dd tk)
qed

lemma row_address_vector:
  assumes b: "b0 < 31" "b1 < 31" "b2 < 31" "b3 < 31" "b4 < 31" and sum: "b0 + b1 + b2 + b3 + b4 \<le> 63"
  obtains w where "row_address ty [int b0, int b1, int b2, int b3, int b4] vault bank row col = Some w"
    "address_vector ty [int b0, int b1, int b2, int b3, int b4] (sint w) = Some (coords b0 b1 b2 b3 b4 vault bank row col)"
proof (cases ty)
  case ChRaBaRoCo
  obtain w where w: "shift_in (int b0) vault 0 \<bind> shift_in (int b1) (drop_bit b2 bank) \<bind> shift_in (int b2) (take_bit b2 bank) \<bind>
      shift_in (int b3) row \<bind> shift_in (int b4) col = Some w"
    "take_bit b4 (sint w) = take_bit b4 col" "take_bit b3 (drop_bit b4 (sint w)) = take_bit b3 row"
    "take_bit b2 (drop_bit (b4 + b3) (sint w)) = take_bit b2 (take_bit b2 bank)" "take_bit b1 (drop_bit (b4 + b3 + b2) (sint w)) = take_bit b1 (drop_bit b2 bank)"
    "take_bit b0 (drop_bit (b4 + b3 + b2 + b1) (sint w)) = take_bit b0 vault"
    by (rule pack5[OF b sum])
  show thesis
    by (rule that[of w])
      (use w b ChRaBaRoCo address_vector_eq(2)[OF b] in \<open>auto simp: row_address_def int_mask_eq ifetch_def coords_def take_bit_eq_mask[symmetric] Let_def\<close>)
next
  case RoBaRaCoCh
  have sum': "b3 + b2 + b1 + b4 + b0 \<le> 63" using sum by simp
  obtain w where w: "shift_in (int b3) row 0 \<bind> shift_in (int b2) (take_bit b2 bank) \<bind> shift_in (int b1) (drop_bit b2 bank) \<bind>
      shift_in (int b4) col \<bind> shift_in (int b0) vault = Some w"
    "take_bit b0 (sint w) = take_bit b0 vault" "take_bit b4 (drop_bit b0 (sint w)) = take_bit b4 col"
    "take_bit b1 (drop_bit (b0 + b4) (sint w)) = take_bit b1 (drop_bit b2 bank)" "take_bit b2 (drop_bit (b0 + b4 + b1) (sint w)) = take_bit b2 (take_bit b2 bank)"
    "take_bit b3 (drop_bit (b0 + b4 + b1 + b2) (sint w)) = take_bit b3 row"
    by (rule pack5[OF b(4,3,2,5,1) sum'])
  show thesis
    by (rule that[of w])
      (use w b RoBaRaCoCh address_vector_eq(1)[OF b] in \<open>auto simp: row_address_def int_mask_eq ifetch_def coords_def take_bit_eq_mask[symmetric] Let_def\<close>)
qed

end
