(* ===== verification/Ram_Model.thy ===== *)
theory Ram_Model
  imports Ram_Ctrl Ram_Addr
begin

section \<open>The invariant of the DRAM model\<close>

text \<open>
  A memory whose address fields have the widths of its channels, ranks and banks, one well-formed
  controller per channel, and a DRAM model whose queue of recorded requests holds only writes (reads
  are not recorded). Every operation of the model keeps the invariant; the loop of \<^verbatim>\<open>updateLatency\<close> ends
  because it stops when the write queue of the channel is full.
\<close>

subsection \<open>The memory\<close>

definition mem_ok :: "nat \<Rightarrow> nat \<Rightarrow> nat \<Rightarrow> ram_memory \<Rightarrow> bool" where
  "mem_ok C R K m \<longleftrightarrow>
     (\<exists>b0 b1 b3 b4. mm_addr_bits m = [int b0, int b1, 1, int b3, int b4] \<and> C = 2 ^ b0 \<and> R = 2 ^ b1 \<and>
        b0 < 31 \<and> b1 < 31 \<and> b3 < 31 \<and> b4 < 31 \<and> b0 + b1 + 1 + b3 + b4 \<le> 63) \<and>
     length (mm_ctrls m) = C \<and>
     (\<forall>k<C. ctrl_ok (int k) R K (mm_ctrls m ! k) \<and> rc_spec (mm_ctrls m ! k) = mm_spec m) \<and>
     0 \<le> hs_nREFI (hb_speed (mm_spec m)) \<and> 0 < K \<and>
     length (mm_num_read_requests m) = K \<and> length (mm_num_write_requests m) = K \<and>
     length (mm_incoming_requests_per_channel m) = C \<and> length (mm_incoming_read_reqs_per_channel m) = C"

lemma mem_okD:
  assumes "mem_ok C R K m"
  shows "length (mm_ctrls m) = C" "0 \<le> hs_nREFI (hb_speed (mm_spec m))" "0 < K"
    and "\<And>k. k < C \<Longrightarrow> ctrl_ok (int k) R K (mm_ctrls m ! k)" "\<And>k. k < C \<Longrightarrow> rc_spec (mm_ctrls m ! k) = mm_spec m"
  using assms by (auto simp: mem_ok_def)

lemma take_bit_range: "0 \<le> take_bit b (x :: int)" "take_bit b (x :: int) < 2 ^ b"
  by (simp_all add: take_bit_int_less_exp)

lemma mem_vector:
  assumes "mem_ok C R K m"
  obtains vec where "address_vector (mm_type m) (mm_addr_bits m) a = Some vec" "length vec = 5"
    "0 \<le> vec ! 0" "vec ! 0 < int C" "0 \<le> vec ! 1" "vec ! 1 < int R" "0 \<le> vec ! 2" "vec ! 2 < 2"
proof -
  obtain b0 b1 b3 b4 where b: "mm_addr_bits m = [int b0, int b1, int 1, int b3, int b4]" "C = 2 ^ b0" "R = 2 ^ b1"
      "b0 < 31" "b1 < 31" "1 < (31 :: nat)" "b3 < 31" "b4 < 31"
    using assms by (auto simp: mem_ok_def)
  show thesis
  proof (cases "mm_type m")
    case ChRaBaRoCo
    show ?thesis
      by (rule that[OF address_vector_eq(2)[OF b(4-8), folded b(1) ChRaBaRoCo]])
        (use take_bit_range[of b0] take_bit_range[of b1] take_bit_range[of 1] b(2,3) in \<open>simp_all add: numeral_eq_Suc\<close>)
  next
    case RoBaRaCoCh
    show ?thesis
      by (rule that[OF address_vector_eq(1)[OF b(4-8), folded b(1) RoBaRaCoCh]])
        (use take_bit_range[of b0] take_bit_range[of b1] take_bit_range[of 1] b(2,3) in \<open>simp_all add: numeral_eq_Suc\<close>)
  qed
qed

lemma enqueue_write:
  assumes "rq_type req = WRITE"
  shows "length (rc_writeq (snd (enqueue req c))) = length (rc_writeq c) + (if fst (enqueue req c) then 1 else 0)"
    and "rc_spec (snd (enqueue req c)) = rc_spec c"
  using assms by (auto simp: enqueue_def Let_def)

lemma enqueue_spec: "rc_spec (snd (enqueue req c)) = rc_spec c" "rc_clk (snd (enqueue req c)) = rc_clk c"
  by (cases "get_queue (rq_type req)"; simp add: enqueue_def Let_def)+

text \<open>The parts of a memory that \<^verbatim>\<open>send\<close> and \<^verbatim>\<open>tick\<close> leave alone.\<close>

definition mem_frame :: "ram_memory \<Rightarrow> ram_memory \<Rightarrow> bool" where
  "mem_frame m m' \<longleftrightarrow> mm_type m' = mm_type m \<and> mm_addr_bits m' = mm_addr_bits m \<and> mm_spec m' = mm_spec m"

lemma mem_frame_trans: "mem_frame m m' \<Longrightarrow> mem_frame m' m'' \<Longrightarrow> mem_frame m m''"
  by (simp add: mem_frame_def)

lemma bump_runs: "0 \<le> i \<Longrightarrow> i < int (length xs) \<Longrightarrow> \<exists>ys. bump xs i = Some ys \<and> length ys = length xs"
  by (auto simp: bump_def ifetch_def istore_def nat_less_iff)

lemma send_runs:
  assumes ok: "mem_ok C R K m" and ty: "rq_type req = READ \<or> rq_type req = WRITE" and f: "rq_is_first_command req"
    and core: "0 \<le> rq_coreid req" "rq_coreid req < int K"
    and vec: "address_vector (mm_type m) (mm_addr_bits m) (rq_addr req) = Some vec" and ch: "ch = nat (vec ! 0)"
  shows "runs (send req m) (\<lambda>(res, m'). mem_ok C R K m' \<and> mem_frame m m' \<and> ch < C \<and>
     (res \<longleftrightarrow> length (the_queue (get_queue (rq_type req)) (mm_ctrls m ! ch)) < queue_max) \<and>
     mm_ctrls m' = (mm_ctrls m)[ch := snd (enqueue (req\<lparr>rq_addr_vec := vec\<rparr>) (mm_ctrls m ! ch))])"
proof -
  have V: "length vec = 5" "0 \<le> vec ! 0" "vec ! 0 < int C" "0 \<le> vec ! 1" "vec ! 1 < int R" "0 \<le> vec ! 2" "vec ! 2 < 2"
    by (rule mem_vector[OF ok, of "rq_addr req"]; use vec in simp)+
  let ?req = "req\<lparr>rq_addr_vec := vec\<rparr>" and ?c = "mm_ctrls m ! ch"
  have C: "ch < C" "int ch = vec ! 0" "length (mm_ctrls m) = C" using V ch ok by (auto simp: mem_ok_def)
  have cok: "ctrl_ok (int ch) R K ?c" "rc_spec ?c = mm_spec m" using ok C by (auto simp: mem_ok_def)
  have fresh: "fresh_req (int ch) R K ?req"
    using ty f core V C by (simp add: fresh_req_def rank_ix_def bank_ix_def on_path_def nat_less_iff)
  obtain res c' where e: "enqueue ?req ?c = (res, c')" by fastforce
  have c': "ctrl_ok (int ch) R K c'" "rc_spec c' = mm_spec m" "res \<longleftrightarrow> length (the_queue (get_queue (rq_type req)) ?c) < queue_max"
    using enqueue_inv[OF cok(1)[unfolded ctrl_ok_def] fresh] enqueue_spec[of ?req ?c] e cok(2) by (simp_all add: ctrl_ok_def)
  let ?cs = "(mm_ctrls m)[ch := c']"
  have cs: "\<forall>k<C. ctrl_ok (int k) R K (?cs ! k) \<and> rc_spec (?cs ! k) = mm_spec m"
    using ok c' C by (auto simp: mem_ok_def nth_list_update)
  have len: "length (mm_num_read_requests m) = K" "length (mm_num_write_requests m) = K"
     "length (mm_incoming_requests_per_channel m) = C" "length (mm_incoming_read_reqs_per_channel m) = C"
    using ok by (auto simp: mem_ok_def)
  obtain r1 where r1: "bump (mm_num_read_requests m) (rq_coreid req) = Some r1" "length r1 = K" using bump_runs core len by metis
  obtain r2 where r2: "bump (mm_num_write_requests m) (rq_coreid req) = Some r2" "length r2 = K" using bump_runs core len by metis
  obtain r3 where r3: "bump (mm_incoming_requests_per_channel m) (vec ! 0) = Some r3" "length r3 = C" using bump_runs V len by metis
  obtain r4 where r4: "bump (mm_incoming_read_reqs_per_channel m) (vec ! 0) = Some r4" "length r4 = C" using bump_runs V len by metis
  have fetch: "ifetch vec 0 = Some (vec ! 0)" "ifetch (mm_ctrls m) (vec ! 0) = Some ?c" "istore (mm_ctrls m) (vec ! 0) c' = Some ?cs"
    using V(1) C(1,3) ifetch_int[of ch "mm_ctrls m"] istore_int[of ch "mm_ctrls m" c'] unfolding C(2) by (simp_all add: ifetch_def[of vec])
  show ?thesis
    using ok ty vec fetch e cs c'(3) C r1 r2 r3 r4
    by (auto simp: send_def Let_def bump_mem_def mem_ok_def mem_frame_def)
qed

text \<open>One clock of all controllers.\<close>

lemma tick_ctrls_runs:
  assumes "\<forall>k<length cs. ctrl_ok (int k) R K (cs ! k) \<and> rc_spec (cs ! k) = spec"
  shows "runs (tick_ctrls cs) (\<lambda>(act, dn, cs'). length cs' = length cs \<and>
     (\<forall>k<length cs. ctrl_ok (int k) R K (cs' ! k) \<and> rc_spec (cs' ! k) = spec \<and> rc_clk (cs' ! k) = rc_clk (cs ! k) + 1))"
proof -
  let ?f = "\<lambda>c (act, dn, cs). do { (completed, c') \<leftarrow> ctrl_tick c;
       Some (act \<or> is_active c, dn @ (case completed of None \<Rightarrow> [] | Some r \<Rightarrow> [r]), cs @ [c']) }"
  let ?I = "\<lambda>n (act, dn, cs'). length cs' = n \<and>
     (\<forall>k<n. ctrl_ok (int k) R K (cs' ! k) \<and> rc_spec (cs' ! k) = spec \<and> rc_clk (cs' ! k) = rc_clk (cs ! k) + 1)"
  have "runs (foldM (?f \<circ> (\<lambda>k. cs ! k)) [0..<length cs] (False, [], [])) (?I (length cs))"
  proof (rule foldM_upt_runs)
    fix k and st :: "bool \<times> ram_request list \<times> ram_ctrl list"
    assume k: "k < length cs" and I: "?I k st"
    obtain act dn cs' where st: "st = (act, dn, cs')" by (metis prod_cases3)
    have "runs (ctrl_tick (cs ! k)) (\<lambda>(completed, c'). ctrl_ok (int k) R K c' \<and> rc_clk c' = rc_clk (cs ! k) + 1 \<and> rc_spec c' = rc_spec (cs ! k))"
      using assms k by (intro ctrl_tick_runs) auto
    then obtain cb c' where "ctrl_tick (cs ! k) = Some (cb, c')" "ctrl_ok (int k) R K c'" "rc_clk c' = rc_clk (cs ! k) + 1" "rc_spec c' = spec"
      using assms k by (auto simp: runs_iff)
    then show "runs ((?f \<circ> (\<lambda>k. cs ! k)) k st) (?I (Suc k))"
      using I by (auto simp: st nth_append less_Suc_eq)
  qed simp
  then show ?thesis
    unfolding tick_ctrls_def by (simp add: foldM_map[symmetric] map_nth)
qed

lemma mem_tick_runs:
  assumes ok: "mem_ok C R K m"
  shows "runs (mem_tick m) (\<lambda>(dn, m'). mem_ok C R K m' \<and> mem_frame m m' \<and> mm_num_dram_cycles m' = mm_num_dram_cycles m + 1)"
proof -
  have len: "length (mm_ctrls m) = C" using ok by (simp add: mem_ok_def)
  have "runs (tick_ctrls (mm_ctrls m)) (\<lambda>(act, dn, cs'). length cs' = length (mm_ctrls m) \<and>
     (\<forall>k<length (mm_ctrls m). ctrl_ok (int k) R K (cs' ! k) \<and> rc_spec (cs' ! k) = mm_spec m \<and> rc_clk (cs' ! k) = rc_clk (mm_ctrls m ! k) + 1))"
    using ok by (intro tick_ctrls_runs) (simp add: mem_ok_def)
  then obtain act dn cs' where "tick_ctrls (mm_ctrls m) = Some (act, dn, cs')" "length cs' = C"
      "\<forall>k<C. ctrl_ok (int k) R K (cs' ! k) \<and> rc_spec (cs' ! k) = mm_spec m"
    using len by (auto simp: runs_iff)
  then show ?thesis
    using ok by (simp add: mem_tick_def Let_def mem_ok_def mem_frame_def)
qed

subsection \<open>The DRAM model\<close>

definition dm_ok :: "nat \<Rightarrow> nat \<Rightarrow> nat \<Rightarrow> dram_model \<Rightarrow> bool" where
  "dm_ok C R K d \<longleftrightarrow> mem_ok C R K (dm_memory d) \<and> (\<forall>q\<in>set (dm_req_queue d). dq_type q = 1) \<and>
     dm_recent_read_latency d = hb_read_latency (mm_spec (dm_memory d)) \<and>
     hb_read_latency (mm_spec (dm_memory d)) \<le> dm_recent_write_latency d \<and>
     dm_recent_write_latency d \<le> hb_read_latency (mm_spec (dm_memory d)) + int queue_max + 1"

text \<open>What requests to the memory leave alone.\<close>

definition dm_frame :: "dram_model \<Rightarrow> dram_model \<Rightarrow> bool" where
  "dm_frame d d' \<longleftrightarrow> mem_frame (dm_memory d) (dm_memory d') \<and> dm_tCK d' = dm_tCK d"

text \<open>A write to a row: its channel, and whether the write queue of that channel has room.\<close>

definition free_slots :: "dram_model \<Rightarrow> nat \<Rightarrow> nat" where
  "free_slots d ch = queue_max - length (rc_writeq (mm_ctrls (dm_memory d) ! ch))"

lemma the_channel:
  assumes "mem_ok C R K m"
  obtains w vec where "row_address (mm_type m) (mm_addr_bits m) v b r co = Some w"
    "address_vector (mm_type m) (mm_addr_bits m) (sint w) = Some vec"
proof -
  obtain b0 b1 b3 b4 where b: "mm_addr_bits m = [int b0, int b1, int 1, int b3, int b4]"
      "b0 < 31" "b1 < 31" "1 < (31 :: nat)" "b3 < 31" "b4 < 31" "b0 + b1 + 1 + b3 + b4 \<le> 63"
    using assms by (auto simp: mem_ok_def)
  show thesis
    by (rule row_address_vector[OF b(2-7), of "mm_type m" v b r co, folded b(1)]) (rule that)
qed

lemma writeRow_runs:
  assumes ok: "mem_ok C R K (dm_memory d)" and w: "row_address (mm_type (dm_memory d)) (mm_addr_bits (dm_memory d)) v b r co = Some w"
    and vec: "address_vector (mm_type (dm_memory d)) (mm_addr_bits (dm_memory d)) (sint w) = Some vec" and ch: "ch = nat (vec ! 0)"
  obtains d' where "writeRow v b r co d = Some (free_slots d ch \<noteq> 0, d')" "mem_ok C R K (dm_memory d')"
    "mem_frame (dm_memory d) (dm_memory d')" "free_slots d' ch = free_slots d ch - 1" "d' = d\<lparr>dm_memory := dm_memory d'\<rparr>"
proof -
  let ?m = "dm_memory d" and ?req = "RamRequest (sint w) WRITE 0"
  have K: "0 < int K" using ok by (simp add: mem_ok_def)
  have "runs (send ?req ?m) (\<lambda>(res, m'). mem_ok C R K m' \<and> mem_frame ?m m' \<and> ch < C \<and>
     (res \<longleftrightarrow> length (the_queue (get_queue (rq_type ?req)) (mm_ctrls ?m ! ch)) < queue_max) \<and>
     mm_ctrls m' = (mm_ctrls ?m)[ch := snd (enqueue (?req\<lparr>rq_addr_vec := vec\<rparr>) (mm_ctrls ?m ! ch))])"
    by (rule send_runs[OF ok]) (use vec ch K in \<open>simp_all add: RamRequest_def\<close>)
  then obtain res m' where m': "send ?req ?m = Some (res, m')" "mem_ok C R K m'" "mem_frame ?m m'" "ch < C"
     "res \<longleftrightarrow> length (rc_writeq (mm_ctrls ?m ! ch)) < queue_max"
     "mm_ctrls m' = (mm_ctrls ?m)[ch := snd (enqueue (?req\<lparr>rq_addr_vec := vec\<rparr>) (mm_ctrls ?m ! ch))]"
    by (auto simp: runs_iff RamRequest_def)
  have len: "length (mm_ctrls ?m) = C" using ok by (simp add: mem_ok_def)
  have "fst (enqueue (?req\<lparr>rq_addr_vec := vec\<rparr>) (mm_ctrls ?m ! ch)) \<longleftrightarrow> length (rc_writeq (mm_ctrls ?m ! ch)) \<noteq> queue_max"
    by (simp add: enqueue_def Let_def RamRequest_def)
  moreover have "length (rc_writeq (mm_ctrls ?m ! ch)) \<le> queue_max"
    using ok m'(4) by (auto simp: mem_ok_def ctrl_ok_def ctrl_inv_def queues_ok_def)
  ultimately have "length (rc_writeq (mm_ctrls m' ! ch)) = length (rc_writeq (mm_ctrls ?m ! ch)) + (if res then 1 else 0)"
    using enqueue_write(1)[of "?req\<lparr>rq_addr_vec := vec\<rparr>" "mm_ctrls ?m ! ch"] m'(4,5,6) len by (auto simp: RamRequest_def)
  then have fs: "free_slots (d\<lparr>dm_memory := m'\<rparr>) ch = free_slots d ch - 1" "res \<longleftrightarrow> free_slots d ch \<noteq> 0"
    using m'(5) by (auto simp: free_slots_def)
  show thesis
    by (rule that[of "d\<lparr>dm_memory := m'\<rparr>"]) (use w m' fs in \<open>simp_all add: writeRow_def send_row_def\<close>)
qed

text \<open>The loop of \<^verbatim>\<open>updateLatency\<close> for a write: it tries once more than there are free slots.\<close>

lemma stall_loop_write:
  assumes "mem_ok C R K (dm_memory d)" "row_address (mm_type (dm_memory d)) (mm_addr_bits (dm_memory d)) v b r co = Some w"
    "address_vector (mm_type (dm_memory d)) (mm_addr_bits (dm_memory d)) (sint w) = Some vec" "ch = nat (vec ! 0)"
  shows "\<exists>d'. stall_loop (writeRow v b r co) n d = Some (n + int (free_slots d ch) + 1, d') \<and>
     mem_ok C R K (dm_memory d') \<and> mem_frame (dm_memory d) (dm_memory d') \<and> d' = d\<lparr>dm_memory := dm_memory d'\<rparr> \<and>
     free_slots d' ch = 0"
  using assms
proof (induction "free_slots d ch" arbitrary: d n)
  case 0
  obtain d' where d': "writeRow v b r co d = Some (free_slots d ch \<noteq> 0, d')" "mem_ok C R K (dm_memory d')"
    "mem_frame (dm_memory d) (dm_memory d')" "d' = d\<lparr>dm_memory := dm_memory d'\<rparr>" "free_slots d' ch = free_slots d ch - 1"
    by (rule writeRow_runs[OF "0.prems"])
  have "stall_loop (writeRow v b r co) n d = Some (n + 1, d')"
    using "0.hyps" d'(1) by (subst stall_loop.simps) simp
  then show ?case using d'(2-5) "0.hyps" by (intro exI[of _ d']) simp
next
  case (Suc x)
  obtain d1 where d1: "writeRow v b r co d = Some (free_slots d ch \<noteq> 0, d1)" "mem_ok C R K (dm_memory d1)"
    "mem_frame (dm_memory d) (dm_memory d1)" "free_slots d1 ch = free_slots d ch - 1" "d1 = d\<lparr>dm_memory := dm_memory d1\<rparr>"
    by (rule writeRow_runs[OF Suc.prems])
  have fr: "mm_type (dm_memory d1) = mm_type (dm_memory d)" "mm_addr_bits (dm_memory d1) = mm_addr_bits (dm_memory d)"
    using d1(3) by (auto simp: mem_frame_def)
  have "x = free_slots d1 ch" using d1(4) Suc.hyps(2) by simp
  from Suc.hyps(1)[OF this d1(2) _ _ Suc.prems(4), unfolded fr, OF Suc.prems(2,3), of "n + 1"] obtain d' where
    d': "stall_loop (writeRow v b r co) (n + 1) d1 = Some (n + 1 + int (free_slots d1 ch) + 1, d')"
      "mem_ok C R K (dm_memory d')" "mem_frame (dm_memory d1) (dm_memory d')" "d' = d1\<lparr>dm_memory := dm_memory d'\<rparr>"
      "free_slots d' ch = 0" by blast
  have "stall_loop (writeRow v b r co) n d = stall_loop (writeRow v b r co) (n + 1) d1"
    using Suc.hyps(2) d1(1) by (subst stall_loop.simps) (simp del: One_nat_def)
  moreover have "int (free_slots d ch) = int (free_slots d1 ch) + 1" using d1(4) Suc.hyps(2) by simp
  ultimately show ?case
    using d'(1,2) mem_frame_trans[OF d1(3) d'(3)] d'(4,5) d1(5)
    by (intro exI[of _ d']) (auto, metis (no_types, lifting) dram_model.surjective dram_model.update_convs(1))
qed

lemma free_slots_le: "free_slots d ch \<le> queue_max"
  by (simp add: free_slots_def)

lemma replay_write_runs:
  assumes ok: "mem_ok C R K (dm_memory d)" and q: "dq_type q = 1"
    and k: "lc_n_reads k = 0" "lc_read_clks k = 0" "0 \<le> lc_n_writes k" "lc_n_writes k \<le> lc_write_clks k"
      "lc_write_clks k \<le> (int queue_max + 1) * lc_n_writes k"
  shows "runs (replay_request q (k, d)) (\<lambda>(k', d'). mem_ok C R K (dm_memory d') \<and> mem_frame (dm_memory d) (dm_memory d') \<and>
     d' = d\<lparr>dm_memory := dm_memory d'\<rparr> \<and> lc_n_reads k' = 0 \<and> lc_read_clks k' = 0 \<and> lc_n_writes k' = lc_n_writes k + 1 \<and>
     lc_n_writes k' \<le> lc_write_clks k' \<and> lc_write_clks k' \<le> (int queue_max + 1) * lc_n_writes k')"
proof -
  obtain w vec where w: "row_address (mm_type (dm_memory d)) (mm_addr_bits (dm_memory d)) (dq_vault q) (dq_bank q) (dq_row q) (dq_col q) = Some w"
      "address_vector (mm_type (dm_memory d)) (mm_addr_bits (dm_memory d)) (sint w) = Some vec"
    by (rule the_channel[OF ok])
  obtain d' where d': "stall_loop (writeRow (dq_vault q) (dq_bank q) (dq_row q) (dq_col q)) (lc_write_clks k) d =
      Some (lc_write_clks k + int (free_slots d (nat (vec ! 0))) + 1, d')"
     "mem_ok C R K (dm_memory d')" "mem_frame (dm_memory d) (dm_memory d')" "d' = d\<lparr>dm_memory := dm_memory d'\<rparr>"
    using stall_loop_write[OF ok w refl] by blast
  have "int (free_slots d (nat (vec ! 0))) \<le> int queue_max" using free_slots_le by simp
  then show ?thesis
    using d' q k by (auto simp: replay_request_def Let_def algebra_simps)
qed

lemma replay_all_runs:
  assumes ok: "mem_ok C R K (dm_memory d)" and q: "\<forall>q\<in>set qs. dq_type q = 1"
  shows "runs (foldM replay_request qs (\<lparr>lc_read_clks = 0, lc_write_clks = 0, lc_n_reads = 0, lc_n_writes = 0\<rparr>, d))
     (\<lambda>(k, d'). mem_ok C R K (dm_memory d') \<and> mem_frame (dm_memory d) (dm_memory d') \<and> d' = d\<lparr>dm_memory := dm_memory d'\<rparr> \<and>
        lc_n_reads k = 0 \<and> lc_read_clks k = 0 \<and> 0 \<le> lc_n_writes k \<and> lc_n_writes k \<le> lc_write_clks k \<and>
        lc_write_clks k \<le> (int queue_max + 1) * lc_n_writes k)"
proof (rule foldM_runs)
  fix q' and st :: "latency_counts \<times> dram_model"
  assume q': "q' \<in> set qs" and I: "case st of (k, d') \<Rightarrow> mem_ok C R K (dm_memory d') \<and> mem_frame (dm_memory d) (dm_memory d') \<and>
        d' = d\<lparr>dm_memory := dm_memory d'\<rparr> \<and>
        lc_n_reads k = 0 \<and> lc_read_clks k = 0 \<and> 0 \<le> lc_n_writes k \<and> lc_n_writes k \<le> lc_write_clks k \<and>
        lc_write_clks k \<le> (int queue_max + 1) * lc_n_writes k"
  obtain k d1 where st: "st = (k, d1)" by (cases st)
  have d1: "d1 = d\<lparr>dm_memory := dm_memory d1\<rparr>" and fr: "mem_frame (dm_memory d) (dm_memory d1)" using I st by auto
  have "runs (replay_request q' (k, d1)) (\<lambda>(k', d'). mem_ok C R K (dm_memory d') \<and> mem_frame (dm_memory d1) (dm_memory d') \<and>
     d' = d1\<lparr>dm_memory := dm_memory d'\<rparr> \<and> lc_n_reads k' = 0 \<and> lc_read_clks k' = 0 \<and> lc_n_writes k' = lc_n_writes k + 1 \<and>
     lc_n_writes k' \<le> lc_write_clks k' \<and> lc_write_clks k' \<le> (int queue_max + 1) * lc_n_writes k')"
    using I st q q' by (intro replay_write_runs) auto
  moreover have "d' = d\<lparr>dm_memory := dm_memory d'\<rparr>" if "d' = d1\<lparr>dm_memory := dm_memory d'\<rparr>" for d'
  proof -
    have "d1\<lparr>dm_memory := m\<rparr> = d\<lparr>dm_memory := m\<rparr>" for m
      using arg_cong[OF d1, of "\<lambda>x. x\<lparr>dm_memory := m\<rparr>"] by simp
    then show ?thesis using that by simp
  qed
  ultimately show "runs (replay_request q' st) (\<lambda>(k, d'). mem_ok C R K (dm_memory d') \<and> mem_frame (dm_memory d) (dm_memory d') \<and>
        d' = d\<lparr>dm_memory := dm_memory d'\<rparr> \<and>
        lc_n_reads k = 0 \<and> lc_read_clks k = 0 \<and> 0 \<le> lc_n_writes k \<and> lc_n_writes k \<le> lc_write_clks k \<and>
        lc_write_clks k \<le> (int queue_max + 1) * lc_n_writes k)"
    unfolding st using I[unfolded st] mem_frame_trans[OF fr] by (elim runs_mono) auto
qed (simp add: ok mem_frame_def)

lemma c_div_pos: "0 < b \<Longrightarrow> 0 \<le> a \<Longrightarrow> c_div a b = a div b"
  by (cases "a = 0") (simp_all add: c_div_def)

lemma average_bounds:
  assumes "0 < n" "n \<le> clks" "clks \<le> m * (n :: int)"
  shows "1 \<le> c_div clks n" "c_div clks n \<le> m"
proof -
  have eq: "c_div clks n = clks div n" using assms by (simp add: c_div_pos)
  show "1 \<le> c_div clks n" using assms zdiv_mono1[OF assms(2,1)] by (simp add: eq)
  show "c_div clks n \<le> m" using assms zdiv_mono1[OF assms(3,1)] by (simp add: eq)
qed

lemma updateLatency_runs:
  assumes ok: "dm_ok C R K d"
  shows "runs (updateLatency pkt_time d) (\<lambda>d'. dm_ok C R K d' \<and> dm_frame d d')"
proof (cases "pkt_time - dm_last_req_time d < 200")
  case True
  then show ?thesis using ok by (simp add: updateLatency_def dm_frame_def mem_frame_def)
next
  case False
  let ?d = "d\<lparr>dm_n_updates := dm_n_updates d + 1,
      dm_avg_update_time := dm_avg_update_time d + real (unat (pkt_time - dm_last_req_time d)),
      dm_avg_req_num := dm_avg_req_num d + real (length (dm_req_queue d)), dm_last_req_time := pkt_time\<rparr>"
  have mok: "mem_ok C R K (dm_memory ?d)" and qs: "\<forall>q\<in>set (dm_req_queue d). dq_type q = 1" using ok by (simp_all add: dm_ok_def)
  from replay_all_runs[OF mok qs] obtain k d' where
    r: "foldM replay_request (dm_req_queue d) (\<lparr>lc_read_clks = 0, lc_write_clks = 0, lc_n_reads = 0, lc_n_writes = 0\<rparr>, ?d) = Some (k, d')"
      "mem_ok C R K (dm_memory d')" "mem_frame (dm_memory d) (dm_memory d')" "d' = ?d\<lparr>dm_memory := dm_memory d'\<rparr>"
      "lc_n_reads k = 0" "0 \<le> lc_n_writes k" "lc_n_writes k \<le> lc_write_clks k" "lc_write_clks k \<le> (int queue_max + 1) * lc_n_writes k"
    by (auto simp: runs_iff)
  have tck: "dm_tCK d' = dm_tCK d" using arg_cong[OF r(4), of dm_tCK] by simp
  have w: "0 \<le> (if lc_n_writes k = 0 then 0 else c_div (lc_write_clks k) (lc_n_writes k))"
    "(if lc_n_writes k = 0 then 0 else c_div (lc_write_clks k) (lc_n_writes k)) \<le> int queue_max + 1"
    using average_bounds[of "lc_n_writes k" "lc_write_clks k" "int queue_max + 1"] r(6-8) by auto
  show ?thesis
    using False r(1,2,3,5) tck w by (simp add: updateLatency_def Let_def dm_ok_def dm_frame_def)
qed

lemma getReadLatency_runs:
  assumes ok: "dm_ok C R K d"
  shows "runs (getReadLatency v b r co t d) (\<lambda>(l, d'). dm_ok C R K d' \<and> dm_frame d d' \<and> l = hb_read_latency (mm_spec (dm_memory d)))"
proof -
  have "dm_frame d d" by (simp add: dm_frame_def mem_frame_def)
  then show ?thesis
    using updateLatency_runs[OF ok, of t] ok
    by (auto simp: getReadLatency_def runs_simps elim!: runs_mono) (auto simp: dm_ok_def dm_frame_def mem_frame_def)
qed

lemma getWriteLatency_runs:
  assumes ok: "dm_ok C R K d"
  shows "runs (getWriteLatency v b r co t d) (\<lambda>(l, d'). dm_ok C R K d' \<and> dm_frame d d' \<and>
     hb_read_latency (mm_spec (dm_memory d)) \<le> l \<and> l \<le> hb_read_latency (mm_spec (dm_memory d)) + int queue_max + 1)"
proof -
  let ?d = "d\<lparr>dm_req_queue := dm_req_queue d @ [\<lparr>dq_type = 1, dq_vault = v, dq_bank = b, dq_row = r, dq_col = co\<rparr>]\<rparr>"
  have ok': "dm_ok C R K ?d" using ok by (auto simp: dm_ok_def)
  have fr: "dm_frame ?d d' = dm_frame d d'" for d' by (simp add: dm_frame_def)
  have "dm_frame d ?d" by (simp add: dm_frame_def mem_frame_def)
  then show ?thesis
    using updateLatency_runs[OF ok', of t] ok'
    by (auto simp: getWriteLatency_def runs_simps fr elim!: runs_mono) (auto simp: dm_ok_def dm_frame_def mem_frame_def)
qed

lemma read_complete_sel:
  "dm_memory (fold read_complete rs d) = dm_memory d" "dm_req_queue (fold read_complete rs d) = dm_req_queue d"
  "dm_recent_read_latency (fold read_complete rs d) = dm_recent_read_latency d"
  "dm_recent_write_latency (fold read_complete rs d) = dm_recent_write_latency d" "dm_tCK (fold read_complete rs d) = dm_tCK d"
  by (induction rs arbitrary: d) (auto simp: read_complete_def Let_def)

lemma tickOnce_runs:
  assumes ok: "dm_ok C R K d"
  shows "runs (tickOnce d) (\<lambda>d'. dm_ok C R K d' \<and> dm_frame d d')"
proof -
  have "mem_ok C R K (dm_memory d)" using ok by (simp add: dm_ok_def)
  from mem_tick_runs[OF this] obtain cb m' where "mem_tick (dm_memory d) = Some (cb, m')" "mem_ok C R K m'" "mem_frame (dm_memory d) m'"
    by (auto simp: runs_iff)
  then show ?thesis
    using ok by (simp add: tickOnce_def Let_def read_complete_sel dm_ok_def dm_frame_def mem_frame_def)
qed

lemma dm_setBankRef_runs:
  assumes ok: "dm_ok C R K d" and v: "0 \<le> v" "v < int C" and b: "0 \<le> b" "b < 2 * int R"
  shows "runs (dm_setBankRef v b hot d) (\<lambda>d'. dm_ok C R K d' \<and> dm_frame d d')"
proof -
  let ?m = "dm_memory d" and ?c = "mm_ctrls (dm_memory d) ! nat v"
  have m: "length (mm_ctrls ?m) = C" "nat v < C" "ctrl_ok v R K ?c" "rc_spec ?c = mm_spec ?m" "0 \<le> hs_nREFI (hb_speed (mm_spec ?m))"
    using mem_okD[of C R K ?m] mem_okD(4,5)[of C R K ?m "nat v"] ok v by (auto simp: dm_ok_def nat_less_iff)
  obtain c' where c': "setBankRef b hot ?c = Some c'" "ctrl_ok v R K c'" "rc_spec c' = mm_spec ?m"
    using set_ref_interval_runs[OF m(3) b] m(4,5) by (auto simp: runs_iff)
  have "\<forall>k<C. ctrl_ok (int k) R K ((mm_ctrls ?m)[nat v := c'] ! k) \<and> rc_spec ((mm_ctrls ?m)[nat v := c'] ! k) = mm_spec ?m"
    using ok c'(2,3) v m by (auto simp: dm_ok_def mem_ok_def nth_list_update)
  then show ?thesis
    using ok m(1,2) v(1) c'(1) by (auto simp: dm_setBankRef_def runs_simps dm_ok_def mem_ok_def dm_frame_def mem_frame_def)
qed

subsection \<open>Construction\<close>

text \<open>The refresh time and the row and column widths of an organisation.\<close>

fun refresh_time :: "ram_org \<Rightarrow> int" where
  "refresh_time HBM_1Gb = 55"
| "refresh_time HBM_2Gb = 80"
| "refresh_time HBM_4Gb = 130"

text \<open>
  A geometry the refresh generator can keep up with: the refreshes of all banks of a channel fit into
  half a refresh interval one after the other, and into the queue.
\<close>

definition geometry_ok :: "ram_org \<Rightarrow> nat \<Rightarrow> nat \<Rightarrow> bool" where
  "geometry_ok org b0 b1 \<longleftrightarrow> b0 < 31 \<and> 2 * 2 ^ b1 \<le> queue_max \<and> 2 * 2 ^ b1 * refresh_time org < 1950"

lemma is_pow2: "is_pow2_or_0 (2 ^ b)"
proof -
  have "(2 ^ b AND mask b :: int) = 0" by (rule bit_eqI) (auto simp: bit_simps)
  then show ?thesis by (simp add: is_pow2_or_0_def mask_eq_exp_minus_1)
qed

lemma calc_log2_table:
  "calc_log2 2 = Some 1" "calc_log2 4 = Some 2" "calc_log2 64 = Some 6" "calc_log2 128 = Some 7"
  "calc_log2 2048 = Some 11" "calc_log2 8192 = Some 13" "calc_log2 16384 = Some 14"
  using calc_log2_pow2[of 1] calc_log2_pow2[of 2] calc_log2_pow2[of 6] calc_log2_pow2[of 7] calc_log2_pow2[of 11]
    calc_log2_pow2[of 13] calc_log2_pow2[of 14] by simp_all

definition hbm_of :: "ram_org \<Rightarrow> int \<Rightarrow> int \<Rightarrow> hbm" where
  "hbm_of org C R = \<lparr>hb_org = (org_table org)\<lparr>oe_count := [C, R] @ drop 2 (oe_count (org_table org))\<rparr>,
     hb_speed = hbm_speed_table\<lparr>hs_nRFC := refresh_time org, hs_nREFI1B := (case org of HBM_1Gb \<Rightarrow> 64 | HBM_2Gb \<Rightarrow> 128 | HBM_4Gb \<Rightarrow> 256),
       hs_nXS := (case org of HBM_1Gb \<Rightarrow> 60 | HBM_2Gb \<Rightarrow> 85 | HBM_4Gb \<Rightarrow> 135)\<rparr>,
     hb_read_latency = 9, hb_prefetch_size = 4, hb_channel_width = 128\<rparr>"

lemma HBM_eq: "HBM org speed \<bind> set_channel_number C \<bind> set_rank_number R = Some (hbm_of (org_map org) C R)"
  by (cases "org_map org") (simp_all add: HBM_def init_speed_def guard_def Let_def hbm_speed_table_def drop_bit_eq_div set_channel_number_def
      set_rank_number_def set_level_count_def istore_def hbm_of_def)

lemma hbm_of_ok:
  assumes "geometry_ok org b0 b1"
  shows "spec_ok (2 ^ b1) (hbm_of org (2 ^ b0) (2 ^ b1))" "level_count (hbm_of org C R) Rank = Some R"
    "level_count (hbm_of org C R) Bank = Some 2" "level_count (hbm_of org C R) Channel = Some C"
    "hs_nREFI (hb_speed (hbm_of org C R)) = 3900" "hs_tCK (hb_speed (hbm_of org C R)) = 2"
  using assms
  by (cases org; simp add: geometry_ok_def spec_ok_def ref_gap_def hbm_of_def hbm_speed_table_def level_count_def ifetch_def queue_max_def)+

lemma RamMemory_runs:
  assumes g: "geometry_ok org b0 b1" and spec: "spec = hbm_of org (2 ^ b0) (2 ^ b1)" and core: "rcf_core_num cf = 4"
    and cs: "length ctlrs = 2 ^ b0" "\<forall>k<2 ^ b0. ctrl_ok (int k) (2 ^ b1) 4 (ctlrs ! k) \<and> rc_spec (ctlrs ! k) = spec"
  shows "runs (RamMemory cf ctlrs) (\<lambda>m. mem_ok (2 ^ b0) (2 ^ b1) 4 m \<and> mm_spec m = spec)"
proof -
  have b1: "b1 < 5"
  proof (rule ccontr)
    assume "\<not> b1 < 5"
    then have "(2 :: nat) ^ 5 \<le> 2 ^ b1" by (intro power_increasing) auto
    then show False using g by (simp add: geometry_ok_def queue_max_def)
  qed
  have b0: "b0 < 31" using g by (simp add: geometry_ok_def)
  have c0: "ifetch ctlrs 0 = Some (ctlrs ! 0)" "rc_spec (ctlrs ! 0) = spec" using cs by (auto simp: ifetch_def)
  have pw: "(2 :: int) ^ nat 6 = 64" "nat ((2 :: int) ^ b0) = 2 ^ b0" by (simp_all add: nat_power_eq)
  show ?thesis
    using cs b0 b1 core
    by (cases org) (simp_all add: RamMemory_def c0 spec hbm_of_def hbm_speed_table_def level_count_def ifetch_def runs_simps Let_def is_pow2
        calc_log2_table calc_log2_pow2 pw mem_ok_def numeral_eq_Suc)
qed

lemma parse_line_core: "parse_line l cf = Some cf' \<Longrightarrow> rcf_core_num cf' = rcf_core_num cf"
  by (auto simp: parse_line_def Let_def guard_def split: list.splits if_splits)

lemma foldM_keeps: "(\<And>x s s'. f x s = Some s' \<Longrightarrow> g s' = g s) \<Longrightarrow> foldM f xs s = Some s' \<Longrightarrow> g s' = g s"
  by (induction xs arbitrary: s) (auto split: bind_splits)

lemma RamConfig_core: "RamConfig lines = Some cf \<Longrightarrow> rcf_core_num cf = 4"
  unfolding RamConfig_def using foldM_keeps[of parse_line rcf_core_num] parse_line_core by fastforce

lemma DramModel_runs:
  assumes cf: "RamConfig lines = Some cf" "rcf_channels cf = Some (2 ^ b0)" "rcf_ranks cf = Some (2 ^ b1)"
    and g: "geometry_ok (org_map (getPara cf ''org'')) b0 b1"
  shows "runs (DramModel uninit lines) (\<lambda>d. dm_ok (2 ^ b0) (2 ^ b1) 4 d \<and> dm_tCK d = 2 \<and>
     mm_spec (dm_memory d) = hbm_of (org_map (getPara cf ''org'')) (2 ^ b0) (2 ^ b1))"
proof -
  let ?org = "org_map (getPara cf ''org'')"
  let ?spec = "hbm_of ?org (2 ^ b0) (2 ^ b1)"
  note H = hbm_of_ok[OF g]
  obtain s0 s1 where s: "HBM (getPara cf ''org'') (getPara cf ''speed'') = Some s0" "set_channel_number (2 ^ b0) s0 = Some s1"
      "set_rank_number (2 ^ b1) s1 = Some ?spec"
    using HBM_eq[of "getPara cf ''org''" "getPara cf ''speed''" "2 ^ b0" "2 ^ b1"] by (auto split: bind_splits)
  have core: "rcf_core_num cf = 4" by (rule RamConfig_core[OF cf(1)])
  have new: "runs (new_ctrl cf ?spec k) (\<lambda>c. ctrl_ok k (2 ^ b1) 4 c \<and> rc_spec c = ?spec)" for k
    using new_controller_ok[of ?spec "2 ^ b1" 4 k "record_cmd_trace cf"] H(1) H(2,3,5)[of "2 ^ b0" "2 ^ b1"] cf(3) core
    by (simp add: new_ctrl_def runs_bind)
  let ?g = "\<lambda>k. the (new_ctrl cf ?spec k)"
  have g1: "new_ctrl cf ?spec k = Some (?g k)" "ctrl_ok k (2 ^ b1) 4 (?g k)" "rc_spec (?g k) = ?spec" for k
    using new[of k] by (auto simp: runs_iff)
  have cs: "those (map (new_ctrl cf ?spec) [0..2 ^ b0 - 1]) = Some (map ?g [0..2 ^ b0 - 1])"
    using g1 by (intro those_map_Some) blast
  have len: "length (map ?g [0..2 ^ b0 - 1]) = 2 ^ b0" by (simp add: nat_power_eq)
  have all: "\<forall>k<2 ^ b0. ctrl_ok (int k) (2 ^ b1) 4 (map ?g [0..2 ^ b0 - 1] ! k) \<and> rc_spec (map ?g [0..2 ^ b0 - 1] ! k) = ?spec"
  proof (intro allI impI)
    fix k :: nat assume k: "k < 2 ^ b0"
    then have "int k < 2 ^ b0" by (metis of_nat_less_iff of_nat_numeral of_nat_power)
    then have "[0..2 ^ b0 - 1] ! k = int k" by (simp add: nth_upto)
    moreover have "map ?g [0..2 ^ b0 - 1] ! k = ?g ([0..2 ^ b0 - 1] ! k)" using k by (intro nth_map) (simp add: nat_power_eq)
    ultimately show "ctrl_ok (int k) (2 ^ b1) 4 (map ?g [0..2 ^ b0 - 1] ! k) \<and> rc_spec (map ?g [0..2 ^ b0 - 1] ! k) = ?spec"
      using g1(2,3)[of "int k"] by simp
  qed
  obtain m where m: "RamMemory cf (map ?g [0..2 ^ b0 - 1]) = Some m" "mem_ok (2 ^ b0) (2 ^ b1) 4 m" "mm_spec m = ?spec"
    using RamMemory_runs[OF g refl core len all] by (auto simp: runs_iff)
  show ?thesis
    using cf s cs m H(6) by (simp add: DramModel_def dm_ok_def)
qed

end
