(* ===== verification/Ram_Events.thy ===== *)
theory Ram_Events
  imports Ram_Model
begin

section \<open>The DRAM model as a served component\<close>

text \<open>
  The calls that the stacked DRAM controller and the statistics manager make on a \<^verbatim>\<open>DramModel\<close>, as
  events. The interpretation of \<open>served\<close> says that every sequence of them whose vault and bank numbers
  are in range returns. The locale \<open>ctrl_property\<close> is the contract of an extra property of channel
  controllers: once a clock, an \<^verbatim>\<open>enqueue\<close> and a change of a refresh interval keep it, every call does.
\<close>

datatype dm_event =
  Tick
| ResetTick
| ReadLatency int int int int u64
| WriteLatency int int int int u64
| BankRef int int bool
| PrevLatency

fun dm_serve :: "dm_event \<Rightarrow> dram_model \<Rightarrow> dram_model option" where
  "dm_serve Tick d = tickOnce d"
| "dm_serve ResetTick d = Some (resetIntervalTick d)"
| "dm_serve (ReadLatency v b r c t) d = map_option snd (getReadLatency v b r c t d)"
| "dm_serve (WriteLatency v b r c t) d = map_option snd (getWriteLatency v b r c t d)"
| "dm_serve (BankRef v b hot) d = dm_setBankRef v b hot d"
| "dm_serve PrevLatency d = Some (snd (getPrevLatency d))"

fun dm_allowed :: "nat \<Rightarrow> nat \<Rightarrow> dm_event \<Rightarrow> bool" where
  "dm_allowed C R (BankRef v b hot) \<longleftrightarrow> 0 \<le> v \<and> v < int C \<and> 0 \<le> b \<and> b < 2 * int R"
| "dm_allowed C R _ \<longleftrightarrow> True"

lemma runs_map_option [runs_simps]: "runs (map_option f m) Q \<longleftrightarrow> runs m (\<lambda>x. Q (f x))"
  by (cases m) auto

lemma ensures_map_option [simp]: "ensures (map_option f m) Q \<longleftrightarrow> ensures m (\<lambda>x. Q (f x))"
  by (cases m) auto

lemma dm_frame_trans: "dm_frame d d' \<Longrightarrow> dm_frame d' d'' \<Longrightarrow> dm_frame d d''"
  by (simp add: dm_frame_def mem_frame_def)

lemma dm_frame_refl: "dm_frame d d"
  by (simp add: dm_frame_def mem_frame_def)

lemma dm_serve_runs:
  assumes "dm_ok C R K d" "dm_allowed C R e"
  shows "runs (dm_serve e d) (\<lambda>d'. dm_ok C R K d' \<and> dm_frame d d')"
proof (cases e)
  case Tick then show ?thesis using tickOnce_runs[OF assms(1)] by simp
next
  case ResetTick then show ?thesis using assms by (simp add: resetIntervalTick_def dm_ok_def dm_frame_def mem_frame_def)
next
  case (ReadLatency v b r c t)
  show ?thesis unfolding ReadLatency dm_serve.simps runs_map_option
    by (rule runs_mono[OF getReadLatency_runs[OF assms(1)]]) auto
next
  case (WriteLatency v b r c t)
  show ?thesis unfolding WriteLatency dm_serve.simps runs_map_option
    by (rule runs_mono[OF getWriteLatency_runs[OF assms(1)]]) auto
next
  case (BankRef v b hot) then show ?thesis using dm_setBankRef_runs[OF assms(1)] assms(2) by simp
next
  case PrevLatency
  then show ?thesis using assms by (simp add: getPrevLatency_def Let_def dm_ok_def dm_frame_def mem_frame_def split: prod.splits)
qed

interpretation dm: served dm_serve "dm_allowed C R" "\<lambda>d. dm_ok C R K d \<and> dm_frame d0 d" for C R K d0
  by unfold_locales (auto intro: dm_frame_trans elim!: runs_mono[OF dm_serve_runs])

subsection \<open>Partial correctness of loops and queries\<close>

lemma stall_loop_keeps:
  assumes f: "\<And>d. Q d \<Longrightarrow> ensures (f d) (\<lambda>(b, d'). Q d')" and Q: "Q d"
  shows "ensures (stall_loop f n d) (\<lambda>(m, d'). Q d')"
proof -
  have "(\<forall>d. Q d \<longrightarrow> ensures (f d) (\<lambda>(b, d'). Q d')) \<longrightarrow> Q d \<longrightarrow> Q (snd y)" if "stall_loop f n d = Some y" for y
    using that
  proof (induction rule: stall_loop.raw_induct[rotated, consumes 1])
    case (1 loop snd_row clks d y)
    show ?case
    proof (intro impI)
      assume keeps: "\<forall>d. Q d \<longrightarrow> ensures (snd_row d) (\<lambda>(b, d'). Q d')" and "Q d"
      obtain b d' where s: "snd_row d = Some (b, d')" using 1(2) by (cases "snd_row d") auto
      then have "Q d'" using keeps \<open>Q d\<close> by fastforce
      then show "Q (snd y)" using 1(2) 1(1)[of snd_row "clks + 1" d' y] s keeps by (auto split: if_splits)
    qed
  qed
  then show ?thesis using f Q by (fastforce simp: ensures_def)
qed

text \<open>A clock of the memory is a clock of every controller.\<close>

lemma tick_ctrls_nth:
  assumes "tick_ctrls cs = Some (act, dn, cs')"
  shows "length cs' = length cs \<and> (\<forall>k<length cs. \<exists>cb. ctrl_tick (cs ! k) = Some (cb, cs' ! k))"
proof -
  let ?f = "\<lambda>c (act, dn, cs). do { (completed, c') \<leftarrow> ctrl_tick c;
       Some (act \<or> is_active c, dn @ (case completed of None \<Rightarrow> [] | Some r \<Rightarrow> [r]), cs @ [c']) }"
  let ?I = "\<lambda>n (act, dn, cs'). length cs' = n \<and> (\<forall>k<n. \<exists>cb. ctrl_tick (cs ! k) = Some (cb, cs' ! k))"
  have "ensures (foldM (?f \<circ> (\<lambda>k. cs ! k)) [0..<n] (False, [], [])) (?I n)" if "n \<le> length cs" for n
    using that
  proof (induction n)
    case (Suc n)
    show ?case unfolding upt_Suc_append[OF le0] foldM_append ensures_bind
    proof (rule ensures_mono[OF Suc.IH])
      fix st :: "bool \<times> ram_request list \<times> ram_ctrl list" assume I: "?I n st"
      obtain act dn cs' where st: "st = (act, dn, cs')" by (metis prod_cases3)
      show "ensures (foldM (?f \<circ> (\<lambda>k. cs ! k)) [n] st) (?I (Suc n))"
        using I by (cases "ctrl_tick (cs ! n)") (auto simp: st nth_append less_Suc_eq split: prod.splits)
    qed (use Suc.prems in simp)
  qed simp
  from this[of "length cs"] show ?thesis
    using assms unfolding tick_ctrls_def by (auto simp: foldM_map[symmetric] map_nth)
qed

lemma mem_tick_ctrls:
  assumes "mem_tick m = Some (dn, m')"
  shows "length (mm_ctrls m') = length (mm_ctrls m)"
    "\<forall>k<length (mm_ctrls m). \<exists>cb. ctrl_tick (mm_ctrls m ! k) = Some (cb, mm_ctrls m' ! k)"
proof -
  obtain act dn0 cs where cs: "tick_ctrls (mm_ctrls m) = Some (act, dn0, cs)" "mm_ctrls m' = cs"
    using assms by (auto simp: mem_tick_def Let_def split: bind_splits)
  show "length (mm_ctrls m') = length (mm_ctrls m)"
    "\<forall>k<length (mm_ctrls m). \<exists>cb. ctrl_tick (mm_ctrls m ! k) = Some (cb, mm_ctrls m' ! k)"
    using tick_ctrls_nth[OF cs(1)] cs(2) by simp_all
qed

subsection \<open>Properties of channel controllers\<close>

text \<open>A property of a controller, of its configuration and of its channel number.\<close>

locale ctrl_property =
  fixes P :: "nat \<Rightarrow> ram_ctrl \<Rightarrow> bool"
  assumes tick_keeps: "ctrl_ok (int k) R K c \<Longrightarrow> P k c \<Longrightarrow> ensures (ctrl_tick c) (\<lambda>(_, c'). P k c')"
    and enqueue_keeps: "P k c \<Longrightarrow> P k (snd (enqueue req c))"
    and set_ref_keeps: "ctrl_ok (int k) R K c \<Longrightarrow> P k c \<Longrightarrow> ensures (setBankRef b hot c) (P k)"
begin

definition all_ctrls :: "ram_memory \<Rightarrow> bool" where
  "all_ctrls m \<longleftrightarrow> (\<forall>k<length (mm_ctrls m). P k (mm_ctrls m ! k))"

lemma send_keeps:
  assumes "all_ctrls m" shows "ensures (send req m) (\<lambda>(res, m'). all_ctrls m')"
proof (cases "send req m")
  case (Some y)
  have "all_ctrls (snd y)"
  proof -
    obtain res m' where y: "y = (res, m')" by (cases y)
    obtain vec ch where ch: "0 \<le> ch" "nat ch < length (mm_ctrls m)"
      and m': "mm_ctrls m' = (mm_ctrls m)[nat ch := snd (enqueue (req\<lparr>rq_addr_vec := vec\<rparr>) (mm_ctrls m ! nat ch))]"
      using Some y by (auto simp: send_def Let_def bump_mem_def ifetch_def istore_def split: bind_splits if_splits prod.splits; metis snd_conv)
    show ?thesis
      using assms ch enqueue_keeps by (auto simp: y m' all_ctrls_def nth_list_update)
  qed
  then show ?thesis using Some by (cases y) simp
qed simp

lemma mem_tick_keeps:
  assumes ok: "mem_ok C R K m" and P: "all_ctrls m"
  shows "ensures (mem_tick m) (\<lambda>(dn, m'). all_ctrls m')"
proof (cases "mem_tick m")
  case (Some y)
  obtain dn m' where y: "y = (dn, m')" by (cases y)
  note T = mem_tick_ctrls[OF Some[unfolded y]]
  have "P k (mm_ctrls m' ! k)" if k: "k < length (mm_ctrls m)" for k
  proof -
    obtain cb where t: "ctrl_tick (mm_ctrls m ! k) = Some (cb, mm_ctrls m' ! k)" using T(2) k by blast
    have "ensures (ctrl_tick (mm_ctrls m ! k)) (\<lambda>(_, c'). P k c')"
      using k P mem_okD(1,4)[OF ok] by (intro tick_keeps[of k R K]) (auto simp: all_ctrls_def)
    then show ?thesis by (simp add: t)
  qed
  then show ?thesis using T(1) by (simp add: Some y all_ctrls_def)
qed simp

lemma send_row_keeps:
  "all_ctrls (dm_memory d) \<Longrightarrow> ensures (send_row ty v b r co d) (\<lambda>(res, d'). all_ctrls (dm_memory d'))"
  unfolding send_row_def ensures_bind
  by (rule ensures_any, rule ensures_mono[OF send_keeps]) auto

lemma replay_keeps:
  assumes "all_ctrls (dm_memory d)"
  shows "ensures (replay_request q (k, d)) (\<lambda>(k', d'). all_ctrls (dm_memory d'))"
proof -
  have loop: "ensures (stall_loop (send_row ty v b r co) n d) (\<lambda>(m, d'). all_ctrls (dm_memory d'))" for ty v b r co n
    by (rule stall_loop_keeps[where Q = "\<lambda>d. all_ctrls (dm_memory d)", OF send_row_keeps assms])
  have "ensures (stall_loop (send_row ty v b r co) n d) (\<lambda>x. ensures (case x of (n, d) \<Rightarrow> Some (f n, d)) Q)"
    if "Q = (\<lambda>(k', d'). all_ctrls (dm_memory d'))" for ty v b r co n and f :: "int \<Rightarrow> latency_counts" and Q
    by (rule ensures_mono[OF loop]) (auto simp: that)
  then show ?thesis
    by (auto simp: replay_request_def Let_def readRow_def writeRow_def ensures_bind)
qed

lemma updateLatency_keeps:
  assumes "all_ctrls (dm_memory d)"
  shows "ensures (updateLatency t d) (\<lambda>d'. all_ctrls (dm_memory d'))"
proof -
  let ?I = "\<lambda>(k, d'). all_ctrls (dm_memory d')"
  have "ensures (foldM replay_request qs (k, d')) ?I" if "all_ctrls (dm_memory d')" for qs k d'
    by (rule foldM_ensures) (use that replay_keeps in auto)
  then have loop: "ensures (foldM replay_request qs (k, d')) (\<lambda>x. ensures (case x of (k, d) \<Rightarrow> Some (f k d)) (\<lambda>d'. all_ctrls (dm_memory d')))"
    if "all_ctrls (dm_memory d')" "\<And>k d. dm_memory (f k d) = dm_memory d" for qs k d' and f :: "latency_counts \<Rightarrow> dram_model \<Rightarrow> dram_model"
    by (rule ensures_mono) (use that in auto)
  show ?thesis
    unfolding updateLatency_def Let_def using assms by (simp add: ensures_bind loop)
qed

text \<open>Every call keeps the property.\<close>

lemma dm_serve_keeps:
  assumes ok: "dm_ok C R K d" and P: "all_ctrls (dm_memory d)"
  shows "ensures (dm_serve e d) (\<lambda>d'. all_ctrls (dm_memory d'))"
proof (cases e)
  case Tick
  have "mem_ok C R K (dm_memory d)" using ok by (simp add: dm_ok_def)
  from mem_tick_keeps[OF this P] show ?thesis
    by (auto simp: Tick tickOnce_def ensures_bind Let_def read_complete_sel elim!: ensures_mono)
next
  case (ReadLatency v b r c t)
  then show ?thesis
    using P updateLatency_keeps[OF P] by (auto simp: getReadLatency_def ensures_bind)
next
  case (WriteLatency v b r c t)
  then show ?thesis
    using P updateLatency_keeps[of "d\<lparr>dm_req_queue := q\<rparr>" for q] by (auto simp: getWriteLatency_def ensures_bind Let_def)
next
  case (BankRef v b hot)
  have "ensures (setBankRef b hot (mm_ctrls (dm_memory d) ! k)) (P k)" if "k < length (mm_ctrls (dm_memory d))" for k
    using that P mem_okD(1,4)[of C R K "dm_memory d"] ok by (intro set_ref_keeps[of k R K]) (auto simp: all_ctrls_def dm_ok_def)
  then show ?thesis
    using P unfolding BankRef dm_serve.simps dm_setBankRef_def
    by (auto simp: ensures_def ifetch_def istore_def all_ctrls_def nth_list_update split: bind_splits if_splits)
qed (use P in \<open>simp_all add: resetIntervalTick_def getPrevLatency_def Let_def split: prod.splits\<close>)

lemma all_events_keep:
  assumes ok: "dm_ok C R K d" and P: "all_ctrls (dm_memory d)" and es: "\<forall>e\<in>set es. dm_allowed C R e"
  shows "runs (foldM dm_serve es d) (\<lambda>d'. dm_ok C R K d' \<and> dm_frame d d' \<and> all_ctrls (dm_memory d'))"
  using assms
proof (induction es arbitrary: d)
  case (Cons e es)
  obtain d1 where d1: "dm_serve e d = Some d1" "dm_ok C R K d1" "dm_frame d d1"
    using dm_serve_runs[OF Cons.prems(1)] Cons.prems(3) by (auto simp: runs_iff)
  have "all_ctrls (dm_memory d1)" using dm_serve_keeps[OF Cons.prems(1,2), of e] d1(1) by simp
  then show ?case
    using Cons.IH[OF d1(2)] Cons.prems(3) d1 by (auto elim!: runs_mono intro: dm_frame_trans)
qed (simp add: dm_frame_refl)

end

subsection \<open>What the scheduler does in a clock\<close>

lemma schedule_cases:
  assumes inv: "ctrl_inv ch R K rclk D c"
  obtains (wait) "schedule c = Some c"
  | (serve) k h i j where "schedule c = serve_head k h c" "h < length (the_queue k c)" "i < R" "j < 2"
      "on_path ch i j (rq_addr_vec (the_queue k c ! h))"
proof -
  note I = ctrl_invD[OF inv]
  let ?k = "if rc_otherq c \<noteq> [] then OtherQ else if \<not> rc_write_mode c then ReadQ else WriteQ"
  have ty: "rc_sched_type c = FRFCFS_PriorHit" "rc_policy_type c = PolicyOpened" using I(1) by (auto simp: consts_ok_def)
  have "\<exists>rd hit opn. answers (the_queue ?k c) c rd hit opn"
  proof (cases "rc_otherq c = []")
    case True
    have "queue_of ?k (if \<not> rc_write_mode c then READ else WRITE)" using True by (simp add: queue_of_def)
    then show ?thesis using answers_access[OF inv] by blast
  next
    case False
    then show ?thesis using answers_refresh[OF inv] by auto
  qed
  then obtain rd hit opn where A: "answers (the_queue ?k c) c rd hit opn" by blast
  obtain head where head: "get_head (the_queue ?k c) c = Some (head, c)" "\<And>h. head = Some h \<Longrightarrow> h < length (the_queue ?k c)"
    using get_head_runs[OF A ty(1)] by (auto simp: runs_iff split: option.splits)
  show thesis
  proof (cases "\<exists>h. head = Some h \<and> rd h")
    case True
    then obtain h where h: "head = Some h" "rd h" by blast
    have "\<exists>ty. req_ok ch R K (rc_clk c) ty (the_queue ?k c ! h)"
      using head(2)[OF h(1)] I(6,10) by (auto simp: queues_ok_def refq_ok_def)
    then have "\<exists>i<R. \<exists>j<2. on_path ch i j (rq_addr_vec (the_queue ?k c ! h))" using req_okD(2,3,4) by blast
    moreover have "schedule c = serve_head ?k h c"
      using h head A by (simp add: schedule_def Let_def answers_def)
    ultimately show thesis using serve head(2)[OF h(1)] by blast
  next
    case False
    then have "(case head of None \<Rightarrow> Some False | Some i \<Rightarrow> is_ready (the_queue ?k c ! i) c) = Some False"
      using A head(2) by (auto simp: answers_def split: option.splits)
    then have "schedule c = Some c"
      using head(1) ty(2) by (simp add: schedule_def Let_def get_victim_def)
    then show thesis by (rule wait)
  qed
qed

end
