(* ===== verification/Ram_Timing.thy ===== *)
theory Ram_Timing
  imports Ram_Events
begin

section \<open>The commands respect the timing constraints\<close>

text \<open>
  No operation on a DRAM tree ever lowers the earliest clock of a command at a node, issuing a command
  raises the earliest clocks of the commands it constrains (from the clocks in the history of the node, for a
  constraint that spans several commands) and enters its clock into the histories of its path, and a
  command is issued only when its earliest clocks at all nodes of its path have passed. The command trace
  of a controller therefore keeps the distances of the timing table.
\<close>

subsection \<open>Earliest clocks only grow\<close>

definition node_le :: "dram_node \<Rightarrow> dram_node \<Rightarrow> bool" where
  "node_le n n' \<longleftrightarrow> dn_level n' = dn_level n \<and> dn_id n' = dn_id n \<and>
     (\<forall>cmd. length (dn_prev n' cmd) = length (dn_prev n cmd)) \<and> (\<forall>cmd. dn_next n cmd \<le> dn_next n' cmd)"

inductive tree_le :: "ram_dram \<Rightarrow> ram_dram \<Rightarrow> bool" where
  "node_le n n' \<Longrightarrow> list_all2 tree_le cs cs' \<Longrightarrow> tree_le (Node n cs) (Node n' cs')"
  monos list_all2_mono

inductive_simps tree_le_Node: "tree_le (Node n cs) t"

lemma node_le_refl [simp]: "node_le n n"
  by (simp add: node_le_def)

lemma node_le_trans: "node_le n n' \<Longrightarrow> node_le n' n'' \<Longrightarrow> node_le n n''"
  by (fastforce simp: node_le_def intro: order_trans)

lemma tree_le_refl [simp]: "tree_le t t"
proof (induction t)
  case (Node n cs)
  then show ?case by (auto simp: tree_le_Node intro!: list_all2_same[THEN iffD2])
qed

lemma tree_le_trans: "tree_le t t' \<Longrightarrow> tree_le t' t'' \<Longrightarrow> tree_le t t''"
proof (induction t arbitrary: t' t'')
  case (Node n cs)
  from Node.prems obtain n' cs' n'' cs'' where t: "t' = Node n' cs'" "t'' = Node n'' cs''" "node_le n n'" "node_le n' n''"
    "list_all2 tree_le cs cs'" "list_all2 tree_le cs' cs''"
    by (auto simp: tree_le_Node)
  have "list_all2 tree_le cs cs''"
    unfolding list_all2_conv_all_nth
  proof (intro conjI allI impI)
    show "length cs = length cs''" using t(5,6) by (simp add: list_all2_lengthD)
    fix i assume "i < length cs"
    then show "tree_le (cs ! i) (cs'' ! i)"
      using t(5,6) Node.IH[of "cs ! i" "cs' ! i" "cs'' ! i"] by (auto simp: list_all2_conv_all_nth)
  qed
  then show ?case using t node_le_trans by (auto simp: tree_le_Node)
qed

lemma tree_le_upd_node: "node_le (the_node t) (f (the_node t)) \<Longrightarrow> tree_le t (upd_node f t)"
  by (cases t) (simp add: tree_le_Node list.rel_refl)

lemma tree_le_children: "node_le (the_node t) n \<Longrightarrow> list_all2 tree_le (children t) cs \<Longrightarrow> tree_le t (Node n cs)"
  by (cases t) (simp add: tree_le_Node)

lemma list_all2_put:
  assumes "list_all2 tree_le cs cs" "i < length cs" "tree_le (cs ! i) c"
  shows "list_all2 tree_le cs (cs[i := c])"
  using assms by (auto simp: list_all2_conv_all_nth nth_list_update)

lemma list_all2_le_refl: "list_all2 tree_le cs cs"
  by (simp add: list.rel_refl)

lemma tree_le_bank: "tree_le t (close_bank t)" "tree_le t (set_state s t)" "tree_le t (ram_open_row r t)"
  by (auto simp: close_bank_def set_state_def ram_open_row_def node_le_def intro!: tree_le_upd_node)

lemma apply_lambda_le: "tree_le t (apply_lambda cmd i t)"
proof -
  have "tree_le t (rank_prea t i)"
    unfolding rank_prea_def
    by (rule tree_le_children) (auto simp: list_all2_conv_all_nth tree_le_bank intro!: tree_le_children)
  then show ?thesis
    by (auto simp: apply_lambda_def rank_pde_def tree_le_bank elim!: lambda_entry.elims split: option.splits)
qed

lemma update_state_le: "ensures (update_state cmd addr t) (tree_le t)"
proof (induction cmd addr t rule: update_state.induct)
  case (1 cmd addr t)
  show ?case
  proof (cases "child_index addr (the_node t)")
    case (Some child_id)
    let ?t = "apply_lambda cmd child_id t"
    have le: "tree_le t ?t" by (rule apply_lambda_le)
    show ?thesis
    proof (cases "dn_level (the_node ?t) = scope cmd \<or> children ?t = []")
      case True
      then show ?thesis using Some le by (subst update_state.simps) (auto simp: Let_def)
    next
      case False
      have "ensures (update_state cmd addr c) (tree_le c)" if "ifetch (children ?t) child_id = Some c" for c
        using 1[OF Some refl _ that] False by simp
      then have "ensures (update_state cmd addr t) (tree_le ?t)"
        using False Some
        by (subst update_state.simps)
          (auto simp: Let_def ensures_def ifetch_def istore_def list_all2_le_refl split: bind_splits if_splits
            intro!: tree_le_children list_all2_put)
      then show ?thesis by (rule ensures_mono) (rule tree_le_trans[OF le])
    qed
  qed (subst update_state.simps, simp)
qed

lemma sibling_timing_le: "ensures (sibling_timing clk e n) (node_le n)"
  by (auto simp: sibling_timing_def ensures_bind node_le_def)

lemma target_timing_le: "ensures (target_timing cmd clk e n) (node_le n)"
  by (auto simp: target_timing_def ensures_def Let_def node_le_def split: bind_splits if_splits)

lemma push_history_le: "node_le n (push_history cmd clk n)"
  by (auto simp: push_history_def node_le_def)

lemma foldM_node_le: "(\<And>e n. ensures (f e n) (node_le n)) \<Longrightarrow> ensures (foldM f es n) (node_le n)"
  by (rule foldM_ensures) (auto simp: ensures_def intro: node_le_trans)

lemma those_map_all2: "(\<And>x y. x \<in> set xs \<Longrightarrow> f x = Some y \<Longrightarrow> R x y) \<Longrightarrow> those (map f xs) = Some ys \<Longrightarrow> list_all2 R xs ys"
  by (induction xs arbitrary: ys) (auto split: option.splits)

lemma update_timing_le: "ensures (update_timing s cmd addr clk t) (tree_le t)"
proof (induction t)
  case (Node n cs)
  have sib: "ensures (foldM (sibling_timing clk) es n) (node_le n)" for es by (rule foldM_node_le[OF sibling_timing_le])
  have tgt: "ensures (foldM (target_timing cmd clk) es (push_history cmd clk n)) (node_le n)" for es
    by (rule ensures_mono[OF foldM_node_le[OF target_timing_le]]) (rule node_le_trans[OF push_history_le])
  have cs: "those (map (update_timing s cmd addr clk) cs) = Some cs' \<Longrightarrow> list_all2 tree_le cs cs'" for cs'
    by (rule those_map_all2) (use Node.IH in \<open>auto simp: ensures_def\<close>)
  show ?case
    using sib tgt cs by (auto simp: ensures_def tree_le_Node list_all2_le_refl split: bind_splits if_splits)
qed

lemma dram_update_le: "ensures (dram_update s cmd addr clk t) (tree_le t)"
proof -
  let ?t = "upd_node (\<lambda>n. n\<lparr>dn_cur_clk := clk\<rparr>) t"
  have le: "tree_le t ?t" by (rule tree_le_upd_node) (simp add: node_le_def)
  have up: "tree_le t' (upd_node (\<lambda>n. n\<lparr>dn_serving_reads := x\<rparr>) t')" "tree_le t' (upd_node (\<lambda>n. n\<lparr>dn_serving_writes := x\<rparr>) t')" for t' x
    by (rule tree_le_upd_node, simp add: node_le_def)+
  show ?thesis
    unfolding dram_update_def Let_def ensures_bind
  proof (rule ensures_mono[OF update_state_le], rule ensures_mono[OF update_timing_le], goal_cases)
    case (1 t1 t2)
    then have "tree_le t t2" using le tree_le_trans by blast
    then show ?case by (auto intro: tree_le_trans[OF _ up(1)] tree_le_trans[OF _ up(2)])
  qed
qed

lemma serve_node_le: "ensures (serve_node delta clk n) (node_le n)"
  by (auto simp: serve_node_def ensures_def Let_def node_le_def guard_def split: bind_splits if_splits)

lemma update_serving_le: "ensures (update_serving_requests addr delta clk t) (tree_le t)"
proof (induction addr delta clk t rule: update_serving_requests.induct)
  case (1 addr delta clk n cs)
  show ?case
    using 1 serve_node_le[of delta clk n]
    by (auto simp: ensures_def guard_def tree_le_Node list_all2_le_refl ifetch_def istore_def split: bind_splits if_splits
        intro!: list_all2_put)
qed

subsection \<open>The histories of the ranks\<close>

definition rank_prev :: "ram_dram \<Rightarrow> (ram_command \<Rightarrow> int list) list" where
  "rank_prev t = map (\<lambda>r. dn_prev (the_node r)) (children t)"

text \<open>What only an issued command changes: the histories of a node and of its children.\<close>

definition same_prev :: "ram_dram \<Rightarrow> ram_dram \<Rightarrow> bool" where
  "same_prev t t' \<longleftrightarrow> dn_prev (the_node t') = dn_prev (the_node t) \<and> rank_prev t' = rank_prev t"

lemma same_prev_refl [simp]: "same_prev t t"
  by (simp add: same_prev_def)

lemma same_prev_trans: "same_prev t t' \<Longrightarrow> same_prev t' t'' \<Longrightarrow> same_prev t t''"
  by (simp add: same_prev_def)

lemma same_prev_put:
  assumes "i < length cs" "same_prev (cs ! i) c"
  shows "same_prev (Node n cs) (Node n (cs[i := c]))"
  using assms by (auto simp: same_prev_def rank_prev_def map_update list_update_same_conv)

lemma apply_lambda_prev: "same_prev t (apply_lambda cmd i t)"
proof -
  have "same_prev t (rank_prea t i)" "same_prev t (rank_pde t i)"
    by (simp_all add: same_prev_def rank_prev_def rank_prea_def rank_pde_def set_state_def comp_def)
  then show ?thesis
    by (auto simp: apply_lambda_def set_state_def close_bank_def ram_open_row_def same_prev_def rank_prev_def elim!: lambda_entry.elims
        split: option.splits)
qed

lemma update_state_prev: "ensures (update_state cmd addr t) (same_prev t)"
proof (induction cmd addr t rule: update_state.induct)
  case (1 cmd addr t)
  show ?case
  proof (cases "child_index addr (the_node t)")
    case (Some child_id)
    let ?t = "apply_lambda cmd child_id t"
    have le: "same_prev t ?t" by (rule apply_lambda_prev)
    show ?thesis
    proof (cases "dn_level (the_node ?t) = scope cmd \<or> children ?t = []")
      case True
      then show ?thesis using Some le by (subst update_state.simps) (auto simp: Let_def)
    next
      case False
      have "ensures (update_state cmd addr c) (same_prev c)" if "ifetch (children ?t) child_id = Some c" for c
        using 1[OF Some refl _ that] False by simp
      then have "ensures (update_state cmd addr t) (same_prev (Node (the_node ?t) (children ?t)))"
        using False Some
        by (subst update_state.simps)
          (auto simp: Let_def ensures_def ifetch_def istore_def simp del: ram_dram.collapse split: bind_splits if_splits
            intro!: same_prev_put)
      then show ?thesis by (rule ensures_mono) (use same_prev_trans[OF le] in auto)
    qed
  qed (subst update_state.simps, simp)
qed

lemma serve_node_prev: "ensures (serve_node delta clk n) (\<lambda>n'. dn_prev n' = dn_prev n)"
  by (auto simp: serve_node_def ensures_def Let_def guard_def split: bind_splits if_splits)

lemma update_serving_prev: "ensures (update_serving_requests addr delta clk t) (same_prev t)"
proof (induction addr delta clk t rule: update_serving_requests.induct)
  case (1 addr delta clk n cs)
  have "same_prev (Node n cs) (Node n' (cs[i := c]))" if "dn_prev n' = dn_prev n" "i < length cs" "same_prev (cs ! i) c" for n' i c
    using same_prev_put[OF that(2,3), of n] that(1) by (simp add: same_prev_def rank_prev_def)
  then show ?case
    using 1 serve_node_prev[of delta clk n]
    by (auto simp: ensures_def guard_def ifetch_def istore_def split: bind_splits if_splits)
      (auto simp: same_prev_def rank_prev_def)
qed

lemma sibling_timing_prev: "ensures (sibling_timing clk e n) (\<lambda>n'. dn_prev n' = dn_prev n)"
  by (auto simp: sibling_timing_def ensures_bind)

lemma sibling_loop_prev: "ensures (foldM (sibling_timing clk) es n) (\<lambda>n'. dn_prev n' = dn_prev n)"
  by (rule foldM_ensures) (use sibling_timing_prev in \<open>auto simp: ensures_def\<close>)

subsection \<open>Issuing raises the clocks that it constrains\<close>

text \<open>The shape of a channel that the timing of commands depends on; growing clocks keep it.\<close>

definition timed_node :: "hbm_speed \<Rightarrow> ram_level \<Rightarrow> int \<Rightarrow> dram_node \<Rightarrow> bool" where
  "timed_node s l i n \<longleftrightarrow> dn_level n = l \<and> dn_id n = i \<and> (\<forall>cmd. length (dn_prev n cmd) = history_length (timing s l cmd))"

definition timed_tree :: "hbm_speed \<Rightarrow> int \<Rightarrow> nat \<Rightarrow> ram_dram \<Rightarrow> bool" where
  "timed_tree s ch R t \<longleftrightarrow> timed_node s Channel ch (the_node t) \<and> length (children t) = R \<and>
     (\<forall>i<R. timed_node s Rank (int i) (the_node (rank_node t i)) \<and> length (children (rank_node t i)) = 2 \<and>
        (\<forall>j<2. timed_node s Bank (int j) (the_node (bank_node t i j)) \<and> children (bank_node t i j) = []))"

lemma tree_ok_timed: "tree_ok s ch R 2 t \<Longrightarrow> timed_tree s ch R t"
  by (simp add: tree_ok_def timed_tree_def node_ok_def timed_node_def)

lemma tree_leD:
  assumes "tree_le t t'"
  shows "node_le (the_node t) (the_node t')" "length (children t') = length (children t)"
    and "i < length (children t) \<Longrightarrow> tree_le (rank_node t i) (rank_node t' i)"
  using assms by (cases; auto simp: list_all2_conv_all_nth)+

lemma timed_node_le: "node_le n n' \<Longrightarrow> timed_node s l i n \<Longrightarrow> timed_node s l i n'"
  by (simp add: node_le_def timed_node_def)

lemma timed_tree_le:
  assumes "timed_tree s ch R t" "tree_le t t'" shows "timed_tree s ch R t'"
proof -
  have r: "tree_le (rank_node t i) (rank_node t' i)" if "i < R" for i
    using tree_leD(3)[OF assms(2)] assms(1) that by (simp add: timed_tree_def)
  have b: "tree_le (bank_node t i j) (bank_node t' i j)" if "i < R" "j < 2" for i j
    using tree_leD(3)[OF r[OF that(1)]] assms(1) that by (simp add: timed_tree_def)
  have "children (bank_node t' i j) = []" if "i < R" "j < 2" for i j
    using tree_leD(2)[OF b[OF that]] assms(1) that by (simp add: timed_tree_def)
  moreover have "timed_node s Channel ch (the_node t')" "length (children t') = R"
    using timed_node_le[OF tree_leD(1)[OF assms(2)]] tree_leD(2)[OF assms(2)] assms(1) by (auto simp: timed_tree_def)
  moreover have "timed_node s Rank (int i) (the_node (rank_node t' i))" "length (children (rank_node t' i)) = 2" if "i < R" for i
    using timed_node_le[OF tree_leD(1)[OF r[OF that]]] tree_leD(2)[OF r[OF that]] assms(1) that by (auto simp: timed_tree_def)
  moreover have "timed_node s Bank (int j) (the_node (bank_node t' i j))" if "i < R" "j < 2" for i j
    using timed_node_le[OF tree_leD(1)[OF b[OF that]]] assms(1) that by (simp add: timed_tree_def)
  ultimately show ?thesis by (simp add: timed_tree_def)
qed

text \<open>Growth seen along a path.\<close>

lemma nexts_le:
  assumes "timed_tree s ch R t" "tree_le t t'" "i < R" "j < 2"
  shows "dn_next (the_node t) cmd \<le> dn_next (the_node t') cmd"
    "dn_next (the_node (rank_node t i)) cmd \<le> dn_next (the_node (rank_node t' i)) cmd"
    "dn_next (the_node (bank_node t i j)) cmd \<le> dn_next (the_node (bank_node t' i j)) cmd"
proof -
  have r: "tree_le (rank_node t i) (rank_node t' i)"
    using tree_leD(3)[OF assms(2)] assms by (simp add: timed_tree_def)
  have b: "tree_le (bank_node t i j) (bank_node t' i j)"
    using tree_leD(3)[OF r] assms by (simp add: timed_tree_def)
  show "dn_next (the_node t) cmd \<le> dn_next (the_node t') cmd"
    "dn_next (the_node (rank_node t i)) cmd \<le> dn_next (the_node (rank_node t' i)) cmd"
    "dn_next (the_node (bank_node t i j)) cmd \<le> dn_next (the_node (bank_node t' i j)) cmd"
    using tree_leD(1)[OF assms(2)] tree_leD(1)[OF r] tree_leD(1)[OF b] by (auto simp: node_le_def)
qed

text \<open>The constraints of distance 1 that a command issued at \<open>clk\<close> puts on a node.\<close>

definition raised :: "timing_entry list \<Rightarrow> int \<Rightarrow> dram_node \<Rightarrow> bool" where
  "raised es clk n \<longleftrightarrow> (\<forall>e\<in>set es. te_dist e = 1 \<longrightarrow> clk + te_val e \<le> dn_next n (te_cmd e))"

lemma raised_le: "raised es clk n \<Longrightarrow> node_le n n' \<Longrightarrow> raised es clk n'"
  by (fastforce simp: raised_def node_le_def intro: order_trans)

text \<open>The constraints that the history of a command puts on a node: an entry of distance \<open>d\<close> counts from the
  \<open>d\<close>-th last time that the command was issued.\<close>

definition past_kept :: "timing_entry list \<Rightarrow> ram_command \<Rightarrow> dram_node \<Rightarrow> bool" where
  "past_kept es cmd n \<longleftrightarrow> (\<forall>e\<in>set es. 0 \<le> dn_prev n cmd ! nat (te_dist e - 1) \<longrightarrow>
     dn_prev n cmd ! nat (te_dist e - 1) + te_val e \<le> dn_next n (te_cmd e))"

lemma target_timing_past:
  assumes "\<not> te_sibling e"
  shows "ensures (target_timing cmd clk e n) (\<lambda>n'. dn_prev n' = dn_prev n \<and> (0 \<le> dn_prev n cmd ! nat (te_dist e - 1) \<longrightarrow>
     dn_prev n cmd ! nat (te_dist e - 1) + te_val e \<le> dn_next n' (te_cmd e)))"
  using assms by (auto simp: target_timing_def ensures_def Let_def ifetch_def split: bind_splits if_splits)

lemma target_loop_past:
  assumes "\<forall>e\<in>set es. \<not> te_sibling e"
  shows "ensures (foldM (target_timing cmd clk) es n) (\<lambda>n'. dn_prev n' = dn_prev n \<and> past_kept es cmd n')"
  using assms
proof (induction es arbitrary: n)
  case (Cons e es)
  show ?case unfolding foldM.simps ensures_bind
  proof (rule ensures_mono[OF target_timing_past[of e cmd clk n]])
    fix n1 :: dram_node assume n1: "dn_prev n1 = dn_prev n \<and> (0 \<le> dn_prev n cmd ! nat (te_dist e - 1) \<longrightarrow>
      dn_prev n cmd ! nat (te_dist e - 1) + te_val e \<le> dn_next n1 (te_cmd e))"
    have "ensures (foldM (target_timing cmd clk) es n1) (\<lambda>n'. dn_prev n' = dn_prev n1 \<and> past_kept es cmd n')"
      using Cons.IH[of n1] Cons.prems by simp
    moreover have "ensures (foldM (target_timing cmd clk) es n1) (node_le n1)" by (rule foldM_node_le[OF target_timing_le])
    moreover have "past_kept (e # es) cmd n2" if "dn_prev n2 = dn_prev n1" "past_kept es cmd n2" "node_le n1 n2" for n2 :: dram_node
    proof -
      have "dn_next n1 (te_cmd e) \<le> dn_next n2 (te_cmd e)" using that(3) by (simp add: node_le_def)
      then show ?thesis using n1 that(1,2) by (auto simp: past_kept_def)
    qed
    ultimately show "ensures (foldM (target_timing cmd clk) es n1) (\<lambda>n'. dn_prev n' = dn_prev n \<and> past_kept (e # es) cmd n')"
      using n1 by (simp add: ensures_def)
  qed (use Cons.prems in simp)
qed (simp add: past_kept_def)

text \<open>A node on the path of a command issued at \<open>clk\<close>, before and after.\<close>

definition issued_node :: "hbm_speed \<Rightarrow> ram_level \<Rightarrow> ram_command \<Rightarrow> int \<Rightarrow> dram_node \<Rightarrow> dram_node \<Rightarrow> bool" where
  "issued_node s l cmd clk n n' \<longleftrightarrow> dn_prev n' = dn_prev (push_history cmd clk n) \<and> past_kept (timing s l cmd) cmd n' \<and>
     raised (timing s l cmd) clk n'"

lemma node_issued:
  assumes "timed_node s l i n" "0 \<le> clk"
  shows "ensures (foldM (target_timing cmd clk) (timing s l cmd) (push_history cmd clk n)) (issued_node s l cmd clk n)"
proof (rule ensures_mono[OF target_loop_past])
  show "\<forall>e\<in>set (timing s l cmd). \<not> te_sibling e" using timing_entries(1) by blast
  fix n' assume n': "dn_prev n' = dn_prev (push_history cmd clk n) \<and> past_kept (timing s l cmd) cmd n'"
  have "raised (timing s l cmd) clk n'"
    unfolding raised_def
  proof (intro ballI impI)
    fix e assume e: "e \<in> set (timing s l cmd)" "te_dist e = 1"
    have "history_length (timing s l cmd) \<noteq> 0" using history_long_enough[OF e(1)] timing_entries(2)[OF e(1)] by auto
    then have "dn_prev n' cmd ! 0 = clk"
      using assms(1)[unfolded timed_node_def, THEN conjunct2, THEN conjunct2, rule_format, of cmd] n'
      by (cases "dn_prev n cmd") (simp_all add: push_history_def)
    then show "clk + te_val e \<le> dn_next n' (te_cmd e)" using n' e assms(2) by (force simp: past_kept_def)
  qed
  then show "issued_node s l cmd clk n n'" using n' by (simp add: issued_node_def)
qed

lemma those_map_nth: "those (map f xs) = Some ys \<Longrightarrow> i < length xs \<Longrightarrow> f (xs ! i) = Some (ys ! i)"
proof (induction xs arbitrary: i ys)
  case (Cons x xs)
  then show ?case by (cases i) (auto split: option.splits)
qed simp

lemma update_timing_node:
  assumes "timed_node s l i (the_node t)" "ifetch addr (lev l) = Some i" "0 \<le> clk" "update_timing s cmd addr clk t = Some t'"
  shows "issued_node s l cmd clk (the_node t) (the_node t') \<and> length (children t') = length (children t) \<and>
    (\<forall>k<length (children t). update_timing s cmd addr clk (children t ! k) = Some (children t' ! k))"
proof -
  obtain n cs where t: "t = Node n cs" by (cases t)
  have l: "dn_level n = l" "dn_id n = i" using assms(1) t by (auto simp: timed_node_def)
  obtain n' cs' where r: "foldM (target_timing cmd clk) (timing s l cmd) (push_history cmd clk n) = Some n'"
    "those (map (update_timing s cmd addr clk) cs) = Some cs'" "t' = Node n' cs'"
    using assms(2,4) l by (auto simp: t split: bind_splits)
  have "issued_node s l cmd clk n n'" using node_issued[of s l i n clk cmd] assms(1,3) t r(1) by simp
  moreover have "length cs' = length cs" using those_map_all2[of cs "update_timing s cmd addr clk" "\<lambda>_ _. True", OF _ r(2)] by (simp add: list_all2_lengthD)
  ultimately show ?thesis using those_map_nth[OF r(2)] by (auto simp: t r(3))
qed

lemma update_timing_other:
  assumes "timed_node s l i (the_node t)" "ifetch addr (lev l) = Some k" "k \<noteq> i" "update_timing s cmd addr clk t = Some t'"
  shows "dn_prev (the_node t') = dn_prev (the_node t)"
proof -
  obtain n cs where t: "t = Node n cs" by (cases t)
  have l: "dn_level n = l" "dn_id n = i" using assms(1) t by (auto simp: timed_node_def)
  obtain n' where r: "foldM (sibling_timing clk) (timing s l cmd) n = Some n'" "t' = Node n' cs"
    using assms(2-4) l by (auto simp: t split: bind_splits)
  then show ?thesis using sibling_loop_prev[of clk "timing s l cmd" n] by (simp add: t)
qed

lemma update_raises:
  assumes t: "timed_tree s ch R t" and i: "i < R" and j: "j < 2" and p: "on_path ch i j addr" and clk: "0 \<le> clk"
    and up: "dram_update s cmd addr clk t = Some t'"
  shows "raised (timing s Channel cmd) clk (the_node t')" "raised (timing s Rank cmd) clk (the_node (rank_node t' i))"
    "raised (timing s Bank cmd) clk (the_node (bank_node t' i j))"
    "past_kept (timing s Rank cmd) cmd (the_node (rank_node t' i))"
    "dn_prev (the_node (rank_node t' i)) = dn_prev (push_history cmd clk (the_node (rank_node t i)))"
    "\<And>k. k < R \<Longrightarrow> k \<noteq> i \<Longrightarrow> dn_prev (the_node (rank_node t' k)) = dn_prev (the_node (rank_node t k))"
proof -
  let ?t = "upd_node (\<lambda>n. n\<lparr>dn_cur_clk := clk\<rparr>) t"
  obtain t1 t2 where u: "update_state cmd addr ?t = Some t1" "update_timing s cmd addr clk t1 = Some t2"
    "the_node t' = (the_node t2)\<lparr>dn_serving_reads := dn_serving_reads (the_node t'), dn_serving_writes := dn_serving_writes (the_node t')\<rparr>"
    "children t' = children t2"
    using up by (auto simp: dram_update_def Let_def split: bind_splits)
  have le: "tree_le t t1"
    using update_state_le[of cmd addr ?t] u(1) tree_le_trans[OF tree_le_upd_node[of t "\<lambda>n. n\<lparr>dn_cur_clk := clk\<rparr>"]]
    by (simp add: node_le_def)
  note T = timed_tree_le[OF t le, unfolded timed_tree_def]
  have same: "rank_prev t1 = rank_prev t"
    using update_state_prev[of cmd addr ?t] u(1) by (simp add: same_prev_def rank_prev_def)
  have len: "length (children t) = R" "length (children t1) = R" using t[unfolded timed_tree_def] T by blast+
  have prev: "dn_prev (the_node (rank_node t1 k)) = dn_prev (the_node (rank_node t k))" if "k < R" for k
    using arg_cong[OF same, of "\<lambda>xs. xs ! k"] that len by (simp add: rank_prev_def)
  note A = on_pathD[OF p]
  have c: "issued_node s Channel cmd clk (the_node t1) (the_node t2)"
    "\<And>k. k < R \<Longrightarrow> update_timing s cmd addr clk (rank_node t1 k) = Some (rank_node t2 k)"
    using update_timing_node[of s Channel ch t1 addr clk cmd t2] T A(1) clk u(2) by auto
  have r: "issued_node s Rank cmd clk (the_node (rank_node t1 i)) (the_node (rank_node t2 i))"
    "update_timing s cmd addr clk (bank_node t1 i j) = Some (bank_node t2 i j)"
    using update_timing_node[of s Rank "int i" "rank_node t1 i" addr clk cmd "rank_node t2 i"] T A(2) clk c(2) i j by auto
  have b: "issued_node s Bank cmd clk (the_node (bank_node t1 i j)) (the_node (bank_node t2 i j))"
    using update_timing_node[of s Bank "int j" "bank_node t1 i j" addr clk cmd "bank_node t2 i j"] T A(3) clk r(2) i j by auto
  have "dn_next (the_node t') = dn_next (the_node t2)" by (subst u(3)) simp
  then show "raised (timing s Channel cmd) clk (the_node t')" "raised (timing s Rank cmd) clk (the_node (rank_node t' i))"
    "raised (timing s Bank cmd) clk (the_node (bank_node t' i j))"
    using c(1) r(1) b u(4) by (simp_all add: raised_def issued_node_def)
  show "past_kept (timing s Rank cmd) cmd (the_node (rank_node t' i))"
    "dn_prev (the_node (rank_node t' i)) = dn_prev (push_history cmd clk (the_node (rank_node t i)))"
    using r(1) u(4) prev[OF i] by (simp_all add: issued_node_def push_history_def)
  show "dn_prev (the_node (rank_node t' k)) = dn_prev (the_node (rank_node t k))" if k: "k < R" "k \<noteq> i" for k
    using update_timing_other[of s Rank "int k" "rank_node t1 k" addr "int i" cmd clk "rank_node t2 k"] T A(2) c(2)[OF k(1)] k u(4) prev[OF k(1)]
    by simp
qed

text \<open>A command that passes the check is late enough at every node down to its scope.\<close>

lemma check_passed:
  assumes t: "timed_tree s ch R t" and i: "i < R" and j: "j < 2" and p: "on_path ch i j addr"
    and c: "check cmd addr clk t = Some True"
  shows "passed clk cmd (the_node t)" "passed clk cmd (the_node (rank_node t i))"
    "scope cmd \<noteq> Rank \<Longrightarrow> passed clk cmd (the_node (bank_node t i j))"
proof -
  obtain n cs where t0: "t = Node n cs" by (cases t)
  obtain nr rs where r0: "cs ! i = Node nr rs" by (cases "cs ! i")
  obtain nb bs where b0: "rs ! j = Node nb bs" by (cases "rs ! j")
  have T: "length cs = R" "length rs = 2" "bs = []" "dn_level n = Channel" "dn_level nr = Rank" "dn_level nb = Bank"
    using t i j t0 r0 b0 by (force simp: timed_tree_def timed_node_def)+
  have ne: "cs \<noteq> []" "rs \<noteq> []" using T i j by auto
  have "scope cmd \<noteq> Channel" by (cases cmd) simp_all
  then show "passed clk cmd (the_node t)" "passed clk cmd (the_node (rank_node t i))"
    "scope cmd \<noteq> Rank \<Longrightarrow> passed clk cmd (the_node (bank_node t i j))"
    using c T i j ne on_pathD[OF p]
    by (auto simp: t0 r0 b0 child_index_def passed_def split: if_splits)
qed

end
