(* ===== verification/Ram_Trace.thy ===== *)
theory Ram_Trace
  imports Ram_Timing
begin

section \<open>The command trace keeps the distances of the timing table\<close>

text \<open>
  With \<^verbatim>\<open>record_cmd_trace = on\<close> a controller writes every command to the trace of its rank. The invariant
  relates the logged commands to the earliest clocks in the tree; it is a property of controllers in the
  sense of \<open>ctrl_property\<close>, so that it holds after every sequence of calls.
\<close>

subsection \<open>The logged commands\<close>

text \<open>A logged command: its rank, its clock, the command and its bank (none for \<open>REF\<close> and \<open>PREA\<close>).\<close>

type_synonym log_entry = "nat \<times> int \<times> ram_command \<times> int option"

definition logged :: "ram_ctrl \<Rightarrow> log_entry set" where
  "logged c = {(i, t, cmd, b). i < length (rc_cmd_traces c) \<and> (t, cmd, b) \<in> set (rc_cmd_traces c ! i)}"

definition log_clk :: "log_entry \<Rightarrow> int" where
  "log_clk = (\<lambda>(i, t, cmd, b). t)"

definition log_cmd :: "log_entry \<Rightarrow> ram_command" where
  "log_cmd = (\<lambda>(i, t, cmd, b). cmd)"

text \<open>Two commands of a channel meet at a node of the tree: always at the channel, at the rank if it is the same, and at
  the bank if it is the same.\<close>

fun same_node :: "ram_level \<Rightarrow> log_entry \<Rightarrow> log_entry \<Rightarrow> bool" where
  "same_node Channel x y \<longleftrightarrow> True"
| "same_node Rank (i, t, cmd, b) (i', t', cmd', b') \<longleftrightarrow> i = i'"
| "same_node Bank (i, t, cmd, b) (i', t', cmd', b') \<longleftrightarrow> i = i' \<and> b = b' \<and> b \<noteq> None"
| "same_node _ x y \<longleftrightarrow> False"

text \<open>How often the command of the first one was issued at the node between the two.\<close>

definition issued_between :: "log_entry set \<Rightarrow> ram_level \<Rightarrow> log_entry \<Rightarrow> log_entry \<Rightarrow> nat" where
  "issued_between L l x y = card {z \<in> L. same_node l x z \<and> log_cmd z = log_cmd x \<and> log_clk x < log_clk z \<and> log_clk z < log_clk y}"

text \<open>
  The second command comes late enough after the first one. An entry of distance 1 binds every later
  command; an entry of distance \<open>d\<close> (the four-activate window \<^verbatim>\<open>nFAW\<close> has distance 4) binds a command
  that follows at least \<open>d - 1\<close> further issues of the first one.
\<close>

definition keeps_distance :: "hbm_speed \<Rightarrow> log_entry set \<Rightarrow> log_entry \<Rightarrow> log_entry \<Rightarrow> bool" where
  "keeps_distance s L x y \<longleftrightarrow> (\<forall>l. same_node l x y \<longrightarrow> (\<forall>e\<in>set (timing s l (log_cmd x)).
     te_cmd e = log_cmd y \<and> te_dist e \<le> int (issued_between L l x y) + 1 \<longrightarrow> log_clk x + te_val e \<le> log_clk y))"

definition log_ok :: "hbm_speed \<Rightarrow> log_entry set \<Rightarrow> bool" where
  "log_ok s L \<longleftrightarrow> (\<forall>x\<in>L. \<forall>y\<in>L. (log_clk x = log_clk y \<longrightarrow> x = y) \<and> (log_clk x < log_clk y \<longrightarrow> keeps_distance s L x y))"

text \<open>What the tree knows of a logged command at the channel and at its bank.\<close>

definition entry_held :: "hbm_speed \<Rightarrow> ram_dram \<Rightarrow> log_entry \<Rightarrow> bool" where
  "entry_held s tr = (\<lambda>(i, t, cmd, b). raised (timing s Channel cmd) t (the_node tr) \<and>
     (\<forall>j. b = Some (int j) \<longrightarrow> j < 2 \<and> raised (timing s Bank cmd) t (the_node (bank_node tr i j))))"

text \<open>What a rank knows of its trace: its histories are the last clocks of each command, and the earliest clocks respect
  every entry of the table.\<close>

type_synonym trace_file = "(int \<times> ram_command \<times> int option) list"

definition clks_of :: "ram_command \<Rightarrow> trace_file \<Rightarrow> int list" where
  "clks_of cmd f = map fst (filter (\<lambda>(t, c, b). c = cmd) f)"

definition last_clks :: "nat \<Rightarrow> int list \<Rightarrow> int list" where
  "last_clks n h = take n (rev h @ replicate n (- 1))"

definition rank_held :: "hbm_speed \<Rightarrow> dram_node \<Rightarrow> trace_file \<Rightarrow> bool" where
  "rank_held s n f \<longleftrightarrow> (\<forall>cmd. dn_prev n cmd = last_clks (history_length (timing s Rank cmd)) (clks_of cmd f) \<and>
     (\<forall>e\<in>set (timing s Rank cmd). \<forall>k. k + nat (te_dist e) \<le> length (clks_of cmd f) \<longrightarrow>
        clks_of cmd f ! k + te_val e \<le> dn_next n (te_cmd e)))"

text \<open>The part of an entry that says where it can be: a rank of the channel, a bank of the rank.\<close>

definition entry_in :: "nat \<Rightarrow> log_entry \<Rightarrow> bool" where
  "entry_in R = (\<lambda>(i, t, cmd, b). i < R \<and> (b = None \<or> (\<exists>j<2. b = Some (int j))))"

definition trace_ok :: "int \<Rightarrow> ram_ctrl \<Rightarrow> bool" where
  "trace_ok B c \<longleftrightarrow> log_ok (hb_speed (rc_spec c)) (logged c) \<and>
     (\<forall>x\<in>logged c. 0 \<le> log_clk x \<and> log_clk x \<le> B \<and> entry_in (length (children (rc_channel c))) x \<and>
        entry_held (hb_speed (rc_spec c)) (rc_channel c) x) \<and>
     (\<forall>f\<in>set (rc_cmd_traces c). sorted_wrt (<) (map fst f)) \<and>
     (if rc_record_cmd_trace c
      then \<forall>i<length (rc_cmd_traces c). rank_held (hb_speed (rc_spec c)) (the_node (rank_node (rc_channel c) i)) (rc_cmd_traces c ! i)
      else logged c = {})"

lemma log_simps [simp]: "log_clk (i, t, cmd, b) = t" "log_cmd (i, t, cmd, b) = cmd"
  by (simp_all add: log_clk_def log_cmd_def)

subsection \<open>Steps that issue nothing\<close>

definition ctrl_le :: "ram_ctrl \<Rightarrow> ram_ctrl \<Rightarrow> bool" where
  "ctrl_le c c' \<longleftrightarrow> rc_spec c' = rc_spec c \<and> rc_clk c' = rc_clk c \<and> rc_cmd_traces c' = rc_cmd_traces c \<and>
     rc_record_cmd_trace c' = rc_record_cmd_trace c \<and> tree_le (rc_channel c) (rc_channel c') \<and> same_prev (rc_channel c) (rc_channel c')"

lemma ctrl_le_refl [simp]: "ctrl_le c c"
  by (simp add: ctrl_le_def)

lemma ctrl_le_trans: "ctrl_le c c' \<Longrightarrow> ctrl_le c' c'' \<Longrightarrow> ctrl_le c c''"
  by (auto simp: ctrl_le_def intro: tree_le_trans same_prev_trans)

lemma ensures_le_trans: "ctrl_le c c' \<Longrightarrow> ensures m (ctrl_le c') \<Longrightarrow> ensures m (ctrl_le c)"
  by (auto simp: ensures_def intro: ctrl_le_trans)

lemma entry_held_le:
  assumes T: "timed_tree s ch R t" and le: "tree_le t t'" and x: "entry_held s t x" "entry_in R x"
  shows "entry_held s t' x"
proof -
  obtain i u cmd b where x': "x = (i, u, cmd, b)" by (cases x)
  have i: "i < R" using x(2) by (simp add: x' entry_in_def)
  have "raised es u n' " if "raised es u n" "\<forall>cmd. dn_next n cmd \<le> dn_next n' cmd" for es n n'
    using that by (fastforce simp: raised_def intro: order_trans)
  then show ?thesis
    using x(1) nexts_le[OF T le i, of 0] nexts_le[OF T le i] by (auto simp: x' entry_held_def)
qed

lemma rank_held_le:
  assumes "rank_held s n f" "dn_prev n' = dn_prev n" "\<And>cmd. dn_next n cmd \<le> dn_next n' cmd"
  shows "rank_held s n' f"
  using assms(1) unfolding rank_held_def assms(2) by (meson assms(3) order_trans)

lemma rank_prev_nth:
  assumes "rank_prev t' = rank_prev t" "i < length (children t)"
  shows "dn_prev (the_node (rank_node t' i)) = dn_prev (the_node (rank_node t i))"
proof -
  have "length (children t') = length (children t)" using arg_cong[OF assms(1), of length] by (simp add: rank_prev_def)
  then show ?thesis using arg_cong[OF assms(1), of "\<lambda>xs. xs ! i"] assms(2) by (simp add: rank_prev_def)
qed

lemma trace_ok_le:
  assumes T: "timed_tree (hb_speed (rc_spec c)) ch R (rc_channel c)" "length (rc_cmd_traces c) = R" and le: "ctrl_le c c'" and ok: "trace_ok B c"
  shows "trace_ok B c'"
proof -
  have t: "tree_le (rc_channel c) (rc_channel c')" "rc_spec c' = rc_spec c" "logged c' = logged c" "rc_cmd_traces c' = rc_cmd_traces c"
    "rc_record_cmd_trace c' = rc_record_cmd_trace c" "rank_prev (rc_channel c') = rank_prev (rc_channel c)"
    using le by (auto simp: ctrl_le_def logged_def same_prev_def)
  have R: "length (children (rc_channel c)) = R" "length (children (rc_channel c')) = R"
    using T tree_leD(2)[OF t(1)] by (auto simp: timed_tree_def)
  have held: "rank_held (hb_speed (rc_spec c)) (the_node (rank_node (rc_channel c') i)) (rc_cmd_traces c ! i)"
    if "i < R" "rank_held (hb_speed (rc_spec c)) (the_node (rank_node (rc_channel c) i)) (rc_cmd_traces c ! i)" for i
    by (rule rank_held_le[OF that(2) rank_prev_nth[OF t(6)] nexts_le(2)[OF T(1) t(1) that(1), of 0]]) (use R that in simp_all)
  show ?thesis
    using ok entry_held_le[OF T(1) t(1)] held T(2) by (auto simp: trace_ok_def t(2-5) R)
qed

lemma enqueue_le: "ctrl_le c (snd (enqueue req c))"
  by (cases "get_queue (rq_type req)") (auto simp: enqueue_def Let_def ctrl_le_def)

lemma put_queue_le: "ctrl_le c (put_queue k q c)"
  by (cases k) (simp_all add: ctrl_le_def)

lemma add_stat_le: "ctrl_le c (add_stat upd v c)"
  by (simp add: add_stat_def ctrl_le_def)

lemma bump_stat_le: "ensures (bump_stat get upd i c) (ctrl_le c)"
  by (auto simp: bump_stat_def ensures_bind ctrl_le_def intro!: ensures_any)

lemma serve_le: "ensures (update_serving_requests addr delta clk (rc_channel c)) (\<lambda>t. ctrl_le c (c\<lparr>rc_channel := t\<rparr>))"
  using update_serving_le[of addr delta clk "rc_channel c"] update_serving_prev[of addr delta clk "rc_channel c"]
  by (auto simp: ensures_def ctrl_le_def)

lemma count_row_le: "ensures (count_row ty hit opn core b c) (ctrl_le c)"
proof -
  have "ensures (bump_stat g u i c \<bind> (\<lambda>c'. bump_stat g' u' i' (add_stat u'' v c'))) (ctrl_le c)" for g u i g' u' i' u'' v
    unfolding ensures_bind
    by (rule ensures_mono[OF bump_stat_le])
      (rule ensures_le_trans[OF ctrl_le_trans[OF _ add_stat_le] bump_stat_le])
  then show ?thesis unfolding count_row_def by simp
qed

lemma first_command_le: "ensures (first_command req b c) (ctrl_le c)"
proof (cases "rq_type req = READ \<or> rq_type req = WRITE")
  case True
  have count: "ensures (count_row (rq_type req) hit opn (rq_coreid req) b c1) (\<lambda>x. ctrl_le c (if X then add_stat u v x else add_stat u' v x))"
    if "ctrl_le c c1" for hit opn c1 X u u' v
    by (rule ensures_mono[OF ensures_le_trans[OF that count_row_le]]) (simp add: ctrl_le_trans[OF _ add_stat_le])
  show ?thesis
    unfolding first_command_def if_P[OF True] Let_def ensures_bind
    by (rule ensures_mono[OF serve_le], rule ensures_any, rule ensures_any) (simp only: ensures_simps count)
qed (simp add: first_command_def)

lemma finish_request_le: "ensures (finish_request k i c) (ctrl_le c)"
proof -
  have "ctrl_le c (c\<lparr>rc_pending := p\<rparr>)" for p by (simp add: ctrl_le_def)
  then show ?thesis
    unfolding finish_request_def Let_def ensures_bind
    by (auto simp: ensures_def intro: ctrl_le_trans[OF _ put_queue_le] dest!: serve_le[unfolded ensures_def, rule_format] split: bind_splits)
qed

lemma serve_completed_le: "ensures (serve_completed c) (\<lambda>(done, c'). ctrl_le c c')"
proof -
  have "ensures (update_serving_requests addr delta clk ch) (\<lambda>t. tree_le ch t \<and> same_prev ch t)" for addr delta clk ch
    using update_serving_le[of addr delta clk ch] update_serving_prev[of addr delta clk ch] by (auto simp: ensures_def)
  then show ?thesis
    by (auto simp: serve_completed_def ensures_bind Let_def ctrl_le_def add_stat_def split: list.splits elim!: ensures_mono)
qed

lemma refresh_target_le: "ensures (refresh_target rank bank sa c) (ctrl_le c)"
  using enqueue_le by (auto simp: refresh_target_def Let_def ensures_bind split: prod.splits) (metis snd_conv)

lemma refresh_due_le: "ensures (refresh_due i c) (ctrl_le c)"
proof -
  have p: "ctrl_le c' (c'\<lparr>rc_refresh := r\<rparr>)" for c' r by (simp add: ctrl_le_def)
  have "ensures (inject_bank_refresh i c) (ctrl_le c)"
    unfolding inject_bank_refresh_def Let_def ensures_bind ensures_guard
    by (rule impI, rule ensures_mono[OF refresh_target_le], rule ensures_any) (simp add: ctrl_le_trans[OF _ p])
  then show ?thesis by (auto simp: refresh_due_def ensures_bind intro!: ensures_any)
qed

lemma tick_ref_le: "ensures (tick_ref c) (ctrl_le c)"
proof -
  let ?c = "c\<lparr>rc_refresh := (rc_refresh c)\<lparr>rf_clk := rf_clk (rc_refresh c) + 1\<rparr>\<rparr>"
  have le: "ctrl_le c ?c" by (simp add: ctrl_le_def)
  have "ensures (foldM refresh_due is ?c) (ctrl_le c)" for "is"
    by (rule foldM_ensures[where I = "ctrl_le c", OF le]) (rule ensures_le_trans[OF _ refresh_due_le])
  then show ?thesis by (simp add: tick_ref_def Let_def)
qed

lemma choose_mode_le: "ctrl_le c (choose_mode c)"
  by (simp add: choose_mode_def ctrl_le_def)

subsection \<open>Issuing a command\<close>

lemma bank_entries_scope: "e \<in> set (timing s Bank cmd) \<Longrightarrow> scope (te_cmd e) \<noteq> Rank"
  by (cases cmd) (auto simp: timing_def bank_pushes_def push_def Let_def)

text \<open>Only the table of the ranks has entries that span several commands.\<close>

lemma single_entries:
  assumes "e \<in> set (timing s l cmd)" "l \<noteq> Rank"
  shows "te_dist e = 1"
  using assms by (auto simp: timing_def channel_pushes_def bank_pushes_def push_def Let_def split: ram_level.splits)

lemma passed_next: "passed clk cmd n \<Longrightarrow> 0 \<le> clk \<Longrightarrow> dn_next n cmd \<le> clk"
  by (auto simp: passed_def)

lemma raised_passed: "raised es t n \<Longrightarrow> passed clk cmd n \<Longrightarrow> 0 \<le> clk \<Longrightarrow> e \<in> set es \<Longrightarrow> te_dist e = 1 \<Longrightarrow> te_cmd e = cmd \<Longrightarrow> t + te_val e \<le> clk"
  by (force simp: raised_def dest: passed_next)

lemma sorted_above:
  fixes h :: "int list"
  assumes "sorted_wrt (<) h" "k < length h"
  shows "{u \<in> set h. h ! k < u} = set (drop (Suc k) h)"
proof (intro set_eqI iffI)
  fix u assume "u \<in> {u \<in> set h. h ! k < u}"
  then obtain m where m: "m < length h" "u = h ! m" "h ! k < h ! m" by (auto simp: in_set_conv_nth)
  then have "\<not> m < k" "m \<noteq> k" using sorted_wrt_nth_less[OF assms(1), of m k] assms(2) by auto
  then have "u = drop (Suc k) h ! (m - Suc k)" "m - Suc k < length (drop (Suc k) h)" using m assms(2) by simp_all
  then show "u \<in> set (drop (Suc k) h)" by (metis nth_mem)
next
  fix u assume "u \<in> set (drop (Suc k) h)"
  then obtain m where m: "m < length h - Suc k" "u = h ! (Suc k + m)" by (auto simp: in_set_conv_nth)
  then show "u \<in> {u \<in> set h. h ! k < u}" using sorted_wrt_nth_less[OF assms(1), of k "Suc k + m"] assms(2) by auto
qed

text \<open>The commands between a logged one and the present clock are those that follow it in the trace of its rank.\<close>

lemma issued_since:
  assumes i: "i < length (rc_cmd_traces c)" and srt: "sorted_wrt (<) (map fst (rc_cmd_traces c ! i))"
    and inj: "\<forall>x\<in>logged c. \<forall>y\<in>logged c. log_clk x = log_clk y \<longrightarrow> x = y" and now: "\<forall>x\<in>logged c. log_clk x < log_clk y"
    and k: "k < length (clks_of cmd (rc_cmd_traces c ! i))"
  shows "issued_between (logged c) Rank (i, clks_of cmd (rc_cmd_traces c ! i) ! k, cmd, b) y =
    length (clks_of cmd (rc_cmd_traces c ! i)) - Suc k"
proof -
  let ?f = "rc_cmd_traces c ! i" and ?h = "clks_of cmd (rc_cmd_traces c ! i)"
  let ?S = "{z \<in> logged c. same_node Rank (i, ?h ! k, cmd, b) z \<and> log_cmd z = cmd \<and> ?h ! k < log_clk z \<and> log_clk z < log_clk y}"
  have sh: "sorted_wrt (<) ?h" using srt by (simp add: clks_of_def sorted_wrt_map sorted_wrt_filter)
  then have dist: "distinct ?h" by (simp add: strict_sorted_iff)
  have "log_clk ` ?S = {u \<in> set ?h. ?h ! k < u}"
  proof (intro set_eqI iffI)
    fix u assume "u \<in> log_clk ` ?S"
    then show "u \<in> {u \<in> set ?h. ?h ! k < u}" by (force simp: logged_def clks_of_def)
  next
    fix u assume u: "u \<in> {u \<in> set ?h. ?h ! k < u}"
    then obtain b' where "(u, cmd, b') \<in> set ?f" by (auto simp: clks_of_def)
    then have z: "(i, u, cmd, b') \<in> logged c" using i by (simp add: logged_def)
    then have "(i, u, cmd, b') \<in> ?S" using u now by auto
    then show "u \<in> log_clk ` ?S" by (rule rev_image_eqI) simp
  qed
  then have img: "log_clk ` ?S = set (drop (Suc k) ?h)" unfolding sorted_above[OF sh k] .
  have "inj_on log_clk ?S" using inj by (intro inj_onI) blast
  then have "card ?S = card (log_clk ` ?S)" by (simp add: card_image)
  also have "\<dots> = length (drop (Suc k) ?h)" unfolding img by (rule distinct_card) (rule distinct_drop[OF dist])
  finally show ?thesis by (simp add: issued_between_def)
qed

text \<open>A command that passes the check comes late enough after every logged one.\<close>

lemma held_distance:
  assumes T: "timed_tree (hb_speed (rc_spec c)) ch R (rc_channel c)" "length (rc_cmd_traces c) = R" and ok: "trace_ok B c" and B: "B < clk"
    and x: "x \<in> logged c" and i: "i < R" and j: "j < 2" and p: "on_path ch i j addr"
    and c: "check cmd addr clk (rc_channel c) = Some True" and clk: "0 \<le> clk" and b: "b = None \<or> b = Some (int j)"
  shows "keeps_distance (hb_speed (rc_spec c)) (logged c) x (i, clk, cmd, b)"
  unfolding keeps_distance_def
proof (intro allI ballI impI, elim conjE)
  let ?s = "hb_speed (rc_spec c)" and ?tr = "rc_channel c" and ?y = "(i, clk, cmd, b) :: log_entry"
  fix l e
  obtain i' u cmd' b' where x': "x = (i', u, cmd', b')" by (cases x)
  note C = check_passed[OF T(1) i j p c]
  have held: "entry_held ?s ?tr x" "rc_record_cmd_trace c" using ok x by (auto simp: trace_ok_def split: if_splits)
  assume l: "same_node l x ?y" and e: "e \<in> set (timing ?s l (log_cmd x))" "te_cmd e = log_cmd ?y"
    and dist: "te_dist e \<le> int (issued_between (logged c) l x ?y) + 1"
  show "log_clk x + te_val e \<le> log_clk ?y"
  proof (cases l)
    case Channel
    then show ?thesis
      using held(1) raised_passed[OF _ C(1) clk, of "timing ?s Channel cmd'" u e] e single_entries[OF e(1)] by (simp add: x' entry_held_def)
  next
    case Bank
    then have "scope cmd \<noteq> Rank" using bank_entries_scope e by (metis log_simps(2))
    then show ?thesis
      using held(1) raised_passed[OF _ C(3) clk, of "timing ?s Bank cmd'" u e] e single_entries[OF e(1)] Bank l b
      by (auto simp: x' entry_held_def)
  next
    case Rank
    let ?f = "rc_cmd_traces c ! i" and ?h = "clks_of cmd' (rc_cmd_traces c ! i)"
    have i': "i' = i" using l Rank by (simp add: x')
    have fi: "i < length (rc_cmd_traces c)" using T(2) i by simp
    have "(u, cmd', b') \<in> set ?f" using x by (simp add: x' i' logged_def)
    then have "u \<in> set ?h" by (force simp: clks_of_def)
    then obtain k where k: "k < length ?h" "?h ! k = u" by (auto simp: in_set_conv_nth)
    have "issued_between (logged c) Rank (i, ?h ! k, cmd', b') ?y = length ?h - Suc k"
      by (rule issued_since[OF fi _ _ _ k(1)]) (use ok B fi in \<open>fastforce simp: trace_ok_def log_ok_def\<close>)+
    then have "te_dist e \<le> int (length ?h - Suc k) + 1" using dist by (simp add: Rank x' i' k(2))
    then have "k + nat (te_dist e) \<le> length ?h" using k(1) by linarith
    moreover have "rank_held ?s (the_node (rank_node ?tr i)) ?f" using ok held(2) fi by (simp add: trace_ok_def)
    ultimately have "u + te_val e \<le> dn_next (the_node (rank_node ?tr i)) (te_cmd e)"
      using e(1) k(2) unfolding rank_held_def by (simp add: Rank x') blast
    then show ?thesis using passed_next[OF C(2) clk] e(2) by (simp add: x')
  qed (use l in \<open>simp_all add: x'\<close>)
qed

text \<open>Issuing keeps what a rank knows.\<close>

lemma last_clks_snoc: "last_clks n (h @ [u]) = (if n = 0 then [] else u # butlast (last_clks n h))"
  by (cases n) (simp_all add: last_clks_def butlast_take del: take_append)

lemma last_clks_nth:
  assumes "0 < d" "d \<le> length h" "d \<le> n"
  shows "last_clks n h ! (d - 1) = h ! (length h - d)"
proof -
  have "d - 1 < length h" using assms(1,2) by linarith
  then show ?thesis using assms by (simp add: last_clks_def nth_append rev_nth del: take_append)
qed

lemma clks_of_snoc: "clks_of c (f @ [(u, cmd, b)]) = (if c = cmd then clks_of c f @ [u] else clks_of c f)"
  by (simp add: clks_of_def)

lemma rank_held_issue:
  assumes H: "rank_held s n f" and p: "dn_prev n' = dn_prev (push_history cmd clk n)" and past: "past_kept (timing s Rank cmd) cmd n'"
    and le: "\<And>c. dn_next n c \<le> dn_next n' c" and pos: "0 \<le> clk" "\<forall>u\<in>set (map fst f). 0 \<le> u"
  shows "rank_held s n' (f @ [(clk, cmd, b)])"
  unfolding rank_held_def
proof (intro allI conjI ballI impI)
  fix c
  let ?H = "history_length (timing s Rank c)" and ?f = "f @ [(clk, cmd, b)]"
  have old: "dn_prev n c = last_clks ?H (clks_of c f)" using H by (simp add: rank_held_def)
  have l0: "last_clks m h = [] \<longleftrightarrow> m = 0" for m h by (cases m) (auto simp: last_clks_def)
  show new: "dn_prev n' c = last_clks ?H (clks_of c ?f)"
    by (cases "c = cmd"; use old in \<open>simp add: l0 p push_history_def clks_of_snoc last_clks_snoc\<close>)
  fix e k assume e: "e \<in> set (timing s Rank c)" and k: "k + nat (te_dist e) \<le> length (clks_of c ?f)"
  show "clks_of c ?f ! k + te_val e \<le> dn_next n' (te_cmd e)"
  proof (cases "k + nat (te_dist e) \<le> length (clks_of c f)")
    case True
    have d: "1 \<le> te_dist e" by (rule timing_entries(2)[OF e])
    have "clks_of c f ! k + te_val e \<le> dn_next n (te_cmd e)" using H e True by (simp add: rank_held_def)
    moreover have "clks_of c ?f ! k = clks_of c f ! k" using True d by (auto simp: clks_of_snoc nth_append)
    ultimately show ?thesis using le[of "te_cmd e"] by simp
  next
    case False
    then have c: "c = cmd" and eq: "k + nat (te_dist e) = length (clks_of c ?f)" using k by (auto simp: clks_of_snoc split: if_splits)
    have d: "1 \<le> te_dist e" "nat (te_dist e) \<le> ?H" using timing_entries(2)[OF e] history_long_enough[OF e] by linarith+
    have nth: "dn_prev n' c ! (nat (te_dist e) - 1) = clks_of c ?f ! (length (clks_of c ?f) - nat (te_dist e))"
      unfolding new by (rule last_clks_nth) (use d eq in auto)
    have at: "dn_prev n' cmd ! nat (te_dist e - 1) = clks_of c ?f ! k"
    proof -
      have "length (clks_of c ?f) - nat (te_dist e) = k" "nat (te_dist e) - 1 = nat (te_dist e - 1)" using eq by linarith+
      then show ?thesis using nth unfolding c by (simp only:)
    qed
    have "clks_of c ?f ! k \<in> set (map fst ?f)"
    proof -
      have "clks_of c ?f ! k \<in> set (clks_of c ?f)" using eq d(1) by (intro nth_mem) auto
      then show ?thesis by (auto simp: clks_of_def simp del: filter_append map_append)
    qed
    then have "0 \<le> clks_of c ?f ! k" using pos by auto
    then show ?thesis using past e unfolding c past_kept_def by (metis at c)
  qed
qed

lemma logged_append:
  assumes "i < length (rc_cmd_traces c)"
  shows "logged (c\<lparr>rc_channel := t', rc_rowtable := tab, rc_cmd_traces := (rc_cmd_traces c)[i := rc_cmd_traces c ! i @ [(t, cmd, b)]]\<rparr>) =
    insert (i, t, cmd, b) (logged c)"
  using assms by (auto simp: logged_def nth_list_update split: if_splits)

definition timed_ctrl :: "int \<Rightarrow> nat \<Rightarrow> ram_ctrl \<Rightarrow> bool" where
  "timed_ctrl ch R c \<longleftrightarrow> timed_tree (hb_speed (rc_spec c)) ch R (rc_channel c) \<and> length (rc_cmd_traces c) = R \<and> 0 \<le> rc_clk c"

lemma timed_ctrl_le: "timed_ctrl ch R c \<Longrightarrow> ctrl_le c c' \<Longrightarrow> timed_ctrl ch R c'"
  by (auto simp: timed_ctrl_def ctrl_le_def intro: timed_tree_le)

lemma trace_ok_ctrl_le: "timed_ctrl ch R c \<Longrightarrow> ctrl_le c c' \<Longrightarrow> trace_ok B c \<Longrightarrow> trace_ok B c'"
  using trace_ok_le(1) by (auto simp: timed_ctrl_def)

text \<open>A later command does not change the distances of the earlier ones.\<close>

lemma keeps_distance_later:
  assumes "log_clk y \<le> log_clk z"
  shows "keeps_distance s (insert z L) x y = keeps_distance s L x y"
proof -
  have "issued_between (insert z L) l x y = issued_between L l x y" for l
    unfolding issued_between_def using assms by (intro arg_cong[where f = card]) auto
  then show ?thesis by (simp add: keeps_distance_def)
qed

lemma log_ok_insert:
  assumes L: "log_ok s L" and lt: "\<And>x. x \<in> L \<Longrightarrow> log_clk x < log_clk z" and d: "\<And>x. x \<in> L \<Longrightarrow> keeps_distance s L x z"
  shows "log_ok s (insert z L)"
  unfolding log_ok_def
proof (intro ballI)
  fix x y assume x: "x \<in> insert z L" and y: "y \<in> insert z L"
  then have "log_clk y \<le> log_clk z" using lt[of y] by (cases "y = z") simp_all
  note K = keeps_distance_later[OF this, of s L x]
  show "(log_clk x = log_clk y \<longrightarrow> x = y) \<and> (log_clk x < log_clk y \<longrightarrow> keeps_distance s (insert z L) x y)"
    unfolding K
  proof (cases "x = z")
    case True
    then show "(log_clk x = log_clk y \<longrightarrow> x = y) \<and> (log_clk x < log_clk y \<longrightarrow> keeps_distance s L x y)"
      using y lt[of y] by auto
  next
    case False
    then have xL: "x \<in> L" using x by simp
    show "(log_clk x = log_clk y \<longrightarrow> x = y) \<and> (log_clk x < log_clk y \<longrightarrow> keeps_distance s L x y)"
    proof (cases "y = z")
      case True
      then show ?thesis using lt[OF xL] d[OF xL] by simp
    next
      case False
      then have "y \<in> L" using y by simp
      then show ?thesis using L xL by (simp add: log_ok_def)
    qed
  qed
qed

lemma issue_cmd_trace:
  assumes T: "timed_ctrl ch R c" and ok: "trace_ok B c" and B: "B < rc_clk c"
    and i: "i < R" and j: "j < 2" and p: "on_path ch i j addr"
  shows "ensures (issue_cmd cmd addr c) (\<lambda>c'. trace_ok (rc_clk c) c' \<and> timed_ctrl ch R c')"
proof (cases "issue_cmd cmd addr c")
  case (Some c')
  let ?s = "hb_speed (rc_spec c)" and ?t = "rc_channel c"
  have tt: "timed_tree ?s ch R ?t" "length (rc_cmd_traces c) = R" "0 \<le> rc_clk c" using T by (auto simp: timed_ctrl_def)
  have chk: "check cmd addr (rc_clk c) ?t = Some True"
    using Some by (auto simp: issue_cmd_def is_ready_cmd_def guard_def split: bind_splits if_splits)
  obtain t' tab where up: "dram_update ?s cmd addr (rc_clk c) ?t = Some t'"
    and c': "c' = (if rc_record_cmd_trace c then c\<lparr>rc_channel := t', rc_rowtable := tab,
        rc_cmd_traces := (rc_cmd_traces c)[i := rc_cmd_traces c ! i @ [(rc_clk c, cmd, if cmd = PREA \<or> cmd = REF then None else Some (int j))]]\<rparr>
      else c\<lparr>rc_channel := t', rc_rowtable := tab\<rparr>)"
    using Some on_pathD(2,3)[OF p] tt(2) i
    by (auto simp: issue_cmd_def Let_def guard_def split: bind_splits if_splits)
  have le: "tree_le ?t t'" using dram_update_le[of ?s cmd addr "rc_clk c" ?t] up by simp
  note T' = timed_tree_le[OF tt(1) le] and U = update_raises[OF tt(1) i j p tt(3) up]
  let ?b = "if cmd = PREA \<or> cmd = REF then None else Some (int j)" and ?f = "rc_cmd_traces c"
  let ?x = "(i, rc_clk c, cmd, ?b) :: log_entry"
  have tc: "timed_ctrl ch R c'" using T' tt(2,3) by (simp add: c' timed_ctrl_def)
  show ?thesis
  proof (cases "rc_record_cmd_trace c")
    case False
    then have "logged c = {}" "logged c' = {}" using ok by (auto simp: trace_ok_def c' logged_def)
    then show ?thesis using Some ok tc False by (simp add: trace_ok_def log_ok_def c')
  next
    case True
    have R: "length (children ?t) = R" "length (children t') = R" using tt(1) T' by (auto simp: timed_tree_def)
    have old: "0 \<le> log_clk x" "log_clk x < rc_clk c" "entry_in R x" "entry_held ?s t' x" "keeps_distance ?s (logged c) x ?x"
      if "x \<in> logged c" for x
    proof -
      have x: "0 \<le> log_clk x" "log_clk x \<le> B" "entry_in R x" "entry_held ?s ?t x" using ok that R by (auto simp: trace_ok_def)
      then show "0 \<le> log_clk x" "log_clk x < rc_clk c" "entry_in R x" using B by auto
      show "entry_held ?s t' x" by (rule entry_held_le[OF tt(1) le x(4,3)])
      show "keeps_distance ?s (logged c) x ?x" by (rule held_distance[OF tt(1,2) ok B that i j p chk tt(3)]) simp
    qed
    have new: "entry_in R ?x" "entry_held ?s t' ?x"
      using U(1,3) i j by (auto simp: entry_in_def entry_held_def)
    have log': "logged c' = insert ?x (logged c)"
      using logged_append[of i c] tt(2) i True by (simp add: c')
    have L: "log_ok ?s (logged c)" using ok by (simp add: trace_ok_def)
    have "log_ok ?s (logged c')"
      unfolding log' by (rule log_ok_insert[OF L]) (use old(2,5) in simp_all)
    moreover have "sorted_wrt (<) (map fst f)" if "f \<in> set (rc_cmd_traces c')" for f
    proof -
      have cs: "rc_cmd_traces c' = ?f[i := ?f ! i @ [(rc_clk c, cmd, ?b)]]" using True by (simp add: c')
      have f: "f \<in> set ?f \<or> f = ?f ! i @ [(rc_clk c, cmd, ?b)]"
        using subsetD[OF set_update_subset_insert that[unfolded cs]] by blast
      have srt: "sorted_wrt (<) (map fst g)" if "g \<in> set ?f" for g using ok that by (simp add: trace_ok_def)
      have lt: "u < rc_clk c" if u: "u \<in> set (map fst (?f ! i))" for u
      proof -
        obtain c1 b1 where "(u, c1, b1) \<in> set (?f ! i)" using u by auto
        then have "(i, u, c1, b1) \<in> logged c" using i tt(2) by (simp add: logged_def)
        from old(2)[OF this] show ?thesis by simp
      qed
      show ?thesis using f
      proof
        assume "f = ?f ! i @ [(rc_clk c, cmd, ?b)]"
        then show ?thesis using lt srt[of "?f ! i"] i tt(2) by (simp add: sorted_wrt_append)
      qed (rule srt)
    qed
    moreover have "rank_held ?s (the_node (rank_node t' k)) (rc_cmd_traces c' ! k)" if k: "k < R" for k
    proof -
      have H: "rank_held ?s (the_node (rank_node ?t k)) (?f ! k)" using ok True k tt(2) by (simp add: trace_ok_def)
      note grow = nexts_le(2)[OF tt(1) le k, of 0]
      show ?thesis
      proof (cases "k = i")
        case False
        have "rank_held ?s (the_node (rank_node t' k)) (?f ! k)" by (rule rank_held_le[OF H U(6)[OF k False] grow]) simp
        then show ?thesis using True False by (simp add: c')
      next
        case k_i: True
        have "\<forall>u\<in>set (map fst (?f ! i)). 0 \<le> u"
        proof
          fix u assume "u \<in> set (map fst (?f ! i))"
          then obtain c1 b1 where "(u, c1, b1) \<in> set (?f ! i)" by auto
          then have "(i, u, c1, b1) \<in> logged c" using i tt(2) by (simp add: logged_def)
          from old(1)[OF this] show "0 \<le> u" by simp
        qed
        then have "rank_held ?s (the_node (rank_node t' i)) (?f ! i @ [(rc_clk c, cmd, ?b)])"
          using rank_held_issue[OF H[unfolded k_i] U(5,4) _ tt(3)] grow[unfolded k_i] by simp
        then show ?thesis using True k_i i tt(2) by (simp add: c')
      qed
    qed
    ultimately have "trace_ok (rc_clk c) c'"
      unfolding trace_ok_def log' using old new True R tt(2,3) by (auto simp: c' less_imp_le)
    then show ?thesis using Some tc by simp
  qed
qed simp

subsection \<open>One clock\<close>

lemma serve_head_trace:
  assumes T: "timed_ctrl ch R c" and ok: "trace_ok B c" and B: "B < rc_clk c"
    and i: "i < R" and j: "j < 2" and p: "on_path ch i j (rq_addr_vec (the_queue k c ! h))"
  shows "ensures (serve_head k h c) (trace_ok (rc_clk c))"
proof -
  let ?q = "the_queue k c ! h"
  have bump: "ensures (if b then bump_stat g u n c else if b' then bump_stat g' u' n c else Some c) (ctrl_le c)" for b b' g u g' u' n
    using bump_stat_le by simp
  have first: "ensures (if b then first_command ?q n (put_queue k q c1) else Some c1) (ctrl_le c)" if "ctrl_le c c1" for b n q c1
    using ensures_le_trans[OF ctrl_le_trans[OF that put_queue_le] first_command_le] that by simp
  have issue: "ensures (issue_cmd cmd (rq_addr_vec ?q) c2) (\<lambda>c3. ensures (if X then Some c3 else finish_request k h c3) (trace_ok (rc_clk c)))"
    if le: "ctrl_le c c2" for cmd c2 X
  proof -
    have clk: "rc_clk c2 = rc_clk c" using le by (simp add: ctrl_le_def)
    show ?thesis
    proof (rule ensures_mono[OF issue_cmd_trace[OF timed_ctrl_le[OF T le] trace_ok_ctrl_le[OF T le ok] _ i j p, unfolded clk, OF B]])
      fix c3 assume c3: "trace_ok (rc_clk c) c3 \<and> timed_ctrl ch R c3"
      then have "ensures (finish_request k h c3) (trace_ok (rc_clk c))"
        by (intro ensures_mono[OF finish_request_le]) (auto intro: trace_ok_ctrl_le)
      then show "ensures (if X then Some c3 else finish_request k h c3) (trace_ok (rc_clk c))" using c3 by simp
    qed
  qed
  show ?thesis
    unfolding serve_head_def Let_def ensures_bind
    by (rule ensures_any, rule ensures_any, rule ensures_mono[OF bump], rule ensures_mono[OF first], assumption, rule ensures_any,
        rule issue)
qed

lemma schedule_trace:
  assumes inv: "ctrl_inv ch R K rclk D c" and ok: "trace_ok B c" and B: "B < rc_clk c"
  shows "ensures (schedule c) (trace_ok (rc_clk c))"
proof -
  note I = ctrl_invD[OF inv]
  have T: "timed_ctrl ch R c" using I by (simp add: timed_ctrl_def tree_ok_timed consts_ok_def)
  show ?thesis
    by (rule schedule_cases[OF inv])
      (use ok B serve_head_trace[OF T ok B] in \<open>auto simp: trace_ok_def\<close>)
qed

lemma ctrl_tick_trace:
  assumes ok: "ctrl_ok ch R K c" and tr: "trace_ok (rc_clk c) c"
  shows "ensures (ctrl_tick c) (\<lambda>(completed, c'). trace_ok (rc_clk c') c')"
proof -
  let ?c = "count_queues (c\<lparr>rc_clk := rc_clk c + 1\<rparr>)"
  have inv: "ctrl_inv ch R K (rc_clk c) (rc_clk c + 1) ?c" "rc_clk ?c = rc_clk c + 1"
    using next_clock_inv[OF ok] by (simp_all add: count_queues_def)
  obtain cb c1 where c1: "serve_completed ?c = Some (cb, c1)" "ctrl_inv ch R K (rc_clk c) (rc_clk c + 1) c1" "rc_clk c1 = rc_clk c + 1"
    using serve_completed_runs[OF inv(1)] inv by (auto simp: runs_iff)
  obtain c2 where c2: "tick_ref c1 = Some c2" "ctrl_inv ch R K (rc_clk c2) (rc_clk c2) c2" "rc_clk c2 = rc_clk c + 1"
    using tick_ref_runs[of ch R K c1] c1 by (auto simp: runs_iff)
  have "ctrl_le ?c c1" using serve_completed_le[of ?c] c1(1) by simp
  moreover have "ctrl_le c1 c2" using tick_ref_le[of c1] c2(1) by simp
  ultimately have le: "ctrl_le ?c (choose_mode c2)" using ctrl_le_trans choose_mode_le by blast
  have T: "timed_ctrl ch R ?c" using ctrl_invD[OF inv(1)] by (simp add: timed_ctrl_def tree_ok_timed consts_ok_def)
  have same: "logged ?c = logged c" "rc_spec ?c = rc_spec c" "rc_channel ?c = rc_channel c" "rc_cmd_traces ?c = rc_cmd_traces c"
    "rc_record_cmd_trace ?c = rc_record_cmd_trace c" by (simp_all add: count_queues_def add_stat_def logged_def)
  have "trace_ok (rc_clk c) ?c" using tr unfolding trace_ok_def same .
  then have tr2: "trace_ok (rc_clk c) (choose_mode c2)" by (rule trace_ok_ctrl_le[OF T le])
  have inv2: "ctrl_inv ch R K (rc_clk c2) (rc_clk c2) (choose_mode c2)" using c2(2) by (simp add: choose_mode_inv)
  have lt: "rc_clk c < rc_clk (choose_mode c2)" using c2(3) by (simp add: choose_mode_inv)
  have "runs (schedule (choose_mode c2)) (\<lambda>c'. ctrl_ok ch R K c' \<and> rc_clk c' = rc_clk c2 \<and> rc_spec c' = rc_spec c2)"
    using schedule_refresh_runs[of ch R K "choose_mode c2"] schedule_access_runs[of ch R K "choose_mode c2"] c2(2)
    by (cases "rc_otherq c2 = []") (simp_all add: choose_mode_inv)
  then obtain c3 where c3: "schedule (choose_mode c2) = Some c3" "rc_clk c3 = rc_clk c2" by (auto simp: runs_iff)
  have "trace_ok (rc_clk c3) c3"
    using schedule_trace[OF inv2 tr2 lt] c3 by (simp add: choose_mode_inv)
  then show ?thesis
    using c1(1) c2(1) c3(1) by (simp add: ctrl_tick_def Let_def)
qed

lemma logged_refresh: "logged (c\<lparr>rc_refresh := r\<rparr>) = logged c"
  by (simp add: logged_def)

interpretation traced: ctrl_property "\<lambda>k c. trace_ok (rc_clk c) c"
proof
  fix k :: nat and R K c b hot and req :: ram_request
  show "ensures (ctrl_tick c) (\<lambda>(_, c'). trace_ok (rc_clk c') c')" if "ctrl_ok (int k) R K c" "trace_ok (rc_clk c) c"
    using ctrl_tick_trace[OF that] by simp
  show "trace_ok (rc_clk (snd (enqueue req c))) (snd (enqueue req c))" if "trace_ok (rc_clk c) c"
  proof -
    have "rc_spec (snd (enqueue req c)) = rc_spec c" "rc_channel (snd (enqueue req c)) = rc_channel c"
      "rc_clk (snd (enqueue req c)) = rc_clk c" "rc_cmd_traces (snd (enqueue req c)) = rc_cmd_traces c"
      "rc_record_cmd_trace (snd (enqueue req c)) = rc_record_cmd_trace c"
      by (cases "get_queue (rq_type req)"; simp add: enqueue_def Let_def)+
    moreover from this have "logged (snd (enqueue req c)) = logged c" by (simp add: logged_def)
    ultimately show ?thesis using that by (simp add: trace_ok_def)
  qed
  show "ensures (setBankRef b hot c) (\<lambda>c'. trace_ok (rc_clk c') c')" if "ctrl_ok (int k) R K c" "trace_ok (rc_clk c) c"
    using that(2) by (auto simp: setBankRef_def set_ref_interval_def ensures_bind Let_def trace_ok_def logged_refresh intro!: ensures_any)
qed

text \<open>A new controller has empty traces and empty histories.\<close>

lemma RamDRAM_ranks:
  assumes "RamDRAM spec Channel k = Some t" "i < length (children t)"
  shows "dn_prev (the_node (rank_node t i)) cmd = replicate (history_length (timing (hb_speed spec) Rank cmd)) (- 1)"
proof -
  have node: "dn_prev (the_node r) cmd = replicate (history_length (timing (hb_speed spec) Rank cmd)) (- 1)"
    if "RamDRAM spec Rank j = Some r" for j r
    using that by (subst (asm) RamDRAM.simps) (auto simp: new_node_def split: bind_splits if_splits)
  obtain m cs where cs: "those (map (RamDRAM spec Rank) [0..m - 1]) = Some cs" "children t = cs"
    using assms by (subst (asm) RamDRAM.simps) (auto split: bind_splits if_splits)
  have "list_all2 (\<lambda>_ _. True) [0..m - 1] cs" by (rule those_map_all2[OF _ cs(1)]) simp
  then have "length cs = length [0..m - 1]" by (rule list_all2_lengthD[symmetric])
  then have "RamDRAM spec Rank ([0..m - 1] ! i) = Some (cs ! i)" using those_map_nth[OF cs(1)] assms(2) cs(2) by simp
  then show ?thesis using node cs(2) by simp
qed

lemma new_ctrl_trace: "new_ctrl cf spec k = Some c \<Longrightarrow> trace_ok (rc_clk c) c"
proof -
  assume "new_ctrl cf spec k = Some c"
  then obtain t where t: "RamDRAM spec Channel k = Some t" "rc_channel c = t" "rc_spec c = spec" "rc_cmd_traces c = replicate (length (children t)) []"
    by (auto simp: new_ctrl_def RamController_def split: bind_splits)
  then have "rank_held (hb_speed spec) (the_node (rank_node t i)) []" if "i < length (children t)" for i
    using RamDRAM_ranks[OF t(1) that] by (simp add: rank_held_def clks_of_def last_clks_def) (use timing_entries(2) in fastforce)
  moreover have "logged c = {}" using t(4) by (auto simp: logged_def)
  ultimately show ?thesis using t by (simp add: trace_ok_def log_ok_def)
qed

end
