(* ===== verification/Ram_Fresh.thy ===== *)
theory Ram_Fresh
  imports Ram_Events
begin

section \<open>Every bank is refreshed in time\<close>

text \<open>
  After each clock the youngest refresh request of a bank is younger than the bank's interval, which is
  \<^verbatim>\<open>nREFI\<close>, or half of it when the bank was reported hot. Together with the deadlines of the refresh queue
  (\<open>refq_ok\<close>) every bank gets a refresh command in time. Only \<^verbatim>\<open>tick_ref\<close> and \<^verbatim>\<open>set_ref_interval\<close> touch the
  refresh generator; the lemmas of the first part say so.
\<close>

definition same_ref :: "ram_ctrl \<Rightarrow> ram_ctrl \<Rightarrow> bool" where
  "same_ref c c' \<longleftrightarrow> rc_refresh c' = rc_refresh c \<and> rc_spec c' = rc_spec c"

lemma same_ref_refl [simp]: "same_ref c c"
  by (simp add: same_ref_def)

lemma same_ref_trans: "same_ref c c' \<Longrightarrow> same_ref c' c'' \<Longrightarrow> same_ref c c''"
  by (simp add: same_ref_def)

lemma ensures_same_trans: "same_ref c c' \<Longrightarrow> ensures m (same_ref c') \<Longrightarrow> ensures m (same_ref c)"
  unfolding ensures_def by (blast intro: same_ref_trans)

lemma enqueue_same: "same_ref c (snd (enqueue req c))"
  by (cases "get_queue (rq_type req)") (auto simp: enqueue_def Let_def same_ref_def)

lemma put_queue_same: "same_ref c (put_queue k q c)"
  by (cases k) (simp_all add: same_ref_def)

lemma add_stat_same: "same_ref c (add_stat upd v c)"
  by (simp add: add_stat_def same_ref_def)

lemma bump_stat_same: "ensures (bump_stat get upd i c) (same_ref c)"
  by (auto simp: bump_stat_def ensures_bind same_ref_def intro!: ensures_any)

lemma channel_same: "ensures (f c) (\<lambda>t. same_ref c (c\<lparr>rc_channel := t\<rparr>))"
  by (rule ensures_any) (simp add: same_ref_def)

lemma count_row_same: "ensures (count_row ty hit opn core b c) (same_ref c)"
proof -
  have "ensures (bump_stat g u i c \<bind> (\<lambda>c'. bump_stat g' u' i' (add_stat u'' v c'))) (same_ref c)" for g u i g' u' i' u'' v
    unfolding ensures_bind
    by (rule ensures_mono[OF bump_stat_same])
      (rule ensures_same_trans[OF same_ref_trans[OF _ add_stat_same] bump_stat_same])
  then show ?thesis unfolding count_row_def by simp
qed

lemma first_command_same: "ensures (first_command req b c) (same_ref c)"
proof (cases "rq_type req = READ \<or> rq_type req = WRITE")
  case True
  have count: "ensures (count_row (rq_type req) hit opn (rq_coreid req) b c1) (\<lambda>x. same_ref c (if X then add_stat u v x else add_stat u' v x))"
    if "same_ref c c1" for hit opn c1 X u u' v
    by (rule ensures_mono[OF ensures_same_trans[OF that count_row_same]]) (simp add: same_ref_trans[OF _ add_stat_same])
  have chan: "same_ref c (c\<lparr>rc_channel := t\<rparr>)" for t by (simp add: same_ref_def)
  show ?thesis
    unfolding first_command_def if_P[OF True] Let_def ensures_bind
    by (rule ensures_any, rule ensures_any, rule ensures_any) (simp only: ensures_simps count[OF chan])
qed (simp add: first_command_def)

lemma finish_request_same: "ensures (finish_request k i c) (same_ref c)"
proof -
  let ?c = "if rq_type (the_queue k c ! i) = READ
    then c\<lparr>rc_pending := rc_pending c @ [(the_queue k c ! i)\<lparr>rq_depart := rc_clk c + hb_read_latency (rc_spec c)\<rparr>]\<rparr> else c"
  have step: "ensures (if b then m \<bind> (\<lambda>t. Some (c1\<lparr>rc_channel := t\<rparr>)) else Some c1) (same_ref c)" if "same_ref c c1" for b m c1
  proof -
    have "same_ref c (c1\<lparr>rc_channel := t\<rparr>)" for t using that by (simp add: same_ref_def)
    then show ?thesis using that by (cases b) (simp_all add: ensures_bind ensures_any)
  qed
  have "same_ref c ?c" by (simp add: same_ref_def)
  from step[OF this] show ?thesis
    unfolding finish_request_def Let_def ensures_bind[of "if _ then _ else _"]
    by (rule ensures_mono) (simp add: same_ref_trans[OF _ put_queue_same])
qed

lemma issue_cmd_same: "ensures (issue_cmd cmd addr c) (same_ref c)"
proof -
  have tr: "same_ref c (c\<lparr>rc_channel := t, rc_rowtable := tab\<rparr>)"
    "same_ref c (c\<lparr>rc_channel := t, rc_rowtable := tab, rc_cmd_traces := fs\<rparr>)" for t tab fs by (simp_all add: same_ref_def)
  show ?thesis
    unfolding issue_cmd_def Let_def ensures_bind
    by (rule ensures_any, rule ensures_any, rule ensures_any, rule ensures_any) (simp add: ensures_bind ensures_any tr)
qed

lemma serve_completed_same: "ensures (serve_completed c) (\<lambda>(done, c'). same_ref c c')"
  by (auto simp: serve_completed_def ensures_bind Let_def same_ref_def add_stat_def split: list.splits intro!: ensures_any)

lemma serve_head_same: "ensures (serve_head k h c) (same_ref c)"
proof -
  let ?q = "the_queue k c ! h"
  have bump: "ensures (if b then bump_stat g u n c else if b' then bump_stat g' u' n c else Some c) (same_ref c)" for b b' g u g' u' n
    using bump_stat_same by simp
  have first: "ensures (if b then first_command ?q n (put_queue k q c1) else Some c1) (same_ref c)" if "same_ref c c1" for b n q c1
    using ensures_same_trans[OF same_ref_trans[OF that put_queue_same] first_command_same] that by simp
  have issue: "ensures (issue_cmd cmd (rq_addr_vec ?q) c2) (\<lambda>c3. ensures (if X then Some c3 else finish_request k h c3) (same_ref c))"
    if "same_ref c c2" for cmd c2 X
    by (rule ensures_mono[OF ensures_same_trans[OF that issue_cmd_same]]) (auto intro: ensures_same_trans finish_request_same)
  show ?thesis
    unfolding serve_head_def Let_def ensures_bind
    by (rule ensures_any, rule ensures_any, rule ensures_mono[OF bump], rule ensures_mono[OF first], assumption, rule ensures_any,
        rule issue)
qed

lemma schedule_same: "ctrl_inv ch R K rclk D c \<Longrightarrow> ensures (schedule c) (same_ref c)"
  by (erule schedule_cases) (simp_all add: serve_head_same)

subsection \<open>The age of the last refresh request of a bank\<close>

definition ref_age :: "refresh \<Rightarrow> nat \<Rightarrow> int" where
  "ref_age rf i = rf_clk rf - rf_bank_refreshed rf ! i"

text \<open>Every bank that has been handled in this clock is younger than its interval.\<close>

definition fresh_upto :: "nat \<Rightarrow> refresh \<Rightarrow> bool" where
  "fresh_upto n rf \<longleftrightarrow> (\<forall>i<n. ref_age rf i < rf_bank_ref_interval rf ! i)"

lemma refresh_target_ref: "ensures (refresh_target rank bank sa c) (\<lambda>c'. rc_refresh c' = rc_refresh c)"
  using enqueue_same by (auto simp: refresh_target_def Let_def ensures_bind same_ref_def split: prod.splits) (metis snd_conv)

lemma refresh_due_fresh:
  assumes f: "fresh_upto i (rc_refresh c)" and pos: "0 < rf_bank_ref_interval (rc_refresh c) ! i"
  shows "ensures (refresh_due (int i) c) (\<lambda>c'. fresh_upto (Suc i) (rc_refresh c') \<and>
     rf_bank_ref_interval (rc_refresh c') = rf_bank_ref_interval (rc_refresh c))"
proof -
  have "ensures (inject_bank_refresh (int i) c) (\<lambda>c'. fresh_upto (Suc i) (rc_refresh c') \<and>
      rf_bank_ref_interval (rc_refresh c') = rf_bank_ref_interval (rc_refresh c))"
    unfolding inject_bank_refresh_def Let_def ensures_bind ensures_guard
  proof (rule impI, rule ensures_mono[OF refresh_target_ref])
    fix c1 assume c1: "rc_refresh c1 = rc_refresh c"
    show "ensures (istore (rf_bank_refreshed (rc_refresh c1)) (int i) (rf_clk (rc_refresh c1)))
      (\<lambda>x. ensures (Some (c1\<lparr>rc_refresh := rc_refresh c1\<lparr>rf_bank_refreshed := x\<rparr>\<rparr>))
        (\<lambda>c'. fresh_upto (Suc i) (rc_refresh c') \<and> rf_bank_ref_interval (rc_refresh c') = rf_bank_ref_interval (rc_refresh c)))"
      using f pos by (auto simp: istore_def ensures_def c1 fresh_upto_def ref_age_def nth_list_update less_Suc_eq split: if_splits)
  qed
  moreover have "fresh_upto (Suc i) (rc_refresh c)" if "\<not> rf_bank_ref_interval (rc_refresh c) ! i \<le> ref_age (rc_refresh c) i"
    using f that by (auto simp: fresh_upto_def less_Suc_eq)
  ultimately show ?thesis
    by (auto simp: refresh_due_def ensures_bind ifetch_def ref_age_def)
qed

lemma int_range: "[0..int n - 1] = map int [0..<n]"
  by (induction n) (simp_all add: upto_rec2)

lemma tick_ref_fresh:
  assumes inv: "ctrl_inv ch R K (rc_clk c - 1) (rc_clk c) c"
  shows "ensures (tick_ref c) (\<lambda>c'. fresh_upto (2 * R) (rc_refresh c') \<and>
     rf_bank_ref_interval (rc_refresh c') = rf_bank_ref_interval (rc_refresh c))"
proof -
  note I = ctrl_invD[OF inv]
  let ?c = "c\<lparr>rc_refresh := (rc_refresh c)\<lparr>rf_clk := rf_clk (rc_refresh c) + 1\<rparr>\<rparr>"
  have sp: "2 * int R * ref_gap (hb_speed (rc_spec c)) < hs_nREFI (hb_speed (rc_spec c)) div 2" "1 \<le> ref_gap (hb_speed (rc_spec c))"
    using I(1) by (auto simp: consts_ok_def spec_ok_def)
  have nn: "0 \<le> 2 * int R * ref_gap (hb_speed (rc_spec c))" using sp(2) by simp
  have pos: "0 < rf_bank_ref_interval (rc_refresh c) ! i" if "i < 2 * R" for i
  proof -
    have "rf_bank_ref_interval (rc_refresh c) ! i \<in> set (rf_bank_ref_interval (rc_refresh c))" using I(9) that by (simp add: refresh_ok_def)
    then have "hs_nREFI (hb_speed (rc_spec c)) div 2 \<le> rf_bank_ref_interval (rc_refresh c) ! i" using I(9) by (simp add: refresh_ok_def)
    then show ?thesis using nn sp(1) by linarith
  qed
  have n: "rf_n_banks (rc_refresh ?c) = 2 * int R" using I(9) by (simp add: refresh_ok_def)
  let ?I = "\<lambda>n c'. fresh_upto n (rc_refresh c') \<and> rf_bank_ref_interval (rc_refresh c') = rf_bank_ref_interval (rc_refresh c)"
  have "ensures (foldM refresh_due (map int [0..<n]) ?c) (?I n)" if "n \<le> 2 * R" for n
    using that
  proof (induction n)
    case (Suc n)
    show ?case unfolding upt_Suc_append[OF le0] map_append foldM_append ensures_bind
    proof (rule ensures_mono[OF Suc.IH])
      fix c' :: ram_ctrl assume I: "?I n c'"
      then have "ensures (refresh_due (int n) c') (?I (Suc n))"
        using refresh_due_fresh[of n c'] pos[of n] Suc.prems by simp
      then show "ensures (foldM refresh_due (map int [n]) c') (?I (Suc n))" by (simp add: ensures_bind)
    qed (use Suc.prems in simp)
  qed (simp add: fresh_upto_def)
  from this[of "2 * R"] show ?thesis
    unfolding tick_ref_def Let_def n using int_range[of "2 * R"] by simp
qed

subsection \<open>The guarantee as a property of controllers\<close>

lemma ctrl_tick_fresh:
  assumes ok: "ctrl_ok ch R K c"
  shows "ensures (ctrl_tick c) (\<lambda>(completed, c'). fresh_upto (2 * R) (rc_refresh c') \<and>
     rf_bank_ref_interval (rc_refresh c') = rf_bank_ref_interval (rc_refresh c) \<and> rc_spec c' = rc_spec c)"
proof -
  let ?c = "count_queues (c\<lparr>rc_clk := rc_clk c + 1\<rparr>)"
  have inv: "ctrl_inv ch R K (rc_clk c) (rc_clk c + 1) ?c" "rc_clk ?c = rc_clk c + 1" "same_ref c ?c"
    using next_clock_inv[OF ok] by (simp_all add: count_queues_def same_ref_def)
  obtain cb c1 where c1: "serve_completed ?c = Some (cb, c1)" "ctrl_inv ch R K (rc_clk c) (rc_clk c + 1) c1" "rc_clk c1 = rc_clk c + 1"
    using serve_completed_runs[OF inv(1)] inv by (auto simp: runs_iff)
  obtain c2 where c2: "tick_ref c1 = Some c2" "ctrl_inv ch R K (rc_clk c2) (rc_clk c2) c2" "rc_spec c2 = rc_spec c1"
    using tick_ref_runs[of ch R K c1] c1 by (auto simp: runs_iff)
  have "same_ref ?c c1" using serve_completed_same[of ?c] c1(1) by simp
  then have s1: "same_ref c c1" using inv(3) by (rule same_ref_trans[rotated])
  have f2: "fresh_upto (2 * R) (rc_refresh c2)" "rf_bank_ref_interval (rc_refresh c2) = rf_bank_ref_interval (rc_refresh c1)"
    using tick_ref_fresh[of ch R K c1] c1 c2(1) by simp_all
  have s2: "same_ref c2 (choose_mode c2)" by (simp add: choose_mode_def same_ref_def)
  have "ctrl_inv ch R K (rc_clk c2) (rc_clk c2) (choose_mode c2)" using c2(2) by (simp add: choose_mode_inv)
  from ensures_same_trans[OF s2 schedule_same[OF this]]
  have sch: "ensures (schedule (choose_mode c2)) (same_ref c2)" .
  have eq: "ctrl_tick c = schedule (choose_mode c2) \<bind> (\<lambda>c'. Some (cb, c'))"
    using c1(1) c2(1) by (simp add: ctrl_tick_def Let_def)
  have "rf_bank_ref_interval (rc_refresh c1) = rf_bank_ref_interval (rc_refresh c)" "rc_spec c1 = rc_spec c"
    using s1 by (simp_all add: same_ref_def)
  then show ?thesis
    unfolding eq ensures_bind using f2 c2(3) by (intro ensures_mono[OF sch]) (simp add: same_ref_def)
qed

text \<open>At any time, also after a bank turned hot, the last refresh request of a bank is younger than \<^verbatim>\<open>nREFI\<close>.\<close>

definition fresh_ok :: "ram_ctrl \<Rightarrow> bool" where
  "fresh_ok c \<longleftrightarrow> (\<forall>x\<in>set (rf_bank_ref_interval (rc_refresh c)). x \<le> hs_nREFI (hb_speed (rc_spec c))) \<and>
     (\<forall>i<length (rf_bank_ref_interval (rc_refresh c)). ref_age (rc_refresh c) i < hs_nREFI (hb_speed (rc_spec c)))"

lemma fresh_ok_tick:
  assumes ok: "ctrl_ok ch R K c" and f: "fresh_ok c"
  shows "ensures (ctrl_tick c) (\<lambda>(completed, c'). fresh_ok c')"
proof (rule ensures_mono[OF ctrl_tick_fresh[OF ok]])
  fix x :: "ram_request option \<times> ram_ctrl"
  assume x: "case x of (completed, c') \<Rightarrow> fresh_upto (2 * R) (rc_refresh c') \<and>
     rf_bank_ref_interval (rc_refresh c') = rf_bank_ref_interval (rc_refresh c) \<and> rc_spec c' = rc_spec c"
  obtain cb c' where x': "x = (cb, c')" by (cases x)
  have len: "length (rf_bank_ref_interval (rc_refresh c)) = 2 * R"
    using ctrl_invD(9)[OF ok[unfolded ctrl_ok_def]] by (simp add: refresh_ok_def)
  have "ref_age (rc_refresh c') i < hs_nREFI (hb_speed (rc_spec c))" if "i < 2 * R" for i
  proof -
    have "rf_bank_ref_interval (rc_refresh c) ! i \<le> hs_nREFI (hb_speed (rc_spec c))"
      using f that len by (simp add: fresh_ok_def)
    then show ?thesis using x that by (fastforce simp: x' fresh_upto_def)
  qed
  then show "case x of (completed, c') \<Rightarrow> fresh_ok c'" using x f len by (simp add: x' fresh_ok_def)
qed

interpretation refreshed: ctrl_property "\<lambda>k c. fresh_ok c"
proof
  fix k :: nat and R K c b hot and req :: ram_request
  show "ensures (ctrl_tick c) (\<lambda>(_, c'). fresh_ok c')" if "ctrl_ok (int k) R K c" "fresh_ok c"
    using fresh_ok_tick[OF that] by simp
  show "fresh_ok (snd (enqueue req c))" if "fresh_ok c"
    using that enqueue_same[of c req] by (simp add: fresh_ok_def same_ref_def)
  show "ensures (setBankRef b hot c) fresh_ok" if "ctrl_ok (int k) R K c" "fresh_ok c"
  proof -
    let ?n = "hs_nREFI (hb_speed (rc_spec c))"
    have "spec_ok R (rc_spec c)" using ctrl_invD(1)[OF that(1)[unfolded ctrl_ok_def]] by (simp add: consts_ok_def)
    then have gap: "1 \<le> ref_gap (hb_speed (rc_spec c))" "2 * int R * ref_gap (hb_speed (rc_spec c)) < ?n div 2" by (auto simp: spec_ok_def)
    have "0 \<le> 2 * int R * ref_gap (hb_speed (rc_spec c))" using gap(1) by simp
    then have n: "?n div 2 \<le> ?n" using gap(2) by linarith
    show ?thesis
      using that(2) n
      by (auto simp: setBankRef_def set_ref_interval_def ensures_def Let_def istore_def fresh_ok_def ref_age_def dest!: in_set_update
          split: bind_splits if_splits)
  qed
qed

lemma new_ctrl_fresh:
  assumes "new_ctrl cf spec k = Some c" "0 < hs_nREFI (hb_speed spec)" shows "fresh_ok c"
  using assms by (auto simp: new_ctrl_def RamController_def Refresh_def Let_def guard_def fresh_ok_def ref_age_def split: bind_splits)

end
