(* ===== verification/Ram_Props.thy ===== *)
theory Ram_Props
  imports Ram_Trace Ram_Fresh
begin

section \<open>Properties of the DRAM simulator\<close>

text \<open>
  The properties are about every state that a sequence of calls reaches from the model that
  \<^verbatim>\<open>DramModel\<close> constructs from a configuration file. The configuration fixes the number of channels and
  ranks, powers of two, and an organisation whose refreshes fit into half a refresh interval
  (\<open>geometry_ok\<close>); \<open>shipped_config\<close> are the lines of \<^verbatim>\<open>src/ramulator/configs/HBM-config.cfg\<close> (without its three
  longest comments), whose values satisfy this.
\<close>

definition config_ok :: "string list \<Rightarrow> nat \<Rightarrow> nat \<Rightarrow> bool" where
  "config_ok lines b0 b1 \<longleftrightarrow> (\<exists>cf. RamConfig lines = Some cf \<and> rcf_channels cf = Some (2 ^ b0) \<and>
     rcf_ranks cf = Some (2 ^ b1) \<and> geometry_ok (org_map (getPara cf ''org'')) b0 b1)"

definition dm_run :: "real \<Rightarrow> string list \<Rightarrow> dm_event list \<Rightarrow> dram_model option" where
  "dm_run uninit lines es = DramModel uninit lines \<bind> foldM dm_serve es"

text \<open>The part of an option of the configuration that the properties read.\<close>

definition config_values :: "string list \<Rightarrow> (int option \<times> int option \<times> string) option" where
  "config_values lines = map_option (\<lambda>cf. (rcf_channels cf, rcf_ranks cf, getPara cf ''org'')) (RamConfig lines)"

lemma config_okI:
  "config_values lines = Some (Some (2 ^ b0), Some (2 ^ b1), org) \<Longrightarrow> geometry_ok (org_map org) b0 b1 \<Longrightarrow> config_ok lines b0 b1"
  by (auto simp: config_values_def config_ok_def)

definition shipped_config :: "string list" where
  "shipped_config =
   [''########################'',
    ''# Example config file'',
    ''# Comments start with #'',
    ''# There are restrictions for valid channel/rank numbers'',
    '' standard = HBM'',
    '' channels = 32'',
    '' ranks = 4'',
    '' speed = HBM_1Gbps'',
    '' org = HBM_4Gb'',
    ''# record_cmd_trace: (default is off): on, off'',
    '' record_cmd_trace = off'',
    ''# print_cmd_trace: (default is off): on, off'',
    '' print_cmd_trace = off'',
    '''',
    ''### Below are parameters only for CPU trace'',
    '' cpu_tick = 32'',
    '' mem_tick = 5'',
    '' core_num = 4'',
    ''### Below are parameters only for multicore mode'',
    '' early_exit = on'',
    '' expected_limit_insts = 200000000'',
    '' cache = no'',
    '' translation = None'',
    ''#'',
    ''########################'']"

lemma shipped_values: "config_values shipped_config = Some (Some 32, Some 4, ''HBM_4Gb'')"
  by code_simp

definition small_config :: "string list" where
  "small_config = [''channels = 1'', ''ranks = 2'', ''org = HBM_4Gb'', ''record_cmd_trace = on'']"

lemma small_values: "config_values small_config = Some (Some 1, Some 2, ''HBM_4Gb'')"
  by code_simp

lemma shipped_ok: "config_ok shipped_config 5 2" "config_ok small_config 0 1"
  by (rule config_okI[where org = "''HBM_4Gb''"]; simp add: shipped_values small_values geometry_ok_def queue_max_def org_map_def)+

subsection \<open>Reachable states\<close>

lemma RamMemory_ctrls:
  "RamMemory cf ctlrs = Some m \<Longrightarrow> mm_ctrls m = ctlrs \<and> ctlrs \<noteq> [] \<and> mm_spec m = rc_spec (ctlrs ! 0)"
  by (auto simp: RamMemory_def Let_def guard_def ifetch_def split: bind_splits if_splits)

lemma new_ctrl_spec: "new_ctrl cf spec ch = Some c \<Longrightarrow> rc_spec c = spec"
  by (auto simp: new_ctrl_def RamController_def split: bind_splits)

lemma DramModel_ctrls:
  assumes "DramModel uninit lines = Some d"
  obtains cf spec where "\<And>k. k < length (mm_ctrls (dm_memory d)) \<Longrightarrow> \<exists>ch. new_ctrl cf spec ch = Some (mm_ctrls (dm_memory d) ! k)"
    "0 < length (mm_ctrls (dm_memory d))" "mm_spec (dm_memory d) = spec"
proof -
  obtain cf spec C ctlrs where c: "those (map (new_ctrl cf spec) [0..C - 1]) = Some ctlrs" "RamMemory cf ctlrs = Some (dm_memory d)"
    using assms by (auto simp: DramModel_def split: bind_splits)
  have m: "mm_ctrls (dm_memory d) = ctlrs" "ctlrs \<noteq> []" "mm_spec (dm_memory d) = rc_spec (ctlrs ! 0)"
    using RamMemory_ctrls[OF c(2)] by simp_all
  have len: "length ctlrs = length [0..C - 1]" using those_map_all2[of "[0..C - 1]" "new_ctrl cf spec" "\<lambda>_ _. True", OF _ c(1)] by (auto dest: list_all2_lengthD)
  have new: "\<exists>ch. new_ctrl cf spec ch = Some (ctlrs ! k)" if "k < length ctlrs" for k
    using those_map_nth[OF c(1), of k] that len by auto
  have "rc_spec (ctlrs ! 0) = spec"
    using new[of 0] m(2) new_ctrl_spec by auto
  then show thesis using that[of cf spec] new m by simp
qed

definition run_state_ok :: "nat \<Rightarrow> nat \<Rightarrow> dram_model \<Rightarrow> bool" where
  "run_state_ok b0 b1 d \<longleftrightarrow> dm_ok (2 ^ b0) (2 ^ b1) 4 d \<and> hb_read_latency (mm_spec (dm_memory d)) = 9 \<and>
     hs_nREFI (hb_speed (mm_spec (dm_memory d))) = 3900 \<and>
     (\<forall>k<2 ^ b0. ctrl_ok (int k) (2 ^ b1) 4 (mm_ctrls (dm_memory d) ! k) \<and> rc_spec (mm_ctrls (dm_memory d) ! k) = mm_spec (dm_memory d)) \<and>
     (\<forall>k<2 ^ b0. trace_ok (rc_clk (mm_ctrls (dm_memory d) ! k)) (mm_ctrls (dm_memory d) ! k)) \<and>
     (\<forall>k<2 ^ b0. fresh_ok (mm_ctrls (dm_memory d) ! k)) \<and> length (mm_ctrls (dm_memory d)) = 2 ^ b0"

lemma dm_run_ok:
  assumes cfg: "config_ok lines b0 b1" and es: "\<forall>e\<in>set es. dm_allowed (2 ^ b0) (2 ^ b1) e"
  shows "runs (dm_run uninit lines es) (run_state_ok b0 b1)"
proof -
  obtain cf where cf: "RamConfig lines = Some cf" "rcf_channels cf = Some (2 ^ b0)" "rcf_ranks cf = Some (2 ^ b1)"
    "geometry_ok (org_map (getPara cf ''org'')) b0 b1" using cfg by (auto simp: config_ok_def)
  let ?org = "org_map (getPara cf ''org'')"
  obtain d0 where d0: "DramModel uninit lines = Some d0" "dm_ok (2 ^ b0) (2 ^ b1) 4 d0" "mm_spec (dm_memory d0) = hbm_of ?org (2 ^ b0) (2 ^ b1)"
    using DramModel_runs[OF cf] by (auto simp: runs_iff)
  have mok: "mem_ok (2 ^ b0) (2 ^ b1) 4 (dm_memory d0)" using d0(2) by (simp add: dm_ok_def)
  have spec: "hb_read_latency (mm_spec (dm_memory d0)) = 9" "hs_nREFI (hb_speed (mm_spec (dm_memory d0))) = 3900"
    using hbm_of_ok(5)[OF cf(4)] by (simp_all add: d0(3)) (simp add: hbm_of_def)
  obtain cf' spec where new: "\<And>k. k < length (mm_ctrls (dm_memory d0)) \<Longrightarrow> \<exists>ch. new_ctrl cf' spec ch = Some (mm_ctrls (dm_memory d0) ! k)"
    "mm_spec (dm_memory d0) = spec" using DramModel_ctrls[OF d0(1)] by metis
  have nrefi: "0 < hs_nREFI (hb_speed spec)" using spec(2) new(2) by simp
  have t: "traced.all_ctrls (dm_memory d0)" unfolding traced.all_ctrls_def using new(1) new_ctrl_trace by blast
  have f: "refreshed.all_ctrls (dm_memory d0)" unfolding refreshed.all_ctrls_def using new(1) new_ctrl_fresh[OF _ nrefi] by blast
  obtain d where d: "foldM dm_serve es d0 = Some d" "dm_ok (2 ^ b0) (2 ^ b1) 4 d" "dm_frame d0 d" "traced.all_ctrls (dm_memory d)"
    using traced.all_events_keep[OF d0(2) t es] by (auto simp: runs_iff)
  have "refreshed.all_ctrls (dm_memory d)"
    using refreshed.all_events_keep[OF d0(2) f es] d(1) by simp
  moreover have "mem_ok (2 ^ b0) (2 ^ b1) 4 (dm_memory d)" using d(2) by (simp add: dm_ok_def)
  ultimately have "run_state_ok b0 b1 d"
    using d(2,3,4) spec mem_okD(1,4,5)[of "2 ^ b0" "2 ^ b1" 4 "dm_memory d"]
    by (simp add: run_state_ok_def dm_frame_def mem_frame_def traced.all_ctrls_def refreshed.all_ctrls_def)
  then show ?thesis using d0(1) d(1) by (simp add: dm_run_def)
qed

subsection \<open>The statistics of a reachable state can be read\<close>

definition stats_readable :: "dram_model \<Rightarrow> int \<Rightarrow> int \<Rightarrow> bool" where
  "stats_readable d v b \<longleftrightarrow> getVaultQueLenAvg d v \<noteq> None \<and> getVaultQueLenSum d v \<noteq> None \<and> getVaultRdReq d v \<noteq> None \<and>
     getVaultWrReq d v \<noteq> None \<and> getServingRdReq d v \<noteq> None \<and> getServingWrReq d v \<noteq> None \<and> getVaultRowHits d v \<noteq> None \<and>
     getBankRowHits d v b \<noteq> None \<and> getBankRowConflicts d v b \<noteq> None \<and> getBankRowMisses d v b \<noteq> None \<and>
     getBankActTime d v b \<noteq> None \<and> getBankRdTime d v b \<noteq> None \<and> getBankWrTime d v b \<noteq> None \<and>
     getBankReads d v b \<noteq> None \<and> getBankWrites d v b \<noteq> None"

lemma stats_readable:
  assumes ok: "dm_ok C R K d" and v: "0 \<le> v" "v < int C" and b: "0 \<le> b" "b < 2 * int R"
  shows "stats_readable d v b"
proof -
  have m: "mem_ok C R K (dm_memory d)" using ok by (simp add: dm_ok_def)
  let ?c = "mm_ctrls (dm_memory d) ! nat v"
  have c: "the_ctrl d v = Some ?c" "ctrl_ok (int (nat v)) R K ?c"
    using mem_okD(1)[OF m] mem_okD(4)[OF m, of "nat v"] v by (simp_all add: the_ctrl_def ifetch_def nat_less_iff)
  have S: "stats_ok R K (rc_stats ?c)" and tr: "length (children (rc_channel ?c)) = R"
    using ctrl_invD(4,8)[OF c(2)[unfolded ctrl_ok_def]] by (auto dest: tree_okD(2))
  have K: "0 < K" by (rule mem_okD(3)[OF m])
  have b': "nat b < 2 * R" using b by (simp add: nat_less_iff)
  have bits: "ifetch (mm_addr_bits (dm_memory d)) 2 = Some 1" using m by (auto simp: mem_ok_def ifetch_def)
  have "ifetch (children (rc_channel ?c)) (b div 2) \<noteq> None" using b tr by (simp add: ifetch_def nat_less_iff)
  then have act: "getBankActTime d v b \<noteq> None" using c(1) bits by (auto simp: getBankActTime_def drop_bit_eq_div)
  have row: "stat_at d v f 0 \<noteq> None" if "length (f (rc_stats ?c)) = K" for f
    using c(1) that K by (auto simp: stat_at_def ifetch_def)
  have bank: "stat_at d v f b \<noteq> None" if "length (f (rc_stats ?c)) = 2 * R" for f
    using c(1) that b b' by (simp add: stat_at_def ifetch_def)
  note S' = S[unfolded stats_ok_def]
  have r: "stat_at d v cs_read_row_hits 0 \<noteq> None" "stat_at d v cs_read_row_misses 0 \<noteq> None" "stat_at d v cs_read_row_conflicts 0 \<noteq> None"
    "stat_at d v cs_write_row_hits 0 \<noteq> None" "stat_at d v cs_write_row_misses 0 \<noteq> None" "stat_at d v cs_write_row_conflicts 0 \<noteq> None"
    using S' by (intro row; simp)+
  have k: "stat_at d v cs_bank_reads b \<noteq> None" "stat_at d v cs_bank_writes b \<noteq> None"
    "stat_at d v cs_bank_read_row_hits b \<noteq> None" "stat_at d v cs_bank_read_row_misses b \<noteq> None"
    "stat_at d v cs_bank_read_row_conflicts b \<noteq> None" "stat_at d v cs_bank_write_row_hits b \<noteq> None"
    "stat_at d v cs_bank_write_row_misses b \<noteq> None" "stat_at d v cs_bank_write_row_conflicts b \<noteq> None"
    using S' by (intro bank; simp)+
  show ?thesis
    using r k act c(1)
    by (auto simp: stats_readable_def getVaultQueLenAvg_def getVaultQueLenSum_def getVaultRdReq_def getVaultWrReq_def getServingRdReq_def
        getServingWrReq_def getVaultRowHits_def bank_sum_def getBankRowHits_def getBankRowConflicts_def getBankRowMisses_def
        getBankRdTime_def getBankWrTime_def getBankReads_def getBankWrites_def)
qed

subsection \<open>The model never fails\<close>

text \<open>C8: The DRAM model never fails. From the model constructed from a configuration file with a
  possible geometry, every sequence of calls (clocks, latency queries with arbitrary arguments, refresh
  changes for existing banks) returns: no index out of range, no failed assertion (commands are issued
  only when ready, refreshes always find room in their queue, row table entries match), no endless loop.
  Afterwards every statistic of every vault and bank can be read.\<close>

theorem dram_model_never_fails:
  assumes "config_ok lines b0 b1" and "\<forall>e\<in>set es. dm_allowed (2 ^ b0) (2 ^ b1) e"
  shows "\<exists>d. dm_run uninit lines es = Some d \<and>
     (\<forall>v b. 0 \<le> v \<and> v < 2 ^ b0 \<and> 0 \<le> b \<and> b < 2 * 2 ^ b1 \<longrightarrow> stats_readable d v b)"
proof -
  obtain d where d: "dm_run uninit lines es = Some d" "run_state_ok b0 b1 d"
    using dm_run_ok[OF assms] by (auto simp: runs_iff)
  then have "dm_ok (2 ^ b0) (2 ^ b1) 4 d" by (simp add: run_state_ok_def)
  then show ?thesis using d(1) stats_readable[of "2 ^ b0" "2 ^ b1" 4 d] by simp
qed

theorem dram_model_never_fails_witness:
  "\<exists>d. dm_run 0 shipped_config [Tick, BankRef 31 7 True, WriteLatency 3 1 100 0 300, Tick, ReadLatency 40 9 (- 1) 5 700] = Some d \<and>
     stats_readable d 31 7"
  using dram_model_never_fails[of shipped_config 5 2 "[Tick, BankRef 31 7 True, WriteLatency 3 1 100 0 300, Tick, ReadLatency 40 9 (- 1) 5 700]" 0]
    shipped_ok by auto

subsection \<open>Latencies\<close>

text \<open>C15: Latency bounds. In every reachable state a read is answered with the constant latency 9 of the
  standard (reads are never recorded for the replay), and a write with a latency between 9 and 42: the
  replay of the recorded writes ends, and each of them takes at most one attempt per slot of the
  32-entry write queue and one more.\<close>

theorem dram_latency_bounds:
  assumes "config_ok lines b0 b1" and "\<forall>e\<in>set es. dm_allowed (2 ^ b0) (2 ^ b1) e"
  shows "\<exists>d. dm_run uninit lines es = Some d \<and> (\<forall>v b r c t.
     (\<exists>d'. getReadLatency v b r c t d = Some (9, d')) \<and>
     (\<exists>l d'. getWriteLatency v b r c t d = Some (l, d') \<and> 9 \<le> l \<and> l \<le> 42))"
proof -
  obtain d where d: "dm_run uninit lines es = Some d" "run_state_ok b0 b1 d"
    using dm_run_ok[OF assms] by (auto simp: runs_iff)
  have ok: "dm_ok (2 ^ b0) (2 ^ b1) 4 d" and lat: "hb_read_latency (mm_spec (dm_memory d)) = 9"
    using d(2) by (simp_all add: run_state_ok_def)
  show ?thesis
    using d(1) getReadLatency_runs[OF ok] getWriteLatency_runs[OF ok] by (fastforce simp: lat runs_iff queue_max_def)
qed

theorem dram_latency_bounds_witness:
  "\<exists>d. dm_run 0 shipped_config [WriteLatency 3 1 100 0 100, Tick] = Some d \<and>
     (\<exists>d'. getReadLatency 3 1 100 0 500 d = Some (9, d')) \<and> (\<exists>l d'. getWriteLatency 0 0 7 0 500 d = Some (l, d') \<and> l \<le> 42)"
  using dram_latency_bounds[of shipped_config 5 2 "[WriteLatency 3 1 100 0 100, Tick]" 0] shipped_ok by fastforce

subsection \<open>Refresh\<close>

text \<open>C10: Every bank is refreshed in time. After every sequence of calls that ends with a clock, the last
  refresh request of every bank is younger than the bank's interval, which is at most 3900 clocks; every
  request that still waits is the last one of its bank and is younger than 1950 clocks. So a request is
  issued within 1950 clocks, and every bank gets a refresh at least every 5850 clocks.\<close>

theorem every_bank_refreshed:
  assumes "config_ok lines b0 b1" and "\<forall>e\<in>set es. dm_allowed (2 ^ b0) (2 ^ b1) e"
  shows "\<exists>d. dm_run uninit lines (es @ [Tick]) = Some d \<and> (\<forall>k<2 ^ b0. let c = mm_ctrls (dm_memory d) ! k; rf = rc_refresh c in
     rf_clk rf = rc_clk c \<and>
     (\<forall>i<2 * 2 ^ b1. rf_clk rf - rf_bank_refreshed rf ! i < rf_bank_ref_interval rf ! i \<and> rf_bank_ref_interval rf ! i \<le> 3900) \<and>
     (\<forall>q\<in>set (rc_otherq c). bank_no q < 2 * 2 ^ b1 \<and> rq_arrive q = rf_bank_refreshed rf ! bank_no q \<and> rc_clk c - rq_arrive q < 1950))"
proof -
  obtain d0 where d0: "dm_run uninit lines es = Some d0" "run_state_ok b0 b1 d0"
    using dm_run_ok[OF assms] by (auto simp: runs_iff)
  have "\<forall>e\<in>set (es @ [Tick]). dm_allowed (2 ^ b0) (2 ^ b1) e" using assms(2) by simp
  from dm_run_ok[OF assms(1) this] obtain d where d: "dm_run uninit lines (es @ [Tick]) = Some d" "run_state_ok b0 b1 d"
    by (auto simp: runs_iff)
  have "tickOnce d0 = Some d" using d0(1) d(1) by (auto simp: dm_run_def foldM_append split: bind_splits)
  then obtain dn m where m: "mem_tick (dm_memory d0) = Some (dn, m)" "dm_memory d = m"
    by (auto simp: tickOnce_def Let_def read_complete_sel split: bind_splits)
  show ?thesis
  proof (intro exI conjI allI impI, rule d(1))
    fix k :: nat assume k: "k < 2 ^ b0"
    let ?c = "mm_ctrls (dm_memory d) ! k" and ?old = "mm_ctrls (dm_memory d0) ! k"
    have len0: "length (mm_ctrls (dm_memory d0)) = 2 ^ b0" using d0(2) by (simp add: run_state_ok_def)
    obtain cb where t: "ctrl_tick ?old = Some (cb, ?c)"
      using mem_tick_ctrls(2)[OF m(1), unfolded m(2)[symmetric]] len0 k by metis
    have ok: "ctrl_ok (int k) (2 ^ b1) 4 ?old" "ctrl_ok (int k) (2 ^ b1) 4 ?c" "fresh_ok ?c" "rc_spec ?c = mm_spec (dm_memory d)"
      "hs_nREFI (hb_speed (mm_spec (dm_memory d))) = 3900"
      using d0(2) d(2) k by (simp_all add: run_state_ok_def)
    note I = ctrl_invD[OF ok(2)[unfolded ctrl_ok_def]]
    have f: "fresh_upto (2 * 2 ^ b1) (rc_refresh ?c)" using ctrl_tick_fresh[OF ok(1)] t by simp
    have i: "\<forall>x\<in>set (rf_bank_ref_interval (rc_refresh ?c)). x \<le> 3900" using ok(3,4,5) by (simp add: fresh_ok_def)
    have wait: "rc_clk ?c - rq_arrive q < 1950" if q: "q \<in> set (rc_otherq ?c)" for q
    proof -
      obtain p where p: "p < length (rc_otherq ?c)" "rc_otherq ?c ! p = q" using q unfolding in_set_conv_nth by blast
      have gap: "1 \<le> ref_gap (hb_speed (rc_spec ?c))" using I(1) by (simp add: consts_ok_def spec_ok_def)
      have "0 \<le> int p * ref_gap (hb_speed (rc_spec ?c))" using gap by simp
      moreover have "max (rc_clk ?c + 1) (ref_next (rc_channel ?c) (rank_ix (rc_otherq ?c ! 0))) + int p * ref_gap (hb_speed (rc_spec ?c))
          < rq_arrive q + 3900 div 2"
        using I(10) p ok(4,5) by (auto simp: refq_ok_def deadlines_def)
      ultimately show ?thesis by linarith
    qed
    show "let c = ?c; rf = rc_refresh c in rf_clk rf = rc_clk c \<and>
     (\<forall>i<2 * 2 ^ b1. rf_clk rf - rf_bank_refreshed rf ! i < rf_bank_ref_interval rf ! i \<and> rf_bank_ref_interval rf ! i \<le> 3900) \<and>
     (\<forall>q\<in>set (rc_otherq c). bank_no q < 2 * 2 ^ b1 \<and> rq_arrive q = rf_bank_refreshed rf ! bank_no q \<and> rc_clk c - rq_arrive q < 1950)"
      unfolding Let_def
      using f i wait I(9,10) by (auto simp: fresh_upto_def ref_age_def refresh_ok_def refq_ok_def dest!: bank_no_less)
  qed
qed

theorem every_bank_refreshed_witness:
  "\<exists>d. dm_run 0 shipped_config [BankRef 31 7 True, Tick, Tick] = Some d \<and>
     (\<forall>q\<in>set (rc_otherq (mm_ctrls (dm_memory d) ! 31)). rc_clk (mm_ctrls (dm_memory d) ! 31) - rq_arrive q < 1950)"
  using every_bank_refreshed[of shipped_config 5 2 "[BankRef 31 7 True, Tick]" 0] shipped_ok by (auto simp: Let_def)

end
