(* ===== verification/Whole_Stack.thy ===== *)
theory Whole_Stack
  imports UnisonProps Ram_Props
begin

section \<open>The whole stack\<close>

text \<open>
  The stacked DRAM controller of the Unison cache is parametric in its DRAM timing model. Here the
  parameter is the model of Ramulator: \<open>ramulator_dram\<close> are the methods of \<^verbatim>\<open>DramModel\<close> that
  \<^verbatim>\<open>stacked_dram_cntlr.cc\<close> calls, with the conversions of the call sites (unsigned indices become \<^verbatim>\<open>int\<close>,
  the latency and the queue length become \<^verbatim>\<open>UInt32\<close>, the column is always 0). It honours the contract
  \<open>dram_total\<close> for the geometry of the shipped configuration: 32 channels of 4 ranks of 2 banks are the 32
  vaults of 8 banks.
\<close>

definition ramulator_dram :: "dram_model dram_if" where
  "ramulator_dram = \<lparr>di_tickOnce = tickOnce,
     di_getReadLatency = (\<lambda>v b r t d. map_option (\<lambda>(l, d). (word_of_int l, d)) (getReadLatency (sint v) (sint b) (sint r) 0 t d)),
     di_getWriteLatency = (\<lambda>v b r t d. map_option (\<lambda>(l, d). (word_of_int l, d)) (getWriteLatency (sint v) (sint b) (sint r) 0 t d)),
     di_setBankRef = (\<lambda>v b. dm_setBankRef (sint v) (sint b)), di_tCK = dm_tCK,
     di_getServingRdReq = (\<lambda>d v. getServingRdReq d (sint v)), di_getServingWrReq = (\<lambda>d v. getServingWrReq d (sint v)),
     di_getVaultRowHits = (\<lambda>d v. getVaultRowHits d (sint v)),
     di_getVaultQueLenSum = (\<lambda>d v. map_option (\<lambda>x. word_of_int \<lfloor>x\<rfloor>) (getVaultQueLenSum d (sint v))),
     di_getBankActTime = (\<lambda>d v b. getBankActTime d (sint v) (sint b)), di_getBankRdTime = (\<lambda>d v b. getBankRdTime d (sint v) (sint b)),
     di_getBankWrTime = (\<lambda>d v b. getBankWrTime d (sint v) (sint b)), di_getBankReads = (\<lambda>d v b. getBankReads d (sint v) (sint b)),
     di_getBankWrites = (\<lambda>d v b. getBankWrites d (sint v) (sint b)), di_getBankRowHits = (\<lambda>d v b. getBankRowHits d (sint v) (sint b)),
     di_getBankRowConflicts = (\<lambda>d v b. getBankRowConflicts d (sint v) (sint b)),
     di_getBankRowMisses = (\<lambda>d v b. getBankRowMisses d (sint v) (sint b))\<rparr>"

definition ram_ready :: "dram_model \<Rightarrow> bool" where
  "ram_ready d \<longleftrightarrow> dm_ok 32 4 4 d \<and> dm_tCK d = 2"

lemma small_sint:
  assumes "(x :: u32) < word_of_nat n" "n \<le> 32"
  shows "0 \<le> sint x" "sint x < int n"
proof -
  have "unat x < n" using assms by (simp add: word_less_nat_alt unat_of_nat)
  moreover have e: "uint x = int (unat x)" by (rule uint_nat)
  ultimately have "uint x < 32" using assms(2) by linarith
  then have "sint x = uint x"
    unfolding sint_uint by (intro signed_take_bit_int_eq_self order_trans[OF _ uint_ge_0]) simp_all
  then have "sint x = int (unat x)" by (simp only: e)
  then show "0 \<le> sint x" "sint x < int n" using \<open>unat x < n\<close> by linarith+
qed

lemma ram_serves:
  assumes d: "ram_ready d" and e: "dm_allowed 32 4 e"
  shows "runs (dm_serve e d) ram_ready"
  by (rule runs_mono[OF dm_serve_runs[of 32 4 4 d e]]) (use assms in \<open>auto simp: ram_ready_def dm_frame_def\<close>)

lemma ramulator_total: "dram_total 32 8 ramulator_dram ram_ready"
proof -
  have lat: "runs (map_option (\<lambda>(l, d). (word_of_int l :: u32, d)) m) (\<lambda>(l, d). ram_ready d)"
    if "runs (map_option snd m) ram_ready" for m
    using that by (cases m) auto
  have range: "0 \<le> sint v" "sint v < 32" if "v < (32 :: u32)" for v using small_sint[of v 32] that by simp_all
  have range': "0 \<le> sint b" "sint b < 8" if "b < (8 :: u32)" for b using small_sint[of b 8] that by simp_all
  have stats: "stats_readable d (sint v) (sint b)" if "ram_ready d" "v < (32 :: u32)" "b < (8 :: u32)" for d v b
    using stats_readable[of 32 4 4 d "sint v" "sint b"] that(1) range[OF that(2)] range'[OF that(3)] by (simp add: ram_ready_def)
  have first: "stats_readable d (sint v) 0" if "ram_ready d" "v < (32 :: u32)" for d v
    using stats[of d v 0] that by simp
  show ?thesis
    unfolding dram_total_def
  proof (intro allI impI, intro conjI allI impI; (elim conjE)?)
    fix d v b r t assume d: "ram_ready d"
    show "runs (di_tickOnce ramulator_dram d) ram_ready" using ram_serves[OF d, of Tick] by (simp add: ramulator_dram_def)
    show "runs (di_getReadLatency ramulator_dram v b r t d) (\<lambda>(l, d). ram_ready d)"
      using lat ram_serves[OF d, of "ReadLatency (sint v) (sint b) (sint r) 0 t"] by (simp add: ramulator_dram_def)
    show "runs (di_getWriteLatency ramulator_dram v b r t d) (\<lambda>(l, d). ram_ready d)"
      using lat ram_serves[OF d, of "WriteLatency (sint v) (sint b) (sint r) 0 t"] by (simp add: ramulator_dram_def)
  next
    fix d v b h assume d: "ram_ready d" "v < (32 :: u32)" "b < (8 :: u32)"
    show "runs (di_setBankRef ramulator_dram v b h d) ram_ready"
      using ram_serves[OF d(1), of "BankRef (sint v) (sint b) h"] range[OF d(2)] range'[OF d(3)] by (simp add: ramulator_dram_def)
  qed (use first stats in \<open>simp_all add: ramulator_dram_def stats_readable_def ram_ready_def\<close>)
qed

subsection \<open>The property\<close>

text \<open>C5: The whole stack serves every sequence of calls up to the one undefined shift. The DRAM performance model
  with the Unison cache, its remapping manager and Ramulator underneath, is built from a configuration of
  32 channels and 4 ranks and a cache whose number of kilobytes is a power of two from \<open>2^11\<close> on. Take any
  sequence of requests (arbitrary addresses, sizes and times) and of calls of the statistics manager
  (temperatures, remapping runs, statistics). The calls return (no index out of range, no failed assertion,
  no undefined shift, no endless loop in any of the parts) and print no error line, and every statistic of
  every vault and bank of the DRAM can be read afterwards, up to the end of the sequence or up to the first
  request for block 0 of a page that its enabled set holds, which reaches the undefined shift of
  \<^verbatim>\<open>accessBlock\<close>.\<close>

theorem whole_stack_never_fails:
  assumes "config_ok lines 5 2" and "en_dram E = ramulator_dram" and "floorLog2_ok (en_floorLog2 E)"
    and "sd_cfg_ok (en_cfg E) (en_freq E)" and "cf_addr_map (en_cfg E) \<in> {1, 2, 3}" and "cf_n_remap (en_cfg E) \<le> 2"
    and "cache_size * 1024 = 2 ^ k" and "11 \<le> k" and "k < 32" and "\<forall>e\<in>set es. nm_event_ok (32, 8, 2 ^ (k - 11)) e"
  shows "\<exists>j n. j \<le> length es \<and>
     (DramModel raw lines \<bind> (\<lambda>d. DramPerfModelNormal (en_cfg E) uninit d noroi enabled cache_size) \<bind>
       foldM (nm_step E cores) (take j es)) = Some n \<and>
     un_out (nm_cntlr n) = [] \<and> up_out (un_perf (nm_cntlr n)) = [] \<and> rm_out (up_remap_manager (un_perf (nm_cntlr n))) = [] \<and>
     (\<forall>s\<in>set (un_set (nm_cntlr n)). us_out s = []) \<and>
     (\<forall>v b. 0 \<le> v \<and> v < 32 \<and> 0 \<le> b \<and> b < 8 \<longrightarrow> stats_readable (up_dram_model (un_perf (nm_cntlr n))) v b) \<and>
     (j < length es \<longrightarrow> reads_block0 E (es ! j) n \<and> nm_step E cores (es ! j) n = None)"
proof -
  obtain cf where cf: "RamConfig lines = Some cf" "rcf_channels cf = Some (2 ^ 5)" "rcf_ranks cf = Some (2 ^ 2)"
    "geometry_ok (org_map (getPara cf ''org'')) 5 2" using assms(1) by (auto simp: config_ok_def)
  obtain d where d: "DramModel raw lines = Some d" "ram_ready d"
    using DramModel_runs[OF cf, of raw] by (auto simp: runs_iff ram_ready_def)
  have E: "un_env_ok E ram_ready" using assms(2-4) ramulator_total by (simp add: un_env_ok_def)
  show ?thesis
  proof (rule model_serves[where uninit = uninit and noroi = noroi and enabled = enabled and cores = cores, OF E d(2) assms(5-10)])
    fix j n
    assume n: "j \<le> length es" "nm_inv E ram_ready (32, 8, 2 ^ (k - 11)) n"
        "DramPerfModelNormal (en_cfg E) uninit d noroi enabled cache_size \<bind> foldM (nm_step E cores) (take j es) = Some n"
      and b: "j < length es \<Longrightarrow> reads_block0 E (es ! j) n \<and> nm_step E cores (es ! j) n = None"
    have ok: "un_ok E ram_ready (nm_cntlr n)" using n(2) by (simp add: nm_inv_def)
    then have "dm_ok 32 4 4 (up_dram_model (un_perf (nm_cntlr n)))" by (simp add: un_ok_def dram_ready_def ram_ready_def)
    from stats_readable[OF this] have st: "\<forall>v b. 0 \<le> v \<and> v < 32 \<and> 0 \<le> b \<and> b < 8 \<longrightarrow>
        stats_readable (up_dram_model (un_perf (nm_cntlr n))) v b" by auto
    show ?thesis
      by (rule exI[of _ j], rule exI[of _ n])
         (use n(1,3) d(1) ok st b in \<open>auto simp: un_ok_def dram_ready_def up_ok_def set_inv_def\<close>)
  qed
qed

definition stack_env :: "(nat, dram_model) un_env" where
  "stack_env = \<lparr>en_dram = ramulator_dram, en_floorLog2 = demo_log2, en_ns = unat, en_getNS = word_of_nat,
     en_freq = 1000, en_cfg = demo_cfg, ue_bw = unat, ue_ps = (\<lambda>x. unat x div 1000), ue_quarter = (\<lambda>x. x div 4),
     ue_avg_queue_latency = 40, ue_dram_disabled = False, ue_obus_delay = 5, ue_RemapInterval = 1000000\<rparr>"

theorem whole_stack_never_fails_witness:
  "\<exists>j n. j \<le> 5 \<and> (DramModel 0 shipped_config \<bind> (\<lambda>d. DramPerfModelNormal demo_cfg (0, 0, 0, 0) d (0, 0, 0) True 2) \<bind>
       foldM (nm_step stack_env 4) (take j [NRequest 5 64 0 0x12345 DramBank.READ 45, NPerf (UTemperature True 31 7 95),
         NPerf UTryRemapping, NPerf UUpdateStats, NRequest 900 64 1 0xFFFFFFFFFFFFFFFF DramBank.WRITE 45])) = Some n \<and>
     un_out (nm_cntlr n) = []"
proof -
  let ?es = "[NRequest 5 64 0 0x12345 DramBank.READ 45, NPerf (UTemperature True 31 7 95), NPerf UTryRemapping,
         NPerf UUpdateStats, NRequest 900 64 1 0xFFFFFFFFFFFFFFFF DramBank.WRITE 45] :: nat nm_event list"
  have es: "\<forall>e\<in>set ?es. nm_event_ok (32, 8, 2 ^ (11 - 11)) e" and len: "length ?es = 5" by simp_all
  have env: "en_dram stack_env = ramulator_dram" "floorLog2_ok (en_floorLog2 stack_env)" "sd_cfg_ok (en_cfg stack_env) (en_freq stack_env)"
    "cf_addr_map (en_cfg stack_env) \<in> {1, 2, 3}" "cf_n_remap (en_cfg stack_env) \<le> 2" "en_cfg stack_env = demo_cfg"
    using demo_log2_ok by (simp_all add: stack_env_def sd_cfg_ok_def demo_cfg_def)
  show ?thesis
    using whole_stack_never_fails[OF shipped_ok(1) env(1-5), where cache_size = 2 and k = 11 and raw = 0 and
        uninit = "(0, 0, 0, 0)" and noroi = "(0, 0, 0)" and enabled = True and cores = 4, OF _ _ _ es]
    unfolding len env(6) by auto
qed

end
