(* ===== verification/Ram_More.thy ===== *)
theory Ram_More
  imports Ram_Props
begin

section \<open>Further properties of the DRAM simulator\<close>

text \<open>
  The scheduler against a reference definition, the row table and the queues, the command trace, the
  address round trip, the logarithm, the page allocator, and the loops and accesses that do not return.
\<close>

subsection \<open>The scheduler\<close>

text \<open>
  The reference: requests of three classes, of which the first that is not empty is served first come,
  first served: the requests that are ready and hit an open row; the ready requests that do not close a row
  which another request of the queue hits; the other requests that do not close such a row.
\<close>

definition first_come :: "ram_request list \<Rightarrow> nat list \<Rightarrow> nat option" where
  "first_come q ks = (case sort_key (\<lambda>k. rq_arrive (q ! k)) ks of [] \<Rightarrow> None | h # _ \<Rightarrow> Some h)"

definition first_class :: "ram_request list \<Rightarrow> (nat \<Rightarrow> bool) list \<Rightarrow> nat option" where
  "first_class q cls = (case dropWhile (\<lambda>ks. ks = []) (map (\<lambda>P. filter P [0..<length q]) cls) of
     [] \<Rightarrow> None | ks # _ \<Rightarrow> first_come q ks)"

definition saves_rows :: "ram_request list \<Rightarrow> ram_ctrl \<Rightarrow> nat \<Rightarrow> bool" where
  "saves_rows q c k \<longleftrightarrow> is_row_hit (q ! k) c = Some True \<or> is_row_open (q ! k) c = Some False \<or>
     list_all (\<lambda>r. is_row_hit r c = Some True \<longrightarrow> take 3 (rq_addr_vec (q ! k)) \<noteq> take 3 (rq_addr_vec r)) q"

definition served_first :: "ram_request list \<Rightarrow> ram_ctrl \<Rightarrow> nat option" where
  "served_first q c = first_class q
     [\<lambda>k. is_ready (q ! k) c = Some True \<and> is_row_hit (q ! k) c = Some True,
      \<lambda>k. is_ready (q ! k) c = Some True \<and> saves_rows q c k, saves_rows q c]"

lemma first_comeI:
  assumes h: "h \<in> set ks" and s: "sorted ks" "distinct ks"
    and min: "\<And>k. k \<in> set ks \<Longrightarrow> rq_arrive (q ! h) \<le> rq_arrive (q ! k) \<and> (k < h \<longrightarrow> rq_arrive (q ! h) < rq_arrive (q ! k))"
  shows "first_come q ks = Some h"
proof -
  let ?f = "\<lambda>k. rq_arrive (q ! k)"
  obtain y ys where y: "sort_key ?f ks = y # ys" using h by (cases "sort_key ?f ks") (auto dest: arg_cong[of _ _ set])
  have "set (y # ys) = set ks" using arg_cong[OF y, of set] by simp
  then have yk: "y \<in> set ks" "h \<in> set (y # ys)" using h by auto
  have "sorted (map ?f (y # ys))" using sorted_sort_key[of ?f ks] unfolding y .
  then have "?f y \<le> ?f h" using yk(2) by auto
  then have eq: "?f y = ?f h" using min[OF yk(1)] by simp
  have fl: "y # filter (\<lambda>k. ?f k = ?f h) ys = filter (\<lambda>k. ?f k = ?f h) ks"
    using sort_key_stable[of ?f "?f h" ks] unfolding y by (simp add: eq)
  have "sorted (y # filter (\<lambda>k. ?f k = ?f h) ys)" unfolding fl by (rule sorted_wrt_filter[OF s(1)])
  moreover have "h \<in> set (y # filter (\<lambda>k. ?f k = ?f h) ys)" unfolding fl using h by simp
  ultimately have "y \<le> h" by fastforce
  moreover have "\<not> y < h" using min[OF yk(1)] eq by auto
  ultimately show ?thesis by (simp add: first_come_def y)
qed

lemma first_classI:
  assumes h: "h < length q" "P h" and cls: "cls = pre @ P # post" "\<forall>Q\<in>set pre. \<forall>k<length q. \<not> Q k"
    and min: "\<And>k. k < length q \<Longrightarrow> P k \<Longrightarrow> rq_arrive (q ! h) \<le> rq_arrive (q ! k) \<and> (k < h \<longrightarrow> rq_arrive (q ! h) < rq_arrive (q ! k))"
  shows "first_class q cls = Some h"
proof -
  let ?ks = "\<lambda>P. filter P [0..<length q]"
  have "\<forall>ks\<in>set (map ?ks pre). ks = []" using cls(2) by (auto simp: filter_empty_conv)
  moreover have ne: "?ks P \<noteq> []" using h by (auto simp: filter_empty_conv)
  ultimately have "dropWhile (\<lambda>ks. ks = []) (map ?ks cls) = ?ks P # map ?ks post"
    using dropWhile_append2[of "map ?ks pre" "\<lambda>ks. ks = []" "map ?ks (P # post)"] by (auto simp: cls(1))
  moreover have "first_come q (?ks P) = Some h"
    by (rule first_comeI) (use h min in \<open>auto simp: sorted_wrt_filter\<close>)
  ultimately show ?thesis by (simp add: first_class_def)
qed

lemma get_head_served_first:
  assumes a: "answers q c rd hit opn" and ty: "rc_sched_type c = FRFCFS_PriorHit"
  shows "get_head q c = Some (served_first q c, c)"
proof -
  let ?v = "violates q hit opn"
  have s: "saves_rows q c k \<longleftrightarrow> \<not> ?v k" if "k < length q" for k
    using a that by (auto simp: saves_rows_def violates_def answers_def list_all_length)
  have r: "is_ready (q ! k) c = Some True \<longleftrightarrow> rd k" "is_row_hit (q ! k) c = Some True \<longleftrightarrow> hit k" if "k < length q" for k
    using a that by (auto simp: answers_def)
  let ?c1 = "\<lambda>k. is_ready (q ! k) c = Some True \<and> is_row_hit (q ! k) c = Some True"
  let ?c2 = "\<lambda>k. is_ready (q ! k) c = Some True \<and> saves_rows q c k"
  obtain head where head: "get_head q c = Some (head, c)" and spec: "case head of
       None \<Rightarrow> \<forall>k<length q. ?v k
     | Some h \<Rightarrow> h < length q \<and> \<not> ?v h \<and>
         (if \<exists>k<length q. rd k \<and> hit k then rd h \<and> hit h \<and> (\<forall>k<length q. rd k \<and> hit k \<longrightarrow> better q rd h k)
          else (\<forall>k<length q. \<not> ?v k \<longrightarrow> better q rd h k))"
    using get_head_runs[OF a ty] by (auto simp: runs_iff)
  have "served_first q c = head"
  proof (cases head)
    case None
    have v: "?v k" if "k < length q" for k using spec None that by simp
    have none: "filter P [0..<length q] = []" if "\<And>k. k < length q \<Longrightarrow> \<not> P k" for P using that by (simp add: filter_empty_conv)
    have "\<not> ?c1 k" "\<not> saves_rows q c k" if "k < length q" for k
      using v[OF that] r(2)[OF that] s[OF that] by (simp_all add: violates_def)
    then have "filter ?c1 [0..<length q] = []" "filter ?c2 [0..<length q] = []" "filter (saves_rows q c) [0..<length q] = []"
      by (intro none; blast)+
    then show ?thesis by (simp add: served_first_def first_class_def None)
  next
    case (Some h)
    then have h: "h < length q" "\<not> ?v h" using spec by auto
    consider (hits) "\<exists>k<length q. rd k \<and> hit k" | (ready) "\<not> (\<exists>k<length q. rd k \<and> hit k)" "rd h"
      | (wait) "\<not> (\<exists>k<length q. rd k \<and> hit k)" "\<not> rd h" by blast
    moreover have bt: "better q rd h k" if "\<not> (\<exists>k<length q. rd k \<and> hit k)" "k < length q" "\<not> ?v k" for k
      using spec that unfolding Some by simp
    ultimately show ?thesis unfolding served_first_def Some
    proof cases
      case hits
      then show "first_class q [?c1, ?c2, saves_rows q c] = Some h"
        by (intro first_classI[where pre = "[]" and P = ?c1]) (use spec h r Some in \<open>auto simp: better_def\<close>)
    next
      case ready
      then show "first_class q [?c1, ?c2, saves_rows q c] = Some h"
        by (intro first_classI[where pre = "[?c1]" and P = ?c2]) (use bt[OF ready(1)] h r s ready in \<open>auto simp: better_def\<close>)
    next
      case wait
      then show "first_class q [?c1, ?c2, saves_rows q c] = Some h"
        by (intro first_classI[where pre = "[?c1, ?c2]" and P = "saves_rows q c"])
          (use bt[OF wait(1)] h r s wait in \<open>auto simp: better_def\<close>)
    qed
  qed
  then show ?thesis using head by simp
qed

text \<open>C13: The scheduler picks what the reference picks. In every reachable state and for each of the three
  queues of every channel, \<^verbatim>\<open>get_head\<close> (a scan with pairwise comparisons, then a second scan that skips
  requests which would close a useful row) returns the request that \<open>served_first\<close> describes:
  ready row hits first, then ready requests that save the open rows, then the rest of them, each class
  first come, first served.\<close>

theorem scheduler_serves_classes:
  assumes "config_ok lines b0 b1" and "\<forall>e\<in>set es. dm_allowed (2 ^ b0) (2 ^ b1) e"
  shows "\<exists>d. dm_run uninit lines es = Some d \<and> (\<forall>k<2 ^ b0. \<forall>i. let c = mm_ctrls (dm_memory d) ! k; q = the_queue i c in
     get_head q c = Some (served_first q c, c))"
proof -
  obtain d where d: "dm_run uninit lines es = Some d" "run_state_ok b0 b1 d"
    using dm_run_ok[OF assms] by (auto simp: runs_iff)
  have "get_head (the_queue i c) c = Some (served_first (the_queue i c) c, c)"
    if c: "c = mm_ctrls (dm_memory d) ! k" and k: "k < 2 ^ b0" for c k i
  proof -
    have inv: "ctrl_inv (int k) (2 ^ b1) 4 (rc_clk c) (rc_clk c + 1) c"
      using d(2) k c by (simp add: run_state_ok_def ctrl_ok_def)
    have ty: "rc_sched_type c = FRFCFS_PriorHit" using ctrl_invD(1)[OF inv] by (simp add: consts_ok_def)
    have "\<exists>rd hit opn. answers (the_queue i c) c rd hit opn"
    proof (cases i)
      case ReadQ then show ?thesis by (metis answers_access[OF inv] queue_of_def)
    next
      case WriteQ then show ?thesis by (metis answers_access[OF inv] queue_of_def)
    next
      case OtherQ then show ?thesis using answers_refresh[OF inv] by auto
    qed
    then show ?thesis using get_head_served_first[OF _ ty] by blast
  qed
  then show ?thesis using d(1) by (auto simp: Let_def)
qed

theorem scheduler_serves_classes_witness:
  "\<exists>d. dm_run 0 shipped_config [WriteLatency 3 1 100 0 300, BankRef 3 1 True, Tick] = Some d \<and>
     get_head (rc_writeq (mm_ctrls (dm_memory d) ! 3)) (mm_ctrls (dm_memory d) ! 3) =
       Some (served_first (rc_writeq (mm_ctrls (dm_memory d) ! 3)) (mm_ctrls (dm_memory d) ! 3), mm_ctrls (dm_memory d) ! 3)"
proof -
  obtain d where d: "dm_run 0 shipped_config [WriteLatency 3 1 100 0 300, BankRef 3 1 True, Tick] = Some d"
    "\<forall>k<2 ^ 5. \<forall>i. let c = mm_ctrls (dm_memory d) ! k; q = the_queue i c in get_head q c = Some (served_first q c, c)"
    using scheduler_serves_classes[of shipped_config 5 2 "[WriteLatency 3 1 100 0 300, BankRef 3 1 True, Tick]" 0] shipped_ok by auto
  show ?thesis using d(1) d(2)[rule_format, of 3 WriteQ] by (auto simp: Let_def)
qed

subsection \<open>The command trace\<close>

lemma faw_entry: "\<exists>e\<in>set (timing s Rank ACT). te_cmd e = ACT \<and> te_dist e = 4 \<and> te_val e = hs_nFAW s"
  by (simp add: timing_def rank_pushes_def push_def Let_def)

text \<open>C9: The command trace obeys the timing table. In every reachable state, with command traces recorded
  or not, any two commands in the traces of the ranks of a channel were issued at different clocks, and
  the later one keeps every minimal distance that the table of the standard demands after the earlier
  one: on the channel always, on the rank when they are for the same rank, and on the bank when they
  are for the same bank. An entry of distance \<open>d\<close> binds when the earlier command was issued at that node
  \<open>d - 1\<close> times more in between; so a rank never sees more than four activations within the window
  \<^verbatim>\<open>nFAW\<close>.\<close>

theorem command_trace_obeys_timing:
  assumes "config_ok lines b0 b1" and "\<forall>e\<in>set es. dm_allowed (2 ^ b0) (2 ^ b1) e"
  shows "\<exists>d. dm_run uninit lines es = Some d \<and> (\<forall>k<2 ^ b0. let c = mm_ctrls (dm_memory d) ! k; s = hb_speed (mm_spec (dm_memory d)) in
     \<forall>x\<in>logged c. \<forall>y\<in>logged c. (log_clk x = log_clk y \<longrightarrow> x = y) \<and>
       (log_clk x < log_clk y \<longrightarrow> keeps_distance s (logged c) x y \<and>
          (log_cmd x = ACT \<and> log_cmd y = ACT \<and> same_node Rank x y \<and> 3 \<le> issued_between (logged c) Rank x y \<longrightarrow>
             log_clk x + hs_nFAW s \<le> log_clk y)))"
proof -
  obtain d where d: "dm_run uninit lines es = Some d" "run_state_ok b0 b1 d"
    using dm_run_ok[OF assms] by (auto simp: runs_iff)
  let ?s = "hb_speed (mm_spec (dm_memory d))"
  have log: "log_ok ?s (logged (mm_ctrls (dm_memory d) ! k))" if "k < 2 ^ b0" for k
  proof -
    have "trace_ok (rc_clk (mm_ctrls (dm_memory d) ! k)) (mm_ctrls (dm_memory d) ! k)" "rc_spec (mm_ctrls (dm_memory d) ! k) = mm_spec (dm_memory d)"
      using d(2) that by (simp_all add: run_state_ok_def)
    then show ?thesis unfolding trace_ok_def by metis
  qed
  have faw: "log_clk x + hs_nFAW ?s \<le> log_clk y"
    if K: "keeps_distance ?s L x y" and "log_cmd x = ACT" "log_cmd y = ACT" "same_node Rank x y" "3 \<le> issued_between L Rank x y" for L x y
  proof -
    obtain e where "e \<in> set (timing ?s Rank ACT)" "te_cmd e = ACT" "te_dist e = 4" "te_val e = hs_nFAW ?s"
      using faw_entry by blast
    then show ?thesis using K that(2-5) unfolding keeps_distance_def by fastforce
  qed
  show ?thesis
    unfolding Let_def
  proof (intro exI[of _ d] conjI[OF d(1)] allI impI ballI)
    fix k x y assume k: "k < 2 ^ b0" and xy: "x \<in> logged (mm_ctrls (dm_memory d) ! k)" "y \<in> logged (mm_ctrls (dm_memory d) ! k)"
    let ?L = "logged (mm_ctrls (dm_memory d) ! k)"
    have "(log_clk x = log_clk y \<longrightarrow> x = y) \<and> (log_clk x < log_clk y \<longrightarrow> keeps_distance ?s ?L x y)"
      using log[OF k] xy unfolding log_ok_def by blast
    then show "(log_clk x = log_clk y \<longrightarrow> x = y) \<and> (log_clk x < log_clk y \<longrightarrow> keeps_distance ?s ?L x y \<and>
        (log_cmd x = ACT \<and> log_cmd y = ACT \<and> same_node Rank x y \<and> 3 \<le> issued_between ?L Rank x y \<longrightarrow>
           log_clk x + hs_nFAW ?s \<le> log_clk y))"
      using faw[of ?L x y] by blast
  qed
qed

theorem command_trace_obeys_timing_witness:
  "\<exists>d. dm_run 0 small_config ([WriteLatency 0 0 5 0 300] @ replicate 7 Tick) = Some d \<and>
     (\<forall>x\<in>logged (mm_ctrls (dm_memory d) ! 0). \<forall>y\<in>logged (mm_ctrls (dm_memory d) ! 0). log_clk x < log_clk y \<longrightarrow>
        keeps_distance (hb_speed (mm_spec (dm_memory d))) (logged (mm_ctrls (dm_memory d) ! 0)) x y)"
proof -
  have "\<forall>e\<in>set ([WriteLatency 0 0 5 0 300] @ replicate 7 Tick). dm_allowed (2 ^ 0) (2 ^ 1) e" by simp
  from command_trace_obeys_timing[OF shipped_ok(2) this, of 0] show ?thesis unfolding Let_def by (metis less_one power_0)
qed

subsection \<open>The row table and the queues\<close>

text \<open>C14: The row table is the map of the open rows, and no queue overflows. In every reachable state the table
  of a channel maps \<^verbatim>\<open>[channel, rank, bank]\<close> to a row exactly when that row is the open row of the bank in
  the DRAM tree, and has no other keys; the read and write queues hold at most 32 requests, all for ranks
  and banks of the channel, and the refresh queue at most one request per bank.\<close>

theorem row_table_tracks_open_rows:
  assumes "config_ok lines b0 b1" and "\<forall>e\<in>set es. dm_allowed (2 ^ b0) (2 ^ b1) e"
  shows "\<exists>d. dm_run uninit lines es = Some d \<and> (\<forall>k<2 ^ b0. let c = mm_ctrls (dm_memory d) ! k in
     (\<forall>i<2 ^ b1. \<forall>j<2. map_option re_row (map_of (rc_rowtable c) [int k, int i, int j]) = row_of (rc_channel c) i j) \<and>
     (\<forall>key\<in>fst ` set (rc_rowtable c). \<exists>i<2 ^ b1. \<exists>j<2. key = [int k, int i, int j]) \<and>
     length (rc_readq c) \<le> 32 \<and> length (rc_writeq c) \<le> 32 \<and> length (rc_otherq c) \<le> 2 * 2 ^ b1 \<and>
     (\<forall>q\<in>set (rc_readq c) \<union> set (rc_writeq c) \<union> set (rc_otherq c). rank_ix q < 2 ^ b1 \<and> bank_ix q < 2))"
proof -
  obtain d where d: "dm_run uninit lines es = Some d" "run_state_ok b0 b1 d"
    using dm_run_ok[OF assms] by (auto simp: runs_iff)
  have "(\<forall>i<2 ^ b1. \<forall>j<2. map_option re_row (map_of (rc_rowtable c) [int k, int i, int j]) = row_of (rc_channel c) i j) \<and>
     (\<forall>key\<in>fst ` set (rc_rowtable c). \<exists>i<2 ^ b1. \<exists>j<2. key = [int k, int i, int j]) \<and>
     length (rc_readq c) \<le> 32 \<and> length (rc_writeq c) \<le> 32 \<and> length (rc_otherq c) \<le> 2 * 2 ^ b1 \<and>
     (\<forall>q\<in>set (rc_readq c) \<union> set (rc_writeq c) \<union> set (rc_otherq c). rank_ix q < 2 ^ b1 \<and> bank_ix q < 2)"
    if c: "c = mm_ctrls (dm_memory d) ! k" and k: "k < 2 ^ b0" for c k
  proof -
    have inv: "ctrl_inv (int k) (2 ^ b1) 4 (rc_clk c) (rc_clk c + 1) c"
      using d(2) k c by (simp add: run_state_ok_def ctrl_ok_def)
    note I = ctrl_invD[OF inv]
    have "bank_no ` set (rc_otherq c) \<subseteq> {..<2 * 2 ^ b1}" using I(10) bank_no_less by (fastforce simp: refq_ok_def)
    then have "card (bank_no ` set (rc_otherq c)) \<le> 2 * 2 ^ b1" by (metis card_lessThan card_mono finite_lessThan)
    then have "length (rc_otherq c) \<le> 2 * 2 ^ b1"
      using I(10) distinct_card[of "map bank_no (rc_otherq c)"] by (simp add: refq_ok_def)
    then show ?thesis
      using I(5,6,10) by (auto simp: table_ok_def queues_ok_def queue_max_def refq_ok_def dest: req_okD(2,3))
  qed
  then show ?thesis using d(1) by (auto simp: Let_def)
qed

theorem row_table_tracks_open_rows_witness:
  "\<exists>d. dm_run 0 small_config ([WriteLatency 0 0 5 0 300] @ replicate 7 Tick) = Some d \<and>
     map_option re_row (map_of (rc_rowtable (mm_ctrls (dm_memory d) ! 0)) [0, 1, 1]) = row_of (rc_channel (mm_ctrls (dm_memory d) ! 0)) 1 1"
proof -
  have "\<forall>e\<in>set ([WriteLatency 0 0 5 0 300] @ replicate 7 Tick). dm_allowed (2 ^ 0) (2 ^ 1) e" by simp
  from row_table_tracks_open_rows[OF shipped_ok(2) this, of 0] obtain d where
    d: "dm_run 0 small_config ([WriteLatency 0 0 5 0 300] @ replicate 7 Tick) = Some d"
      "\<forall>i<2. \<forall>j<2. map_option re_row (map_of (rc_rowtable (mm_ctrls (dm_memory d) ! 0)) [0, int i, int j]) =
         row_of (rc_channel (mm_ctrls (dm_memory d) ! 0)) i j"
    unfolding Let_def by auto
  show ?thesis using d(1) d(2)[rule_format, of 1 1] by auto
qed

subsection \<open>Addresses and logarithms\<close>

text \<open>C27: Round trip of addresses. For field widths below 31 whose sum fits into 63 bits, the address that
  \<^verbatim>\<open>readRow\<close> and \<^verbatim>\<open>writeRow\<close> pack from a vault, a bank, a row and a column (in both layouts) is sliced by
  \<^verbatim>\<open>send\<close> into the same coordinates: the bank number split into rank and bank, each number cut to its field.\<close>

theorem row_address_roundtrip:
  assumes "b0 < 31" "b1 < 31" "b2 < 31" "b3 < 31" "b4 < 31" and "b0 + b1 + b2 + b3 + b4 \<le> 63"
  shows "(row_address ty [int b0, int b1, int b2, int b3, int b4] vault bank row col \<bind>
     (\<lambda>w. address_vector ty [int b0, int b1, int b2, int b3, int b4] (sint w))) =
     Some [take_bit b0 vault, take_bit b1 (drop_bit b2 bank), take_bit b2 bank, take_bit b3 row, take_bit b4 col]"
proof -
  obtain w where "row_address ty [int b0, int b1, int b2, int b3, int b4] vault bank row col = Some w"
    "address_vector ty [int b0, int b1, int b2, int b3, int b4] (sint w) = Some (coords b0 b1 b2 b3 b4 vault bank row col)"
    by (rule row_address_vector[OF assms])
  then show ?thesis by (simp add: coords_def)
qed

theorem row_address_roundtrip_witness:
  "(row_address RoBaRaCoCh [5, 2, 1, 14, 4] 31 7 9999 13 \<bind> (\<lambda>w. address_vector RoBaRaCoCh [5, 2, 1, 14, 4] (sint w))) =
     Some [31, 3, 1, 9999, 13]"
  using row_address_roundtrip[of 5 2 1 14 4 RoBaRaCoCh 31 7 9999 13] by (simp add: take_bit_eq_mod drop_bit_eq_div)

text \<open>\<^verbatim>\<open>calc_log2\<close> returns exactly for the values that are not negative (for a negative one the arithmetic
  shift never reaches zero), and then it is the floor of the binary logarithm, with 0 for the value 0.\<close>

theorem calc_log2_floor:
  "case calc_log2 v of None \<Rightarrow> v < 0
   | Some n \<Rightarrow> 0 \<le> v \<and> 0 \<le> n \<and> (if v = 0 then n = 0 else 2 ^ nat n \<le> v \<and> v < 2 ^ (nat n + 1))"
proof (cases "0 \<le> v")
  case True
  then obtain k where "calc_log2 v = Some (int k)" "v = 0 \<and> k = 0 \<or> 2 ^ k \<le> v \<and> v < 2 ^ Suc k"
    using calc_log2_loop_spec[of v 0] by (auto simp: calc_log2_def)
  then show ?thesis using True by auto
next
  case False
  then have "calc_log2 v = None" using calc_log2_loop_nonneg[of 0 v] by (cases "calc_log2_loop 0 v") (auto simp: calc_log2_def)
  then show ?thesis using False by simp
qed

end
