(* ===== verification/Ram_Loops.thy ===== *)
theory Ram_Loops
  imports Ram_More
begin

section \<open>The replay loop and the row policies\<close>

text \<open>
  When the loop of \<^verbatim>\<open>updateLatency\<close> ends and when it does not, and what the two row policies that the
  controller does not use would do.
\<close>

subsection \<open>Replayed writes\<close>

lemma vault_channel:
  assumes ok: "run_state_ok b0 b1 d"
  obtains w vec where "row_address (mm_type (dm_memory d)) (mm_addr_bits (dm_memory d)) v b r co = Some w"
    "address_vector (mm_type (dm_memory d)) (mm_addr_bits (dm_memory d)) (sint w) = Some vec" "vec ! 0 = v mod 2 ^ b0"
proof -
  have "mem_ok (2 ^ b0) (2 ^ b1) 4 (dm_memory d)" using ok by (simp add: run_state_ok_def dm_ok_def)
  then obtain c0 c1 c3 c4 where c: "mm_addr_bits (dm_memory d) = [int c0, int c1, int 1, int c3, int c4]" "(2 :: nat) ^ b0 = 2 ^ c0"
      "c0 < 31" "c1 < 31" "1 < (31 :: nat)" "c3 < 31" "c4 < 31" "c0 + c1 + 1 + c3 + c4 \<le> 63"
    by (auto simp: mem_ok_def)
  have b: "c0 = b0" using c(2) by simp
  obtain w where w: "row_address (mm_type (dm_memory d)) [int c0, int c1, int 1, int c3, int c4] v b r co = Some w"
    "address_vector (mm_type (dm_memory d)) [int c0, int c1, int 1, int c3, int c4] (sint w) = Some (coords c0 c1 1 c3 c4 v b r co)"
    by (rule row_address_vector[OF c(3-8)])
  show thesis
    by (rule that[OF w[folded c(1)]]) (simp add: coords_def b take_bit_eq_mod)
qed

text \<open>C16: The replay of a write ends, and floods its channel. In every reachable state and for every
  row, the \<^verbatim>\<open>while (stall)\<close> loop that sends a write ends after exactly one attempt more than the write queue
  of the channel (the vault number modulo the number of channels) has free slots, counts that many clocks,
  and leaves that queue full: every attempt but the last one enqueues another copy of the write.\<close>

theorem write_replay_fills_queue:
  assumes "config_ok lines b0 b1" and "\<forall>e\<in>set es. dm_allowed (2 ^ b0) (2 ^ b1) e"
  shows "\<exists>d. dm_run uninit lines es = Some d \<and> (\<forall>v b r co n. let ch = nat (v mod 2 ^ b0) in
     \<exists>d'. stall_loop (writeRow v b r co) n d = Some (n + (32 - int (length (rc_writeq (mm_ctrls (dm_memory d) ! ch)))) + 1, d') \<and>
       32 \<le> length (rc_writeq (mm_ctrls (dm_memory d') ! ch)))"
proof -
  obtain d where d: "dm_run uninit lines es = Some d" "run_state_ok b0 b1 d"
    using dm_run_ok[OF assms] by (auto simp: runs_iff)
  have ok: "mem_ok (2 ^ b0) (2 ^ b1) 4 (dm_memory d)" using d(2) by (simp add: run_state_ok_def dm_ok_def)
  have "\<exists>d'. stall_loop (writeRow v b r co) n d = Some (n + (32 - int (length (rc_writeq (mm_ctrls (dm_memory d) ! ch)))) + 1, d') \<and>
       32 \<le> length (rc_writeq (mm_ctrls (dm_memory d') ! ch))" if ch: "ch = nat (v mod 2 ^ b0)" for v b r co n ch
  proof -
    obtain w vec where w: "row_address (mm_type (dm_memory d)) (mm_addr_bits (dm_memory d)) v b r co = Some w"
      "address_vector (mm_type (dm_memory d)) (mm_addr_bits (dm_memory d)) (sint w) = Some vec" "vec ! 0 = v mod 2 ^ b0"
      by (rule vault_channel[OF d(2)])
    have "ch < 2 ^ b0" using ch by (simp add: nat_less_iff)
    then have "length (rc_writeq (mm_ctrls (dm_memory d) ! ch)) \<le> 32"
      using mem_okD(4)[OF ok] ctrl_invD(6) by (fastforce simp: ctrl_ok_def queues_ok_def queue_max_def)
    then show ?thesis
      using stall_loop_write[OF ok w(1,2), of ch n] w(3) ch by (auto simp: free_slots_def queue_max_def)
  qed
  then show ?thesis using d(1) by (auto simp: Let_def)
qed

theorem write_replay_fills_queue_witness:
  "\<exists>d d' n. dm_run 0 shipped_config [WriteLatency 3 1 100 0 100, Tick] = Some d \<and>
     stall_loop (writeRow 35 7 9 2) 0 d = Some (n, d') \<and> 32 \<le> length (rc_writeq (mm_ctrls (dm_memory d') ! 3))"
proof -
  have "\<forall>e\<in>set [WriteLatency 3 1 100 0 100, Tick]. dm_allowed (2 ^ 5) (2 ^ 2) e" by simp
  from write_replay_fills_queue[OF shipped_ok(1) this, of 0] obtain d where
    d: "dm_run 0 shipped_config [WriteLatency 3 1 100 0 100, Tick] = Some d"
      "\<forall>v b r co n. \<exists>d'. stall_loop (writeRow v b r co) n d =
         Some (n + (32 - int (length (rc_writeq (mm_ctrls (dm_memory d) ! nat (v mod 2 ^ 5))))) + 1, d') \<and>
         32 \<le> length (rc_writeq (mm_ctrls (dm_memory d') ! nat (v mod 2 ^ 5)))"
    unfolding Let_def by auto
  show ?thesis using d(1) d(2)[THEN spec, THEN spec, THEN spec, THEN spec, THEN spec, of 35 7 9 2 0] by auto
qed

subsection \<open>Replayed reads\<close>

text \<open>
  The loop that never ends, told apart from a call that fails: every attempt returns and asks for
  another one, in an infinite chain of states.
\<close>

coinductive replays_forever :: "(dram_model \<Rightarrow> (bool \<times> dram_model) option) \<Rightarrow> dram_model \<Rightarrow> bool" for snd_row where
  replay_again: "snd_row d = Some (True, d') \<Longrightarrow> replays_forever snd_row d' \<Longrightarrow> replays_forever snd_row d"

inductive_cases replays_foreverE: "replays_forever f d"

lemma replays_foreverI:
  assumes P: "P d" and f: "\<And>d. P d \<Longrightarrow> \<exists>d'. f d = Some (True, d') \<and> P d'"
  shows "replays_forever f d"
  using P by (coinduction arbitrary: d) (use f in blast)

lemma replays_forever_chain:
  assumes "replays_forever f d"
  shows "\<exists>ds. ds 0 = d \<and> (\<forall>i. f (ds i) = Some (True, ds (Suc i)))"
proof -
  have "\<exists>d'. f e = Some (True, d') \<and> replays_forever f d'" if "replays_forever f e" for e
    using that by (auto elim: replays_foreverE)
  then have "\<exists>ds. ds 0 = d \<and> (\<forall>i. replays_forever f (ds i) \<and> f (ds i) = Some (True, ds (Suc i)))"
    using assms dependent_nat_choice[of "\<lambda>i e. replays_forever f e \<and> (i = 0 \<longrightarrow> e = d)" "\<lambda>i e e'. f e = Some (True, e')"] by auto
  then show ?thesis by blast
qed

text \<open>Such a loop has no result, the value \<open>None\<close> of its fixed point.\<close>

lemma stall_loop_forever:
  assumes "replays_forever f d"
  shows "stall_loop f n d = None"
proof (rule ccontr)
  assume "stall_loop f n d \<noteq> None"
  then obtain y where y: "stall_loop f n d = Some y" by auto
  have "\<not> replays_forever f d"
    using y
  proof (induction rule: stall_loop.raw_induct[rotated, consumes 1])
    case (1 loop snd_row clks d y)
    show ?case
    proof
      assume "replays_forever snd_row d"
      then obtain d' where d': "snd_row d = Some (True, d')" "replays_forever snd_row d'" by (rule replays_foreverE)
      then show False using 1(2) 1(1)[of snd_row "clks + 1" d' y] by simp
    qed
  qed
  then show False using assms by blast
qed

definition write_waits :: "nat \<Rightarrow> nat \<Rightarrow> nat \<Rightarrow> addr_layout \<Rightarrow> int list \<Rightarrow> nat \<Rightarrow> int \<Rightarrow> dram_model \<Rightarrow> bool" where
  "write_waits C R K ty bits ch a d \<longleftrightarrow> mem_ok C R K (dm_memory d) \<and> mm_type (dm_memory d) = ty \<and> mm_addr_bits (dm_memory d) = bits \<and>
     (\<exists>q\<in>set (rc_writeq (mm_ctrls (dm_memory d) ! ch)). rq_addr q = a) \<and> length (rc_readq (mm_ctrls (dm_memory d) ! ch)) < 32"

lemma enqueue_forwarded:
  assumes "rq_type req = READ" "\<exists>q\<in>set (rc_writeq c). rq_addr q = rq_addr req" "length (rc_readq c) < 32"
  shows "rc_writeq (snd (enqueue req c)) = rc_writeq c" "rc_readq (snd (enqueue req c)) = rc_readq c"
proof -
  have "(\<exists>q\<in>set (rc_writeq c). rq_addr req = rq_addr q) = True" using assms(2) by metis
  then show "rc_writeq (snd (enqueue req c)) = rc_writeq c" "rc_readq (snd (enqueue req c)) = rc_readq c"
    using assms(1,3) by (simp_all add: enqueue_def Let_def queue_max_def)
qed

lemma readRow_forwarded:
  assumes W: "write_waits C R K ty bits ch (sint w) d" and w: "row_address ty bits v b r co = Some w"
    and vec: "address_vector ty bits (sint w) = Some vec" and ch: "ch = nat (vec ! 0)"
  shows "\<exists>d'. readRow v b r co d = Some (True, d') \<and> write_waits C R K ty bits ch (sint w) d'"
proof -
  let ?m = "dm_memory d" and ?req = "RamRequest (sint w) READ 0"
  have W': "mem_ok C R K ?m" "mm_type ?m = ty" "mm_addr_bits ?m = bits" "length (rc_readq (mm_ctrls ?m ! ch)) < 32"
    "\<exists>q\<in>set (rc_writeq (mm_ctrls ?m ! ch)). rq_addr q = sint w" using W by (auto simp: write_waits_def)
  have K: "0 < int K" using W' by (simp add: mem_ok_def)
  have "runs (send ?req ?m) (\<lambda>(res, m'). mem_ok C R K m' \<and> mem_frame ?m m' \<and> ch < C \<and>
     (res \<longleftrightarrow> length (the_queue (get_queue (rq_type ?req)) (mm_ctrls ?m ! ch)) < queue_max) \<and>
     mm_ctrls m' = (mm_ctrls ?m)[ch := snd (enqueue (?req\<lparr>rq_addr_vec := vec\<rparr>) (mm_ctrls ?m ! ch))])"
    by (rule send_runs[OF W'(1)]) (use W' vec ch K in \<open>simp_all add: RamRequest_def\<close>)
  then obtain m' where m': "send ?req ?m = Some (True, m')" "mem_ok C R K m'" "mem_frame ?m m'" "ch < C"
     "mm_ctrls m' = (mm_ctrls ?m)[ch := snd (enqueue (?req\<lparr>rq_addr_vec := vec\<rparr>) (mm_ctrls ?m ! ch))]"
    using W'(4) by (auto simp: runs_iff RamRequest_def queue_max_def)
  have "mm_ctrls m' ! ch = snd (enqueue (?req\<lparr>rq_addr_vec := vec\<rparr>) (mm_ctrls ?m ! ch))"
    using m'(4,5) mem_okD(1)[OF W'(1)] by simp
  then have "rc_writeq (mm_ctrls m' ! ch) = rc_writeq (mm_ctrls ?m ! ch)" "rc_readq (mm_ctrls m' ! ch) = rc_readq (mm_ctrls ?m ! ch)"
    using enqueue_forwarded[of "?req\<lparr>rq_addr_vec := vec\<rparr>"] W'(4,5) by (simp_all add: RamRequest_def)
  then have "write_waits C R K ty bits ch (sint w) (d\<lparr>dm_memory := m'\<rparr>)"
    using W' m'(2,3) by (simp add: write_waits_def mem_frame_def)
  then show ?thesis using m'(1) w W'(2,3) by (simp add: readRow_def send_row_def)
qed

lemma readRow_full:
  assumes M: "mem_ok C R K (dm_memory d)" and w: "row_address (mm_type (dm_memory d)) (mm_addr_bits (dm_memory d)) v b r co = Some w"
    and vec: "address_vector (mm_type (dm_memory d)) (mm_addr_bits (dm_memory d)) (sint w) = Some vec" and ch: "ch = nat (vec ! 0)"
    and full: "32 \<le> length (rc_readq (mm_ctrls (dm_memory d) ! ch))"
  shows "\<exists>d'. readRow v b r co d = Some (False, d')"
proof -
  let ?m = "dm_memory d" and ?req = "RamRequest (sint w) READ 0"
  have K: "0 < int K" using M by (simp add: mem_ok_def)
  have "runs (send ?req ?m) (\<lambda>(res, m'). mem_ok C R K m' \<and> mem_frame ?m m' \<and> ch < C \<and>
     (res \<longleftrightarrow> length (the_queue (get_queue (rq_type ?req)) (mm_ctrls ?m ! ch)) < queue_max) \<and>
     mm_ctrls m' = (mm_ctrls ?m)[ch := snd (enqueue (?req\<lparr>rq_addr_vec := vec\<rparr>) (mm_ctrls ?m ! ch))])"
    by (rule send_runs[OF M]) (use vec ch K in \<open>simp_all add: RamRequest_def\<close>)
  then obtain m' where "send ?req ?m = Some (False, m')"
    using full by (auto simp: runs_iff RamRequest_def queue_max_def)
  then show ?thesis using w by (simp add: readRow_def send_row_def)
qed

text \<open>C25: The replay of a read of a row with a queued write never ends. In every reachable state, take a write that
  waits in the write queue of a channel and a read of the same row address (same packed address). When
  the read queue of that channel has room, the \<^verbatim>\<open>while (stall)\<close> loop for this read sends the read again and
  again for ever: each attempt returns and is accepted, because \<^verbatim>\<open>enqueue\<close> answers the read from the queued
  write without taking a place in the read queue, and so the loop condition stays true. When the read queue
  is full the loop ends after one attempt. (The simulator is spared this loop only because
  \<^verbatim>\<open>getReadLatency\<close> does not record its reads for the replay.)\<close>

theorem read_replay_diverges:
  assumes "config_ok lines b0 b1" and "\<forall>e\<in>set es. dm_allowed (2 ^ b0) (2 ^ b1) e" and "dm_run uninit lines es = Some d"
    and "row_address (mm_type (dm_memory d)) (mm_addr_bits (dm_memory d)) v b r co = Some w"
    and "q \<in> set (rc_writeq (mm_ctrls (dm_memory d) ! nat (v mod 2 ^ b0)))" and "rq_addr q = sint w"
  shows "if length (rc_readq (mm_ctrls (dm_memory d) ! nat (v mod 2 ^ b0))) < 32
     then replays_forever (readRow v b r co) d \<and> stall_loop (readRow v b r co) n d = None
     else \<exists>d'. stall_loop (readRow v b r co) n d = Some (n + 1, d')"
proof -
  have ok: "run_state_ok b0 b1 d" using dm_run_ok[OF assms(1,2), of uninit] assms(3) by simp
  let ?m = "dm_memory d" and ?ch = "nat (v mod 2 ^ b0)"
  obtain w' vec where w': "row_address (mm_type ?m) (mm_addr_bits ?m) v b r co = Some w'"
    "address_vector (mm_type ?m) (mm_addr_bits ?m) (sint w') = Some vec" "vec ! 0 = v mod 2 ^ b0"
    by (rule vault_channel[OF ok])
  then have w: "address_vector (mm_type ?m) (mm_addr_bits ?m) (sint w) = Some vec" "vec ! 0 = v mod 2 ^ b0" using assms(4) by simp_all
  have M: "mem_ok (2 ^ b0) (2 ^ b1) 4 ?m" using ok by (simp add: run_state_ok_def dm_ok_def)
  let ?P = "write_waits (2 ^ b0) (2 ^ b1) 4 (mm_type ?m) (mm_addr_bits ?m) ?ch (sint w)"
  show ?thesis
  proof (cases "length (rc_readq (mm_ctrls ?m ! ?ch)) < 32")
    case True
    then have "?P d" using M assms(5,6) by (auto simp: write_waits_def)
    then have "replays_forever (readRow v b r co) d"
      by (rule replays_foreverI) (rule readRow_forwarded[OF _ assms(4) w(1)], use w(2) in simp_all)
    then show ?thesis using True stall_loop_forever by simp
  next
    case False
    then obtain d' where "readRow v b r co d = Some (False, d')"
      using readRow_full[OF M assms(4) w(1), of ?ch] w(2) by auto
    then show ?thesis using False by (subst stall_loop.simps) simp
  qed
qed

text \<open>After one replayed write of the small configuration the write queue is full of it.\<close>

definition queued_write :: "dram_model \<Rightarrow> (bool \<times> bool) option" where
  "queued_write d = do {
     w \<leftarrow> row_address (mm_type (dm_memory d)) (mm_addr_bits (dm_memory d)) 0 0 5 0;
     Some (length (rc_readq (mm_ctrls (dm_memory d) ! 0)) < 32, list_ex (\<lambda>q. rq_addr q = sint w) (rc_writeq (mm_ctrls (dm_memory d) ! 0))) }"

lemma small_queued_write: "(dm_run 0 small_config [WriteLatency 0 0 5 0 300] \<bind> queued_write) = Some (True, True)"
  by code_simp

theorem read_replay_diverges_witness:
  "\<exists>d. dm_run 0 small_config [WriteLatency 0 0 5 0 300] = Some d \<and> replays_forever (readRow 0 0 5 0) d \<and>
     stall_loop (readRow 0 0 5 0) 0 d = None"
proof -
  obtain d w q where d: "dm_run 0 small_config [WriteLatency 0 0 5 0 300] = Some d"
    "row_address (mm_type (dm_memory d)) (mm_addr_bits (dm_memory d)) 0 0 5 0 = Some w"
    "length (rc_readq (mm_ctrls (dm_memory d) ! nat (0 mod 2 ^ 0))) < 32"
    "q \<in> set (rc_writeq (mm_ctrls (dm_memory d) ! nat (0 mod 2 ^ 0)))" "rq_addr q = sint w"
    using small_queued_write by (auto simp: queued_write_def list_ex_iff split: bind_splits)
  have "\<forall>e\<in>set [WriteLatency 0 0 5 0 300]. dm_allowed (2 ^ 0) (2 ^ 1) e" by simp
  from read_replay_diverges[OF shipped_ok(2) this d(1,2,4,5), of 0] d(1,3) show ?thesis by simp
qed

subsection \<open>The row policies that close rows\<close>

lemma check_short_key:
  assumes ok: "tree_ok s ch R 2 t" and i: "i < R" and j: "j < 2"
  shows "check PRE [ch, int i, int j] clk t \<noteq> Some True"
proof (rule tree_path_cases[OF ok i j])
  fix n cs nr rs nb
  assume t: "t = Node n cs" "cs ! i = Node nr rs" "rs ! j = Node nb []" "length cs = R" "length rs = 2"
    "node_ok s Channel ch n" "node_ok s Rank (int i) nr" "node_ok s Bank (int j) nb"
  then show ?thesis
    using i j by (auto simp: child_index_def node_ok_level ifetch_def)
qed

lemma find_victim_short:
  assumes ok: "tree_ok s ch R 2 (rc_channel c)" and k: "\<forall>k\<in>fst ` set tab. \<exists>i<R. \<exists>j<2. k = [ch, int i, int j]"
  shows "find_victim el PRE c tab \<in> {None, Some []}"
  using k
proof (induction tab)
  case (Cons ke tab)
  obtain k e where ke: "ke = (k, e)" by (cases ke)
  then obtain i j where "i < R" "j < 2" "k = [ch, int i, int j]" using Cons.prems by auto
  then have "is_ready_cmd PRE k c \<noteq> Some True" using check_short_key[OF ok] by (simp add: is_ready_cmd_def)
  then show ?case
    using Cons by (cases "is_ready_cmd PRE k c") (auto simp: ke)
qed simp

text \<open>The Closed and Timeout policies never close a row. Whatever policy is put into a channel of a
  reachable state, \<^verbatim>\<open>get_victim\<close> either finds no victim or reads past the end of the key of an open row: the
  keys of the row table have three elements, and \<^verbatim>\<open>check\<close> reads the row, the fourth one, before it
  answers that the bank can be precharged.\<close>

theorem policies_find_no_victim:
  assumes "config_ok lines b0 b1" and "\<forall>e\<in>set es. dm_allowed (2 ^ b0) (2 ^ b1) e"
  shows "\<exists>d. dm_run uninit lines es = Some d \<and> (\<forall>k<2 ^ b0. \<forall>p.
     get_victim PRE ((mm_ctrls (dm_memory d) ! k)\<lparr>rc_policy_type := p\<rparr>) \<in> {None, Some []})"
proof -
  obtain d where d: "dm_run uninit lines es = Some d" "run_state_ok b0 b1 d"
    using dm_run_ok[OF assms] by (auto simp: runs_iff)
  have "get_victim PRE ((mm_ctrls (dm_memory d) ! k)\<lparr>rc_policy_type := p\<rparr>) \<in> {None, Some []}" if k: "k < 2 ^ b0" for k p
  proof -
    let ?c = "(mm_ctrls (dm_memory d) ! k)\<lparr>rc_policy_type := p\<rparr>"
    have inv: "ctrl_inv (int k) (2 ^ b1) 4 (rc_clk (mm_ctrls (dm_memory d) ! k)) (rc_clk (mm_ctrls (dm_memory d) ! k) + 1) (mm_ctrls (dm_memory d) ! k)"
      using d(2) k by (simp add: run_state_ok_def ctrl_ok_def)
    note I = ctrl_invD[OF inv]
    have "find_victim el PRE ?c (rc_rowtable ?c) \<in> {None, Some []}" for el
      by (rule find_victim_short[where R = "2 ^ b1"]) (use I(4) conjunct1[OF conjunct2[OF I(5)[unfolded table_ok_def]]] in simp_all)
    then show ?thesis by (cases p) (simp_all add: get_victim_def)
  qed
  then show ?thesis using d(1) by blast
qed

theorem policies_find_no_victim_witness:
  "\<exists>d. dm_run 0 small_config [WriteLatency 0 0 5 0 300, Tick] = Some d \<and>
     get_victim PRE ((mm_ctrls (dm_memory d) ! 0)\<lparr>rc_policy_type := PolicyClosed\<rparr>) \<in> {None, Some []}"
proof -
  have "\<forall>e\<in>set [WriteLatency 0 0 5 0 300, Tick]. dm_allowed (2 ^ 0) (2 ^ 1) e" by simp
  from policies_find_no_victim[OF shipped_ok(2) this, of 0] show ?thesis by (metis less_one power_0)
qed

end
