(* ===== verification/Ram_Pages.thy ===== *)
theory Ram_Pages
  imports Ram_Props
begin

section \<open>The page allocator\<close>

text \<open>
  \<^verbatim>\<open>page_allocator\<close> of \<^verbatim>\<open>RamMemory.h\<close> for sequences of translations, each with the number that \<^verbatim>\<open>lrand()\<close>
  returned, an address and a core. The scan for a free page ends because the number of remaining pages
  is the number of free entries of the list.
\<close>

subsection \<open>The scan for a free page\<close>

lemma next_free_page_skip:
  assumes n: "n = length pages" "0 < n" and j: "j < n" "pages ! ((s + j) mod n) = - 1"
    and first: "\<And>k. 0 < k \<Longrightarrow> k < j \<Longrightarrow> pages ! ((s + k) mod n) \<noteq> - 1" and s: "s < n" and i: "i < j"
  shows "next_free_page pages (int s) (int ((s + i) mod n)) = Some (int ((s + j) mod n))"
  using i
proof (induction "j - i" arbitrary: i)
  case (Suc m)
  have step: "(int ((s + i) mod n) + 1) mod int (length pages) = int ((s + Suc i) mod n)"
    by (simp add: n(1)[symmetric] zmod_int mod_simps ac_simps)
  have f: "ifetch pages (int ((s + Suc i) mod n)) = Some (pages ! ((s + Suc i) mod n))"
    using n by (simp add: ifetch_def)
  have ne: "(s + Suc i) mod n \<noteq> s"
  proof
    assume "(s + Suc i) mod n = s"
    then have "(s + Suc i) mod n = s mod n" using s by simp
    then have "n dvd Suc i" by (metis add_diff_cancel_left' mod_eq_dvd_iff_nat le_add1)
    then show False using Suc.prems j(1) by (auto dest: dvd_imp_le)
  qed
  show ?case
  proof (cases "Suc i = j")
    case True
    then show ?thesis using f j(2) by (subst next_free_page.simps) (simp add: step Let_def)
  next
    case False
    then have "next_free_page pages (int s) (int ((s + i) mod n)) = next_free_page pages (int s) (int ((s + Suc i) mod n))"
      using f ne first[of "Suc i"] Suc.prems by (subst next_free_page.simps) (simp add: step Let_def)
    also have "\<dots> = Some (int ((s + j) mod n))" using Suc False by (intro Suc.hyps(1)) auto
    finally show ?thesis .
  qed
qed simp

lemma next_free_page_finds:
  assumes s: "s < length pages" "pages ! s \<noteq> - 1" and f: "f < length pages" "pages ! f = - 1"
  shows "\<exists>p<length pages. next_free_page pages (int s) (int s) = Some (int p) \<and> pages ! p = - 1"
proof -
  let ?n = "length pages"
  let ?P = "\<lambda>k. 0 < k \<and> k < ?n \<and> pages ! ((s + k) mod ?n) = - 1"
  have "\<exists>k. ?P k"
  proof (cases "s < f")
    case True
    then show ?thesis using f by (intro exI[of _ "f - s"]) simp
  next
    case False
    then have "f < s" using s f by (cases "f = s") auto
    then have "s + (?n - s + f) = f + ?n" "0 < ?n - s + f" "?n - s + f < ?n" using s by auto
    then show ?thesis using f by (intro exI[of _ "?n - s + f"]) simp
  qed
  then obtain j where j: "?P j" "\<And>k. k < j \<Longrightarrow> \<not> ?P k" using exists_least_iff[of ?P] by blast
  have "next_free_page pages (int s) (int ((s + 0) mod ?n)) = Some (int ((s + j) mod ?n))"
    by (rule next_free_page_skip) (use j s in auto)
  then show ?thesis using j(1) mod_less_divisor[OF le_less_trans[OF le0 s(1)]] s(1)
    by (intro exI[of _ "(s + j) mod ?n"]) simp
qed

lemma pick_page_finds:
  assumes "0 \<le> r" and free: "f < length pages" "pages ! f = - 1"
  shows "\<exists>p<length pages. pick_page r pages = Some (int p) \<and> pages ! p = - 1"
proof -
  let ?p = "r mod int (length pages)"
  obtain s where s: "?p = int s" "s < length pages"
    using free(1) by (metis gr_zeroI length_0_conv list.size(3) nat_0_le nat_less_iff not_less_zero of_nat_0_less_iff pos_mod_bound pos_mod_sign)
  have "ifetch pages (int s) = Some (pages ! s)" "guard (pages \<noteq> []) = Some ()" using s(2) by (auto simp: ifetch_def guard_def)
  then show ?thesis
    using next_free_page_finds[OF s(2) _ free] s free by (cases "pages ! s = - 1") (auto simp: pick_page_def s(1))
qed

subsection \<open>The invariant\<close>

definition free_count :: "int list \<Rightarrow> nat" where
  "free_count pages = length (filter (\<lambda>p. p = - 1) pages)"

definition pages_ok :: "ram_memory \<Rightarrow> bool" where
  "pages_ok m \<longleftrightarrow> mm_translation m = RandomTranslation \<and> mm_free_physical_pages m \<noteq> [] \<and>
     mm_free_physical_pages_remaining m = int (free_count (mm_free_physical_pages m)) \<and> 0 \<le> mm_physical_page_replacement m \<and>
     (\<forall>t p. mm_page_translation m t = Some p \<longrightarrow> 0 \<le> p \<and> p < int (length (mm_free_physical_pages m)) \<and>
        mm_free_physical_pages m ! nat p \<noteq> - 1) \<and>
     (mm_physical_page_replacement m = 0 \<longrightarrow> inj_on (mm_page_translation m) (dom (mm_page_translation m)) \<and>
        (\<forall>t p. mm_page_translation m t = Some p \<longrightarrow> mm_free_physical_pages m ! nat p = fst t)) \<and>
     (mm_physical_page_replacement m \<noteq> 0 \<longrightarrow> mm_free_physical_pages_remaining m = 0)"

lemma pages_okD:
  assumes "pages_ok m"
  shows "mm_translation m = RandomTranslation" "mm_free_physical_pages m \<noteq> []"
    "mm_free_physical_pages_remaining m = int (free_count (mm_free_physical_pages m))" "0 \<le> mm_physical_page_replacement m"
    "mm_page_translation m t = Some p \<Longrightarrow> 0 \<le> p \<and> p < int (length (mm_free_physical_pages m)) \<and> mm_free_physical_pages m ! nat p \<noteq> - 1"
    "mm_physical_page_replacement m = 0 \<Longrightarrow> inj_on (mm_page_translation m) (dom (mm_page_translation m))"
    "mm_physical_page_replacement m = 0 \<Longrightarrow> mm_page_translation m t = Some p \<Longrightarrow> mm_free_physical_pages m ! nat p = fst t"
    "mm_physical_page_replacement m \<noteq> 0 \<Longrightarrow> mm_free_physical_pages_remaining m = 0"
  using assms unfolding pages_ok_def by blast+

lemma free_count_update: "i < length xs \<Longrightarrow> xs ! i = - 1 \<Longrightarrow> x \<noteq> - 1 \<Longrightarrow> Suc (free_count (xs[i := x])) = free_count xs"
proof (induction xs arbitrary: i)
  case (Cons a xs)
  then show ?case by (cases i) (auto simp: free_count_def)
qed simp

lemma free_count_pos: "free_count xs \<noteq> 0 \<longleftrightarrow> (\<exists>i<length xs. xs ! i = - 1)"
  by (auto simp: free_count_def filter_empty_conv in_set_conv_nth)

lemma take_page:
  assumes ok: "pages_ok m" and new: "mm_page_translation m (core, v) = None" and core: "0 \<le> core"
    and p: "p < length (mm_free_physical_pages m)" "mm_free_physical_pages m ! p = - 1"
  shows "pages_ok (m\<lparr>mm_page_translation := (mm_page_translation m)((core, v) \<mapsto> int p),
     mm_free_physical_pages := (mm_free_physical_pages m)[p := core],
     mm_free_physical_pages_remaining := mm_free_physical_pages_remaining m - 1\<rparr>)"
proof -
  let ?tr = "mm_page_translation m" and ?ps = "mm_free_physical_pages m"
  have old: "0 \<le> x \<and> x < int (length ?ps) \<and> ?ps ! nat x \<noteq> - 1 \<and> nat x \<noteq> p" if "?tr t = Some x" for t x
    using pages_okD(5)[OF ok that] p(2) by metis
  have "free_count ?ps \<noteq> 0" using p free_count_pos by blast
  then have r: "mm_free_physical_pages_remaining m \<noteq> 0" using ok by (simp add: pages_ok_def)
  then have r0: "mm_physical_page_replacement m = 0" using ok by (auto simp: pages_ok_def)
  have inj: "inj_on ?tr (dom ?tr)" "\<And>t x. ?tr t = Some x \<Longrightarrow> ?ps ! nat x = fst t" by (rule pages_okD(6,7)[OF ok r0]; assumption?)+
  have "inj_on (?tr((core, v) \<mapsto> int p)) (dom (?tr((core, v) \<mapsto> int p)))"
  proof (rule inj_onI)
    fix t u assume tu: "t \<in> dom (?tr((core, v) \<mapsto> int p))" "u \<in> dom (?tr((core, v) \<mapsto> int p))"
      "(?tr((core, v) \<mapsto> int p)) t = (?tr((core, v) \<mapsto> int p)) u"
    have no: "?tr w \<noteq> Some (int p)" for w using old[of w "int p"] by auto
    show "t = u"
      using tu no no[symmetric] inj_onD[OF inj(1), of t u] by (cases "t = (core, v)"; cases "u = (core, v)") auto
  qed
  moreover have "int (free_count (?ps[p := core])) = mm_free_physical_pages_remaining m - 1"
    using free_count_update[OF p, of core] core ok by (simp add: pages_ok_def)
  moreover have bnd: "0 \<le> x \<and> x < int (length ?ps) \<and> ?ps[p := core] ! nat x \<noteq> - 1 \<and> ?ps[p := core] ! nat x = fst t"
    if t: "(?tr((core, v) \<mapsto> int p)) t = Some x" for t x
  proof (cases "t = (core, v)")
    case True
    then show ?thesis using t p(1) core by auto
  next
    case False
    then have "?tr t = Some x" using t by simp
    then show ?thesis using old[of t x] inj(2)[of t x] by simp
  qed
  ultimately show ?thesis
    using pages_okD(1,2)[OF ok] r0 unfolding pages_ok_def by (auto dest: bnd simp del: fun_upd_apply)
qed

lemma page_allocator_runs:
  assumes ok: "pages_ok m" and r: "0 \<le> r" and core: "0 \<le> core"
  shows "runs (page_allocator r addr core m) (\<lambda>(a, m'). pages_ok m' \<and>
     length (mm_free_physical_pages m') = length (mm_free_physical_pages m) \<and>
     mm_page_translation m \<subseteq>\<^sub>m mm_page_translation m' \<and>
     (\<exists>p. mm_page_translation m' (core, drop_bit 12 addr) = Some p \<and> a = push_bit 12 p OR (addr AND 4095)))"
proof -
  let ?t = "(core, drop_bit 12 addr)" and ?ps = "mm_free_physical_pages m"
  have tr: "mm_translation m = RandomTranslation" "?ps \<noteq> []" using ok by (auto simp: pages_ok_def)
  show ?thesis
  proof (cases "mm_page_translation m ?t")
    case (Some p)
    then show ?thesis using ok by (simp add: page_allocator_def tr Let_def)
  next
    case None
    show ?thesis
    proof (cases "mm_free_physical_pages_remaining m = 0")
      case True
      let ?p = "r mod int (length ?ps)"
      have p: "0 \<le> ?p" "?p < int (length ?ps)" using tr(2) by auto
      have "free_count ?ps = 0" using ok True by (simp add: pages_ok_def)
      then have owned: "?ps ! nat ?p \<noteq> - 1" using p free_count_pos[of ?ps] by (metis nat_less_iff)
      let ?m = "m\<lparr>mm_physical_page_replacement := mm_physical_page_replacement m + 1,
                  mm_page_translation := (mm_page_translation m)(?t \<mapsto> ?p)\<rparr>"
      have "page_allocator r addr core m = Some (push_bit 12 ?p OR (addr AND 4095), ?m)"
        using p owned tr True None by (simp add: page_allocator_def Let_def guard_def ifetch_def nat_less_iff)
      moreover have "pages_ok ?m" using ok p owned True by (auto simp: pages_ok_def)
      ultimately show ?thesis using None by (auto simp: map_le_def)
    next
      case False
      then have "free_count ?ps \<noteq> 0" using ok by (simp add: pages_ok_def)
      then obtain f where f: "f < length ?ps" "?ps ! f = - 1" using free_count_pos by blast
      obtain p where p: "p < length ?ps" "pick_page r ?ps = Some (int p)" "?ps ! p = - 1"
        using pick_page_finds[OF r f] by blast
      let ?m = "m\<lparr>mm_page_translation := (mm_page_translation m)(?t \<mapsto> int p), mm_free_physical_pages := ?ps[p := core],
          mm_free_physical_pages_remaining := mm_free_physical_pages_remaining m - 1\<rparr>"
      have "page_allocator r addr core m = Some (push_bit 12 (int p) OR (addr AND 4095), ?m)"
        using p tr False None by (simp add: page_allocator_def Let_def guard_def ifetch_def istore_def)
      moreover have "pages_ok ?m" by (rule take_page[OF ok None core p(1,3)])
      ultimately show ?thesis using None by (auto simp: map_le_def)
    qed
  qed
qed

subsection \<open>Sequences of translations\<close>

definition translate_all :: "(int \<times> int \<times> int) list \<Rightarrow> ram_memory \<Rightarrow> ram_memory option" where
  "translate_all = foldM (\<lambda>(lrand, addr, core) m. map_option snd (page_allocator lrand addr core m))"

lemma new_memory_pages:
  assumes "RamMemory cf ctrls = Some m" "mm_translation m = RandomTranslation" "mm_free_physical_pages m \<noteq> []"
  shows "pages_ok m"
proof -
  obtain n where n: "mm_free_physical_pages m = replicate (nat n) (- 1)" "mm_free_physical_pages_remaining m = n"
    "mm_page_translation m = Map.empty" "mm_physical_page_replacement m = 0"
    using assms(1,2) by (auto simp: RamMemory_def Let_def guard_def split: bind_splits if_splits)
  then show ?thesis using assms(2,3) by (simp add: pages_ok_def free_count_def)
qed

text \<open>C26: Random page translation never fails and shares no page before it has to. From a memory as constructed,
  with random translation and at least one page, every sequence of translations (random number, address,
  core) returns: the scan for a free page ends and the assertions on the page owner hold. Afterwards the
  remaining count is the number of free pages; every assigned page exists and is owned; and as long as no
  page was replaced, different virtual pages (of any cores) have different physical pages, each owned by
  its core. The translated address has the page of its core and virtual page and keeps the offset, and a
  virtual page that has been translated stays where it is.\<close>

theorem page_translation_safe:
  assumes "RamMemory cf ctrls = Some m" and "mm_translation m = RandomTranslation" and "mm_free_physical_pages m \<noteq> []"
    and "\<forall>(r, a, k)\<in>set reqs. 0 \<le> r \<and> 0 \<le> k"
  shows "\<exists>m'. translate_all reqs m = Some m' \<and>
     mm_free_physical_pages_remaining m' = int (length (filter (\<lambda>p. p = - 1) (mm_free_physical_pages m'))) \<and>
     (\<forall>t p. mm_page_translation m' t = Some p \<longrightarrow> 0 \<le> p \<and> p < int (length (mm_free_physical_pages m')) \<and>
        mm_free_physical_pages m' ! nat p \<noteq> - 1) \<and>
     (mm_physical_page_replacement m' = 0 \<longrightarrow> inj_on (mm_page_translation m') (dom (mm_page_translation m')) \<and>
        (\<forall>t p. mm_page_translation m' t = Some p \<longrightarrow> mm_free_physical_pages m' ! nat p = fst t)) \<and>
     (\<forall>r a k. 0 \<le> r \<and> 0 \<le> k \<longrightarrow> (\<exists>p m''. page_allocator r a k m' = Some (push_bit 12 p OR (a AND 4095), m'') \<and>
        mm_page_translation m'' (k, drop_bit 12 a) = Some p \<and> mm_page_translation m' \<subseteq>\<^sub>m mm_page_translation m''))"
proof -
  have "runs (translate_all reqs m) pages_ok"
    unfolding translate_all_def
  proof (rule foldM_runs)
    show "pages_ok m" by (rule new_memory_pages[OF assms(1-3)])
    fix x and m1 :: ram_memory
    assume x: "x \<in> set reqs" "pages_ok m1"
    obtain r a k where "x = (r, a, k)" by (cases x)
    then show "runs ((case x of (lrand, addr, core) \<Rightarrow> \<lambda>m. map_option snd (page_allocator lrand addr core m)) m1) pages_ok"
      using page_allocator_runs[OF x(2), of r k a] bspec[OF assms(4) x(1)] by (fastforce simp: runs_iff)
  qed
  then obtain m' where m': "translate_all reqs m = Some m'" "pages_ok m'" by (auto simp: runs_iff)
  have "\<exists>p m''. page_allocator r a k m' = Some (push_bit 12 p OR (a AND 4095), m'') \<and>
        mm_page_translation m'' (k, drop_bit 12 a) = Some p \<and> mm_page_translation m' \<subseteq>\<^sub>m mm_page_translation m''"
    if "0 \<le> r \<and> 0 \<le> k" for r a k
    using page_allocator_runs[OF m'(2), of r k a] that by (auto simp: runs_iff)
  then show ?thesis
    using m' pages_okD(3,5,6,7)[OF m'(2)] by (intro exI[of _ m'] conjI) (auto simp: free_count_def)
qed

text \<open>A memory of two pages: one channel whose organisation has four rows of 64 columns.\<close>

definition two_page_memory :: "ram_memory option" where
  "two_page_memory = do {
     cf \<leftarrow> RamConfig [''ranks = 1'', ''translation = Random''];
     spec \<leftarrow> HBM ''HBM_4Gb'' ''HBM_1Gbps'';
     c \<leftarrow> new_ctrl cf (spec\<lparr>hb_org := (hb_org spec)\<lparr>oe_count := [1, 1, 2, 4, 64]\<rparr>\<rparr>) 0;
     RamMemory cf [c]
   }"

lemma two_page_memory:
  "map_option (\<lambda>m. (mm_translation m, mm_free_physical_pages m)) two_page_memory = Some (RandomTranslation, [- 1, - 1])"
  by code_simp

theorem page_translation_safe_witness:
  "\<exists>m m'. two_page_memory = Some m \<and> translate_all [(7, 8195, 0), (9, 4096, 1), (4, 12288, 0)] m = Some m' \<and>
     (\<forall>t p. mm_page_translation m' t = Some p \<longrightarrow> 0 \<le> p \<and> p < int (length (mm_free_physical_pages m')))"
proof -
  obtain m where m: "two_page_memory = Some m" "mm_translation m = RandomTranslation" "mm_free_physical_pages m \<noteq> []"
    using two_page_memory by auto
  obtain cf cs where cf: "RamMemory cf cs = Some m"
    using m(1) by (auto simp: two_page_memory_def Let_def split: bind_splits)
  have reqs: "\<forall>(r, a, k)\<in>set [(7, 8195, 0), (9, 4096, 1), (4, 12288, 0)]. 0 \<le> (r :: int) \<and> 0 \<le> (k :: int)" by simp
  from page_translation_safe[OF cf m(2,3) reqs] obtain m' where
    "translate_all [(7, 8195, 0), (9, 4096, 1), (4, 12288, 0)] m = Some m'"
    "\<forall>t p. mm_page_translation m' t = Some p \<longrightarrow> 0 \<le> p \<and> p < int (length (mm_free_physical_pages m')) \<and>
        mm_free_physical_pages m' ! nat p \<noteq> - 1"
    by (elim exE conjE) (rule that)
  then show ?thesis using m(1) by blast
qed

end
