(* ===== verification/AlloyCache.thy ===== *)
theory AlloyCache
  imports StackedDram UnisonCntlr
begin

section \<open>The Alloy cache\<close>

text \<open>
  Model of \<^verbatim>\<open>performance_model/dram_perf_model_alloy.{h,cc}\<close>: \<^verbatim>\<open>DramCacheBlockInfo\<close>, \<^verbatim>\<open>DramCacheSetAlloy\<close>,
  \<^verbatim>\<open>StackDramCacheCntlrAlloy\<close> and \<^verbatim>\<open>DramPerfModelAlloy\<close>, a direct-mapped cache of blocks. The member
  \<^verbatim>\<open>m_cstate\<close> of a block is only ever set to \<^verbatim>\<open>INVALID\<close> and never read; it is left out, as are the access
  cost distribution and the queue model, which are created and never asked, \<^verbatim>\<open>ShmemPerf\<close> and the log
  file. \<^verbatim>\<open>getRoundedLatency\<close> of the bandwidth is the argument \<open>bw\<close>, \<^verbatim>\<open>floorLog2\<close> an argument as elsewhere.

  The property: the cache behaves as an abstract direct-mapped cache (a map from set numbers to block
  numbers), of whose sets more than two fifths are never used, because their number is 28 times a power of two and
  the address is cut with the mask of the next smaller power.
\<close>

subsection \<open>Blocks and sets\<close>

record alloy_block =
  ab_tag :: u64
  ab_vbit :: u32
  ab_dbit :: u32

definition DramCacheBlockInfo :: alloy_block where
  "DramCacheBlockInfo = \<lparr>ab_tag = - 1, ab_vbit = - 1, ab_dbit = 0\<rparr>"

definition block_invalidate :: "alloy_block \<Rightarrow> alloy_block" where
  "block_invalidate b = b\<lparr>ab_tag := - 1\<rparr>"

definition block_isValid :: "alloy_block \<Rightarrow> bool" where
  "block_isValid b \<longleftrightarrow> ab_tag b \<noteq> - 1"

record alloy_set =
  as_reads :: int
  as_writes :: int
  as_associativity :: u32
  as_blocks :: "alloy_block list"

definition DramCacheSetAlloy :: "u32 \<Rightarrow> alloy_set" where
  "DramCacheSetAlloy associativity = \<lparr>as_reads = 0, as_writes = 0, as_associativity = associativity,
     as_blocks = replicate (unat associativity) DramCacheBlockInfo\<rparr>"

definition alloy_getReplacementIndex :: "alloy_set \<Rightarrow> u32" where
  "alloy_getReplacementIndex s = 0"

definition alloy_updateReplacementIndexTag :: "u32 \<Rightarrow> u64 \<Rightarrow> alloy_set \<Rightarrow> alloy_set option" where
  "alloy_updateReplacementIndexTag index tag s = do {
     b \<leftarrow> fetch (as_blocks s) index;
     bs \<leftarrow> store (as_blocks s) index (b\<lparr>ab_tag := tag, ab_vbit := 1, ab_dbit := 0\<rparr>);
     Some (s\<lparr>as_blocks := bs, as_writes := as_writes s + 1\<rparr>)
   }"

text \<open>The loop over the ways stops at the first block with the tag.\<close>

primrec find_tag :: "u64 \<Rightarrow> alloy_set \<Rightarrow> u32 list \<Rightarrow> bool option" where
  "find_tag tag s [] = Some False"
| "find_tag tag s (i # is) = do {
     b \<leftarrow> fetch (as_blocks s) i;
     if ab_tag b = tag then Some True else find_tag tag s is
   }"

definition alloy_accessAttempt :: "u64 \<Rightarrow> alloy_set \<Rightarrow> (bool \<times> alloy_set) option" where
  "alloy_accessAttempt tag s = do {
     let s = s\<lparr>as_reads := as_reads s + 1\<rparr>;
     hit \<leftarrow> find_tag tag s (u32_range 0 (as_associativity s));
     Some (hit, s)
   }"

subsection \<open>The cache controller\<close>

record 't alloy_cntlr =
  ac_set :: "alloy_set list"
  ac_set_num :: u32
  ac_associativity :: u32
  ac_blocksize :: u32
  ac_perf :: "'t mem_perf"
  ac_reads :: int
  ac_writes :: int
  ac_misses :: real

definition StackDramCacheCntlrAlloy :: "u32 \<Rightarrow> u32 \<Rightarrow> u32 \<Rightarrow> 't::zero alloy_cntlr option" where
  "StackDramCacheCntlrAlloy set_num associativity blocksize = do {
     p \<leftarrow> StackedDramPerfAlloy 32 (128 * 1024) (16 * 1024) 8;
     Some \<lparr>ac_set = replicate (unat set_num) (DramCacheSetAlloy associativity), ac_set_num = set_num,
       ac_associativity = associativity, ac_blocksize = blocksize, ac_perf = p,
       ac_reads = 0, ac_writes = 0, ac_misses = 0\<rparr>
   }"

definition alloy_SplitAddress :: "(u32 \<Rightarrow> u32) \<Rightarrow> u64 \<Rightarrow> 't alloy_cntlr \<Rightarrow> (u32 \<times> u64 \<times> u64) option" where
  "alloy_SplitAddress floorLog2 address c = do {
     guard (ac_blocksize c \<noteq> 0);
     let block_offset = address mod ucast (ac_blocksize c);
     let addr = address div ucast (ac_blocksize c);
     guard (unat (floorLog2 (ac_set_num c)) < 64);
     let k = unat (floorLog2 (ac_set_num c));
     Some (ucast (addr AND (push_bit k 1 - 1)), drop_bit k addr, block_offset)
   }"

definition alloy_ProcessRequest :: "(u32 \<Rightarrow> u32) \<Rightarrow> (u64 \<Rightarrow> 't::comm_monoid_add) \<Rightarrow> 't \<Rightarrow> access_t \<Rightarrow> u64 \<Rightarrow> 't alloy_cntlr \<Rightarrow>
    ('t \<times> 't alloy_cntlr) option" where
  "alloy_ProcessRequest floorLog2 bw pkt_time access_type address c = do {
     (set_n, block_tag, block_offset) \<leftarrow> alloy_SplitAddress floorLog2 address c;
     s \<leftarrow> fetch (ac_set c) set_n;
     (hit, s) \<leftarrow> alloy_accessAttempt block_tag s;
     let row_i = set_n div 28;
     let (l, p) = alloy_getAccessLatency pkt_time 32 row_i READ (ac_perf c);
     let dram_delay = 0 + l;
     (model_delay, dram_delay, s, p) \<leftarrow> (if \<not> hit then do {
          let s = s\<lparr>as_reads := as_reads s + 1\<rparr>;
          s \<leftarrow> alloy_updateReplacementIndexTag (alloy_getReplacementIndex s) block_tag s;
          let (l, p) = alloy_getAccessLatency pkt_time 32 row_i WRITE p;
          Some (0 + bw (8 * 2 * 1024), dram_delay + l, s, p)
        }
        else Some (0, dram_delay, s, p));
     sets \<leftarrow> store (ac_set c) set_n s;
     let (l, p) = alloy_getAccessLatency pkt_time 32 row_i access_type p;
     let c = c\<lparr>ac_set := sets, ac_perf := p\<rparr>;
     let c = (if access_type = WRITE then c\<lparr>ac_writes := ac_writes c + 1\<rparr> else c\<lparr>ac_reads := ac_reads c + 1\<rparr>);
     Some (model_delay + (dram_delay + l), if hit then c else c\<lparr>ac_misses := ac_misses c + 1\<rparr>)
   }"

subsection \<open>The DRAM performance model\<close>

definition StackedDramSize :: u32 where "StackedDramSize = 4 * 1024 * 1024"

record 't alloy_model =
  am_cntlr :: "'t alloy_cntlr"
  am_enabled :: bool
  am_num_accesses :: u64
  am_total_queueing_delay :: 't
  am_total_access_latency :: 't

definition DramPerfModelAlloy :: "bool \<Rightarrow> 't::zero alloy_model option" where
  "DramPerfModelAlloy enabled = do {
     c \<leftarrow> StackDramCacheCntlrAlloy (StackedDramSize div StackedSetSize * 28) 1 StackedBlockSize;
     Some \<lparr>am_cntlr = c, am_enabled = enabled, am_num_accesses = 0, am_total_queueing_delay = 0, am_total_access_latency = 0\<rparr>
   }"

definition alloy_model_getAccessLatency :: "(u32 \<Rightarrow> u32) \<Rightarrow> (u64 \<Rightarrow> 't::comm_monoid_add) \<Rightarrow> int \<Rightarrow> 't \<Rightarrow> u64 \<Rightarrow> int \<Rightarrow> u64 \<Rightarrow>
    access_t \<Rightarrow> 't alloy_model \<Rightarrow> ('t \<times> 't alloy_model) option" where
  "alloy_model_getAccessLatency floorLog2 bw application_cores pkt_time pkt_size requester address access_type n = do {
     (model_delay, c) \<leftarrow> alloy_ProcessRequest floorLog2 bw pkt_time access_type address (am_cntlr n);
     let n = n\<lparr>am_cntlr := c\<rparr>;
     if \<not> am_enabled n \<or> requester \<ge> application_cores then Some (0, n)
     else Some (model_delay, n\<lparr>am_num_accesses := am_num_accesses n + 1,
       am_total_access_latency := am_total_access_latency n + model_delay\<rparr>)
   }"

subsection \<open>The abstract cache\<close>

text \<open>The abstract state: which block a set holds. A request for a block is a hit when its set holds it.\<close>

definition abs_set :: "nat \<Rightarrow> nat" where
  "abs_set block = block mod 2 ^ 23"

definition abs_access :: "nat \<Rightarrow> (nat \<Rightarrow> nat option) \<times> nat \<Rightarrow> (nat \<Rightarrow> nat option) \<times> nat" where
  "abs_access block = (\<lambda>(m, misses). (m(abs_set block \<mapsto> block), if m (abs_set block) = Some block then misses else misses + 1))"

definition block_of :: "u64 \<Rightarrow> nat" where
  "block_of address = unat address div 64"

text \<open>Well-formed controllers, and the abstraction of their sets: the resident tag of set \<open>s\<close> is that of its block.\<close>

definition alloy_tag :: "(nat \<Rightarrow> nat option) \<Rightarrow> nat \<Rightarrow> u64" where
  "alloy_tag m s = (case m s of None \<Rightarrow> - 1 | Some b \<Rightarrow> word_of_nat (b div 2 ^ 23))"

definition alloy_rel :: "(nat \<Rightarrow> nat option) \<times> nat \<Rightarrow> 't alloy_cntlr \<Rightarrow> bool" where
  "alloy_rel a c \<longleftrightarrow> ac_set_num c = 14680064 \<and> ac_blocksize c = 64 \<and> length (ac_set c) = 14680064 \<and>
     ac_misses c = real (snd a) \<and>
     (\<forall>s<14680064. as_associativity (ac_set c ! s) = 1 \<and> (\<exists>b. as_blocks (ac_set c ! s) = [b] \<and> ab_tag b = alloy_tag (fst a) s)) \<and>
     (\<forall>s b. fst a s = Some b \<longrightarrow> s = abs_set b \<and> b < 2 ^ 58) \<and>
     (\<forall>s. 2 ^ 23 \<le> s \<and> s < 14680064 \<longrightarrow> ac_set c ! s = DramCacheSetAlloy 1)"

text \<open>The contract of \<^verbatim>\<open>floorLog2\<close>.\<close>

definition floorLog2_exact :: "(u32 \<Rightarrow> u32) \<Rightarrow> bool" where
  "floorLog2_exact fl \<longleftrightarrow> (\<forall>x. 0 < x \<longrightarrow> 2 ^ unat (fl x) \<le> unat x \<and> unat x < 2 ^ (unat (fl x) + 1))"

lemma floorLog2_sets:
  assumes "floorLog2_exact fl" shows "unat (fl 14680064) = 23"
proof -
  have b: "(2 :: nat) ^ unat (fl 14680064) \<le> 14680064" "14680064 < (2 :: nat) ^ (unat (fl 14680064) + 1)"
    using assms[unfolded floorLog2_exact_def, rule_format, of 14680064] by simp_all
  have "(2 :: nat) ^ unat (fl 14680064) < 2 ^ 24" using b(1) by (rule le_less_trans) simp
  then have "unat (fl 14680064) < 24" by (simp only: power_strict_increasing_iff)
  moreover have "(2 :: nat) ^ 23 < 2 ^ (unat (fl 14680064) + 1)" by (rule le_less_trans[OF _ b(2)]) simp
  then have "23 < unat (fl 14680064) + 1" by (simp only: power_strict_increasing_iff)
  ultimately show ?thesis by simp
qed

lemma u64_nat: "n < 2 ^ 64 \<Longrightarrow> unat (word_of_nat n :: u64) = n"
  by (simp add: unat_of_nat)

lemma less_div_58: "b < 2 ^ 58 \<Longrightarrow> b div 2 ^ 23 < (2 :: nat) ^ 64"
proof -
  assume "b < 2 ^ 58"
  moreover have "(2 :: nat) ^ 58 < 2 ^ 64" by simp
  ultimately show ?thesis using div_le_dividend[of b "2 ^ 23"] by linarith
qed

lemma block_of_less: "block_of a < 2 ^ 58"
proof -
  have "unat a < 2 ^ 64" using unsigned_less[of a, where ?'a = nat] by simp
  then show ?thesis by (simp add: block_of_def less_mult_imp_div_less)
qed

lemma split_eq:
  assumes fl: "floorLog2_exact fl" and c: "ac_set_num c = 14680064" "ac_blocksize c = 64"
  shows "alloy_SplitAddress fl a c = Some (word_of_nat (abs_set (block_of a)), word_of_nat (block_of a div 2 ^ 23), a mod 64)"
proof -
  let ?b = "a div 64"
  have b: "unat ?b = block_of a" by (simp add: unat_div block_of_def)
  have "?b AND (push_bit 23 1 - 1) = take_bit 23 ?b" by (simp add: take_bit_eq_mask mask_eq_exp_minus_1 push_bit_eq_mult)
  moreover have "take_bit 23 ?b = word_of_nat (block_of a mod 2 ^ 23)"
    by (rule word_unat_eq_iff[THEN iffD2]) (simp add: unsigned_take_bit_eq b take_bit_eq_mod unat_of_nat unat_mod)
  moreover have "(ucast (word_of_nat (block_of a mod 2 ^ 23) :: u64) :: u32) = word_of_nat (block_of a mod 2 ^ 23)"
    by (rule word_unat_eq_iff[THEN iffD2]) (simp add: unsigned_ucast_eq take_bit_eq_mod unat_of_nat mod_mod_cancel)
  moreover have "drop_bit 23 ?b = word_of_nat (block_of a div 2 ^ 23)"
    by (rule word_unat_eq_iff[THEN iffD2]) (use less_div_58[OF block_of_less[of a]] in \<open>simp add: drop_bit_eq_div unat_div u64_nat block_of_def\<close>)
  ultimately show ?thesis
    using floorLog2_sets[OF fl] by (simp add: alloy_SplitAddress_def c guard_def Let_def abs_set_def)
qed

subsection \<open>One request\<close>

lemma tag_eq:
  assumes m: "\<And>b. m s = Some b \<Longrightarrow> s = abs_set b \<and> b < 2 ^ 58" and s: "s = abs_set (block_of a)"
  shows "alloy_tag m s = word_of_nat (block_of a div 2 ^ 23) \<longleftrightarrow> m s = Some (block_of a)"
proof (cases "m s")
  case None
  have "unat (word_of_nat (block_of a div 2 ^ 23) :: u64) = block_of a div 2 ^ 23"
    using block_of_less[of a] by (intro u64_nat) simp
  moreover have "block_of a div 2 ^ 23 < 2 ^ 35" using block_of_less[of a] by (simp add: less_mult_imp_div_less)
  ultimately have "unat (word_of_nat (block_of a div 2 ^ 23) :: u64) \<noteq> unat (- 1 :: u64)" by (simp add: unsigned_minus_1_eq_mask mask_eq_exp_minus_1)
  then show ?thesis using None by (auto simp: alloy_tag_def)
next
  case (Some b)
  have "(word_of_nat (b div 2 ^ 23) :: u64) = word_of_nat (block_of a div 2 ^ 23) \<longleftrightarrow> b div 2 ^ 23 = block_of a div 2 ^ 23"
  proof -
    have "b div 2 ^ 23 < 2 ^ 64" "block_of a div 2 ^ 23 < 2 ^ 64"
      by (rule less_div_58, use m[OF Some] in simp, rule less_div_58, rule block_of_less)
    then show ?thesis by (metis u64_nat)
  qed
  also have "\<dots> \<longleftrightarrow> b = block_of a"
    using m[OF Some] s unfolding abs_set_def by (metis div_mod_decomp)
  finally show ?thesis using Some by (simp add: alloy_tag_def)
qed

lemma access_runs:
  assumes "as_associativity s = 1" "as_blocks s = [b]"
  shows "alloy_accessAttempt tag s = Some (ab_tag b = tag, s\<lparr>as_reads := as_reads s + 1\<rparr>)"
proof -
  have "u32_range 0 1 = [0]" by (simp add: u32_range_def)
  then show ?thesis using assms by (simp add: alloy_accessAttempt_def fetch_def Let_def)
qed

lemma alloy_relD:
  assumes "alloy_rel (m, misses) c"
  shows "ac_set_num c = 14680064" "ac_blocksize c = 64" "length (ac_set c) = 14680064" "ac_misses c = real misses"
    "\<And>s. s < 14680064 \<Longrightarrow> as_associativity (ac_set c ! s) = 1 \<and> (\<exists>b. as_blocks (ac_set c ! s) = [b] \<and> ab_tag b = alloy_tag m s)"
    "\<And>s b. m s = Some b \<Longrightarrow> s = abs_set b \<and> b < 2 ^ 58"
    "\<And>s. 2 ^ 23 \<le> s \<Longrightarrow> s < 14680064 \<Longrightarrow> ac_set c ! s = DramCacheSetAlloy 1"
  using assms unfolding alloy_rel_def fst_conv snd_conv by blast+

lemma alloy_request:
  fixes c :: "'t::comm_monoid_add alloy_cntlr"
  assumes fl: "floorLog2_exact fl" and rel: "alloy_rel (m, misses) c"
  shows "runs (alloy_ProcessRequest fl bw t ty a c) (\<lambda>(d, c'). alloy_rel (abs_access (block_of a) (m, misses)) c' \<and>
     d = (if m (abs_set (block_of a)) = Some (block_of a) then 0 else bw 16384))"
proof -
  let ?s = "abs_set (block_of a)" and ?n = "word_of_nat (abs_set (block_of a)) :: u32"
  note rel' = alloy_relD[OF rel]
  have s: "?s < 2 ^ 23" by (simp add: abs_set_def)
  then have n: "unat ?n = ?s" and s': "?s < 14680064" by (simp_all add: unat_of_nat)
  obtain b where S: "as_associativity (ac_set c ! ?s) = 1" "as_blocks (ac_set c ! ?s) = [b]" "ab_tag b = alloy_tag m ?s"
    using rel'(5)[OF s'] by blast
  have len: "?s < length (ac_set c)" using rel'(3) s' by simp
  have f: "fetch (ac_set c) ?n = Some (ac_set c ! ?s)" "\<And>v. store (ac_set c) ?n v = Some ((ac_set c)[?s := v])"
    using len n by (simp_all add: fetch_def store_def)
  have sp: "alloy_SplitAddress fl a c = Some (?n, word_of_nat (block_of a div 2 ^ 23), a mod 64)"
    by (rule split_eq[OF fl rel'(1,2)])
  have hit: "ab_tag b = word_of_nat (block_of a div 2 ^ 23) \<longleftrightarrow> m ?s = Some (block_of a)"
    unfolding S(3) by (rule tag_eq[OF rel'(6) refl])
  have keep: "alloy_rel (abs_access (block_of a) (m, misses)) c'"
    if c': "ac_set c' = (ac_set c)[?s := v]" "ac_set_num c' = ac_set_num c" "ac_blocksize c' = ac_blocksize c"
      "ac_misses c' = (if m ?s = Some (block_of a) then ac_misses c else ac_misses c + 1)"
      and v: "as_associativity v = 1" "as_blocks v = [b']" "ab_tag b' = word_of_nat (block_of a div 2 ^ 23)" for c' :: "'t alloy_cntlr" and v b'
  proof -
    have a: "abs_access (block_of a) (m, misses) = (m(?s \<mapsto> block_of a), if m ?s = Some (block_of a) then misses else misses + 1)"
      by (simp add: abs_access_def)
    have i: "as_associativity ((ac_set c)[?s := v] ! i) = 1 \<and>
       (\<exists>b. as_blocks ((ac_set c)[?s := v] ! i) = [b] \<and> ab_tag b = alloy_tag (m(?s \<mapsto> block_of a)) i)" if "i < 14680064" for i
    proof (cases "i = ?s")
      case True
      then show ?thesis using v len by (simp add: alloy_tag_def)
    next
      case False
      then have "alloy_tag (m(?s \<mapsto> block_of a)) i = alloy_tag m i" by (simp add: alloy_tag_def)
      then show ?thesis using rel'(5)[OF that] False by simp
    qed
    have r: "(m(?s \<mapsto> block_of a)) i = Some b \<Longrightarrow> i = abs_set b \<and> b < 2 ^ 58" for i b
      using rel'(6)[of i b] block_of_less[of a] by (auto split: if_splits)
    have u: "2 ^ 23 \<le> i \<and> i < 14680064 \<Longrightarrow> (ac_set c)[?s := v] ! i = DramCacheSetAlloy 1" for i
      using rel'(7)[of i] s by simp
    show ?thesis
      unfolding alloy_rel_def a fst_conv snd_conv c'
      by (intro conjI allI impI) (use rel'(1-4) i r u in \<open>simp_all del: fun_upd_apply\<close>)
  qed
  let ?old = "ac_set c ! ?s" and ?b = "b\<lparr>ab_tag := word_of_nat (block_of a div 2 ^ 23), ab_vbit := 1, ab_dbit := 0\<rparr>"
  let ?hit = "?old\<lparr>as_reads := as_reads ?old + 1\<rparr>"
  let ?miss = "?old\<lparr>as_reads := as_reads ?old + 1 + 1, as_blocks := [?b], as_writes := as_writes ?old + 1\<rparr>"
  have bt: "ab_tag ?b = word_of_nat (block_of a div 2 ^ 23)" by simp
  show ?thesis
  proof (cases "m ?s = Some (block_of a)")
    case True
    have t: "ab_tag b = word_of_nat (block_of a div 2 ^ 23)" using hit True by simp
    have "alloy_rel (abs_access (block_of a) (m, misses)) c'"
      if "ac_set c' = (ac_set c)[?s := ?hit]" "ac_set_num c' = ac_set_num c" "ac_blocksize c' = ac_blocksize c" "ac_misses c' = ac_misses c" for c' :: "'t alloy_cntlr"
      by (rule keep[OF that(1-3)]) (use that(4) True S(1,2) t in simp_all)
    then show ?thesis
      using True access_runs[OF S(1,2)] t
      by (simp add: alloy_ProcessRequest_def sp f alloy_getAccessLatency_def Let_def)
  next
    case False
    have t: "ab_tag b \<noteq> word_of_nat (block_of a div 2 ^ 23)" using hit False by simp
    have "alloy_rel (abs_access (block_of a) (m, misses)) c'"
      if "ac_set c' = (ac_set c)[?s := ?miss]" "ac_set_num c' = ac_set_num c" "ac_blocksize c' = ac_blocksize c" "ac_misses c' = ac_misses c + 1" for c' :: "'t alloy_cntlr"
      by (rule keep[OF that(1-3) _ _ _ bt]) (use that(4) False S(1,2) in simp_all)
    moreover have "alloy_updateReplacementIndexTag (alloy_getReplacementIndex x) (word_of_nat (block_of a div 2 ^ 23)) x =
        Some (x\<lparr>as_blocks := [?b], as_writes := as_writes x + 1\<rparr>)" if "as_blocks x = [b]" for x
      using that by (simp add: alloy_updateReplacementIndexTag_def alloy_getReplacementIndex_def fetch_def store_def)
    ultimately show ?thesis
      using False access_runs[OF S(1,2)] S(2) t
      by (simp add: alloy_ProcessRequest_def sp f alloy_getAccessLatency_def Let_def)
  qed
qed

subsection \<open>Sequences of requests\<close>

type_synonym 't alloy_request = "'t \<times> u64 \<times> int \<times> u64 \<times> access_t"

fun alloy_step :: "(u32 \<Rightarrow> u32) \<Rightarrow> (u64 \<Rightarrow> 't::comm_monoid_add) \<Rightarrow> int \<Rightarrow> 't alloy_request \<Rightarrow> 't alloy_model \<Rightarrow> 't alloy_model option" where
  "alloy_step fl bw cores (t, size', req, addr, ty) n = do {
     (d, n) \<leftarrow> alloy_model_getAccessLatency fl bw cores t size' req addr ty n;
     Some n }"

fun request_block :: "'t alloy_request \<Rightarrow> nat" where
  "request_block (t, size', req, addr, ty) = block_of addr"

definition alloy_inv :: "bool \<Rightarrow> (nat \<Rightarrow> nat option) \<times> nat \<Rightarrow> 't alloy_model \<Rightarrow> bool" where
  "alloy_inv en a n \<longleftrightarrow> am_enabled n = en \<and> alloy_rel a (am_cntlr n)"

lemma alloy_access_runs:
  assumes fl: "floorLog2_exact fl" and inv: "alloy_inv en (m, misses) n"
  shows "runs (alloy_model_getAccessLatency fl bw cores t size' req a ty n) (\<lambda>(d, n'). alloy_inv en (abs_access (block_of a) (m, misses)) n' \<and>
     d = (if \<not> en \<or> req \<ge> cores \<or> m (abs_set (block_of a)) = Some (block_of a) then 0 else bw 16384))"
proof -
  have rel: "alloy_rel (m, misses) (am_cntlr n)" and en: "am_enabled n = en" using inv by (auto simp: alloy_inv_def)
  show ?thesis
    unfolding alloy_model_getAccessLatency_def runs_bind
    by (rule runs_mono[OF alloy_request[OF fl rel]]) (auto simp: alloy_inv_def en Let_def)
qed

lemma alloy_steps:
  assumes fl: "floorLog2_exact fl"
  shows "alloy_inv en a n \<Longrightarrow> runs (foldM (alloy_step fl bw cores) rs n) (alloy_inv en (fold (\<lambda>r. abs_access (request_block r)) rs a))"
proof (induction rs arbitrary: a n)
  case (Cons r rs)
  obtain t size' req addr ty where r: "r = (t, size', req, addr, ty)" by (cases r)
  obtain m k where a: "a = (m, k)" by (cases a)
  have "runs (alloy_step fl bw cores r n) (alloy_inv en (abs_access (request_block r) a))"
    unfolding r alloy_step.simps runs_bind a
    by (rule runs_mono[OF alloy_access_runs[OF fl Cons.prems[unfolded a]]]) auto
  then show ?case
    unfolding foldM.simps runs_bind fold_simps comp_def by (rule runs_mono) (rule Cons.IH)
qed simp

lemma new_alloy:
  "runs (DramPerfModelAlloy en) (alloy_inv en (Map.empty, 0))"
proof -
  have p: "runs (StackedDramPerfAlloy 32 (128 * 1024) (16 * 1024) 8) (\<lambda>p. True)"
    unfolding StackedDramPerfAlloy_def runs_bind by (rule runs_mono[OF build_vaults_runs]) simp_all
  have n: "StackedDramSize div StackedSetSize * 28 = 14680064" by (simp add: StackedDramSize_def StackedSetSize_def)
  have s: "DramCacheSetAlloy 1 = \<lparr>as_reads = 0, as_writes = 0, as_associativity = 1, as_blocks = [DramCacheBlockInfo]\<rparr>"
    by (simp add: DramCacheSetAlloy_def)
  show ?thesis
    unfolding DramPerfModelAlloy_def StackDramCacheCntlrAlloy_def n runs_bind
    by (rule runs_mono[OF p])
      (auto simp: alloy_inv_def alloy_rel_def s alloy_tag_def DramCacheBlockInfo_def StackedBlockSize_def)
qed

text \<open>C17: The Alloy cache is a direct-mapped cache of \<open>2^23\<close> sets. From its constructor on every sequence of
  requests returns (no set or way out of range), and what it does is what the abstract cache does, which
  maps set numbers to block numbers and replaces the block of a set at every miss: the miss counter is the
  number of abstract misses, and the next request is free of cost on a hit and costs the bandwidth latency
  of 16384 bits on a miss (every DRAM access of this variant takes no time). The other 6291456 of the 14680064
  sets keep their initial contents: no address reaches them.\<close>

theorem alloy_refines_direct_mapped:
  assumes "floorLog2_exact fl"
  shows "\<exists>n m misses. (DramPerfModelAlloy en \<bind> foldM (alloy_step fl bw cores) rs) = Some n \<and>
     fold (\<lambda>r. abs_access (request_block r)) rs (Map.empty, 0) = (m, misses) \<and>
     ac_misses (am_cntlr n) = real misses \<and>
     (\<forall>t size' req a ty. \<exists>n'. alloy_model_getAccessLatency fl bw cores t size' req a ty n =
        Some (if \<not> en \<or> req \<ge> cores \<or> m (abs_set (block_of a)) = Some (block_of a) then 0 else bw 16384, n')) \<and>
     (\<forall>s. 2 ^ 23 \<le> s \<and> s < 14680064 \<longrightarrow> ac_set (am_cntlr n) ! s = DramCacheSetAlloy 1)"
proof -
  obtain m misses where a: "fold (\<lambda>r. abs_access (request_block r)) rs (Map.empty, 0) = (m, misses)" by fastforce
  have "runs (DramPerfModelAlloy en \<bind> foldM (alloy_step fl bw cores) rs) (alloy_inv en (m, misses))"
    unfolding runs_bind by (rule runs_mono[OF new_alloy]) (rule alloy_steps[OF assms, where a = "(Map.empty, 0)" and rs = rs, unfolded a])
  then obtain n where n: "DramPerfModelAlloy en \<bind> foldM (alloy_step fl bw cores) rs = Some n" "alloy_inv en (m, misses) n"
    by (auto simp: runs_iff)
  have rel: "alloy_rel (m, misses) (am_cntlr n)" using n(2) by (simp add: alloy_inv_def)
  have "\<exists>n'. alloy_model_getAccessLatency fl bw cores t size' req a ty n =
        Some (if \<not> en \<or> req \<ge> cores \<or> m (abs_set (block_of a)) = Some (block_of a) then 0 else bw 16384, n')" for t size' req a ty
    using alloy_access_runs[OF assms n(2)] unfolding runs_iff by fastforce
  then show ?thesis using n(1) a alloy_relD(4,7)[OF rel] by blast
qed

lemma demo_log2_exact: "floorLog2_exact demo_log2"
  unfolding floorLog2_exact_def
proof (intro allI impI)
  fix x :: u32 assume x: "0 < x"
  let ?P = "\<lambda>k. 2 ^ Suc k \<le> unat x" and ?n = "length (takeWhile (\<lambda>k. 2 ^ Suc k \<le> unat x) [0..<32])"
  have n32: "?n \<le> 32" using length_takeWhile_le[of ?P "[0..<32]"] by simp
  have below: "?P k" if "k < ?n" for k
    using nth_mem[OF that] that n32 takeWhile_nth[OF that] by (auto dest: set_takeWhileD)
  have "unat x < 2 ^ 32" using unsigned_less[of x, where ?'a = nat] by simp
  then have n: "?n < 32" using below[of 31] n32 by (cases "?n = 32") auto
  then have above: "\<not> ?P ?n" using nth_length_takeWhile[of ?P "[0..<32]"] by simp
  have "2 ^ ?n \<le> unat x" using below[of "?n - 1"] x by (cases ?n) (simp_all add: word_less_nat_alt)
  moreover have "unat (demo_log2 x) = ?n" using n by (simp add: demo_log2_def unat_of_nat)
  ultimately show "2 ^ unat (demo_log2 x) \<le> unat x \<and> unat x < 2 ^ (unat (demo_log2 x) + 1)" using above by simp
qed

theorem alloy_refines_direct_mapped_witness:
  "\<exists>n. (DramPerfModelAlloy True \<bind> foldM (alloy_step demo_log2 unat 4) [(0, 64, 0, 0x10000040, READ), (9, 64, 1, 0x10000040, WRITE)]) = Some n \<and>
     ac_misses (am_cntlr n) = 1 \<and> ac_set (am_cntlr n) ! 9000000 = DramCacheSetAlloy 1"
proof -
  have "fold (\<lambda>r. abs_access (request_block r)) [(0 :: nat, 64, 0, 0x10000040, READ), (9, 64, 1, 0x10000040, WRITE)] (Map.empty, 0) =
      (Map.empty(1 + 2 ^ 22 \<mapsto> 1 + 2 ^ 22), 1)"
    by (simp add: abs_access_def abs_set_def block_of_def)
  then show ?thesis
    using alloy_refines_direct_mapped[OF demo_log2_exact, of True unat 4 "[(0, 64, 0, 0x10000040, READ), (9, 64, 1, 0x10000040, WRITE)]"]
    by fastforce
qed

end
