(* ===== verification/SegmentModel.thy ===== *)
theory SegmentModel
  imports StackedDram
begin

section \<open>The constant-latency model with segment swapping\<close>

text \<open>
  Model of \<^verbatim>\<open>performance_model/dram_perf_model_constant.{h,cc}\<close>: \<^verbatim>\<open>SrcEntry\<close>, which keeps the hottest of
  six segments in the fast memory, and \<^verbatim>\<open>DramPerfModelConstant\<close>. The queue model and the access cost are
  created and never asked, and \<^verbatim>\<open>ShmemPerf\<close> and the console output are left out. \<^verbatim>\<open>getRoundedLatency\<close> is the argument
  \<open>bw\<close>; \<open>off_bit\<close> is \<^verbatim>\<open>OFF_BIT\<close>, which two headers of the repository define differently.
\<close>

subsection \<open>Entries\<close>

record src_entry =
  se_tag :: u32
  se_count :: u32
  se_access :: "u32 list"
  se_start_address :: u32
  se_swap_count :: u32

definition SrcEntry :: "u32 \<Rightarrow> src_entry" where
  "SrcEntry seg_num = \<lparr>se_tag = 0, se_count = 0, se_access = replicate 6 0,
     se_start_address = push_bit 20 1 * seg_num, se_swap_count = 20\<rparr>"

definition hottest_step :: "u32 \<Rightarrow> u32 list \<times> u32 \<times> u32 \<Rightarrow> (u32 list \<times> u32 \<times> u32) option" where
  "hottest_step i st = do {
     let (acc, mx, idx) = st;
     x \<leftarrow> fetch acc i;
     let (mx, idx) = (if x > mx then (x, i) else (mx, idx));
     acc \<leftarrow> store acc i 0;
     Some (acc, mx, idx)
   }"

definition accessEntry :: "u32 \<Rightarrow> src_entry \<Rightarrow> (int \<times> src_entry) option" where
  "accessEntry n e = do {
     let e = e\<lparr>se_count := se_count e + 1\<rparr>;
     x \<leftarrow> fetch (se_access e) n;
     acc \<leftarrow> store (se_access e) n (x + 1);
     let e = e\<lparr>se_access := acc\<rparr>;
     let hit = (n = se_tag e);
     (swap, e) \<leftarrow> (if se_count e = se_swap_count e then do {
          let e = e\<lparr>se_count := 0\<rparr>;
          (acc, mx, idx) \<leftarrow> foldM hottest_step (u32_range 0 6) (se_access e, 0, 0);
          let e = e\<lparr>se_access := acc\<rparr>;
          Some (if idx \<noteq> se_tag e then (True, e\<lparr>se_tag := idx\<rparr>) else (False, e))
        }
        else Some (False, e));
     Some (if hit then (if swap then 3 else 2) else (if swap then 1 else 0), e)
   }"

subsection \<open>The model\<close>

record 't segment_model =
  sg_seg_num :: u32
  sg_src :: "src_entry list"
  sg_perf :: "'t mem_perf"
  sg_enabled :: bool
  sg_tot_access :: u32
  sg_swap_times :: u32
  sg_num_accesses :: u64
  sg_total_access_latency :: 't

definition DramPerfModelConstant :: "bool \<Rightarrow> 't::zero segment_model option" where
  "DramPerfModelConstant enabled = do {
     let fast_m_size = 4 * 1024;
     let seg_size = 1;
     let seg_num = fast_m_size div seg_size;
     p \<leftarrow> StackedDramPerfMem 32 (128 * 1024) (16 * 1024) 8;
     Some \<lparr>sg_seg_num = seg_num, sg_src = map SrcEntry (u32_range 0 seg_num), sg_perf = p, sg_enabled = enabled,
       sg_tot_access = 0, sg_swap_times = 0, sg_num_accesses = 0, sg_total_access_latency = 0\<rparr>
   }"

text \<open>One round of the loop that swaps a segment: a row is read and written, and the address moves on by a row.\<close>

definition swap_row :: "nat \<Rightarrow> (u32 \<Rightarrow> u32) \<Rightarrow> (u64 \<Rightarrow> 't::{comm_monoid_add, minus}) \<Rightarrow> 't \<Rightarrow> u32 \<times> 't \<times> 't mem_perf \<Rightarrow>
    (u32 \<times> 't \<times> 't mem_perf) option" where
  "swap_row off_bit floorLog2 ns pkt_time st = do {
     let (cur_addr, delay, p) = st;
     (l1, p) \<leftarrow> mem_getAccessLatency off_bit floorLog2 ns pkt_time (ucast cur_addr) READ p;
     (l2, p) \<leftarrow> mem_getAccessLatency off_bit floorLog2 ns pkt_time (ucast cur_addr) WRITE p;
     Some (cur_addr + push_bit 13 1, delay + l1 + l2, p)
   }"

definition segment_getAccessLatency :: "nat \<Rightarrow> (u32 \<Rightarrow> u32) \<Rightarrow> (u64 \<Rightarrow> 't::{comm_monoid_add, minus}) \<Rightarrow> (u64 \<Rightarrow> 't) \<Rightarrow> int \<Rightarrow>
    't \<Rightarrow> u64 \<Rightarrow> int \<Rightarrow> u64 \<Rightarrow> access_t \<Rightarrow> 't segment_model \<Rightarrow> ('t \<times> 't segment_model) option" where
  "segment_getAccessLatency off_bit floorLog2 ns bw application_cores pkt_time pkt_size requester address access_type g = do {
     let seg_tag = drop_bit 20 address;
     guard (sg_seg_num g \<noteq> 0);
     let src_n = (ucast (seg_tag mod ucast (sg_seg_num g)) :: u32);
     let nth_seg = (ucast ((seg_tag div ucast (sg_seg_num g)) mod 6) :: u32);
     e \<leftarrow> fetch (sg_src g) src_n;
     (rst, e) \<leftarrow> accessEntry nth_seg e;
     src \<leftarrow> store (sg_src g) src_n e;
     let g = g\<lparr>sg_src := src\<rparr>;
     if \<not> sg_enabled g \<or> requester \<ge> application_cores then Some (0, g)
     else do {
       let g = g\<lparr>sg_tot_access := sg_tot_access g + 1\<rparr>;
       (model_delay, load_delay, g) \<leftarrow> (if rst = 1 \<or> rst = 3 then do {
            (cur_addr, delay, p) \<leftarrow> foldM (\<lambda>i. swap_row off_bit floorLog2 ns pkt_time) [0..<128] (se_start_address e, 0, sg_perf g);
            Some (delay, 0 + bw (push_bit 23 1), g\<lparr>sg_swap_times := sg_swap_times g + 1, sg_perf := p\<rparr>)
          }
          else Some (0, 0, g));
       let load_delay = (if rst = 0 \<or> rst = 1 then load_delay + bw (8 * pkt_size) else load_delay);
       (l, p) \<leftarrow> mem_getAccessLatency off_bit floorLog2 ns pkt_time address access_type (sg_perf g);
       let access_latency = model_delay + l + load_delay;
       Some (access_latency, g\<lparr>sg_perf := p, sg_num_accesses := sg_num_accesses g + 1,
         sg_total_access_latency := sg_total_access_latency g + access_latency\<rparr>)
     }
   }"

subsection \<open>What an entry promises\<close>

text \<open>
  The reference: accesses are cut into windows of twenty; the segment of an entry is the hottest one of the last
  complete window (the first of them, when several are), and segment 0 before that.
\<close>

definition hottest :: "nat list \<Rightarrow> nat" where
  "hottest w = hd (filter (\<lambda>i. list_all (\<lambda>j. count_list w j \<le> count_list w i) [0..<6]) [0..<6])"

definition last_window :: "nat list \<Rightarrow> nat list" where
  "last_window ns = take 20 (drop (20 * (length ns div 20 - 1)) ns)"

definition open_window :: "nat list \<Rightarrow> nat list" where
  "open_window ns = drop (20 * (length ns div 20)) ns"

definition resident_segment :: "nat list \<Rightarrow> nat" where
  "resident_segment ns = (if length ns < 20 then 0 else hottest (last_window ns))"

definition entry_rel :: "nat list \<Rightarrow> src_entry \<Rightarrow> bool" where
  "entry_rel ns e \<longleftrightarrow> unat (se_tag e) = resident_segment ns \<and> se_count e = word_of_nat (length ns mod 20) \<and> se_swap_count e = 20 \<and>
     se_access e = map (\<lambda>i. word_of_nat (count_list (open_window ns) i)) [0..<6]"

text \<open>The answer to an access: 2 or 3 when it is for the resident segment, 1 or 3 when the segment is swapped.\<close>

definition entry_answer :: "nat list \<Rightarrow> nat \<Rightarrow> int" where
  "entry_answer ns n = (if n = resident_segment ns then 2 else 0) +
     (if resident_segment (ns @ [n]) \<noteq> resident_segment ns then 1 else 0)"

subsection \<open>One access of an entry\<close>

lemma hd_filter_upt:
  assumes "i < n" "P i" "\<And>j. j < i \<Longrightarrow> \<not> P j"
  shows "hd (filter P [0..<n]) = i"
proof -
  have "[0..<n] = [0..<i] @ i # [Suc i..<n]"
    using assms(1) upt_add_eq_append[of 0 i "n - i"] upt_conv_Cons[of i n] by simp
  moreover have "filter P [0..<i] = []" using assms(3) by (simp add: filter_empty_conv)
  ultimately show ?thesis using assms(2) by simp
qed

lemma u32_nat: "k \<le> 20 \<Longrightarrow> unat (word_of_nat k :: u32) = k"
  by (simp add: unat_of_nat)

lemma u32_nat_less: "a \<le> 20 \<Longrightarrow> b \<le> 20 \<Longrightarrow> (word_of_nat a :: u32) < word_of_nat b \<longleftrightarrow> a < b"
  by (simp add: word_less_nat_alt u32_nat)

definition best_so_far :: "(nat \<Rightarrow> nat) \<Rightarrow> nat \<Rightarrow> u32 list \<times> u32 \<times> u32 \<Rightarrow> bool" where
  "best_so_far c k = (\<lambda>(acc, mx, idx). acc = map (\<lambda>i. if i < k then 0 else word_of_nat (c i)) [0..<6] \<and>
     (\<exists>m i. mx = word_of_nat m \<and> idx = word_of_nat i \<and> m \<le> 20 \<and> (\<forall>j<k. c j \<le> m) \<and>
        (m = 0 \<and> i = 0 \<or> i < k \<and> c i = m \<and> (\<forall>j<i. c j < m))))"

lemma hottest_step_runs:
  assumes c: "\<And>i. c i \<le> 20" and k: "k < 6" and b: "best_so_far c k st"
  shows "runs (hottest_step (word_of_nat k) st) (best_so_far c (Suc k))"
proof -
  obtain m i where st: "st = (map (\<lambda>i. if i < k then 0 else word_of_nat (c i)) [0..<6], word_of_nat m, word_of_nat i)"
    and m: "m \<le> 20" "\<forall>j<k. c j \<le> m" "m = 0 \<and> i = 0 \<or> i < k \<and> c i = m \<and> (\<forall>j<i. c j < m)"
    using b by (cases st) (auto simp: best_so_far_def)
  have u: "unat (word_of_nat k :: u32) = k" using k by (intro u32_nat) simp
  have upd: "(map (\<lambda>i. if i < k then 0 else word_of_nat (c i)) [0..<6])[k := 0] = map (\<lambda>i. if i < Suc k then 0 else word_of_nat (c i) :: u32) [0..<6]"
    using k by (auto simp: list_eq_iff_nth_eq nth_list_update less_Suc_eq)
  have "hottest_step (word_of_nat k) st = Some (map (\<lambda>i. if i < Suc k then 0 else word_of_nat (c i)) [0..<6],
      if m < c k then (word_of_nat (c k), word_of_nat k) else (word_of_nat m, word_of_nat i))"
    using k u upd u32_nat_less[OF m(1) c, of k] by (simp add: hottest_step_def st fetch_def store_def)
  moreover have "best_so_far c (Suc k) (map (\<lambda>i. if i < Suc k then 0 else word_of_nat (c i)) [0..<6],
      if m < c k then (word_of_nat (c k), word_of_nat k) else (word_of_nat m, word_of_nat i))"
  proof (cases "m < c k")
    case True
    then have "\<forall>j<k. c j < c k" using m(2) by (meson le_less_trans)
    then show ?thesis using True c[of k] unfolding best_so_far_def prod.case if_P[OF True]
      by (intro conjI refl, rule_tac x = "c k" in exI, rule_tac x = k in exI) (auto simp: less_Suc_eq)
  next
    case False
    then show ?thesis using m unfolding best_so_far_def prod.case if_not_P[OF False]
      by (intro conjI refl, rule_tac x = m in exI, rule_tac x = i in exI) (auto simp: less_Suc_eq)
  qed
  ultimately show ?thesis by simp
qed

lemma hottest_loop:
  assumes c: "\<And>i. c i \<le> 20" and some: "i < 6" "0 < c i"
  shows "foldM hottest_step (u32_range 0 6) (map (\<lambda>i. word_of_nat (c i)) [0..<6], 0, 0) =
     Some (replicate 6 0, word_of_nat (c (hd (filter (\<lambda>i. list_all (\<lambda>j. c j \<le> c i) [0..<6]) [0..<6]))),
       word_of_nat (hd (filter (\<lambda>i. list_all (\<lambda>j. c j \<le> c i) [0..<6]) [0..<6])))"
proof -
  have "runs (foldM hottest_step (u32_range 0 6) (map (\<lambda>i. word_of_nat (c i)) [0..<6], 0, 0)) (best_so_far c (unat (6 :: u32)))"
  proof (rule foldM_u32_range_runs)
    show "best_so_far c 0 (map (\<lambda>i. word_of_nat (c i)) [0..<6], 0, 0)" by (auto simp: best_so_far_def)
    fix i :: u32 and st assume i: "unat i < unat (6 :: u32)" and b: "best_so_far c (unat i) st"
    have "runs (hottest_step (word_of_nat (unat i)) st) (best_so_far c (Suc (unat i)))"
      by (rule hottest_step_runs[OF c _ b]) (use i in simp)
    then show "runs (hottest_step i st) (best_so_far c (Suc (unat i)))" by simp
  qed
  then obtain m h where r: "foldM hottest_step (u32_range 0 6) (map (\<lambda>i. word_of_nat (c i)) [0..<6], 0, 0) =
      Some (map (\<lambda>i. if i < 6 then 0 else word_of_nat (c i)) [0..<6], word_of_nat m, word_of_nat h)"
    "\<forall>j<6. c j \<le> m" "m = 0 \<and> h = 0 \<or> h < 6 \<and> c h = m \<and> (\<forall>j<h. c j < m)"
    by (auto simp: runs_iff best_so_far_def)
  have "m \<noteq> 0" using r(2) some by (metis less_le_not_le not_gr_zero)
  then have h: "h < 6" "c h = m" "\<forall>j<h. c j < m" using r(3) by auto
  have "hd (filter (\<lambda>i. list_all (\<lambda>j. c j \<le> c i) [0..<6]) [0..<6]) = h"
    by (rule hd_filter_upt) (use h r(2) in \<open>auto simp: list_all_iff not_le\<close>)
  moreover have "map (\<lambda>i. if i < 6 then 0 else word_of_nat (c i)) [0..<6] = (replicate 6 0 :: u32 list)"
    by (auto simp: list_eq_iff_nth_eq)
  ultimately show ?thesis using r(1) h(2) by simp
qed

text \<open>The windows of a sequence that grows by one access.\<close>

lemma count_le_length: "count_list w i \<le> length w"
  by (induction w) auto

lemma window_small:
  assumes "length ns mod 20 < 19"
  shows "open_window (ns @ [n]) = open_window ns @ [n]" "resident_segment (ns @ [n]) = resident_segment ns"
    "length (ns @ [n]) mod 20 = length ns mod 20 + 1"
proof -
  let ?q = "length ns div 20"
  have l: "length ns = 20 * ?q + length ns mod 20" by simp
  have m: "Suc (length ns) mod 20 = length ns mod 20 + 1" using assms by (simp add: mod_Suc)
  then have q: "Suc (length ns) div 20 = ?q" by (simp only: div_Suc) simp
  from m show "length (ns @ [n]) mod 20 = length ns mod 20 + 1" by simp
  have "20 * ?q \<le> length ns" by simp
  then show "open_window (ns @ [n]) = open_window ns @ [n]" by (simp add: open_window_def q)
  show "resident_segment (ns @ [n]) = resident_segment ns"
  proof (cases "length ns < 20")
    case True
    then show ?thesis using assms by (simp add: resident_segment_def)
  next
    case False
    then have "20 * (?q - 1) + 20 \<le> length ns" using l by (cases ?q) simp_all
    then have "last_window (ns @ [n]) = last_window ns" by (simp add: last_window_def q)
    then show ?thesis using False by (simp add: resident_segment_def)
  qed
qed

lemma window_full:
  assumes "length ns mod 20 = 19"
  shows "open_window (ns @ [n]) = []" "resident_segment (ns @ [n]) = hottest (open_window ns @ [n])" "length (ns @ [n]) mod 20 = 0"
proof -
  let ?q = "length ns div 20"
  have l: "length ns = 20 * ?q + 19" using assms mult_div_mod_eq[of 20 "length ns"] by simp
  have m: "Suc (length ns) mod 20 = 0" using assms by (simp add: mod_Suc)
  then have q: "Suc (length ns) div 20 = ?q + 1" by (simp only: div_Suc) simp
  from m show "length (ns @ [n]) mod 20 = 0" by simp
  show "open_window (ns @ [n]) = []" using l by (simp add: open_window_def q)
  have "length (open_window ns @ [n]) = 20" using l by (simp add: open_window_def)
  moreover have "drop (20 * ?q) (ns @ [n]) = open_window ns @ [n]" using l by (simp add: open_window_def)
  ultimately have "last_window (ns @ [n]) = open_window ns @ [n]" by (simp add: last_window_def q)
  then show "resident_segment (ns @ [n]) = hottest (open_window ns @ [n])" using l by (simp add: resident_segment_def)
qed

lemma hottest_less: "w \<noteq> [] \<Longrightarrow> \<forall>n\<in>set w. n < 6 \<Longrightarrow> hottest w < 6"
proof -
  assume w: "w \<noteq> []" "\<forall>n\<in>set w. n < 6"
  let ?P = "\<lambda>i. list_all (\<lambda>j. count_list w j \<le> count_list w i) [0..<6]"
  let ?M = "Max (count_list w ` {..<6})"
  have "(0 :: nat) \<in> {..<6}" by simp
  then have "?M \<in> count_list w ` {..<6}" by (intro Max_in) blast+
  then obtain i where "i < 6" "count_list w i = ?M" by auto
  then have i: "i < 6" "\<forall>j<6. count_list w j \<le> count_list w i" by auto
  then have "filter ?P [0..<6] \<noteq> []" by (auto simp: filter_empty_conv list_all_iff intro!: bexI[of _ i])
  then have "hd (filter ?P [0..<6]) \<in> set (filter ?P [0..<6])" by (rule hd_in_set)
  then show "hottest w < 6" by (simp add: hottest_def)
qed

lemma entry_access:
  assumes rel: "entry_rel ns e" and n: "n < 6" and ns: "\<forall>k\<in>set ns. k < 6"
  shows "runs (accessEntry (word_of_nat n) e) (\<lambda>(r, e'). r = entry_answer ns n \<and> entry_rel (ns @ [n]) e' \<and>
     se_start_address e' = se_start_address e)"
proof -
  let ?w = "open_window ns" and ?c = "\<lambda>i. count_list (open_window ns @ [n]) i"
  let ?acc = "map (\<lambda>i. word_of_nat (?c i) :: u32) [0..<6]"
  have u: "unat (word_of_nat n :: u32) = n" using n by (intro u32_nat) simp
  have w: "length ?w = length ns mod 20" by (simp add: open_window_def minus_mult_div_eq_mod)
  have R: "unat (se_tag e) = resident_segment ns" "se_count e = word_of_nat (length ns mod 20)" "se_swap_count e = 20"
    "se_access e = map (\<lambda>i. word_of_nat (count_list ?w i)) [0..<6]"
    using rel by (simp_all add: entry_rel_def)
  have acc: "(se_access e)[n := se_access e ! n + 1] = ?acc"
    using n by (auto simp: R(4) list_eq_iff_nth_eq nth_list_update)
  have f: "fetch (se_access e) (word_of_nat n) = Some (se_access e ! n)" "store (se_access e) (word_of_nat n) (se_access e ! n + 1) = Some ?acc"
    using n u acc by (simp_all add: fetch_def store_def R(4))
  have hit: "word_of_nat n = se_tag e \<longleftrightarrow> n = resident_segment ns"
    using u R(1) by (simp add: word_unat_eq_iff)
  have c20: "?c i \<le> 20" for i using count_le_length[of "?w @ [n]" i] w by simp
  have cnt: "se_count e + 1 = word_of_nat (length ns mod 20 + 1)" by (simp add: R(2))
  show ?thesis
  proof (cases "length ns mod 20 < 19")
    case True
    then have "(word_of_nat (length ns mod 20 + 1) :: u32) \<noteq> word_of_nat 20"
      using u32_nat_less[of "length ns mod 20 + 1" 20] by auto
    then have ne: "(word_of_nat (length ns mod 20 + 1) :: u32) \<noteq> 20" by simp
    then show ?thesis
      using f R(1,3) hit window_small[OF True, of n] cnt ne
      by (simp add: accessEntry_def Let_def entry_answer_def entry_rel_def)
  next
    case False
    then have m: "length ns mod 20 = 19" by linarith
    have "0 < ?c n" by simp
    from hottest_loop[of ?c, OF c20 n this]
    have loop: "foldM hottest_step (u32_range 0 6) (?acc, 0, 0) = Some (replicate 6 0, word_of_nat (?c (hottest (?w @ [n]))), word_of_nat (hottest (?w @ [n])))"
      by (simp add: hottest_def)
    have "set ?w \<subseteq> set ns" by (simp add: open_window_def set_drop_subset)
    then have h: "hottest (?w @ [n]) < 6" using n ns by (intro hottest_less) auto
    then have hu: "unat (word_of_nat (hottest (?w @ [n])) :: u32) = hottest (?w @ [n])" by (intro u32_nat) simp
    then have swap: "word_of_nat (hottest (?w @ [n])) \<noteq> se_tag e \<longleftrightarrow> hottest (?w @ [n]) \<noteq> resident_segment ns"
      using R(1) by (simp add: word_unat_eq_iff)
    have z: "map (\<lambda>i. word_of_nat (count_list [] i)) [0..<6] = (replicate 6 0 :: u32 list)" by (simp add: list_eq_iff_nth_eq)
    show ?thesis
      using f R(1,3) hit window_full[OF m, of n] cnt loop swap hu z m
      by (auto simp: accessEntry_def Let_def entry_answer_def entry_rel_def)
  qed
qed

subsection \<open>The fast memory\<close>

definition mem_inv :: "'t::{comm_monoid_add, minus} mem_perf \<Rightarrow> bool" where
  "mem_inv p \<longleftrightarrow> mp_row_size p = 8 \<and> length (mp_vaults p) = 32 \<and> (\<forall>v\<in>set (mp_vaults p). vault_inv 8 2048 v)"

lemma ucast_mask_less:
  fixes x :: u64
  assumes "m < 32"
  shows "unat (ucast (x AND (push_bit m 1 - 1)) :: u32) < 2 ^ m"
proof -
  have e: "x AND (push_bit m 1 - 1) = take_bit m x" by (simp add: take_bit_eq_mask mask_eq_exp_minus_1 push_bit_eq_mult)
  have "unat (ucast (x AND (push_bit m 1 - 1)) :: u32) = take_bit 32 (take_bit m (unat x))"
    by (simp only: e unsigned_ucast_eq unsigned_take_bit_eq) (simp add: min.commute)
  also have "\<dots> = take_bit m (unat x)" proof -
    have "min 32 m = m" using assms by simp
    then show ?thesis by (simp only: take_bit_take_bit)
  qed
  finally show ?thesis by simp
qed

lemma mem_fields_range:
  assumes "mem_fields off_bit k a = (v, b, r)"
  shows "unat v < 32" "b < 8" "r < 2048"
proof -
  obtain x y z q where f: "v = ucast ((x :: u64) AND (push_bit 5 1 - 1))" "r = ucast ((y :: u64) AND (push_bit 11 1 - 1))"
    "b = ucast ((z :: u64) AND (push_bit 2 1 - 1)) * 2 + ucast ((q :: u64) AND (push_bit 1 1 - 1))"
    using assms unfolding mem_fields_def Let_def prod.inject by blast
  have z: "unat (ucast (z AND (push_bit 2 1 - 1)) :: u32) < 4" "unat (ucast (q AND (push_bit 1 1 - 1)) :: u32) < 2"
    using ucast_mask_less[of 2 z] ucast_mask_less[of 1 q] by simp_all
  show "unat v < 32" "r < 2048"
    using ucast_mask_less[of 5 x] ucast_mask_less[of 11 y] unfolding f by (simp_all add: word_less_nat_alt)
  let ?z = "ucast (z AND (push_bit 2 1 - 1)) :: u32" and ?q = "ucast (q AND (push_bit 1 1 - 1)) :: u32"
  have "b = word_of_nat (unat ?z * 2 + unat ?q)" unfolding f by simp
  then have "unat b = unat ?z * 2 + unat ?q" using z by (simp only: unat_of_nat) simp
  then show "b < 8" using z by (simp add: word_less_nat_alt)
qed

lemma mem_access:
  assumes fl: "floorLog2_ok fl" and p: "mem_inv p"
  shows "runs (mem_getAccessLatency off_bit fl ns t a ty p) (\<lambda>(l, p'). mem_inv p')"
proof -
  have "fl (2 ^ 3) = word_of_nat 3" using fl unfolding floorLog2_ok_def by (meson numeral_less_iff semiring_norm)
  then have l: "unat (fl 8) = 3" by simp
  have P: "mp_row_size p = 8" "length (mp_vaults p) = 32" "\<forall>v\<in>set (mp_vaults p). vault_inv 8 2048 v"
    using p by (simp_all add: mem_inv_def)
  obtain v b r where f: "mem_fields off_bit 3 a = (v, b, r)" by (metis prod_cases3)
  note R = mem_fields_range[OF f]
  have V: "vault_inv 8 2048 (mp_vaults p ! unat v)" using P R(1) by simp
  have upd: "mem_inv (p\<lparr>mp_vaults := (mp_vaults p)[unat v := w]\<rparr>)" if "vault_inv 8 2048 w" for w
    using P that set_update_subset_insert[of "mp_vaults p" "unat v" w] by (auto simp: mem_inv_def)
  have req: "runs (processRequest ns t ty b r (mp_vaults p ! unat v)) (\<lambda>(l, w). vault_inv 8 2048 w)"
    by (rule runs_mono[OF vault_inv_request[OF V R(2,3)]]) auto
  have "fetch (mp_vaults p) v = Some (mp_vaults p ! unat v)" using P(2) R(1) by (simp add: fetch_def)
  moreover have "store (mp_vaults p) v w = Some ((mp_vaults p)[unat v := w])" for w using P(2) R(1) by (simp add: store_def)
  ultimately show ?thesis
    unfolding mem_getAccessLatency_def P(1) l using upd
    by (auto simp: f runs_bind runs_guard Let_def intro!: runs_mono[OF req])
qed

lemma new_mem: "runs (StackedDramPerfMem 32 (128 * 1024) (16 * 1024) 8 :: 'a::{comm_monoid_add, minus} mem_perf option) mem_inv"
proof -
  have one: "runs (VaultPerfModel (128 * 1024) (16 * 1024) 8 :: 'a vault_perf option) (vault_inv 8 2048)"
    using VaultPerfModel_inv[of 8 "16 * 1024" "128 * 1024", where ?'a = 'a] by simp
  have "runs (build_vaults 32 (128 * 1024) (16 * 1024) 8) (\<lambda>vs :: 'a vault_perf list. length vs = unat (32 :: u32) \<and> (\<forall>v\<in>set vs. vault_inv 8 2048 v))"
    unfolding build_vaults_def
  proof (rule foldM_u32_range_runs[where I = "\<lambda>k vs. length vs = k \<and> (\<forall>v\<in>set vs. vault_inv 8 2048 v)"])
    fix i :: u32 and vs :: "'a vault_perf list" assume "length vs = unat i \<and> (\<forall>v\<in>set vs. vault_inv 8 2048 v)"
    then show "runs (do { v \<leftarrow> VaultPerfModel (128 * 1024) (16 * 1024) 8; Some (vs @ [v]) })
        (\<lambda>vs. length vs = Suc (unat i) \<and> (\<forall>v\<in>set vs. vault_inv 8 2048 v))"
      unfolding runs_bind by (intro runs_mono[OF one]) auto
  qed simp
  then show ?thesis
    unfolding StackedDramPerfMem_def runs_bind by (rule runs_mono) (simp add: mem_inv_def)
qed

lemma swap_runs:
  assumes fl: "floorLog2_ok fl" and p: "mem_inv p"
  shows "runs (foldM (\<lambda>i. swap_row off_bit fl ns t) is (a, d, p)) (\<lambda>(a, d, p). mem_inv p)"
proof -
  have "runs (swap_row off_bit fl ns t st) (\<lambda>(a, d, p). mem_inv p)" if "case st of (a, d, p) \<Rightarrow> mem_inv p" for st
  proof -
    obtain a d q where st: "st = (a, d, q)" by (cases st)
    then have q: "mem_inv q" using that by simp
    show ?thesis
      unfolding swap_row_def st
      by (auto simp: runs_bind intro!: runs_mono[OF mem_access[OF fl q]] runs_mono[OF mem_access[OF fl]])
  qed
  from foldM_runs[of "\<lambda>(a, d, p). mem_inv p" "(a, d, p)" "is" "\<lambda>i. swap_row off_bit fl ns t"] this p
  show ?thesis by auto
qed

subsection \<open>The model\<close>

type_synonym 't segment_request = "'t \<times> u64 \<times> int \<times> u64 \<times> access_t"

fun segment_step :: "nat \<Rightarrow> (u32 \<Rightarrow> u32) \<Rightarrow> (u64 \<Rightarrow> 't::{comm_monoid_add, minus}) \<Rightarrow> (u64 \<Rightarrow> 't) \<Rightarrow> int \<Rightarrow>
    't segment_request \<Rightarrow> 't segment_model \<Rightarrow> 't segment_model option" where
  "segment_step off_bit fl ns bw cores (t, size', req, addr, ty) g = do {
     (l, g) \<leftarrow> segment_getAccessLatency off_bit fl ns bw cores t size' req addr ty g;
     Some g }"

text \<open>The entry and the segment of a request, the segments that an entry was asked for, and the swaps of a run.\<close>

fun request_entry :: "'t segment_request \<Rightarrow> nat" where
  "request_entry (t, size', req, addr, ty) = unat addr div 2 ^ 20 mod 4096"

fun request_segment :: "'t segment_request \<Rightarrow> nat" where
  "request_segment (t, size', req, addr, ty) = unat addr div 2 ^ 20 div 4096 mod 6"

fun timed :: "bool \<Rightarrow> int \<Rightarrow> 't segment_request \<Rightarrow> bool" where
  "timed en cores (t, size', req, addr, ty) \<longleftrightarrow> en \<and> req < cores"

definition asked :: "nat \<Rightarrow> 't segment_request list \<Rightarrow> nat list" where
  "asked k rs = map request_segment (filter (\<lambda>r. request_entry r = k) rs)"

definition swaps_at :: "bool \<Rightarrow> int \<Rightarrow> 't segment_request list \<Rightarrow> 't segment_request \<Rightarrow> bool" where
  "swaps_at en cores rs r \<longleftrightarrow> timed en cores r \<and>
     resident_segment (asked (request_entry r) rs @ [request_segment r]) \<noteq> resident_segment (asked (request_entry r) rs)"

definition swaps_of :: "bool \<Rightarrow> int \<Rightarrow> 't segment_request list \<Rightarrow> nat" where
  "swaps_of en cores rs = length (filter (\<lambda>i. swaps_at en cores (take i rs) (rs ! i)) [0..<length rs])"

lemma swaps_of_snoc: "swaps_of en cores (rs @ [r]) = swaps_of en cores rs + (if swaps_at en cores rs r then 1 else 0)"
proof -
  have "filter (\<lambda>i. swaps_at en cores (take i (rs @ [r])) ((rs @ [r]) ! i)) [0..<length rs] =
      filter (\<lambda>i. swaps_at en cores (take i rs) (rs ! i)) [0..<length rs]"
    by (rule filter_cong) (auto simp: nth_append)
  then show ?thesis by (simp add: swaps_of_def)
qed

definition segment_inv :: "bool \<Rightarrow> int \<Rightarrow> 't::{comm_monoid_add, minus} segment_request list \<Rightarrow> 't segment_model \<Rightarrow> bool" where
  "segment_inv en cores rs g \<longleftrightarrow> sg_seg_num g = 4096 \<and> length (sg_src g) = 4096 \<and> sg_enabled g = en \<and> mem_inv (sg_perf g) \<and>
     (\<forall>k<4096. entry_rel (asked k rs) (sg_src g ! k)) \<and>
     sg_swap_times g = word_of_nat (swaps_of en cores rs) \<and>
     sg_tot_access g = word_of_nat (length (filter (timed en cores) rs))"

lemma segment_access:
  assumes fl: "floorLog2_ok fl" and inv: "segment_inv en cores rs g"
  shows "runs (segment_step off_bit fl ns bw cores r g) (segment_inv en cores (rs @ [r]))"
proof -
  obtain t size' req addr ty where r: "r = (t, size', req, addr, ty)" by (cases r)
  let ?k = "request_entry r" and ?n = "request_segment r"
  let ?u = "ucast (drop_bit 20 addr mod 4096) :: u32" and ?v = "ucast (drop_bit 20 addr div 4096 mod 6) :: u32"
  have d: "unat (drop_bit 20 addr) = unat addr div 2 ^ 20" by (simp only: unat_drop_bit_eq) (simp only: drop_bit_eq_div)
  have "unat (drop_bit 20 addr mod 4096) = ?k" "unat (drop_bit 20 addr div 4096 mod 6) = ?n"
    by (simp_all add: unat_mod unat_div d r)
  moreover have kn: "?k < 4096" "?n < 6" by (simp_all add: r)
  ultimately have u: "unat ?u = ?k" and v: "?v = word_of_nat ?n"
    by (simp_all add: unsigned_ucast_eq word_unat_eq_iff unat_of_nat take_bit_eq_mod)
  have G: "sg_seg_num g = 4096" "length (sg_src g) = 4096" "sg_enabled g = en" "mem_inv (sg_perf g)"
    "\<forall>k<4096. entry_rel (asked k rs) (sg_src g ! k)" "sg_swap_times g = word_of_nat (swaps_of en cores rs)"
    "sg_tot_access g = word_of_nat (length (filter (timed en cores) rs))"
    using inv by (simp_all add: segment_inv_def)
  have rel: "entry_rel (asked ?k rs) (sg_src g ! ?k)" using G(5) kn(1) by simp
  have six: "\<forall>k\<in>set (asked ?k rs). k < 6"
  proof -
    have "request_segment q < 6" for q :: "'a segment_request" by (cases q) simp
    then show ?thesis by (auto simp: asked_def)
  qed
  obtain a e where acc: "accessEntry (word_of_nat ?n) (sg_src g ! ?k) = Some (a, e)" "a = entry_answer (asked ?k rs) ?n"
      "entry_rel (asked ?k rs @ [?n]) e"
    using entry_access[OF rel kn(2) six] by (auto simp: runs_iff)
  have new: "\<forall>k<4096. entry_rel (asked k (rs @ [r])) ((sg_src g)[?k := e] ! k)"
    using G(2,5) acc(3) by (auto simp: asked_def nth_list_update)
  have swap: "a = 1 \<or> a = 3 \<longleftrightarrow> resident_segment (asked ?k rs @ [?n]) \<noteq> resident_segment (asked ?k rs)"
    by (auto simp: acc(2) entry_answer_def)
  have base: "segment_inv en cores (rs @ [r]) g'"
    if "sg_seg_num g' = 4096" "sg_src g' = (sg_src g)[?k := e]" "sg_enabled g' = en" "mem_inv (sg_perf g')"
      "sg_swap_times g' = sg_swap_times g + (if swaps_at en cores rs r then 1 else 0)"
      "sg_tot_access g' = sg_tot_access g + (if timed en cores r then 1 else 0)" for g' :: "'a segment_model"
    using that new G(2,6,7) by (simp add: segment_inv_def swaps_of_snoc)
  have tm: "timed en cores r \<longleftrightarrow> \<not> (\<not> en \<or> cores \<le> req)" by (auto simp: r)
  have sw: "swaps_at en cores rs r \<longleftrightarrow> timed en cores r \<and> (a = 1 \<or> a = 3)" by (simp add: swaps_at_def swap)
  have swp: "runs (foldM (\<lambda>i. swap_row off_bit fl ns t) [0..<128] (se_start_address e, 0, sg_perf g)) (\<lambda>(a, d, p). mem_inv p)"
    by (rule swap_runs[OF fl G(4)])
  have f: "fetch (sg_src g) ?u = Some (sg_src g ! ?k)" "store (sg_src g) ?u e = Some ((sg_src g)[?k := e])"
    using u kn(1) G(2) by (simp_all add: fetch_def store_def)
  have step: "segment_step off_bit fl ns bw cores r g = do {
      (l, g) \<leftarrow> segment_getAccessLatency off_bit fl ns bw cores t size' req addr ty g; Some g }" by (simp add: r)
  show ?thesis
  proof (cases "timed en cores r")
    case False
    have "segment_inv en cores (rs @ [r]) (g\<lparr>sg_src := (sg_src g)[?k := e]\<rparr>)"
      by (rule base) (use False G sw in simp_all)
    then show ?thesis
      using False[unfolded tm] unfolding step segment_getAccessLatency_def
      by (simp add: G(1-4) f v acc(1) guard_def Let_def)
  next
    case True
    show ?thesis
    proof (cases "a = 1 \<or> a = 3")
      case swaps: True
      have upd: "segment_inv en cores (rs @ [r]) (g\<lparr>sg_src := (sg_src g)[?k := e], sg_tot_access := sg_tot_access g + 1,
          sg_swap_times := sg_swap_times g + 1, sg_perf := p, sg_num_accesses := n, sg_total_access_latency := l\<rparr>)" if "mem_inv p" for p n l
        by (rule base) (use that True swaps G sw in simp_all)
      show ?thesis
        using \<open>timed en cores r\<close>[unfolded tm] swaps upd unfolding step segment_getAccessLatency_def
        by (auto simp add: G(1-4) f v acc(1) guard_def Let_def runs_bind intro!: runs_mono[OF swp] runs_mono[OF mem_access[OF fl]])
    next
      case False
      have upd: "segment_inv en cores (rs @ [r]) (g\<lparr>sg_src := (sg_src g)[?k := e], sg_tot_access := sg_tot_access g + 1, sg_perf := p,
          sg_num_accesses := n, sg_total_access_latency := l\<rparr>)" if "mem_inv p" for p n l
        by (rule base) (use that True False G sw in simp_all)
      show ?thesis
        using \<open>timed en cores r\<close>[unfolded tm] False upd unfolding step segment_getAccessLatency_def
        by (auto simp add: G(1-4) f v acc(1) guard_def Let_def runs_bind intro!: runs_mono[OF mem_access[OF fl G(4)]])
    qed
  qed
qed

lemma segment_steps:
  assumes "floorLog2_ok fl"
  shows "segment_inv en cores hs g \<Longrightarrow> runs (foldM (segment_step off_bit fl ns bw cores) rs g) (segment_inv en cores (hs @ rs))"
proof (induction rs arbitrary: hs g)
  case (Cons r rs)
  have "runs (foldM (segment_step off_bit fl ns bw cores) rs g') (segment_inv en cores (hs @ r # rs))" if "segment_inv en cores (hs @ [r]) g'" for g'
    using Cons.IH[OF that] by simp
  then show ?case
    unfolding foldM.simps runs_bind by (rule runs_mono[OF segment_access[OF assms Cons.prems]])
qed simp

lemma new_segments: "runs (DramPerfModelConstant en) (segment_inv en cores [])"
proof -
  have e: "entry_rel [] (SrcEntry (word_of_nat k))" for k
    by (simp add: entry_rel_def SrcEntry_def resident_segment_def open_window_def list_eq_iff_nth_eq)
  have "map SrcEntry (u32_range 0 4096) ! k = SrcEntry (word_of_nat k)" if "k < 4096" for k
    using that by (simp add: u32_range_def)
  then show ?thesis
    unfolding DramPerfModelConstant_def Let_def runs_bind
    by (intro runs_mono[OF new_mem]) (auto simp: segment_inv_def asked_def swaps_of_def e)
qed

text \<open>C24: The fast memory holds the hottest segments. From the constructor on every sequence of requests returns:
  no entry, segment, vault, bank or row is out of range. Afterwards the tag of every one of the 4096 entries is
  the segment that was asked for most often in the last complete window of twenty requests to this
  entry (the smallest such segment, and segment 0 before the first window is complete); the swap counter is the
  number of requests of application cores that made the resident segment of their entry change, and the
  access counter is the number of all requests of application cores (both modulo \<open>2^32\<close>, and none while the
  model is disabled).\<close>

theorem hottest_segments_resident:
  assumes "floorLog2_ok fl"
  shows "\<exists>g. (DramPerfModelConstant en \<bind> foldM (segment_step off_bit fl ns bw cores) rs) = Some g \<and>
     (\<forall>k<4096. unat (se_tag (sg_src g ! k)) = resident_segment (asked k rs)) \<and>
     sg_swap_times g = word_of_nat (swaps_of en cores rs) \<and>
     sg_tot_access g = word_of_nat (length (filter (timed en cores) rs))"
proof -
  have "runs (DramPerfModelConstant en \<bind> foldM (segment_step off_bit fl ns bw cores) rs) (segment_inv en cores ([] @ rs))"
    unfolding runs_bind by (rule runs_mono[OF new_segments]) (rule segment_steps[OF assms])
  then show ?thesis by (auto simp: runs_iff segment_inv_def entry_rel_def)
qed

text \<open>Twenty requests for segment 2 of entry 1: the last one swaps it in.\<close>

theorem hottest_segments_resident_witness:
  "\<exists>g. (DramPerfModelConstant True \<bind> foldM (segment_step 6 demo_log2 unat unat 4) (replicate 20 (0, 64, 0, 0x200100000, READ))) = Some g \<and>
     unat (se_tag (sg_src g ! 1)) = 2 \<and> sg_swap_times g = 1 \<and> sg_tot_access g = 20"
proof -
  let ?r = "(0, 64, 0, 0x200100000, READ) :: nat segment_request"
  have a: "asked 1 (replicate k ?r) = replicate k 2" for k by (simp add: asked_def)
  have h: "resident_segment (replicate k 2) = (if k < 20 then 0 else 2)" if "k \<le> 20" for k
  proof -
    have "count_list (replicate m (2 :: nat)) i = (if i = 2 then m else 0)" for m i by (induction m) auto
    then have "hottest (replicate 20 2) = 2" by (simp add: hottest_def upt_rec)
    then show ?thesis using that by (cases "k = 20") (simp_all add: resident_segment_def last_window_def)
  qed
  have s: "swaps_at True 4 (replicate k ?r) ?r \<longleftrightarrow> k = 19" if "k < 20" for k
  proof -
    have "replicate k (2 :: nat) @ [2] = replicate (Suc k) 2" by (simp add: replicate_append_same)
    then show ?thesis using h[of k] h[of "Suc k"] that a[of k] by (auto simp: swaps_at_def)
  qed
  have "swaps_of True 4 (replicate 20 ?r) = length (filter (\<lambda>i. i = 19) [0..<20])"
    unfolding swaps_of_def by (rule arg_cong[where f = length], rule filter_cong) (auto simp: s)
  also have "\<dots> = 1" by (simp add: upt_rec)
  finally have w: "swaps_of True 4 (replicate 20 ?r) = 1" .
  have t: "filter (timed True 4) (replicate 20 ?r) = replicate 20 ?r" by simp
  show ?thesis
    using hottest_segments_resident[OF demo_log2_ok, where en = True and off_bit = 6 and ns = unat and bw = unat and cores = 4 and rs = "replicate 20 ?r"]
      a[of 20] h[of 20] w unfolding t by force
qed

end
