(* ===== verification/PageCache.thy ===== *)
theory PageCache
  imports StackedDram UnisonCache
begin

section \<open>The page cache of the last-level cache\<close>

text \<open>
  Model of \<^verbatim>\<open>cache_page_info.{h,cc}\<close> (\<^verbatim>\<open>CachePageInfo\<close>), \<^verbatim>\<open>cache_set_page_lru.{h,cc}\<close> (\<^verbatim>\<open>CacheSetPageLRU\<close>) and of
  \<^verbatim>\<open>StackedDramCacheCntlr\<close> in \<^verbatim>\<open>stacked_llc_power_model.{h,cc}\<close>: a set-associative cache of pages of 31 blocks with a
  table of footprints. \<^verbatim>\<open>accessAttempt\<close> contains an unresolved merge conflict, whose two sides differ in one
  counter; \<open>reload\<close> says which side is taken, and what is proved holds for both.

  The member \<^verbatim>\<open>m_cstate\<close> is only ever \<^verbatim>\<open>INVALID\<close> and decides nothing, \<^verbatim>\<open>m_access\<close> of \<^verbatim>\<open>CacheSetInfoPageLRU\<close> is never read,
  \<^verbatim>\<open>dram_stats\<close> is filled by the destructor for a report; they are left out, as are the log files and the class
  \<^verbatim>\<open>StackedLlcPowerModel\<close>, which allocates counters that nothing uses. The shifts by \<^verbatim>\<open>block_num - 1\<close> of
  \<^verbatim>\<open>accessBlock\<close> are too wide for block 0, which is undefined (\<open>None\<close>). The operations distinguish writes from the
  rest, \<open>READ_OP\<close> stands for \<^verbatim>\<open>READ\<close> and \<^verbatim>\<open>READ_EX\<close>.
\<close>

subsection \<open>Pages\<close>

record llc_page =
  lp_tag :: u64
  lp_vbits_0 :: u32
  lp_vbits_1 :: u32
  lp_dbits_0 :: u32
  lp_dbits_1 :: u32
  lp_footprint :: u32
  lp_used :: u8
  lp_pc :: u8
  lp_offset :: u8

text \<open>The constructor sets \<^verbatim>\<open>dbits_0\<close> twice and \<^verbatim>\<open>dbits_1\<close> not at all: \<open>raw\<close> is what is in the memory.\<close>

definition CachePageInfo :: "u32 \<Rightarrow> llc_page" where
  "CachePageInfo raw = \<lparr>lp_tag = - 1, lp_vbits_0 = - 1, lp_vbits_1 = - 1, lp_dbits_0 = 0, lp_dbits_1 = raw,
     lp_footprint = 0, lp_used = 0, lp_pc = 0, lp_offset = 0\<rparr>"

definition llc_invalidate :: "llc_page \<Rightarrow> llc_page" where
  "llc_invalidate p = p\<lparr>lp_tag := - 1\<rparr>"

definition llc_clone :: "llc_page \<Rightarrow> llc_page \<Rightarrow> llc_page" where
  "llc_clone src p = p\<lparr>lp_tag := lp_tag src, lp_used := lp_used src\<rparr>"

definition llc_isValid :: "llc_page \<Rightarrow> bool" where
  "llc_isValid p \<longleftrightarrow> lp_tag p \<noteq> - 1"

definition llc_updateUsage :: "u8 \<Rightarrow> llc_page \<Rightarrow> llc_page" where
  "llc_updateUsage used p = p\<lparr>lp_used := used\<rparr>"

definition llc_accessBlock :: "mem_op_t \<Rightarrow> u32 \<Rightarrow> llc_page \<Rightarrow> (bool \<times> llc_page) option" where
  "llc_accessBlock ty block_num p = do {
     guard (unat (block_num - 1) < 32);
     let v0 = (drop_bit (unat (block_num - 1)) (lp_vbits_0 p) AND 1 \<noteq> 0);
     let p = p\<lparr>lp_vbits_0 := or_bit (lp_vbits_0 p) (block_num - 1)\<rparr>;
     let p = (if ty = WRITE_OP then p\<lparr>lp_dbits_0 := or_bit (lp_dbits_0 p) (block_num - 1)\<rparr> else p);
     let p = p\<lparr>lp_footprint := or_bit (lp_footprint p) (block_num - 1)\<rparr>;
     Some (v0, p)
   }"

definition llc_loadBlocks :: "u32 \<Rightarrow> llc_page \<Rightarrow> llc_page" where
  "llc_loadBlocks footprint p = p\<lparr>lp_footprint := 0, lp_vbits_0 := footprint\<rparr>"

subsection \<open>Sets\<close>

record llc_set =
  ls_associativity :: u32
  ls_reads :: int
  ls_writes :: int
  ls_n_vault :: u32
  ls_n_bank :: u32
  ls_n_level :: u32
  ls_lru_bits :: "u8 list"
  ls_pages :: "llc_page list"
  ls_out :: "string list"

definition CacheSetPageLRU :: "u32 \<Rightarrow> u32 \<Rightarrow> u32 \<times> u32 \<times> u32 \<Rightarrow> llc_set" where
  "CacheSetPageLRU raw associativity place = (let (v, b, l) = place in
     \<lparr>ls_associativity = associativity, ls_reads = 0, ls_writes = 0, ls_n_vault = v, ls_n_bank = b, ls_n_level = l,
      ls_lru_bits = map ucast (u32_range 0 associativity), ls_pages = replicate (unat associativity) (CachePageInfo raw), ls_out = []\<rparr>)"

definition llc_getReplacementIndex :: "llc_set \<Rightarrow> (u32 \<times> llc_set) option" where
  "llc_getReplacementIndex s = do {
     let s = s\<lparr>ls_reads := ls_reads s + 1\<rparr>;
     (max_t, index) \<leftarrow> foldM (\<lambda>i (max_t, index). do {
          p \<leftarrow> fetch (ls_pages s) i;
          if lp_used p > max_t then Some (lp_used p, i) else Some (max_t, index)
        }) (u32_range 0 (ls_associativity s)) (0, 0);
     Some (index, s)
   }"

text \<open>The first way with a tag, as the loops with \<^verbatim>\<open>break\<close> find it.\<close>

primrec llc_find_way :: "u64 \<Rightarrow> u32 list \<Rightarrow> llc_page list \<Rightarrow> u32 option option" where
  "llc_find_way tag [] ps = Some None"
| "llc_find_way tag (i # is) ps = do {
     p \<leftarrow> fetch ps i;
     if lp_tag p = tag then Some (Some i) else llc_find_way tag is ps
   }"

definition llc_updateUsedInfo :: "u64 \<Rightarrow> llc_set \<Rightarrow> llc_set option" where
  "llc_updateUsedInfo tag s = do {
     w \<leftarrow> llc_find_way tag (u32_range 0 (ls_associativity s)) (ls_pages s);
     case w of
       None \<Rightarrow> Some (s\<lparr>ls_out := ls_out s @ [''ERROR: update tag'']\<rparr>)
     | Some index \<Rightarrow> do {
         p \<leftarrow> fetch (ls_pages s) index;
         if lp_used p \<noteq> 0 then do {
           ps \<leftarrow> foldM (\<lambda>i ps. do {
               q \<leftarrow> fetch ps i;
               store ps i (if index = i then llc_updateUsage 0 q else llc_updateUsage (lp_used q + 1) q)
             }) (u32_range 0 (ls_associativity s)) (ls_pages s);
           Some (s\<lparr>ls_pages := ps\<rparr>) }
         else Some s
       }
   }"

definition llc_updateReplacementIndexTag :: "u32 \<Rightarrow> u64 \<Rightarrow> u32 \<Rightarrow> llc_set \<Rightarrow> llc_set option" where
  "llc_updateReplacementIndexTag index tag footprint s = do {
     page \<leftarrow> fetch (ls_pages s) index;
     ps \<leftarrow> store (ls_pages s) index (page\<lparr>lp_tag := tag, lp_vbits_0 := footprint, lp_dbits_0 := 0, lp_footprint := 0\<rparr>);
     llc_updateUsedInfo tag (s\<lparr>ls_pages := ps, ls_writes := ls_writes s + 1\<rparr>)
   }"

definition llc_accessAttempt :: "bool \<Rightarrow> mem_op_t \<Rightarrow> u64 \<Rightarrow> u64 \<Rightarrow> llc_set \<Rightarrow> (u8 \<times> llc_set) option" where
  "llc_accessAttempt reload ty tag offset s = do {
     let block_num = ucast (offset div 64);
     let s = s\<lparr>ls_reads := ls_reads s + 1\<rparr>;
     w \<leftarrow> llc_find_way tag (u32_range 0 (ls_associativity s)) (ls_pages s);
     case w of
       None \<Rightarrow> Some (0, s)
     | Some i \<Rightarrow> do {
         p \<leftarrow> fetch (ls_pages s) i;
         (hit, p) \<leftarrow> llc_accessBlock ty block_num p;
         ps \<leftarrow> store (ls_pages s) i p;
         let s = s\<lparr>ls_pages := ps\<rparr>;
         if hit then Some (2, s) else Some (1, if reload then s\<lparr>ls_writes := ls_writes s + 1\<rparr> else s)
       }
   }"

subsection \<open>The controller\<close>

record llc_cntlr =
  lc_set :: "llc_set list"
  lc_FHT :: "u32 list"
  lc_set_num :: u32
  lc_associativity :: u32
  lc_blocksize :: u32
  lc_pagesize :: u32

definition StackedDramCacheCntlr :: "u32 \<Rightarrow> u32 \<Rightarrow> u32 \<Rightarrow> u32 \<Rightarrow> u32 \<Rightarrow> llc_cntlr" where
  "StackedDramCacheCntlr raw set_num associativity blocksize pagesize =
     \<lparr>lc_set = map (\<lambda>i. let offset = drop_bit 12 i in
        CacheSetPageLRU raw associativity (offset AND 31, drop_bit 11 i AND 1, drop_bit 5 offset AND 3)) (u32_range 0 set_num),
      lc_FHT = replicate 31 0, lc_set_num = set_num, lc_associativity = associativity, lc_blocksize = blocksize,
      lc_pagesize = pagesize\<rparr>"

definition llc_SplitAddress :: "(u32 \<Rightarrow> u32) \<Rightarrow> u64 \<Rightarrow> llc_cntlr \<Rightarrow> (u32 \<times> u64 \<times> u64) option" where
  "llc_SplitAddress floorLog2 address c = do {
     guard (lc_pagesize c \<noteq> 0);
     let page_offset = address mod ucast (lc_pagesize c);
     let addr = address div ucast (lc_pagesize c);
     let bits = unat (floorLog2 (lc_set_num c));
     guard (bits < 64);
     Some (ucast (addr AND (push_bit bits 1 - 1)), drop_bit bits addr, page_offset)
   }"

text \<open>A page that is not in the cache: the victim gets its tag and the predicted blocks, the table its footprint.\<close>

definition llc_replace :: "u32 \<Rightarrow> u64 \<Rightarrow> u32 \<Rightarrow> llc_set \<Rightarrow> u32 list \<Rightarrow> (llc_set \<times> u32 list) option" where
  "llc_replace block_num tag footprint s fht = do {
     let s = s\<lparr>ls_reads := ls_reads s + 1\<rparr>;
     (index, s) \<leftarrow> llc_getReplacementIndex s;
     s \<leftarrow> llc_updateReplacementIndexTag index tag footprint s;
     page \<leftarrow> fetch (ls_pages s) index;
     fht \<leftarrow> store fht block_num (lp_footprint page);
     Some (s, fht)
   }"

definition llc_ProcessRequest :: "bool \<Rightarrow> (u32 \<Rightarrow> u32) \<Rightarrow> mem_op_t \<Rightarrow> u64 \<Rightarrow> llc_cntlr \<Rightarrow> llc_cntlr option" where
  "llc_ProcessRequest reload floorLog2 ty address c = do {
     (set_n, page_tag, page_offset) \<leftarrow> llc_SplitAddress floorLog2 address c;
     guard (lc_blocksize c \<noteq> 0);
     let block_num = (ucast (page_offset div ucast (lc_blocksize c)) :: u8);
     footprint \<leftarrow> fetch (lc_FHT c) (ucast block_num);
     s \<leftarrow> fetch (lc_set c) set_n;
     (hit, s) \<leftarrow> llc_accessAttempt reload ty page_tag page_offset s;
     (s, fht) \<leftarrow> (if hit = 0 then llc_replace (ucast block_num) page_tag footprint s (lc_FHT c) else Some (s, lc_FHT c));
     let s = (if ty = WRITE_OP then s\<lparr>ls_writes := ls_writes s + 1\<rparr> else s\<lparr>ls_reads := ls_reads s + 1\<rparr>);
     ss \<leftarrow> store (lc_set c) set_n s;
     Some (c\<lparr>lc_set := ss, lc_FHT := fht\<rparr>)
   }"

subsection \<open>The abstract cache\<close>

text \<open>Pages and the blocks in them.\<close>

definition addr_page :: "u64 \<Rightarrow> nat" where
  "addr_page a = unat a div 1984"

definition addr_block :: "u64 \<Rightarrow> nat" where
  "addr_block a = unat a mod 1984 div 64"

text \<open>Which page a set holds and which of its blocks have been read or written since it was loaded. A request for
  block 0 of the resident page is undefined, a request for another page replaces the resident one.\<close>

type_synonym page_map = "nat \<Rightarrow> (nat \<times> nat set) option"

definition pm_access :: "nat \<Rightarrow> u64 \<Rightarrow> page_map \<Rightarrow> page_map option" where
  "pm_access k a m = (let p = addr_page a; b = addr_block a; i = p mod 2 ^ k in
     case m i of
       None \<Rightarrow> Some (m(i \<mapsto> (p, {})))
     | Some (q, B) \<Rightarrow> if q \<noteq> p then Some (m(i \<mapsto> (p, {}))) else if b = 0 then None else Some (m(i \<mapsto> (p, insert b B))))"

definition pm_hit :: "nat \<Rightarrow> u64 \<Rightarrow> page_map \<Rightarrow> u8" where
  "pm_hit k a m = (case m (addr_page a mod 2 ^ k) of
       None \<Rightarrow> 0
     | Some (q, B) \<Rightarrow> if q \<noteq> addr_page a then 0 else if addr_block a \<in> B then 2 else 1)"

subsection \<open>Sets behave as direct-mapped entries\<close>

text \<open>The usage counters never move, so the victim is always way 0 and the other ways stay as they were built.\<close>

definition ll_ok :: "u32 \<Rightarrow> u32 \<Rightarrow> llc_set \<Rightarrow> bool" where
  "ll_ok raw n s \<longleftrightarrow> 0 < n \<and> ls_associativity s = n \<and> length (ls_pages s) = unat n \<and>
     (\<forall>i. 0 < i \<and> i < unat n \<longrightarrow> ls_pages s ! i = CachePageInfo raw) \<and> lp_used (ls_pages s ! 0) = 0"

lemma ll_okD:
  assumes "ll_ok raw n s"
  shows "ls_associativity s = n" "length (ls_pages s) = unat n" "0 < unat n" "n \<noteq> 0"
    "\<And>i. i < unat n \<Longrightarrow> lp_used (ls_pages s ! i) = 0"
    "\<And>i. 0 < i \<Longrightarrow> i < unat n \<Longrightarrow> ls_pages s ! i = CachePageInfo raw"
proof -
  show "lp_used (ls_pages s ! i) = 0" if "i < unat n" for i
    using assms that unfolding ll_ok_def by (cases i) (auto simp: CachePageInfo_def)
qed (use assms in \<open>auto simp: ll_ok_def word_less_nat_alt\<close>)

lemma CachePageInfo_fields [simp]:
  "lp_tag (CachePageInfo raw) = - 1" "lp_used (CachePageInfo raw) = 0"
  by (simp_all add: CachePageInfo_def)

lemma new_set_ok: "0 < n \<Longrightarrow> ll_ok raw n (CacheSetPageLRU raw n place)"
  by (auto simp: ll_ok_def CacheSetPageLRU_def word_less_nat_alt split: prod.splits)

text \<open>A change of the first page and of the counters keeps this.\<close>

lemma ll_ok_put:
  assumes "ll_ok raw n s" "ls_associativity s' = ls_associativity s" "ls_pages s' = (ls_pages s)[0 := p]" "lp_used p = 0"
  shows "ll_ok raw n s'"
  using assms by (auto simp: ll_ok_def word_less_nat_alt)

lemma ll_ok_frame:
  assumes "ll_ok raw n s" "ls_associativity s' = ls_associativity s" "ls_pages s' = ls_pages s"
  shows "ll_ok raw n s'"
  using assms by (auto simp: ll_ok_def)

lemma llc_find_way_spec:
  assumes "\<forall>i\<in>set is. unat i < length ps"
  shows "llc_find_way tag is ps = Some (List.find (\<lambda>i. lp_tag (ps ! unat i) = tag) is)"
  using assms by (induction "is") (auto simp: fetch_in)

lemma u32_range_Cons: "n \<noteq> 0 \<Longrightarrow> \<exists>is. u32_range 0 n = 0 # is \<and> (\<forall>i\<in>set is. 0 < unat i \<and> unat i < unat n)"
proof -
  assume n: "n \<noteq> 0"
  then have pos: "0 < unat n" by (simp add: unat_gt_0)
  have "u32_range 0 n = 0 # map word_of_nat [1..<unat n]"
    using pos by (simp add: u32_range_def upt_conv_Cons)
  moreover have "0 < unat (word_of_nat i :: u32) \<and> unat (word_of_nat i :: u32) < unat n" if "1 \<le> i" "i < unat n" for i
    using that unsigned_less[of n, where ?'a = nat] by (simp add: unsigned_of_nat take_bit_eq_mod)
  ultimately show ?thesis by auto
qed

lemma llc_find:
  assumes ok: "ll_ok raw n s" and "tag \<noteq> - 1"
  shows "llc_find_way tag (u32_range 0 n) (ls_pages s) = Some (if lp_tag (ls_pages s ! 0) = tag then Some 0 else None)"
proof -
  obtain "is" where "is": "u32_range 0 n = 0 # is" "\<forall>i\<in>set is. 0 < unat i \<and> unat i < unat n"
    using u32_range_Cons ll_okD(4)[OF ok] by blast
  have "List.find (\<lambda>i. lp_tag (ls_pages s ! unat i) = tag) is = None"
    using "is"(2) ll_okD(6)[OF ok] assms(2) by (auto simp: find_None_iff)
  then show ?thesis
    using llc_find_way_spec[of "u32_range 0 n" "ls_pages s" tag] "is" ll_okD(2,3)[OF ok] by auto
qed

lemma llc_replacement_first:
  assumes "ll_ok raw n s"
  shows "llc_getReplacementIndex s = Some (0, s\<lparr>ls_reads := ls_reads s + 1\<rparr>)"
proof -
  let ?s = "s\<lparr>ls_reads := ls_reads s + 1\<rparr>"
  have "runs (foldM (\<lambda>i (max_t, index). do {
          p \<leftarrow> fetch (ls_pages ?s) i;
          if lp_used p > max_t then Some (lp_used p, i) else Some (max_t, index)
        }) (u32_range 0 n) (0, 0)) (\<lambda>x. x = (0, 0))"
    by (rule foldM_runs) (use ll_okD[OF assms] in \<open>auto simp: runs_bind runs_fetch set_u32_range\<close>)
  then show ?thesis
    using ll_okD(1)[OF assms] by (auto simp: llc_getReplacementIndex_def runs_iff)
qed

definition loaded :: "u64 \<Rightarrow> u32 \<Rightarrow> llc_page \<Rightarrow> llc_page" where
  "loaded tag footprint p = p\<lparr>lp_tag := tag, lp_vbits_0 := footprint, lp_dbits_0 := 0, lp_footprint := 0\<rparr>"

lemma loaded_fields [simp]:
  "lp_tag (loaded t f p) = t" "lp_vbits_0 (loaded t f p) = f" "lp_footprint (loaded t f p) = 0" "lp_used (loaded t f p) = lp_used p"
  by (simp_all add: loaded_def)

lemma llc_update_first:
  assumes ok: "ll_ok raw n s" and tag: "tag \<noteq> - 1"
  shows "llc_updateReplacementIndexTag 0 tag footprint s =
    Some (s\<lparr>ls_pages := (ls_pages s)[0 := loaded tag footprint (ls_pages s ! 0)], ls_writes := ls_writes s + 1\<rparr>)"
proof -
  note ok' = ll_okD[OF ok]
  let ?s = "s\<lparr>ls_pages := (ls_pages s)[0 := loaded tag footprint (ls_pages s ! 0)], ls_writes := ls_writes s + 1\<rparr>"
  have s: "ll_ok raw n ?s" by (rule ll_ok_put[OF ok, where p = "loaded tag footprint (ls_pages s ! 0)"]) (use ok'(3) ok'(5)[of 0] in simp_all)
  have first: "ls_pages ?s ! 0 = loaded tag footprint (ls_pages s ! 0)" using ok'(2,3) by simp
  have "llc_updateUsedInfo tag ?s = Some ?s"
    unfolding llc_updateUsedInfo_def ll_okD(1)[OF s] llc_find[OF s tag]
    using first ll_okD(2,3)[OF s] ok'(5)[of 0] ok'(3) by (simp add: fetch_in)
  then show ?thesis
    using ok' by (simp add: llc_updateReplacementIndexTag_def fetch_in store_in loaded_def)
qed

lemma llc_replace_eq:
  assumes ok: "ll_ok raw n s" and tag: "tag \<noteq> - 1" and b: "unat b < 31"
  shows "llc_replace b tag 0 s (replicate 31 0) =
    Some (s\<lparr>ls_reads := ls_reads s + 2, ls_writes := ls_writes s + 1, ls_pages := (ls_pages s)[0 := loaded tag 0 (ls_pages s ! 0)]\<rparr>,
      replicate 31 0)"
proof -
  have s: "ll_ok raw n (s\<lparr>ls_reads := ls_reads s + 1\<rparr>)" "ll_ok raw n (s\<lparr>ls_reads := ls_reads s + 2\<rparr>)"
    by (rule ll_ok_frame[OF ok], simp_all)+
  have "(replicate 31 (0::u32))[unat b := 0] = replicate 31 0"
    using b by (metis list_update_id nth_replicate)
  then show ?thesis
    using llc_replacement_first[OF s(1)] llc_update_first[OF s(2) tag, of 0] ll_okD[OF ok] b
    by (simp add: llc_replace_def fetch_in store_in add.assoc)
qed


definition touched :: "mem_op_t \<Rightarrow> nat \<Rightarrow> llc_page \<Rightarrow> llc_page" where
  "touched ty b p = p\<lparr>lp_vbits_0 := or_bit (lp_vbits_0 p) (word_of_nat (b - 1)),
     lp_dbits_0 := (if ty = WRITE_OP then or_bit (lp_dbits_0 p) (word_of_nat (b - 1)) else lp_dbits_0 p),
     lp_footprint := or_bit (lp_footprint p) (word_of_nat (b - 1))\<rparr>"

lemma touched_fields [simp]:
  "lp_tag (touched ty b p) = lp_tag p" "lp_used (touched ty b p) = lp_used p"
  by (simp_all add: touched_def)

lemma small_u32: "b < 32 \<Longrightarrow> unat (word_of_nat b :: u32) = b"
  by (simp add: unsigned_of_nat take_bit_eq_mod)

lemma bit_touched: "b < 32 \<Longrightarrow> bit (lp_vbits_0 (touched ty b p)) i \<longleftrightarrow> bit (lp_vbits_0 p) i \<or> i = b - 1"
  by (auto simp: touched_def bit_or_bit small_u32)

lemma llc_block_undefined: "llc_accessBlock ty 0 p = None"
proof -
  have "unat (- 1 :: u32) = 4294967295" by (simp add: unsigned_minus_1_eq_mask mask_eq_exp_minus_1)
  then show ?thesis by (simp add: llc_accessBlock_def guard_def)
qed

lemma llc_block_runs:
  assumes "0 < b" "b < 32"
  shows "llc_accessBlock ty (word_of_nat b) p = Some (bit (lp_vbits_0 p) (b - 1), touched ty b p)"
proof -
  have "(word_of_nat b :: u32) - 1 = word_of_nat (b - 1)" using assms(1) by (simp add: of_nat_diff)
  then show ?thesis
    using small_u32[of "b - 1"] assms(2)
    by (simp add: llc_accessBlock_def guard_def touched_def and_one_eq bit_iff_odd_drop_bit
        odd_iff_mod_2_eq_one[symmetric] even_iff_mod_2_eq_zero[symmetric])
qed

lemma llc_access:
  assumes ok: "ll_ok raw n s" and tag: "tag \<noteq> - 1" and off: "unat off div 64 = b" "b < 32"
  shows "llc_accessAttempt reload ty tag off s =
    (if lp_tag (ls_pages s ! 0) \<noteq> tag then Some (0, s\<lparr>ls_reads := ls_reads s + 1\<rparr>)
     else if b = 0 then None
     else Some (if bit (lp_vbits_0 (ls_pages s ! 0)) (b - 1) then 2 else 1,
        s\<lparr>ls_reads := ls_reads s + 1, ls_pages := (ls_pages s)[0 := touched ty b (ls_pages s ! 0)],
          ls_writes := ls_writes s + (if reload \<and> \<not> bit (lp_vbits_0 (ls_pages s ! 0)) (b - 1) then 1 else 0)\<rparr>))"
proof -
  note ok' = ll_okD[OF ok]
  have s: "ll_ok raw n (s\<lparr>ls_reads := ls_reads s + 1\<rparr>)" by (rule ll_ok_frame[OF ok]) simp_all
  have blk: "(ucast (off div 64) :: u32) = word_of_nat b"
    by (rule word_unat_eq_iff[THEN iffD2]) (use off in \<open>simp add: unsigned_ucast_eq unat_div take_bit_eq_mod unsigned_of_nat\<close>)
  have "llc_find_way tag (u32_range 0 n) (ls_pages s) = Some (if lp_tag (ls_pages s ! 0) = tag then Some 0 else None)"
    by (rule llc_find[OF ok tag])
  then show ?thesis
    using ok'(1-3) off(2) llc_block_runs[of b ty "ls_pages s ! 0"] llc_block_undefined[of ty "ls_pages s ! 0"]
    by (cases "b = 0") (simp_all add: llc_accessAttempt_def blk fetch_in store_in)
qed


lemma addr_bounds: "addr_page a < 2 ^ 54" "addr_block a < 31"
proof -
  have "unat a < 2 ^ 64" using unsigned_less[of a, where ?'a = nat] by simp
  then show "addr_page a < 2 ^ 54" by (simp add: addr_page_def less_mult_imp_div_less)
  show "addr_block a < 31" by (simp add: addr_block_def less_mult_imp_div_less)
qed

definition page_tag :: "nat \<Rightarrow> nat \<Rightarrow> u64" where
  "page_tag k p = word_of_nat (p div 2 ^ k)"

lemma unat_page_tag: "p < 2 ^ 54 \<Longrightarrow> unat (page_tag k p) = p div 2 ^ k"
proof -
  assume "p < 2 ^ 54"
  moreover have "(2 :: nat) ^ 54 < 2 ^ 64" by simp
  ultimately have "p div 2 ^ k < 2 ^ 64" using div_le_dividend[of p "2 ^ k"] by linarith
  then show ?thesis by (simp add: page_tag_def unsigned_of_nat take_bit_eq_mod)
qed

lemma page_tag_valid: "p < 2 ^ 54 \<Longrightarrow> page_tag k p \<noteq> - 1"
proof
  assume p: "p < 2 ^ 54" and "page_tag k p = - 1"
  then have "unat (- 1 :: u64) = p div 2 ^ k" using unat_page_tag[OF p, of k] by simp
  then show False using p div_le_dividend[of p "2 ^ k"] by (simp add: unsigned_minus_1_eq_mask mask_eq_exp_minus_1)
qed

lemma page_tag_inj: "p < 2 ^ 54 \<Longrightarrow> q < 2 ^ 54 \<Longrightarrow> p mod 2 ^ k = q mod 2 ^ k \<Longrightarrow> page_tag k p = page_tag k q \<longleftrightarrow> p = q"
  by (metis unat_page_tag div_mod_decomp)

lemma len64: "LENGTH(64) = 64"
  by simp

lemma llc_split:
  assumes fl: "floorLog2_ok fl" and k: "k < 32" and c: "lc_set_num c = 2 ^ k" "lc_pagesize c = 1984"
  shows "llc_SplitAddress fl a c = Some (word_of_nat (addr_page a mod 2 ^ k), page_tag k (addr_page a), a mod 1984)"
proof -
  let ?b = "a div 1984"
  have b: "unat ?b = addr_page a" by (simp add: unat_div addr_page_def)
  have bits: "unat (fl (2 ^ k)) = k" using fl k by (simp add: floorLog2_ok_def small_u32)
  have k32: "(2 :: nat) ^ k < 2 ^ 32" using k by (simp only: power_strict_increasing_iff)
  have m: "addr_page a mod 2 ^ k < 2 ^ 32" using k32 mod_less_divisor[of "2 ^ k" "addr_page a"] by (meson less_trans zero_less_power zero_less_numeral)
  have p64: "unat (2 ^ k :: u64) = 2 ^ k"
  proof -
    have "(2 :: nat) ^ k < 2 ^ 64" using k by (simp only: power_strict_increasing_iff)
    then have "unat (word_of_nat (2 ^ k) :: u64) = 2 ^ k" by (simp only: unat_of_nat len64 mod_less)
    then show ?thesis by simp
  qed
  have tb: "unat (take_bit k ?b) = addr_page a mod 2 ^ k"
    unfolding unsigned_take_bit_eq b by (rule take_bit_eq_mod)
  have "?b AND (push_bit k 1 - 1) = take_bit k ?b" by (simp add: take_bit_eq_mask mask_eq_exp_minus_1)
  moreover have "(ucast (take_bit k ?b) :: u32) = word_of_nat (addr_page a mod 2 ^ k)"
    by (rule word_unat_eq_iff[THEN iffD2]) (use m tb in \<open>simp add: unsigned_ucast_eq take_bit_nat_eq_self unsigned_of_nat\<close>)
  moreover have "unat (drop_bit k ?b) = addr_page a div 2 ^ k"
    by (simp add: drop_bit_eq_div unat_div p64 addr_page_def)
  then have "drop_bit k ?b = page_tag k (addr_page a)"
    by (intro word_unat_eq_iff[THEN iffD2]) (simp only: unat_page_tag[OF addr_bounds(1)])
  ultimately show ?thesis
    using bits k by (simp add: llc_SplitAddress_def c guard_def Let_def)
qed


subsection \<open>Requests\<close>

definition page_rel :: "nat \<Rightarrow> nat \<Rightarrow> (nat \<times> nat set) option \<Rightarrow> llc_page \<Rightarrow> bool" where
  "page_rel k i e pg \<longleftrightarrow> (case e of
       None \<Rightarrow> lp_tag pg = - 1
     | Some (p, B) \<Rightarrow> lp_tag pg = page_tag k p \<and> p < 2 ^ 54 \<and> p mod 2 ^ k = i \<and>
         (\<forall>b. 0 < b \<and> b < 31 \<longrightarrow> (b \<in> B \<longleftrightarrow> bit (lp_vbits_0 pg) (b - 1))))"

lemma entry_resident:
  assumes "page_rel k (addr_page a mod 2 ^ k) e pg"
  shows "lp_tag pg = page_tag k (addr_page a) \<longleftrightarrow> (\<exists>B. e = Some (addr_page a, B))"
proof (cases e)
  case None
  then show ?thesis using assms page_tag_valid[OF addr_bounds(1), of k a] by (auto simp: page_rel_def)
next
  case (Some x)
  then show ?thesis using assms page_tag_inj[of "fst x" "addr_page a" k] addr_bounds(1)[of a] by (cases x) (auto simp: page_rel_def)
qed

lemma entry_touched:
  assumes "page_rel k i (Some (p, B)) pg" "0 < b" "b < 31"
  shows "page_rel k i (Some (p, insert b B)) (touched ty b pg)"
proof -
  have "0 < b' \<and> b' < 31 \<Longrightarrow> b' - 1 = b - 1 \<longleftrightarrow> b' = b" for b' using assms(2) by auto
  then show ?thesis using assms by (auto simp: page_rel_def bit_touched)
qed

lemma entry_loaded: "p < 2 ^ 54 \<Longrightarrow> page_rel k (p mod 2 ^ k) (Some (p, {})) (loaded (page_tag k p) 0 pg)"
  by (simp add: page_rel_def)

definition llc_rel :: "u32 \<Rightarrow> u32 \<Rightarrow> nat \<Rightarrow> page_map \<Rightarrow> llc_cntlr \<Rightarrow> bool" where
  "llc_rel raw n k m c \<longleftrightarrow> lc_set_num c = 2 ^ k \<and> lc_blocksize c = 64 \<and> lc_pagesize c = 1984 \<and>
     lc_FHT c = replicate 31 0 \<and> length (lc_set c) = 2 ^ k \<and>
     (\<forall>i<2 ^ k. ll_ok raw n (lc_set c ! i) \<and> page_rel k i (m i) (ls_pages (lc_set c ! i) ! 0))"

lemma llc_relD:
  assumes "llc_rel raw n k m c"
  shows "lc_set_num c = 2 ^ k" "lc_blocksize c = 64" "lc_pagesize c = 1984" "lc_FHT c = replicate 31 0" "length (lc_set c) = 2 ^ k"
    "\<And>i. i < 2 ^ k \<Longrightarrow> ll_ok raw n (lc_set c ! i)" "\<And>i. i < 2 ^ k \<Longrightarrow> page_rel k i (m i) (ls_pages (lc_set c ! i) ! 0)"
  using assms unfolding llc_rel_def by blast+

lemma llc_rel_put:
  assumes rel: "llc_rel raw n k m c" and i: "i < 2 ^ k"
    and s: "ll_ok raw n s" "page_rel k i e (ls_pages s ! 0)"
  shows "llc_rel raw n k (m(i := e)) (c\<lparr>lc_set := (lc_set c)[i := s], lc_FHT := replicate 31 0\<rparr>)"
  using llc_relD[OF rel] i s by (auto simp: llc_rel_def nth_list_update)


lemma llc_request:
  assumes fl: "floorLog2_ok fl" and k: "k < 32" and rel: "llc_rel raw n k m c"
  shows "case pm_access k a m of None \<Rightarrow> llc_ProcessRequest reload fl ty a c = None
     | Some m' \<Rightarrow> runs (llc_ProcessRequest reload fl ty a c) (llc_rel raw n k m')"
proof -
  let ?p = "addr_page a" and ?b = "addr_block a" and ?i = "addr_page a mod 2 ^ k"
  let ?s = "lc_set c ! ?i"
  note r = llc_relD[OF rel]
  have i: "?i < 2 ^ k" by simp
  have k32: "(2 :: nat) ^ k < 2 ^ 32" using k by (simp only: power_strict_increasing_iff)
  then have wi: "unat (word_of_nat ?i :: u32) = ?i"
    using less_trans[OF i k32] by (simp add: unsigned_of_nat take_bit_nat_eq_self)
  have off: "unat (a mod 1984) div 64 = ?b" by (simp add: unat_mod addr_block_def)
  have blk: "(ucast (a mod 1984 div 64) :: u8) = word_of_nat ?b" "unat (word_of_nat ?b :: u8) = ?b"
      "unat (word_of_nat ?b :: u32) = ?b" "(ucast (word_of_nat ?b :: u8) :: u32) = word_of_nat ?b"
  proof -
    show u: "unat (word_of_nat ?b :: u8) = ?b" "unat (word_of_nat ?b :: u32) = ?b"
      using addr_bounds(2)[of a] by (simp_all add: unsigned_of_nat take_bit_eq_mod)
    show "(ucast (a mod 1984 div 64) :: u8) = word_of_nat ?b"
      by (rule word_unat_eq_iff[THEN iffD2]) (use off addr_bounds(2)[of a] u(1) in \<open>simp add: unsigned_ucast_eq unat_div take_bit_eq_mod\<close>)
    show "(ucast (word_of_nat ?b :: u8) :: u32) = word_of_nat ?b"
      by (rule word_unat_eq_iff[THEN iffD2]) (use u addr_bounds(2)[of a] in \<open>simp add: unsigned_ucast_eq take_bit_eq_mod\<close>)
  qed
  note ok = r(6)[OF i] and ent = r(7)[OF i] and ok' = ll_okD[OF r(6)[OF i]]
  note acc = llc_access[OF ok page_tag_valid[OF addr_bounds(1)[of a]] off less_trans[OF addr_bounds(2)], of reload ty, simplified]
  note res = entry_resident[OF ent]
  have frame: "llc_rel raw n k (m(?i := e)) (c\<lparr>lc_set := (lc_set c)[?i := s], lc_FHT := replicate 31 0\<rparr>)"
    if "ls_associativity s = ls_associativity ?s" "ls_pages s = (ls_pages ?s)[0 := pg]" "lp_used pg = 0" "page_rel k ?i e pg" for s pg e
    by (rule llc_rel_put[OF rel i ll_ok_put[OF ok that(1-3)]]) (use that ok'(2,3) in simp)
  note split = llc_split[OF fl k r(1,3), of a]
  show ?thesis
  proof (cases "\<exists>B. m ?i = Some (?p, B)")
    case False
    then have m': "pm_access k a m = Some (m(?i \<mapsto> (?p, {})))"
      by (auto simp: pm_access_def Let_def split: option.splits)
    note rep = llc_replace_eq[OF ll_ok_frame[OF ok] page_tag_valid[OF addr_bounds(1)[of a]], of _ "word_of_nat ?b"]
    show ?thesis
      using False res acc wi r(2,4,5) i blk addr_bounds(2)[of a] rep frame[OF _ _ _ entry_loaded[OF addr_bounds(1)]] ok'(5)[of 0] ok'(3)
      unfolding m' option.case llc_ProcessRequest_def split
      by (simp add: runs_simps guard_def fetch_in store_in)
  next
    case True
    then obtain B where B: "m ?i = Some (?p, B)" by blast
    show ?thesis
    proof (cases "?b = 0")
      case True
      then have "pm_access k a m = None" using B by (simp add: pm_access_def)
      then show ?thesis
        using True B res acc wi r(2,4,5) i blk addr_bounds(2)[of a]
        unfolding llc_ProcessRequest_def split
        by (simp add: runs_simps guard_def fetch_in store_in)
    next
      case False
      then have m': "pm_access k a m = Some (m(?i \<mapsto> (?p, insert ?b B)))" using B by (simp add: pm_access_def Let_def)
      have "0 < ?b" using False by simp
      note fr = frame[OF _ _ _ entry_touched[OF ent[unfolded B] this addr_bounds(2), of ty]]
      show ?thesis
        using False B res acc wi r(2,4,5) i blk addr_bounds(2)[of a] fr ok'(5)[of 0] ok'(3)
        unfolding m' option.case llc_ProcessRequest_def split
        by (simp add: runs_simps guard_def fetch_in store_in)
    qed
  qed
qed


lemma llc_run:
  assumes "floorLog2_ok fl" "k < 32" "llc_rel raw n k m c"
  shows "case foldM (\<lambda>(ty, a). pm_access k a) rs m of None \<Rightarrow> foldM (\<lambda>(ty, a). llc_ProcessRequest reload fl ty a) rs c = None
     | Some m' \<Rightarrow> runs (foldM (\<lambda>(ty, a). llc_ProcessRequest reload fl ty a) rs c) (llc_rel raw n k m')"
  using assms(3)
proof (induction rs arbitrary: m c)
  case (Cons r rs)
  obtain ty a where r: "r = (ty, a)" by (cases r)
  note step = llc_request[OF assms(1,2) Cons.prems, where a = a and reload = reload and ty = ty]
  show ?case
  proof (cases "pm_access k a m")
    case None
    then show ?thesis using step by (simp add: r)
  next
    case (Some m')
    then obtain c' where "llc_ProcessRequest reload fl ty a c = Some c'" "llc_rel raw n k m' c'"
      using step by (auto simp: runs_iff)
    then show ?thesis using Cons.IH[of m' c'] Some by (simp add: r split: option.splits)
  qed
qed simp

lemma new_llc:
  assumes "k < 32" "0 < n"
  shows "llc_rel raw n k Map.empty (StackedDramCacheCntlr raw (2 ^ k) n 64 1984)"
proof -
  have "length (u32_range 0 (2 ^ k)) = 2 ^ k" using assms(1) by (simp add: unat_pow2)
  then show ?thesis
    using new_set_ok[OF assms(2)] ll_okD(3)[OF new_set_ok[OF assms(2)]]
    by (auto simp: llc_rel_def StackedDramCacheCntlr_def Let_def page_rel_def CacheSetPageLRU_def split: prod.splits)
qed

lemma llc_hit:
  assumes rel: "llc_rel raw n k m c" and b: "0 < addr_block a"
  shows "\<exists>s'. llc_accessAttempt reload ty (page_tag k (addr_page a)) (a mod 1984) (lc_set c ! (addr_page a mod 2 ^ k)) =
     Some (pm_hit k a m, s')"
proof -
  have i: "addr_page a mod 2 ^ k < 2 ^ k" by simp
  note ok = llc_relD(6)[OF rel i] and ent = llc_relD(7)[OF rel i]
  have off: "unat (a mod 1984) div 64 = addr_block a" by (simp add: unat_mod addr_block_def)
  note acc = llc_access[OF ok page_tag_valid[OF addr_bounds(1)[of a]] off less_trans[OF addr_bounds(2)], of reload ty, simplified]
  have bits: "m (addr_page a mod 2 ^ k) = Some (p, B) \<Longrightarrow>
      addr_block a \<in> B \<longleftrightarrow> bit (lp_vbits_0 (ls_pages (lc_set c ! (addr_page a mod 2 ^ k)) ! 0)) (addr_block a - 1)" for p B
    using ent b addr_bounds(2)[of a] by (auto simp: page_rel_def)
  show ?thesis
    using acc entry_resident[OF ent] b bits
    by (cases "m (addr_page a mod 2 ^ k)") (auto simp: pm_hit_def)
qed

text \<open>C18: The page cache of the last-level cache refines an abstract direct-mapped cache. From its constructor on
  (a power of two of sets, any number of ways), over every sequence of requests, it fails exactly when the
  abstract cache does, that is when block 0 of a resident page is requested, and otherwise its lookups
  give exactly the hits (2), block misses (1) and page misses (0) of the abstract cache. On the way the table of
  footprints stays zero, so that no block is ever prefetched, and every way but the first stays as it was
  built: the associativity of the cache is one. This holds for both sides of the merge conflict.\<close>

theorem llc_refines_direct_mapped:
  assumes "floorLog2_ok fl" "k < 32" "0 < n"
  shows "case foldM (\<lambda>(ty, a). pm_access k a) rs Map.empty of
     None \<Rightarrow> foldM (\<lambda>(ty, a). llc_ProcessRequest reload fl ty a) rs (StackedDramCacheCntlr raw (2 ^ k) n 64 1984) = None
   | Some m \<Rightarrow> \<exists>c. foldM (\<lambda>(ty, a). llc_ProcessRequest reload fl ty a) rs (StackedDramCacheCntlr raw (2 ^ k) n 64 1984) = Some c \<and>
       (\<forall>ty a. 0 < addr_block a \<longrightarrow> (\<exists>s'. llc_accessAttempt reload ty (page_tag k (addr_page a)) (a mod 1984)
           (lc_set c ! (addr_page a mod 2 ^ k)) = Some (pm_hit k a m, s'))) \<and>
       lc_FHT c = replicate 31 0 \<and>
       (\<forall>i<2 ^ k. \<forall>w. 0 < w \<and> w < unat n \<longrightarrow> ls_pages (lc_set c ! i) ! w = CachePageInfo raw)"
proof (cases "foldM (\<lambda>(ty, a). pm_access k a) rs Map.empty")
  case None
  then show ?thesis using llc_run[OF assms(1,2) new_llc[OF assms(2,3)], where rs = rs and raw = raw and reload = reload] by simp
next
  case (Some m)
  then obtain c where c: "foldM (\<lambda>(ty, a). llc_ProcessRequest reload fl ty a) rs (StackedDramCacheCntlr raw (2 ^ k) n 64 1984) = Some c"
      "llc_rel raw n k m c"
    using llc_run[OF assms(1,2) new_llc[OF assms(2,3)], where rs = rs and raw = raw and reload = reload] by (auto simp: runs_iff)
  have "i < 2 ^ k \<Longrightarrow> 0 < w \<and> w < unat n \<Longrightarrow> ls_pages (lc_set c ! i) ! w = CachePageInfo raw" for i w
    using ll_okD(6)[OF llc_relD(6)[OF c(2)]] by blast
  then show ?thesis
    using Some c(1) llc_hit[OF c(2)] llc_relD(4)[OF c(2)] by auto
qed

text \<open>With the geometry of the shipped configuration (2 to the 19 sets of 4 ways): pages 0 and 524288 share a set.\<close>

theorem llc_refines_direct_mapped_witness:
  "(\<exists>c. foldM (\<lambda>(ty, a). llc_ProcessRequest True demo_log2 ty a) [(READ_OP, 64), (READ_OP, 64), (WRITE_OP, 1040187392)]
      (StackedDramCacheCntlr 0 524288 4 64 1984) = Some c \<and> ls_pages (lc_set c ! 0) ! 3 = CachePageInfo 0 \<and>
      (\<exists>s'. llc_accessAttempt True READ_OP 1 64 (lc_set c ! 0) = Some (1, s')))"
proof -
  have a: "addr_page 64 = 0" "addr_block 64 = 1" "addr_page 1040187392 = 524288" "addr_block 1040187392 = 0"
     "addr_page 1040187456 = 524288" "addr_block 1040187456 = 1"
    by (simp_all add: addr_page_def addr_block_def)
  have "foldM (\<lambda>(ty, a). pm_access 19 a) [(READ_OP, 64), (READ_OP, 64), (WRITE_OP, 1040187392)] Map.empty =
      Some [0 \<mapsto> (524288, {})]"
    by (simp add: pm_access_def Let_def a)
  then obtain c where c: "foldM (\<lambda>(ty, a). llc_ProcessRequest True demo_log2 ty a) [(READ_OP, 64), (READ_OP, 64), (WRITE_OP, 1040187392)]
      (StackedDramCacheCntlr 0 (2 ^ 19) 4 64 1984) = Some c"
     "\<And>ty a. 0 < addr_block a \<Longrightarrow> \<exists>s'. llc_accessAttempt True ty (page_tag 19 (addr_page a)) (a mod 1984)
           (lc_set c ! (addr_page a mod 2 ^ 19)) = Some (pm_hit 19 a [0 \<mapsto> (524288, {})], s')"
     "\<And>i w. i < 2 ^ 19 \<Longrightarrow> 0 < w \<and> w < unat (4 :: u32) \<Longrightarrow> ls_pages (lc_set c ! i) ! w = CachePageInfo 0"
    using llc_refines_direct_mapped[OF demo_log2_ok, where k = 19 and n = 4 and reload = True and raw = 0 and rs = "[(READ_OP, 64), (READ_OP, 64), (WRITE_OP, 1040187392)]"]
    by auto
  have "\<exists>s'. llc_accessAttempt True READ_OP 1 64 (lc_set c ! 0) = Some (1, s')"
    using c(2)[of 1040187456 READ_OP] by (simp add: a pm_hit_def page_tag_def)
  moreover have "ls_pages (lc_set c ! 0) ! 3 = CachePageInfo 0" using c(3)[of 0 3] by simp
  ultimately show ?thesis using c(1) by auto
qed

end
