(* ===== verification/Dvfs.thy ===== *)
theory Dvfs
  imports Sniper_Prelude "HOL-Library.Signed_Division"
begin

section \<open>Frequency domains and thermal throttling\<close>

text \<open>
  Model of \<^verbatim>\<open>system/dvfs_manager.{h,cc}\<close> (\<^verbatim>\<open>DvfsManager\<close>) and of the part of \<^verbatim>\<open>misc/stats.{h,cc}\<close> that
  throttles the cores: the frequency table that \<^verbatim>\<open>StatsManager::init\<close> builds, \<^verbatim>\<open>checkDTM\<close>, \<^verbatim>\<open>setGlobalFrequency\<close> and
  \<^verbatim>\<open>setFrequency\<close>. \<^verbatim>\<open>ComponentPeriod::fromFreqHz\<close> and \<^verbatim>\<open>getPeriod\<close> are arguments, the configuration values are
  arguments of the operations that read them, \<^verbatim>\<open>float\<close> and \<^verbatim>\<open>double\<close> values are reals. A transition delay that
  is queued in the performance model of a core is an entry of \<open>dv_delays\<close>.
\<close>

subsection \<open>The domains\<close>

datatype dvfs_global_domain = DOMAIN_GLOBAL_DEFAULT | DOMAIN_GLOBAL_MAX

primrec global_domain_num :: "dvfs_global_domain \<Rightarrow> u32" where
  "global_domain_num DOMAIN_GLOBAL_DEFAULT = 0"
| "global_domain_num DOMAIN_GLOBAL_MAX = 1"

record ('t, 'p) dvfs_manager =
  dv_cores_per_socket :: u32
  dv_transition_latency :: 't
  dv_num_proc_domains :: u32
  dv_num_app_cores :: u32
  dv_app_proc_domains :: "'p list"
  dv_global_domains :: "'p list"
  dv_delays :: "(u32 \<times> 't) list"

definition getCoreDomainId :: "u32 \<Rightarrow> ('t, 'p) dvfs_manager \<Rightarrow> u32 option" where
  "getCoreDomainId core_id d = do {
     guard (core_id < dv_num_app_cores d);
     guard (dv_cores_per_socket d \<noteq> 0);
     Some (core_id div dv_cores_per_socket d)
   }"

text \<open>One round of the loop of the constructor over the cores with a frequency of their own.\<close>

definition override_frequency :: "(real \<Rightarrow> 'p) \<Rightarrow> real \<Rightarrow> (u32 \<Rightarrow> real) \<Rightarrow> u32 \<Rightarrow> ('t, 'p) dvfs_manager \<Rightarrow>
    ('t, 'p) dvfs_manager option" where
  "override_frequency fromFreqHz core_frequency freq_of i d =
     (if freq_of i \<noteq> core_frequency then do {
        id \<leftarrow> getCoreDomainId i d;
        ps \<leftarrow> store (dv_app_proc_domains d) id (fromFreqHz (freq_of i * 1000000000));
        Some (d\<lparr>dv_app_proc_domains := ps\<rparr>)
      }
      else Some d)"

definition DvfsManager :: "(real \<Rightarrow> 'p) \<Rightarrow> string \<Rightarrow> u32 \<Rightarrow> u32 \<Rightarrow> 't \<Rightarrow> real \<Rightarrow> (u32 \<Rightarrow> real) \<Rightarrow>
    ('t, 'p) dvfs_manager option" where
  "DvfsManager fromFreqHz dvfs_type app_cores cores_per_socket latency core_frequency freq_of = do {
     guard (dvfs_type = ''simple'');
     guard (cores_per_socket \<noteq> 0);
     let n = app_cores div cores_per_socket;
     let n = (if app_cores mod cores_per_socket \<noteq> 0 then n + 1 else n);
     let core_period = fromFreqHz (core_frequency * 1000000000);
     foldM (override_frequency fromFreqHz core_frequency freq_of) (u32_range 0 app_cores)
       \<lparr>dv_cores_per_socket = cores_per_socket, dv_transition_latency = latency, dv_num_proc_domains = n,
        dv_num_app_cores = app_cores, dv_app_proc_domains = replicate (unat n) core_period,
        dv_global_domains = replicate (unat (global_domain_num DOMAIN_GLOBAL_MAX)) core_period, dv_delays = []\<rparr>
   }"

definition getGlobalDomain :: "dvfs_global_domain \<Rightarrow> ('t, 'p) dvfs_manager \<Rightarrow> 'p option" where
  "getGlobalDomain domain_id d = fetch (dv_global_domains d) (global_domain_num domain_id)"

definition getCoreDomain :: "u32 \<Rightarrow> ('t, 'p) dvfs_manager \<Rightarrow> 'p option" where
  "getCoreDomain core_id d =
     (if core_id < dv_num_app_cores d then do {
        id \<leftarrow> getCoreDomainId core_id d;
        fetch (dv_app_proc_domains d) id
      }
      else fetch (dv_global_domains d) (global_domain_num DOMAIN_GLOBAL_DEFAULT))"

text \<open>The fatal message for a core outside the application cores is the value \<open>None\<close>.\<close>

definition setCoreDomain :: "('p \<Rightarrow> 't) \<Rightarrow> u32 \<Rightarrow> 'p \<Rightarrow> ('t, 'p) dvfs_manager \<Rightarrow> ('t, 'p) dvfs_manager option" where
  "setCoreDomain getPeriod core_id new_freq d =
     (if core_id < dv_num_app_cores d then do {
        id \<leftarrow> getCoreDomainId core_id d;
        old \<leftarrow> fetch (dv_app_proc_domains d) id;
        let d = (if getPeriod new_freq \<noteq> getPeriod old
                 then d\<lparr>dv_delays := dv_delays d @ [(core_id, dv_transition_latency d)]\<rparr> else d);
        ps \<leftarrow> store (dv_app_proc_domains d) id new_freq;
        Some (d\<lparr>dv_app_proc_domains := ps\<rparr>)
      }
      else None)"

subsection \<open>The frequency table and thermal management\<close>

record governor =
  gv_freq_table :: "u64 list"
  gv_freq_lev :: int
  gv_max_lev :: int

text \<open>Conversion of a floating-point number to an integer cuts the fraction off.\<close>

definition trunc :: "real \<Rightarrow> int" where
  "trunc x = (if 0 \<le> x then \<lfloor>x\<rfloor> else \<lceil>x\<rceil>)"

definition init_freq_table :: "real \<Rightarrow> int \<Rightarrow> governor option" where
  "init_freq_table core_frequency num_freq = do {
     let max_freq = trunc (core_frequency * 1000);
     let min_freq = trunc (real_of_int max_freq * 0.2);
     guard (num_freq \<noteq> 1);
     let freq_step = (max_freq - min_freq) sdiv (num_freq - 1);
     let table = map (\<lambda>i. word_of_int (min_freq + freq_step * i)) [0..num_freq - 2] @ [word_of_int max_freq];
     Some \<lparr>gv_freq_table = table, gv_freq_lev = int (length table) - 1, gv_max_lev = int (length table) - 1\<rparr>
   }"

definition setFrequency :: "(real \<Rightarrow> 'p) \<Rightarrow> ('p \<Rightarrow> 't) \<Rightarrow> u64 \<Rightarrow> u32 \<Rightarrow> ('t, 'p) dvfs_manager \<Rightarrow> ('t, 'p) dvfs_manager option" where
  "setFrequency fromFreqHz getPeriod freq_in_mhz core_num d = do {
     id \<leftarrow> getCoreDomainId core_num d;
     let freq_in_hz = freq_in_mhz * 1000000;
     if freq_in_hz > 0 then setCoreDomain getPeriod core_num (fromFreqHz (real (unat freq_in_hz))) d
     else Some d
   }"

definition setGlobalFrequency :: "(real \<Rightarrow> 'p) \<Rightarrow> ('p \<Rightarrow> 't) \<Rightarrow> u32 \<Rightarrow> u64 \<Rightarrow> ('t, 'p) dvfs_manager \<Rightarrow> ('t, 'p) dvfs_manager option" where
  "setGlobalFrequency fromFreqHz getPeriod num_cores freq_in_mhz d =
     foldM (setFrequency fromFreqHz getPeriod freq_in_mhz) (u32_range 0 num_cores) d"

definition throttle :: "(real \<Rightarrow> 'p) \<Rightarrow> ('p \<Rightarrow> 't) \<Rightarrow> u32 \<Rightarrow> governor \<times> ('t, 'p) dvfs_manager \<Rightarrow>
    (governor \<times> ('t, 'p) dvfs_manager) option" where
  "throttle fromFreqHz getPeriod num_cores s = (let (g, d) = s in
     if gv_freq_lev g > 0 then do {
       let g = g\<lparr>gv_freq_lev := gv_freq_lev g - 1\<rparr>;
       f \<leftarrow> ifetch (gv_freq_table g) (gv_freq_lev g);
       d \<leftarrow> setGlobalFrequency fromFreqHz getPeriod num_cores f d;
       Some (g, d)
     }
     else Some (g, d))"

definition speed_up :: "(real \<Rightarrow> 'p) \<Rightarrow> ('p \<Rightarrow> 't) \<Rightarrow> u32 \<Rightarrow> governor \<times> ('t, 'p) dvfs_manager \<Rightarrow>
    (governor \<times> ('t, 'p) dvfs_manager) option" where
  "speed_up fromFreqHz getPeriod num_cores s = (let (g, d) = s in
     if gv_freq_lev g < gv_max_lev g then do {
       let g = g\<lparr>gv_freq_lev := gv_freq_lev g + 1\<rparr>;
       f \<leftarrow> ifetch (gv_freq_table g) (gv_freq_lev g);
       d \<leftarrow> setGlobalFrequency fromFreqHz getPeriod num_cores f d;
       Some (g, d)
     }
     else Some (g, d))"

record dtm_config =
  dt_cpu_temp_thres :: int
  dt_dram_temp_thres :: int
  dt_method :: int

definition checkDTM :: "(real \<Rightarrow> 'p) \<Rightarrow> ('p \<Rightarrow> 't) \<Rightarrow> u32 \<Rightarrow> dtm_config \<Rightarrow> real list \<Rightarrow> real \<Rightarrow> governor \<times> ('t, 'p) dvfs_manager \<Rightarrow>
    (governor \<times> ('t, 'p) dvfs_manager) option" where
  "checkDTM fromFreqHz getPeriod num_cores cfg cpu_temp dram_temp s = (
     let max_temp = foldl (\<lambda>m t. if t > m then t else m) 0 cpu_temp in
     if dt_method cfg = 0 then Some s
     else if dt_method cfg = 1 then
       (if max_temp > real_of_int (dt_cpu_temp_thres cfg) then throttle fromFreqHz getPeriod num_cores s
        else speed_up fromFreqHz getPeriod num_cores s)
     else if dt_method cfg = 2 then
       (if max_temp > real_of_int (dt_cpu_temp_thres cfg) \<or> dram_temp > real_of_int (dt_dram_temp_thres cfg)
        then throttle fromFreqHz getPeriod num_cores s
        else speed_up fromFreqHz getPeriod num_cores s)
     else Some s)"

subsection \<open>Every core has a domain\<close>

definition dv_ok :: "('t, 'p) dvfs_manager \<Rightarrow> bool" where
  "dv_ok d \<longleftrightarrow> dv_cores_per_socket d \<noteq> 0 \<and> dv_global_domains d \<noteq> [] \<and>
     (\<forall>i. i < length (dv_app_proc_domains d) \<longleftrightarrow> i * unat (dv_cores_per_socket d) < unat (dv_num_app_cores d))"

definition dom_of :: "('t, 'p) dvfs_manager \<Rightarrow> nat \<Rightarrow> nat" where
  "dom_of d c = c div unat (dv_cores_per_socket d)"

lemma dv_ok_pos: "dv_ok d \<Longrightarrow> 0 < unat (dv_cores_per_socket d)"
  by (auto simp: dv_ok_def unat_gt_0)

lemma dom_of_less:
  assumes "dv_ok d" "c < unat (dv_num_app_cores d)"
  shows "dom_of d c < length (dv_app_proc_domains d)"
proof -
  have "c div unat (dv_cores_per_socket d) * unat (dv_cores_per_socket d) \<le> c" by simp
  then show ?thesis using assms unfolding dv_ok_def dom_of_def by (meson le_less_trans)
qed

lemma getCoreDomainId_in:
  assumes "dv_ok d" "c < dv_num_app_cores d"
  shows "getCoreDomainId c d = Some (c div dv_cores_per_socket d)" "unat (c div dv_cores_per_socket d) = dom_of d (unat c)"
proof -
  have "dv_cores_per_socket d \<noteq> 0" using assms(1) by (simp add: dv_ok_def)
  then show "getCoreDomainId c d = Some (c div dv_cores_per_socket d)" using assms(2) by (simp add: getCoreDomainId_def guard_def)
  show "unat (c div dv_cores_per_socket d) = dom_of d (unat c)" by (simp add: dom_of_def unat_div)
qed

lemma getCoreDomain_in:
  assumes "dv_ok d" "c < dv_num_app_cores d"
  shows "getCoreDomain c d = Some (dv_app_proc_domains d ! dom_of d (unat c))"
  using assms dom_of_less[OF assms(1), of "unat c"] getCoreDomainId_in[OF assms]
  by (simp add: getCoreDomain_def fetch_in word_less_nat_alt)

lemma ceiling_domains:
  fixes n k :: nat
  assumes "0 < k"
  shows "i < (if n mod k \<noteq> 0 then n div k + 1 else n div k) \<longleftrightarrow> i * k < n"
proof (cases "n mod k = 0")
  case True
  then obtain q where "n = k * q" by (auto simp: mod_eq_0_iff_dvd elim: dvdE)
  then show ?thesis using assms by auto
next
  case False
  have n: "n div k * k + n mod k = n" by simp
  have "i * k < n \<longleftrightarrow> i < n div k + 1"
  proof
    assume "i < n div k + 1"
    then have "i * k \<le> n div k * k" by (intro mult_right_mono) simp_all
    moreover have "n div k * k < n" using n False by linarith
    ultimately show "i * k < n" by (rule le_less_trans)
  next
    assume "i * k < n"
    then have "i * k div k \<le> n div k" by (intro div_le_mono) simp
    then have "i \<le> n div k" using assms by simp
    then show "i < n div k + 1" by simp
  qed
  then show ?thesis using False by simp
qed

lemma override_runs:
  assumes "dv_ok d" "c < dv_num_app_cores d"
  shows "runs (override_frequency fr f fo c d) (\<lambda>d'. dv_ok d' \<and> dv_num_app_cores d' = dv_num_app_cores d \<and> dv_delays d' = dv_delays d)"
proof -
  have "unat (c div dv_cores_per_socket d) < length (dv_app_proc_domains d)"
    using getCoreDomainId_in(2)[OF assms] dom_of_less[OF assms(1)] assms(2) by (simp add: word_less_nat_alt)
  then show ?thesis
    using assms by (auto simp: override_frequency_def getCoreDomainId_in runs_simps dv_ok_def)
qed

lemma DvfsManager_runs:
  fixes fr :: "real \<Rightarrow> 'p" and lat :: 't
  assumes "cps \<noteq> 0"
  shows "runs (DvfsManager fr ''simple'' n cps lat f fo) (\<lambda>d. dv_ok d \<and> dv_num_app_cores d = n \<and> dv_delays d = [])"
proof -
  let ?k = "unat cps" and ?n = "unat n"
  have k: "0 < ?k" using assms by (simp add: unat_gt_0)
  have div1: "unat (n div cps + 1) = ?n div ?k + 1" if "n mod cps \<noteq> 0"
  proof -
    have "?n mod ?k \<noteq> 0" using that by (simp add: word_unat_eq_iff unat_mod)
    then have "?k \<noteq> 1" by (metis mod_by_1)
    then have "?n div ?k < ?n" using \<open>?n mod ?k \<noteq> 0\<close> k by (intro div_less_dividend) (auto intro: gr0I)
    then have "Suc (?n div ?k) < 2 ^ 32" using unsigned_less[of n, where ?'a = nat] by simp
    then show ?thesis by (simp add: unat_word_ariths unat_div)
  qed
  have d0: "dv_ok \<lparr>dv_cores_per_socket = cps, dv_transition_latency = lat, dv_num_proc_domains = q,
        dv_num_app_cores = n, dv_app_proc_domains = replicate (unat (if n mod cps \<noteq> 0 then n div cps + 1 else n div cps)) p,
        dv_global_domains = replicate (unat (global_domain_num DOMAIN_GLOBAL_MAX)) p, dv_delays = []\<rparr>" for q p
  proof -
    have z: "n mod cps \<noteq> 0 \<longleftrightarrow> ?n mod ?k \<noteq> 0" by (simp add: word_unat_eq_iff unat_mod)
    have "unat (if n mod cps \<noteq> 0 then n div cps + 1 else n div cps) = (if ?n mod ?k \<noteq> 0 then ?n div ?k + 1 else ?n div ?k)"
      using div1 z by (simp add: unat_div)
    then have "i < unat (if n mod cps \<noteq> 0 then n div cps + 1 else n div cps) \<longleftrightarrow> i * ?k < ?n" for i
      by (simp only: ceiling_domains[OF k])
    then show ?thesis using assms unfolding dv_ok_def dvfs_manager.simps length_replicate by simp
  qed
  have loop: "runs (foldM (override_frequency fr f fo) (u32_range 0 n) d) (\<lambda>d. dv_ok d \<and> dv_num_app_cores d = n \<and> dv_delays d = [])"
    if "dv_ok d \<and> dv_num_app_cores d = n \<and> dv_delays d = []" for d :: "('t, 'p) dvfs_manager"
  proof (rule foldM_runs[where I = "\<lambda>d. dv_ok d \<and> dv_num_app_cores d = n \<and> dv_delays d = []", OF that])
    fix c and d :: "('t, 'p) dvfs_manager" assume "c \<in> set (u32_range 0 n)" "dv_ok d \<and> dv_num_app_cores d = n \<and> dv_delays d = []"
    then have d: "dv_ok d" "c < dv_num_app_cores d" "dv_num_app_cores d = n" "dv_delays d = []"
      by (auto simp: set_u32_range word_less_nat_alt)
    show "runs (override_frequency fr f fo c d) (\<lambda>d. dv_ok d \<and> dv_num_app_cores d = n \<and> dv_delays d = [])"
      by (rule runs_mono[OF override_runs[OF d(1,2)]]) (use d in auto)
  qed
  show ?thesis
    unfolding DvfsManager_def Let_def runs_bind runs_guard using assms by (intro conjI loop) (simp_all only: d0 dvfs_manager.simps not_False_eq_True)
qed

subsection \<open>A change of the frequency reaches every domain\<close>

text \<open>The state after the first \<open>k\<close> cores: the domains whose first core is among them have the new period.\<close>

definition partly_set :: "('p \<Rightarrow> 't) \<Rightarrow> 'p \<Rightarrow> ('t, 'p) dvfs_manager \<Rightarrow> nat \<Rightarrow> ('t, 'p) dvfs_manager" where
  "partly_set getPeriod p d k = d\<lparr>
     dv_app_proc_domains := map (\<lambda>i. if i * unat (dv_cores_per_socket d) < k then p else dv_app_proc_domains d ! i) [0..<length (dv_app_proc_domains d)],
     dv_delays := dv_delays d @ map (\<lambda>c. (word_of_nat c, dv_transition_latency d))
       (filter (\<lambda>c. c mod unat (dv_cores_per_socket d) = 0 \<and> getPeriod p \<noteq> getPeriod (dv_app_proc_domains d ! dom_of d c)) [0..<k])\<rparr>"

lemma first_core:
  fixes c k :: nat
  assumes "0 < k"
  shows "c div k * k < c \<longleftrightarrow> c mod k \<noteq> 0" "i * k < Suc c \<longleftrightarrow> i * k < c \<or> i = c div k \<and> c mod k = 0"
proof -
  have c: "c div k * k + c mod k = c" by simp
  then show "c div k * k < c \<longleftrightarrow> c mod k \<noteq> 0" by linarith
  have "i = c div k \<and> c mod k = 0 \<longleftrightarrow> i * k = c"
    using c assms by (metis add.right_neutral mod_mult_self2_is_0 nonzero_mult_div_cancel_right not_gr_zero)
  then show "i * k < Suc c \<longleftrightarrow> i * k < c \<or> i = c div k \<and> c mod k = 0" by auto
qed

lemma first_core_update:
  fixes k c :: nat
  assumes "0 < k"
  shows "(map (\<lambda>i. if i * k < c then p else xs ! i) [0..<n])[c div k := p] = map (\<lambda>i. if i * k < Suc c then p else xs ! i) [0..<n]"
proof (rule nth_equalityI)
  fix i assume i: "i < length ((map (\<lambda>i. if i * k < c then p else xs ! i) [0..<n])[c div k := p])"
  have "c div k * k < Suc c" by (simp add: le_imp_less_Suc)
  then show "(map (\<lambda>i. if i * k < c then p else xs ! i) [0..<n])[c div k := p] ! i = map (\<lambda>i. if i * k < Suc c then p else xs ! i) [0..<n] ! i"
    using i first_core(2)[OF assms, of i c] by (cases "i = c div k") auto
qed simp

lemma setFrequency_runs:
  assumes ok: "dv_ok d" and c: "c < unat (dv_num_app_cores d)" and f: "f * 1000000 \<noteq> 0"
  shows "setFrequency fr getPeriod f (word_of_nat c) (partly_set getPeriod (fr (real (unat (f * 1000000)))) d c) =
     Some (partly_set getPeriod (fr (real (unat (f * 1000000)))) d (Suc c))"
proof -
  let ?p = "fr (real (unat (f * 1000000)))" and ?k = "unat (dv_cores_per_socket d)"
  let ?d = "partly_set getPeriod ?p d c"
  note k = dv_ok_pos[OF ok]
  have u: "unat (word_of_nat c :: u32) = c" using c unsigned_less[of "dv_num_app_cores d", where ?'a = nat] by (simp add: unat_of_nat)
  have ok': "dv_ok ?d" using ok by (simp add: dv_ok_def partly_set_def)
  have cl: "word_of_nat c < dv_num_app_cores ?d" using c u by (simp add: partly_set_def word_less_nat_alt)
  note id = getCoreDomainId_in[OF ok' cl, unfolded u]
  have dom: "dom_of ?d c = dom_of d c" by (simp add: dom_of_def partly_set_def)
  have lt: "dom_of d c < length (dv_app_proc_domains d)" by (rule dom_of_less[OF ok c])
  have len: "length (dv_app_proc_domains ?d) = length (dv_app_proc_domains d)" by (simp add: partly_set_def)
  have old: "dv_app_proc_domains ?d ! dom_of d c = (if c mod ?k \<noteq> 0 then ?p else dv_app_proc_domains d ! dom_of d c)"
    using lt first_core(1)[OF k, of c] by (simp add: partly_set_def dom_of_def)
  have upd: "(dv_app_proc_domains (partly_set getPeriod p d c))[dom_of d c := p] =
      map (\<lambda>i. if i * ?k < Suc c then p else dv_app_proc_domains d ! i) [0..<length (dv_app_proc_domains d)]" for p
    by (simp add: partly_set_def dom_of_def first_core_update[OF k])
  have pos: "0 < f * 1000000" using f by (simp add: word_gt_0)
  have un: "unat (word_of_nat c div dv_cores_per_socket ?d :: u32) < length (dv_app_proc_domains ?d)"
    using lt by (simp only: id(2) dom len)
  have step: "setFrequency fr getPeriod f (word_of_nat c) ?d = Some (?d\<lparr>
      dv_delays := dv_delays ?d @ (if getPeriod ?p \<noteq> getPeriod (dv_app_proc_domains ?d ! dom_of d c) then [(word_of_nat c, dv_transition_latency ?d)] else []),
      dv_app_proc_domains := (dv_app_proc_domains ?d)[dom_of d c := ?p]\<rparr>)"
    using pos cl fetch_in[OF un] store_in[OF un] unfolding setFrequency_def setCoreDomain_def id(1) Let_def id(2) dom
    by (simp del: of_nat_unat)
  have dl: "dv_delays (partly_set getPeriod p d c) @ (if getPeriod p \<noteq> getPeriod (if c mod ?k \<noteq> 0 then p else dv_app_proc_domains d ! dom_of d c)
      then [(word_of_nat c, dv_transition_latency d)] else []) = dv_delays (partly_set getPeriod p d (Suc c))" for p
    by (simp add: partly_set_def)
  have un': "partly_set getPeriod p d c\<lparr>dv_delays := dv_delays (partly_set getPeriod p d (Suc c)),
      dv_app_proc_domains := map (\<lambda>i. if i * ?k < Suc c then p else dv_app_proc_domains d ! i) [0..<length (dv_app_proc_domains d)]\<rparr> =
      partly_set getPeriod p d (Suc c)" for p
    by (simp add: partly_set_def)
  have tl: "dv_transition_latency ?d = dv_transition_latency d" by (simp add: partly_set_def)
  show ?thesis unfolding step old upd tl dl un' ..
qed

lemma setGlobalFrequency_runs:
  assumes ok: "dv_ok d" and f: "f * 1000000 \<noteq> 0"
  shows "setGlobalFrequency fr getPeriod (dv_num_app_cores d) f d = Some (d\<lparr>
     dv_app_proc_domains := replicate (length (dv_app_proc_domains d)) (fr (real (unat (f * 1000000)))),
     dv_delays := dv_delays d @ map (\<lambda>c. (word_of_nat c, dv_transition_latency d))
       (filter (\<lambda>c. c mod unat (dv_cores_per_socket d) = 0 \<and>
          getPeriod (fr (real (unat (f * 1000000)))) \<noteq> getPeriod (dv_app_proc_domains d ! dom_of d c)) [0..<unat (dv_num_app_cores d)])\<rparr>)"
proof -
  let ?p = "fr (real (unat (f * 1000000)))"
  have "runs (foldM (setFrequency fr getPeriod f) (u32_range 0 (dv_num_app_cores d)) d)
      (\<lambda>e. e = partly_set getPeriod ?p d (unat (dv_num_app_cores d)))"
  proof (rule foldM_u32_range_runs[where I = "\<lambda>k e. e = partly_set getPeriod ?p d k"])
    have "map ((!) (dv_app_proc_domains d)) [0..<length (dv_app_proc_domains d)] = dv_app_proc_domains d" by (rule map_nth)
    then show "d = partly_set getPeriod ?p d 0" by (simp add: partly_set_def)
    fix i :: u32 and e assume "unat i < unat (dv_num_app_cores d)" "e = partly_set getPeriod ?p d (unat i)"
    then show "runs (setFrequency fr getPeriod f i e) (\<lambda>e. e = partly_set getPeriod ?p d (Suc (unat i)))"
      using setFrequency_runs[OF ok _ f, of "unat i" fr getPeriod] by simp
  qed
  then have e1: "foldM (setFrequency fr getPeriod f) (u32_range 0 (dv_num_app_cores d)) d = Some (partly_set getPeriod ?p d (unat (dv_num_app_cores d)))"
    by (simp only: runs_iff) blast
  have mp: "map (\<lambda>i. if i * unat (dv_cores_per_socket d) < unat (dv_num_app_cores d) then ?p else dv_app_proc_domains d ! i)
      [0..<length (dv_app_proc_domains d)] = replicate (length (dv_app_proc_domains d)) ?p"
  proof -
    have lt: "i * unat (dv_cores_per_socket d) < unat (dv_num_app_cores d)" if "i \<in> set [0..<length (dv_app_proc_domains d)]" for i
      using ok that unfolding dv_ok_def set_upt by simp
    show ?thesis
      by (rule trans[OF map_cong[OF refl, of _ _ "\<lambda>_. ?p"]], rule if_P, erule lt) (simp only: map_replicate_const length_upt diff_zero)
  qed
  show ?thesis unfolding setGlobalFrequency_def e1 partly_set_def mp ..
qed

subsection \<open>The governor\<close>

text \<open>
  The reference: a level that goes down by one while a temperature is too high and up by one otherwise, within
  the table, and whether it ever moved.
\<close>

definition dtm_hot :: "dtm_config \<Rightarrow> real list \<Rightarrow> real \<Rightarrow> bool" where
  "dtm_hot cfg cpu_temp dram_temp \<longleftrightarrow> (\<exists>t\<in>set cpu_temp. t > real_of_int (dt_cpu_temp_thres cfg)) \<or>
     dt_method cfg = 2 \<and> dram_temp > real_of_int (dt_dram_temp_thres cfg)"

definition level_after :: "nat \<Rightarrow> bool \<Rightarrow> nat \<Rightarrow> nat" where
  "level_after hi hot lev = (if hot then lev - 1 else min (lev + 1) hi)"

definition next_state :: "nat \<Rightarrow> bool \<Rightarrow> nat \<times> bool \<Rightarrow> nat \<times> bool" where
  "next_state hi hot s = (level_after hi hot (fst s), snd s \<or> level_after hi hot (fst s) \<noteq> fst s)"

definition gov_ok :: "governor \<Rightarrow> bool" where
  "gov_ok g \<longleftrightarrow> gv_freq_table g \<noteq> [] \<and> gv_max_lev g = int (length (gv_freq_table g)) - 1 \<and>
     0 \<le> gv_freq_lev g \<and> gv_freq_lev g \<le> gv_max_lev g \<and>
     (\<forall>f\<in>set (gv_freq_table g). 0 < unat f \<and> unat f < 2 ^ 32)"

definition runs_at :: "(real \<Rightarrow> 'p) \<Rightarrow> u64 \<Rightarrow> ('t, 'p) dvfs_manager \<Rightarrow> bool" where
  "runs_at fr f d \<longleftrightarrow> (\<forall>c<dv_num_app_cores d. getCoreDomain c d = Some (fr (real (unat f) * 1000000)))"

lemma mhz_hz:
  fixes f :: u64
  assumes "0 < unat f" "unat f < 2 ^ 32"
  shows "f * 1000000 \<noteq> 0" "real (unat (f * 1000000)) = real (unat f) * 1000000"
proof -
  have "unat f * 1000000 < 2 ^ 64" using assms(2) by simp
  then have "unat (f * 1000000) = unat f * 1000000" by (simp add: unat_word_ariths)
  then show "f * 1000000 \<noteq> 0" "real (unat (f * 1000000)) = real (unat f) * 1000000"
    using assms(1) by (auto simp: word_unat_eq_iff)
qed

lemma setGlobalFrequency_runs_at:
  assumes ok: "dv_ok d" and f: "0 < unat f" "unat f < 2 ^ 32"
  shows "runs (setGlobalFrequency fr getPeriod (dv_num_app_cores d) f d) (\<lambda>d'. dv_ok d' \<and> dv_num_app_cores d' = dv_num_app_cores d \<and> runs_at fr f d')"
proof -
  let ?p = "fr (real (unat (f * 1000000)))"
  obtain d' where d': "setGlobalFrequency fr getPeriod (dv_num_app_cores d) f d = Some d'"
    "dv_app_proc_domains d' = replicate (length (dv_app_proc_domains d)) ?p" "dv_num_app_cores d' = dv_num_app_cores d"
    "dv_cores_per_socket d' = dv_cores_per_socket d" "dv_global_domains d' = dv_global_domains d"
    using setGlobalFrequency_runs[OF ok mhz_hz(1)[OF f], of fr getPeriod] by simp
  have ok': "dv_ok d'" using ok unfolding dv_ok_def d' length_replicate .
  have "getCoreDomain c d' = Some ?p" if "c < dv_num_app_cores d'" for c
    using getCoreDomain_in[OF ok' that] dom_of_less[OF ok', of "unat c"] that
    unfolding d'(2) by (simp add: word_less_nat_alt)
  then have "runs_at fr f d'" unfolding runs_at_def mhz_hz(2)[OF f] by blast
  then show ?thesis using d'(1,3) ok' by (simp add: runs_iff)
qed

definition gov_rel :: "(real \<Rightarrow> 'p) \<Rightarrow> ('t, 'p) dvfs_manager \<Rightarrow> governor \<Rightarrow> nat \<times> bool \<Rightarrow> governor \<times> ('t, 'p) dvfs_manager \<Rightarrow> bool" where
  "gov_rel fr d0 g0 a s \<longleftrightarrow> gov_ok (fst s) \<and> dv_ok (snd s) \<and> gv_freq_table (fst s) = gv_freq_table g0 \<and>
     dv_num_app_cores (snd s) = dv_num_app_cores d0 \<and> gv_freq_lev (fst s) = int (fst a) \<and>
     (if snd a then runs_at fr (gv_freq_table g0 ! fst a) (snd s) else snd s = d0)"

lemma gov_move:
  assumes "gov_rel fr d0 g0 a (g, d)" and l: "l < length (gv_freq_table g0)"
  shows "ifetch (gv_freq_table g) (int l) = Some (gv_freq_table g0 ! l)"
    and "runs (setGlobalFrequency fr getPeriod (dv_num_app_cores d0) (gv_freq_table g0 ! l) d)
       (\<lambda>d'. gov_rel fr d0 g0 (l, True) (g\<lparr>gv_freq_lev := int l\<rparr>, d'))"
proof -
  have R: "gov_ok g" "dv_ok d" "gv_freq_table g = gv_freq_table g0" "dv_num_app_cores d = dv_num_app_cores d0"
    using assms(1) by (simp_all add: gov_rel_def)
  show "ifetch (gv_freq_table g) (int l) = Some (gv_freq_table g0 ! l)" using R(3) l by (simp add: ifetch_def)
  have f: "0 < unat (gv_freq_table g0 ! l)" "unat (gv_freq_table g0 ! l) < 2 ^ 32"
    using R(1,3) l by (simp_all add: gov_ok_def)
  have "gov_ok (g\<lparr>gv_freq_lev := int l\<rparr>)" using R(1,3) l by (simp add: gov_ok_def)
  then show "runs (setGlobalFrequency fr getPeriod (dv_num_app_cores d0) (gv_freq_table g0 ! l) d)
       (\<lambda>d'. gov_rel fr d0 g0 (l, True) (g\<lparr>gv_freq_lev := int l\<rparr>, d'))"
    using setGlobalFrequency_runs_at[OF R(2) f, of fr getPeriod] R(3,4)
    by (auto simp: gov_rel_def elim!: runs_mono)
qed

lemma throttle_runs:
  assumes "gov_rel fr d0 g0 a s"
  shows "runs (throttle fr getPeriod (dv_num_app_cores d0) s) (gov_rel fr d0 g0 (next_state (length (gv_freq_table g0) - 1) True a))"
proof -
  obtain g d where s: "s = (g, d)" by (cases s)
  have lev: "gv_freq_lev g = int (fst a)" "fst a < length (gv_freq_table g0)"
    using assms by (auto simp: gov_rel_def gov_ok_def s)
  show ?thesis
  proof (cases "fst a = 0")
    case True
    then show ?thesis using assms lev by (cases a) (simp add: throttle_def s next_state_def level_after_def)
  next
    case False
    then obtain k where k: "fst a = Suc k" by (cases "fst a") auto
    then have l: "k < length (gv_freq_table g0)" using lev(2) by simp
    have n: "next_state (length (gv_freq_table g0) - 1) True a = (k, True)"
      by (simp add: next_state_def level_after_def k)
    have lv: "gv_freq_lev g = int k + 1" by (simp add: lev(1) k)
    show ?thesis
      using gov_move(1)[OF assms[unfolded s] l] gov_move(2)[OF assms[unfolded s] l, of getPeriod] unfolding n
      by (simp add: throttle_def s lv runs_bind)
  qed
qed

lemma speed_up_runs:
  assumes "gov_rel fr d0 g0 a s"
  shows "runs (speed_up fr getPeriod (dv_num_app_cores d0) s) (gov_rel fr d0 g0 (next_state (length (gv_freq_table g0) - 1) False a))"
proof -
  obtain g d where s: "s = (g, d)" by (cases s)
  have lev: "gv_freq_lev g = int (fst a)" "fst a < length (gv_freq_table g0)" "gv_max_lev g = int (length (gv_freq_table g0)) - 1"
    using assms by (auto simp: gov_rel_def gov_ok_def s)
  show ?thesis
  proof (cases "fst a + 1 < length (gv_freq_table g0)")
    case False
    then have "fst a = length (gv_freq_table g0) - 1" using lev(2) by simp
    then show ?thesis using assms lev False by (cases a) (simp add: speed_up_def s next_state_def level_after_def)
  next
    case True
    have n: "next_state (length (gv_freq_table g0) - 1) False a = (fst a + 1, True)"
      using True by (auto simp: next_state_def level_after_def)
    have l: "int (fst a) + 1 = int (fst a + 1)" by simp
    show ?thesis
      using gov_move(1)[OF assms[unfolded s] True] gov_move(2)[OF assms[unfolded s] True, of getPeriod] True unfolding n
      by (simp add: speed_up_def s lev(1,3) l runs_bind del: of_nat_add of_nat_Suc)
  qed
qed

lemma max_temp:
  fixes ts :: "real list"
  shows "foldl (\<lambda>m t. if t > m then t else m) b ts > th \<longleftrightarrow> b > th \<or> (\<exists>t\<in>set ts. t > th)"
  by (induction ts arbitrary: b) auto

lemma checkDTM_runs:
  assumes rel: "gov_rel fr d0 g0 a s" and m: "dt_method cfg \<in> {1, 2}" and th: "0 \<le> dt_cpu_temp_thres cfg"
  shows "runs (checkDTM fr getPeriod (dv_num_app_cores d0) cfg cpu_temp dram_temp s)
     (gov_rel fr d0 g0 (next_state (length (gv_freq_table g0) - 1) (dtm_hot cfg cpu_temp dram_temp) a))"
  using throttle_runs[OF rel, where getPeriod = getPeriod] speed_up_runs[OF rel, where getPeriod = getPeriod] m th
  by (auto simp: checkDTM_def Let_def max_temp dtm_hot_def)

subsection \<open>The frequency table\<close>

lemma trunc_fifth:
  assumes "0 \<le> (m :: int)"
  shows "trunc (real_of_int m * 0.2) = m div 5"
proof -
  have "real_of_int m * 0.2 = real_of_int m / real_of_int 5" by simp
  then have "\<lfloor>real_of_int m * 0.2\<rfloor> = m div 5" by (simp only: floor_divide_of_int_eq)
  then show ?thesis using assms by (simp add: trunc_def)
qed

lemma fifth_le: "0 \<le> (m :: int) \<Longrightarrow> m div 5 \<le> m"
  by simp

lemma sdiv_pos:
  fixes a b :: int
  assumes "0 \<le> a" "0 < b"
  shows "a sdiv b = a div b"
  using assms by (cases "a = 0") (simp_all add: signed_divide_int_def)

lemma table_entry:
  fixes m :: int
  assumes "2 \<le> n" "0 \<le> m" "0 \<le> i" "i \<le> n - 2"
  shows "m div 5 \<le> m div 5 + (m - m div 5) div (n - 1) * i" "m div 5 + (m - m div 5) div (n - 1) * i \<le> m"
proof -
  have d: "0 \<le> m - m div 5" using assms(2) by simp
  then have q: "0 \<le> (m - m div 5) div (n - 1)" using assms(1) by (intro pos_imp_zdiv_nonneg_iff[THEN iffD2]) auto
  then show "m div 5 \<le> m div 5 + (m - m div 5) div (n - 1) * i" using assms(3) by simp
  have "(m - m div 5) div (n - 1) * i \<le> (m - m div 5) div (n - 1) * (n - 1)"
    using q assms(4) by (intro mult_left_mono) simp_all
  also have "\<dots> \<le> m - m div 5"
    using minus_mod_eq_div_mult[of "m - m div 5" "n - 1"] pos_mod_sign[of "n - 1" "m - m div 5"] assms(1) by linarith
  finally show "m div 5 + (m - m div 5) div (n - 1) * i \<le> m" by simp
qed

lemma init_freq_table_eq:
  assumes n: "2 \<le> n" and f: "0 \<le> f" "f * 1000 < 2 ^ 31"
  shows "init_freq_table f n = Some \<lparr>
     gv_freq_table = map (\<lambda>i. word_of_int (\<lfloor>f * 1000\<rfloor> div 5 + (\<lfloor>f * 1000\<rfloor> - \<lfloor>f * 1000\<rfloor> div 5) div (n - 1) * i)) [0..n - 2] @ [word_of_int \<lfloor>f * 1000\<rfloor>],
     gv_freq_lev = n - 1, gv_max_lev = n - 1\<rparr>"
proof -
  let ?m = "\<lfloor>f * 1000\<rfloor>"
  have m: "0 \<le> ?m" using f(1) by simp
  have t: "trunc (f * 1000) = ?m" using f(1) by (simp add: trunc_def)
  have s: "(?m - ?m div 5) sdiv (n - 1) = (?m - ?m div 5) div (n - 1)"
    using fifth_le[OF m] n by (intro sdiv_pos) simp_all
  have len: "int (length (map h [0..n - 2] @ [x])) - 1 = n - 1" for h :: "int \<Rightarrow> u64" and x using n by simp
  show ?thesis
    unfolding init_freq_table_def Let_def t trunc_fifth[OF m] s len using n by (simp add: guard_def)
qed

lemma uint_word_of_small: "0 \<le> k \<Longrightarrow> k < 2 ^ 31 \<Longrightarrow> uint (word_of_int k :: u64) = k"
  by (simp add: uint_word_of_int)

lemma init_freq_table_bounds:
  assumes n: "2 \<le> n" and f: "0 \<le> f" "f * 1000 < 2 ^ 31"
  shows "\<exists>g. init_freq_table f n = Some g \<and> length (gv_freq_table g) = nat n \<and> gv_freq_lev g = n - 1 \<and> gv_max_lev g = n - 1 \<and>
     sorted (gv_freq_table g) \<and> last (gv_freq_table g) = word_of_int \<lfloor>f * 1000\<rfloor> \<and>
     (\<forall>x\<in>set (gv_freq_table g). \<lfloor>f * 1000\<rfloor> div 5 \<le> uint x \<and> uint x \<le> \<lfloor>f * 1000\<rfloor>)"
proof -
  let ?m = "\<lfloor>f * 1000\<rfloor>"
  let ?q = "(?m - ?m div 5) div (n - 1)"
  let ?e = "\<lambda>i. word_of_int (?m div 5 + ?q * i) :: u64"
  have m: "0 \<le> ?m" "?m < 2 ^ 31" using f by (simp_all add: floor_less_iff)
  have z: "0 \<le> ?m div 5" using m(1) by (simp add: pos_imp_zdiv_nonneg_iff)
  have q: "0 \<le> ?q" using fifth_le[OF m(1)] n by (simp add: pos_imp_zdiv_nonneg_iff)
  have e: "uint (?e i) = ?m div 5 + ?q * i" "?m div 5 \<le> uint (?e i)" "uint (?e i) \<le> ?m" if "i \<in> set [0..n - 2]" for i
  proof -
    have b: "?m div 5 \<le> ?m div 5 + ?q * i" "?m div 5 + ?q * i \<le> ?m" using table_entry[OF n m(1), of i] that by simp_all
    then show "uint (?e i) = ?m div 5 + ?q * i" using m(2) z by (intro uint_word_of_small) linarith+
    then show "?m div 5 \<le> uint (?e i)" "uint (?e i) \<le> ?m" using b by simp_all
  qed
  have l: "uint (word_of_int ?m :: u64) = ?m" by (rule uint_word_of_small[OF m])
  have "sorted (map ?e [0..n - 2])"
  proof (rule sorted_map_mono[OF sorted_upto])
    show "mono_on (set [0..n - 2]) ?e"
    proof (rule mono_onI)
      fix i j assume "i \<in> set [0..n - 2]" "j \<in> set [0..n - 2]" "i \<le> j"
      then show "?e i \<le> ?e j" unfolding word_le_def by (simp only: e(1)) (simp add: mult_left_mono q)
    qed
  qed
  then have srt: "sorted (map ?e [0..n - 2] @ [word_of_int ?m])"
    unfolding sorted_append
  proof (intro conjI ballI)
    fix x y assume "x \<in> set (map ?e [0..n - 2])" "y \<in> set [word_of_int ?m :: u64]"
    then obtain i where i: "i \<in> set [0..n - 2]" "x = ?e i" "y = word_of_int ?m" by auto
    show "x \<le> y" unfolding i(2,3) word_le_def l by (rule e(3)[OF i(1)])
  qed simp_all
  show ?thesis
  proof -
    have "\<forall>x\<in>set (map ?e [0..n - 2] @ [word_of_int ?m]). ?m div 5 \<le> uint x \<and> uint x \<le> ?m"
    proof
      fix x assume "x \<in> set (map ?e [0..n - 2] @ [word_of_int ?m])"
      then consider i where "i \<in> set [0..n - 2]" "x = ?e i" | "x = word_of_int ?m" by auto
      then show "?m div 5 \<le> uint x \<and> uint x \<le> ?m" by cases (simp_all only: e(2,3) l fifth_le[OF m(1)], simp)
    qed
    then show ?thesis using srt unfolding init_freq_table_eq[OF assms] using n by simp
  qed
qed

lemma init_freq_table_ok:
  assumes "2 \<le> n" "5 \<le> f * 1000" "f * 1000 < 2 ^ 31"
  shows "\<exists>g. init_freq_table f n = Some g \<and> gov_ok g \<and> gv_freq_lev g = n - 1 \<and> length (gv_freq_table g) = nat n"
proof -
  have f: "0 \<le> f" using assms(2) by simp
  obtain g where g: "init_freq_table f n = Some g" "length (gv_freq_table g) = nat n" "gv_freq_lev g = n - 1" "gv_max_lev g = n - 1"
     "\<forall>x\<in>set (gv_freq_table g). \<lfloor>f * 1000\<rfloor> div 5 \<le> uint x \<and> uint x \<le> \<lfloor>f * 1000\<rfloor>"
    using init_freq_table_bounds[OF assms(1) f assms(3)] by blast
  have m: "5 \<le> \<lfloor>f * 1000\<rfloor>" "\<lfloor>f * 1000\<rfloor> < 2 ^ 31" using assms by (simp_all add: le_floor_iff floor_less_iff)
  have "0 < unat x \<and> unat x < 2 ^ 32" if "x \<in> set (gv_freq_table g)" for x
  proof -
    have d: "1 \<le> \<lfloor>f * 1000\<rfloor> div 5" using zdiv_mono1[OF m(1), of 5] by simp
    have "\<lfloor>f * 1000\<rfloor> div 5 \<le> uint x" "uint x \<le> \<lfloor>f * 1000\<rfloor>" using g(5) that by blast+
    then have "1 \<le> uint x" "uint x < 2 ^ 31" using m(2) d by linarith+
    moreover have e: "int (unat x) = uint x" by simp
    ultimately have "1 \<le> int (unat x)" "int (unat x) < 2147483648" by (simp_all only: e, simp)
    then have "0 < unat x" "unat x < 2147483648" by linarith+
    then show ?thesis by simp
  qed
  then show ?thesis using g assms(1) by (auto simp: gov_ok_def)
qed

text \<open>The frequency table. For a core frequency below \<open>2^31\<close> MHz and at least two levels, the table that
  \<^verbatim>\<open>init\<close> builds has as many entries as levels, is sorted, ends with the core frequency in MHz, and
  all its entries are between a fifth of that and that; the governor starts at the last one.\<close>

theorem frequency_table_sorted:
  assumes "2 \<le> n" and "0 \<le> f" and "f * 1000 < 2 ^ 31"
  shows "\<exists>g. init_freq_table f n = Some g \<and> length (gv_freq_table g) = nat n \<and> gv_freq_lev g = n - 1 \<and> gv_max_lev g = n - 1 \<and>
     sorted (gv_freq_table g) \<and> last (gv_freq_table g) = word_of_int \<lfloor>f * 1000\<rfloor> \<and>
     (\<forall>x\<in>set (gv_freq_table g). \<lfloor>f * 1000\<rfloor> div 5 \<le> uint x \<and> uint x \<le> \<lfloor>f * 1000\<rfloor>)"
  by (rule init_freq_table_bounds[OF assms])

text \<open>The shipped configuration: 2.66 GHz and five levels.\<close>

theorem frequency_table_sorted_witness:
  "\<exists>g. init_freq_table 2.66 5 = Some g \<and> sorted (gv_freq_table g) \<and> last (gv_freq_table g) = 2660 \<and>
     (\<forall>x\<in>set (gv_freq_table g). 532 \<le> uint x \<and> uint x \<le> 2660)"
  using frequency_table_sorted[of 5 "2.66"] by auto

lemma dtm_runs:
  assumes m: "dt_method cfg \<in> {1, 2}" and th: "0 \<le> dt_cpu_temp_thres cfg"
  shows "gov_rel fr d0 g0 a s \<Longrightarrow> runs (foldM (\<lambda>(cpu, dram). checkDTM fr getPeriod (dv_num_app_cores d0) cfg cpu dram) temps s)
     (gov_rel fr d0 g0 (fold (\<lambda>(cpu, dram). next_state (length (gv_freq_table g0) - 1) (dtm_hot cfg cpu dram)) temps a))"
proof (induction temps arbitrary: a s)
  case (Cons x temps)
  obtain cpu dram where x: "x = (cpu, dram)" by (cases x)
  show ?case
    unfolding foldM.simps x prod.case runs_bind fold_simps comp_def
    by (rule runs_mono[OF checkDTM_runs[OF Cons.prems m th]]) (rule Cons.IH)
qed simp

text \<open>C19: The governor follows the temperatures. With one of the two throttling methods and from the
  constructors on, every sequence of temperature readings returns; the frequency level is the one of the
  reference governor (one down when a core, or with method 2 the DRAM, is above its threshold, one up
  otherwise, within the table), and once it has moved every application core runs at the frequency of its
  level; until then the clock domains are the configured ones.\<close>

theorem governor_follows_temperatures:
  assumes "2 \<le> n" and "5 \<le> f * 1000" and "f * 1000 < 2 ^ 31" and "cps \<noteq> 0"
    and "dt_method cfg \<in> {1, 2}" and "0 \<le> dt_cpu_temp_thres cfg"
  shows "\<exists>g d g' d' lev moved. init_freq_table f n = Some g \<and> DvfsManager fr ''simple'' cores cps lat f fo = Some d \<and>
     foldM (\<lambda>(cpu, dram). checkDTM fr getPeriod cores cfg cpu dram) temps (g, d) = Some (g', d') \<and>
     fold (\<lambda>(cpu, dram). next_state (nat n - 1) (dtm_hot cfg cpu dram)) temps (nat n - 1, False) = (lev, moved) \<and>
     gv_freq_lev g' = int lev \<and> lev < length (gv_freq_table g) \<and> dv_num_app_cores d' = cores \<and>
     (if moved then \<forall>c<cores. getCoreDomain c d' = Some (fr (real (unat (gv_freq_table g ! lev)) * 1000000)) else d' = d)"
proof -
  obtain g where g: "init_freq_table f n = Some g" "gov_ok g" "gv_freq_lev g = n - 1" "length (gv_freq_table g) = nat n"
    using init_freq_table_ok[OF assms(1-3)] by blast
  obtain d where d: "DvfsManager fr ''simple'' cores cps lat f fo = Some d" "dv_ok d" "dv_num_app_cores d = cores"
    using DvfsManager_runs[OF assms(4), of fr cores lat f fo] by (auto simp: runs_iff)
  have rel: "gov_rel fr d g (nat n - 1, False) (g, d)" using g(2,3) d(2) assms(1) by (auto simp: gov_rel_def)
  obtain g' d' where r: "foldM (\<lambda>(cpu, dram). checkDTM fr getPeriod cores cfg cpu dram) temps (g, d) = Some (g', d')"
      "gov_rel fr d g (fold (\<lambda>(cpu, dram). next_state (nat n - 1) (dtm_hot cfg cpu dram)) temps (nat n - 1, False)) (g', d')"
    using dtm_runs[OF assms(5,6) rel, of getPeriod temps] unfolding g(4) d(3) runs_iff by auto
  obtain lev moved where a: "fold (\<lambda>(cpu, dram). next_state (nat n - 1) (dtm_hot cfg cpu dram)) temps (nat n - 1, False) = (lev, moved)"
    by (cases "fold (\<lambda>(cpu, dram). next_state (nat n - 1) (dtm_hot cfg cpu dram)) temps (nat n - 1, False)")
  have R: "gov_ok g'" "gv_freq_table g' = gv_freq_table g" "dv_num_app_cores d' = cores" "gv_freq_lev g' = int lev"
    "if moved then runs_at fr (gv_freq_table g ! lev) d' else d' = d"
    using r(2) unfolding a gov_rel_def fst_conv snd_conv d(3) by auto
  have l: "lev < length (gv_freq_table g)" using R(1,2,4) by (auto simp: gov_ok_def)
  have "if moved then \<forall>c<cores. getCoreDomain c d' = Some (fr (real (unat (gv_freq_table g ! lev)) * 1000000)) else d' = d"
    using R(5) unfolding runs_at_def R(3) .
  then show ?thesis using g(1) d(1) r(1) a R(3,4) l by blast
qed

text \<open>Four cores in two domains, at 2660 MHz: one hot reading throttles all of them to the level below.\<close>

theorem governor_follows_temperatures_witness:
  "\<exists>g d g' d'. init_freq_table 2.66 5 = Some g \<and> DvfsManager id ''simple'' 4 2 (0 :: real) 2.66 (\<lambda>_. 2.66) = Some d \<and>
     foldM (\<lambda>(cpu, dram). checkDTM id (\<lambda>p. p) 4 \<lparr>dt_cpu_temp_thres = 80, dt_dram_temp_thres = 85, dt_method = 1\<rparr> cpu dram)
       [([70, 90], 60)] (g, d) = Some (g', d') \<and>
     gv_freq_lev g' = 3 \<and> getCoreDomain 1 d' = Some (real (unat (gv_freq_table g ! 3)) * 1000000)"
proof -
  let ?cfg = "\<lparr>dt_cpu_temp_thres = 80, dt_dram_temp_thres = 85, dt_method = 1\<rparr>"
  have a: "fold (\<lambda>(cpu, dram). next_state (nat 5 - 1) (dtm_hot ?cfg cpu dram)) [([70, 90], 60)] (nat 5 - 1, False) = (3, True)"
    by (simp add: next_state_def level_after_def dtm_hot_def)
  have h: "2 \<le> (5 :: int)" "5 \<le> (2.66 :: real) * 1000" "(2.66 :: real) * 1000 < 2 ^ 31" "(2 :: u32) \<noteq> 0" "dt_method ?cfg \<in> {1, 2}"
    "0 \<le> dt_cpu_temp_thres ?cfg" by simp_all
  show ?thesis
    using governor_follows_temperatures[OF h, of id 4 "0 :: real" "\<lambda>_. 2.66" "\<lambda>p. p" "[([70, 90], 60)]"] unfolding a by fastforce
qed

end
