(* ===== verification/PowerModel.thy ===== *)
theory PowerModel
  imports StackedDram
begin

section \<open>Power of the cores and of the stacked DRAM\<close>

text \<open>
  Model of the power part of \<^verbatim>\<open>misc/stats.{h,cc}\<close>: \<^verbatim>\<open>computeBankPower\<close>, \<^verbatim>\<open>computeDramPower\<close>,
  \<^verbatim>\<open>computeDramCntlrPower\<close>, \<^verbatim>\<open>updatePower\<close> and the two functions that write the power trace for HotSpot. \<^verbatim>\<open>double\<close> values
  are reals. A metric is read through the argument \<open>metric\<close>, which gives \<open>None\<close> for a metric that is not
  registered (the code follows a null pointer then). The file that HotSpot reads is a header of unit names and
  a list of rows; a name such as \<^verbatim>\<open>dram_3_5\<close> is the constructor term \<open>DramUnit 3 5\<close>.
\<close>

subsection \<open>Constants\<close>

record dram_table_entry =
  tb_freq :: real
  tb_maxVcc :: real
  tb_Vdd :: real
  tb_Idd2P :: real
  tb_Idd2N :: real
  tb_Idd3P :: real
  tb_Idd3N :: real
  tb_Idd5 :: real
  tb_Idd4W :: real
  tb_Idd4R :: real
  tb_Idd0 :: real
  tb_RFC_min :: real
  tb_REFI :: real
  tb_tRAS :: real
  tb_tRC :: real
  tb_tCKavg :: real
  tb_burstLen :: real

definition dram_table :: dram_table_entry where
  "dram_table = \<lparr>tb_freq = 500, tb_maxVcc = 1.575, tb_Vdd = 1.5, tb_Idd2P = 20, tb_Idd2N = 40, tb_Idd3P = 45,
     tb_Idd3N = 42, tb_Idd5 = 200, tb_Idd4W = 160, tb_Idd4R = 200, tb_Idd0 = 70, tb_RFC_min = 340,
     tb_REFI = 7800, tb_tRAS = 37.5, tb_tRC = 52.5, tb_tCKavg = 2.5, tb_burstLen = 8\<rparr>"

record dram_cntlr_table_entry =
  ct_DRAM_CLK :: real
  ct_DRAM_POWER_READ :: real
  ct_DRAM_POWER_WRITE :: real
  ct_num_dram_controllers :: real
  ct_chips_per_dimm :: real
  ct_dimms_per_socket :: real

definition dram_cntlr_table :: dram_cntlr_table_entry where
  "dram_cntlr_table = \<lparr>ct_DRAM_CLK = 500, ct_DRAM_POWER_READ = 0.678, ct_DRAM_POWER_WRITE = 0.825,
     ct_num_dram_controllers = 1, ct_chips_per_dimm = 8, ct_dimms_per_socket = 4\<rparr>"

subsection \<open>Formulas\<close>

definition computeBankPower :: "real \<Rightarrow> real \<Rightarrow> real \<Rightarrow> real \<Rightarrow> real \<Rightarrow> bool \<Rightarrow> real \<Rightarrow> real" where
  "computeBankPower bnk_pre cke_lo_pre page_hit WRsch RDsch hot Vdd_use = (
     let T = dram_table;
         rd_wr_pre = WRsch + RDsch;
         rev_page_hit = 1 - page_hit;
         tRRDsch = (if rd_wr_pre \<noteq> 0 \<and> rev_page_hit \<noteq> 0 then (tb_burstLen T / 2 / (WRsch + RDsch)) / (1 - page_hit) else tb_tRC T);
         tRRDsch = tRRDsch * 1000 / tb_freq T;
         psch_pre_pdn = tb_Idd2P T * tb_Vdd T * bnk_pre * cke_lo_pre;
         psch_pre_stby = tb_Idd2N T * tb_Vdd T * bnk_pre * (1 - cke_lo_pre);
         psch_act_pdn = tb_Idd3P T * tb_Vdd T * (1 - bnk_pre) * cke_lo_pre;
         psch_act_stby = tb_Idd3N T * tb_Vdd T * (1 - bnk_pre) * (1 - cke_lo_pre);
         pds_act = (tb_Idd0 T - (tb_Idd3N T * tb_tRAS T + tb_Idd2N T * (tb_tRC T - tb_tRAS T)) / tb_tRC T) * tb_Vdd T;
         psch_act = pds_act * tb_tRC T / tRRDsch;
         psch_WR = (tb_Idd4W T - tb_Idd3N T) * tb_Vdd T * WRsch;
         psch_RD = (tb_Idd4R T - tb_Idd3N T) * tb_Vdd T * RDsch;
         psch_REF = (tb_Idd5 T - tb_Idd3N T) * tb_Vdd T * tb_RFC_min T / tb_REFI T;
         psch_REF = (if hot then psch_REF * 2 else psch_REF);
         psys = psch_pre_pdn + psch_pre_stby + psch_act_pdn + psch_act_stby + psch_act + psch_WR + psch_RD + psch_REF;
         psys = psys * (Vdd_use / tb_Vdd T) * (Vdd_use / tb_Vdd T)
     in psys / 1000)"

text \<open>\<^verbatim>\<open>computeDramPower\<close>, which no function calls; for an interval without length its result is not a
  number. For a page hit rate of one the code divides by an infinite \<^verbatim>\<open>tRRDsch\<close>, and here by zero: \<^verbatim>\<open>psys_act\<close> is zero
  in both.\<close>

definition computeDramPower :: "('t \<Rightarrow> u64) \<Rightarrow> 't \<Rightarrow> 't \<Rightarrow> 't \<Rightarrow> 't \<Rightarrow> 't \<Rightarrow> u32 \<Rightarrow> u32 \<Rightarrow> real \<Rightarrow> real option" where
  "computeDramPower getFS tACT tPRE tRD tWR totT reads writes page_hit_rate = do {
     let act_t = real (unat (getFS tACT));
     let tot_time = real (unat (getFS totT));
     let act_t = (if act_t > tot_time then tot_time else act_t);
     let read_ratio = (if reads + writes \<noteq> 0 then real (unat reads) / real (unat (reads + writes)) else 0);
     let write_ratio = (if reads + writes \<noteq> 0 then real (unat writes) / real (unat (reads + writes)) else 0);
     let read_t = read_ratio * act_t;
     let write_t = write_ratio * act_t;
     let ck_freq = 800;
     guard (tot_time \<noteq> 0);
     let bnk_pre = (tot_time - act_t) / tot_time;
     let cke_lo_pre = 0.3;
     let cke_lo_act = 0.3;
     let wr_sch = write_t / tot_time;
     let rd_sch = read_t / tot_time;
     let (wr_sch, rd_sch) = (if wr_sch + rd_sch = 0 then (0.0001, 0.0001) else (wr_sch, rd_sch));
     let T = dram_table;
     let ck_col_avg = tb_burstLen T / 2 / (wr_sch + rd_sch);
     let ck_row_avg = ck_col_avg / (1 - page_hit_rate);
     let tRRDsch = ck_row_avg * 1000 / ck_freq;
     let psys_pre_pdn = tb_Idd2P T * tb_Vdd T * bnk_pre * cke_lo_pre;
     let psys_pre_stby = tb_Idd2N T * tb_Vdd T * bnk_pre * (1 - cke_lo_pre) * ck_freq / 1000 * tb_tCKavg T;
     let psys_act_pdn = tb_Idd3P T * tb_Vdd T * ((1 - cke_lo_pre) * cke_lo_act) * ck_freq / 1000 * tb_tCKavg T;
     let psys_act_stby = tb_Idd3N T * tb_Vdd T * ((1 - cke_lo_pre) * (1 - cke_lo_act)) * ck_freq / 1000 * tb_tCKavg T;
     let psys_ref = (tb_Idd5 T - tb_Idd3N T) * tb_RFC_min T / tb_REFI T / 1000 * tb_Vdd T;
     let psys_act = (tb_Idd0 T - (tb_Idd3N T * tb_tRAS T / tb_tRC T + tb_Idd2N T * (tb_tRC T - tb_tRAS T) / tb_tRC T)) * tb_Vdd T * tb_tRC T / tRRDsch;
     let psys_wr = (tb_Idd4W T - tb_Idd3N T) * tb_Vdd T * tb_burstLen T / 8 * wr_sch * ck_freq / 1000 * tb_tCKavg T;
     let psys_rd = (tb_Idd4W T - tb_Idd3N T) * tb_Vdd T * tb_burstLen T / 8 * rd_sch * ck_freq / 1000 * tb_tCKavg T;
     let psys_read_io = psys_rd;
     let psys_tot_back = psys_pre_pdn + psys_pre_stby + psys_act_pdn + psys_act_stby + psys_ref + psys_act;
     let psys_tot_front = psys_wr + psys_rd + psys_read_io;
     Some (psys_tot_back / 1000 + psys_tot_front / 1000)
   }"

text \<open>\<^verbatim>\<open>computeDramCntlrPower\<close> computes the power of the accesses, limits it, and returns the limit.\<close>

definition computeDramCntlrPower :: "('t \<Rightarrow> u64) \<Rightarrow> real \<Rightarrow> u32 \<Rightarrow> u32 \<Rightarrow> 't \<Rightarrow> u32 \<Rightarrow> real" where
  "computeDramCntlrPower getFS power_mc reads writes t tot_access = (
     let C = dram_cntlr_table;
         tot_time = real (unat (getFS t)) * (1 / 10 ^ 15);
         ncycles = tot_time * ct_DRAM_CLK C * 10 ^ 6;
         sockets = ct_num_dram_controllers C;
         read_dc = (if ncycles \<noteq> 0 then real (unat reads) / sockets / ncycles else real (unat reads) / sockets);
         write_dc = (if ncycles \<noteq> 0 then real (unat writes) / sockets / ncycles else real (unat writes) / sockets);
         power_chip_dyn = read_dc * ct_DRAM_POWER_READ C + write_dc * ct_DRAM_POWER_WRITE C;
         power_socket_dyn = power_chip_dyn * ct_chips_per_dimm C * ct_dimms_per_socket C;
         raw_power = power_socket_dyn * sockets;
         ratio = (if tot_access \<noteq> 0 then real (unat (reads + writes)) / real (unat tot_access) else 0);
         ratio = (if ratio > 1 then 1 else ratio);
         real_power = power_mc * ratio;
         raw_power = (if raw_power > real_power then real_power else raw_power)
     in real_power)"

subsection \<open>State\<close>

record core_power =
  cp_exe :: real
  cp_ifetch :: real
  cp_lsu :: real
  cp_mmu :: real
  cp_l2 :: real
  cp_ru :: real
  cp_ialu :: real
  cp_fpalu :: real
  cp_inssch :: real
  cp_l1i :: real
  cp_insdec :: real
  cp_bp :: real
  cp_l1d :: real

record 't power_state =
  pw_cores :: "core_power list"
  pw_prev_cores :: "core_power list"
  pw_mc :: real
  pw_prev_mc :: real
  pw_peak_proc :: real
  pw_dyn_proc :: real
  pw_vault_reads :: "u64 list"
  pw_vault_writes :: "u64 list"
  pw_vault_row_hits :: "u64 list"
  pw_vault_access :: "u32 list"
  pw_bank_stats :: "'t stat_entry list list"
  pw_bank_interval :: "'t stat_entry list list"
  pw_bank_power :: "real list list"
  pw_vault_power :: "real list"
  pw_trace_log :: "real list list"

text \<open>
  The part of \<^verbatim>\<open>StatsManager::init\<close> that sets the statistics and the power values. Members that it does not
  set keep what is in the memory, the argument \<open>raw\<close>.
\<close>

definition zero_power :: "core_power \<Rightarrow> core_power" where
  "zero_power c = c\<lparr>cp_ialu := 0, cp_fpalu := 0, cp_inssch := 0, cp_l1i := 0, cp_insdec := 0, cp_bp := 0,
     cp_ru := 0, cp_l1d := 0, cp_mmu := 0, cp_l2 := 0\<rparr>"

definition init_power :: "'t::zero power_state \<Rightarrow> 't power_state" where
  "init_power raw = raw\<lparr>
     pw_vault_reads := replicate 32 0, pw_vault_writes := replicate 32 0, pw_vault_row_hits := replicate 32 0,
     pw_bank_stats := map (map clear_stats) (pw_bank_stats raw),
     pw_cores := map zero_power (pw_cores raw), pw_prev_cores := map zero_power (pw_prev_cores raw),
     pw_vault_power := replicate 32 0, pw_bank_power := replicate 32 (replicate 8 0), pw_trace_log := []\<rparr>"

subsection \<open>Updating the power values\<close>

type_synonym metrics = "string \<Rightarrow> u32 \<Rightarrow> string \<Rightarrow> u64 option"

definition micro :: "u64 \<Rightarrow> real" where
  "micro x = real (unat x) * (1 / 10 ^ 6)"

definition read_core_power :: "metrics \<Rightarrow> real \<Rightarrow> u32 \<Rightarrow> core_power option" where
  "read_core_power metric power_scale i = do {
     exe \<leftarrow> metric ''exe'' i ''power-dynamic'';
     ifetch \<leftarrow> metric ''ifetch'' i ''power-dynamic'';
     lsu \<leftarrow> metric ''lsu'' i ''power-dynamic'';
     mmu \<leftarrow> metric ''mmu'' i ''power-dynamic'';
     l2 \<leftarrow> metric ''l2'' i ''power-dynamic'';
     ru \<leftarrow> metric ''ru'' i ''power-dynamic'';
     ialu \<leftarrow> metric ''ialu'' i ''power-dynamic'';
     fpalu \<leftarrow> metric ''fpalu'' i ''power-dynamic'';
     inssch \<leftarrow> metric ''inssch'' i ''power-dynamic'';
     l1i \<leftarrow> metric ''l1i'' i ''power-dynamic'';
     insdec \<leftarrow> metric ''insdec'' i ''power-dynamic'';
     btb \<leftarrow> metric ''btb'' i ''power-dynamic'';
     btb2 \<leftarrow> metric ''btb'' i ''power-dynamic'';
     l1d \<leftarrow> metric ''l1d'' i ''power-dynamic'';
     Some \<lparr>cp_exe = power_scale * micro exe, cp_ifetch = power_scale * micro ifetch, cp_lsu = power_scale * micro lsu,
       cp_mmu = power_scale * micro mmu, cp_l2 = power_scale * micro l2, cp_ru = power_scale * micro ru,
       cp_ialu = power_scale * micro ialu, cp_fpalu = power_scale * micro fpalu, cp_inssch = power_scale * micro inssch,
       cp_l1i = power_scale * micro l1i, cp_insdec = power_scale * micro insdec,
       cp_bp = power_scale * (micro btb + micro btb2), cp_l1d = power_scale * micro l1d\<rparr>
   }"

definition read_core :: "metrics \<Rightarrow> real \<Rightarrow> u32 \<Rightarrow> core_power list \<Rightarrow> core_power list option" where
  "read_core metric power_scale i cs = do {
     c \<leftarrow> read_core_power metric power_scale i;
     store cs i c
   }"

text \<open>The statistics of a bank since the last record.\<close>

definition interval_stats :: "'t::{comm_monoid_add, minus} stat_entry \<Rightarrow> 't stat_entry \<Rightarrow> 't stat_entry" where
  "interval_stats now old = now\<lparr>st_tACT := st_tACT now - st_tACT old, st_tPRE := st_tPRE now - st_tPRE old,
     st_reads := st_reads now - st_reads old, st_writes := st_writes now - st_writes old,
     st_row_hits := st_row_hits now - st_row_hits old, st_row_conflicts := st_row_conflicts now - st_row_conflicts old,
     st_row_misses := st_row_misses now - st_row_misses old, st_tRD := 0, st_tWR := 0, st_hot := st_hot old\<rparr>"

definition updateBankStat :: "u32 \<Rightarrow> u32 \<Rightarrow> 't bank_perf \<Rightarrow> 't power_state \<Rightarrow> 't power_state option" where
  "updateBankStat i j bank s = do {
     row \<leftarrow> fetch (pw_bank_stats s) i;
     row \<leftarrow> store row j (bp_stats bank);
     rows \<leftarrow> store (pw_bank_stats s) i row;
     Some (s\<lparr>pw_bank_stats := rows\<rparr>)
   }"

text \<open>The hit rate is a quotient of unsigned integers.\<close>

definition interval_power :: "('t \<Rightarrow> u64) \<Rightarrow> 't \<Rightarrow> 't stat_entry \<Rightarrow> real" where
  "interval_power getNS tot_time tmp = (
     let accesses = st_row_hits tmp + st_row_misses tmp + st_row_conflicts tmp;
         page_hit_rate = (if accesses > 0 then real (unat (st_row_hits tmp div accesses)) else 0);
         bnk_pre = (if getNS tot_time \<noteq> 0 then (let b = 1 - real (unat (getNS (st_tACT tmp))) / real (unat (getNS tot_time)) in if b < 0 then 0 else b)
                    else 0);
         n = st_reads tmp + st_writes tmp;
         wr_sch = (if n > 0 then real (unat (st_writes tmp)) / real (unat n) * (1 - bnk_pre) else 0);
         rd_sch = (if n > 0 then real (unat (st_reads tmp)) / real (unat n) * (1 - bnk_pre) else 0)
     in computeBankPower bnk_pre 0.3 page_hit_rate wr_sch rd_sch (st_hot tmp) 1.5)"

definition update_bank_power :: "('t::{comm_monoid_add, minus} \<Rightarrow> u64) \<Rightarrow> 't \<Rightarrow> 't vault_perf \<Rightarrow> u32 \<Rightarrow> u32 \<Rightarrow> 't power_state \<Rightarrow> 't power_state option" where
  "update_bank_power getNS tot_time vault i j s = do {
     bank \<leftarrow> fetch (vp_banks vault) j;
     olds \<leftarrow> fetch (pw_bank_stats s) i;
     old \<leftarrow> fetch olds j;
     let tmp = interval_stats (bp_stats bank) old;
     row \<leftarrow> fetch (pw_bank_interval s) i;
     row \<leftarrow> store row j tmp;
     rows \<leftarrow> store (pw_bank_interval s) i row;
     let s = s\<lparr>pw_bank_interval := rows\<rparr>;
     s \<leftarrow> updateBankStat i j bank s;
     ps \<leftarrow> fetch (pw_bank_power s) i;
     ps \<leftarrow> store ps j (interval_power getNS tot_time tmp);
     pss \<leftarrow> store (pw_bank_power s) i ps;
     Some (s\<lparr>pw_bank_power := pss\<rparr>)
   }"

definition update_vault_power :: "('t::{comm_monoid_add, minus} \<Rightarrow> u64) \<Rightarrow> 't \<Rightarrow> ('t, 'd) unison_perf \<Rightarrow> u32 \<Rightarrow>
    u32 list \<times> u32 list \<times> u32 \<times> 't power_state \<Rightarrow> (u32 list \<times> u32 list \<times> u32 \<times> 't power_state) option" where
  "update_vault_power getNS tot_time u i st = do {
     let (v_r, v_w, tot_access, s) = st;
     vault \<leftarrow> fetch (up_vaults u) i;
     r0 \<leftarrow> fetch (pw_vault_reads s) i;
     w0 \<leftarrow> fetch (pw_vault_writes s) i;
     let tot_reads = (ucast (ucast (st_reads (vp_stats vault)) - r0) :: u32);
     let tot_writes = (ucast (ucast (st_writes (vp_stats vault)) - w0) :: u32);
     v_r \<leftarrow> store v_r i tot_reads;
     v_w \<leftarrow> store v_w i tot_writes;
     rs \<leftarrow> store (pw_vault_reads s) i (ucast (st_reads (vp_stats vault)));
     ws \<leftarrow> store (pw_vault_writes s) i (ucast (st_writes (vp_stats vault)));
     hs \<leftarrow> store (pw_vault_row_hits s) i (ucast (st_row_hits (vp_stats vault)));
     s \<leftarrow> foldM (update_bank_power getNS tot_time vault i) (u32_range 0 (vp_n_banks vault))
       (s\<lparr>pw_vault_reads := rs, pw_vault_writes := ws, pw_vault_row_hits := hs\<rparr>);
     as \<leftarrow> store (pw_vault_access s) i (tot_reads + tot_writes);
     Some (v_r, v_w, tot_access + (tot_reads + tot_writes), s\<lparr>pw_vault_access := as\<rparr>)
   }"

definition set_vault_power :: "('t \<Rightarrow> u64) \<Rightarrow> 't \<Rightarrow> u32 list \<Rightarrow> u32 list \<Rightarrow> u32 \<Rightarrow> u32 \<Rightarrow> 't power_state \<Rightarrow> 't power_state option" where
  "set_vault_power getFS tot_time v_r v_w tot_access i s = do {
     r \<leftarrow> fetch v_r i;
     w \<leftarrow> fetch v_w i;
     vp \<leftarrow> store (pw_vault_power s) i (computeDramCntlrPower getFS (pw_mc s) r w tot_time tot_access);
     Some (s\<lparr>pw_vault_power := vp\<rparr>)
   }"

text \<open>The local arrays \<^verbatim>\<open>v_r\<close> and \<^verbatim>\<open>v_w\<close> start with arbitrary contents; every entry that is read has been written.\<close>

definition updatePower :: "('t::{comm_monoid_add, minus} \<Rightarrow> u64) \<Rightarrow> ('t \<Rightarrow> u64) \<Rightarrow> metrics \<Rightarrow> int \<Rightarrow> 't \<Rightarrow> ('t, 'd) unison_perf \<Rightarrow>
    't power_state \<Rightarrow> 't power_state option" where
  "updatePower getFS getNS metric power_scale_int tot_time u s = do {
     let power_scale = real_of_int power_scale_int / 10;
     let power_scale = (if power_scale < 1 then 1 else power_scale);
     peak \<leftarrow> metric ''peak_processor'' 0 ''power-dynamic'';
     dyn \<leftarrow> metric ''processor'' 0 ''power-dynamic'';
     let s = s\<lparr>pw_peak_proc := micro peak, pw_dyn_proc := micro dyn\<rparr>;
     let power_scale = (if power_scale_int = -1 then (if pw_dyn_proc s \<noteq> 0 then pw_peak_proc s / pw_dyn_proc s else 1) else power_scale);
     let s = s\<lparr>pw_prev_mc := pw_mc s, pw_prev_cores := pw_cores s\<rparr>;
     mc \<leftarrow> metric ''mc'' 0 ''power-dynamic'';
     let s = s\<lparr>pw_mc := power_scale * micro mc\<rparr>;
     cs \<leftarrow> foldM (read_core metric power_scale) (u32_range 0 4) (pw_cores s);
     let s = s\<lparr>pw_cores := cs\<rparr>;
     (v_r, v_w, tot_access, s) \<leftarrow> foldM (update_vault_power getNS tot_time u) (u32_range 0 (up_n_vaults u)) (replicate 32 0, replicate 32 0, 0, s);
     foldM (set_vault_power getFS tot_time v_r v_w tot_access) (u32_range 0 (up_n_vaults u)) s
   }"

subsection \<open>The power trace\<close>

datatype core_unit = IALU | FPALU | INSSCH | L1I | INSDEC | BP | RU | L1D | MMU | L2

datatype hs_unit = CoreUnit core_unit nat | DramCtlr nat | DramUnit nat nat

definition core_units :: "core_unit list" where
  "core_units = [IALU, FPALU, INSSCH, L1I, INSDEC, BP, RU, L1D, MMU, L2]"

definition core_names :: "hs_unit list" where
  "core_names = concat (map (\<lambda>i. map (\<lambda>c. CoreUnit c i) core_units) [0..<4])"

definition cntlr_names :: "hs_unit list" where
  "cntlr_names = map DramCtlr [0..<32]"

definition bank_names :: "hs_unit list" where
  "bank_names = concat (map (\<lambda>j. map (\<lambda>i. DramUnit i j) [0..<32]) [0..<8])"

definition core_row :: "core_power \<Rightarrow> real list" where
  "core_row c = [cp_ialu c, cp_fpalu c, cp_inssch c, cp_l1i c, cp_insdec c, cp_bp c, cp_ru c, cp_l1d c, cp_mmu c, cp_l2 c]"

definition bank_row :: "'t power_state \<Rightarrow> nat \<Rightarrow> real list" where
  "bank_row s j = map (\<lambda>i. pw_bank_power s ! i ! j) [0..<32]"

text \<open>The ten values of a core in the loop over the points: the fourth one mixes two units.\<close>

definition blend_row :: "real \<Rightarrow> core_power \<Rightarrow> core_power \<Rightarrow> real list" where
  "blend_row p_ratio p c = [cp_ialu p + p_ratio * (cp_ialu c - cp_ialu p), cp_fpalu p + p_ratio * (cp_fpalu c - cp_fpalu p),
     cp_inssch p + p_ratio * (cp_inssch c - cp_inssch p), cp_l1i p + p_ratio * (cp_inssch c - cp_inssch p),
     cp_insdec p + p_ratio * (cp_insdec c - cp_insdec p), cp_bp p + p_ratio * (cp_bp c - cp_bp p),
     cp_ru p + p_ratio * (cp_ru c - cp_ru p), cp_l1d p + p_ratio * (cp_l1d c - cp_l1d p),
     cp_mmu p + p_ratio * (cp_mmu c - cp_mmu p), cp_l2 p + p_ratio * (cp_l2 c - cp_l2 p)]"

definition log_row :: "'t power_state \<Rightarrow> real list" where
  "log_row s = concat (map core_row (pw_cores s)) @ [0] @ pw_vault_power s @
     concat (map (\<lambda>j. (if j mod 2 = 0 then [0] else []) @ bank_row s j) [0..<8])"

definition dumpHotspotInput :: "('t::{comm_monoid_add, minus} \<Rightarrow> u64) \<Rightarrow> ('t \<Rightarrow> u64) \<Rightarrow> metrics \<Rightarrow> int \<Rightarrow> bool \<Rightarrow> int \<Rightarrow> 't \<Rightarrow>
    ('t, 'd) unison_perf \<Rightarrow> 't power_state \<Rightarrow> ((hs_unit list \<times> real list list) \<times> 't power_state) option" where
  "dumpHotspotInput getFS getNS metric power_scale record_power pt_num tot_time u s = do {
     let header = core_names @ cntlr_names @ bank_names;
     let s = (if record_power \<and> pw_peak_proc s > 0.1 then s\<lparr>pw_trace_log := pw_trace_log s @ [log_row s]\<rparr> else s);
     s \<leftarrow> updatePower getFS getNS metric power_scale tot_time u s;
     let rows = map (\<lambda>pt. (let p_ratio = 1 in
       concat (map2 (blend_row p_ratio) (pw_prev_cores s) (pw_cores s)) @ pw_vault_power s @ concat (map (bank_row s) [0..<8]))) [0..pt_num];
     Some ((header, rows), s)
   }"

definition dumpHotspotInputReverse :: "('t::{comm_monoid_add, minus} \<Rightarrow> u64) \<Rightarrow> ('t \<Rightarrow> u64) \<Rightarrow> metrics \<Rightarrow> int \<Rightarrow> 't \<Rightarrow>
    ('t, 'd) unison_perf \<Rightarrow> 't power_state \<Rightarrow> ((hs_unit list \<times> real list list) \<times> 't power_state) option" where
  "dumpHotspotInputReverse getFS getNS metric power_scale tot_time u s = do {
     let header = bank_names @ cntlr_names @ core_names;
     let row1 = pw_vault_power s @ concat (map (bank_row s) [0..<8]) @ concat (map core_row (pw_cores s));
     s \<leftarrow> updatePower getFS getNS metric power_scale tot_time u s;
     let row2 = concat (map (bank_row s) [0..<8]) @ pw_vault_power s @ concat (map core_row (pw_cores s));
     Some ((header, [row1, row2]), s)
   }"

subsection \<open>Bounds of a bank's power\<close>

lemma bank_power_eq:
  "computeBankPower b 0.3 h wr rd hot 1.5 =
     (51 * b + 1287 / 20 * (1 - b) + (if wr + rd \<noteq> 0 \<and> h \<noteq> 1 then 1125 / 4 * (wr + rd) * (1 - h) else 150 / 7) +
      177 * wr + 237 * rd + (if hot then 2 else 1) * (1343 / 130)) / 1000"
  by (simp add: computeBankPower_def Let_def dram_table_def divide_simps) (simp add: algebra_simps)?

lemma milliwatts:
  fixes x :: real
  assumes "61 \<le> x" "x \<le> 604"
  shows "61 / 1000 \<le> x / 1000" "x / 1000 \<le> 151 / 250"
  using assms by simp_all

lemma power_sum:
  fixes a b c wr rd :: real
  assumes "a \<le> 1125 / 4 * (wr + rd) \<or> a = 150 / 7" "c \<le> 207 / 10" "0 \<le> b" "wr + rd \<le> 1 - b" "0 \<le> wr"
  shows "1287 / 20 - 267 / 20 * b + a + 177 * wr + 237 * rd + c \<le> 604"
  using assms(1)
proof
  assume "a \<le> 1125 / 4 * (wr + rd)"
  then show ?thesis using assms(2-5) by (simp add: field_simps)
next
  assume "a = 150 / 7"
  then show ?thesis using assms(2-5) by (simp add: field_simps)
qed

lemma bank_power_bounds:
  assumes b: "0 \<le> b" "b \<le> 1" and h: "0 \<le> h" "h \<le> 1" and s: "0 \<le> wr" "0 \<le> rd" "wr + rd \<le> 1 - b"
  shows "61 / 1000 \<le> computeBankPower b 0.3 h wr rd hot 1.5" "computeBankPower b 0.3 h wr rd hot 1.5 \<le> 151 / 250"
proof -
  let ?a = "if wr + rd \<noteq> 0 \<and> h \<noteq> 1 then 1125 / 4 * (wr + rd) * (1 - h) else 150 / 7"
  have a0: "0 \<le> ?a" using h s by simp
  have "(wr + rd) * (1 - h) \<le> (wr + rd) * 1" using h s by (intro mult_left_mono) simp_all
  moreover have "(0 :: real) \<le> 1125 / 4" by simp
  ultimately have "1125 / 4 * ((wr + rd) * (1 - h)) \<le> 1125 / 4 * ((wr + rd) * 1)" by (rule mult_left_mono)
  then have "1125 / 4 * (wr + rd) * (1 - h) \<le> 1125 / 4 * (wr + rd)" by (simp only: mult.assoc mult_1_right)
  then have a: "?a \<le> 1125 / 4 * (wr + rd) \<or> ?a = 150 / 7"
    by (cases "wr + rd \<noteq> 0 \<and> h \<noteq> 1") (simp_all only: if_True if_False simp_thms)
  have r: "0 \<le> (if hot then 2 else 1) * (1343 / 130 :: real) - 103 / 10" "(if hot then 2 else 1) * (1343 / 130 :: real) \<le> 207 / 10"
    by (cases hot; simp)+
  have bg: "51 * b + 1287 / 20 * (1 - b) = 1287 / 20 - 267 / 20 * b" by (simp add: field_simps)
  have ge: "61 \<le> 1287 / 20 - 267 / 20 * b + ?a + 177 * wr + 237 * rd + (if hot then 2 else 1) * (1343 / 130)"
    using a0 r(1) b(2) s(1,2) by linarith
  have le: "1287 / 20 - 267 / 20 * b + ?a + 177 * wr + 237 * rd + (if hot then 2 else 1) * (1343 / 130) \<le> 604"
    by (rule power_sum[OF a r(2) b(1) s(3) s(1)])
  show "61 / 1000 \<le> computeBankPower b 0.3 h wr rd hot 1.5" "computeBankPower b 0.3 h wr rd hot 1.5 \<le> 151 / 250"
    unfolding bank_power_eq bg by (rule milliwatts[OF ge le])+
qed

lemma u32_div_le_one:
  fixes x y :: u32
  assumes "unat x \<le> unat y"
  shows "real (unat (x div y)) \<le> 1"
proof -
  have "unat x div unat y \<le> 1"
  proof (cases "unat y = 0")
    case False
    have "unat x div unat y \<le> unat y div unat y" using assms by (rule div_le_mono)
    then show ?thesis using False by simp
  qed simp
  then have "unat (x div y) \<le> 1" by (simp only: unat_div)
  then show ?thesis by (simp only: of_nat_le_1_iff)
qed

text \<open>An interval whose counters do not wrap.\<close>

definition interval_ok :: "'t stat_entry \<Rightarrow> bool" where
  "interval_ok e \<longleftrightarrow> unat (st_row_hits e) + unat (st_row_misses e) + unat (st_row_conflicts e) < 2 ^ 32 \<and>
     unat (st_reads e) + unat (st_writes e) < 2 ^ 32"

lemma u32_add_nat: "unat (x :: u32) + unat y < 2 ^ 32 \<Longrightarrow> unat (x + y) = unat x + unat y"
  by (simp add: unat_word_ariths)

lemma share:
  fixes x y :: u32 and q :: real
  assumes "unat x + unat y < 2 ^ 32" "0 \<le> q" "x + y > 0"
  shows "real (unat x) / real (unat (x + y)) * q + real (unat y) / real (unat (x + y)) * q = q"
proof -
  have "unat (x + y) = unat x + unat y" "unat (x + y) \<noteq> 0" using u32_add_nat[OF assms(1)] assms(3) by (auto simp: word_gt_0 unat_eq_0)
  then have "real (unat x) + real (unat y) = real (unat (x + y))" "real (unat (x + y)) \<noteq> 0"
    by (simp_all only: of_nat_add of_nat_eq_0_iff not_False_eq_True)
  then have "real (unat x) / real (unat (x + y)) + real (unat y) / real (unat (x + y)) = 1"
    by (metis add_divide_distrib divide_self)
  then show ?thesis by (metis distrib_right mult_1)
qed

lemma share_pos:
  fixes r :: real and n m :: nat
  assumes "0 \<le> r"
  shows "0 \<le> (if c then real n / real m * r else 0)"
  using assms by simp

lemma idle_share:
  fixes q :: real
  assumes "0 \<le> q"
  shows "0 \<le> (if c then (let b = 1 - q in if b < 0 then 0 else b) else 0)" "(if c then (let b = 1 - q in if b < 0 then 0 else b) else 0) \<le> 1"
  using assms by (simp_all add: Let_def)

lemma interval_power_bounds:
  assumes "interval_ok e"
  shows "61 / 1000 \<le> interval_power getNS t e" "interval_power getNS t e \<le> 151 / 250"
proof -
  define b where "b = (if getNS t \<noteq> 0 then (let b = 1 - real (unat (getNS (st_tACT e))) / real (unat (getNS t)) in if b < 0 then 0 else b) else 0)"
  have b: "0 \<le> b" "b \<le> 1" unfolding b_def by (rule idle_share, rule divide_nonneg_nonneg; rule of_nat_0_le_iff)+
  let ?n = "st_row_hits e + st_row_misses e + st_row_conflicts e" and ?m = "st_reads e + st_writes e"
  define h where "h = (if ?n > 0 then real (unat (st_row_hits e div ?n)) else 0)"
  have "unat ?n = unat (st_row_hits e) + unat (st_row_misses e) + unat (st_row_conflicts e)"
    using assms by (simp add: interval_ok_def unat_word_ariths)
  then have "real (unat (st_row_hits e div ?n)) \<le> 1" by (intro u32_div_le_one) simp
  then have h: "0 \<le> h" "h \<le> 1" unfolding h_def by (cases "?n > 0"; simp only: if_True if_False of_nat_0_le_iff; simp)+
  define wr where "wr = (if ?m > 0 then real (unat (st_writes e)) / real (unat ?m) * (1 - b) else 0)"
  define rd where "rd = (if ?m > 0 then real (unat (st_reads e)) / real (unat ?m) * (1 - b) else 0)"
  have s: "0 \<le> wr" "0 \<le> rd" using b unfolding wr_def rd_def by (intro share_pos; simp)+
  have "wr + rd \<le> 1 - b"
  proof (cases "?m > 0")
    case True
    then show ?thesis
      using share[of "st_reads e" "st_writes e" "1 - b"] assms b by (simp add: wr_def rd_def interval_ok_def)
  qed (use b in \<open>simp add: wr_def rd_def\<close>)
  note B = bank_power_bounds[OF b h s this]
  have "interval_power getNS t e = computeBankPower b 0.3 h wr rd (st_hot e) 1.5"
    unfolding interval_power_def Let_def b_def h_def wr_def rd_def ..
  then show "61 / 1000 \<le> interval_power getNS t e" "interval_power getNS t e \<le> 151 / 250" using B by simp_all
qed

subsection \<open>The update returns\<close>

definition grid :: "nat \<Rightarrow> nat \<Rightarrow> 'a list list \<Rightarrow> bool" where
  "grid n m xss \<longleftrightarrow> length xss = n \<and> (\<forall>xs\<in>set xss. length xs = m)"

lemma grid_nth: "grid n m xss \<Longrightarrow> i < n \<Longrightarrow> length (xss ! i) = m"
  by (simp add: grid_def)

lemma grid_update: "grid n m xss \<Longrightarrow> length xs = m \<Longrightarrow> grid n m (xss[i := xs])"
  using set_update_subset_insert[of xss i xs] by (auto simp: grid_def)

definition pw_ok :: "'t power_state \<Rightarrow> bool" where
  "pw_ok s \<longleftrightarrow> length (pw_cores s) = 4 \<and> length (pw_prev_cores s) = 4 \<and> length (pw_vault_reads s) = 32 \<and> length (pw_vault_writes s) = 32 \<and>
     length (pw_vault_row_hits s) = 32 \<and> length (pw_vault_access s) = 32 \<and> grid 32 8 (pw_bank_stats s) \<and>
     grid 32 8 (pw_bank_interval s) \<and> grid 32 8 (pw_bank_power s) \<and> length (pw_vault_power s) = 32"

definition core_metrics :: "string list" where
  "core_metrics = [''exe'', ''ifetch'', ''lsu'', ''mmu'', ''l2'', ''ru'', ''ialu'', ''fpalu'', ''inssch'', ''l1i'', ''insdec'', ''btb'', ''l1d'']"

definition power_metrics :: "(string \<times> u32) list" where
  "power_metrics = [(''peak_processor'', 0), (''processor'', 0), (''mc'', 0)] @
     List.product core_metrics [0, 1, 2, 3]"

definition metrics_ok :: "metrics \<Rightarrow> bool" where
  "metrics_ok metric \<longleftrightarrow> (\<forall>(n, i)\<in>set power_metrics. metric n i ''power-dynamic'' \<noteq> None)"

text \<open>What the state holds for a bank, and what an update makes of it: the counters of the bank, their
  difference to the last record, and the power of this difference.\<close>

definition bank_power_entry :: "'t power_state \<Rightarrow> nat \<Rightarrow> nat \<Rightarrow> 't stat_entry \<times> 't stat_entry \<times> real" where
  "bank_power_entry s i j = (pw_bank_stats s ! i ! j, pw_bank_interval s ! i ! j, pw_bank_power s ! i ! j)"

definition bank_result :: "('t::{comm_monoid_add, minus} \<Rightarrow> u64) \<Rightarrow> 't \<Rightarrow> 't stat_entry \<Rightarrow> 't stat_entry \<Rightarrow> 't stat_entry \<times> 't stat_entry \<times> real" where
  "bank_result getNS t now old = (now, interval_stats now old, interval_power getNS t (interval_stats now old))"

text \<open>The values of the state that an update of a bank keeps.\<close>

definition vault_entries :: "'t power_state \<Rightarrow> real \<times> u32 list \<times> u64 list \<times> u64 list" where
  "vault_entries s = (pw_mc s, pw_vault_access s, pw_vault_reads s, pw_vault_writes s)"

lemma update_bank_power_runs:
  assumes ok: "pw_ok s" and i: "unat i < 32" and j: "unat j < 8" "unat j < length (vp_banks vault)"
  shows "runs (update_bank_power getNS t vault i j s) (\<lambda>s'. pw_ok s' \<and> vault_entries s' = vault_entries s \<and>
     (\<forall>k l. bank_power_entry s' k l = (if k = unat i \<and> l = unat j
        then bank_result getNS t (bp_stats (vp_banks vault ! l)) (pw_bank_stats s ! k ! l) else bank_power_entry s k l)))"
proof -
  have L: "unat i < length (pw_bank_stats s)" "unat i < length (pw_bank_interval s)" "unat i < length (pw_bank_power s)"
    "unat j < length (pw_bank_stats s ! unat i)" "unat j < length (pw_bank_interval s ! unat i)" "unat j < length (pw_bank_power s ! unat i)"
    using ok i j(1) grid_nth[of 32 8] by (auto simp: pw_ok_def grid_def)
  have G: "grid 32 8 (pw_bank_stats s)" "grid 32 8 (pw_bank_interval s)" "grid 32 8 (pw_bank_power s)"
    using ok by (simp_all add: pw_ok_def)
  show ?thesis
    using L j(2) ok grid_update[OF G(1)] grid_update[OF G(2)] grid_update[OF G(3)] grid_nth[OF G(1)] grid_nth[OF G(2)] grid_nth[OF G(3)] i
    by (auto simp: update_bank_power_def updateBankStat_def fetch_in store_in Let_def bank_power_entry_def bank_result_def vault_entries_def
        pw_ok_def nth_list_update)
qed

lemma update_banks_runs:
  assumes ok: "pw_ok s" and i: "unat i < 32" and n: "unat n \<le> 8" "unat n = length (vp_banks vault)"
  shows "runs (foldM (update_bank_power getNS t vault i) (u32_range 0 n) s) (\<lambda>s'. pw_ok s' \<and> vault_entries s' = vault_entries s \<and>
     (\<forall>k l. bank_power_entry s' k l = (if k = unat i \<and> l < unat n
        then bank_result getNS t (bp_stats (vp_banks vault ! l)) (pw_bank_stats s ! k ! l) else bank_power_entry s k l)))"
proof (rule foldM_u32_range_runs)
  fix j :: u32 and s' assume j: "unat j < unat n"
    and I: "pw_ok s' \<and> vault_entries s' = vault_entries s \<and> (\<forall>k l. bank_power_entry s' k l = (if k = unat i \<and> l < unat j
        then bank_result getNS t (bp_stats (vp_banks vault ! l)) (pw_bank_stats s ! k ! l) else bank_power_entry s k l))"
  have lt: "unat j < 8" "unat j < length (vp_banks vault)" using j n by simp_all
  have old: "pw_bank_stats s' ! unat i ! unat j = pw_bank_stats s ! unat i ! unat j"
  proof -
    have "bank_power_entry s' (unat i) (unat j) = bank_power_entry s (unat i) (unat j)" using I by simp
    then show ?thesis by (simp add: bank_power_entry_def)
  qed
  from update_bank_power_runs[OF conjunct1[OF I] i lt, of getNS t]
  show "runs (update_bank_power getNS t vault i j s') (\<lambda>s'. pw_ok s' \<and> vault_entries s' = vault_entries s \<and>
     (\<forall>k l. bank_power_entry s' k l = (if k = unat i \<and> l < Suc (unat j)
        then bank_result getNS t (bp_stats (vp_banks vault ! l)) (pw_bank_stats s ! k ! l) else bank_power_entry s k l)))"
    by (rule runs_mono) (use I old in \<open>auto simp: less_Suc_eq\<close>)
qed (use ok in simp_all)

subsection \<open>The power of the vault controllers\<close>

definition vsum :: "u32 list \<Rightarrow> u32 list \<Rightarrow> nat \<Rightarrow> u32" where
  "vsum r w k = sum_list (map (\<lambda>i. r ! i + w ! i) [0..<k])"

text \<open>The accesses of a vault since the last record.\<close>

definition new_reads :: "('t, 'd) unison_perf \<Rightarrow> 't power_state \<Rightarrow> nat \<Rightarrow> u32" where
  "new_reads u s i = ucast (ucast (st_reads (vp_stats (up_vaults u ! i))) - pw_vault_reads s ! i)"

definition new_writes :: "('t, 'd) unison_perf \<Rightarrow> 't power_state \<Rightarrow> nat \<Rightarrow> u32" where
  "new_writes u s i = ucast (ucast (st_writes (vp_stats (up_vaults u ! i))) - pw_vault_writes s ! i)"

definition vaults_done :: "('t::{comm_monoid_add, minus} \<Rightarrow> u64) \<Rightarrow> 't \<Rightarrow> ('t, 'd) unison_perf \<Rightarrow> 't power_state \<Rightarrow> nat \<Rightarrow>
    u32 list \<times> u32 list \<times> u32 \<times> 't power_state \<Rightarrow> bool" where
  "vaults_done getNS t u s0 k = (\<lambda>(r, w, tot, s). pw_ok s \<and> length r = 32 \<and> length w = 32 \<and>
     (\<forall>i<k. r ! i = new_reads u s0 i \<and> w ! i = new_writes u s0 i \<and> pw_vault_access s ! i = r ! i + w ! i) \<and> tot = vsum r w k \<and>
     (\<forall>i\<ge>k. pw_vault_reads s ! i = pw_vault_reads s0 ! i \<and> pw_vault_writes s ! i = pw_vault_writes s0 ! i) \<and>
     (\<forall>i j. bank_power_entry s i j = (if i < k \<and> j < 8
        then bank_result getNS t (bp_stats (vp_banks (up_vaults u ! i) ! j)) (pw_bank_stats s0 ! i ! j) else bank_power_entry s0 i j)) \<and>
     pw_mc s = pw_mc s0)"

lemma vsum_cong: "(\<And>i. i < k \<Longrightarrow> r ! i + w ! i = r' ! i + w' ! i) \<Longrightarrow> vsum r w k = vsum r' w' k"
  unfolding vsum_def by (rule arg_cong[where f = sum_list], rule map_cong) auto

lemma update_vault_power_runs:
  assumes u: "up_ok cfg u" "up_n_vaults u = 32" "up_n_banks u = 8" and i: "unat i < 32" and I: "vaults_done getNS t u s0 (unat i) st"
  shows "runs (update_vault_power getNS t u i st) (vaults_done getNS t u s0 (Suc (unat i)))"
proof -
  obtain r w tot s where st: "st = (r, w, tot, s)" by (cases st)
  have J: "pw_ok s" "length r = 32" "length w = 32" "tot = vsum r w (unat i)" "pw_mc s = pw_mc s0"
    "\<And>k. k < unat i \<Longrightarrow> r ! k = new_reads u s0 k \<and> w ! k = new_writes u s0 k \<and> pw_vault_access s ! k = r ! k + w ! k"
    "\<And>k. unat i \<le> k \<Longrightarrow> pw_vault_reads s ! k = pw_vault_reads s0 ! k \<and> pw_vault_writes s ! k = pw_vault_writes s0 ! k"
    "\<And>k j. bank_power_entry s k j = (if k < unat i \<and> j < 8
        then bank_result getNS t (bp_stats (vp_banks (up_vaults u ! k) ! j)) (pw_bank_stats s0 ! k ! j) else bank_power_entry s0 k j)"
    using I by (simp_all add: vaults_done_def st)
  have len: "unat i < length (up_vaults u)" using u i by (simp add: up_ok_def)
  let ?v = "up_vaults u ! unat i"
  note vl = up_ok_vault[OF u(1) len, unfolded u(3)]
  let ?st = "vp_stats ?v" and ?R = "new_reads u s0 (unat i)" and ?W = "new_writes u s0 (unat i)"
  define s1 where "s1 = s\<lparr>pw_vault_reads := (pw_vault_reads s)[unat i := ucast (st_reads ?st)],
     pw_vault_writes := (pw_vault_writes s)[unat i := ucast (st_writes ?st)],
     pw_vault_row_hits := (pw_vault_row_hits s)[unat i := ucast (st_row_hits ?st)]\<rparr>"
  have s1: "pw_ok s1" "pw_mc s1 = pw_mc s" "pw_vault_access s1 = pw_vault_access s" "\<And>k j. bank_power_entry s1 k j = bank_power_entry s k j"
    "\<And>k. Suc (unat i) \<le> k \<Longrightarrow> pw_vault_reads s1 ! k = pw_vault_reads s0 ! k \<and> pw_vault_writes s1 ! k = pw_vault_writes s0 ! k"
    using J(1,7) by (simp_all add: s1_def pw_ok_def bank_power_entry_def)
  have old: "pw_bank_stats s1 ! unat i ! l = pw_bank_stats s0 ! unat i ! l" for l
    using J(8)[of "unat i" l] s1(4)[of "unat i" l] by (simp add: bank_power_entry_def)
  have step: "update_vault_power getNS t u i st = foldM (update_bank_power getNS t ?v i) (u32_range 0 8) s1 \<bind>
      (\<lambda>s. store (pw_vault_access s) i (?R + ?W) \<bind> (\<lambda>as. Some (r[unat i := ?R], w[unat i := ?W], tot + (?R + ?W), s\<lparr>pw_vault_access := as\<rparr>)))"
    using len J(1-3) J(7)[of "unat i"] i vl(1)
    by (simp add: update_vault_power_def st fetch_in store_in Let_def pw_ok_def new_reads_def new_writes_def s1_def)
  have banks: "unat (8 :: u32) \<le> 8" "unat (8 :: u32) = length (vp_banks ?v)" using vl(2) by simp_all
  have sum: "vsum (r[unat i := ?R]) (w[unat i := ?W]) (Suc (unat i)) = tot + (?R + ?W)"
  proof -
    have "vsum (r[unat i := ?R]) (w[unat i := ?W]) (unat i) = vsum r w (unat i)" by (rule vsum_cong) simp
    then show ?thesis using i J(2,3,4) by (simp add: vsum_def)
  qed
  show ?thesis
    unfolding step runs_bind
  proof (rule runs_mono[OF update_banks_runs[OF s1(1) i banks, of getNS t]])
    fix s2 assume s2: "pw_ok s2 \<and> vault_entries s2 = vault_entries s1 \<and>
       (\<forall>k l. bank_power_entry s2 k l = (if k = unat i \<and> l < unat (8 :: u32)
         then bank_result getNS t (bp_stats (vp_banks ?v ! l)) (pw_bank_stats s1 ! k ! l) else bank_power_entry s1 k l))"
    have ok2: "pw_ok s2" and v2: "pw_mc s2 = pw_mc s1" "pw_vault_access s2 = pw_vault_access s1" "pw_vault_reads s2 = pw_vault_reads s1"
      "pw_vault_writes s2 = pw_vault_writes s1" using s2 by (simp_all add: vault_entries_def)
    have e2: "bank_power_entry s2 k l = (if k = unat i \<and> l < 8
         then bank_result getNS t (bp_stats (vp_banks ?v ! l)) (pw_bank_stats s1 ! k ! l) else bank_power_entry s1 k l)" for k l
      using s2 by simp
    have l2: "unat i < length (pw_vault_access s2)" using ok2 i by (simp add: pw_ok_def)
    let ?s = "s2\<lparr>pw_vault_access := (pw_vault_access s2)[unat i := ?R + ?W]\<rparr>"
    have "pw_ok ?s" using ok2 by (simp add: pw_ok_def)
    moreover have "bank_power_entry ?s k j = (if k < Suc (unat i) \<and> j < 8
        then bank_result getNS t (bp_stats (vp_banks (up_vaults u ! k) ! j)) (pw_bank_stats s0 ! k ! j) else bank_power_entry s0 k j)" for k j
    proof -
      have "bank_power_entry ?s k j = bank_power_entry s2 k j" by (simp add: bank_power_entry_def)
      then show ?thesis
        using e2[of k j] J(8)[of k j] s1(4)[of k j] old[of j] by (cases "k = unat i") (auto simp: less_Suc_eq)
    qed
    moreover have "r[unat i := ?R] ! k = new_reads u s0 k \<and> w[unat i := ?W] ! k = new_writes u s0 k \<and>
        pw_vault_access ?s ! k = r[unat i := ?R] ! k + w[unat i := ?W] ! k" if "k < Suc (unat i)" for k
      using that J(2,3) J(6)[of k] i l2 v2 s1(3) by (auto simp: less_Suc_eq nth_list_update)
    ultimately have "vaults_done getNS t u s0 (Suc (unat i)) (r[unat i := ?R], w[unat i := ?W], tot + (?R + ?W), ?s)"
      using J(2,3,5) v2 s1(2,5) sum by (simp add: vaults_done_def)
    then show "runs (store (pw_vault_access s2) i (?R + ?W)) (\<lambda>as. runs (Some (r[unat i := ?R], w[unat i := ?W], tot + (?R + ?W), s2\<lparr>pw_vault_access := as\<rparr>))
        (vaults_done getNS t u s0 (Suc (unat i))))"
      using l2 by (simp add: store_in)
  qed
qed

definition cntlr_share :: "real \<Rightarrow> u32 \<Rightarrow> u32 \<Rightarrow> real" where
  "cntlr_share mc x tot = mc * (if tot \<noteq> 0 then min 1 (real (unat x) / real (unat tot)) else 0)"

lemma cntlr_power_eq: "computeDramCntlrPower getFS mc r w t tot = cntlr_share mc (r + w) tot"
  by (simp add: computeDramCntlrPower_def Let_def cntlr_share_def min_def)

lemma set_vault_power_runs:
  assumes "pw_ok s" "length r = 32" "length w = 32" "unat n \<le> 32"
  shows "runs (foldM (set_vault_power getFS t r w tot) (u32_range 0 n) s) (\<lambda>s'. pw_ok s' \<and>
     (\<exists>vp. s' = s\<lparr>pw_vault_power := vp\<rparr> \<and> length vp = 32 \<and> (\<forall>i<unat n. vp ! i = cntlr_share (pw_mc s) (r ! i + w ! i) tot)))"
proof (rule foldM_u32_range_runs[where I = "\<lambda>k s'. pw_ok s' \<and>
     (\<exists>vp. s' = s\<lparr>pw_vault_power := vp\<rparr> \<and> length vp = 32 \<and> (\<forall>i<k. vp ! i = cntlr_share (pw_mc s) (r ! i + w ! i) tot))"])
  show "pw_ok s \<and> (\<exists>vp. s = s\<lparr>pw_vault_power := vp\<rparr> \<and> length vp = 32 \<and> (\<forall>i<0. vp ! i = cntlr_share (pw_mc s) (r ! i + w ! i) tot))"
    using assms(1) by (intro conjI exI[of _ "pw_vault_power s"]) (simp_all add: pw_ok_def)
  fix i :: u32 and s' assume i: "unat i < unat n" and I: "pw_ok s' \<and>
     (\<exists>vp. s' = s\<lparr>pw_vault_power := vp\<rparr> \<and> length vp = 32 \<and> (\<forall>k<unat i. vp ! k = cntlr_share (pw_mc s) (r ! k + w ! k) tot))"
  then obtain vp where vp: "s' = s\<lparr>pw_vault_power := vp\<rparr>" "length vp = 32" "\<forall>k<unat i. vp ! k = cntlr_share (pw_mc s) (r ! k + w ! k) tot" by blast
  let ?vp = "vp[unat i := cntlr_share (pw_mc s) (r ! unat i + w ! unat i) tot]"
  have step: "set_vault_power getFS t r w tot i s' = Some (s\<lparr>pw_vault_power := ?vp\<rparr>)"
    using i assms(2-4) vp by (simp add: set_vault_power_def fetch_in store_in cntlr_power_eq)
  have pok: "pw_ok (s\<lparr>pw_vault_power := ?vp\<rparr>)" using assms(1) vp(2) by (simp add: pw_ok_def)
  have nths: "\<forall>k<Suc (unat i). ?vp ! k = cntlr_share (pw_mc s) (r ! k + w ! k) tot"
    using vp(2,3) i assms(4) by (auto simp: less_Suc_eq nth_list_update)
  have ln: "length ?vp = 32" using vp(2) by simp
  show "runs (set_vault_power getFS t r w tot i s') (\<lambda>s'. pw_ok s' \<and>
     (\<exists>vp. s' = s\<lparr>pw_vault_power := vp\<rparr> \<and> length vp = 32 \<and> (\<forall>k<Suc (unat i). vp ! k = cntlr_share (pw_mc s) (r ! k + w ! k) tot)))"
    by (rule runsI[OF step]) (intro conjI exI[of _ ?vp] pok ln nths refl)
qed

lemma metrics_okD: "metrics_ok metric \<Longrightarrow> (n, i) \<in> set power_metrics \<Longrightarrow> \<exists>x. metric n i ''power-dynamic'' = Some x"
  by (auto simp: metrics_ok_def)

lemma read_core_runs:
  assumes m: "metrics_ok metric" and i: "i \<in> {0, 1, 2, 3}" and c: "length cs = 4"
  shows "runs (read_core metric p i cs) (\<lambda>cs. length cs = 4)"
proof -
  have "\<exists>x. metric n i ''power-dynamic'' = Some x" if "n \<in> set core_metrics" for n
    by (rule metrics_okD[OF m]) (use that i in \<open>auto simp: power_metrics_def\<close>)
  note z = this
  have x: "\<exists>x. metric ''exe'' i ''power-dynamic'' = Some x" "\<exists>x. metric ''ifetch'' i ''power-dynamic'' = Some x"
    "\<exists>x. metric ''lsu'' i ''power-dynamic'' = Some x" "\<exists>x. metric ''mmu'' i ''power-dynamic'' = Some x"
    "\<exists>x. metric ''l2'' i ''power-dynamic'' = Some x" "\<exists>x. metric ''ru'' i ''power-dynamic'' = Some x"
    "\<exists>x. metric ''ialu'' i ''power-dynamic'' = Some x" "\<exists>x. metric ''fpalu'' i ''power-dynamic'' = Some x"
    "\<exists>x. metric ''inssch'' i ''power-dynamic'' = Some x" "\<exists>x. metric ''l1i'' i ''power-dynamic'' = Some x"
    "\<exists>x. metric ''insdec'' i ''power-dynamic'' = Some x" "\<exists>x. metric ''btb'' i ''power-dynamic'' = Some x"
    "\<exists>x. metric ''l1d'' i ''power-dynamic'' = Some x"
    by (rule z, simp add: core_metrics_def)+
  have "unat i < 4" using i by auto
  then show ?thesis using x c by (auto simp: read_core_def read_core_power_def store_in)
qed

lemma read_cores_runs:
  assumes "metrics_ok metric" "length cs = 4"
  shows "runs (foldM (read_core metric p) (u32_range 0 4) cs) (\<lambda>cs. length cs = 4)"
proof (rule foldM_runs[where I = "\<lambda>cs. length cs = 4", OF assms(2)])
  fix i cs assume "i \<in> set (u32_range 0 4)" "length (cs :: core_power list) = 4"
  moreover have "set (u32_range 0 4) = {0, 1, 2, 3}" by (simp add: u32_range_def upt_rec)
  ultimately show "runs (read_core metric p i cs) (\<lambda>cs. length cs = 4)" by (intro read_core_runs[OF assms(1)]) simp_all
qed

text \<open>The factor that scales the power values of the metrics.\<close>

definition power_factor :: "int \<Rightarrow> u64 \<Rightarrow> u64 \<Rightarrow> real" where
  "power_factor scale peak dyn =
     (if scale = -1 then (if micro dyn \<noteq> 0 then micro peak / micro dyn else 1) else max 1 (real_of_int scale / 10))"

text \<open>The state after an update.\<close>

definition power_updated :: "('t::{comm_monoid_add, minus} \<Rightarrow> u64) \<Rightarrow> 't \<Rightarrow> ('t, 'd) unison_perf \<Rightarrow> 't power_state \<Rightarrow> 't power_state \<Rightarrow> bool" where
  "power_updated getNS t u s s' \<longleftrightarrow>
     (\<forall>i<32. \<forall>j<8. bank_power_entry s' i j = bank_result getNS t (bp_stats (vp_banks (up_vaults u ! i) ! j)) (pw_bank_stats s ! i ! j)) \<and>
     (\<forall>i<32. pw_vault_access s' ! i = new_reads u s i + new_writes u s i \<and>
        pw_vault_power s' ! i = cntlr_share (pw_mc s') (pw_vault_access s' ! i) (sum_list (pw_vault_access s')))"

lemma updatePower_runs:
  assumes u: "up_ok cfg u" "up_n_vaults u = 32" "up_n_banks u = 8" and s: "pw_ok s" and m: "metrics_ok metric"
  shows "runs (updatePower getFS getNS metric ps t u s) (\<lambda>s'. pw_ok s' \<and> power_updated getNS t u s s' \<and>
     (\<exists>peak dyn mc. metric ''peak_processor'' 0 ''power-dynamic'' = Some peak \<and> metric ''processor'' 0 ''power-dynamic'' = Some dyn \<and>
        metric ''mc'' 0 ''power-dynamic'' = Some mc \<and> pw_mc s' = power_factor ps peak dyn * micro mc))"
proof -
  have n: "(''peak_processor'', 0) \<in> set power_metrics" "(''processor'', 0) \<in> set power_metrics" "(''mc'', 0) \<in> set power_metrics"
    by (simp_all add: power_metrics_def)
  obtain peak dyn mc where v: "metric ''peak_processor'' 0 ''power-dynamic'' = Some peak" "metric ''processor'' 0 ''power-dynamic'' = Some dyn"
    "metric ''mc'' 0 ''power-dynamic'' = Some mc"
    using metrics_okD[OF m n(1)] metrics_okD[OF m n(2)] metrics_okD[OF m n(3)] by blast
  have cores: "length (pw_cores s) = 4" using s by (simp add: pw_ok_def)
  have rest: "runs (do {
       (v_r, v_w, tot_access, s) \<leftarrow> foldM (update_vault_power getNS t u) (u32_range 0 (up_n_vaults u)) (replicate 32 0, replicate 32 0, 0, s1);
       foldM (set_vault_power getFS t v_r v_w tot_access) (u32_range 0 (up_n_vaults u)) s })
     (\<lambda>s'. pw_ok s' \<and> power_updated getNS t u s1 s' \<and> pw_mc s' = pw_mc s1)"
    if ok1: "pw_ok s1" for s1
  proof -
    have "runs (foldM (update_vault_power getNS t u) (u32_range 0 32) (replicate 32 0, replicate 32 0, 0, s1)) (vaults_done getNS t u s1 (unat (32 :: u32)))"
    proof (rule foldM_u32_range_runs)
      show "vaults_done getNS t u s1 0 (replicate 32 0, replicate 32 0, 0, s1)" using ok1 by (simp add: vaults_done_def vsum_def)
      fix i :: u32 and st assume "unat i < unat (32 :: u32)" "vaults_done getNS t u s1 (unat i) st"
      then show "runs (update_vault_power getNS t u i st) (vaults_done getNS t u s1 (Suc (unat i)))"
        by (intro update_vault_power_runs[OF u]) simp_all
    qed
    then obtain r w tot s2 where l: "foldM (update_vault_power getNS t u) (u32_range 0 32) (replicate 32 0, replicate 32 0, 0, s1) = Some (r, w, tot, s2)"
      "vaults_done getNS t u s1 32 (r, w, tot, s2)" by (auto simp: runs_iff)
    then have V: "pw_ok s2" "length r = 32" "length w = 32" "tot = vsum r w 32" "pw_mc s2 = pw_mc s1"
      "\<forall>i<32. r ! i = new_reads u s1 i \<and> w ! i = new_writes u s1 i \<and> pw_vault_access s2 ! i = r ! i + w ! i"
      "\<forall>i<32. \<forall>j<8. bank_power_entry s2 i j = bank_result getNS t (bp_stats (vp_banks (up_vaults u ! i) ! j)) (pw_bank_stats s1 ! i ! j)"
      by (simp_all add: vaults_done_def)
    have la: "length (pw_vault_access s2) = 32" using V(1) by (simp add: pw_ok_def)
    have "pw_vault_access s2 = map (\<lambda>i. r ! i + w ! i) [0..<32]" using V(6) la by (simp add: list_eq_iff_nth_eq)
    then have tot: "tot = sum_list (pw_vault_access s2)" using V(4) by (simp add: vsum_def)
    have b: "unat (32 :: u32) \<le> 32" by simp
    have "runs (foldM (set_vault_power getFS t r w tot) (u32_range 0 32) s2) (\<lambda>s'. pw_ok s' \<and> power_updated getNS t u s1 s' \<and> pw_mc s' = pw_mc s1)"
      by (rule runs_mono[OF set_vault_power_runs[OF V(1-3) b]])
         (use V(5-7) tot in \<open>auto simp: power_updated_def bank_power_entry_def\<close>)
    then show ?thesis unfolding u(2) l(1) by simp
  qed
  have upd: "power_updated getNS t u s s'"
    if "power_updated getNS t u s1 s'" "pw_bank_stats s1 = pw_bank_stats s" "pw_vault_reads s1 = pw_vault_reads s" "pw_vault_writes s1 = pw_vault_writes s" for s1 s'
    using that by (simp add: power_updated_def new_reads_def new_writes_def)
  have fin: "runs (do {
       (v_r, v_w, tot_access, s) \<leftarrow> foldM (update_vault_power getNS t u) (u32_range 0 (up_n_vaults u)) (replicate 32 0, replicate 32 0, 0, s1);
       foldM (set_vault_power getFS t v_r v_w tot_access) (u32_range 0 (up_n_vaults u)) s })
     (\<lambda>s'. pw_ok s' \<and> power_updated getNS t u s s' \<and> (\<exists>peak' dyn' mc'. Some peak = Some peak' \<and> Some dyn = Some dyn' \<and>
        Some mc = Some mc' \<and> pw_mc s' = power_factor ps peak' dyn' * micro mc'))"
    if "pw_ok s1" "pw_bank_stats s1 = pw_bank_stats s" "pw_vault_reads s1 = pw_vault_reads s" "pw_vault_writes s1 = pw_vault_writes s"
      "pw_mc s1 = power_factor ps peak dyn * micro mc" for s1
    by (rule runs_mono[OF rest[OF that(1)]]) (use upd[OF _ that(2-4)] that(5) in auto)
  show ?thesis
    unfolding updatePower_def Let_def v Option.bind.bind_lunit runs_bind
    by (rule runs_mono[OF read_cores_runs[OF m]], use cores in simp)
      (rule fin[unfolded runs_bind], use s in \<open>simp_all add: pw_ok_def power_factor_def max_def\<close>)
qed

subsection \<open>Properties\<close>

lemma unat_sum_list:
  fixes xs :: "u32 list"
  shows "sum_list (map unat xs) < 2 ^ 32 \<Longrightarrow> unat (sum_list xs) = sum_list (map unat xs)"
  by (induction xs) (simp_all add: u32_add_nat)

lemma shares_add_up:
  fixes xs :: "u32 list"
  assumes "sum_list (map unat xs) < 2 ^ 32"
  shows "sum_list (map (\<lambda>x. cntlr_share mc x (sum_list xs)) xs) = (if sum_list xs = 0 then 0 else mc)"
proof (cases "sum_list xs = 0")
  case True
  then show ?thesis by (simp add: cntlr_share_def)
next
  case False
  let ?t = "real (unat (sum_list xs))"
  have t: "?t = (\<Sum>x\<leftarrow>xs. real (unat x))" using unat_sum_list[OF assms] by (simp add: sum_list_of_nat[symmetric] comp_def)
  have t0: "?t \<noteq> 0" using False by (simp only: of_nat_eq_0_iff unat_eq_0 not_False_eq_True)
  have "cntlr_share mc x (sum_list xs) = mc / ?t * real (unat x)" if "x \<in> set xs" for x
  proof -
    have "unat x \<le> sum_list (map unat xs)" using that by (intro member_le_sum_list) simp_all
    then have "unat x \<le> unat (sum_list xs)" using unat_sum_list[OF assms] by simp
    then have "real (unat x) \<le> ?t" by (rule of_nat_mono)
    moreover have "0 < ?t" using False by (intro of_nat_0_less_iff[THEN iffD2]) (simp add: unat_gt_0)
    ultimately have "real (unat x) / ?t \<le> 1" by (intro divide_le_eq_1_pos[THEN iffD2])
    then show ?thesis using False by (simp add: cntlr_share_def)
  qed
  then have "sum_list (map (\<lambda>x. cntlr_share mc x (sum_list xs)) xs) = (\<Sum>x\<leftarrow>xs. mc / ?t * real (unat x))"
    by (intro arg_cong[where f = sum_list] map_cong) simp_all
  also have "\<dots> = mc / ?t * ?t" unfolding t by (rule sum_list_const_mult)
  also have "\<dots> = mc" by (simp only: times_divide_eq_left nonzero_mult_div_cancel_right[OF t0])
  finally show ?thesis using False by simp
qed

text \<open>C20: The power update of the stacked DRAM. With the power metrics registered, 32 vaults of 8 banks and arrays of
  these sizes, the power update returns. Every bank gets the power of its own interval: the formula over the
  difference of its counters to those of the last record, which are replaced by the current ones; when the
  counters of the interval do not wrap this is between 61 and 604 mW, whatever the activity, idle times and temperature are.
  Every vault controller gets the share of the memory controller's (scaled) power that its own new accesses have in all
  new accesses, and these shares add up to the power of the memory controller, or to nothing when there
  was no access, unless the access counter wraps.\<close>

theorem power_budget:
  assumes "up_ok cfg u" and "up_n_vaults u = 32" and "up_n_banks u = 8" and "pw_ok s" and "metrics_ok metric"
  shows "\<exists>s' peak dyn mc. updatePower getFS getNS metric scale t u s = Some s' \<and> pw_ok s' \<and>
     (\<forall>i<32. \<forall>j<8. let now = bp_stats (vp_banks (up_vaults u ! i) ! j); e = interval_stats now (pw_bank_stats s ! i ! j) in
        pw_bank_stats s' ! i ! j = now \<and> pw_bank_interval s' ! i ! j = e \<and> pw_bank_power s' ! i ! j = interval_power getNS t e \<and>
        (interval_ok e \<longrightarrow> 61 / 1000 \<le> pw_bank_power s' ! i ! j \<and> pw_bank_power s' ! i ! j \<le> 604 / 1000)) \<and>
     metric ''peak_processor'' 0 ''power-dynamic'' = Some peak \<and> metric ''processor'' 0 ''power-dynamic'' = Some dyn \<and>
     metric ''mc'' 0 ''power-dynamic'' = Some mc \<and> pw_mc s' = power_factor scale peak dyn * micro mc \<and>
     (\<forall>i<32. pw_vault_access s' ! i = new_reads u s i + new_writes u s i \<and>
        pw_vault_power s' ! i = cntlr_share (pw_mc s') (new_reads u s i + new_writes u s i) (sum_list (pw_vault_access s'))) \<and>
     (sum_list (map unat (pw_vault_access s')) < 2 ^ 32 \<longrightarrow>
        sum_list (pw_vault_power s') = (if sum_list (map unat (pw_vault_access s')) = 0 then 0 else pw_mc s'))"
proof -
  obtain s' peak dyn mc where s': "updatePower getFS getNS metric scale t u s = Some s'" "pw_ok s'" "power_updated getNS t u s s'"
    and mc: "metric ''peak_processor'' 0 ''power-dynamic'' = Some peak" "metric ''processor'' 0 ''power-dynamic'' = Some dyn"
      "metric ''mc'' 0 ''power-dynamic'' = Some mc" "pw_mc s' = power_factor scale peak dyn * micro mc"
    using updatePower_runs[OF assms, of getFS getNS scale t] by (auto simp: runs_iff)
  have bank: "let now = bp_stats (vp_banks (up_vaults u ! i) ! j); e = interval_stats now (pw_bank_stats s ! i ! j) in
        pw_bank_stats s' ! i ! j = now \<and> pw_bank_interval s' ! i ! j = e \<and> pw_bank_power s' ! i ! j = interval_power getNS t e \<and>
        (interval_ok e \<longrightarrow> 61 / 1000 \<le> pw_bank_power s' ! i ! j \<and> pw_bank_power s' ! i ! j \<le> 604 / 1000)"
    if "i < 32" "j < 8" for i j
  proof -
    let ?e = "interval_stats (bp_stats (vp_banks (up_vaults u ! i) ! j)) (pw_bank_stats s ! i ! j)"
    have "bank_power_entry s' i j = (bp_stats (vp_banks (up_vaults u ! i) ! j), ?e, interval_power getNS t ?e)"
      using s'(3) that by (simp add: power_updated_def bank_result_def)
    then show ?thesis using interval_power_bounds[of ?e getNS t] by (simp add: bank_power_entry_def Let_def)
  qed
  have vault: "pw_vault_access s' ! i = new_reads u s i + new_writes u s i \<and>
      pw_vault_power s' ! i = cntlr_share (pw_mc s') (new_reads u s i + new_writes u s i) (sum_list (pw_vault_access s'))" if "i < 32" for i
    using s'(3) that by (simp add: power_updated_def)
  have "length (pw_vault_power s') = 32" "length (pw_vault_access s') = 32" using s'(2) by (simp_all add: pw_ok_def)
  then have vp: "pw_vault_power s' = map (\<lambda>x. cntlr_share (pw_mc s') x (sum_list (pw_vault_access s'))) (pw_vault_access s')"
    using vault by (simp add: list_eq_iff_nth_eq)
  have "sum_list (pw_vault_power s') = (if sum_list (map unat (pw_vault_access s')) = 0 then 0 else pw_mc s')"
    if n: "sum_list (map unat (pw_vault_access s')) < 2 ^ 32"
  proof -
    have "sum_list (pw_vault_access s') = 0 \<longleftrightarrow> sum_list (map unat (pw_vault_access s')) = 0"
      unfolding unat_sum_list[OF n, symmetric] by (simp only: unat_eq_0)
    then show ?thesis unfolding vp shares_add_up[OF n] by simp
  qed
  then show ?thesis using s'(1,2) bank mc vault by blast
qed

text \<open>An instance: a controller with 32 vaults of 8 banks, and every metric one watt.\<close>

definition idle_power :: "nat power_state" where
  "idle_power = (let c = \<lparr>cp_exe = 0, cp_ifetch = 0, cp_lsu = 0, cp_mmu = 0, cp_l2 = 0, cp_ru = 0, cp_ialu = 0, cp_fpalu = 0, cp_inssch = 0,
       cp_l1i = 0, cp_insdec = 0, cp_bp = 0, cp_l1d = 0\<rparr> in
     \<lparr>pw_cores = replicate 4 c, pw_prev_cores = replicate 4 c, pw_mc = 0, pw_prev_mc = 0, pw_peak_proc = 0, pw_dyn_proc = 0,
      pw_vault_reads = replicate 32 0, pw_vault_writes = replicate 32 0, pw_vault_row_hits = replicate 32 0,
      pw_vault_access = replicate 32 0, pw_bank_stats = replicate 32 (replicate 8 zero_stats),
      pw_bank_interval = replicate 32 (replicate 8 zero_stats), pw_bank_power = replicate 32 (replicate 8 0),
      pw_vault_power = replicate 32 0, pw_trace_log = []\<rparr>)"

lemma idle_power_ok: "pw_ok idle_power"
  by (simp add: pw_ok_def idle_power_def grid_def Let_def)

lemma full_unison: "\<exists>u :: (nat, unit) unison_perf. StackedDramPerfUnison demo_cfg (0, 0, 0, 0) () 32 (128 * 1024) (16 * 1024) 8 = Some u \<and>
   up_ok demo_cfg u \<and> up_n_vaults u = 32 \<and> up_n_banks u = 8 \<and> up_n_rows u = 2048"
proof -
  have g: "pow2_geometry 32 8 2048"
    unfolding pow2_geometry_def by (rule exI[of _ 5], rule exI[of _ 3], rule exI[of _ 11]) simp
  have "runs (StackedDramPerfUnison demo_cfg (0, 0, 0, 0) () 32 (128 * 1024) (16 * 1024) 8 :: (nat, unit) unison_perf option)
     (\<lambda>u. up_ok demo_cfg u \<and> up_geo u = (32, 128 * 1024 div (16 * 1024), 16 * 1024 div 8) \<and> up_dram_model u = ())"
    by (rule StackedDramPerfUnison_ok) (use g in \<open>simp_all add: demo_cfg_def\<close>)
  then show ?thesis by (auto simp: runs_iff up_geo_def)
qed

theorem power_budget_witness:
  "\<exists>u s'. StackedDramPerfUnison demo_cfg (0, 0, 0, 0) () 32 (128 * 1024) (16 * 1024) 8 = Some (u :: (nat, unit) unison_perf) \<and>
     updatePower of_nat of_nat (\<lambda>_ _ _. Some 1000000) 10 (5 :: nat) u idle_power = Some s' \<and> length (pw_vault_power s') = 32"
proof -
  obtain u :: "(nat, unit) unison_perf" where u: "StackedDramPerfUnison demo_cfg (0, 0, 0, 0) () 32 (128 * 1024) (16 * 1024) 8 = Some u"
    "up_ok demo_cfg u" "up_n_vaults u = 32" "up_n_banks u = 8" using full_unison by blast
  have m: "metrics_ok (\<lambda>_ _ _. Some 1000000)" by (simp add: metrics_ok_def)
  obtain s' where "updatePower of_nat of_nat (\<lambda>_ _ _. Some 1000000) 10 (5 :: nat) u idle_power = Some s'" "pw_ok s'"
    using power_budget[OF u(2-4) idle_power_ok m, of of_nat of_nat 10 5] by blast
  then show ?thesis using u(1) by (auto simp: pw_ok_def)
qed

fun unit_power :: "'t power_state \<Rightarrow> hs_unit \<Rightarrow> real" where
  "unit_power s (CoreUnit c i) = (let p = pw_cores s ! i in case c of IALU \<Rightarrow> cp_ialu p | FPALU \<Rightarrow> cp_fpalu p | INSSCH \<Rightarrow> cp_inssch p
     | L1I \<Rightarrow> cp_l1i p | INSDEC \<Rightarrow> cp_insdec p | BP \<Rightarrow> cp_bp p | RU \<Rightarrow> cp_ru p | L1D \<Rightarrow> cp_l1d p | MMU \<Rightarrow> cp_mmu p | L2 \<Rightarrow> cp_l2 p)"
| "unit_power s (DramCtlr i) = pw_vault_power s ! i"
| "unit_power s (DramUnit i j) = pw_bank_power s ! i ! j"

text \<open>What the forward trace holds for a unit.\<close>

definition trace_value :: "'t power_state \<Rightarrow> hs_unit \<Rightarrow> real" where
  "trace_value s n = (case n of CoreUnit c i \<Rightarrow> (if c = L1I
       then cp_l1i (pw_prev_cores s ! i) + (cp_inssch (pw_cores s ! i) - cp_inssch (pw_prev_cores s ! i)) else unit_power s n)
     | _ \<Rightarrow> unit_power s n)"

lemma four: "length xs = 4 \<Longrightarrow> \<exists>a b c d. xs = [a, b, c, d]"
  by (auto simp: length_Suc_conv eval_nat_numeral)

lemma core_columns:
  assumes "pw_ok s"
  shows "concat (map2 (blend_row 1) (pw_prev_cores s) (pw_cores s)) = map (trace_value s) core_names"
    and "concat (map core_row (pw_cores s)) = map (unit_power s) core_names"
proof -
  obtain a b c d e f g h where "pw_prev_cores s = [a, b, c, d]" "pw_cores s = [e, f, g, h]"
    using four[of "pw_prev_cores s"] four[of "pw_cores s"] assms unfolding pw_ok_def by blast
  then show "concat (map2 (blend_row 1) (pw_prev_cores s) (pw_cores s)) = map (trace_value s) core_names"
    "concat (map core_row (pw_cores s)) = map (unit_power s) core_names"
    by (simp_all add: core_names_def core_units_def blend_row_def core_row_def trace_value_def upt_rec)
qed

lemma dram_columns:
  assumes "pw_ok s"
  shows "pw_vault_power s = map (unit_power s) cntlr_names" "concat (map (bank_row s) [0..<8]) = map (unit_power s) bank_names"
    "map (trace_value s) cntlr_names = map (unit_power s) cntlr_names" "map (trace_value s) bank_names = map (unit_power s) bank_names"
proof -
  have "length (pw_vault_power s) = 32" using assms by (simp add: pw_ok_def)
  then show "pw_vault_power s = map (unit_power s) cntlr_names" by (simp add: cntlr_names_def list_eq_iff_nth_eq)
  show "concat (map (bank_row s) [0..<8]) = map (unit_power s) bank_names"
    by (simp add: bank_names_def map_concat comp_def bank_row_def[abs_def])
  show "map (trace_value s) cntlr_names = map (unit_power s) cntlr_names" "map (trace_value s) bank_names = map (unit_power s) bank_names"
    by (auto simp: cntlr_names_def bank_names_def trace_value_def)
qed

text \<open>C21: The columns of the power trace. The trace for HotSpot has \<open>pt_num + 1\<close> equal rows, and each holds under the
  name of a unit the power of this unit, except for the instruction caches: their columns hold the old
  power of the cache plus the change of the instruction scheduler. In the trace for the reversed stack the
  second row is right, but the first one, with the powers before the update, is written in another
  order than its header: under the name of bank 0 of a vault it has the power of the vault's controller.\<close>

theorem power_trace_columns:
  assumes "up_ok cfg u" and "up_n_vaults u = 32" and "up_n_banks u = 8" and "pw_ok s" and "metrics_ok metric" and "0 \<le> pt_num"
  shows "(\<exists>header s'. dumpHotspotInput getFS getNS metric scale rec pt_num t u s =
       Some ((header, replicate (nat pt_num + 1) (map (trace_value s') header)), s') \<and> length header = 328) \<and>
     (\<exists>header row1 s'. dumpHotspotInputReverse getFS getNS metric scale t u s = Some ((header, [row1, map (unit_power s') header]), s') \<and>
       length row1 = length header \<and>
       (\<forall>i<32. header ! i = DramUnit i 0 \<and> row1 ! i = unit_power s (DramCtlr i)))"
proof
  define s1 where "s1 = (if rec \<and> pw_peak_proc s > 0.1 then s\<lparr>pw_trace_log := pw_trace_log s @ [log_row s]\<rparr> else s)"
  have ok1: "pw_ok s1" using assms(4) by (simp add: s1_def pw_ok_def)
  obtain s' where s': "updatePower getFS getNS metric scale t u s1 = Some s'" "pw_ok s'"
    using updatePower_runs[OF assms(1-3) ok1 assms(5), of getFS getNS scale t] by (auto simp: runs_iff)
  have rows: "map (\<lambda>pt. h) [0..pt_num] = replicate (nat pt_num + 1) h" for h :: "real list"
    using assms(6) by (simp add: map_replicate_const nat_add_distrib)
  have len: "length (core_names @ cntlr_names @ bank_names) = 328"
    by (simp add: core_names_def core_units_def cntlr_names_def bank_names_def length_concat comp_def upt_rec)
  have "dumpHotspotInput getFS getNS metric scale rec pt_num t u s = Some ((core_names @ cntlr_names @ bank_names,
      replicate (nat pt_num + 1) (map (trace_value s') (core_names @ cntlr_names @ bank_names))), s')"
    unfolding dumpHotspotInput_def Let_def s1_def[symmetric] s'(1) Option.bind.bind_lunit rows core_columns(1)[OF s'(2)] dram_columns(2)[OF s'(2)]
    using dram_columns(1,3,4)[OF s'(2)] by simp
  with len show "\<exists>header s'. dumpHotspotInput getFS getNS metric scale rec pt_num t u s =
       Some ((header, replicate (nat pt_num + 1) (map (trace_value s') header)), s') \<and> length header = 328" by blast
next
  obtain s' where s': "updatePower getFS getNS metric scale t u s = Some s'" "pw_ok s'"
    using updatePower_runs[OF assms(1-5), of getFS getNS scale t] by (auto simp: runs_iff)
  let ?h = "bank_names @ cntlr_names @ core_names"
  let ?row1 = "pw_vault_power s @ concat (map (bank_row s) [0..<8]) @ concat (map core_row (pw_cores s))"
  have r1: "?row1 = map (unit_power s) (cntlr_names @ bank_names @ core_names)"
    using core_columns(2)[OF assms(4)] dram_columns(1,2)[OF assms(4)] by simp
  have "dumpHotspotInputReverse getFS getNS metric scale t u s = Some ((?h, [?row1, map (unit_power s') ?h]), s')"
    unfolding dumpHotspotInputReverse_def Let_def s'(1) Option.bind.bind_lunit core_columns(2)[OF s'(2)] dram_columns(2)[OF s'(2)]
    using dram_columns(1)[OF s'(2)] by simp
  moreover have "length ?row1 = length ?h" unfolding r1 by simp
  moreover have "?h ! i = DramUnit i 0 \<and> ?row1 ! i = unit_power s (DramCtlr i)" if "i < 32" for i
    unfolding r1 using that by (simp add: nth_append bank_names_def cntlr_names_def upt_rec[of 0 8])
  ultimately show "\<exists>header row1 s'. dumpHotspotInputReverse getFS getNS metric scale t u s = Some ((header, [row1, map (unit_power s') header]), s') \<and>
       length row1 = length header \<and> (\<forall>i<32. header ! i = DramUnit i 0 \<and> row1 ! i = unit_power s (DramCtlr i))" by blast
qed

theorem power_trace_columns_witness:
  "\<exists>u header row1 s'. StackedDramPerfUnison demo_cfg (0, 0, 0, 0) () 32 (128 * 1024) (16 * 1024) 8 = Some (u :: (nat, unit) unison_perf) \<and>
     dumpHotspotInputReverse of_nat of_nat (\<lambda>_ _ _. Some 1000000) 10 (5 :: nat) u (idle_power\<lparr>pw_vault_power := replicate 32 7\<rparr>) =
       Some ((header, [row1, map (unit_power s') header]), s') \<and> header ! 3 = DramUnit 3 0 \<and> row1 ! 3 = 7"
proof -
  obtain u :: "(nat, unit) unison_perf" where u: "StackedDramPerfUnison demo_cfg (0, 0, 0, 0) () 32 (128 * 1024) (16 * 1024) 8 = Some u"
    "up_ok demo_cfg u" "up_n_vaults u = 32" "up_n_banks u = 8" using full_unison by blast
  let ?s = "idle_power\<lparr>pw_vault_power := replicate 32 7\<rparr>"
  have ok: "pw_ok ?s" using idle_power_ok by (simp add: pw_ok_def)
  have m: "metrics_ok (\<lambda>_ _ _. Some 1000000)" by (simp add: metrics_ok_def)
  obtain header row1 s' where "dumpHotspotInputReverse of_nat of_nat (\<lambda>_ _ _. Some 1000000) 10 (5 :: nat) u ?s =
       Some ((header, [row1, map (unit_power s') header]), s')" "\<forall>i<32. header ! i = DramUnit i 0 \<and> row1 ! i = unit_power ?s (DramCtlr i)"
    using power_trace_columns[OF u(2-4) ok m, of 4 of_nat of_nat 10 False 5] by auto
  moreover from this(2) have "header ! 3 = DramUnit 3 0 \<and> row1 ! 3 = 7" by simp
  ultimately show ?thesis using u(1) by blast
qed

end
