(* ===== verification/StatsRegistry.thy ===== *)
theory StatsRegistry
  imports Sniper_Prelude "HOL-Library.AList"
begin

section \<open>The registry of statistics\<close>

text \<open>
  Model of the metric part of \<^verbatim>\<open>misc/stats.{h,cc}\<close>: \<^verbatim>\<open>registerMetric\<close>, \<^verbatim>\<open>getMetricObject\<close>,
  \<^verbatim>\<open>recordMetricName\<close>, the loop of \<^verbatim>\<open>recordStats\<close> that writes the values, and \<^verbatim>\<open>StatHist\<close>. The two nested maps
  from object and metric names are one association list with pairs as keys (their iteration order is not
  specified by C++; here it is the order of insertion), the innermost map from indices to metrics is an
  association list. A metric object is a value of \<open>'o\<close>; what its virtual functions return are arguments. The two tables of
  the database are lists of rows; their columns are integers, and a value arrives there through the
  parameter type of the binding function of SQLite: \<^verbatim>\<open>sqlite3_bind_int\<close> takes an \<^verbatim>\<open>int\<close>, to which the 64-bit
  keys and the unsigned indices are narrowed, and \<^verbatim>\<open>sqlite3_bind_int64\<close> a signed 64-bit integer.
\<close>

subsection \<open>Registration\<close>

record 'o registry =
  rg_keyid :: u64
  rg_objects :: "((string \<times> string) \<times> u64 \<times> (u32 \<times> 'o) list) list"
  rg_names :: "(int \<times> string \<times> string) list"

definition empty_registry :: "'o registry" where
  "empty_registry = \<lparr>rg_keyid = 0, rg_objects = [], rg_names = []\<rparr>"

definition bind_int :: "u64 \<Rightarrow> int" where
  "bind_int x = sint (ucast x :: u32)"

definition bind_int64 :: "u64 \<Rightarrow> int" where
  "bind_int64 x = sint x"

definition recordMetricName :: "u64 \<Rightarrow> string \<Rightarrow> string \<Rightarrow> 'o registry \<Rightarrow> 'o registry" where
  "recordMetricName keyId objectName metricName r = r\<lparr>rg_names := rg_names r @ [(bind_int keyId, objectName, metricName)]\<rparr>"

definition registerMetric :: "string \<times> u32 \<times> string \<times> 'o \<Rightarrow> 'o registry \<Rightarrow> 'o registry option" where
  "registerMetric x r = do {
     let (objectName, index, metricName, metric) = x;
     let (key, ms) = (case map_of (rg_objects r) (objectName, metricName) of Some e \<Rightarrow> e | None \<Rightarrow> (0, []));
     guard (map_of ms index = None);
     let ms = AList.update index metric ms;
     if key = 0 then do {
       let r = r\<lparr>rg_keyid := rg_keyid r + 1\<rparr>;
       let r = r\<lparr>rg_objects := AList.update (objectName, metricName) (rg_keyid r, ms) (rg_objects r)\<rparr>;
       Some (recordMetricName (rg_keyid r) objectName metricName r)
     }
     else Some (r\<lparr>rg_objects := AList.update (objectName, metricName) (key, ms) (rg_objects r)\<rparr>)
   }"

definition getMetricObject :: "string \<Rightarrow> u32 \<Rightarrow> string \<Rightarrow> 'o registry \<Rightarrow> 'o option" where
  "getMetricObject objectName index metricName r =
     (case map_of (rg_objects r) (objectName, metricName) of None \<Rightarrow> None | Some (key, ms) \<Rightarrow> map_of ms index)"

text \<open>The rows of one record: prefix, key, index and value of every metric that is not at its default.\<close>

definition record_values :: "('o \<Rightarrow> bool) \<Rightarrow> ('o \<Rightarrow> u64) \<Rightarrow> int \<Rightarrow> 'o registry \<Rightarrow> (int \<times> int \<times> int \<times> int) list" where
  "record_values isDefault recordMetric prefixid r = concat (map (\<lambda>(n, key, ms).
     concat (map (\<lambda>(index, metric). if isDefault metric then []
        else [(prefixid, bind_int key, bind_int (ucast index), bind_int64 (recordMetric metric))]) ms)) (rg_objects r))"

text \<open>The query a reader of the database makes: the key of the two names, then the value.\<close>

definition db_lookup :: "(int \<times> string \<times> string) list \<Rightarrow> (int \<times> int \<times> int \<times> int) list \<Rightarrow> int \<Rightarrow> string \<Rightarrow> int \<Rightarrow> string \<Rightarrow> int option" where
  "db_lookup names values p ob i me = do {
     key \<leftarrow> map_of (map (\<lambda>(k, n). (n, k)) names) (ob, me);
     map_of (map (\<lambda>(q, k, j, v). ((q, k, j), v)) values) (p, key, i)
   }"

subsection \<open>The registry holds what was registered\<close>

definition registered :: "(string \<times> u32 \<times> string \<times> 'o) list \<Rightarrow> string \<Rightarrow> u32 \<Rightarrow> string \<Rightarrow> 'o option" where
  "registered xs ob i me = map_of (map (\<lambda>(a, j, b, x). ((a, j, b), x)) xs) (ob, i, me)"

definition reg_inv :: "(string \<times> u32 \<times> string \<times> 'o) list \<Rightarrow> 'o registry \<Rightarrow> bool" where
  "reg_inv xs r \<longleftrightarrow> distinct (map fst (rg_objects r)) \<and> length (rg_objects r) \<le> length xs \<and>
     rg_keyid r = word_of_nat (length (rg_objects r)) \<and>
     map (\<lambda>e. fst (snd e)) (rg_objects r) = map (\<lambda>n. word_of_nat (Suc n)) [0..<length (rg_objects r)] \<and>
     rg_names r = map (\<lambda>(n, k, ms). (bind_int k, n)) (rg_objects r) \<and>
     (\<forall>e\<in>set (rg_objects r). distinct (map fst (snd (snd e)))) \<and>
     (\<forall>ob i me. getMetricObject ob i me r = registered xs ob i me)"

lemma u64_index:
  "a < 2 ^ 64 \<Longrightarrow> unat (word_of_nat a :: u64) = a"
  by (simp add: unat_of_nat)

lemma key_nonzero:
  assumes inv: "reg_inv xs r" and small: "length xs < 2 ^ 64 - 1" and e: "map_of (rg_objects r) n = Some (k, ms)"
  shows "k \<noteq> 0"
proof -
  have "(n, k, ms) \<in> set (rg_objects r)" using e by (rule map_of_SomeD)
  then have "k \<in> set (map (\<lambda>e. fst (snd e)) (rg_objects r))" by force
  moreover have "map (\<lambda>e. fst (snd e)) (rg_objects r) = map (\<lambda>n. word_of_nat (Suc n)) [0..<length (rg_objects r)]"
    using inv unfolding reg_inv_def by blast
  ultimately have "k \<in> set (map (\<lambda>n. word_of_nat (Suc n)) [0..<length (rg_objects r)])" by simp
  then obtain a where a: "a < length (rg_objects r)" "k = word_of_nat (Suc a)" by auto
  then have "Suc a < 2 ^ 64" using inv small by (simp add: reg_inv_def)
  then have "unat k = Suc a" unfolding a(2) by (rule u64_index)
  then show ?thesis by auto
qed

lemma map_keys_update:
  assumes "map_of xs k = Some v"
  shows "map fst (AList.update k w xs) = map fst xs"
  using assms by (induction xs) (auto split: if_splits)

lemma map_entries_update:
  assumes "map_of xs k = Some v" "g (k, v) = g (k, w)"
  shows "map g (AList.update k w xs) = map g xs"
  using assms by (induction xs) (auto split: if_splits)

lemma set_update_entries: "f \<in> set (AList.update k w xs) \<Longrightarrow> f = (k, w) \<or> f \<in> set xs"
  by (induction xs) (auto split: if_splits)

lemma update_new: "map_of xs k = None \<Longrightarrow> AList.update k v xs = xs @ [(k, v)]"
  by (induction xs) auto

lemma registerMetric_runs:
  assumes inv: "reg_inv xs r" and new: "registered xs ob i me = None" and small: "length xs < 2 ^ 64 - 1"
  shows "runs (registerMetric (ob, i, me, x) r) (reg_inv ((ob, i, me, x) # xs))"
proof (cases "map_of (rg_objects r) (ob, me)")
  case None
  let ?k = "rg_keyid r + 1"
  have k: "?k = word_of_nat (Suc (length (rg_objects r)))" using inv by (simp add: reg_inv_def)
  have upd: "AList.update (ob, me) (?k, [(i, x)]) (rg_objects r) = rg_objects r @ [((ob, me), ?k, [(i, x)])]"
    by (rule update_new[OF None])
  let ?r = "r\<lparr>rg_keyid := ?k, rg_objects := rg_objects r @ [((ob, me), ?k, [(i, x)])], rg_names := rg_names r @ [(bind_int ?k, ob, me)]\<rparr>"
  have step: "registerMetric (ob, i, me, x) r = Some ?r"
    by (simp add: registerMetric_def None guard_def recordMetricName_def upd)
  have get: "getMetricObject a j b ?r = registered ((ob, i, me, x) # xs) a j b" for a j b
  proof -
    have "getMetricObject a j b r = registered xs a j b" using inv by (simp add: reg_inv_def)
    moreover have "map_of (rg_objects r) (a, b) = None" if "a = ob" "b = me" using None that by simp
    ultimately show ?thesis
      by (auto simp: getMetricObject_def registered_def map_add_def split: option.splits)
  qed
  have "(ob, me) \<notin> fst ` set (rg_objects r)" using None by (simp add: map_of_eq_None_iff)
  then have "reg_inv ((ob, i, me, x) # xs) ?r"
    using inv k get by (auto simp: reg_inv_def)
  then show ?thesis by (simp add: step)
next
  case (Some e)
  obtain key ms where e: "e = (key, ms)" by (cases e)
  note S = Some[unfolded e]
  have key: "key \<noteq> 0" by (rule key_nonzero[OF inv small S])
  have mi: "map_of ms i = None" using inv new S by (simp add: reg_inv_def getMetricObject_def split: option.splits)
  let ?o = "AList.update (ob, me) (key, AList.update i x ms) (rg_objects r)"
  let ?r = "r\<lparr>rg_objects := ?o\<rparr>"
  have step: "registerMetric (ob, i, me, x) r = Some ?r"
    using key by (simp add: registerMetric_def S mi guard_def)
  have get: "getMetricObject a j b ?r = registered ((ob, i, me, x) # xs) a j b" for a j b
  proof -
    have old: "getMetricObject a j b r = registered xs a j b" using inv by (simp add: reg_inv_def)
    then show ?thesis
      using S by (auto simp: getMetricObject_def registered_def update_conv' split: option.splits if_splits)
  qed
  have keys: "map fst ?o = map fst (rg_objects r)" by (rule map_keys_update[OF S])
  have len: "length ?o = length (rg_objects r)" using arg_cong[OF keys, of length] by simp
  have ids: "map (\<lambda>e. fst (snd e)) ?o = map (\<lambda>e. fst (snd e)) (rg_objects r)" by (rule map_entries_update[OF S]) simp
  have nms: "map (\<lambda>(n, k, ms). (bind_int k, n)) ?o = map (\<lambda>(n, k, ms). (bind_int k, n)) (rg_objects r)" by (rule map_entries_update[OF S]) simp
  have dms: "distinct (map fst (snd (snd f)))" if "f \<in> set ?o" for f
  proof -
    have "distinct (map fst ms)" using inv map_of_SomeD[OF S] by (force simp: reg_inv_def)
    then have "distinct (map fst (AList.update i x ms))" by (rule distinct_update)
    moreover have "f = ((ob, me), key, AList.update i x ms) \<or> f \<in> set (rg_objects r)"
      using that by (rule set_update_entries)
    ultimately show ?thesis using inv by (auto simp: reg_inv_def)
  qed
  have "reg_inv ((ob, i, me, x) # xs) ?r"
    using inv get dms by (simp add: reg_inv_def keys len ids nms)
  then show ?thesis by (simp add: step)
qed

lemma register_all:
  assumes "distinct (map (\<lambda>(a, j, b, x). (a, j, b)) (xs @ ys))" "length xs + length ys < 2 ^ 64"
  shows "reg_inv (rev xs) r \<Longrightarrow> runs (foldM registerMetric ys r) (reg_inv (rev (xs @ ys)))"
  using assms
proof (induction ys arbitrary: xs r)
  case (Cons y ys)
  obtain ob i me x where y: "y = (ob, i, me, x)" by (cases y)
  have "(ob, i, me) \<notin> (\<lambda>(a, j, b, x). (a, j, b)) ` set xs" using Cons.prems(2) by (auto simp: y)
  then have "registered (rev xs) ob i me = None"
    by (force simp: registered_def map_of_eq_None_iff)
  moreover have "length (rev xs) < 2 ^ 64 - 1" using Cons.prems(3) by simp
  ultimately have "runs (registerMetric y r) (reg_inv (rev (xs @ [y])))"
    using registerMetric_runs[OF Cons.prems(1), of ob i me x] by (simp add: y)
  then show ?case
    unfolding foldM.simps runs_bind
    by (rule runs_mono) (use Cons.IH[of "xs @ [y]"] Cons.prems(2,3) in simp)
qed simp

lemma registered_rev:
  assumes "distinct (map (\<lambda>(a, j, b, x). (a, j, b)) xs)"
  shows "registered (rev xs) ob i me = registered xs ob i me"
proof -
  let ?f = "\<lambda>(a, j, b, x). ((a, j, b), x)"
  have "map fst (map ?f ys) = map (\<lambda>(a, j, b, x). (a, j, b)) ys" for ys :: "(string \<times> u32 \<times> string \<times> 'a) list" by auto
  then have "distinct (map fst (map ?f xs))" "distinct (map fst (map ?f (rev xs)))"
    using assms by (simp_all only: rev_map[symmetric] distinct_rev)
  then have "map_of (map ?f (rev xs)) = map_of (map ?f xs)" by (subst map_of_inject_set) simp_all
  then show ?thesis by (simp add: registered_def)
qed

subsection \<open>The database gives the values back\<close>

text \<open>Narrowing loses nothing for the first \<open>2^32\<close> keys and for indices.\<close>

lemma bind_int_eq_iff:
  assumes "unat a < 2 ^ 32" "unat b < 2 ^ 32"
  shows "bind_int a = bind_int b \<longleftrightarrow> a = b"
proof
  assume "bind_int a = bind_int b"
  then have "(ucast a :: u32) = ucast b" by (simp add: bind_int_def signed_word_eqI)
  then have "unat (ucast a :: u32) = unat (ucast b :: u32)" by simp
  then show "a = b" using assms by (simp add: unsigned_ucast_eq take_bit_eq_mod word_unat_eq_iff)
qed simp

lemma bind_int_index: "bind_int (ucast i) = sint (i :: u32)"
proof -
  have "(ucast (ucast i :: u64) :: u32) = i" by (rule bit_word_eqI) (simp add: bit_ucast_iff)
  then show ?thesis by (simp only: bind_int_def)
qed

lemma map_of_sint: "map_of (map (\<lambda>(j, x). (sint (j :: u32), x)) ms) (sint i) = map_of ms i"
  by (induction ms) (auto dest: signed_word_eqI)

lemma distinct_sint: "distinct (map fst (map (\<lambda>(j, x). (sint (j :: u32), x)) ms)) \<longleftrightarrow> distinct (map fst ms)"
proof -
  have "map fst (map (\<lambda>(j, x). (sint (j :: u32), x)) ms) = map sint (map fst ms)" by auto
  then show ?thesis by (simp only: distinct_map) (auto intro!: inj_onI dest: signed_word_eqI)
qed

lemma index_rows:
  assumes "distinct (map fst ms)"
  shows "map_of (map (\<lambda>(q, k, j, v). ((q, k, j), v)) (concat (map (\<lambda>(j, x). if d x then [] else [(p, key, j, val x)]) ms))) (p, k', i) =
     (if k' = key then (case map_of ms i of None \<Rightarrow> None | Some x \<Rightarrow> if d x then None else Some (val x)) else None)"
  using assms
proof (induction ms)
  case (Cons m ms)
  obtain j x where m: "m = (j, x)" by (cases m)
  have "map_of ms j = None" using Cons.prems by (simp add: m map_of_eq_None_iff)
  then show ?case using Cons by (auto simp: m)
qed simp

lemma other_key_rows:
  assumes "key \<notin> (\<lambda>e. fst (snd e)) ` set objs"
  shows "map_of (map (\<lambda>(q, k, j, v). ((q, k, j), v)) (concat (map (\<lambda>(n, k, ms).
       concat (map (\<lambda>(j, x). if d x then [] else [(p, k, j, val x)]) ms)) objs))) (p, key, i) = None"
proof -
  have "map_of (map (\<lambda>(q, k, j, v). ((q, k, j), v)) (concat (map (\<lambda>(j, x). if d x then [] else [(p, k', j, val x)]) ms))) (p, key, i) = None"
    if "k' \<noteq> key" for k' ms
    using that by (induction ms) auto
  then show ?thesis using assms by (induction objs) (auto simp: map_add_def split: option.splits)
qed

lemma names_lookup: "map_of (map (\<lambda>(k, n). (n, k)) (map (\<lambda>(n, k, ms). (f k, n)) xs)) n = map_option (f \<circ> fst) (map_of xs n)"
  by (induction xs) auto

lemma value_rows:
  assumes "distinct (map (\<lambda>e. fst (snd e)) objs)" "\<forall>e\<in>set objs. distinct (map fst (snd (snd e)))" "(n, key, ms) \<in> set objs"
  shows "map_of (map (\<lambda>(q, k, j, v). ((q, k, j), v)) (concat (map (\<lambda>(n, k, ms).
       concat (map (\<lambda>(j, x). if d x then [] else [(p, k, j, val x)]) ms)) objs))) (p, key, i) =
     (case map_of ms i of None \<Rightarrow> None | Some x \<Rightarrow> if d x then None else Some (val x))"
  using assms
proof (induction objs)
  case (Cons e objs)
  obtain n' k' ms' where e: "e = (n', k', ms')" by (cases e)
  let ?rows = "\<lambda>objs. map (\<lambda>(q, k, j, v). ((q, k, j), v)) (concat (map (\<lambda>(n, k, ms).
       concat (map (\<lambda>(j, x). if d x then [] else [(p, k, j, val x)]) ms)) objs))"
  have head: "map_of (?rows [e]) (p, key, i) =
      (if key = k' then (case map_of ms' i of None \<Rightarrow> None | Some x \<Rightarrow> if d x then None else Some (val x)) else None)"
    using index_rows[of ms' d p k' val key i] Cons.prems(2) by (simp add: e)
  have split: "map_of (?rows (e # objs)) = map_of (?rows objs) ++ map_of (?rows [e])" by (simp add: map_of_append[symmetric] del: map_of_append)
  show ?case
  proof (cases "key = k'")
    case True
    have "k' \<notin> (\<lambda>e. fst (snd e)) ` set objs" using Cons.prems(1) by (simp add: e)
    then have "(n, key, ms) \<notin> set objs" using True by force
    then have ms: "ms' = ms" using Cons.prems(3) by (simp add: e)
    have "map_of (?rows objs) (p, key, i) = None"
      using \<open>k' \<notin> (\<lambda>e. fst (snd e)) ` set objs\<close> unfolding True by (rule other_key_rows)
    then show ?thesis unfolding split map_add_def head using True ms by (simp split: option.splits)
  next
    case False
    then have "(n, key, ms) \<in> set objs" using Cons.prems(3) by (simp add: e)
    then have "map_of (?rows objs) (p, key, i) = (case map_of ms i of None \<Rightarrow> None | Some x \<Rightarrow> if d x then None else Some (val x))"
      using Cons.IH Cons.prems(1,2) by (simp add: e)
    then show ?thesis unfolding split map_add_def head using False by simp
  qed
qed simp

text \<open>The rows of a record, over the objects with the bound keys and indices.\<close>

lemma record_values_bound:
  "record_values isDefault recordMetric p r = concat (map (\<lambda>(n, k, ms).
       concat (map (\<lambda>(j, x). if isDefault x then [] else [(p, k, j, bind_int64 (recordMetric x))]) ms))
     (map (\<lambda>(n, k, ms). (n, bind_int k, map (\<lambda>(j, x). (sint j, x)) ms)) (rg_objects r)))"
  unfolding record_values_def bind_int_index map_map
  by (intro arg_cong[where f = concat] map_cong refl) (auto intro!: arg_cong[where f = concat])

text \<open>C22: The statistics database gives back what was recorded. When metrics with different names or indices are registered
  (fewer than \<open>2^32\<close>) in an empty registry, every registration returns, \<^verbatim>\<open>getMetricObject\<close> finds exactly
  the registered metrics, and after a record a reader who looks up the two names in the table of names and the
  key, prefix and index in the table of values gets the value of every registered metric that is
  not at its default (as the signed 64-bit integer that SQLite stores), and nothing for any other. The bound
  is that of the key column: the counter of keys has 64 bits, but \<^verbatim>\<open>sqlite3_bind_int\<close> narrows it to 32.\<close>

theorem statistics_roundtrip:
  assumes "distinct (map (\<lambda>(ob, i, me, x). (ob, i, me)) xs)" and "length xs < 2 ^ 32"
  shows "\<exists>r. foldM registerMetric xs empty_registry = Some r \<and>
     (\<forall>ob i me. getMetricObject ob i me r = registered xs ob i me) \<and>
     (\<forall>ob i me. db_lookup (rg_names r) (record_values isDefault recordMetric p r) p ob (sint i) me =
        (case registered xs ob i me of None \<Rightarrow> None | Some x \<Rightarrow> if isDefault x then None else Some (sint (recordMetric x))))"
proof -
  have "reg_inv (rev []) (empty_registry :: 'a registry)"
    by (simp add: reg_inv_def empty_registry_def getMetricObject_def registered_def)
  from register_all[OF _ _ this, of xs] assms obtain r where r: "foldM registerMetric xs empty_registry = Some r" "reg_inv (rev xs) r"
    by (auto simp: runs_iff)
  have get: "getMetricObject ob i me r = registered xs ob i me" for ob i me
    using r(2) registered_rev[OF assms(1)] by (simp add: reg_inv_def)
  let ?o = "rg_objects r"
  let ?b = "map (\<lambda>(n, k, ms). (n, bind_int k, map (\<lambda>(j, x). (sint j, x)) ms)) ?o"
  have ids: "map (\<lambda>e. fst (snd e)) ?o = map (\<lambda>n. word_of_nat (Suc n)) [0..<length ?o]" and len: "length ?o < 2 ^ 32"
    and dms: "\<forall>e\<in>set ?o. distinct (map fst (snd (snd e)))" and nms: "rg_names r = map (\<lambda>(n, k, ms). (bind_int k, n)) ?o"
    using r(2) assms(2) unfolding reg_inv_def by simp_all
  have ub: "map (\<lambda>e. fst (snd e)) ?b = map (\<lambda>n. bind_int (word_of_nat (Suc n))) [0..<length ?o]"
  proof -
    have "map (\<lambda>e. fst (snd e)) ?b = map bind_int (map (\<lambda>e. fst (snd e)) ?o)" by (simp add: case_prod_beta)
    then show ?thesis unfolding ids by simp
  qed
  have dist: "distinct (map (\<lambda>e. fst (snd e)) ?b)"
    unfolding ub distinct_map
  proof (intro conjI inj_onI)
    fix a b assume ab: "a \<in> set [0..<length ?o]" "b \<in> set [0..<length ?o]" "bind_int (word_of_nat (Suc a)) = bind_int (word_of_nat (Suc b))"
    then have lt: "Suc a < 2 ^ 32" "Suc b < 2 ^ 32" using len by simp_all
    then have u: "unat (word_of_nat (Suc a) :: u64) = Suc a" "unat (word_of_nat (Suc b) :: u64) = Suc b"
      using u64_index[of "Suc a"] u64_index[of "Suc b"] by simp_all
    then show "a = b" using ab(3) lt bind_int_eq_iff[of "word_of_nat (Suc a)" "word_of_nat (Suc b)"] by (metis Suc_inject)
  qed simp
  have dbs: "\<forall>e\<in>set ?b. distinct (map fst (snd (snd e)))"
  proof
    fix e assume "e \<in> set ?b"
    then obtain n k ms where m: "(n, k, ms) \<in> set ?o" "e = (n, bind_int k, map (\<lambda>(j, x). (sint j, x)) ms)" by auto
    then have "distinct (map fst ms)" using dms by force
    then show "distinct (map fst (snd (snd e)))" unfolding m(2) snd_conv distinct_sint .
  qed
  have "db_lookup (rg_names r) (record_values isDefault recordMetric p r) p ob (sint i) me =
        (case registered xs ob i me of None \<Rightarrow> None | Some x \<Rightarrow> if isDefault x then None else Some (sint (recordMetric x)))" for ob i me
  proof -
    have "map_of (map (\<lambda>(k, n). (n, k)) (rg_names r)) (ob, me) = map_option (bind_int \<circ> fst) (map_of ?o (ob, me))"
      unfolding nms by (rule names_lookup)
    moreover have "map_of (map (\<lambda>(q, k, j, v). ((q, k, j), v)) (record_values isDefault recordMetric p r)) (p, bind_int key, sint i) =
        (case map_of ms i of None \<Rightarrow> None | Some x \<Rightarrow> if isDefault x then None else Some (sint (recordMetric x)))"
      if "map_of ?o (ob, me) = Some (key, ms)" for key ms
    proof -
      have "((ob, me), bind_int key, map (\<lambda>(j, x). (sint j, x)) ms) \<in> set ?b" using map_of_SomeD[OF that] by force
      from value_rows[OF dist dbs this, of isDefault p "\<lambda>x. bind_int64 (recordMetric x)" "sint i"] show ?thesis
        unfolding record_values_bound map_of_sint bind_int64_def .
    qed
    ultimately show ?thesis
      unfolding get[symmetric] getMetricObject_def db_lookup_def by (cases "map_of ?o (ob, me)") (auto split: option.splits)
  qed
  then show ?thesis using r(1) get by blast
qed

theorem statistics_roundtrip_witness:
  "\<exists>r. foldM registerMetric [(''mc'', 0, ''power'', 5), (''l2'', 1, ''power'', 0), (''l2'', 2, ''power'', 7 :: u64)] empty_registry = Some r \<and>
     db_lookup (rg_names r) (record_values (\<lambda>x. x = 0) id 3 r) 3 ''l2'' 2 ''power'' = Some 7 \<and>
     db_lookup (rg_names r) (record_values (\<lambda>x. x = 0) id 3 r) 3 ''l2'' 1 ''power'' = None"
proof -
  let ?xs = "[(''mc'', 0, ''power'', 5), (''l2'', 1, ''power'', 0), (''l2'', 2, ''power'', 7 :: u64)] :: (string \<times> u32 \<times> string \<times> u64) list"
  have hyp: "distinct (map (\<lambda>(ob, i, me, x). (ob, i, me)) ?xs)" "length ?xs < 2 ^ 32" by simp_all
  obtain r where r: "foldM registerMetric ?xs empty_registry = Some r"
    and db: "\<And>ob i me. db_lookup (rg_names r) (record_values (\<lambda>x. x = 0) id 3 r) 3 ob (sint i) me =
      (case registered ?xs ob i me of None \<Rightarrow> None | Some x \<Rightarrow> if x = 0 then None else Some (sint (id x)))"
    using statistics_roundtrip[OF hyp, of "\<lambda>x. x = 0" id 3] by blast
  show ?thesis
    using r db[of "''l2''" 2 "''power''"] db[of "''l2''" 1 "''power''"] by (simp add: registered_def)
qed

text \<open>Beyond this bound it does lose: two keys \<open>2^32\<close> apart are one key in the database.\<close>

lemma bind_int_wraps: "bind_int (k + 2 ^ 32) = bind_int k"
proof -
  have "(ucast (k + 2 ^ 32 :: u64) :: u32) = ucast k"
    by (simp add: word_unat_eq_iff unsigned_ucast_eq take_bit_eq_mod unat_word_ariths mod_mod_cancel)
  then show ?thesis by (simp add: bind_int_def)
qed

subsection \<open>Histograms\<close>

text \<open>\<^verbatim>\<open>StatHist\<close>; \<^verbatim>\<open>floorLog2\<close> is an argument.\<close>

record stat_hist =
  sh_n :: u64
  sh_s :: u64
  sh_s2 :: u64
  sh_min :: u64
  sh_max :: u64
  sh_hist :: "u64 list"

definition StatHist :: stat_hist where
  "StatHist = \<lparr>sh_n = 0, sh_s = 0, sh_s2 = 0, sh_min = 0, sh_max = 0, sh_hist = replicate 20 0\<rparr>"

definition hist_update :: "(u64 \<Rightarrow> int) \<Rightarrow> u64 \<Rightarrow> stat_hist \<Rightarrow> stat_hist option" where
  "hist_update floorLog2 v h = do {
     let h = (if sh_n h = 0 then h\<lparr>sh_min := v, sh_max := v\<rparr> else h);
     let h = h\<lparr>sh_n := sh_n h + 1, sh_s := sh_s h + v, sh_s2 := sh_s2 h + v * v\<rparr>;
     let h = (if v < sh_min h then h\<lparr>sh_min := v\<rparr> else h);
     let h = (if v > sh_max h then h\<lparr>sh_max := v\<rparr> else h);
     let bin = floorLog2 v + 1;
     let bin = (if bin \<ge> 20 then 20 - 1 else bin);
     x \<leftarrow> ifetch (sh_hist h) bin;
     hs \<leftarrow> istore (sh_hist h) bin (x + 1);
     Some (h\<lparr>sh_hist := hs\<rparr>)
   }"

definition hist_add :: "stat_hist \<Rightarrow> stat_hist \<Rightarrow> stat_hist" where
  "hist_add h stat = (
     let h = (if sh_n h = 0 then h\<lparr>sh_min := sh_min stat, sh_max := sh_max stat\<rparr> else h);
         h = h\<lparr>sh_n := sh_n h + sh_n stat, sh_s := sh_s h + sh_s stat, sh_s2 := sh_s2 h + sh_s2 stat\<rparr>;
         h = (if sh_n stat \<noteq> 0 \<and> sh_min stat < sh_min h then h\<lparr>sh_min := sh_min stat\<rparr> else h);
         h = (if sh_n stat \<noteq> 0 \<and> sh_max stat > sh_max h then h\<lparr>sh_max := sh_max stat\<rparr> else h)
     in h\<lparr>sh_hist := map2 (+) (sh_hist h) (sh_hist stat)\<rparr>)"

definition hist_bin :: "(u64 \<Rightarrow> int) \<Rightarrow> u64 \<Rightarrow> nat" where
  "hist_bin fl v = nat (if fl v + 1 \<ge> 20 then 19 else fl v + 1)"

text \<open>The histogram of a list of values.\<close>

definition hist_of :: "(u64 \<Rightarrow> int) \<Rightarrow> u64 list \<Rightarrow> stat_hist" where
  "hist_of fl vs = \<lparr>sh_n = word_of_nat (length vs), sh_s = sum_list vs, sh_s2 = sum_list (map (\<lambda>v. v * v) vs),
     sh_min = (if vs = [] then 0 else Min (set vs)), sh_max = (if vs = [] then 0 else Max (set vs)),
     sh_hist = map (\<lambda>b. word_of_nat (length (filter (\<lambda>v. hist_bin fl v = b) vs))) [0..<20]\<rparr>"

lemma hist_n_zero:
  assumes "length vs < 2 ^ 64"
  shows "(word_of_nat (length vs) :: u64) = 0 \<longleftrightarrow> vs = []"
proof
  assume "(word_of_nat (length vs) :: u64) = 0"
  then have "unat (word_of_nat (length vs) :: u64) = unat (0 :: u64)" by (rule arg_cong)
  then have "length vs = 0" using u64_index[OF assms] unat_0 by metis
  then show "vs = []" by simp
qed simp

lemma map_upt_update:
  assumes "k < n" "g k = x" "\<And>b. b \<noteq> k \<Longrightarrow> g b = f b"
  shows "(map f [0..<n])[k := x] = map g [0..<n]"
proof (rule nth_equalityI)
  fix b assume "b < length ((map f [0..<n])[k := x])"
  then show "(map f [0..<n])[k := x] ! b = map g [0..<n] ! b" using assms by (cases "b = k") auto
qed simp

lemma pick_less: "(if v < m then v else m) = min v (m :: u64)" "(if v > m then v else m) = max v (m :: u64)"
  by (auto simp: min_def max_def)

definition hist_num :: "u64 list \<Rightarrow> u64" where
  "hist_num vs = word_of_nat (length vs)"

definition hist_min :: "u64 list \<Rightarrow> u64" where
  "hist_min vs = (if vs = [] then 0 else Min (set vs))"

definition hist_max :: "u64 list \<Rightarrow> u64" where
  "hist_max vs = (if vs = [] then 0 else Max (set vs))"

definition hist_bins :: "(u64 \<Rightarrow> int) \<Rightarrow> u64 list \<Rightarrow> u64 list" where
  "hist_bins fl vs = map (\<lambda>b. word_of_nat (length (filter (\<lambda>v. hist_bin fl v = b) vs))) [0..<20]"

lemma hist_of_parts: "hist_of fl vs = \<lparr>sh_n = hist_num vs, sh_s = sum_list vs, sh_s2 = sum_list (map (\<lambda>v. v * v) vs),
     sh_min = hist_min vs, sh_max = hist_max vs, sh_hist = hist_bins fl vs\<rparr>"
  by (simp add: hist_of_def hist_num_def hist_min_def hist_max_def hist_bins_def)

lemma hist_extremes:
  assumes "us \<noteq> []" "vs \<noteq> []"
  shows "hist_min (us @ vs) = min (hist_min us) (hist_min vs)" "hist_max (us @ vs) = max (hist_max us) (hist_max vs)"
  using assms by (simp_all add: hist_min_def hist_max_def Min_Un Max_Un)

lemma hist_extreme_one: "hist_min [v] = v" "hist_max [v] = v"
  by (simp_all add: hist_min_def hist_max_def)

lemma hist_num_simps: "hist_num (us @ vs) = hist_num us + hist_num vs" "hist_num [] = 0" "hist_num [v] = 1"
  by (simp_all add: hist_num_def)

lemma hist_bins_add: "hist_bins fl (us @ vs) = map2 (+) (hist_bins fl us) (hist_bins fl vs)"
  by (rule nth_equalityI) (simp_all add: hist_bins_def)

lemma hist_bins_one:
  assumes "hist_bin fl v < 20"
  shows "(hist_bins fl vs)[hist_bin fl v := hist_bins fl vs ! hist_bin fl v + 1] = hist_bins fl (vs @ [v])"
proof -
  have "hist_bins fl vs ! hist_bin fl v = word_of_nat (length (filter (\<lambda>w. hist_bin fl w = hist_bin fl v) vs))"
    using assms by (simp add: hist_bins_def)
  then show ?thesis unfolding hist_bins_def by (intro map_upt_update[OF assms]) (simp_all add: add.commute)
qed

lemma hist_update_eq:
  assumes "-1 \<le> fl v" "length (sh_hist h) = 20"
  shows "hist_update fl v h = Some \<lparr>sh_n = sh_n h + 1, sh_s = sh_s h + v, sh_s2 = sh_s2 h + v * v,
     sh_min = (if sh_n h = 0 then v else min v (sh_min h)), sh_max = (if sh_n h = 0 then v else max v (sh_max h)),
     sh_hist = (sh_hist h)[hist_bin fl v := sh_hist h ! hist_bin fl v + 1]\<rparr>"
proof -
  define k where "k = (if fl v + 1 \<ge> 20 then 20 - 1 else fl v + 1)"
  have k: "0 \<le> k" "k < 20" "nat k = hist_bin fl v" "hist_bin fl v < 20" using assms(1) by (auto simp: k_def hist_bin_def)
  show ?thesis
    unfolding hist_update_def Let_def k_def[symmetric] using k assms(2)
    by (cases h) (auto simp: ifetch_def istore_def min_def max_def)
qed

lemma hist_update_of:
  assumes fl: "\<forall>v. -1 \<le> fl v" and n: "length vs < 2 ^ 64"
  shows "hist_update fl v (hist_of fl vs) = Some (hist_of fl (vs @ [v]))"
proof -
  have k: "hist_bin fl v < 20" using fl[THEN spec, of v] by (auto simp: hist_bin_def)
  have len: "length (hist_bins fl vs) = 20" by (simp add: hist_bins_def)
  have z: "hist_num vs = 0 \<longleftrightarrow> vs = []" unfolding hist_num_def by (rule hist_n_zero[OF n])
  have e: "vs \<noteq> [] \<Longrightarrow> hist_min (vs @ [v]) = min v (hist_min vs)" "vs \<noteq> [] \<Longrightarrow> hist_max (vs @ [v]) = max v (hist_max vs)"
    using hist_extremes[of vs "[v]"] by (simp_all add: hist_extreme_one min.commute max.commute)
  have u: "hist_update fl v (hist_of fl vs) = Some \<lparr>sh_n = hist_num (vs @ [v]), sh_s = sum_list vs + v, sh_s2 = sum_list (map (\<lambda>v. v * v) vs) + v * v,
     sh_min = (if vs = [] then v else min v (hist_min vs)), sh_max = (if vs = [] then v else max v (hist_max vs)),
     sh_hist = hist_bins fl (vs @ [v])\<rparr>"
    using hist_update_eq[of fl v "hist_of fl vs"] fl len unfolding hist_of_parts by (simp add: z hist_bins_one[OF k] hist_num_simps)
  show ?thesis
  proof (cases "vs = []")
    case True then show ?thesis unfolding u unfolding hist_of_parts by (simp add: hist_extreme_one)
  next
    case False then show ?thesis unfolding u unfolding hist_of_parts by (simp add: e)
  qed
qed

lemma hist_run:
  assumes "\<forall>v. -1 \<le> fl v"
  shows "length us + length vs < 2 ^ 64 \<Longrightarrow> foldM (hist_update fl) vs (hist_of fl us) = Some (hist_of fl (us @ vs))"
proof (induction vs arbitrary: us)
  case (Cons v vs)
  then show ?case using hist_update_of[OF assms, of us v] Cons.IH[of "us @ [v]"] by simp
qed simp

text \<open>C23: Histograms merge. Recording a sequence of fewer than \<open>2^64\<close> values in a new histogram returns and gives
  their number, sums, extremes and the number of values of each bin; and adding two histograms with \<^verbatim>\<open>+=\<close>
  gives the histogram of the concatenated sequence.\<close>

theorem histograms_merge:
  assumes "\<forall>v. -1 \<le> floorLog2 v" and "length us + length vs < 2 ^ 64"
  shows "foldM (hist_update floorLog2) us StatHist = Some (hist_of floorLog2 us) \<and>
     foldM (hist_update floorLog2) vs StatHist = Some (hist_of floorLog2 vs) \<and>
     foldM (hist_update floorLog2) (us @ vs) StatHist = Some (hist_add (hist_of floorLog2 us) (hist_of floorLog2 vs))"
proof -
  have z: "StatHist = hist_of floorLog2 []" by (simp add: StatHist_def hist_of_def map_replicate_const)
  have n: "length us < 2 ^ 64" "length vs < 2 ^ 64" using assms(2) by simp_all
  have zs: "hist_num us = 0 \<longleftrightarrow> us = []" "hist_num vs = 0 \<longleftrightarrow> vs = []"
    unfolding hist_num_def using hist_n_zero n by blast+
  have "hist_of floorLog2 (us @ vs) = hist_add (hist_of floorLog2 us) (hist_of floorLog2 vs)"
  proof (cases "us = [] \<or> vs = []")
    case False
    then have e: "hist_min (us @ vs) = min (hist_min us) (hist_min vs)" "hist_max (us @ vs) = max (hist_max us) (hist_max vs)"
      using hist_extremes by blast+
    show ?thesis
      using False zs by (auto simp: hist_add_def hist_of_parts Let_def hist_num_simps e hist_bins_add min_def max_def)
  next
    case True
    have m: "hist_min [] = 0" "hist_max [] = 0" by (simp_all add: hist_min_def hist_max_def)
    note b = hist_bins_add[of floorLog2 us "[]", symmetric] hist_bins_add[of floorLog2 "[]" vs, symmetric]
    show ?thesis using True
    proof
      assume us: "us = []"
      have "\<not> vs = [] \<longrightarrow> hist_num vs \<noteq> 0" using zs by simp
      then show ?thesis using us b by (simp add: hist_add_def hist_of_parts Let_def hist_num_simps m)
    next
      assume "vs = []"
      moreover have "hist_num us = 0 \<longrightarrow> hist_min us = 0 \<and> hist_max us = 0" using zs m by simp
      ultimately show ?thesis using b by (simp add: hist_add_def hist_of_parts Let_def hist_num_simps m)
    qed
  qed
  then show ?thesis
    using hist_run[OF assms(1), of "[]"] assms(2) z by simp
qed

theorem histograms_merge_witness:
  "\<exists>h. foldM (hist_update (\<lambda>v. 3)) [5, 9, 2] StatHist = Some h \<and> sh_n h = 3 \<and> sh_min h = 2 \<and> sh_max h = 9"
proof -
  have "foldM (hist_update (\<lambda>v. 3)) ([5, 9] @ [2]) StatHist = Some (hist_add (hist_of (\<lambda>v. 3) [5, 9]) (hist_of (\<lambda>v. 3) [2]))"
    using histograms_merge[of "\<lambda>v. 3" "[5, 9]" "[2]"] by simp
  then show ?thesis by (simp add: hist_add_def hist_of_def)
qed

end
