(* ===== verification/ThermalLoop.thy ===== *)
theory ThermalLoop
  imports PowerModel Dvfs StatsRegistry
begin

section \<open>The thermal loop\<close>

text \<open>
  Model of the loop of \<^verbatim>\<open>misc/stats.{h,cc}\<close> that closes the circle of the simulator: \<^verbatim>\<open>recordStats\<close> reads the
  statistics of the stacked DRAM, writes the power trace, lets HotSpot compute a temperature for every unit
  of the floorplan and calls \<^verbatim>\<open>callHotSpot\<close>'s second half, which hands the temperatures to the remapping
  manager, the DVFS governor and the access counters, and starts the remapping mechanism.

  HotSpot is an argument: \<open>te_initHotSpot\<close> and \<open>te_calculateTemperature\<close> work on a state of their own, the file
  with the power trace and the vector of temperatures, which the second one overwrites. \<open>now\<close> is
  \<^verbatim>\<open>m_current_time\<close>, which \<^verbatim>\<open>updateCurrentTime\<close> keeps. The printed lines, the files of the power and the
  temperature trace (with \<^verbatim>\<open>ttrace_num\<close>) and the SQL statements around the table of values are left out.
\<close>

subsection \<open>State\<close>

type_synonym power_trace = "hs_unit list \<times> real list list"

record ('t, 'd, 'p, 'h) thermal_env =
  te_up :: "('t, 'd) up_env"
  te_getFS :: "'t \<Rightarrow> u64"
  te_MS1 :: 't
  te_fromFreqHz :: "real \<Rightarrow> 'p"
  te_getPeriod :: "'p \<Rightarrow> 't"
  te_initHotSpot :: "bool \<Rightarrow> bool \<Rightarrow> power_trace \<Rightarrow> 'h \<Rightarrow> 'h"
  te_calculateTemperature :: "power_trace \<Rightarrow> 'h \<Rightarrow> real list \<Rightarrow> real list \<times> 'h"
  te_app_cores :: u32
  te_dtm :: dtm_config
  te_temperature_type :: int
  te_power_scale :: int
  te_record_power :: bool
  te_pt_num :: int
  te_default_init_temp :: bool

record ('t, 'd, 'p, 'h, 'o) thermal =
  th_unison :: "('t, 'd) unison_perf"
  th_dvfs :: "('t, 'p) dvfs_manager"
  th_governor :: governor
  th_power :: "'t power_state"
  th_registry :: "'o registry"
  th_values :: "(int \<times> int \<times> int \<times> int) list"
  th_prefixnum :: u64
  th_last_record_time :: 't
  th_record_interval :: 't
  th_reverse_flp :: bool
  th_first_ttrace :: bool
  th_start_hotspot :: bool
  th_hotspot :: 'h
  th_trace :: power_trace
  th_unit_num :: nat
  th_unit_temp :: "real list"
  th_prev_bank_temp :: "real list list"
  th_hot_access :: "u32 list list"
  th_cool_access :: "u32 list list"
  th_err_access :: "u32 list list"

text \<open>The local variables of \<^verbatim>\<open>callHotSpot\<close>.\<close>

record heat =
  he_max_temp :: real
  he_max_cntlr_temp :: real
  he_max_bank_temp :: real
  he_avg_temp_cpu :: real
  he_avg_temp_dram :: real
  he_core_avg_temp :: "real list"
  he_core_max_temp :: "real list"

definition no_heat :: heat where
  "no_heat = \<lparr>he_max_temp = 0, he_max_cntlr_temp = 0, he_max_bank_temp = 0, he_avg_temp_cpu = 0, he_avg_temp_dram = 0,
     he_core_avg_temp = replicate 4 0, he_core_max_temp = replicate 4 0\<rparr>"

text \<open>\<^verbatim>\<open>a[i][j]\<close> for arrays of arrays.\<close>

definition cell :: "'a list list \<Rightarrow> nat \<Rightarrow> nat \<Rightarrow> 'a option" where
  "cell xss i j = do { row \<leftarrow> ifetch xss (int i); ifetch row (int j) }"

definition set_cell :: "'a list list \<Rightarrow> nat \<Rightarrow> nat \<Rightarrow> 'a \<Rightarrow> 'a list list option" where
  "set_cell xss i j x = do {
     row \<leftarrow> ifetch xss (int i);
     row \<leftarrow> istore row (int j) x;
     istore xss (int i) row
   }"

subsection \<open>One unit of the floorplan\<close>

text \<open>The first forty units are the ten units of each of the four cores.\<close>

definition core_unit_temp :: "nat \<Rightarrow> real \<Rightarrow> heat \<Rightarrow> heat option" where
  "core_unit_temp i t h = do {
     let core_id = int (i div 10);
     a \<leftarrow> ifetch (he_core_avg_temp h) core_id;
     avgs \<leftarrow> istore (he_core_avg_temp h) core_id (a + t);
     m \<leftarrow> ifetch (he_core_max_temp h) core_id;
     maxs \<leftarrow> istore (he_core_max_temp h) core_id (if m < t then t else m);
     Some (h\<lparr>he_avg_temp_cpu := he_avg_temp_cpu h + t, he_core_avg_temp := avgs, he_core_max_temp := maxs\<rparr>)
   }"

definition count_access :: "nat \<Rightarrow> nat \<Rightarrow> real \<Rightarrow> u32 \<Rightarrow> ('t, 'd, 'p, 'h, 'o) thermal \<Rightarrow> ('t, 'd, 'p, 'h, 'o) thermal option" where
  "count_access v b prev n s =
     (if prev > 85 then do {
        x \<leftarrow> cell (th_hot_access s) v b;
        xs \<leftarrow> set_cell (th_hot_access s) v b (x + n);
        let s = s\<lparr>th_hot_access := xs\<rparr>;
        if prev > 95 then do {
          x \<leftarrow> cell (th_err_access s) v b;
          xs \<leftarrow> set_cell (th_err_access s) v b (x + n);
          Some (s\<lparr>th_err_access := xs\<rparr>) }
        else Some s }
      else if up_enter_roi (th_unison s) then do {
        x \<leftarrow> cell (th_cool_access s) v b;
        xs \<leftarrow> set_cell (th_cool_access s) v b (x + n);
        Some (s\<lparr>th_cool_access := xs\<rparr>) }
      else Some s)"

text \<open>The units from 72 on are the banks: bank 0 of all vaults, then bank 1, and so on.\<close>

definition bank_unit_temp :: "('t, 'd, 'p, 'h) thermal_env \<Rightarrow> bool \<Rightarrow> nat \<Rightarrow> real \<Rightarrow> ('t, 'd, 'p, 'h, 'o) thermal \<Rightarrow>
    ('t, 'd, 'p, 'h, 'o) thermal option" where
  "bank_unit_temp E inROI i t s = do {
     let v = (i - 72) mod 32;
     let b = (i - 72) div 32;
     tmp \<leftarrow> cell (pw_bank_interval (th_power s)) v b;
     vault_temp \<leftarrow> ifetch (th_unit_temp s) (40 + int v);
     u \<leftarrow> unison_updateTemperature (en_dram (te_up E)) inROI (en_cfg (te_up E)) (word_of_nat v) (word_of_nat b) t (th_unison s);
     let s = s\<lparr>th_unison := u\<rparr>;
     prev \<leftarrow> cell (th_prev_bank_temp s) v b;
     s \<leftarrow> count_access v b prev (st_reads tmp + st_writes tmp) s;
     prevs \<leftarrow> set_cell (th_prev_bank_temp s) v b t;
     Some (s\<lparr>th_prev_bank_temp := prevs\<rparr>)
   }"

definition unit_temp_step :: "('t, 'd, 'p, 'h) thermal_env \<Rightarrow> bool \<Rightarrow> nat \<Rightarrow> heat \<times> ('t, 'd, 'p, 'h, 'o) thermal \<Rightarrow>
    (heat \<times> ('t, 'd, 'p, 'h, 'o) thermal) option" where
  "unit_temp_step E inROI i hs = do {
     let (h, s) = hs;
     t \<leftarrow> ifetch (th_unit_temp s) (int i);
     let h = (if t > he_max_temp h then h\<lparr>he_max_temp := t\<rparr> else h);
     h \<leftarrow> (if i < 40 then core_unit_temp i t h else Some h);
     let h = (if i \<ge> 40 \<and> i < 72 then h\<lparr>he_avg_temp_dram := he_avg_temp_dram h + t\<rparr> else h);
     let h = (if i \<ge> 40 \<and> i < 72 \<and> t > he_max_cntlr_temp h then h\<lparr>he_max_cntlr_temp := t\<rparr> else h);
     let h = (if i \<ge> 72 \<and> t > he_max_bank_temp h then h\<lparr>he_max_bank_temp := t\<rparr> else h);
     s \<leftarrow> (if i \<ge> 72 then bank_unit_temp E inROI i t s else Some s);
     Some (h, s)
   }"

subsection \<open>One round of the loop\<close>

definition callHotSpot :: "('t, 'd, 'p, 'h) thermal_env \<Rightarrow> bool \<Rightarrow> ('t, 'd, 'p, 'h, 'o) thermal \<Rightarrow> ('t, 'd, 'p, 'h, 'o) thermal option" where
  "callHotSpot E inROI s = do {
     let s = (if \<not> th_first_ttrace s
              then s\<lparr>th_first_ttrace := True, th_hotspot := te_initHotSpot E (th_reverse_flp s) (te_default_init_temp E) (th_trace s) (th_hotspot s)\<rparr>
              else s);
     let (temps, hs) = te_calculateTemperature E (th_trace s) (th_hotspot s) (th_unit_temp s);
     let s = s\<lparr>th_unit_temp := temps, th_hotspot := hs\<rparr>;
     (h, s) \<leftarrow> foldM (unit_temp_step E inROI) [0..<th_unit_num s] (no_heat, s);
     let core_avg_temp = map (\<lambda>a. a / 10) (he_core_avg_temp h);
     (g, d) \<leftarrow> checkDTM (te_fromFreqHz E) (te_getPeriod E) (te_app_cores E) (te_dtm E)
       (if te_temperature_type E = 0 then core_avg_temp else he_core_max_temp h) (he_max_bank_temp h) (th_governor s, th_dvfs s);
     u \<leftarrow> tryRemapping (th_unison s);
     Some (s\<lparr>th_governor := g, th_dvfs := d, th_unison := clearCacheStats u\<rparr>)
   }"

text \<open>A metric as \<open>updatePower\<close> reads it.\<close>

definition metric_of :: "('o \<Rightarrow> u64) \<Rightarrow> 'o registry \<Rightarrow> metrics" where
  "metric_of recordMetric r = (\<lambda>n i m. map_option recordMetric (getMetricObject n i m r))"

definition recordStats :: "('t::{comm_monoid_add, minus}, 'd, 'p, 'h) thermal_env \<Rightarrow> bool \<Rightarrow> ('o \<Rightarrow> bool) \<Rightarrow> ('o \<Rightarrow> u64) \<Rightarrow> 't \<Rightarrow>
    ('t, 'd, 'p, 'h, 'o) thermal \<Rightarrow> ('t, 'd, 'p, 'h, 'o) thermal option" where
  "recordStats E inROI isDefault recordMetric now s = do {
     let interval = now - th_last_record_time s;
     let interval = (if interval = 0 then te_MS1 E else interval);
     let s = s\<lparr>th_record_interval := interval, th_last_record_time := now, th_prefixnum := th_prefixnum s + 1\<rparr>;
     let prefixid = sint (ucast (th_prefixnum s) :: u32);
     u \<leftarrow> updateStats (en_dram (te_up E)) (en_ns (te_up E)) (th_unison s);
     let s = s\<lparr>th_unison := u\<rparr>;
     (trace, p) \<leftarrow> (if \<not> th_reverse_flp s
       then dumpHotspotInput (te_getFS E) (en_getNS (te_up E)) (metric_of recordMetric (th_registry s)) (te_power_scale E)
         (te_record_power E) (te_pt_num E) (th_record_interval s) (th_unison s) (th_power s)
       else dumpHotspotInputReverse (te_getFS E) (en_getNS (te_up E)) (metric_of recordMetric (th_registry s)) (te_power_scale E)
         (th_record_interval s) (th_unison s) (th_power s));
     let s = s\<lparr>th_trace := trace, th_power := p\<rparr>;
     s \<leftarrow> (if pw_dyn_proc (th_power s) > 0.001 \<or> th_start_hotspot s then do {
         s \<leftarrow> callHotSpot E inROI s;
         Some (s\<lparr>th_start_hotspot := True\<rparr>) }
       else Some s);
     Some (s\<lparr>th_values := th_values s @ record_values isDefault recordMetric prefixid (th_registry s)\<rparr>)
   }"

text \<open>The sensors that other parts of the simulator read.\<close>

definition getDramCntlrTemp :: "u32 \<Rightarrow> ('t, 'd, 'p, 'h, 'o) thermal \<Rightarrow> real option" where
  "getDramCntlrTemp vault_num s = fetch (th_unit_temp s) (40 + vault_num)"

definition getDramBankTemp :: "u32 \<Rightarrow> u32 \<Rightarrow> ('t, 'd, 'p, 'h, 'o) thermal \<Rightarrow> real option" where
  "getDramBankTemp vault_num bank_num s = fetch (th_unit_temp s) (40 + 32 + bank_num * 32 + vault_num)"


subsection \<open>Temperatures\<close>

text \<open>The ten temperatures of a core, and what the loop computes from them.\<close>

definition core_temps :: "real list \<Rightarrow> nat \<Rightarrow> real list" where
  "core_temps ts c = take 10 (drop (10 * c) ts)"

definition hottest_of :: "real list \<Rightarrow> real" where
  "hottest_of ts = fold max ts 0"

definition cpu_readings :: "int \<Rightarrow> real list \<Rightarrow> real list" where
  "cpu_readings temperature_type ts = map (\<lambda>c. if temperature_type = 0 then sum_list (core_temps ts c) / 10
     else hottest_of (core_temps ts c)) [0..<4]"

definition bank_slot :: "nat \<Rightarrow> nat" where
  "bank_slot j = ((j - 72) mod 32) * 8 + (j - 72) div 32"

lemma bank_slot_parts:
  assumes "72 \<le> j" "j < 328"
  shows "bank_slot j div 8 = (j - 72) mod 32" "bank_slot j mod 8 = (j - 72) div 32"
proof -
  have "(j - 72) div 32 < 8" using assms by (simp add: div_less_iff_less_mult)
  then show "bank_slot j div 8 = (j - 72) mod 32" "bank_slot j mod 8 = (j - 72) div 32"
    unfolding bank_slot_def by (simp_all add: div_mult_self3)
qed

lemma bank_slot_inj:
  assumes "72 \<le> j" "j < 328" "72 \<le> k" "k < 328" "bank_slot j = bank_slot k"
  shows "j = k"
proof -
  have "(j - 72) mod 32 = (k - 72) mod 32" "(j - 72) div 32 = (k - 72) div 32"
    using bank_slot_parts[OF assms(1,2)] bank_slot_parts[OF assms(3,4)] assms(5) by simp_all
  then have "j - 72 = k - 72" by (metis mult_div_mod_eq)
  then show ?thesis using assms(1,3) by simp
qed

lemma bank_slot_of: "v < 32 \<Longrightarrow> b < 8 \<Longrightarrow> bank_slot (72 + 32 * b + v) = v * 8 + b"
  by (simp add: bank_slot_def)

lemma core_temps_step:
  assumes "i < length ts"
  shows "core_temps (take (Suc i) ts) c = core_temps (take i ts) c @ (if i div 10 = c then [ts ! i] else [])"
proof -
  have t: "take (Suc i) ts = take i ts @ [ts ! i]" by (rule take_Suc_conv_app_nth[OF assms])
  have l: "length (take i ts) = i" using assms by simp
  consider "i < 10 * c" | "10 * c \<le> i" "i < 10 * c + 10" | "10 * c + 10 \<le> i" by linarith
  then show ?thesis
  proof cases
    case 1
    then have "i div 10 < c" by (simp add: div_less_iff_less_mult mult.commute)
    then show ?thesis using 1 l by (simp add: core_temps_def t)
  next
    case 2
    then have "i div 10 = c" by (intro div_nat_eqI) simp_all
    then show ?thesis using 2 l by (simp add: core_temps_def t)
  next
    case 3
    then have "c < i div 10" by (simp add: less_eq_div_iff_mult_less_eq Suc_le_eq[symmetric])
    then show ?thesis using 3 l by (simp add: core_temps_def t)
  qed
qed

lemma hottest_of_snoc: "hottest_of (ts @ [t]) = (if hottest_of ts < t then t else hottest_of ts)"
  by (simp add: hottest_of_def max_def)

lemma hottest_of_nil [simp]: "hottest_of [] = 0"
  by (simp add: hottest_of_def)

text \<open>What the local variables hold after the first \<open>i\<close> units.\<close>

definition heat_at :: "real list \<Rightarrow> nat \<Rightarrow> heat \<Rightarrow> bool" where
  "heat_at ts i h \<longleftrightarrow> he_core_avg_temp h = map (\<lambda>c. sum_list (core_temps (take i ts) c)) [0..<4] \<and>
     he_core_max_temp h = map (\<lambda>c. hottest_of (core_temps (take i ts) c)) [0..<4] \<and>
     he_max_bank_temp h = hottest_of (drop 72 (take i ts))"

lemma heat_at_0: "heat_at ts 0 no_heat"
  by (simp add: heat_at_def no_heat_def core_temps_def map_replicate_const)

lemma core_unit_temp_runs:
  assumes "heat_at ts i h" "i < 40" "i < length ts"
  shows "runs (core_unit_temp i (ts ! i) h) (heat_at ts (Suc i))"
proof -
  have c: "i div 10 < 4" using assms(2) by (simp add: div_less_iff_less_mult)
  have b: "drop 72 (take (Suc i) ts) = []" "drop 72 (take i ts) = []" using assms(2) by simp_all
  have a: "(he_core_avg_temp h)[i div 10 := he_core_avg_temp h ! (i div 10) + ts ! i] = map (\<lambda>c. sum_list (core_temps (take (Suc i) ts) c)) [0..<4]"
    using assms(1) c by (auto simp: heat_at_def list_eq_iff_nth_eq nth_list_update core_temps_step[OF assms(3)])
  have m: "(he_core_max_temp h)[i div 10 := if he_core_max_temp h ! (i div 10) < ts ! i then ts ! i else he_core_max_temp h ! (i div 10)] =
      map (\<lambda>c. hottest_of (core_temps (take (Suc i) ts) c)) [0..<4]"
    using assms(1) c by (auto simp: heat_at_def list_eq_iff_nth_eq nth_list_update core_temps_step[OF assms(3)] hottest_of_snoc)
  have l: "length (he_core_avg_temp h) = 4" "length (he_core_max_temp h) = 4" using assms(1) by (simp_all add: heat_at_def)
  have "he_max_bank_temp h = hottest_of (drop 72 (take (Suc i) ts))" using assms(1) unfolding heat_at_def b by simp
  then show ?thesis
    unfolding core_unit_temp_def Let_def runs_bind runs_ifetch runs_istore runs_Some heat_at_def nat_int
    using c l a m by simp
qed

lemma heat_at_other:
  assumes "heat_at ts i h" "40 \<le> i" "i < length ts" "he_core_avg_temp h' = he_core_avg_temp h" "he_core_max_temp h' = he_core_max_temp h"
    "he_max_bank_temp h' = (if 72 \<le> i \<and> ts ! i > he_max_bank_temp h then ts ! i else he_max_bank_temp h)"
  shows "heat_at ts (Suc i) h'"
proof -
  have c: "core_temps (take (Suc i) ts) c = core_temps (take i ts) c" if "c < 4" for c
  proof -
    have "4 \<le> i div 10" using assms(2) by (simp add: less_eq_div_iff_mult_less_eq)
    then show ?thesis using that by (simp add: core_temps_step[OF assms(3)])
  qed
  have "drop 72 (take (Suc i) ts) = drop 72 (take i ts) @ (if 72 \<le> i then [ts ! i] else [])"
    using assms(3) by (simp add: take_Suc_conv_app_nth)
  then have "he_max_bank_temp h' = hottest_of (drop 72 (take (Suc i) ts))"
    using assms(1,6) by (simp add: heat_at_def hottest_of_snoc)
  then show ?thesis using assms(1,4,5) c by (simp add: heat_at_def)
qed


subsection \<open>The loop over the units\<close>

text \<open>What a temperature does to the controller.\<close>

definition same_policy :: "('t, 'd) unison_perf \<Rightarrow> ('t, 'd) unison_perf \<Rightarrow> bool" where
  "same_policy u u' \<longleftrightarrow> up_enable_remap u' = up_enable_remap u \<and>
     rm_high_thres (up_remap_manager u') = rm_high_thres (up_remap_manager u) \<and>
     rm_remap_thres (up_remap_manager u') = rm_remap_thres (up_remap_manager u)"

lemma set_bank_hot_frame: "ensures (set_bank_hot v b h u) (\<lambda>u'. up_enable_remap u' = up_enable_remap u \<and> up_remapped u' = up_remapped u \<and>
    up_remap_manager u' = up_remap_manager u)"
  by (auto simp: set_bank_hot_def ensures_def Let_def split: bind_splits)

lemma updateTemperature_sets:
  "ensures (unison_updateTemperature D roi cfg v b t u) (\<lambda>u'. same_policy u u' \<and> up_remapped u' \<and>
     temp_of (up_remap_manager u') = (temp_of (up_remap_manager u))(unat (getBankId (up_remap_manager u) v b) := t))"
proof -
  let ?u0 = "if roi then u\<lparr>up_enter_roi := True\<rparr> else u"
  have m: "ensures (updateTemperature v b t m) (\<lambda>m'. rm_high_thres m' = rm_high_thres m \<and> rm_remap_thres m' = rm_remap_thres m \<and>
      temp_of m' = (temp_of m)(unat (getBankId m v b) := t))" for m
    by (auto simp: ensures_def updateTemperature_def phy_upd_def fetch_def store_def temp_of_def fun_eq_iff nth_list_update split: bind_splits if_splits)
  show ?thesis
    unfolding unison_updateTemperature_def Let_def ensures_bind
    by (rule ensures_mono[OF m], rule ensures_mono[OF set_bank_hot_frame])
       (auto simp: ensures_bind same_policy_def intro!: ensures_any)
qed

definition banks_read :: "('t, 'd) up_env \<Rightarrow> ('d \<Rightarrow> bool) \<Rightarrow> u32 \<Rightarrow> ('t, 'd) unison_perf \<Rightarrow> real list \<Rightarrow> nat \<Rightarrow> ('t, 'd) unison_perf \<Rightarrow> bool" where
  "banks_read E dinv nr u0 ts i u \<longleftrightarrow> up_inv E dinv (32, 8, nr) u \<and> same_policy u0 u \<and> (72 < i \<longrightarrow> up_remapped u) \<and>
     (\<forall>j. 72 \<le> j \<and> j < i \<longrightarrow> temp_of (up_remap_manager u) (bank_slot j) = ts ! j)"

lemma small_nat: "k < 32 \<Longrightarrow> unat (word_of_nat k :: u32) = k" "k < 8 \<Longrightarrow> unat (word_of_nat k :: u32) = k"
  by (simp_all add: unat_of_nat)

lemma banks_read_step:
  fixes E :: "('t::{comm_monoid_add, linorder}, 'd) up_env"
  assumes I: "banks_read E dinv nr u0 ts i u" and i: "72 \<le> i" "i < 328"
  shows "runs (unison_updateTemperature (en_dram E) roi (en_cfg E) (word_of_nat ((i - 72) mod 32)) (word_of_nat ((i - 72) div 32)) (ts ! i) u)
     (banks_read E dinv nr u0 ts (Suc i))"
proof -
  let ?v = "word_of_nat ((i - 72) mod 32) :: u32" and ?b = "word_of_nat ((i - 72) div 32) :: u32"
  have b8: "(i - 72) div 32 < 8" using i by (simp add: div_less_iff_less_mult)
  have v32: "(i - 72) mod 32 < 32" by simp
  have n: "unat ?v = (i - 72) mod 32" "unat ?b = (i - 72) div 32" using b8 v32 by (simp_all only: small_nat)
  have inv: "up_inv E dinv (32, 8, nr) u" using I by (simp add: banks_read_def)
  then have g: "up_n_vaults u = 32" "up_n_banks u = 8" "up_ok (en_cfg E) u" by (simp_all add: up_inv_def up_geo_def)
  have lt: "?v < 32" "?b < 8" using n b8 v32 by (simp_all add: word_less_nat_alt)
  have m: "rm_ok (up_remap_manager u)" "rm_n_vaults (up_remap_manager u) = 32" "rm_n_banks (up_remap_manager u) = 8"
    using g by (simp_all add: up_ok_def)
  have slot: "unat (getBankId (up_remap_manager u) ?v ?b) = bank_slot i"
    using getBankId_in(1)[OF m(1), of ?v ?b] lt m(2,3) n by (simp add: bank_slot_def)
  have "runs (unison_updateTemperature (en_dram E) roi (en_cfg E) ?v ?b (ts ! i) u) (up_inv E dinv (32, 8, nr))"
    using up_step_runs[OF inv, of "UTemperature roi ?v ?b (ts ! i)"] lt by simp
  from runs_ensures[OF this updateTemperature_sets] show ?thesis
    unfolding slot
  proof (rule runs_mono, elim conjE)
    fix u' assume u': "up_inv E dinv (32, 8, nr) u'" "same_policy u u'" "up_remapped u'"
      "temp_of (up_remap_manager u') = (temp_of (up_remap_manager u))(bank_slot i := ts ! i)"
    have "temp_of (up_remap_manager u') (bank_slot j) = ts ! j" if j: "72 \<le> j" "j < Suc i" for j
    proof (cases "j = i")
      case False
      then have "bank_slot j \<noteq> bank_slot i" using bank_slot_inj[of j i] j i by auto
      then show ?thesis using I j False u'(4) by (simp add: banks_read_def)
    qed (simp add: u'(4))
    then show "banks_read E dinv nr u0 ts (Suc i) u'"
      using I u'(1-3) by (auto simp: banks_read_def same_policy_def)
  qed
qed

text \<open>The shape of the counters.\<close>

definition counters_ok :: "('t, 'd, 'p, 'h, 'o) thermal \<Rightarrow> bool" where
  "counters_ok s \<longleftrightarrow> grid 32 8 (th_prev_bank_temp s) \<and> grid 32 8 (th_hot_access s) \<and> grid 32 8 (th_cool_access s) \<and> grid 32 8 (th_err_access s)"

definition other_state :: "('t, 'd, 'p, 'h, 'o) thermal \<Rightarrow> ('t, 'd, 'p, 'h, 'o) thermal" where
  "other_state s = s\<lparr>th_unison := undefined, th_prev_bank_temp := [], th_hot_access := [], th_cool_access := [], th_err_access := []\<rparr>"

lemma runs_cell: "grid 32 8 xss \<Longrightarrow> v < 32 \<Longrightarrow> b < 8 \<Longrightarrow> runs (cell xss v b) Q \<longleftrightarrow> Q (xss ! v ! b)"
  by (simp add: cell_def runs_bind runs_ifetch grid_nth) (simp add: grid_def)

lemma runs_set_cell: "grid 32 8 xss \<Longrightarrow> v < 32 \<Longrightarrow> b < 8 \<Longrightarrow> runs (set_cell xss v b x) (grid 32 8)"
  by (simp add: set_cell_def runs_bind runs_ifetch runs_istore grid_nth grid_update) (simp add: grid_def)

lemma count_access_runs:
  assumes "counters_ok s" "v < 32" "b < 8"
  shows "runs (count_access v b prev n s) (\<lambda>s'. counters_ok s' \<and> other_state s' = other_state s \<and> th_unison s' = th_unison s)"
  using assms unfolding count_access_def Let_def
  by (auto simp: counters_ok_def other_state_def runs_bind runs_cell intro!: runs_mono[OF runs_set_cell])


definition loop_at :: "('t, 'd, 'p, 'h) thermal_env \<Rightarrow> ('d \<Rightarrow> bool) \<Rightarrow> u32 \<Rightarrow> ('t, 'd, 'p, 'h, 'o) thermal \<Rightarrow> nat \<Rightarrow>
    heat \<times> ('t, 'd, 'p, 'h, 'o) thermal \<Rightarrow> bool" where
  "loop_at E dinv nr s0 i = (\<lambda>(h, s). heat_at (th_unit_temp s0) i h \<and> counters_ok s \<and> other_state s = other_state s0 \<and>
     banks_read (te_up E) dinv nr (th_unison s0) (th_unit_temp s0) i (th_unison s))"

lemma other_state_same:
  assumes "other_state s = other_state s0"
  shows "th_power s = th_power s0" "th_unit_temp s = th_unit_temp s0" "th_governor s = th_governor s0" "th_dvfs s = th_dvfs s0"
    "th_unit_num s = th_unit_num s0" "th_registry s = th_registry s0" "th_start_hotspot s = th_start_hotspot s0" "th_values s = th_values s0"
  using assms by (cases s; cases s0; simp add: other_state_def)+

lemma bank_unit_temp_runs:
  fixes E :: "('t::{comm_monoid_add, linorder}, 'd, 'p, 'h) thermal_env"
  assumes ok: "counters_ok s" and p: "pw_ok (th_power s)" and l: "328 \<le> length (th_unit_temp s)" and i: "72 \<le> i" "i < 328"
    and b: "banks_read (te_up E) dinv nr u0 ts i (th_unison s)"
  shows "runs (bank_unit_temp E roi i (ts ! i) s) (\<lambda>s'. counters_ok s' \<and> other_state s' = other_state s \<and>
     banks_read (te_up E) dinv nr u0 ts (Suc i) (th_unison s'))"
proof -
  let ?v = "(i - 72) mod 32" and ?b = "(i - 72) div 32"
  have vb: "?v < 32" "?b < 8" using i by (simp_all add: div_less_iff_less_mult)
  have lv: "40 + ?v < length (th_unit_temp s)" using l vb by linarith
  have c: "counters_ok (s\<lparr>th_unison := u\<rparr>)" for u using ok by (simp add: counters_ok_def)
  have g: "grid 32 8 (pw_bank_interval (th_power s))" "grid 32 8 (th_prev_bank_temp s)" using p ok by (simp_all add: pw_ok_def counters_ok_def)
  have tail: "runs (count_access ?v ?b prev n (s\<lparr>th_unison := u\<rparr>) \<bind> (\<lambda>s'. set_cell (th_prev_bank_temp s') ?v ?b x \<bind> (\<lambda>ps. Some (s'\<lparr>th_prev_bank_temp := ps\<rparr>))))
      (\<lambda>s'. counters_ok s' \<and> other_state s' = other_state s \<and> banks_read (te_up E) dinv nr u0 ts (Suc i) (th_unison s'))"
    if u: "banks_read (te_up E) dinv nr u0 ts (Suc i) u" for u prev n x
    unfolding runs_bind
  proof (rule runs_mono[OF count_access_runs[OF c vb]], elim conjE)
    fix s' assume s': "counters_ok s'" "other_state s' = other_state (s\<lparr>th_unison := u\<rparr>)" "th_unison s' = th_unison (s\<lparr>th_unison := u\<rparr>)"
    have "grid 32 8 (th_prev_bank_temp s')" using s'(1) by (simp add: counters_ok_def)
    then show "runs (set_cell (th_prev_bank_temp s') ?v ?b x) (\<lambda>ps. runs (Some (s'\<lparr>th_prev_bank_temp := ps\<rparr>))
        (\<lambda>s'. counters_ok s' \<and> other_state s' = other_state s \<and> banks_read (te_up E) dinv nr u0 ts (Suc i) (th_unison s')))"
      by (rule runs_mono[OF runs_set_cell[OF _ vb]]) (use s' u in \<open>auto simp: counters_ok_def other_state_def\<close>)
  qed
  show ?thesis
    unfolding bank_unit_temp_def Let_def runs_bind
    using lv vb g(2) by (simp add: runs_cell[OF g(1) vb] runs_ifetch runs_cell[OF g(2) vb] nat_add_distrib)
      (rule runs_mono[OF banks_read_step[OF b i]], use tail in \<open>simp add: runs_bind\<close>)
qed

lemma unit_temp_step_runs:
  fixes E :: "('t::{comm_monoid_add, linorder}, 'd, 'p, 'h) thermal_env"
  assumes I: "loop_at E dinv nr s0 i hs" and p: "pw_ok (th_power s0)" and l: "328 \<le> length (th_unit_temp s0)" and i: "i < 328"
  shows "runs (unit_temp_step E roi i hs) (loop_at E dinv nr s0 (Suc i))"
proof -
  obtain h s where hs: "hs = (h, s)" by (cases hs)
  let ?ts = "th_unit_temp s0"
  have R: "heat_at ?ts i h" "counters_ok s" "other_state s = other_state s0" "banks_read (te_up E) dinv nr (th_unison s0) ?ts i (th_unison s)"
    using I by (simp_all add: loop_at_def hs)
  note same = other_state_same[OF R(3)]
  have li: "i < length ?ts" using i l by simp
  define h1 where "h1 = (if ?ts ! i > he_max_temp h then h\<lparr>he_max_temp := ?ts ! i\<rparr> else h)"
  have get: "ifetch ?ts (int i) = Some (?ts ! i)" using li by (simp add: ifetch_def)
  have h1: "heat_at ?ts i h1" using R(1) by (simp add: h1_def heat_at_def)
  consider "i < 40" | "40 \<le> i" "i < 72" | "72 \<le> i" by linarith
  then show ?thesis
  proof cases
    case 1
    have "72 < Suc i \<longleftrightarrow> False" using 1 by simp
    then have b: "banks_read (te_up E) dinv nr (th_unison s0) ?ts (Suc i) (th_unison s)" using R(4) 1 by (simp add: banks_read_def)
    show ?thesis
      unfolding hs unit_temp_step_def Let_def prod.case same(2) get bind.bind_lunit h1_def[symmetric]
      using 1 li b R(2,3) by (auto simp: runs_bind loop_at_def intro!: runs_mono[OF core_unit_temp_runs[OF h1 1 li]])
  next
    case 2
    have b: "banks_read (te_up E) dinv nr (th_unison s0) ?ts (Suc i) (th_unison s)" using R(4) 2 by (auto simp: banks_read_def)
    show ?thesis
      unfolding hs unit_temp_step_def Let_def prod.case same(2) get bind.bind_lunit h1_def[symmetric]
      using 2 li b R(2,3) by (auto simp: runs_bind loop_at_def intro!: heat_at_other[OF h1 2(1) li])
  next
    case 3
    have bank: "runs (bank_unit_temp E roi i (?ts ! i) s) (\<lambda>s'. counters_ok s' \<and> other_state s' = other_state s \<and>
      banks_read (te_up E) dinv nr (th_unison s0) ?ts (Suc i) (th_unison s'))"
      by (rule bank_unit_temp_runs[OF R(2) _ _ 3 i R(4)]) (use p l same in simp_all)
    show ?thesis
      unfolding hs unit_temp_step_def Let_def prod.case same(2) get bind.bind_lunit h1_def[symmetric]
      using 3 li R(3) by (auto simp: runs_bind loop_at_def intro!: heat_at_other[OF h1 _ li] runs_mono[OF bank])
  qed
qed


subsection \<open>The policy stays\<close>

lemma same_policy_refl [simp]: "same_policy u u"
  by (simp add: same_policy_def)

lemma same_policy_trans: "same_policy u v \<Longrightarrow> same_policy v w \<Longrightarrow> same_policy u w"
  by (simp add: same_policy_def)

lemma set_number_policy:
  "ensures (splitSetNum fl cfg x u) (\<lambda>(y, u'). same_policy u u' \<and> up_remap_manager u' = up_remap_manager u)"
  "ensures (getSetNum fl cfg idx u) (\<lambda>(y, u'). same_policy u u' \<and> up_remap_manager u' = up_remap_manager u)"
  by (auto simp: splitSetNum_def getSetNum_def ensures_def same_policy_def up_say_if_def split: bind_splits prod.splits)

lemma accessRow_policy: "ensures (accessRow f v b r m) (\<lambda>m'. rm_high_thres m' = rm_high_thres m \<and> rm_remap_thres m' = rm_remap_thres m)"
  by (auto simp: accessRow_def ensures_def phy_upd_def bank_upd_def Let_def split: bind_splits if_splits)

lemma access_policy:
  "ensures (unison_getAccessLatency D fl ns getNS freq cfg t pkt x a u) (\<lambda>(lat, u'). same_policy u u')"
  unfolding unison_getAccessLatency_def Let_def
  by (rule ensures_skip(1), rule ensures_bind_pair[OF set_number_policy(1)], rule ensures_bind_pair[OF set_number_policy(2)],
      rule ensures_skip(4), rule ensures_skip(3), rule ensures_skip(1), rule ensures_skip(1), rule ensures_bindI[OF accessRow_policy],
      rule ensures_skip(2), rule ensures_skip(1)) (simp add: same_policy_def up_say_if_def)

lemma updateStats_policy: "ensures (updateStats D ns u) (same_policy u)"
proof -
  have bank: "ensures (update_one_bank D ns i j w) (same_policy u)" if "same_policy u w" for i j w
    using that by (auto simp: update_one_bank_def ensures_def same_policy_def Let_def split: bind_splits)
  have vault: "ensures (update_one_vault D ns i w) (same_policy u)" if "same_policy u w" for i w
    unfolding update_one_vault_def Let_def ensures_bind
    by (intro ensures_any foldM_ensures[where I = "same_policy u"] bank) (use that in \<open>simp_all add: same_policy_def\<close>)
  show ?thesis unfolding updateStats_def by (rule foldM_ensures) (simp_all add: vault)
qed

lemma manager_policy:
  assumes "up_ok cfg u" "rm_event_ok (up_n_vaults u) (up_n_banks u) e"
  shows "ensures (rm_step e (up_remap_manager u)) (\<lambda>m. same_policy u (u\<lparr>up_remap_manager := m\<rparr>))"
proof -
  have "rm_ok (up_remap_manager u)" "rm_event_ok (rm_n_vaults (up_remap_manager u)) (rm_n_banks (up_remap_manager u)) e"
    using assms by (auto simp: up_ok_def)
  from ensures_of_runs[OF rm_step_runs[OF this]] show ?thesis
    by (rule ensures_mono) (simp add: same_policy_def same_config_def)
qed

lemma up_step_policy:
  assumes inv: "up_inv E dinv geo u"
  shows "ensures (up_step E e u) (same_policy u)"
proof -
  have ok: "up_ok (en_cfg E) u" using inv by (simp add: up_inv_def)
  show ?thesis
  proof (cases e)
    case (UAccess t p x a)
    show ?thesis unfolding UAccess up_step.simps ensures_bind
      by (rule ensures_mono[OF access_policy]) auto
  next
    case (UTemperature roi v b temp)
    show ?thesis unfolding UTemperature up_step.simps by (rule ensures_mono[OF updateTemperature_sets]) simp
  next
    case UTryRemapping
    show ?thesis unfolding UTryRemapping up_step.simps tryRemapping_def
      using manager_policy[OF ok, of RunMechanism] by (auto simp: ensures_bind)
  next
    case UClearRemapping
    show ?thesis unfolding UClearRemapping up_step.simps clearRemappingStat_def
      using manager_policy[OF ok, of "ResetStats False"] by (auto simp: ensures_bind)
  next
    case UUpdateStats
    show ?thesis unfolding UUpdateStats up_step.simps by (rule updateStats_policy)
  qed (simp add: clearCacheStats_def same_policy_def)
qed


subsection \<open>Remapping with the new temperatures\<close>

lemma tryRemapping_cool:
  assumes ok: "up_ok cfg u" and on: "up_remapped u" "up_enable_remap u" and one: "cf_n_remap cfg = 1"
    and th: "rm_remap_thres (up_remap_manager u) \<le> rm_high_thres (up_remap_manager u)"
  shows "runs (tryRemapping u) (\<lambda>u'. up_ok cfg u' \<and> up_geo u' = up_geo u \<and> up_dram_model u' = up_dram_model u \<and> same_policy u u' \<and>
     up_remapped u' \<and> temp_of (up_remap_manager u') = temp_of (up_remap_manager u) \<and>
     (\<forall>i<unat (rm_tot_banks (up_remap_manager u')). bank_safe (up_remap_manager u') i))"
proof -
  let ?m = "up_remap_manager u"
  have m: "rm_ok ?m" "rm_n_remap ?m = 1" using ok one by (auto simp: up_ok_def)
  have step: "runs (runMechanism ?m) (\<lambda>m. rm_ok m \<and> same_frame ?m m \<and> (\<forall>i<unat (rm_tot_banks m). bank_safe m i))"
    by (rule runs_mono[OF runMechanism_redirects[OF m th]]) (auto simp: same_frame_def)
  show ?thesis
    unfolding tryRemapping_def using on
    by (auto simp: runs_bind up_geo_def same_frame_def same_config_def same_policy_def
        intro!: runs_mono[OF step] up_ok_frame[OF ok])
qed

text \<open>When every bank is safe, a set that is not disabled is served by a bank below the hot threshold.\<close>

lemma safe_sets:
  assumes ok: "up_ok cfg u" and fl: "floorLog2_ok floorLog2" and x: "unat x < set_count u"
    and safe: "\<forall>i<unat (rm_tot_banks (up_remap_manager u)). bank_safe (up_remap_manager u) i"
  shows "\<exists>dis t v b r. checkSetDisabled floorLog2 cfg x u = Some (dis, u) \<and> getRemapSet floorLog2 cfg x u = Some (t, u) \<and>
     splitSetNum floorLog2 cfg t u = Some ((v, b, r), u) \<and> v < up_n_vaults u \<and> b < up_n_banks u \<and>
     (\<not> dis \<longrightarrow> temp_of (up_remap_manager u) (unat (getBankId (up_remap_manager u) v b))
        < real (unat (rm_high_thres (up_remap_manager u))))"
proof -
  let ?m = "up_remap_manager u"
  obtain v b r v' b' t where idx: "splitSetNum floorLog2 cfg x u = Some ((v, b, r), u)"
    "v < up_n_vaults u" "b < up_n_banks u" "getRemapSet floorLog2 cfg x u = Some (t, u)" "unat t < set_count u"
    "splitSetNum floorLog2 cfg t u = Some ((v', b', r), u)"
    "getBankId ?m v' b' = bs_logical_id (rm_bank_stat ?m ! unat (getBankId ?m v b))"
    using getRemapSet_runs[OF ok fl x] by blast
  have t: "v' < up_n_vaults u" "b' < up_n_banks u" using getRemapSet_runs[OF ok fl idx(5)] idx(6) by auto
  have m: "rm_ok ?m" "v < rm_n_vaults ?m" "b < rm_n_banks ?m" using ok idx(2,3) by (auto simp: up_ok_def)
  note k = getBankId_in(2)[OF m]
  let ?b = "rm_bank_stat ?m ! unat (getBankId ?m v b)"
  have "checkSetDisabled floorLog2 cfg x u = Some (bs_disabled ?b, u)"
    using rm_ok_bank(1)[OF m(1) k]
    by (simp add: checkSetDisabled_def idx(1) checkRowDisabled_def checkDisabled_def bank_at_def fetch_in)
  moreover have "temp_of ?m (unat (getBankId ?m v' b')) < real (unat (rm_high_thres ?m))" if "\<not> bs_disabled ?b"
    using safe_serving_bank[OF m(1) safe k] that by (simp add: is_hot_def idx(7))
  ultimately show ?thesis using idx(4,6) t by blast
qed

lemma checkDTM_any:
  assumes rel: "gov_rel fr d0 g0 a s" and th: "0 \<le> dt_cpu_temp_thres cfg"
  shows "runs (checkDTM fr getPeriod (dv_num_app_cores d0) cfg cpu dram s) (\<lambda>s'. \<exists>a'. gov_rel fr d0 g0 a' s' \<and>
     (dt_method cfg \<in> {1, 2} \<longrightarrow> a' = next_state (length (gv_freq_table g0) - 1) (dtm_hot cfg cpu dram) a))"
proof (cases "dt_method cfg \<in> {1, 2}")
  case True
  show ?thesis by (rule runs_mono[OF checkDTM_runs[OF rel True th]]) blast
next
  case False
  then have "checkDTM fr getPeriod (dv_num_app_cores d0) cfg cpu dram s = Some s" by (simp add: checkDTM_def Let_def)
  then show ?thesis by (rule runsI) (intro exI[of _ a] conjI impI rel, use False in blast)
qed

subsection \<open>The invariant of the loop\<close>

definition power_registered :: "'o registry \<Rightarrow> bool" where
  "power_registered r \<longleftrightarrow> (\<forall>(n, i)\<in>set power_metrics. getMetricObject n i ''power-dynamic'' r \<noteq> None)"

text \<open>HotSpot writes one value per unit in place.\<close>

definition thermal_env_ok :: "('t, 'd, 'p, 'h) thermal_env \<Rightarrow> bool" where
  "thermal_env_ok E \<longleftrightarrow> (\<forall>trace hs ts. length (fst (te_calculateTemperature E trace hs ts)) = length ts) \<and>
     0 \<le> dt_cpu_temp_thres (te_dtm E)"

definition governed :: "('t, 'd, 'p, 'h) thermal_env \<Rightarrow> ('t, 'p) dvfs_manager \<Rightarrow> governor \<Rightarrow> nat \<times> bool \<Rightarrow> ('t, 'd, 'p, 'h, 'o) thermal \<Rightarrow> bool" where
  "governed E d0 g0 a s \<longleftrightarrow> gov_rel (te_fromFreqHz E) d0 g0 a (th_governor s, th_dvfs s) \<and> te_app_cores E = dv_num_app_cores d0"

definition thermal_ok :: "('t, 'd, 'p, 'h) thermal_env \<Rightarrow> ('d \<Rightarrow> bool) \<Rightarrow> u32 \<Rightarrow> ('t, 'd, 'p, 'h, 'o) thermal \<Rightarrow> bool" where
  "thermal_ok E dinv nr s \<longleftrightarrow> thermal_env_ok E \<and> up_inv (te_up E) dinv (32, 8, nr) (th_unison s) \<and> pw_ok (th_power s) \<and> counters_ok s \<and>
     th_unit_num s = 328 \<and> 328 \<le> length (th_unit_temp s) \<and> power_registered (th_registry s)"

text \<open>The remapping policy redirects, and its thresholds are in order.\<close>

definition redirects :: "('t, 'd, 'p, 'h) thermal_env \<Rightarrow> ('t, 'd) unison_perf \<Rightarrow> bool" where
  "redirects E u \<longleftrightarrow> cf_n_remap (en_cfg (te_up E)) = 1 \<and> up_enable_remap u \<and>
     rm_remap_thres (up_remap_manager u) \<le> rm_high_thres (up_remap_manager u)"

definition bank_temps_seen :: "('t, 'd, 'p, 'h, 'o) thermal \<Rightarrow> bool" where
  "bank_temps_seen s \<longleftrightarrow> (\<forall>j. 72 \<le> j \<and> j < 328 \<longrightarrow> temp_of (up_remap_manager (th_unison s)) (bank_slot j) = th_unit_temp s ! j)"

definition banks_safe :: "('t, 'd) unison_perf \<Rightarrow> bool" where
  "banks_safe u \<longleftrightarrow> (\<forall>i<unat (rm_tot_banks (up_remap_manager u)). bank_safe (up_remap_manager u) i)"

lemma tryRemapping_round:
  fixes E :: "('t::{comm_monoid_add, linorder}, 'd) up_env"
  assumes b: "banks_read E dinv nr u0 ts 328 u"
  shows "runs (tryRemapping u) (\<lambda>u'. up_inv E dinv (32, 8, nr) (clearCacheStats u') \<and> same_policy u0 (clearCacheStats u') \<and>
     (cf_n_remap (en_cfg E) = 1 \<and> up_enable_remap u0 \<and> rm_remap_thres (up_remap_manager u0) \<le> rm_high_thres (up_remap_manager u0) \<longrightarrow>
       banks_safe (clearCacheStats u') \<and>
       (\<forall>j. 72 \<le> j \<and> j < 328 \<longrightarrow> temp_of (up_remap_manager (clearCacheStats u')) (bank_slot j) = ts ! j)))"
proof -
  have R: "up_inv E dinv (32, 8, nr) u" "same_policy u0 u" "up_remapped u"
    "\<forall>j. 72 \<le> j \<and> j < 328 \<longrightarrow> temp_of (up_remap_manager u) (bank_slot j) = ts ! j"
    using b by (simp_all add: banks_read_def)
  have "runs (tryRemapping u) (\<lambda>u'. up_inv E dinv (32, 8, nr) (clearCacheStats u'))"
    using runs_mono[OF up_step_runs[OF R(1), of UTryRemapping], of "\<lambda>u'. up_inv E dinv (32, 8, nr) (clearCacheStats u')"]
      up_step_runs[where E = E and e = UClearCacheStats and geo = "(32, 8, nr)" and dinv = dinv] by simp
  moreover have "ensures (tryRemapping u) (\<lambda>u'. same_policy u0 (clearCacheStats u'))"
    using up_step_policy[OF R(1), of UTryRemapping] R(2)
    by (auto simp: clearCacheStats_def same_policy_def elim!: ensures_mono)
  ultimately have step: "runs (tryRemapping u) (\<lambda>u'. up_inv E dinv (32, 8, nr) (clearCacheStats u') \<and> same_policy u0 (clearCacheStats u'))"
    by (rule runs_ensures)
  show ?thesis
  proof (cases "cf_n_remap (en_cfg E) = 1 \<and> up_enable_remap u0 \<and> rm_remap_thres (up_remap_manager u0) \<le> rm_high_thres (up_remap_manager u0)")
    case True
    have ok: "up_ok (en_cfg E) u" using R(1) by (simp add: up_inv_def)
    have p: "up_enable_remap u" "cf_n_remap (en_cfg E) = 1" "rm_remap_thres (up_remap_manager u) \<le> rm_high_thres (up_remap_manager u)"
      using True R(2) by (simp_all add: same_policy_def)
    show ?thesis
      by (rule runs_mono[OF runs_conj[OF step tryRemapping_cool[OF ok R(3) p]]])
         (use R(4) in \<open>auto simp: banks_safe_def clearCacheStats_def\<close>)
  next
    case False
    then show ?thesis using step by (auto elim!: runs_mono)
  qed
qed

lemma callHotSpot_runs:
  fixes E :: "('t::{comm_monoid_add, linorder}, 'd, 'p, 'h) thermal_env"
  assumes ok: "thermal_ok E dinv nr s" and g: "governed E d0 g0 a s"
  shows "runs (callHotSpot E roi s) (\<lambda>s'. thermal_ok E dinv nr s' \<and> th_registry s' = th_registry s \<and>
     (\<exists>a'. governed E d0 g0 a' s' \<and> (dt_method (te_dtm E) \<in> {1, 2} \<longrightarrow> a' = next_state (length (gv_freq_table g0) - 1)
        (dtm_hot (te_dtm E) (cpu_readings (te_temperature_type E) (th_unit_temp s')) (hottest_of (drop 72 (take 328 (th_unit_temp s'))))) a)) \<and>
     same_policy (th_unison s) (th_unison s') \<and>
     (redirects E (th_unison s) \<longrightarrow> banks_safe (th_unison s') \<and> bank_temps_seen s'))"
proof -
  define s1 where "s1 = (if \<not> th_first_ttrace s
              then s\<lparr>th_first_ttrace := True, th_hotspot := te_initHotSpot E (th_reverse_flp s) (te_default_init_temp E) (th_trace s) (th_hotspot s)\<rparr>
              else s)"
  obtain ts hs where calc: "te_calculateTemperature E (th_trace s1) (th_hotspot s1) (th_unit_temp s1) = (ts, hs)" by force
  define s2 where "s2 = s1\<lparr>th_unit_temp := ts, th_hotspot := hs\<rparr>"
  have env: "thermal_env_ok E" using ok by (simp add: thermal_ok_def)
  then have "length (fst (te_calculateTemperature E (th_trace s1) (th_hotspot s1) (th_unit_temp s1))) = length (th_unit_temp s1)"
    unfolding thermal_env_ok_def by blast
  then have E: "length ts = length (th_unit_temp s)" unfolding calc by (simp add: s1_def)
  have thres: "0 \<le> dt_cpu_temp_thres (te_dtm E)" using env by (simp add: thermal_env_ok_def)
  have S: "counters_ok s2" "pw_ok (th_power s2)" "th_unit_num s2 = 328" "th_unit_temp s2 = ts" "328 \<le> length ts"
    "th_unison s2 = th_unison s" "th_governor s2 = th_governor s" "th_dvfs s2 = th_dvfs s" "th_registry s2 = th_registry s"
    using ok E by (auto simp: s2_def s1_def thermal_ok_def counters_ok_def)
  have start: "loop_at E dinv nr s2 0 (no_heat, s2)"
    using ok S by (simp add: loop_at_def heat_at_0 banks_read_def thermal_ok_def same_policy_def)
  have "runs (foldM (unit_temp_step E roi) [0..<328] (no_heat, s2)) (loop_at E dinv nr s2 328)"
    by (rule foldM_upt_runs[where I = "loop_at E dinv nr s2", OF start], rule unit_temp_step_runs) (use S in simp_all)
  then obtain h s3 where loop: "foldM (unit_temp_step E roi) [0..<328] (no_heat, s2) = Some (h, s3)" "loop_at E dinv nr s2 328 (h, s3)"
    by (auto simp: runs_iff)
  have L: "heat_at ts 328 h" "counters_ok s3" "other_state s3 = other_state s2" "banks_read (te_up E) dinv nr (th_unison s) ts 328 (th_unison s3)"
    using loop(2) S by (simp_all add: loop_at_def)
  note same = other_state_same[OF L(3)]
  have cores: "core_temps (take 328 ts) c = core_temps ts c" if "c < 4" for c
    using that S(5) by (simp add: core_temps_def drop_take min_def)
  have heat: "(if te_temperature_type E = 0 then map (\<lambda>a. a / 10) (he_core_avg_temp h) else he_core_max_temp h) = cpu_readings (te_temperature_type E) ts"
    "he_max_bank_temp h = hottest_of (drop 72 (take 328 ts))"
    using L(1) cores by (simp_all add: heat_at_def cpu_readings_def)
  have gov: "gov_rel (te_fromFreqHz E) d0 g0 a (th_governor s3, th_dvfs s3)" "te_app_cores E = dv_num_app_cores d0"
    using g same S by (simp_all add: governed_def)
  have eq: "callHotSpot E roi s = do {
       (g, d) \<leftarrow> checkDTM (te_fromFreqHz E) (te_getPeriod E) (dv_num_app_cores d0) (te_dtm E) (cpu_readings (te_temperature_type E) ts)
         (hottest_of (drop 72 (take 328 ts))) (th_governor s3, th_dvfs s3);
       u \<leftarrow> tryRemapping (th_unison s3);
       Some (s3\<lparr>th_governor := g, th_dvfs := d, th_unison := clearCacheStats u\<rparr>) }"
    unfolding callHotSpot_def Let_def s1_def[symmetric] calc prod.case s2_def[symmetric] S(3) loop(1) bind.bind_lunit heat gov(2) ..
  have fin: "thermal_ok E dinv nr s'" if "up_inv (te_up E) dinv (32, 8, nr) (clearCacheStats u)" "s' = s3\<lparr>th_governor := x, th_dvfs := d, th_unison := clearCacheStats u\<rparr>" for u x d s'
    using ok that L(2) same S by (simp add: thermal_ok_def counters_ok_def)
  show ?thesis
    unfolding eq runs_bind
  proof (rule runs_mono[OF checkDTM_any[OF gov(1) thres]])
    fix gd assume gd: "\<exists>a'. gov_rel (te_fromFreqHz E) d0 g0 a' gd \<and> (dt_method (te_dtm E) \<in> {1, 2} \<longrightarrow>
       a' = next_state (length (gv_freq_table g0) - 1) (dtm_hot (te_dtm E) (cpu_readings (te_temperature_type E) ts) (hottest_of (drop 72 (take 328 ts)))) a)"
    obtain x d where gd': "gd = (x, d)" by (cases gd)
    show "runs (case gd of (g, d) \<Rightarrow> tryRemapping (th_unison s3) \<bind> (\<lambda>u. Some (s3\<lparr>th_governor := g, th_dvfs := d, th_unison := clearCacheStats u\<rparr>)))
       (\<lambda>s'. thermal_ok E dinv nr s' \<and> th_registry s' = th_registry s \<and>
     (\<exists>a'. governed E d0 g0 a' s' \<and> (dt_method (te_dtm E) \<in> {1, 2} \<longrightarrow> a' = next_state (length (gv_freq_table g0) - 1)
        (dtm_hot (te_dtm E) (cpu_readings (te_temperature_type E) (th_unit_temp s')) (hottest_of (drop 72 (take 328 (th_unit_temp s'))))) a)) \<and>
     same_policy (th_unison s) (th_unison s') \<and>
     (redirects E (th_unison s) \<longrightarrow> banks_safe (th_unison s') \<and> bank_temps_seen s'))"
      unfolding gd' prod.case runs_bind
      by (rule runs_mono[OF tryRemapping_round[OF L(4)]])
         (use gd[unfolded gd'] same S gov(2) in \<open>auto simp: governed_def redirects_def bank_temps_seen_def intro!: fin\<close>)
  qed
qed


subsection \<open>Recording statistics\<close>

lemma metrics_registered: "power_registered r \<Longrightarrow> metrics_ok (metric_of recordMetric r)"
  unfolding power_registered_def metrics_ok_def metric_of_def by fastforce

text \<open>The condition that starts HotSpot reads the dynamic power of the processor.\<close>

lemma updatePower_dyn:
  "ensures (updatePower getFS getNS metric scale t u s) (\<lambda>s'. \<forall>x. metric ''processor'' 0 ''power-dynamic'' = Some x \<longrightarrow> pw_dyn_proc s' = micro x)"
proof -
  have bank: "ensures (update_bank_power getNS t vault i j s2) (\<lambda>s'. pw_dyn_proc s' = d)" if "pw_dyn_proc s2 = d" for vault i j s2 d
    using that by (auto simp: update_bank_power_def updateBankStat_def ensures_def Let_def split: bind_splits)
  have vault: "ensures (update_vault_power getNS t u i st) (\<lambda>(r, w, n, s'). pw_dyn_proc s' = d)" if "case st of (r, w, n, s') \<Rightarrow> pw_dyn_proc s' = d" for i st d
  proof -
    obtain r w n s2 where st: "st = (r, w, n, s2)" by (cases st)
    show ?thesis
      unfolding update_vault_power_def st Let_def prod.case
      by ((rule ensures_bindI[OF foldM_ensures[where I = "\<lambda>s'. pw_dyn_proc s' = d"]] | rule ensures_skip(1))+)
         (use that st in \<open>auto intro!: bank ensures_skip(1)\<close>)
  qed
  have set: "ensures (set_vault_power getFS t r w n i s2) (\<lambda>s'. pw_dyn_proc s' = d)" if "pw_dyn_proc s2 = d" for r w n i s2 d
    using that by (auto simp: set_vault_power_def ensures_def split: bind_splits)
  have loops: "ensures (foldM (update_vault_power getNS t u) is (r, w, n, s2) \<bind> (\<lambda>(r, w, n, s). foldM (set_vault_power getFS t r w n) js s)) (\<lambda>s'. pw_dyn_proc s' = pw_dyn_proc s2)"
    for "is" js r w n s2
    by (rule ensures_bindI[OF foldM_ensures[where I = "\<lambda>(r, w, n, s'). pw_dyn_proc s' = pw_dyn_proc s2"]])
       (auto intro!: vault foldM_ensures[where I = "\<lambda>s'. pw_dyn_proc s' = pw_dyn_proc s2"] set split: prod.splits)
  show ?thesis
    unfolding updatePower_def Let_def
    by (rule ensures_skip(1), rule ensures_bindI[of _ "\<lambda>x. metric ''processor'' 0 ''power-dynamic'' = Some x"], simp add: ensures_def,
        rule ensures_skip(1), rule ensures_skip(1), rule ensures_mono[OF loops]) simp
qed

lemma updatePower_round:
  assumes u: "up_ok cfg u" "up_n_vaults u = 32" "up_n_banks u = 8" and s: "pw_ok s" and m: "metrics_ok metric"
  shows "runs (updatePower getFS getNS metric scale t u s) (\<lambda>s'. pw_ok s' \<and>
     (\<forall>x. metric ''processor'' 0 ''power-dynamic'' = Some x \<longrightarrow> pw_dyn_proc s' = micro x))"
  by (rule runs_mono[OF runs_ensures[OF updatePower_runs[OF assms] updatePower_dyn]]) blast

lemma dump_runs:
  assumes u: "up_ok cfg u" "up_n_vaults u = 32" "up_n_banks u = 8" and s: "pw_ok s" and m: "metrics_ok metric"
  defines "good \<equiv> \<lambda>s'. pw_ok s' \<and> (\<forall>x. metric ''processor'' 0 ''power-dynamic'' = Some x \<longrightarrow> pw_dyn_proc s' = micro x)"
  shows "runs (dumpHotspotInput getFS getNS metric scale rec pt_num t u s) (\<lambda>(trace, s'). good s')"
    and "runs (dumpHotspotInputReverse getFS getNS metric scale t u s) (\<lambda>(trace, s'). good s')"
proof -
  have log: "pw_ok (if c then s\<lparr>pw_trace_log := l\<rparr> else s)" for c l using s by (simp add: pw_ok_def)
  show "runs (dumpHotspotInput getFS getNS metric scale rec pt_num t u s) (\<lambda>(trace, s'). good s')"
    unfolding dumpHotspotInput_def Let_def runs_bind by (rule runs_mono[OF updatePower_round[OF u log m]]) (simp add: good_def)
  show "runs (dumpHotspotInputReverse getFS getNS metric scale t u s) (\<lambda>(trace, s'). good s')"
    unfolding dumpHotspotInputReverse_def Let_def runs_bind by (rule runs_mono[OF updatePower_round[OF u s m]]) (simp add: good_def)
qed

definition calls_hotspot :: "('o \<Rightarrow> u64) \<Rightarrow> ('t, 'd, 'p, 'h, 'o) thermal \<Rightarrow> bool" where
  "calls_hotspot recordMetric s \<longleftrightarrow> th_start_hotspot s \<or>
     (\<exists>x. getMetricObject ''processor'' 0 ''power-dynamic'' (th_registry s) = Some x \<and> unat (recordMetric x) > 1000)"

definition moved_with :: "('t, 'd, 'p, 'h) thermal_env \<Rightarrow> governor \<Rightarrow> real list \<Rightarrow> nat \<times> bool \<Rightarrow> nat \<times> bool" where
  "moved_with E g0 ts a = (if dt_method (te_dtm E) \<in> {1, 2} then next_state (length (gv_freq_table g0) - 1)
     (dtm_hot (te_dtm E) (cpu_readings (te_temperature_type E) ts) (hottest_of (drop 72 (take 328 ts)))) a else a)"

definition round_done :: "('t, 'd, 'p, 'h) thermal_env \<Rightarrow> ('d \<Rightarrow> bool) \<Rightarrow> u32 \<Rightarrow> ('t, 'p) dvfs_manager \<Rightarrow> governor \<Rightarrow> nat \<times> bool \<Rightarrow>
    ('t, 'd, 'p, 'h, 'o) thermal \<Rightarrow> ('t, 'd, 'p, 'h, 'o) thermal \<Rightarrow> bool" where
  "round_done E dinv nr d0 g0 a s s' \<longleftrightarrow> thermal_ok E dinv nr s' \<and>
     (\<exists>a'. governed E d0 g0 a' s' \<and> (dt_method (te_dtm E) \<in> {1, 2} \<and> th_start_hotspot s' \<longrightarrow> a' = moved_with E g0 (th_unit_temp s') a)) \<and>
     th_registry s' = th_registry s \<and> same_policy (th_unison s) (th_unison s') \<and>
     (redirects E (th_unison s) \<and> th_start_hotspot s' \<longrightarrow> banks_safe (th_unison s') \<and> bank_temps_seen s')"

lemma round_done_frame:
  assumes "round_done E dinv nr d0 g0 a s1 s2" "same_policy (th_unison s) (th_unison s1)" "th_registry s1 = th_registry s"
  shows "round_done E dinv nr d0 g0 a s (s2\<lparr>th_values := vs\<rparr>)"
  using assms by (auto simp: round_done_def thermal_ok_def counters_ok_def governed_def bank_temps_seen_def redirects_def same_policy_def)

lemma milli_micro:
  fixes y :: real
  shows "0.001 < y * (1 / 10 ^ 6) \<longleftrightarrow> real 1000 < y"
  by simp

lemma micro_above: "micro x > 0.001 \<longleftrightarrow> unat x > 1000"
  unfolding micro_def milli_micro by (simp only: of_nat_less_iff)

lemma recordStats_runs:
  fixes E :: "('t::{comm_monoid_add, minus, linorder}, 'd, 'p, 'h) thermal_env"
  assumes ok: "thermal_ok E dinv nr s" and g: "governed E d0 g0 a s"
  shows "runs (recordStats E roi isDefault recordMetric now s) (\<lambda>s'. round_done E dinv nr d0 g0 a s s' \<and>
     (th_start_hotspot s' \<longleftrightarrow> calls_hotspot recordMetric s))"
proof -
  define s1 where "s1 = s\<lparr>th_record_interval := (if now - th_last_record_time s = 0 then te_MS1 E else now - th_last_record_time s),
    th_last_record_time := now, th_prefixnum := th_prefixnum s + 1\<rparr>"
  have s1: "th_unison s1 = th_unison s" "th_power s1 = th_power s" "th_registry s1 = th_registry s" "th_reverse_flp s1 = th_reverse_flp s"
    by (simp_all add: s1_def)
  have inv: "up_inv (te_up E) dinv (32, 8, nr) (th_unison s)" and p: "pw_ok (th_power s)" and m: "metrics_ok (metric_of recordMetric (th_registry s))"
    using ok metrics_registered by (auto simp: thermal_ok_def)
  have "runs (updateStats (en_dram (te_up E)) (en_ns (te_up E)) (th_unison s)) (up_inv (te_up E) dinv (32, 8, nr))"
    using up_step_runs[OF inv, of UUpdateStats] by simp
  from runs_ensures[OF this updateStats_policy] obtain u where u: "updateStats (en_dram (te_up E)) (en_ns (te_up E)) (th_unison s) = Some u"
    "up_inv (te_up E) dinv (32, 8, nr) u" "same_policy (th_unison s) u" by (auto simp: runs_iff)
  have ug: "up_ok (en_cfg (te_up E)) u" "up_n_vaults u = 32" "up_n_banks u = 8" using u(2) by (simp_all add: up_inv_def up_geo_def)
  define dump where "dump = (if \<not> th_reverse_flp s
       then dumpHotspotInput (te_getFS E) (en_getNS (te_up E)) (metric_of recordMetric (th_registry s)) (te_power_scale E)
         (te_record_power E) (te_pt_num E) (th_record_interval s1) u (th_power s)
       else dumpHotspotInputReverse (te_getFS E) (en_getNS (te_up E)) (metric_of recordMetric (th_registry s)) (te_power_scale E)
         (th_record_interval s1) u (th_power s))"
  have "runs dump (\<lambda>(trace, s'). pw_ok s' \<and>
      (\<forall>x. metric_of recordMetric (th_registry s) ''processor'' 0 ''power-dynamic'' = Some x \<longrightarrow> pw_dyn_proc s' = micro x))"
    unfolding dump_def using dump_runs[OF ug p m] by simp
  then obtain trace pw where d: "dump = Some (trace, pw)" "pw_ok pw"
    "\<forall>x. metric_of recordMetric (th_registry s) ''processor'' 0 ''power-dynamic'' = Some x \<longrightarrow> pw_dyn_proc pw = micro x"
    by (auto simp: runs_iff)
  define s2 where "s2 = s1\<lparr>th_unison := u, th_trace := trace, th_power := pw\<rparr>"
  have ok2: "thermal_ok E dinv nr s2" using ok d(2) u(2) by (simp add: s2_def s1_def thermal_ok_def counters_ok_def)
  have g2: "governed E d0 g0 a s2" using g by (simp add: s2_def s1_def governed_def)
  have u2: "th_unison s2 = u" "th_registry s2 = th_registry s" by (simp_all add: s2_def s1(3))
  have "(''processor'', 0) \<in> set power_metrics" by (simp add: power_metrics_def)
  then obtain ob where ob: "getMetricObject ''processor'' 0 ''power-dynamic'' (th_registry s) = Some ob"
    using ok by (auto simp: thermal_ok_def power_registered_def)
  have "pw_dyn_proc (th_power s2) = micro (recordMetric ob)" using d(3) ob by (simp add: s2_def metric_of_def)
  then have start: "pw_dyn_proc (th_power s2) > 0.001 \<or> th_start_hotspot s2 \<longleftrightarrow> calls_hotspot recordMetric s"
    using micro_above[of "recordMetric ob"] ob by (auto simp: calls_hotspot_def s2_def s1_def)
  define tail where "tail = (if pw_dyn_proc (th_power s2) > 0.001 \<or> th_start_hotspot s2 then do {
         s \<leftarrow> callHotSpot E roi s2;
         Some (s\<lparr>th_start_hotspot := True\<rparr>) }
       else Some s2)"
  have t: "runs tail (\<lambda>s'. round_done E dinv nr d0 g0 a s2 s' \<and> (th_start_hotspot s' \<longleftrightarrow> calls_hotspot recordMetric s))"
  proof (cases "pw_dyn_proc (th_power s2) > 0.001 \<or> th_start_hotspot s2")
    case True
    then have c: "calls_hotspot recordMetric s" using start by blast
    have "tail = callHotSpot E roi s2 \<bind> (\<lambda>s. Some (s\<lparr>th_start_hotspot := True\<rparr>))" using True by (simp add: tail_def)
    then show ?thesis
      by (simp only: runs_bind runs_Some)
         (rule runs_mono[OF callHotSpot_runs[OF ok2 g2]],
          auto simp: c round_done_def thermal_ok_def counters_ok_def governed_def bank_temps_seen_def moved_with_def)
  next
    case False
    then have "tail = Some s2" "\<not> calls_hotspot recordMetric s" using start by (simp add: tail_def, blast)
    moreover have "round_done E dinv nr d0 g0 a s2 s2"
      unfolding round_done_def by (intro conjI exI[of _ a]) (use False ok2 g2 in simp_all)
    ultimately show ?thesis using False by simp
  qed
  have eq: "recordStats E roi isDefault recordMetric now s = tail \<bind> (\<lambda>s. Some (s\<lparr>th_values := th_values s @
      record_values isDefault recordMetric (sint (ucast (th_prefixnum s1) :: u32)) (th_registry s)\<rparr>))"
    unfolding recordStats_def Let_def s1_def[symmetric] s1(1) u(1) Option.bind.bind_lunit
    using d(1) unfolding dump_def by (cases "th_reverse_flp s") (simp_all add: tail_def s2_def s1)
  show ?thesis
    unfolding eq runs_bind runs_Some
    by (rule runs_mono[OF t]) (use u(3) u2 in \<open>auto intro!: round_done_frame\<close>)
qed


subsection \<open>Calls of the simulator between two records\<close>

datatype ('t, 'o) thermal_event =
    DramCall "'t up_event"
  | RecordStats bool "'o \<Rightarrow> bool" "'o \<Rightarrow> u64" 't

fun thermal_step :: "('t::{comm_monoid_add, minus, linorder}, 'd, 'p, 'h) thermal_env \<Rightarrow> ('t, 'o) thermal_event \<Rightarrow>
    ('t, 'd, 'p, 'h, 'o) thermal \<Rightarrow> ('t, 'd, 'p, 'h, 'o) thermal option" where
  "thermal_step E (DramCall e) s = do { u \<leftarrow> up_step (te_up E) e (th_unison s); Some (s\<lparr>th_unison := u\<rparr>) }"
| "thermal_step E (RecordStats inROI isDefault recordMetric now) s = recordStats E inROI isDefault recordMetric now s"

fun thermal_event_ok :: "u32 \<Rightarrow> ('t, 'o) thermal_event \<Rightarrow> bool" where
  "thermal_event_ok nr (DramCall e) \<longleftrightarrow> up_event_ok (32, 8, nr) e"
| "thermal_event_ok nr (RecordStats inROI isDefault recordMetric now) \<longleftrightarrow> True"

text \<open>
  \<^verbatim>\<open>StatsManager::init\<close>. Members it does not set keep what is in the memory (\<open>raw\<close> and \<open>temps\<close>); the names of the
  units, and so their number, come from HotSpot.
\<close>

definition init_thermal :: "'t::zero power_state \<Rightarrow> real list \<Rightarrow> nat \<Rightarrow> power_trace \<Rightarrow> 'h \<Rightarrow> bool \<Rightarrow> real \<Rightarrow> int \<Rightarrow> 'o registry \<Rightarrow>
    ('t, 'd) unison_perf \<Rightarrow> ('t, 'p) dvfs_manager \<Rightarrow> ('t, 'd, 'p, 'h, 'o) thermal option" where
  "init_thermal raw temps unit_num trace hotspot reverse core_frequency num_freq r u d = do {
     g \<leftarrow> init_freq_table core_frequency num_freq;
     Some \<lparr>th_unison = u, th_dvfs = d, th_governor = g, th_power = init_power raw, th_registry = r, th_values = [], th_prefixnum = 0,
       th_last_record_time = 0, th_record_interval = 0, th_reverse_flp = reverse, th_first_ttrace = False, th_start_hotspot = False,
       th_hotspot = hotspot, th_trace = trace, th_unit_num = unit_num, th_unit_temp = temps,
       th_prev_bank_temp = replicate 32 (replicate 8 0), th_hot_access = replicate 32 (replicate 8 0),
       th_cool_access = replicate 32 (replicate 8 0), th_err_access = replicate 32 (replicate 8 0)\<rparr>
   }"

definition thermal_inv :: "('t, 'd, 'p, 'h) thermal_env \<Rightarrow> ('d \<Rightarrow> bool) \<Rightarrow> u32 \<Rightarrow> ('t, 'p) dvfs_manager \<Rightarrow> governor \<Rightarrow> bool \<Rightarrow> u32 \<Rightarrow>
    'o registry \<Rightarrow> ('t, 'd, 'p, 'h, 'o) thermal \<Rightarrow> bool" where
  "thermal_inv E dinv nr d0 g0 policy high r s \<longleftrightarrow> th_registry s = r \<and> thermal_ok E dinv nr s \<and> (\<exists>a. governed E d0 g0 a s) \<and>
     rm_high_thres (up_remap_manager (th_unison s)) = high \<and> (policy \<longrightarrow> redirects E (th_unison s))"


lemma policy_kept:
  assumes "same_policy (th_unison s) (th_unison s')"
  shows "redirects E (th_unison s) \<longleftrightarrow> redirects E (th_unison s')"
    "rm_high_thres (up_remap_manager (th_unison s')) = rm_high_thres (up_remap_manager (th_unison s))"
  using assms by (auto simp: redirects_def same_policy_def)

lemma round_keeps:
  assumes "thermal_inv E dinv nr d0 g0 policy high r s" and r: "round_done E dinv nr d0 g0 a s s'"
  shows "thermal_inv E dinv nr d0 g0 policy high r s'"
proof -
  have p: "same_policy (th_unison s) (th_unison s')" using r by (simp add: round_done_def)
  have "thermal_ok E dinv nr s' \<and> th_registry s' = th_registry s \<and> (\<exists>a. governed E d0 g0 a s')" using r unfolding round_done_def by blast
  then show ?thesis using assms(1) policy_kept(1)[OF p, of E] policy_kept(2)[OF p] by (simp add: thermal_inv_def)
qed

lemma thermal_step_runs:
  fixes E :: "('t::{comm_monoid_add, minus, linorder}, 'd, 'p, 'h) thermal_env"
  assumes inv: "thermal_inv E dinv nr d0 g0 policy high r s" and e: "thermal_event_ok nr e"
  shows "runs (thermal_step E e s) (thermal_inv E dinv nr d0 g0 policy high r)"
proof (cases e)
  case (DramCall x)
  have u: "up_inv (te_up E) dinv (32, 8, nr) (th_unison s)" using inv by (simp add: thermal_inv_def thermal_ok_def)
  have "runs (up_step (te_up E) x (th_unison s)) (up_inv (te_up E) dinv (32, 8, nr))"
    using up_step_runs[OF u] e DramCall by simp
  from runs_ensures[OF this up_step_policy[OF u]] show ?thesis
    unfolding DramCall thermal_step.simps runs_bind
  proof (rule runs_mono)
    fix u' assume u': "up_inv (te_up E) dinv (32, 8, nr) u' \<and> same_policy (th_unison s) u'"
    then have "thermal_inv E dinv nr d0 g0 policy high r (s\<lparr>th_unison := u'\<rparr>)"
      using inv policy_kept[where s = s and s' = "s\<lparr>th_unison := u'\<rparr>"] by (auto simp: thermal_inv_def thermal_ok_def counters_ok_def governed_def)
    then show "runs (Some (s\<lparr>th_unison := u'\<rparr>)) (thermal_inv E dinv nr d0 g0 policy high r)" by simp
  qed
next
  case (RecordStats roi isDefault recordMetric now)
  obtain a where a: "governed E d0 g0 a s" using inv by (auto simp: thermal_inv_def)
  have ok: "thermal_ok E dinv nr s" using inv by (simp add: thermal_inv_def)
  show ?thesis
    unfolding RecordStats thermal_step.simps
    by (rule runs_mono[OF recordStats_runs[OF ok a]]) (use round_keeps[OF inv] in blast)
qed

interpretation thermal: served "thermal_step E" "thermal_event_ok nr" "thermal_inv E dinv nr d0 g0 policy high r"
  for E :: "('t::{comm_monoid_add, minus, linorder}, 'd, 'p, 'h) thermal_env" and nr dinv d0 g0 policy high r
  by unfold_locales (rule thermal_step_runs)


subsection \<open>Properties\<close>

text \<open>The parts that \<^verbatim>\<open>init\<close> and the constructors put together.\<close>

definition start_thermal :: "('t::{comm_monoid_add, minus, linorder}, 'd, 'p, 'h) thermal_env \<Rightarrow> u32 \<times> u32 \<times> u32 \<times> u32 \<Rightarrow> 'd \<Rightarrow> u32 \<times> u32 \<times> u32 \<Rightarrow>
    u32 \<Rightarrow> 't \<Rightarrow> real \<Rightarrow> int \<Rightarrow> (u32 \<Rightarrow> real) \<Rightarrow> 't power_state \<Rightarrow> real list \<Rightarrow> power_trace \<Rightarrow> 'h \<Rightarrow> bool \<Rightarrow> 'o registry \<Rightarrow>
    ('t, 'd, 'p, 'h, 'o) thermal option" where
  "start_thermal E uninit dram sizes cores_per_socket latency freq num_freq freq_of raw temps trace hotspot reverse r = do {
     let (vault_size, bank_size, row_size) = sizes;
     u \<leftarrow> StackedDramPerfUnison (en_cfg (te_up E)) uninit dram 32 vault_size bank_size row_size;
     d \<leftarrow> DvfsManager (te_fromFreqHz E) ''simple'' (te_app_cores E) cores_per_socket latency freq freq_of;
     init_thermal raw temps 328 trace hotspot reverse freq num_freq r u d
   }"

text \<open>The parts fit together: the contracts of the code outside, the geometry, the frequencies and the metrics.\<close>

definition loop_setup_ok :: "('t, 'd, 'p, 'h) thermal_env \<Rightarrow> ('d \<Rightarrow> bool) \<Rightarrow> 'd \<Rightarrow> u32 \<times> u32 \<times> u32 \<Rightarrow> u32 \<Rightarrow> real \<Rightarrow> int \<Rightarrow> 't power_state \<Rightarrow>
    real list \<Rightarrow> 'o registry \<Rightarrow> bool" where
  "loop_setup_ok E dinv dram sizes cores_per_socket freq num_freq raw temps r \<longleftrightarrow> (case sizes of (vault_size, bank_size, row_size) \<Rightarrow>
     thermal_env_ok E \<and> up_env_ok 32 8 (te_up E) dinv \<and> dinv dram \<and> bank_size \<noteq> 0 \<and> row_size \<noteq> 0 \<and> vault_size div bank_size = 8 \<and>
     pow2_geometry 32 8 (bank_size div row_size) \<and> unat (bank_size div row_size) < 2 ^ 31 \<and>
     cf_addr_map (en_cfg (te_up E)) \<in> {1, 2, 3} \<and> cf_n_remap (en_cfg (te_up E)) \<le> 2 \<and> cores_per_socket \<noteq> 0 \<and>
     2 \<le> num_freq \<and> 5 \<le> freq * 1000 \<and> freq * 1000 < 2 ^ 31 \<and> pw_ok raw \<and> 328 \<le> length temps \<and> power_registered r)"

definition policy_cfg :: "sd_config \<Rightarrow> bool" where
  "policy_cfg cfg \<longleftrightarrow> cf_n_remap cfg = 1 \<and> cf_remap cfg \<and> cf_remap_temp_thres cfg \<le> cf_high_temp_thres cfg"

lemma unison_policy: "ensures (StackedDramPerfUnison cfg uninit d nv vs bs rs) (\<lambda>u. up_enable_remap u = cf_remap cfg \<and>
    rm_high_thres (up_remap_manager u) = cf_high_temp_thres cfg \<and> rm_remap_thres (up_remap_manager u) = cf_remap_temp_thres cfg)"
  by (auto simp: StackedDramPerfUnison_def setRemapConfig_def ensures_def Let_def split: bind_splits)

lemma init_power_ok: "pw_ok raw \<Longrightarrow> pw_ok (init_power raw)"
  by (auto simp: pw_ok_def init_power_def grid_def)

lemma zero_grid: "grid 32 8 (replicate 32 (replicate 8 x))"
  by (simp add: grid_def)

lemma start_thermal_runs:
  fixes E :: "('t::{comm_monoid_add, minus, linorder}, 'd, 'p, 'h) thermal_env"
  assumes "loop_setup_ok E dinv dram (vault_size, bank_size, row_size) cps freq n raw temps r"
  shows "\<exists>d0 g0. length (gv_freq_table g0) = nat n \<and>
     runs (start_thermal E uninit dram (vault_size, bank_size, row_size) cps latency freq n freq_of raw temps trace hotspot reverse r)
       (thermal_inv E dinv (bank_size div row_size) d0 g0 (policy_cfg (en_cfg (te_up E))) (cf_high_temp_thres (en_cfg (te_up E))) r)"
proof -
  let ?cfg = "en_cfg (te_up E)"
  have a: "thermal_env_ok E" "up_env_ok 32 8 (te_up E) dinv" "dinv dram" "bank_size \<noteq> 0" "row_size \<noteq> 0" "vault_size div bank_size = 8"
    "pow2_geometry 32 8 (bank_size div row_size)" "unat (bank_size div row_size) < 2 ^ 31" "cf_addr_map ?cfg \<in> {1, 2, 3}" "cf_n_remap ?cfg \<le> 2"
    "cps \<noteq> 0" "2 \<le> n" "5 \<le> freq * 1000" "freq * 1000 < 2 ^ 31" "pw_ok raw" "328 \<le> length temps" "power_registered r"
    using assms by (simp_all add: loop_setup_ok_def)
  have "runs (StackedDramPerfUnison ?cfg uninit dram 32 vault_size bank_size row_size :: ('t, 'd) unison_perf option)
      (\<lambda>u. up_ok ?cfg u \<and> up_geo u = (32, vault_size div bank_size, bank_size div row_size) \<and> up_dram_model u = dram)"
    by (rule StackedDramPerfUnison_ok) (use a in simp_all)
  from runs_ensures[OF this unison_policy] obtain u :: "('t, 'd) unison_perf" where
    u: "StackedDramPerfUnison ?cfg uninit dram 32 vault_size bank_size row_size = Some u"
      "up_inv (te_up E) dinv (32, 8, bank_size div row_size) u" "up_enable_remap u = cf_remap ?cfg"
      "rm_high_thres (up_remap_manager u) = cf_high_temp_thres ?cfg" "rm_remap_thres (up_remap_manager u) = cf_remap_temp_thres ?cfg"
    using a(2,3,6) by (auto simp: runs_iff up_inv_def)
  obtain d where d: "DvfsManager (te_fromFreqHz E) ''simple'' (te_app_cores E) cps latency freq freq_of = Some d" "dv_ok d"
    "dv_num_app_cores d = te_app_cores E"
    using DvfsManager_runs[OF a(11), of "te_fromFreqHz E" "te_app_cores E" latency freq freq_of] by (auto simp: runs_iff)
  obtain g where g: "init_freq_table freq n = Some g" "gov_ok g" "gv_freq_lev g = n - 1" "length (gv_freq_table g) = nat n"
    using init_freq_table_ok[OF a(12-14)] by blast
  have rel: "gov_rel (te_fromFreqHz E) d g (nat n - 1, False) (g, d)" using g(2,3) d(2) a(12) by (auto simp: gov_rel_def)
  have "runs (start_thermal E uninit dram (vault_size, bank_size, row_size) cps latency freq n freq_of raw temps trace hotspot reverse r)
       (thermal_inv E dinv (bank_size div row_size) d g (policy_cfg ?cfg) (cf_high_temp_thres ?cfg) r)"
    unfolding start_thermal_def Let_def prod.case u(1) d(1) init_thermal_def g(1) Option.bind.bind_lunit runs_Some
    using a u rel d(3) init_power_ok[OF a(15)]
    by (auto simp: zero_grid thermal_inv_def thermal_ok_def counters_ok_def governed_def redirects_def policy_cfg_def)
  then show ?thesis using g(4) by blast
qed

lemma sensor_index:
  assumes "v < 32" "b < (8 :: u32)"
  shows "unat (40 + 32 + b * 32 + v) = 72 + 32 * unat b + unat v" "unat (40 + v) = 40 + unat v"
proof -
  have v: "unat v < 32" "unat b < 8" using assms by (simp_all add: word_less_nat_alt)
  then show "unat (40 + 32 + b * 32 + v) = 72 + 32 * unat b + unat v" "unat (40 + v) = 40 + unat v"
    by (simp_all add: unat_word_ariths)
qed


text \<open>The sensor of the bank that serves a set.\<close>

lemma cool_sensor:
  assumes r: "round_done E dinv nr d0 g0 a s s'" and on: "redirects E (th_unison s)" "th_start_hotspot s'"
    and x: "unat x < 32 * 8 * unat nr" and high: "rm_high_thres (up_remap_manager (th_unison s')) = h"
  shows "\<exists>dis t v b row temp. checkSetDisabled (en_floorLog2 (te_up E)) (en_cfg (te_up E)) x (th_unison s') = Some (dis, th_unison s') \<and>
      getRemapSet (en_floorLog2 (te_up E)) (en_cfg (te_up E)) x (th_unison s') = Some (t, th_unison s') \<and>
      splitSetNum (en_floorLog2 (te_up E)) (en_cfg (te_up E)) t (th_unison s') = Some ((v, b, row), th_unison s') \<and>
      getDramBankTemp v b s' = Some temp \<and> (\<not> dis \<longrightarrow> temp < real (unat h))"
proof -
  let ?u = "th_unison s'" and ?fl = "en_floorLog2 (te_up E)" and ?cfg = "en_cfg (te_up E)"
  have R: "thermal_ok E dinv nr s'" "banks_safe ?u" "bank_temps_seen s'" using r on by (simp_all add: round_done_def)
  have u: "up_ok ?cfg ?u" "floorLog2_ok ?fl" "up_n_vaults ?u = 32" "up_n_banks ?u = 8" "up_n_rows ?u = nr"
    using R(1) by (simp_all add: thermal_ok_def up_inv_def up_env_ok_def up_geo_def)
  have len: "328 \<le> length (th_unit_temp s')" using R(1) by (simp add: thermal_ok_def)
  have "unat x < set_count ?u" using x u(3-5) by (simp add: set_count_def)
  from safe_sets[OF u(1,2) this R(2)[unfolded banks_safe_def]] obtain dis t v b row where
    S: "checkSetDisabled ?fl ?cfg x ?u = Some (dis, ?u)" "getRemapSet ?fl ?cfg x ?u = Some (t, ?u)"
      "splitSetNum ?fl ?cfg t ?u = Some ((v, b, row), ?u)" "v < 32" "b < 8"
      "\<not> dis \<longrightarrow> temp_of (up_remap_manager ?u) (unat (getBankId (up_remap_manager ?u) v b)) < real (unat (rm_high_thres (up_remap_manager ?u)))"
    unfolding u(3,4) by blast
  have m: "rm_ok (up_remap_manager ?u)" "v < rm_n_vaults (up_remap_manager ?u)" "b < rm_n_banks (up_remap_manager ?u)" "rm_n_banks (up_remap_manager ?u) = 8"
    using u S(4,5) by (simp_all add: up_ok_def)
  have vb: "unat v < 32" "unat b < 8" using S(4,5) by (simp_all add: word_less_nat_alt)
  let ?j = "72 + 32 * unat b + unat v"
  have j: "?j < 328" using vb by linarith
  have "unat (getBankId (up_remap_manager ?u) v b) = bank_slot ?j"
    using getBankId_in(1)[OF m(1-3)] m(4) bank_slot_of[OF vb] by simp
  moreover have "temp_of (up_remap_manager ?u) (bank_slot ?j) = th_unit_temp s' ! ?j"
    using R(3) j by (simp add: bank_temps_seen_def)
  moreover have "getDramBankTemp v b s' = Some (th_unit_temp s' ! ?j)"
    unfolding getDramBankTemp_def fetch_def sensor_index(1)[OF S(4,5)] using j len by simp
  ultimately show ?thesis using S high by auto
qed

lemma loop_reaches:
  fixes E :: "('t::{comm_monoid_add, minus, linorder}, 'd, 'p, 'h) thermal_env"
  assumes "loop_setup_ok E dinv dram (vault_size, bank_size, row_size) cps freq n raw temps r"
    and "\<forall>e\<in>set es. thermal_event_ok (bank_size div row_size) e"
  shows "\<exists>d0 g0 s. length (gv_freq_table g0) = nat n \<and>
     start_thermal E uninit dram (vault_size, bank_size, row_size) cps latency freq n freq_of raw temps trace hotspot reverse r \<bind>
       foldM (thermal_step E) es = Some s \<and>
     thermal_inv E dinv (bank_size div row_size) d0 g0 (policy_cfg (en_cfg (te_up E))) (cf_high_temp_thres (en_cfg (te_up E))) r s"
proof -
  obtain d0 g0 where start: "length (gv_freq_table g0) = nat n"
    "runs (start_thermal E uninit dram (vault_size, bank_size, row_size) cps latency freq n freq_of raw temps trace hotspot reverse r)
       (thermal_inv E dinv (bank_size div row_size) d0 g0 (policy_cfg (en_cfg (te_up E))) (cf_high_temp_thres (en_cfg (te_up E))) r)"
    using start_thermal_runs[OF assms(1)] by blast
  have "runs (start_thermal E uninit dram (vault_size, bank_size, row_size) cps latency freq n freq_of raw temps trace hotspot reverse r \<bind>
       foldM (thermal_step E) es)
       (thermal_inv E dinv (bank_size div row_size) d0 g0 (policy_cfg (en_cfg (te_up E))) (cf_high_temp_thres (en_cfg (te_up E))) r)"
    unfolding runs_bind by (rule runs_mono[OF start(2)]) (rule thermal.serve_all[OF _ assms(2)])
  then show ?thesis using start(1) by (auto simp: runs_iff)
qed

text \<open>C4: The thermal loop never fails. The parts fit together (\<open>loop_setup_ok\<close>: the contracts of the DRAM model and of
  HotSpot, a floorplan with 328 units, a geometry of 32 vaults with 8 banks, frequencies within range, the power
  metrics registered). Then from the constructors on every sequence of calls of the stacked DRAM controller
  and of \<^verbatim>\<open>recordStats\<close>, in any order, returns: no index out of range, no failed assertion, no metric that is
  missing, no error line. The frequency level stays in its table and every sensor of the DRAM can be read.\<close>

theorem thermal_loop_never_fails:
  fixes E :: "('t::{comm_monoid_add, minus, linorder}, 'd, 'p, 'h) thermal_env"
  assumes "loop_setup_ok E dinv dram (vault_size, bank_size, row_size) cps freq n raw temps r"
    and "\<forall>e\<in>set es. thermal_event_ok (bank_size div row_size) e"
  shows "\<exists>s. (start_thermal E uninit dram (vault_size, bank_size, row_size) cps latency freq n freq_of raw temps trace hotspot reverse r \<bind>
       foldM (thermal_step E) es) = Some s \<and>
     up_out (th_unison s) = [] \<and> rm_out (up_remap_manager (th_unison s)) = [] \<and>
     0 \<le> gv_freq_lev (th_governor s) \<and> gv_freq_lev (th_governor s) < n \<and>
     (\<forall>v<32. getDramCntlrTemp v s \<noteq> None \<and> (\<forall>b<8. getDramBankTemp v b s \<noteq> None))"
proof -
  obtain d0 g0 s where start: "length (gv_freq_table g0) = nat n" and
    s: "start_thermal E uninit dram (vault_size, bank_size, row_size) cps latency freq n freq_of raw temps trace hotspot reverse r \<bind>
       foldM (thermal_step E) es = Some s"
    "thermal_inv E dinv (bank_size div row_size) d0 g0 (policy_cfg (en_cfg (te_up E))) (cf_high_temp_thres (en_cfg (te_up E))) r s"
    using loop_reaches[OF assms] by blast
  then have ok: "thermal_ok E dinv (bank_size div row_size) s" and gov: "\<exists>a. governed E d0 g0 a s" by (simp_all add: thermal_inv_def)
  have out: "up_out (th_unison s) = []" "rm_out (up_remap_manager (th_unison s)) = []"
    using ok by (auto simp: thermal_ok_def up_inv_def up_ok_def)
  have len: "328 \<le> length (th_unit_temp s)" using ok by (simp add: thermal_ok_def)
  have "2 \<le> n" using assms(1) by (simp add: loop_setup_ok_def)
  then have lev: "0 \<le> gv_freq_lev (th_governor s)" "gv_freq_lev (th_governor s) < n"
    using gov start by (auto simp: governed_def gov_rel_def gov_ok_def)
  have "getDramCntlrTemp v s \<noteq> None \<and> (\<forall>b<8. getDramBankTemp v b s \<noteq> None)" if v: "v < 32" for v
  proof (intro conjI allI impI)
    have v32: "unat v < 32" using v by (simp add: word_less_nat_alt)
    then show "getDramCntlrTemp v s \<noteq> None" using sensor_index(2)[OF v, of 0] len by (simp add: getDramCntlrTemp_def fetch_def)
    fix b :: u32 assume b: "b < 8"
    then have "unat b < 8" by (simp add: word_less_nat_alt)
    then show "getDramBankTemp v b s \<noteq> None"
      unfolding getDramBankTemp_def fetch_def sensor_index(1)[OF v b] using v32 len by simp
  qed
  then show ?thesis using s(1) out lev by blast
qed

text \<open>C2: One round of the loop cools the memory. In the setting of the previous property with the redirecting policy
  switched on, let a record follow any sequence of calls. If HotSpot is asked for temperatures
  (it is asked once the dynamic power of the processor has been above one milliwatt), then every
  set of the cache is afterwards either reported disabled or redirected to a bank whose temperature sensor,
  which now shows what HotSpot returned, is below the hot threshold; and with one of the two throttling
  methods the frequency level has moved by the reference rule for the averages (or the maxima) of the ten
  unit temperatures of each core and the hottest bank.\<close>

theorem thermal_round_cools:
  fixes E :: "('t::{comm_monoid_add, minus, linorder}, 'd, 'p, 'h) thermal_env"
  assumes "loop_setup_ok E dinv dram (vault_size, bank_size, row_size) cps freq n raw temps r"
    and "\<forall>e\<in>set es. thermal_event_ok (bank_size div row_size) e" and "policy_cfg (en_cfg (te_up E))"
  shows "\<exists>s s'. (start_thermal E uninit dram (vault_size, bank_size, row_size) cps latency freq n freq_of raw temps trace hotspot reverse r \<bind>
       foldM (thermal_step E) es) = Some s \<and> recordStats E inROI isDefault recordMetric now s = Some s' \<and> th_registry s = r \<and>
     (calls_hotspot recordMetric s \<longrightarrow>
       (\<forall>x. unat x < 32 * 8 * unat (bank_size div row_size) \<longrightarrow> (\<exists>dis t v b row temp.
          checkSetDisabled (en_floorLog2 (te_up E)) (en_cfg (te_up E)) x (th_unison s') = Some (dis, th_unison s') \<and>
          getRemapSet (en_floorLog2 (te_up E)) (en_cfg (te_up E)) x (th_unison s') = Some (t, th_unison s') \<and>
          splitSetNum (en_floorLog2 (te_up E)) (en_cfg (te_up E)) t (th_unison s') = Some ((v, b, row), th_unison s') \<and>
          getDramBankTemp v b s' = Some temp \<and>
          (\<not> dis \<longrightarrow> temp < real (unat (cf_high_temp_thres (en_cfg (te_up E))))))) \<and>
       (dt_method (te_dtm E) \<in> {1, 2} \<longrightarrow> gv_freq_lev (th_governor s') = int (level_after (nat n - 1)
          (dtm_hot (te_dtm E) (cpu_readings (te_temperature_type E) (th_unit_temp s')) (hottest_of (drop 72 (take 328 (th_unit_temp s')))))
          (nat (gv_freq_lev (th_governor s))))))"
proof -
  let ?cfg = "en_cfg (te_up E)" and ?fl = "en_floorLog2 (te_up E)" and ?nr = "bank_size div row_size"
  obtain d0 g0 s where start: "length (gv_freq_table g0) = nat n" and
    s: "start_thermal E uninit dram (vault_size, bank_size, row_size) cps latency freq n freq_of raw temps trace hotspot reverse r \<bind>
       foldM (thermal_step E) es = Some s" "thermal_inv E dinv ?nr d0 g0 (policy_cfg ?cfg) (cf_high_temp_thres ?cfg) r s"
    using loop_reaches[OF assms(1,2)] by blast
  then have reg: "th_registry s = r" by (simp add: thermal_inv_def)
  obtain a where ok: "thermal_ok E dinv ?nr s" "governed E d0 g0 a s" "redirects E (th_unison s)"
    using s(2) assms(3) by (auto simp: thermal_inv_def)
  obtain s' where s': "recordStats E inROI isDefault recordMetric now s = Some s'" "round_done E dinv ?nr d0 g0 a s s'"
    "th_start_hotspot s' \<longleftrightarrow> calls_hotspot recordMetric s"
    using recordStats_runs[OF ok(1,2), of inROI isDefault recordMetric now] by (auto simp: runs_iff)
  have high: "rm_high_thres (up_remap_manager (th_unison s')) = cf_high_temp_thres ?cfg"
    using round_keeps[OF s(2) s'(2)] by (simp add: thermal_inv_def)
  have cool: "\<exists>dis t v b row temp. checkSetDisabled ?fl ?cfg x (th_unison s') = Some (dis, th_unison s') \<and>
      getRemapSet ?fl ?cfg x (th_unison s') = Some (t, th_unison s') \<and> splitSetNum ?fl ?cfg t (th_unison s') = Some ((v, b, row), th_unison s') \<and>
      getDramBankTemp v b s' = Some temp \<and> (\<not> dis \<longrightarrow> temp < real (unat (cf_high_temp_thres ?cfg)))"
    if hs: "th_start_hotspot s'" and x: "unat x < 32 * 8 * unat ?nr" for x
    by (rule cool_sensor[OF s'(2) ok(3) hs x high])
  have "gv_freq_lev (th_governor s') = int (level_after (nat n - 1)
          (dtm_hot (te_dtm E) (cpu_readings (te_temperature_type E) (th_unit_temp s')) (hottest_of (drop 72 (take 328 (th_unit_temp s')))))
          (nat (gv_freq_lev (th_governor s))))" if "th_start_hotspot s'" "dt_method (te_dtm E) \<in> {1, 2}"
  proof -
    have "\<exists>a'. governed E d0 g0 a' s' \<and> a' = moved_with E g0 (th_unit_temp s') a" using s'(2) that unfolding round_done_def by blast
    then obtain a' where a': "governed E d0 g0 a' s'" "a' = moved_with E g0 (th_unit_temp s') a" by blast
    have "gv_freq_lev (th_governor s) = int (fst a)" "gv_freq_lev (th_governor s') = int (fst a')"
      using ok(2) a'(1) by (simp_all add: governed_def gov_rel_def)
    then show ?thesis using a'(2) that(2) start by (simp add: moved_with_def next_state_def)
  qed
  then show ?thesis using s(1) s'(1,3) reg cool by blast
qed


text \<open>
  An instance: the memory of 32 vaults with 8 banks and 2048 rows, four cores in two domains, a HotSpot that
  reports 95 degrees for unit 100 (vault 28, bank 0) and 70 for the others, and metrics of one watt.
\<close>

definition demo_thermal :: "(nat, unit, real, unit) thermal_env" where
  "demo_thermal = \<lparr>te_up = demo_env, te_getFS = of_nat, te_MS1 = 1000000, te_fromFreqHz = id, te_getPeriod = (\<lambda>p. nat \<lfloor>p\<rfloor>),
     te_initHotSpot = (\<lambda>_ _ _ h. h), te_calculateTemperature = (\<lambda>_ _ ts. ((map (\<lambda>_. 70) ts)[100 := 95], ())),
     te_app_cores = 4, te_dtm = \<lparr>dt_cpu_temp_thres = 80, dt_dram_temp_thres = 85, dt_method = 2\<rparr>, te_temperature_type = 0,
     te_power_scale = 10, te_record_power = True, te_pt_num = 1, te_default_init_temp = False\<rparr>"

definition demo_metrics :: "unit registry" where
  "demo_metrics = \<lparr>rg_keyid = 1, rg_objects = map (\<lambda>n. ((n, ''power-dynamic''), 1, map (\<lambda>i. (i, ())) [0, 1, 2, 3]))
     (''peak_processor'' # ''processor'' # ''mc'' # core_metrics), rg_names = []\<rparr>"

definition demo_start :: "(nat, unit, real, unit, unit) thermal option" where
  "demo_start = start_thermal demo_thermal (0, 0, 0, 0) () (128 * 1024, 16 * 1024, 8) 2 0 2.66 5 (\<lambda>_. 2.66) idle_power
     (replicate 8192 0) ([], []) () False demo_metrics"

lemma demo_metrics_ok: "power_registered demo_metrics"
  by (simp add: power_registered_def demo_metrics_def power_metrics_def core_metrics_def getMetricObject_def)

lemma demo_setup: "loop_setup_ok demo_thermal (\<lambda>_. True) () (128 * 1024, 16 * 1024, 8) 2 2.66 5 idle_power (replicate 8192 0) demo_metrics"
proof -
  have "pow2_geometry 32 8 2048"
    unfolding pow2_geometry_def by (rule exI[of _ 5], rule exI[of _ 3], rule exI[of _ 11]) simp
  moreover have "up_env_ok 32 8 (te_up demo_thermal) (\<lambda>_. True)" by (simp add: demo_thermal_def demo_env_ok)
  moreover have "cf_addr_map (en_cfg (te_up demo_thermal)) = 2" "cf_n_remap (en_cfg (te_up demo_thermal)) = 1"
    by (simp_all add: demo_thermal_def demo_env_def demo_cfg_def)
  moreover have "thermal_env_ok demo_thermal" by (simp add: thermal_env_ok_def demo_thermal_def)
  ultimately show ?thesis using idle_power_ok demo_metrics_ok by (simp add: loop_setup_ok_def)
qed

theorem thermal_loop_never_fails_witness:
  "\<exists>s. (demo_start \<bind> foldM (thermal_step demo_thermal) [DramCall (UAccess 5 64 77 DramBank.READ), RecordStats True (\<lambda>_. False) (\<lambda>_. 1000000) 2000000,
       DramCall (UAccess 3000000 64 4095 DramBank.WRITE), RecordStats True (\<lambda>_. False) (\<lambda>_. 1000000) 2000000]) = Some s \<and>
     up_out (th_unison s) = []"
  using thermal_loop_never_fails[OF demo_setup, where uninit = "(0, 0, 0, 0)" and latency = 0 and freq_of = "\<lambda>_. 2.66" and trace = "([], [])"
      and hotspot = "()" and reverse = False and es = "[DramCall (UAccess 5 64 77 DramBank.READ), RecordStats True (\<lambda>_. False) (\<lambda>_. 1000000) 2000000,
       DramCall (UAccess 3000000 64 4095 DramBank.WRITE), RecordStats True (\<lambda>_. False) (\<lambda>_. 1000000) 2000000]"]
  by (auto simp: demo_start_def)

theorem thermal_round_cools_witness:
  "\<exists>s s'. (demo_start \<bind> foldM (thermal_step demo_thermal) [DramCall (UAccess 5 64 77 DramBank.READ)]) = Some s \<and>
     recordStats demo_thermal True (\<lambda>_. False) (\<lambda>_. 1000000) 2000000 s = Some s' \<and>
     (\<exists>dis t v b row temp.
        checkSetDisabled demo_log2 demo_cfg 57344 (th_unison s') = Some (dis, th_unison s') \<and>
        getRemapSet demo_log2 demo_cfg 57344 (th_unison s') = Some (t, th_unison s') \<and>
        splitSetNum demo_log2 demo_cfg t (th_unison s') = Some ((v, b, row), th_unison s') \<and>
        getDramBankTemp v b s' = Some temp \<and> (\<not> dis \<longrightarrow> temp < 85))"
proof -
  have p: "policy_cfg (en_cfg (te_up demo_thermal))" by (simp add: policy_cfg_def demo_thermal_def demo_env_def demo_cfg_def)
  have c: "en_cfg (te_up demo_thermal) = demo_cfg" "en_floorLog2 (te_up demo_thermal) = demo_log2" "cf_high_temp_thres demo_cfg = 85"
    by (simp_all add: demo_thermal_def demo_env_def demo_cfg_def)
  have e: "\<forall>e\<in>set [DramCall (UAccess 5 64 77 DramBank.READ)]. thermal_event_ok (16 * 1024 div 8) e" by simp
  obtain s s' where s: "(demo_start \<bind> foldM (thermal_step demo_thermal) [DramCall (UAccess 5 64 77 DramBank.READ)]) = Some s"
    "recordStats demo_thermal True (\<lambda>_. False) (\<lambda>_. 1000000) 2000000 s = Some s'" "th_registry s = demo_metrics"
    "calls_hotspot (\<lambda>_. 1000000) s \<longrightarrow> (\<forall>x. unat x < 32 * 8 * unat (16 * 1024 div 8 :: u32) \<longrightarrow> (\<exists>dis t v b row temp.
        checkSetDisabled demo_log2 demo_cfg x (th_unison s') = Some (dis, th_unison s') \<and>
        getRemapSet demo_log2 demo_cfg x (th_unison s') = Some (t, th_unison s') \<and>
        splitSetNum demo_log2 demo_cfg t (th_unison s') = Some ((v, b, row), th_unison s') \<and>
        getDramBankTemp v b s' = Some temp \<and> (\<not> dis \<longrightarrow> temp < real (unat (85 :: u32)))))"
    using thermal_round_cools[OF demo_setup e p, where uninit = "(0, 0, 0, 0)" and latency = 0 and freq_of = "\<lambda>_. 2.66" and trace = "([], [])"
      and hotspot = "()" and reverse = False and inROI = True and isDefault = "\<lambda>_. False" and recordMetric = "\<lambda>_. 1000000" and now = 2000000]
    unfolding c demo_start_def[symmetric] by blast
  have "calls_hotspot (\<lambda>_. 1000000) s" by (simp add: calls_hotspot_def s(3) demo_metrics_def getMetricObject_def)
  moreover have "unat (57344 :: u32) < 32 * 8 * unat (16 * 1024 div 8 :: u32)" by simp
  moreover have "real (unat (85 :: u32)) = 85" by simp
  ultimately have "\<exists>dis t v b row temp. checkSetDisabled demo_log2 demo_cfg 57344 (th_unison s') = Some (dis, th_unison s') \<and>
        getRemapSet demo_log2 demo_cfg 57344 (th_unison s') = Some (t, th_unison s') \<and>
        splitSetNum demo_log2 demo_cfg t (th_unison s') = Some ((v, b, row), th_unison s') \<and>
        getDramBankTemp v b s' = Some temp \<and> (\<not> dis \<longrightarrow> temp < 85)"
    using s(4) by metis
  then show ?thesis using s(1,2) by blast
qed

end
