(* ===== verification/Spec2Isabelle.thy ===== *)
theory Spec2Isabelle
  imports VaultRemap BankRemap Whole_Stack Ram_Loops Ram_Pages AlloyCache SegmentModel PageCache Dvfs PowerModel StatsRegistry ThermalLoop
begin

text \<open>
  This library models the thermal management of the stacked DRAM in \<^verbatim>\<open>sniper_zip\<close>, a version of the Sniper
  multi-core simulator with a 3D-stacked memory, and proves what makes each part correct. Paths below are
  relative to \<^verbatim>\<open>src/\<close>.

  \<^bold>\<open>The program.\<close> A request of a core reaches the DRAM performance model (\<^verbatim>\<open>DramPerfModelNormal\<close>), which looks it up in the
  Unison cache, a set-associative cache of pages in the stacked DRAM. The cache asks the stacked DRAM
  controller (\<^verbatim>\<open>StackedDramPerfUnison\<close>) for the latency of a cache set; a set number is cut into a vault (a
  channel), a bank and a row. The controller counts the access in the remapping manager and asks the DRAM
  simulator Ramulator for the clocks. Periodically \<^verbatim>\<open>StatsManager::recordStats\<close> reads the counters of all
  banks, turns them into power, writes a power trace, and HotSpot computes from it the temperature of every
  unit. The temperatures go to the remapping manager, which disables hot banks or redirects
  them to cool ones, and to the DVFS governor, which lowers or raises the frequency of the cores. The cache
  then flushes the sets of the banks that were moved.

  \<^bold>\<open>Theories and sources.\<close>
  \<^item> \<^verbatim>\<open>Sniper_Prelude\<close>: machine words, arrays with checked indices, loops (\<open>foldM\<close> over \<open>u32_range\<close>), ordered maps, the
    total-correctness predicate \<open>runs\<close> and its partial counterpart \<open>ensures\<close>, and the locale \<open>served\<close>: the contract of
    a component that serves every sequence of its calls. Its weaker form \<open>served_until\<close> (a sublocale) is that of a component
    that serves a sequence up to a call that is known to fail.
  \<^item> \<^verbatim>\<open>DramBank\<close> (\<^verbatim>\<open>performance_model/dram_bank\<close>, \<^verbatim>\<open>dram_vault\<close>): row buffers, the table of command delays and
    the commands of a request (\<open>processCommand\<close>, \<open>processRequest\<close>).
  \<^item> \<^verbatim>\<open>Swap_Table\<close>, \<^verbatim>\<open>BankRemap\<close>, \<^verbatim>\<open>VaultRemap\<close> (\<^verbatim>\<open>bank_remap\<close>, \<^verbatim>\<open>vault_remap\<close>): the two remapping tables; the locales
    \<open>entry_table\<close> and \<open>swap_table\<close> hold the argument they share, that the tables are involutions.
  \<^item> \<^verbatim>\<open>Remapping\<close>, \<^verbatim>\<open>Remapping_Inv\<close>, \<^verbatim>\<open>Remapping_Props\<close> (\<^verbatim>\<open>remapping\<close>): \<open>remap_manager\<close> with a store of \<open>bank_stat\<close> records,
    both policies of \<open>runMechanism\<close>, the counters of hot rows. \<open>Remapping_Inv\<close> relates a manager to an abstract
    \<open>pairing\<close> of banks and proves that every operation refines one on pairings.
  \<^item> \<^verbatim>\<open>StackedDram\<close> (\<^verbatim>\<open>stacked_dram_cntlr\<close>): the controllers; \<open>up_step\<close> are the calls the rest of the program makes.
    The DRAM simulator is a record \<open>dram_if\<close> of operations with the contract \<open>dram_total\<close>. The locale \<open>codec\<close> carries the
    numbering of sets.
  \<^item> \<^verbatim>\<open>UnisonCache\<close>, \<^verbatim>\<open>UnisonCntlr\<close>, \<^verbatim>\<open>UnisonProps\<close> (\<^verbatim>\<open>dram_perf_model_normal\<close>): pages, sets, the cache controller with
    \<open>ProcessRequest\<close> and \<open>checkRemapping\<close>, and the performance model.
  \<^item> \<^verbatim>\<open>Ram_HBM\<close>, \<^verbatim>\<open>Ram_DRAM\<close>, \<^verbatim>\<open>Ram_Controller\<close>, \<^verbatim>\<open>Ram_Memory\<close> (\<^verbatim>\<open>performance_model/ramulator\<close>): the tables of the HBM standard, the
    tree of channel, ranks and banks, scheduler, row table, refresh generator and controller clock,
    configuration, address slicing, page allocator and \<open>DramModel\<close>. \<^verbatim>\<open>Ram_Tree\<close>, \<^verbatim>\<open>Ram_Sched\<close>, \<^verbatim>\<open>Ram_Ctrl\<close>, \<^verbatim>\<open>Ram_Addr\<close>,
    \<^verbatim>\<open>Ram_Model\<close> and \<^verbatim>\<open>Ram_Events\<close> build the invariant of a running model; \<^verbatim>\<open>Ram_Timing\<close>, \<^verbatim>\<open>Ram_Trace\<close> and \<^verbatim>\<open>Ram_Fresh\<close> add
    properties through the locale \<open>ctrl_property\<close>; \<^verbatim>\<open>Ram_Props\<close>, \<^verbatim>\<open>Ram_More\<close>, \<^verbatim>\<open>Ram_Loops\<close> and \<^verbatim>\<open>Ram_Pages\<close> hold the properties.
  \<^item> \<^verbatim>\<open>Whole_Stack\<close>: the Unison stack with the model of Ramulator in the place of \<open>dram_if\<close>.
  \<^item> \<^verbatim>\<open>AlloyCache\<close> (\<^verbatim>\<open>dram_perf_model_alloy\<close>), \<^verbatim>\<open>SegmentModel\<close> (\<^verbatim>\<open>dram_perf_model_constant\<close>): the two other memory
    models, a direct-mapped cache of blocks and a memory that keeps hot segments.
  \<^item> \<^verbatim>\<open>PageCache\<close> (\<^verbatim>\<open>cache_page_info\<close>, \<^verbatim>\<open>cache_set_page_lru\<close>, \<^verbatim>\<open>stacked_llc_power_model\<close>): the page cache behind the last-level
    cache. Its set class contains an unresolved merge conflict; which side is taken is a parameter.
  \<^item> \<^verbatim>\<open>Dvfs\<close> (\<^verbatim>\<open>system/dvfs_manager\<close>, part of \<^verbatim>\<open>misc/stats\<close>): clock domains, frequency table and \<open>checkDTM\<close>.
  \<^item> \<^verbatim>\<open>PowerModel\<close>, \<^verbatim>\<open>StatsRegistry\<close>, \<^verbatim>\<open>ThermalLoop\<close> (\<^verbatim>\<open>misc/stats\<close>): power formulas and power trace, metric registry and
    histograms, and \<open>recordStats\<close> with \<open>callHotSpot\<close>, which closes the loop over all of the above.
  \<^item> This theory: the property of the remapping manager as the cache sees it through the controller.

  \<^bold>\<open>State and operations.\<close> A class is a record, an array of pointers a list of records (a store addressed by index where
  the code keeps several pointers into it), an operation a function from the state to \<open>state option\<close>. \<open>None\<close> is
  undefined behaviour or an abort: an index out of range, a failed assertion, a fatal error message, a shift that is too wide, a
  division by zero. Memory that the code reads before it sets it holds arbitrary values, which are arguments (\<open>uninit\<close>, \<open>raw\<close>).
  Error lines that the code prints and then goes on are appended to a list in the state, so that their absence
  can be stated. \<^verbatim>\<open>UInt32\<close> and \<^verbatim>\<open>UInt64\<close> are words and wrap; the \<^verbatim>\<open>long\<close> clocks of Ramulator are \<open>int\<close>; \<^verbatim>\<open>float\<close> and
  \<^verbatim>\<open>double\<close> are reals. Bounded loops are folds; the three loops whose end is not evident (\<open>calc_log2_loop\<close>,
  \<open>next_free_page\<close>, \<open>stall_loop\<close>) are partial functions whose result \<open>None\<close> includes not returning, and their
  termination is a theorem. The one that can run for ever is told apart from a failure by the coinductive predicate
  \<open>replays_forever\<close>: every attempt returns and asks for the next one. No fuel is used anywhere.

  \<^bold>\<open>What is proved.\<close>
  \<^item> Safety of the whole: \<open>thermal_safety\<close>, \<open>remapped_sets_are_cool\<close> and \<open>thermal_round_cools\<close> (no usable bank, set or sensor
    stays above the hot threshold after a run of the mechanism); \<open>manager_never_fails\<close>, \<open>controller_never_fails\<close>,
    \<open>cache_never_fails\<close>, \<open>dram_model_never_fails\<close>, \<open>whole_stack_never_fails\<close> and \<open>thermal_loop_never_fails\<close> (every sequence of
    calls returns, prints no error and keeps the state well formed). For the Unison cache (\<open>cache_never_fails\<close>,
    \<open>whole_stack_never_fails\<close>) this holds up to the first request for block 0 of a page that its enabled set holds, where
    \<open>page_accessBlock\<close> reaches a shift by \<open>2^32 - 1\<close> and is \<open>None\<close>.
  \<^item> Refinement and equivalence: the Unison, the Alloy and the page cache behave as abstract direct-mapped caches, \<open>resetBank\<close> as an unpairing, the
    governor as a saturating counter, the scheduler as a first-come first-served choice by classes, the
    segment model as a choice of the hottest segment.
  \<^item> Ramulator: command distances (every entry of the timing table, the four-activate window \<open>nFAW\<close> included), refresh
    of every bank, row table, latency bounds, page translation, termination and divergence of the replay loops.
  \<^item> Round trips, bounds and errors: set numbers, row addresses, registered statistics; row counters, latencies, miss
    rate, the power of every bank and controller; and the places where the code does something else than it means to
    (\<open>physical_index_collapses\<close>, \<open>block_hit_reads_neighbour\<close>, \<open>only_first_way_used\<close>, \<open>bank_balance_ignores_candidates\<close>,
    \<open>power_trace_columns\<close>, \<open>read_replay_diverges\<close>).

  \<^bold>\<open>Parameters and hypotheses.\<close> Code outside the repository is an argument: \<^verbatim>\<open>floorLog2\<close> (\<open>floorLog2_ok\<close>: exact on powers of
  two; \<open>floorLog2_exact\<close> where other numbers are passed), the constructors and accessors of \<^verbatim>\<open>SubsecondTime\<close> and \<^verbatim>\<open>ComponentPeriod\<close>,
  \<^verbatim>\<open>getRoundedLatency\<close>, configuration values, the random numbers of the page allocator, and HotSpot
  (\<open>thermal_env_ok\<close>: it overwrites the vector of temperatures in place). The contract \<open>dram_total\<close> of the DRAM
  simulator is discharged for the model of Ramulator by \<open>ramulator_total\<close>. Geometries are powers of two (\<open>pow2_geometry\<close>);
  Ramulator's configuration satisfies \<open>geometry_ok\<close> (refreshes of all banks fit into half a refresh interval, so
  the queue of 32 entries per kind and one refresh per bank never overflows), and \<open>shipped_config\<close>, the configuration
  file of the repository, does. The thermal loop assumes the 328 units of the shipped floorplan: ten per core for four
  cores, 32 controllers and 256 banks.

  \<^bold>\<open>Not modelled.\<close> \<^verbatim>\<open>cache_cntlr\<close> (the coherent cache controller of upstream Sniper; the memory manager it
  works on is not in the repository); HotSpot (\<^verbatim>\<open>misc/HotSpot\<close>, a third-party floating-point solver);
  \<^verbatim>\<open>new_remapping\<close> (copies of an earlier version of modelled files); \<^verbatim>\<open>StackedLlcPowerModel\<close> (objects that nothing uses); the SQL
  statements, log files, event log and reports of \<^verbatim>\<open>misc/stats\<close>; the statistics wrapper types of
  Ramulator; \<^verbatim>\<open>ShmemPerf\<close>; console output other than error lines.
\<close>

section \<open>Properties that span components\<close>

text \<open>C3: After a remapping run every usable set is served by a cool bank. The controller is well
  formed, remapping is enabled with the redirecting policy and has temperatures, and the recovery
  threshold is not above the hot one. Then \<^verbatim>\<open>tryRemapping\<close> returns, and for every set number in range
  the cache either learns from \<^verbatim>\<open>checkSetDisabled\<close> that the set is disabled, or the set that
  \<^verbatim>\<open>getRemapSet\<close> gives it lies in a bank whose temperature is below the hot threshold.\<close>

theorem remapped_sets_are_cool:
  assumes "up_ok cfg u" and "floorLog2_ok floorLog2" and "up_remapped u" and "up_enable_remap u"
    and "cf_n_remap cfg = 1"
    and "rm_remap_thres (up_remap_manager u) \<le> rm_high_thres (up_remap_manager u)"
    and "unat s < unat (up_n_vaults u) * unat (up_n_banks u) * unat (up_n_rows u)"
  shows "\<exists>u' dis t v b r. tryRemapping u = Some u' \<and>
     checkSetDisabled floorLog2 cfg s u' = Some (dis, u') \<and>
     getRemapSet floorLog2 cfg s u' = Some (t, u') \<and>
     splitSetNum floorLog2 cfg t u' = Some ((v, b, r), u') \<and>
     (\<not> dis \<longrightarrow> pb_temperature (rm_phy_banks (up_remap_manager u') ! unat (getBankId (up_remap_manager u') v b))
        < real (unat (rm_high_thres (up_remap_manager u))))"
proof -
  obtain u' where u': "tryRemapping u = Some u'" "up_ok cfg u'" "up_geo u' = up_geo u" "same_policy u u'"
    "\<forall>i<unat (rm_tot_banks (up_remap_manager u')). bank_safe (up_remap_manager u') i"
    using tryRemapping_cool[OF assms(1,3,4,5,6)] by (auto simp: runs_iff)
  have "unat s < set_count u'" using assms(7) u'(3) by (simp add: set_count_def up_geo_def)
  from safe_sets[OF u'(2) assms(2) this u'(5)] show ?thesis
    using u'(1,4) by (auto simp: temp_of_def same_policy_def)
qed

theorem remapped_sets_are_cool_witness:
  "\<exists>u u' dis t. StackedDramPerfUnison demo_cfg (0, 0, 0, 0) () 2 256 64 8 \<bind>
        unison_updateTemperature demo_dram True demo_cfg 1 3 95 = Some (u :: (nat, unit) unison_perf) \<and>
     tryRemapping u = Some u' \<and> checkSetDisabled demo_log2 demo_cfg 63 u' = Some (dis, u') \<and>
     getRemapSet demo_log2 demo_cfg 63 u' = Some (t, u')"
proof -
  obtain u0 :: "(nat, unit) unison_perf" where u0: "StackedDramPerfUnison demo_cfg (0, 0, 0, 0) () 2 256 64 8 = Some u0"
    "up_inv demo_env (\<lambda>_. True) (2, 4, 8) u0" using demo_unison by blast
  then have ok0: "up_ok demo_cfg u0" "up_n_vaults u0 = 2" "up_n_banks u0 = 4" "up_n_rows u0 = 8"
    by (auto simp: up_inv_def demo_env_def up_geo_def)
  have D: "dram_total (up_n_vaults u0) (up_n_banks u0) demo_dram (\<lambda>_. True)" using demo_env_ok by (simp add: up_env_ok_def demo_env_def)
  obtain u where u: "unison_updateTemperature demo_dram True demo_cfg 1 3 95 u0 = Some u" "up_ok demo_cfg u" "up_geo u = (2, 4, 8)"
    using updateTemperature_ok[OF ok0(1) _ _ D, of 1 3] ok0 by (auto simp: runs_iff up_geo_def)
  have fixed: "up_enable_remap u0" "rm_high_thres (up_remap_manager u0) = 85" "rm_remap_thres (up_remap_manager u0) = 80"
    using u0(1) by (auto simp: StackedDramPerfUnison_def demo_cfg_def setRemapConfig_def RemappingManager_def Let_def guard_def
        split: bind_splits if_splits)
  have "up_remapped u \<and> up_enable_remap u \<and> rm_high_thres (up_remap_manager u) = 85 \<and> rm_remap_thres (up_remap_manager u) = 80"
    using u(1) fixed
    by (auto simp: unison_updateTemperature_def updateTemperature_def phy_upd_def set_bank_hot_def demo_dram_def Let_def
        split: bind_splits if_splits)
  then show ?thesis
    using remapped_sets_are_cool[of demo_cfg u demo_log2 63] u u0(1) demo_log2_ok
    by (auto simp: up_geo_def demo_cfg_def)
qed

end
